(* ===== verification/Prelude.thy ===== *)
theory Prelude
  imports Main "HOL-Library.Word" "HOL-Library.Monad_Syntax"
begin

section \<open>Prelude: machine types, byte codecs, loops\<close>

text \<open>
  What every theory of the development shares.
  \<^item> The machine types of the Z280 C compiler: \<^verbatim>\<open>char\<close> is 8 bits, \<^verbatim>\<open>int\<close>, \<^verbatim>\<open>unsigned\<close>,
    \<^verbatim>\<open>uint16\<close> and pointers are 16 bits. Words wrap around; a signed comparison is written
    with \<open>sint\<close>.
  \<^item> The outcome of a kernel routine is an option. \<open>None\<close> says that control does not come back to
    the caller: the routine called \<^verbatim>\<open>panic()\<close> (\<open>panic\<close>), or it used a pointer that
    designates no object, for which C defines no behaviour (\<open>wild\<close>), or it sleeps for ever.
    \<open>Some (r, s)\<close> is a return with value \<open>r\<close> in the state \<open>s\<close>. Errors the kernel reports to the
    user are values: a return of -1 or NULL with \<open>u_error\<close> set.
  \<^item> The little-endian codec of 16-bit words and the patching of a byte block (\<^verbatim>\<open>bcopy\<close> into a
    buffer).
  \<^item> The two loop shapes of the sources: \<open>scan\<close>, a search for the first index, and \<open>foldM\<close>, a
    counted loop whose body may panic.
\<close>

unbundle bit_operations_syntax

named_theorems frame \<open>what an operation leaves unchanged\<close>
named_theorems inv_intro \<open>operations that keep an invariant\<close>

type_synonym u8 = "8 word"
type_synonym u16 = "16 word"
type_synonym block = "u8 list"

definition panic :: "string \<Rightarrow> 'a option" where
  "panic msg = None"

definition wild :: "'a option" where
  "wild = None"

lemma panic_not_Some [simp]: "panic msg = Some x \<longleftrightarrow> False" "panic msg \<bind> f = None"
  by (simp_all add: panic_def)

lemma wild_not_Some [simp]: "wild = Some x \<longleftrightarrow> False" "wild \<bind> f = None"
  by (simp_all add: wild_def)

lemma bind_Some_iff [simp]:
  "Option.bind m f = Some r \<longleftrightarrow> (\<exists>x. m = Some x \<and> f x = Some r)"
  by (cases m) auto

subsection \<open>Error numbers\<close>

datatype errno = NOERR | EPERM | ENOENT | ESRCH | EINTR | EIO | ENXIO | E2BIG | ENOEXEC | EBADF
  | ECHILD | EAGAIN | ENOMEM | EACCES | EFAULT | ENOTBLK | EBUSY | EEXIST | EXDEV | ENODEV
  | ENOTDIR | EISDIR | EINVAL | ENFILE | EMFILE | ENOTTY | ETXTBSY | EFBIG | ENOSPC | ESPIPE
  | EROFS | EMLINK | EPIPE

subsection \<open>Sixteen-bit words as two bytes\<close>

definition le16 :: "u8 \<Rightarrow> u8 \<Rightarrow> u16" where
  "le16 lo hi = ucast lo OR push_bit 8 (ucast hi)"

definition lo8 :: "u16 \<Rightarrow> u8" where
  "lo8 w = ucast w"

definition hi8 :: "u16 \<Rightarrow> u8" where
  "hi8 w = ucast (drop_bit 8 w)"

lemma le16_split [simp]: "le16 (lo8 w) (hi8 w) = w"
  by (rule bit_word_eqI) (auto simp: le16_def lo8_def hi8_def bit_simps)

lemma lo8_le16 [simp]: "lo8 (le16 a b) = a"
  by (rule bit_word_eqI) (auto simp: le16_def lo8_def bit_simps)

lemma hi8_le16 [simp]: "hi8 (le16 a b) = b"
  by (rule bit_word_eqI) (auto simp: le16_def hi8_def bit_simps dest: bit_imp_le_length)

fun words_bytes :: "u16 list \<Rightarrow> u8 list" where
  "words_bytes [] = []"
| "words_bytes (w # ws) = lo8 w # hi8 w # words_bytes ws"

fun bytes_words :: "u8 list \<Rightarrow> u16 list" where
  "bytes_words (a # b # bs) = le16 a b # bytes_words bs"
| "bytes_words _ = []"

lemma bytes_words_bytes [simp]: "bytes_words (words_bytes ws) = ws"
  by (induction ws) auto

lemma length_words_bytes [simp]: "length (words_bytes ws) = 2 * length ws"
  by (induction ws) auto

lemma length_bytes_words [simp]: "length (bytes_words bs) = length bs div 2"
  by (induction bs rule: bytes_words.induct) auto

lemma words_bytes_words: "even (length bs) \<Longrightarrow> words_bytes (bytes_words bs) = bs"
  by (induction bs rule: bytes_words.induct) auto

lemma words_bytes_append [simp]: "words_bytes (xs @ ys) = words_bytes xs @ words_bytes ys"
  by (induction xs) auto

lemma bytes_words_append:
  "even (length xs) \<Longrightarrow> bytes_words (xs @ ys) = bytes_words xs @ bytes_words ys"
  by (induction xs rule: bytes_words.induct) auto

lemma take_words_bytes: "take (2 * n) (words_bytes ws) = words_bytes (take n ws)"
proof (induction ws arbitrary: n)
  case Nil
  then show ?case by simp
next
  case (Cons w ws)
  then show ?case by (cases n) auto
qed

lemma drop_words_bytes: "drop (2 * n) (words_bytes ws) = words_bytes (drop n ws)"
proof (induction ws arbitrary: n)
  case Nil
  then show ?case by simp
next
  case (Cons w ws)
  then show ?case by (cases n) auto
qed

text \<open>The word at word index \<open>i\<close> of a block, as \<^verbatim>\<open>((uint16 *)buf)[i]\<close>.\<close>

definition get16 :: "block \<Rightarrow> nat \<Rightarrow> u16" where
  "get16 b i = le16 (b ! (2 * i)) (b ! (2 * i + 1))"

definition set16 :: "block \<Rightarrow> nat \<Rightarrow> u16 \<Rightarrow> block" where
  "set16 b i w = b[2 * i := lo8 w, 2 * i + 1 := hi8 w]"

lemma length_set16 [simp]: "length (set16 b i w) = length b"
  by (simp add: set16_def)

lemma get16_set16:
  "2 * i + 1 < length b \<Longrightarrow> get16 (set16 b i w) j = (if i = j then w else get16 b j)"
  by (auto simp: get16_def set16_def nth_list_update; presburger)

subsection \<open>Patching a block\<close>

text \<open>\<open>splice i bs b\<close> overwrites \<open>b\<close> from index \<open>i\<close> with \<open>bs\<close>, as \<^verbatim>\<open>bcopy(bs, b + i, n)\<close> does.\<close>

definition splice :: "nat \<Rightarrow> 'a list \<Rightarrow> 'a list \<Rightarrow> 'a list" where
  "splice i bs b = take i b @ bs @ drop (i + length bs) b"

lemma length_splice [simp]: "i + length bs \<le> length b \<Longrightarrow> length (splice i bs b) = length b"
  by (simp add: splice_def)

lemma nth_splice:
  "i + length bs \<le> length b \<Longrightarrow> k < length b \<Longrightarrow>
     splice i bs b ! k = (if i \<le> k \<and> k < i + length bs then bs ! (k - i) else b ! k)"
  by (auto simp: splice_def nth_append min_def)

lemma splice_same: "i + length bs \<le> length b \<Longrightarrow> take (length bs) (drop i (splice i bs b)) = bs"
  by (simp add: splice_def)

lemma splice_whole: "length bs = length b \<Longrightarrow> splice 0 bs b = bs"
  by (simp add: splice_def)

lemma splice_disjoint:
  assumes "i + length bs \<le> length b"
    and "j + n \<le> i \<or> i + length bs \<le> j"
  shows "take n (drop j (splice i bs b)) = take n (drop j b)"
proof (rule nth_equalityI)
  show "length (take n (drop j (splice i bs b))) = length (take n (drop j b))"
    using assms(1) by simp
next
  fix k
  assume "k < length (take n (drop j (splice i bs b)))"
  then show "take n (drop j (splice i bs b)) ! k = take n (drop j b) ! k"
    using assms by (auto simp: nth_splice)
qed

subsection \<open>Loops\<close>

text \<open>\<open>scan P i n\<close>: \<^verbatim>\<open>for (j = i; j < n; ++j) if (P(j)) return j;\<close>\<close>

function scan :: "(nat \<Rightarrow> bool) \<Rightarrow> nat \<Rightarrow> nat \<Rightarrow> nat option" where
  "scan P i n = (if i < n then if P i then Some i else scan P (Suc i) n else None)"
  by pat_completeness auto
termination
  by (relation "measure (\<lambda>(P, i, n). n - i)") auto

declare scan.simps [simp del]

lemma scan_Some_iff:
  "scan P i n = Some k \<longleftrightarrow> i \<le> k \<and> k < n \<and> P k \<and> (\<forall>j. i \<le> j \<longrightarrow> j < k \<longrightarrow> \<not> P j)"
proof (induction P i n rule: scan.induct)
  case (1 P i n)
  show ?case
  proof (cases "i < n \<and> \<not> P i")
    case True
    then have "scan P i n = scan P (Suc i) n" by (simp add: scan.simps [of P i n])
    with 1 True show ?thesis
      by (auto simp: Suc_le_eq) (metis le_eq_less_or_eq)+
  next
    case False
    then show ?thesis
      by (auto simp: scan.simps [of P i n] le_eq_less_or_eq)
  qed
qed

lemma scan_None_iff: "scan P i n = None \<longleftrightarrow> (\<forall>k. i \<le> k \<longrightarrow> k < n \<longrightarrow> \<not> P k)"
proof (induction P i n rule: scan.induct)
  case (1 P i n)
  show ?case
  proof (cases "i < n \<and> \<not> P i")
    case True
    then have "scan P i n = scan P (Suc i) n" by (simp add: scan.simps [of P i n])
    with 1 True show ?thesis by (metis Suc_leI le_eq_less_or_eq Suc_le_lessD less_imp_le)
  next
    case False
    then show ?thesis by (auto simp: scan.simps [of P i n])
  qed
qed

text \<open>\<open>foldM f xs s\<close> runs \<open>f x\<close> for each \<open>x\<close> of \<open>xs\<close> in order; it stops where a run does not return.\<close>

primrec foldM :: "('a \<Rightarrow> 's \<Rightarrow> 's option) \<Rightarrow> 'a list \<Rightarrow> 's \<Rightarrow> 's option" where
  "foldM f [] s = Some s"
| "foldM f (x # xs) s = Option.bind (f x s) (foldM f xs)"

lemma foldM_append: "foldM f (xs @ ys) s = Option.bind (foldM f xs s) (foldM f ys)"
  by (induction xs arbitrary: s) (auto simp: Option.bind_assoc split: Option.bind_split)

lemma foldM_invariant:
  assumes "foldM f xs s = Some t" and "I s"
    and "\<And>x s t. x \<in> set xs \<Longrightarrow> I s \<Longrightarrow> f x s = Some t \<Longrightarrow> I t"
  shows "I t"
  using assms by (induction xs arbitrary: s) auto

lemma foldM_total:
  assumes "I s" and "\<And>x s. x \<in> set xs \<Longrightarrow> I s \<Longrightarrow> \<exists>t. f x s = Some t \<and> I t"
  shows "\<exists>t. foldM f xs s = Some t \<and> I t"
  using assms
proof (induction xs arbitrary: s)
  case Nil
  then show ?case by simp
next
  case (Cons x xs)
  then obtain u where "f x s = Some u" "I u" by (meson list.set_intros(1))
  with Cons show ?case by auto
qed

subsection \<open>Table updates\<close>

lemma nth_update_same [simp]: "i < length xs \<Longrightarrow> (xs[i := x]) ! i = x"
  by simp

lemma list_update_same: "xs ! i = x \<Longrightarrow> xs[i := x] = xs"
  by auto

lemma map_update_same: "f x = f (xs ! i) \<Longrightarrow> map f (xs[i := x]) = map f xs"
  by (metis list_update_id map_update)

subsection \<open>Words and natural numbers\<close>

lemma unat_u16_less [simp]: "unat (w :: u16) < 65536"
  by (rule less_le_trans [OF unsigned_less]) simp

lemma unat_u8_less [simp]: "unat (w :: u8) < 256"
  by (rule less_le_trans [OF unsigned_less]) simp

lemma unat_plus1_u16: "unat (w :: u16) < 65535 \<Longrightarrow> unat (w + 1) = unat w + 1"
  by (simp add: unat_word_ariths)

lemma unat_minus1_u16: "w \<noteq> 0 \<Longrightarrow> unat ((w :: u16) - 1) = unat w - 1"
  by (metis unat_minus_one)

lemma unat_ucast_u8: "unat (ucast (w :: u16) :: u8) = unat w mod 256"
  by (simp add: unsigned_ucast_eq take_bit_eq_mod)

lemma unat_ucast_u16: "unat (ucast (w :: u8) :: u16) = unat w"
  by (simp add: unsigned_ucast_eq take_bit_nat_eq_self_iff less_le_trans [OF unsigned_less])

lemma sint_small:
  assumes "unat (w :: u16) < 32768"
  shows "sint w = int (unat w)"
proof -
  have u: "int (unat w) = uint w" by simp
  then have "uint w < 32768" "- 32768 \<le> uint w" using assms by linarith+
  then have "signed_take_bit 15 (uint w) = uint w" by (intro signed_take_bit_int_eq_self) simp_all
  then show ?thesis by (simp add: sint_uint)
qed

lemma uint16_range: "0 \<le> uint (w :: u16)" "uint w < 65536"
  using unsigned_greater_eq [of w] unsigned_less [of w] by auto

lemma uint_add_int:
  assumes "0 \<le> k" "uint (w :: u16) + k < 65536"
  shows "uint (w + word_of_int k) = uint w + k"
proof -
  have "uint (w + word_of_int k) = (uint w + k) mod 65536" by (simp add: uint_word_ariths uint_word_of_int mod_add_right_eq)
  also have "\<dots> = uint w + k" using assms by simp
  finally show ?thesis .
qed

lemma uint_sub_mod: "uint ((w :: u16) - word_of_int k) = (uint w - k) mod 65536"
  by (simp add: uint_word_ariths uint_word_of_int mod_diff_right_eq)

lemma uint_sub_int:
  assumes "0 \<le> k" "k \<le> uint (w :: u16)"
  shows "uint (w - word_of_int k) = uint w - k"
  unfolding uint_sub_mod using assms uint16_range(2) [of w] by (intro mod_pos_pos_trivial) linarith+

lemma uint_sub_wrap:
  assumes "k \<le> 512" "uint (w :: u16) < k"
  shows "uint (w - word_of_int k) = uint w - k + 65536"
proof -
  have "(uint w - k) mod 65536 = (uint w - k + 65536) mod 65536" by simp
  also have "\<dots> = uint w - k + 65536" using assms uint16_range(1) [of w] by (intro mod_pos_pos_trivial) linarith+
  finally show ?thesis by (simp only: uint_sub_mod)
qed

lemma sint_cases16: "sint (w :: u16) = (if uint w < 32768 then uint w else uint w - 65536)"
proof (cases "uint w < 32768")
  case True
  then have "unat w < 32768" by (metis of_nat_less_iff of_nat_numeral uint_nat)
  then show ?thesis using True sint_small [of w] by simp
next
  case False
  then have "uint w div 32768 = 1" using uint16_range(2) [of w] by linarith
  then have "bit (uint w) 15" by (simp add: bit_iff_odd)
  moreover have "take_bit 16 (uint w) = uint w"
    using uint16_range [of w] by (intro take_bit_int_eq_self) auto
  ultimately have "signed_take_bit 15 (uint w) = uint w - 65536"
    by (simp add: signed_take_bit_eq_take_bit_minus)
  then show ?thesis using False by (simp add: sint_uint)
qed

lemma sint16_range: "- 32768 \<le> sint (w :: u16)" "sint w < 32768"
  using uint16_range [of w] unfolding sint_cases16 by (simp_all only: split: if_splits) linarith+

end
