(* ===== verification/BlockStore.thy ===== *)
theory BlockStore
  imports Prelude
begin

section \<open>The interface of a block store\<close>

text \<open>
  Two layers of the kernel keep disk blocks in a write-back cache: the hard-disk cache of
  \<^verbatim>\<open>CACHE.C\<close> and, above it, the buffer pool of \<^verbatim>\<open>DEVIO.C\<close>. Both promise their callers the same
  thing: the blocks behave as one array, whatever the cache holds, evicts or writes back. The
  locale states that contract over a partial order of nothing but reads and writes; its lemmas say
  what a client that issues any sequence of accesses observes. \<open>HardDisk\<close> and \<open>Buffers\<close> interpret
  it on the model of the code.
\<close>

datatype ('k, 'b) access = Rd 'k | Wr 'k 'b

primrec akey :: "('k, 'b) access \<Rightarrow> 'k" where
  "akey (Rd k) = k"
| "akey (Wr k b) = k"

text \<open>One access, and a sequence of them with the values the reads delivered.\<close>

fun access1 :: "('k \<Rightarrow> 's \<Rightarrow> ('b \<times> 's) option) \<Rightarrow> ('k \<Rightarrow> 'b \<Rightarrow> 's \<Rightarrow> 's option) \<Rightarrow>
    ('k, 'b) access \<Rightarrow> 's \<Rightarrow> ('b list \<times> 's) option" where
  "access1 rd wr (Rd k) s = map_option (\<lambda>(b, t). ([b], t)) (rd k s)"
| "access1 rd wr (Wr k b) s = map_option (\<lambda>t. ([], t)) (wr k b s)"

primrec accesses :: "('k \<Rightarrow> 's \<Rightarrow> ('b \<times> 's) option) \<Rightarrow> ('k \<Rightarrow> 'b \<Rightarrow> 's \<Rightarrow> 's option) \<Rightarrow>
    ('k, 'b) access list \<Rightarrow> 's \<Rightarrow> ('b list \<times> 's) option" where
  "accesses rd wr [] s = Some ([], s)"
| "accesses rd wr (a # as) s =
     do { (bs, t) \<leftarrow> access1 rd wr a s; (cs, u) \<leftarrow> accesses rd wr as t; Some (bs @ cs, u) }"

text \<open>The same accesses on a plain array.\<close>

definition array_rd :: "'k \<Rightarrow> ('k \<Rightarrow> 'b) \<Rightarrow> ('b \<times> ('k \<Rightarrow> 'b)) option" where
  "array_rd k m = Some (m k, m)"

definition array_wr :: "'k \<Rightarrow> 'b \<Rightarrow> ('k \<Rightarrow> 'b) \<Rightarrow> ('k \<Rightarrow> 'b) option" where
  "array_wr k b m = Some (m(k := b))"

locale block_store =
  fixes rd :: "'k \<Rightarrow> 's \<Rightarrow> ('b \<times> 's) option"
    and wr :: "'k \<Rightarrow> 'b \<Rightarrow> 's \<Rightarrow> 's option"
    and view :: "'s \<Rightarrow> 'k \<Rightarrow> 'b"
    and ok :: "'s \<Rightarrow> bool"
    and valid :: "'k \<Rightarrow> bool"
    and fits :: "'b \<Rightarrow> bool"
  assumes rd_ok: "ok s \<Longrightarrow> valid k \<Longrightarrow>
      \<exists>t. rd k s = Some (view s k, t) \<and> ok t \<and> (\<forall>j. valid j \<longrightarrow> view t j = view s j)"
    and wr_ok: "ok s \<Longrightarrow> valid k \<Longrightarrow> fits b \<Longrightarrow>
      \<exists>t. wr k b s = Some t \<and> ok t \<and> (\<forall>j. valid j \<longrightarrow> view t j = (if j = k then b else view s j))"
begin

lemma read_back:
  assumes "ok s" "valid k" "fits b"
  shows "\<exists>t u. wr k b s = Some t \<and> rd k t = Some (b, u)"
proof -
  from wr_ok [OF assms] obtain t where t: "wr k b s = Some t" "ok t" "view t k = b"
    using assms(2) by auto
  with rd_ok [of t k] assms(2) show ?thesis by auto
qed

lemma last_write_wins:
  assumes "ok s" "valid k" "fits b" "fits c"
  shows "\<exists>t u v. wr k b s = Some t \<and> wr k c t = Some u \<and> rd k u = Some (c, v)"
  using wr_ok [OF assms(1,2,3)] read_back [OF _ assms(2,4)] by blast

text \<open>Every sequence of accesses returns, and the reads deliver what the plain array delivers.\<close>

lemma accesses_as_array:
  assumes "ok s" and "\<forall>a \<in> set as. valid (akey a)" and "\<forall>k b. Wr k b \<in> set as \<longrightarrow> fits b"
    and "\<forall>k. valid k \<longrightarrow> m k = view s k"
  shows "\<exists>bs t n. accesses rd wr as s = Some (bs, t) \<and> accesses array_rd array_wr as m = Some (bs, n) \<and>
           ok t \<and> (\<forall>k. valid k \<longrightarrow> view t k = n k)"
  using assms
proof (induction as arbitrary: s m)
  case Nil
  then show ?case by auto
next
  case (Cons a as)
  show ?case
  proof (cases a)
    case (Rd k)
    with Cons.prems have v: "valid k" by simp
    with rd_ok [of s k] Cons.prems(1) obtain t where
      t: "rd k s = Some (view s k, t)" "ok t" "\<forall>j. valid j \<longrightarrow> view t j = view s j" by blast
    from Cons.prems t have "\<exists>bs u n. accesses rd wr as t = Some (bs, u) \<and>
        accesses array_rd array_wr as m = Some (bs, n) \<and> ok u \<and> (\<forall>k. valid k \<longrightarrow> view u k = n k)"
      by (intro Cons.IH) auto
    with t v Cons.prems(4) Rd show ?thesis by (auto simp: array_rd_def [of k])
  next
    case (Wr k b)
    with Cons.prems have v: "valid k" and f: "fits b" by auto
    with wr_ok [of s k b] Cons.prems(1) obtain t where
      t: "wr k b s = Some t" "ok t" "\<forall>j. valid j \<longrightarrow> view t j = (if j = k then b else view s j)" by blast
    from Cons.prems t have "\<exists>bs u n. accesses rd wr as t = Some (bs, u) \<and>
        accesses array_rd array_wr as (m(k := b)) = Some (bs, n) \<and> ok u \<and>
        (\<forall>k. valid k \<longrightarrow> view u k = n k)"
      by (intro Cons.IH) auto
    with t Wr show ?thesis by (auto simp: array_wr_def [of k])
  qed
qed

end

end
