(* ===== verification/HardDisk.thy ===== *)
theory HardDisk
  imports BlockStore
begin

section \<open>The hard disk: CACHE.C, CACHASM.C, DEVWD.C, IDECONF.C\<close>

text \<open>
  The hard-disk driver. A block of a minor device (0, 1, 2) is one sector of the CompactFlash card
  (\<open>medium\<close>, addressed by track and the low byte of the sector number, as \<^verbatim>\<open>_wd_io\<close> of IDECF.AS
  programs the controller). Between the buffer in the kernel's memory (\<open>incore\<close>, the 512 bytes at
  \<^verbatim>\<open>udata.u_buf->bf_data\<close>) and the card stands a direct-mapped write-back cache: \<open>cach_buf\<close> holds
  the tags, and the data of slot \<open>k\<close> is at the physical address \<open>slot_addr k\<close> of the memory
  \<open>cach_mem\<close>. A transfer error is not modelled: the assembly only prints a warning for it
  (\<^verbatim>\<open>wd_error\<close>), and the driver then returns as after a success.
\<close>

record ca_buf =
  ca_dirty :: bool
  ca_dev :: u8
  ca_blkno :: u16

definition WD_Heads :: u16 where "WD_Heads = 1"
definition WD_Sector :: u16 where "WD_Sector = 256"
definition TrackOffset :: u16 where "TrackOffset = 512"
definition WD1_Offset :: u16 where "WD1_Offset = 256"
definition WD2_Offset :: u16 where "WD2_Offset = 2 * 256"
definition C_Start :: u16 where "C_Start = 0x1800"
definition max_cache :: u16 where "max_cache = (0x1ff - 0x180) * 8"

text \<open>Where the driver's data pointer (\<^verbatim>\<open>dptrhi:dptrlo\<close>) points: the kernel's buffer, or cache memory.\<close>

datatype dmaptr = Incore | Phys "u16 \<times> u16"

record hdst =
  medium :: "u16 \<times> u8 \<Rightarrow> block"
  incore :: block
  cach_mem :: "u16 \<times> u16 \<Rightarrow> block"
  cach_buf :: "ca_buf list"
  ca_key :: nat
  cach_adr :: "u16 \<times> u16"
  dptr :: dmaptr
  wdtrk :: u16
  wdsec :: u16
  wd_rdwr :: u16
  in_casync :: nat
  in_cawrite :: nat
  sync_i :: nat

subsection \<open>The card and the DMA copies\<close>

definition dma_mem :: "hdst \<Rightarrow> dmaptr \<Rightarrow> block" where
  "dma_mem h p = (case p of Incore \<Rightarrow> incore h | Phys a \<Rightarrow> cach_mem h a)"

definition dma_store :: "dmaptr \<Rightarrow> block \<Rightarrow> hdst \<Rightarrow> hdst" where
  "dma_store p b h = (case p of Incore \<Rightarrow> h\<lparr>incore := b\<rparr>
     | Phys a \<Rightarrow> h\<lparr>cach_mem := (cach_mem h)(a := b)\<rparr>)"

definition wd_io :: "hdst \<Rightarrow> hdst" where
  "wd_io h =
     (let lba = (wdtrk h, ucast (wdsec h))
      in if wd_rdwr h \<noteq> 0 then h\<lparr>medium := (medium h)(lba := dma_mem h (dptr h))\<rparr>
         else dma_store (dptr h) (medium h lba) h)"

definition dma_write :: "hdst \<Rightarrow> hdst" where
  "dma_write h = dma_store (Phys (cach_adr h)) (dma_mem h (dptr h)) h"

definition dma_read :: "hdst \<Rightarrow> hdst" where
  "dma_read h = dma_store (dptr h) (dma_mem h (Phys (cach_adr h))) h"

subsection \<open>The cache\<close>

definition hash :: "u8 \<Rightarrow> u16 \<Rightarrow> nat" where
  "hash dev blkno = unat ((100 * scast dev + blkno) mod max_cache)"

definition slot_addr :: "nat \<Rightarrow> u16 \<times> u16" where
  "slot_addr k = (C_Start + (of_nat k div 8) * 0x10, (of_nat k mod 8) * 512)"

definition in_cache :: "u8 \<Rightarrow> u16 \<Rightarrow> hdst \<Rightarrow> bool \<times> hdst" where
  "in_cache dev blkno h =
     (let k = hash dev blkno;
          match = cach_buf h ! k;
          h = h\<lparr>ca_key := k, cach_adr := slot_addr k\<rparr>
      in if ca_blkno match \<noteq> blkno then (False, h)
         else if ca_dev match \<noteq> dev then (False, h)
         else (True, h))"

definition ca_read :: "u8 \<Rightarrow> u16 \<Rightarrow> hdst \<Rightarrow> bool \<times> hdst" where
  "ca_read dev blkno h =
     (let (hit, h) = in_cache dev blkno h
      in if hit then (True, dma_read h) else (False, h))"

definition trk_offset :: "u8 \<Rightarrow> u16" where
  "trk_offset dev = (if dev = 2 then WD2_Offset else 0) + (if dev = 1 then WD1_Offset else 0)"

definition cache_write :: "nat \<Rightarrow> hdst \<Rightarrow> hdst" where
  "cache_write k h =
     (let SecHead = WD_Heads * WD_Sector;
          use = cach_buf h ! k;
          s_ptr = dptr h; s_rdwr = wd_rdwr h; s_trk = wdtrk h; s_sec = wdsec h;
          h = h\<lparr>dptr := Phys (slot_addr k),
                wdtrk := ca_blkno use div SecHead + TrackOffset + trk_offset (ca_dev use),
                wdsec := ca_blkno use mod SecHead,
                wd_rdwr := 1\<rparr>;
          h = wd_io h;
          h = h\<lparr>cach_buf := (cach_buf h)[k := use\<lparr>ca_dirty := False\<rparr>]\<rparr>
      in h\<lparr>dptr := s_ptr, wd_rdwr := s_rdwr, wdtrk := s_trk, wdsec := s_sec\<rparr>)"

definition ca_write :: "u8 \<Rightarrow> u16 \<Rightarrow> hdst \<Rightarrow> hdst" where
  "ca_write dev blkno h =
     (let h = h\<lparr>in_cawrite := 1\<rparr>;
          (hit, h) = in_cache dev blkno h;
          k = ca_key h;
          h = (if \<not> hit then
                 (let h = (if ca_dirty (cach_buf h ! k) then cache_write k h else h)
                  in h\<lparr>cach_buf := (cach_buf h)[k := (cach_buf h ! k)\<lparr>ca_dev := dev, ca_blkno := blkno\<rparr>]\<rparr>)
               else h);
          h = (if wd_rdwr h \<noteq> 0
               then h\<lparr>cach_buf := (cach_buf h)[k := (cach_buf h ! k)\<lparr>ca_dirty := True\<rparr>]\<rparr> else h);
          h = dma_write h
      in h\<lparr>in_cawrite := 0\<rparr>)"

definition init_cache :: "hdst \<Rightarrow> hdst" where
  "init_cache h = h\<lparr>cach_buf := map (\<lambda>c. c\<lparr>ca_dev := - 2, ca_dirty := False\<rparr>) (cach_buf h)\<rparr>"

text \<open>The loop body of both flushing routines, and the two routines.\<close>

definition flush1 :: "nat \<Rightarrow> hdst \<Rightarrow> hdst" where
  "flush1 i h = (if ca_dirty (cach_buf h ! i) then cache_write i h else h)"

definition ca_sync :: "hdst \<Rightarrow> hdst" where
  "ca_sync h = (fold flush1 [0..<unat max_cache] (h\<lparr>in_casync := 2\<rparr>))\<lparr>in_casync := 0\<rparr>"

definition int_ca_sync :: "hdst \<Rightarrow> hdst" where
  "int_ca_sync h =
     (let h = h\<lparr>in_casync := 2\<rparr>
      in case scan (\<lambda>i. ca_dirty (cach_buf h ! i)) (sync_i h) (unat max_cache) of
           Some i \<Rightarrow> (cache_write i h)\<lparr>in_casync := 1, sync_i := i\<rparr>
         | None \<Rightarrow> h\<lparr>in_casync := 0, sync_i := 0\<rparr>)"

subsection \<open>The driver\<close>

text \<open>
  \<open>wd_setup\<close> (\<^verbatim>\<open>setup\<close>) for a block transfer (\<^verbatim>\<open>rawflag = 0\<close>): one sector, \<open>blk\<close> is \<^verbatim>\<open>udata.u_buf->bf_blk\<close>. For
  paging (\<^verbatim>\<open>rawflag = 2\<close>) the driver prints a message and returns 2. Raw transfers to user memory
  (\<^verbatim>\<open>rawflag = 1\<close>, marked broken in the source) are not modelled.
\<close>

definition wd_setup :: "u16 \<Rightarrow> nat \<Rightarrow> u16 \<Rightarrow> hdst \<Rightarrow> (int \<times> hdst) option" where
  "wd_setup minor rawflag blk h =
     (let SecHead = WD_Heads * WD_Sector
      in if rawflag = 2 then Some (2, h)
         else if rawflag = 0 then
           (let h = h\<lparr>dptr := Incore, wdsec := blk mod SecHead,
                      wdtrk := blk div SecHead + TrackOffset + trk_offset (ucast minor)\<rparr>
            in if wd_rdwr h = 1 then Some (0, ca_write (ucast minor) blk h)
               else (let (hit, h) = ca_read (ucast minor) blk h
                     in if \<not> hit then Some (0, ca_write (ucast minor) blk (wd_io h))
                        else Some (0, h)))
         else None)"

definition wd_read :: "u16 \<Rightarrow> nat \<Rightarrow> u16 \<Rightarrow> hdst \<Rightarrow> (int \<times> hdst) option" where
  "wd_read minor rawflag blk h = wd_setup minor rawflag blk (h\<lparr>wd_rdwr := 0\<rparr>)"

definition wd_write :: "u16 \<Rightarrow> nat \<Rightarrow> u16 \<Rightarrow> hdst \<Rightarrow> (int \<times> hdst) option" where
  "wd_write minor rawflag blk h = wd_setup minor rawflag blk (h\<lparr>wd_rdwr := 1\<rparr>)"


subsection \<open>The addresses do not collide\<close>

definition minors :: "u8 set" where
  "minors = {0, 1, 2}"

definition disk_addr :: "u8 \<Rightarrow> u16 \<Rightarrow> u16 \<times> u8" where
  "disk_addr dev blk = (blk div 256 + 512 + trk_offset dev, ucast (blk mod 256))"

lemmas disk_geometry = WD_Heads_def WD_Sector_def TrackOffset_def WD1_Offset_def WD2_Offset_def

lemma max_cache_val [simp]: "max_cache = 1016" "unat max_cache = 1016"
  by (simp_all add: max_cache_def)

lemma hash_less [simp]: "hash dev blk < 1016"
  by (simp add: hash_def unat_mod)

lemma unat_of_nat_slot: "k < 1016 \<Longrightarrow> unat (of_nat k :: u16) = k"
  by (simp add: unat_of_nat)

lemma slot_addr_inj:
  assumes "j < 1016" "k < 1016" "slot_addr j = slot_addr k"
  shows "j = k"
proof -
  let ?q = "\<lambda>k. unat (of_nat k div 8 :: u16)"
  have q: "?q n = n div 8" and r: "unat (of_nat n mod 8 :: u16) = n mod 8" if "n < 1016" for n
    using that by (simp_all add: unat_div unat_mod unat_of_nat_slot)
  have q': "unat ((of_nat n div 8 :: u16) * 16) = (n div 8) * 16" if "n < 1016" for n
    using that q [OF that] by (simp add: unat_word_ariths)
  have r': "unat ((of_nat n mod 8 :: u16) * 512) = (n mod 8) * 512" if "n < 1016" for n
    using that r [OF that] by (simp add: unat_word_ariths)
  from assms(3) have "(of_nat j div 8 :: u16) * 16 = (of_nat k div 8) * 16"
    and "(of_nat j mod 8 :: u16) * 512 = (of_nat k mod 8) * 512"
    by (simp_all add: slot_addr_def)
  with q' r' assms(1,2) have "j div 8 = k div 8" "j mod 8 = k mod 8"
    by (metis mult_cancel2 zero_neq_numeral)+
  then show ?thesis by (metis div_mult_mod_eq)
qed

lemma disk_addr_inj:
  assumes "d \<in> minors" "e \<in> minors" "disk_addr d a = disk_addr e b"
  shows "d = e \<and> a = b"
proof -
  have low: "a mod 256 = b mod 256"
  proof -
    from assms(3) have "unat (ucast (a mod 256) :: u8) = unat (ucast (b mod 256) :: u8)"
      by (simp add: disk_addr_def)
    then have "unat (a mod 256) mod 256 = unat (b mod 256) mod 256"
      by (simp add: unat_ucast_u8)
    then show ?thesis by (simp add: unat_mod word_unat_eq_iff)
  qed
  have bnd: "unat (c div 256) < 256" for c :: u16
    by (simp add: unat_div less_mult_imp_div_less)
  have trk: "unat (c div 256 + 512 + trk_offset f) = unat (c div 256) + 512 + unat (trk_offset f)"
    if "f \<in> minors" for c f
    using that bnd [of c] by (auto simp: minors_def trk_offset_def disk_geometry unat_word_ariths)
  from assms(3) have "unat (a div 256 + 512 + trk_offset d) = unat (b div 256 + 512 + trk_offset e)"
    by (simp only: disk_addr_def prod.inject)
  then have sum: "unat (a div 256) + unat (trk_offset d) = unat (b div 256) + unat (trk_offset e)"
    using trk [OF assms(1)] trk [OF assms(2)] by simp
  have "trk_offset d = trk_offset e"
    using sum assms(1,2) bnd [of a] bnd [of b] by (auto simp: minors_def trk_offset_def disk_geometry)
  then have de: "d = e"
    using assms(1,2) by (auto simp: minors_def trk_offset_def disk_geometry split: if_splits)
  from sum de have "a div 256 = b div 256" by (simp add: word_unat_eq_iff)
  with low have "a = b"
    by (metis word_mod_div_equality)
  with de show ?thesis by simp
qed


subsection \<open>What the cache means\<close>

text \<open>
  \<open>hview h dev blk\<close> is the content of a block as the driver's callers see it: the cache slot when
  the slot's tag matches, the card otherwise. The invariant \<open>hd_ok\<close>: a slot is empty (device -2) or
  holds a block of a minor device that hashes to it, and a slot that is not dirty agrees with the
  card.
\<close>

definition slot_matches :: "hdst \<Rightarrow> nat \<Rightarrow> u8 \<Rightarrow> u16 \<Rightarrow> bool" where
  "slot_matches h k dev blk \<longleftrightarrow> ca_dev (cach_buf h ! k) = dev \<and> ca_blkno (cach_buf h ! k) = blk"

definition hview :: "hdst \<Rightarrow> u8 \<Rightarrow> u16 \<Rightarrow> block" where
  "hview h dev blk =
     (if slot_matches h (hash dev blk) dev blk then cach_mem h (slot_addr (hash dev blk))
      else medium h (disk_addr dev blk))"

definition slot_ok :: "hdst \<Rightarrow> nat \<Rightarrow> bool" where
  "slot_ok h k \<longleftrightarrow>
     (let c = cach_buf h ! k
      in if ca_dev c = - 2 then \<not> ca_dirty c
         else ca_dev c \<in> minors \<and> hash (ca_dev c) (ca_blkno c) = k \<and>
              (ca_dirty c \<or> cach_mem h (slot_addr k) = medium h (disk_addr (ca_dev c) (ca_blkno c))))"

definition hd_ok :: "hdst \<Rightarrow> bool" where
  "hd_ok h \<longleftrightarrow> length (cach_buf h) = 1016 \<and> (\<forall>k < 1016. slot_ok h k) \<and>
     (\<forall>a. length (medium h a) = 512) \<and> (\<forall>a. length (cach_mem h a) = 512) \<and> length (incore h) = 512"

lemma minors_not_empty [simp]: "(- 2 :: u8) \<notin> minors"
  by (simp add: minors_def)

lemma hd_ok_lengths:
  assumes "hd_ok h"
  shows "length (cach_buf h) = 1016" "length (medium h a) = 512" "length (cach_mem h b) = 512"
    "length (incore h) = 512"
  using assms unfolding hd_ok_def by blast+

text \<open>\<open>cache_write\<close> without the saved and restored registers.\<close>

lemma cache_write_eq:
  "cache_write k h = h\<lparr>medium := (medium h)(disk_addr (ca_dev (cach_buf h ! k)) (ca_blkno (cach_buf h ! k))
                           := cach_mem h (slot_addr k)),
      cach_buf := (cach_buf h)[k := (cach_buf h ! k)\<lparr>ca_dirty := False\<rparr>]\<rparr>"
  by (simp add: cache_write_def wd_io_def dma_mem_def Let_def disk_addr_def disk_geometry)

lemma slot_okD:
  assumes "hd_ok h" "k < 1016" "slot_matches h k dev blk" "dev \<in> minors"
  shows "hash dev blk = k"
  using assms by (auto simp: hd_ok_def slot_ok_def slot_matches_def Let_def split: if_splits)

lemma slot_dirtyD:
  assumes "hd_ok h" "k < 1016" "ca_dirty (cach_buf h ! k)"
  shows "ca_dev (cach_buf h ! k) \<in> minors" "hash (ca_dev (cach_buf h ! k)) (ca_blkno (cach_buf h ! k)) = k"
  using assms by (auto simp: hd_ok_def slot_ok_def Let_def split: if_splits)

lemma cache_write_ok:
  assumes "hd_ok h" "k < 1016" "ca_dirty (cach_buf h ! k)"
  shows "hd_ok (cache_write k h)"
proof -
  let ?c = "cach_buf h ! k"
  note D = slot_dirtyD [OF assms]
  have "slot_ok (cache_write k h) j" if j: "j < 1016" for j
  proof (cases "j = k")
    case True
    with assms D show ?thesis by (auto simp: slot_ok_def cache_write_eq hd_ok_def Let_def)
  next
    case False
    let ?e = "cach_buf h ! j"
    have ok: "slot_ok h j" using assms(1) j by (simp add: hd_ok_def)
    have "disk_addr (ca_dev ?e) (ca_blkno ?e) \<noteq> disk_addr (ca_dev ?c) (ca_blkno ?c)"
      if "ca_dev ?e \<noteq> - 2"
    proof
      assume "disk_addr (ca_dev ?e) (ca_blkno ?e) = disk_addr (ca_dev ?c) (ca_blkno ?c)"
      moreover have "ca_dev ?e \<in> minors" "hash (ca_dev ?e) (ca_blkno ?e) = j"
        using ok that by (auto simp: slot_ok_def Let_def)
      ultimately show False using disk_addr_inj D False by metis
    qed
    with ok False show ?thesis
      by (auto simp: slot_ok_def cache_write_eq Let_def split: if_splits)
  qed
  moreover have "length (medium (cache_write k h) a) = 512" for a
    using hd_ok_lengths [OF assms(1)] by (simp add: cache_write_eq)
  moreover have "length (cach_mem (cache_write k h) a) = 512" for a
    using hd_ok_lengths [OF assms(1)] by (simp add: cache_write_eq)
  ultimately show ?thesis
    unfolding hd_ok_def using hd_ok_lengths [OF assms(1)] by (simp add: cache_write_eq)
qed

lemma cache_write_view:
  assumes "hd_ok h" "k < 1016" "ca_dirty (cach_buf h ! k)" "dev \<in> minors"
  shows "hview (cache_write k h) dev blk = hview h dev blk"
proof -
  let ?c = "cach_buf h ! k"
  note D = slot_dirtyD [OF assms(1-3)]
  have m: "slot_matches (cache_write k h) j dev blk = slot_matches h j dev blk" for j
    using assms(2) hd_ok_lengths(1) [OF assms(1)]
    by (cases "j = k") (auto simp: slot_matches_def cache_write_eq)
  show ?thesis
  proof (cases "slot_matches h (hash dev blk) dev blk")
    case True
    with m show ?thesis by (simp add: hview_def) (simp add: cache_write_eq)
  next
    case False
    have "disk_addr dev blk \<noteq> disk_addr (ca_dev ?c) (ca_blkno ?c)"
    proof
      assume "disk_addr dev blk = disk_addr (ca_dev ?c) (ca_blkno ?c)"
      then have "dev = ca_dev ?c \<and> blk = ca_blkno ?c"
        using disk_addr_inj [OF assms(4) D(1)] by blast
      with D(2) False show False by (simp add: slot_matches_def)
    qed
    with False m show ?thesis by (simp add: hview_def) (simp add: cache_write_eq)
  qed
qed


subsection \<open>Eviction and installation of a block\<close>

definition evict :: "nat \<Rightarrow> hdst \<Rightarrow> hdst" where
  "evict k h = (if ca_dirty (cach_buf h ! k) then cache_write k h else h)"

lemma evict_clean:
  assumes "k < length (cach_buf h)"
  shows "\<not> ca_dirty (cach_buf (evict k h) ! k)"
  using assms by (cases "ca_dirty (cach_buf h ! k)") (simp_all add: evict_def cache_write_eq)

lemma evict_ok: "hd_ok h \<Longrightarrow> k < 1016 \<Longrightarrow> hd_ok (evict k h)"
  by (auto simp only: evict_def if_True if_False intro: cache_write_ok split: if_splits)

lemma evict_view:
  "hd_ok h \<Longrightarrow> k < 1016 \<Longrightarrow> dev \<in> minors \<Longrightarrow> hview (evict k h) dev blk = hview h dev blk"
  by (auto simp only: evict_def if_True if_False intro!: cache_write_view split: if_splits)

lemma evict_frame:
  "incore (evict k h) = incore h" "dptr (evict k h) = dptr h" "wd_rdwr (evict k h) = wd_rdwr h"
  "length (cach_buf (evict k h)) = length (cach_buf h)"
  by (simp_all add: evict_def cache_write_eq)

definition install :: "u8 \<Rightarrow> u16 \<Rightarrow> bool \<Rightarrow> block \<Rightarrow> hdst \<Rightarrow> hdst" where
  "install dev blk drt b h =
     (let k = hash dev blk
      in h\<lparr>cach_buf := (cach_buf h)[k := \<lparr>ca_dirty = drt, ca_dev = dev, ca_blkno = blk\<rparr>],
           cach_mem := (cach_mem h)(slot_addr k := b)\<rparr>)"

text \<open>Installing is safe where the slot's old block is not lost: it is the same block, or it is clean.\<close>

lemma install_view:
  assumes "hd_ok h" "dev \<in> minors" "d \<in> minors"
    and safe: "slot_matches h (hash dev blk) dev blk \<or> \<not> ca_dirty (cach_buf h ! hash dev blk)"
  shows "hview (install dev blk drt b h) d a = (if d = dev \<and> a = blk then b else hview h d a)"
proof -
  let ?k = "hash dev blk" and ?h = "install dev blk drt b h"
  note len = hd_ok_lengths(1) [OF assms(1)]
  have buf: "cach_buf ?h ! ?k = \<lparr>ca_dirty = drt, ca_dev = dev, ca_blkno = blk\<rparr>"
    using len hash_less [of dev blk] by (simp add: install_def Let_def)
  have med: "medium ?h = medium h" by (simp add: install_def Let_def)
  show ?thesis
  proof (cases "hash d a = ?k")
    case True
    show ?thesis
    proof (cases "d = dev \<and> a = blk")
      case True
      then show ?thesis using buf by (simp add: hview_def slot_matches_def) (simp add: install_def Let_def)
    next
      case False
      then have "\<not> slot_matches ?h ?k d a" using buf by (auto simp: slot_matches_def)
      with True med have v: "hview ?h d a = medium h (disk_addr d a)" by (simp add: hview_def)
      have "hview h d a = medium h (disk_addr d a)"
      proof (cases "slot_matches h ?k d a")
        case True
        with False safe have "\<not> ca_dirty (cach_buf h ! ?k)" by (auto simp: slot_matches_def)
        moreover have "slot_ok h ?k" using assms(1) by (simp add: hd_ok_def)
        moreover have "d \<noteq> - 2" using assms(3) minors_not_empty by blast
        ultimately show ?thesis using True \<open>hash d a = ?k\<close>
          by (auto simp: hview_def slot_ok_def slot_matches_def Let_def)
      next
        case False
        with \<open>hash d a = ?k\<close> show ?thesis by (simp add: hview_def)
      qed
      with v False show ?thesis by auto
    qed
  next
    case False
    then have "slot_addr (hash d a) \<noteq> slot_addr ?k" using slot_addr_inj hash_less by metis
    with False show ?thesis by (auto simp: hview_def slot_matches_def install_def Let_def)
  qed
qed

lemma install_ok:
  assumes "hd_ok h" "dev \<in> minors" "length b = 512"
    and clean: "\<not> drt \<longrightarrow> b = medium h (disk_addr dev blk)"
  shows "hd_ok (install dev blk drt b h)"
proof -
  let ?k = "hash dev blk" and ?h = "install dev blk drt b h"
  note len = hd_ok_lengths [OF assms(1)]
  have "slot_ok ?h j" if j: "j < 1016" for j
  proof (cases "j = ?k")
    case True
    have "dev \<noteq> - 2" using assms(2) minors_not_empty by blast
    with True len(1) assms(2) clean hash_less [of dev blk] show ?thesis
      by (auto simp: slot_ok_def install_def Let_def)
  next
    case False
    then have "slot_addr j \<noteq> slot_addr ?k" using slot_addr_inj j hash_less by metis
    moreover have "slot_ok h j" using assms(1) j by (simp add: hd_ok_def)
    ultimately show ?thesis using False by (simp add: slot_ok_def install_def Let_def)
  qed
  moreover have "length (cach_mem ?h a) = 512" "length (medium ?h c) = 512" for a c
    using len assms(3) by (simp_all add: install_def Let_def)
  ultimately show ?thesis using len unfolding hd_ok_def by (simp add: install_def Let_def)
qed

lemma in_cache_eq:
  "in_cache dev blk h = (slot_matches h (hash dev blk) dev blk,
     h\<lparr>ca_key := hash dev blk, cach_adr := slot_addr (hash dev blk)\<rparr>)"
  by (simp add: in_cache_def slot_matches_def Let_def)

lemma slot_matches_frame [simp]:
  "slot_matches (h\<lparr>in_cawrite := x\<rparr>) k dev blk = slot_matches h k dev blk"
  "slot_matches (h\<lparr>wd_rdwr := y\<rparr>) k dev blk = slot_matches h k dev blk"
  "slot_matches (h\<lparr>dptr := p\<rparr>) k dev blk = slot_matches h k dev blk"
  "slot_matches (h\<lparr>wdsec := y\<rparr>) k dev blk = slot_matches h k dev blk"
  "slot_matches (h\<lparr>wdtrk := y\<rparr>) k dev blk = slot_matches h k dev blk"
  "slot_matches (h\<lparr>incore := b\<rparr>) k dev blk = slot_matches h k dev blk"
  by (simp_all add: slot_matches_def)

text \<open>\<open>ca_write\<close> installs the kernel's buffer, after evicting another block from the slot.\<close>

definition ca_prepare :: "u8 \<Rightarrow> u16 \<Rightarrow> hdst \<Rightarrow> hdst" where
  "ca_prepare dev blk h =
     (if slot_matches h (hash dev blk) dev blk then h else evict (hash dev blk) h)"

lemma ca_write_eq:
  assumes "dptr h = Incore" "hash dev blk < length (cach_buf h)"
  shows "ca_write dev blk h =
     (let k = hash dev blk; g = ca_prepare dev blk h
      in (install dev blk (wd_rdwr h \<noteq> 0 \<or> ca_dirty (cach_buf g ! k)) (incore h) g)
           \<lparr>ca_key := k, cach_adr := slot_addr k, in_cawrite := 0\<rparr>)"
proof -
  obtain k where k: "hash dev blk = k" by blast
  obtain drt d b where c: "cach_buf h ! k = \<lparr>ca_dirty = drt, ca_dev = d, ca_blkno = b\<rparr>"
    by (cases "cach_buf h ! k")
  have len: "k < length (cach_buf h)" using assms(2) k by simp
  note defs = ca_write_def in_cache_eq ca_prepare_def install_def Let_def
    dma_write_def dma_store_def dma_mem_def
  show ?thesis
  proof (cases "slot_matches h k dev blk")
    case True
    then have c': "cach_buf h ! k = \<lparr>ca_dirty = drt, ca_dev = dev, ca_blkno = blk\<rparr>"
      using c by (simp add: slot_matches_def)
    note same = list_update_same [OF c']
    have m: "slot_matches h k dev blk = True" using True by simp
    show ?thesis
      by (cases "wd_rdwr h = 0") (simp_all add: defs k m assms(1) c' len same)
  next
    case False
    then have m: "slot_matches h k dev blk = False" by simp
    show ?thesis
      by (cases "wd_rdwr h = 0"; cases drt)
        (simp_all add: defs k m assms(1) c len evict_def cache_write_eq)
  qed
qed


subsection \<open>The driver keeps the contract of a block store\<close>

lemma hview_frame [simp]:
  "hview (h\<lparr>ca_key := k\<rparr>) d a = hview h d a" "hview (h\<lparr>cach_adr := p\<rparr>) d a = hview h d a"
  "hview (h\<lparr>in_cawrite := x\<rparr>) d a = hview h d a" "hview (h\<lparr>wd_rdwr := y\<rparr>) d a = hview h d a"
  "hview (h\<lparr>dptr := q\<rparr>) d a = hview h d a" "hview (h\<lparr>wdsec := y\<rparr>) d a = hview h d a"
  "hview (h\<lparr>wdtrk := y\<rparr>) d a = hview h d a" "hview (h\<lparr>incore := b\<rparr>) d a = hview h d a"
  "hview (h\<lparr>in_casync := x\<rparr>) d a = hview h d a" "hview (h\<lparr>sync_i := x\<rparr>) d a = hview h d a"
  by (simp_all add: hview_def slot_matches_def)

lemma hd_ok_frame [simp]:
  "hd_ok (h\<lparr>ca_key := k\<rparr>) = hd_ok h" "hd_ok (h\<lparr>cach_adr := p\<rparr>) = hd_ok h"
  "hd_ok (h\<lparr>in_cawrite := x\<rparr>) = hd_ok h" "hd_ok (h\<lparr>wd_rdwr := y\<rparr>) = hd_ok h"
  "hd_ok (h\<lparr>dptr := q\<rparr>) = hd_ok h" "hd_ok (h\<lparr>wdsec := y\<rparr>) = hd_ok h"
  "hd_ok (h\<lparr>wdtrk := y\<rparr>) = hd_ok h" "hd_ok (h\<lparr>in_casync := x\<rparr>) = hd_ok h"
  "hd_ok (h\<lparr>sync_i := x\<rparr>) = hd_ok h"
  by (simp_all add: hd_ok_def slot_ok_def)

lemma hd_ok_incore: "hd_ok h \<Longrightarrow> length b = 512 \<Longrightarrow> hd_ok (h\<lparr>incore := b\<rparr>)"
proof -
  have "slot_ok (h\<lparr>incore := b\<rparr>) k = slot_ok h k" for k by (simp add: slot_ok_def)
  then show "hd_ok h \<Longrightarrow> length b = 512 \<Longrightarrow> hd_ok (h\<lparr>incore := b\<rparr>)" by (simp add: hd_ok_def)
qed

lemma hview_length: "hd_ok h \<Longrightarrow> length (hview h d a) = 512"
  by (simp add: hview_def hd_ok_lengths)

lemma ca_prepare_facts:
  assumes "hd_ok h" "dev \<in> minors"
  shows "hd_ok (ca_prepare dev blk h)"
    "d \<in> minors \<Longrightarrow> hview (ca_prepare dev blk h) d a = hview h d a"
    "incore (ca_prepare dev blk h) = incore h"
    "slot_matches (ca_prepare dev blk h) (hash dev blk) dev blk \<or>
       \<not> ca_dirty (cach_buf (ca_prepare dev blk h) ! hash dev blk)"
  using assms(1) evict_ok [OF assms(1)] evict_view [OF assms(1)] evict_clean [of "hash dev blk" h]
  by (auto simp: ca_prepare_def evict_frame hd_ok_lengths)

text \<open>\<open>ca_write\<close> on a transfer to the disk, and on a read that missed the cache.\<close>

lemma ca_write_store:
  assumes ok: "hd_ok h" and dev: "dev \<in> minors" and "dptr h = Incore" and "wd_rdwr h \<noteq> 0"
  shows "hd_ok (ca_write dev blk h)"
    and "d \<in> minors \<Longrightarrow> hview (ca_write dev blk h) d a =
           (if d = dev \<and> a = blk then incore h else hview h d a)"
    and "incore (ca_write dev blk h) = incore h"
proof -
  let ?g = "ca_prepare dev blk h"
  note P = ca_prepare_facts [OF ok dev, where blk = blk]
  have w: "ca_write dev blk h = (install dev blk True (incore h) ?g)
             \<lparr>ca_key := hash dev blk, cach_adr := slot_addr (hash dev blk), in_cawrite := 0\<rparr>"
    using ca_write_eq [OF assms(3)] assms(4) hd_ok_lengths(1) [OF ok] by (simp add: Let_def)
  show "hd_ok (ca_write dev blk h)"
    using install_ok [OF P(1) dev, of "incore h" True blk] hd_ok_lengths [OF ok] by (simp add: w)
  show "hview (ca_write dev blk h) d a = (if d = dev \<and> a = blk then incore h else hview h d a)"
    if "d \<in> minors"
    using install_view [OF P(1) dev that P(4)] P(2) [OF that] by (simp add: w)
  show "incore (ca_write dev blk h) = incore h"
    using P(3) by (simp add: w install_def Let_def)
qed

lemma ca_write_fill:
  assumes ok: "hd_ok h" and dev: "dev \<in> minors" and "dptr h = Incore" and "wd_rdwr h = 0"
    and miss: "\<not> slot_matches h (hash dev blk) dev blk"
    and data: "incore h = medium h (disk_addr dev blk)"
  shows "hd_ok (ca_write dev blk h)"
    and "d \<in> minors \<Longrightarrow> hview (ca_write dev blk h) d a = hview h d a"
    and "incore (ca_write dev blk h) = incore h"
proof -
  let ?g = "ca_prepare dev blk h"
  note P = ca_prepare_facts [OF ok dev, where blk = blk]
  have clean: "\<not> ca_dirty (cach_buf ?g ! hash dev blk)"
    using miss evict_clean [of "hash dev blk" h] hd_ok_lengths(1) [OF ok] by (simp add: ca_prepare_def)
  then have w: "ca_write dev blk h = (install dev blk False (incore h) ?g)
             \<lparr>ca_key := hash dev blk, cach_adr := slot_addr (hash dev blk), in_cawrite := 0\<rparr>"
    using ca_write_eq [OF assms(3)] assms(4) hd_ok_lengths(1) [OF ok] by (simp add: Let_def)
  have "hview h dev blk = incore h" using miss data by (simp add: hview_def)
  moreover have "hview ?g dev blk = medium ?g (disk_addr dev blk)"
  proof -
    have "\<not> slot_matches ?g (hash dev blk) dev blk"
      using miss by (auto simp: ca_prepare_def evict_def slot_matches_def cache_write_eq
          nth_list_update hd_ok_lengths [OF ok])
    then show ?thesis by (simp add: hview_def)
  qed
  ultimately have m: "incore h = medium ?g (disk_addr dev blk)" using P(2) [OF dev] by metis
  show "hd_ok (ca_write dev blk h)"
    using install_ok [OF P(1) dev, of "incore h" False blk] m hd_ok_lengths [OF ok] by (simp add: w)
  show "hview (ca_write dev blk h) d a = hview h d a" if "d \<in> minors"
    using install_view [OF P(1) dev that P(4)] P(2) [OF that] \<open>hview h dev blk = incore h\<close>
    by (auto simp: w)
  show "incore (ca_write dev blk h) = incore h"
    using P(3) by (simp add: w install_def Let_def)
qed

definition wd_minor :: "u16 \<Rightarrow> bool" where
  "wd_minor m \<longleftrightarrow> m < 3"

lemma wd_minor_minors: "wd_minor m \<Longrightarrow> ucast m \<in> minors"
proof -
  assume "wd_minor m"
  then have "unat m < 3" by (simp add: wd_minor_def word_less_nat_alt)
  then have "unat m = 0 \<or> unat m = 1 \<or> unat m = 2" by linarith
  then have "m = 0 \<or> m = 1 \<or> m = 2" by (auto simp: word_unat_eq_iff)
  then show ?thesis by (auto simp: minors_def)
qed

lemma wd_write_law:
  assumes "hd_ok h" "wd_minor m"
  shows "\<exists>g. wd_write m 0 blk h = Some (0, g) \<and> hd_ok g \<and> incore g = incore h \<and>
           (\<forall>d \<in> minors. \<forall>a. hview g d a = (if d = ucast m \<and> a = blk then incore h else hview h d a))"
proof -
  let ?h = "h\<lparr>wd_rdwr := 1, dptr := Incore, wdsec := blk mod 256,
             wdtrk := blk div 256 + 512 + trk_offset (ucast m)\<rparr>"
  have eq: "wd_write m 0 blk h = Some (0, ca_write (ucast m) blk ?h)"
    by (simp add: wd_write_def wd_setup_def Let_def disk_geometry)
  show ?thesis
    using ca_write_store [where h = ?h and dev = "ucast m" and blk = blk] assms wd_minor_minors [OF assms(2)] by (auto simp: eq)
qed

lemma ca_read_eq:
  "ca_read dev blk h =
     (let k = hash dev blk; g = h\<lparr>ca_key := k, cach_adr := slot_addr k\<rparr>
      in if slot_matches h k dev blk then (True, dma_read g) else (False, g))"
  by (simp add: ca_read_def in_cache_eq Let_def)

lemma wd_read_law:
  assumes ok: "hd_ok h" and m: "wd_minor m"
  shows "\<exists>g. wd_read m 0 blk h = Some (0, g) \<and> hd_ok g \<and> incore g = hview h (ucast m) blk \<and>
           (\<forall>d \<in> minors. \<forall>a. hview g d a = hview h d a)"
proof -
  let ?d = "ucast m :: u8"
  let ?h = "h\<lparr>wd_rdwr := 0, dptr := Incore, wdsec := blk mod 256,
             wdtrk := blk div 256 + 512 + trk_offset ?d, ca_key := hash ?d blk,
             cach_adr := slot_addr (hash ?d blk)\<rparr>"
  note d = wd_minor_minors [OF m]
  show ?thesis
  proof (cases "slot_matches h (hash ?d blk) ?d blk")
    case True
    then have eq: "wd_read m 0 blk h = Some (0, dma_read ?h)"
      by (simp add: wd_read_def wd_setup_def Let_def disk_geometry ca_read_eq)
    have "dma_read ?h = ?h\<lparr>incore := hview h ?d blk\<rparr>"
      using True by (simp add: dma_read_def dma_store_def dma_mem_def hview_def)
    with eq show ?thesis using hd_ok_incore [of ?h "hview h ?d blk"] ok hview_length [OF ok] by simp
  next
    case False
    let ?g = "?h\<lparr>incore := medium h (disk_addr ?d blk)\<rparr>"
    have eq: "wd_read m 0 blk h = Some (0, ca_write ?d blk (wd_io ?h))"
      using False by (simp add: wd_read_def wd_setup_def Let_def disk_geometry ca_read_eq)
    have io: "wd_io ?h = ?g" by (simp add: wd_io_def dma_store_def disk_addr_def)
    have okg: "hd_ok ?g" using hd_ok_incore [of ?h] ok hd_ok_lengths [OF ok] by simp
    have missg: "\<not> slot_matches ?g (hash ?d blk) ?d blk" using False by (simp add: slot_matches_def)
    have v: "hview h ?d blk = medium h (disk_addr ?d blk)" using False by (simp add: hview_def)
    show ?thesis
      using ca_write_fill [OF okg d _ _ missg] by (auto simp: eq io v)
  qed
qed

text \<open>The driver as a block store: the key is (minor, block), the value what the kernel's buffer holds.\<close>

definition hd_rd :: "u16 \<times> u16 \<Rightarrow> hdst \<Rightarrow> (block \<times> hdst) option" where
  "hd_rd k h = map_option (\<lambda>(r, g). (incore g, g)) (wd_read (fst k) 0 (snd k) h)"

definition hd_wr :: "u16 \<times> u16 \<Rightarrow> block \<Rightarrow> hdst \<Rightarrow> hdst option" where
  "hd_wr k b h = map_option snd (wd_write (fst k) 0 (snd k) (h\<lparr>incore := b\<rparr>))"

lemma wd_minor_ucast: "wd_minor m \<Longrightarrow> wd_minor n \<Longrightarrow> (ucast m :: u8) = ucast n \<longleftrightarrow> m = n"
proof
  assume a: "wd_minor m" "wd_minor n" "(ucast m :: u8) = ucast n"
  then have "unat m mod 256 = unat n mod 256" by (metis unat_ucast_u8)
  moreover have "unat m < 3" "unat n < 3" using a by (simp_all add: wd_minor_def word_less_nat_alt)
  ultimately show "m = n" by (simp add: word_unat_eq_iff)
qed auto

interpretation hds: block_store hd_rd hd_wr "\<lambda>h k. hview h (ucast (fst k)) (snd k)" hd_ok
  "\<lambda>k. wd_minor (fst k)" "\<lambda>b. length b = 512"
proof unfold_locales
  fix h :: hdst and k :: "u16 \<times> u16"
  assume "hd_ok h" "wd_minor (fst k)"
  from wd_read_law [OF this, of "snd k"] obtain g where
    "wd_read (fst k) 0 (snd k) h = Some (0, g)" "hd_ok g" "incore g = hview h (ucast (fst k)) (snd k)"
    "\<forall>d \<in> minors. \<forall>a. hview g d a = hview h d a" by blast
  then show "\<exists>t. hd_rd k h = Some (hview h (ucast (fst k)) (snd k), t) \<and> hd_ok t \<and>
      (\<forall>j. wd_minor (fst j) \<longrightarrow> hview t (ucast (fst j)) (snd j) = hview h (ucast (fst j)) (snd j))"
    by (auto simp: hd_rd_def wd_minor_minors)
next
  fix h :: hdst and k :: "u16 \<times> u16" and b :: block
  assume a: "hd_ok h" "wd_minor (fst k)" "length b = 512"
  then have "hd_ok (h\<lparr>incore := b\<rparr>)" by (simp add: hd_ok_incore)
  from wd_write_law [OF this a(2), of "snd k"] obtain g where
    "wd_write (fst k) 0 (snd k) (h\<lparr>incore := b\<rparr>) = Some (0, g)" "hd_ok g"
    "\<forall>d \<in> minors. \<forall>c. hview g d c = (if d = ucast (fst k) \<and> c = snd k then b else hview h d c)"
    by auto
  then show "\<exists>t. hd_wr k b h = Some t \<and> hd_ok t \<and>
      (\<forall>j. wd_minor (fst j) \<longrightarrow> hview t (ucast (fst j)) (snd j) =
        (if j = k then b else hview h (ucast (fst j)) (snd j)))"
    using a(2) by (auto simp: hd_wr_def wd_minor_minors wd_minor_ucast prod_eq_iff)
qed


subsection \<open>Flushing\<close>

lemma flush1_evict: "flush1 i h = evict i h"
  by (simp add: flush1_def evict_def)

lemma evict_keeps_clean:
  "\<not> ca_dirty (cach_buf h ! j) \<Longrightarrow> \<not> ca_dirty (cach_buf (evict k h) ! j)"
  by (cases "k < length (cach_buf h)")
    (auto simp: evict_def cache_write_eq nth_list_update list_update_beyond)

lemma flush_slots:
  assumes "hd_ok h" "\<forall>i \<in> set ks. i < 1016"
  shows "hd_ok (fold flush1 ks h) \<and> incore (fold flush1 ks h) = incore h \<and>
    (\<forall>d \<in> minors. \<forall>a. hview (fold flush1 ks h) d a = hview h d a) \<and>
    (\<forall>i. i \<in> set ks \<or> \<not> ca_dirty (cach_buf h ! i) \<longrightarrow> \<not> ca_dirty (cach_buf (fold flush1 ks h) ! i))"
  using assms
proof (induction ks arbitrary: h)
  case Nil
  then show ?case by simp
next
  case (Cons k ks)
  then have k: "k < 1016" and ks: "\<forall>i \<in> set ks. i < 1016" by simp_all
  note E = evict_ok [OF Cons.prems(1) k] evict_view [OF Cons.prems(1) k] evict_frame(1) [of k h]
    evict_clean [of k h] evict_keeps_clean [of h _ k] hd_ok_lengths(1) [OF Cons.prems(1)]
  show ?case
    using Cons.IH [OF E(1) ks] E(2-) k by (auto simp: flush1_evict)
qed

lemma clean_view:
  assumes "hd_ok h" "d \<in> minors" "\<not> ca_dirty (cach_buf h ! hash d a)"
  shows "hview h d a = medium h (disk_addr d a)"
proof (cases "slot_matches h (hash d a) d a")
  case True
  moreover have "slot_ok h (hash d a)" using assms(1) by (simp add: hd_ok_def)
  moreover have "d \<noteq> - 2" using assms(2) minors_not_empty by blast
  ultimately show ?thesis
    using assms(3) by (auto simp: hview_def slot_ok_def slot_matches_def Let_def)
qed (simp add: hview_def)

lemma ca_sync_facts:
  assumes "hd_ok h"
  shows "hd_ok (ca_sync h)" "d \<in> minors \<Longrightarrow> hview (ca_sync h) d a = hview h d a"
    "incore (ca_sync h) = incore h" "i < 1016 \<Longrightarrow> \<not> ca_dirty (cach_buf (ca_sync h) ! i)"
  using flush_slots [of "h\<lparr>in_casync := 2\<rparr>" "[0..<1016]"] assms by (auto simp: ca_sync_def)

definition dirty_slots :: "hdst \<Rightarrow> nat" where
  "dirty_slots h = length (filter ca_dirty (cach_buf h))"

lemma dirty_slots_clean:
  assumes "i < length (cach_buf h)" "ca_dirty (cach_buf h ! i)"
  shows "Suc (dirty_slots (cache_write i h)) = dirty_slots h"
proof -
  let ?b = "cach_buf h"
  have s: "?b = take i ?b @ ?b ! i # drop (Suc i) ?b" using assms(1) by (rule id_take_nth_drop)
  have "filter ca_dirty ?b = filter ca_dirty (take i ?b) @ ?b ! i # filter ca_dirty (drop (Suc i) ?b)"
    using assms(2) by (subst s) simp
  moreover have "filter ca_dirty (?b[i := (?b ! i)\<lparr>ca_dirty := False\<rparr>]) =
      filter ca_dirty (take i ?b) @ filter ca_dirty (drop (Suc i) ?b)"
    using assms(1) by (simp add: upd_conv_take_nth_drop)
  ultimately show ?thesis by (simp add: dirty_slots_def cache_write_eq)
qed

subsection \<open>Properties\<close>

text \<open>C1: whatever sequence of block reads and writes is issued to the three minor devices of the hard
  disk, every call returns 0, and each read delivers what the last write to that block stored (the
  content the block had at the start, if there was none): the write-back cache, its evictions and
  the three partitions on one card are invisible. After it the cache invariant holds again.\<close>

theorem wd_behaves_as_array:
  assumes "hd_ok h"
    and "\<forall>a \<in> set as. wd_minor (fst (akey a))"
    and "\<forall>k b. Wr k b \<in> set as \<longrightarrow> length b = 512"
  shows "\<exists>bs t n. accesses hd_rd hd_wr as h = Some (bs, t) \<and>
    accesses array_rd array_wr as (\<lambda>k. hview h (ucast (fst k)) (snd k)) = Some (bs, n) \<and>
    hd_ok t \<and> (\<forall>k. wd_minor (fst k) \<longrightarrow> hview t (ucast (fst k)) (snd k) = n k)"
  using hds.accesses_as_array [of h as "\<lambda>k. hview h (ucast (fst k)) (snd k)"] assms by blast

text \<open>\<^verbatim>\<open>ca_sync\<close> leaves no dirty slot and every block of the three minor devices on the card with the
  content its callers see, which it does not change; the kernel's buffer is untouched.\<close>

theorem ca_sync_flushes:
  assumes "hd_ok h" "d \<in> minors"
  shows "medium (ca_sync h) (disk_addr d a) = hview h d a \<and> hview (ca_sync h) d a = hview h d a \<and>
    dirty_slots (ca_sync h) = 0 \<and> incore (ca_sync h) = incore h \<and> hd_ok (ca_sync h)"
proof -
  note S = ca_sync_facts [OF assms(1)]
  have "dirty_slots (ca_sync h) = 0"
    using S(4) hd_ok_lengths(1) [OF S(1)] by (auto simp: dirty_slots_def filter_empty_conv in_set_conv_nth)
  moreover have "medium (ca_sync h) (disk_addr d a) = hview (ca_sync h) d a"
    using clean_view [OF S(1) assms(2)] S(4) [OF hash_less] by simp
  ultimately show ?thesis using S assms(2) by simp
qed

text \<open>C35: \<^verbatim>\<open>int_ca_sync\<close>, called on every clock tick, writes at most one slot: it cleans the first dirty
  slot from \<^verbatim>\<open>sync_i\<close> on and remembers the place, or finds none and rewinds. It changes no content.\<close>

theorem int_ca_sync_progress:
  assumes "hd_ok h" "g = int_ca_sync h"
  shows "hd_ok g \<and> (\<forall>d \<in> minors. \<forall>a. hview g d a = hview h d a) \<and>
    (if in_casync g = 1
     then Suc (dirty_slots g) = dirty_slots h \<and> sync_i h \<le> sync_i g \<and> sync_i g < 1016
     else in_casync g = 0 \<and> sync_i g = 0 \<and> dirty_slots g = dirty_slots h \<and>
          (\<forall>i. sync_i h \<le> i \<longrightarrow> i < 1016 \<longrightarrow> \<not> ca_dirty (cach_buf h ! i)))"
proof (cases "scan (\<lambda>i. ca_dirty (cach_buf h ! i)) (sync_i h) 1016")
  case None
  with assms show ?thesis by (auto simp: int_ca_sync_def Let_def scan_None_iff dirty_slots_def)
next
  case (Some i)
  then have i: "sync_i h \<le> i" "i < 1016" "ca_dirty (cach_buf h ! i)" by (auto simp: scan_Some_iff)
  let ?h = "h\<lparr>in_casync := 2\<rparr>"
  have ok: "hd_ok ?h" using assms(1) by simp
  have "dirty_slots ((cache_write i ?h)\<lparr>in_casync := 1, sync_i := i\<rparr>) = dirty_slots (cache_write i h)"
    by (simp add: dirty_slots_def cache_write_eq)
  with cache_write_ok [OF ok i(2)] cache_write_view [OF ok i(2)] dirty_slots_clean [of i h]
    hd_ok_lengths(1) [OF assms(1)] i Some assms(2) show ?thesis
    by (simp add: int_ca_sync_def Let_def)
qed

subsection \<open>Witnesses\<close>

definition blank :: "block" where
  "blank = replicate 512 0"

definition hd0 :: hdst where
  "hd0 = \<lparr>medium = (\<lambda>a. blank), incore = blank, cach_mem = (\<lambda>a. blank),
     cach_buf = replicate 1016 \<lparr>ca_dirty = False, ca_dev = - 2, ca_blkno = 0\<rparr>, ca_key = 0,
     cach_adr = (0, 0), dptr = Incore, wdtrk = 0, wdsec = 0, wd_rdwr = 0, in_casync = 0,
     in_cawrite = 0, sync_i = 0\<rparr>"

lemma hd0_ok: "hd_ok hd0"
  by (simp add: hd_ok_def hd0_def slot_ok_def blank_def)

lemma wd_behaves_as_array_witness:
  "\<exists>t. accesses hd_rd hd_wr [Wr (0, 7) (replicate 512 1), Wr (2, 7) blank, Rd (0, 7)] hd0 =
     Some ([replicate 512 1], t) \<and> hd_ok t"
proof -
  let ?as = "[Wr (0 :: u16, 7 :: u16) (replicate 512 1), Wr (2, 7) blank, Rd (0, 7)]"
  have "\<exists>n. accesses array_rd array_wr ?as (\<lambda>k. hview hd0 (ucast (fst k)) (snd k)) =
      Some ([replicate 512 1], n)" by (simp add: array_rd_def array_wr_def)
  moreover have "\<exists>bs t n. accesses hd_rd hd_wr ?as hd0 = Some (bs, t) \<and>
     accesses array_rd array_wr ?as (\<lambda>k. hview hd0 (ucast (fst k)) (snd k)) = Some (bs, n) \<and>
     hd_ok t \<and> (\<forall>k. wd_minor (fst k) \<longrightarrow> hview t (ucast (fst k)) (snd k) = n k)"
    by (rule wd_behaves_as_array) (auto simp: hd0_ok wd_minor_def blank_def)
  ultimately show ?thesis by force
qed

text \<open>A cache that holds one dirty block: block 7 of minor 1.\<close>

definition hd1 :: hdst where
  "hd1 = install 1 7 True (replicate 512 1) hd0"

lemma hd1_ok: "hd_ok hd1"
  unfolding hd1_def by (rule install_ok) (simp_all add: hd0_ok minors_def)

lemma ca_sync_flushes_witness:
  "medium (ca_sync hd1) (disk_addr 1 7) = hview hd1 1 7 \<and> hview (ca_sync hd1) 1 7 = hview hd1 1 7 \<and>
    dirty_slots (ca_sync hd1) = 0 \<and> incore (ca_sync hd1) = incore hd1 \<and> hd_ok (ca_sync hd1)"
  by (rule ca_sync_flushes) (simp_all add: hd1_ok minors_def)

lemma int_ca_sync_progress_witness:
  "hd_ok (int_ca_sync hd1) \<and> hview (int_ca_sync hd1) 1 7 = hview hd1 1 7"
  using int_ca_sync_progress [OF hd1_ok refl] by (simp add: minors_def)

end
