(* ===== verification/Buffers.thy ===== *)
theory Buffers
  imports HardDisk
begin

section \<open>The buffer pool and the device switch: DEVIO.C\<close>

text \<open>
  The \<^verbatim>\<open>NBUFS\<close> block buffers between the file system and the block devices: \<^verbatim>\<open>bread\<close>, \<^verbatim>\<open>bfree\<close> and
  their helpers, and \<^verbatim>\<open>bdread\<close>/\<^verbatim>\<open>bdwrite\<close>, which vector a transfer through \<^verbatim>\<open>dev_tab\<close>. A buffer
  pointer is its index in \<open>bufpool\<close>; NULL is \<open>None\<close>. The state \<open>bst\<close> is the lowest layer of the
  kernel state, which extends it. A block transfer is modelled for the hard disk (the driver of
  \<open>HardDisk\<close>, whose \<open>incore\<close> is the data of \<^verbatim>\<open>udata.u_buf\<close>), for the floppy (whose read and write
  routines are stubs that return 0), for the printer's \<^verbatim>\<open>nogood\<close> read and for the null device's
  \<^verbatim>\<open>ok\<close> read; the other drivers have no block access, and a block transfer to one of them is
  outside the model (\<open>wild\<close>).
\<close>

record blkbuf =
  bf_data :: block
  bf_dev :: int
  bf_blk :: u16
  bf_dirty :: u8
  bf_busy :: bool
  bf_time :: u16

record bst =
  bufpool :: "blkbuf list"
  bufclock :: u16
  hd :: hdst
  u_error :: errno
  u_buf :: nat

definition NBUFS :: nat where "NBUFS = 38"

datatype driver = WD | FD | LPR | TTY | NUL | KMEM | MT

definition dev_tab :: "(driver \<times> u16) list" where
  "dev_tab = [(WD, 0), (FD, 0), (WD, 1), (WD, 2), (LPR, 0), (TTY, 0), (TTY, 1), (TTY, 2), (NUL, 0),
     (KMEM, 0), (MT, 0), (TTY, 3), (TTY, 4), (TTY, 5), (TTY, 6)]"

definition validdev :: "int \<Rightarrow> bool" where
  "validdev dev \<longleftrightarrow> 0 \<le> dev \<and> dev < int (length dev_tab)"

definition dev_driver :: "int \<Rightarrow> driver" where
  "dev_driver dev = fst (dev_tab ! nat dev)"

definition dev_minor :: "int \<Rightarrow> u16" where
  "dev_minor dev = snd (dev_tab ! nat dev)"

subsection \<open>Access to a buffer\<close>

definition bufp :: "nat \<Rightarrow> 'a bst_scheme \<Rightarrow> blkbuf" where
  "bufp i s = bufpool s ! i"

definition upd_buf :: "nat \<Rightarrow> (blkbuf \<Rightarrow> blkbuf) \<Rightarrow> 'a bst_scheme \<Rightarrow> 'a bst_scheme" where
  "upd_buf i f s = s\<lparr>bufpool := (bufpool s)[i := f (bufpool s ! i)]\<rparr>"

definition buf_data :: "nat \<Rightarrow> 'a bst_scheme \<Rightarrow> block" where
  "buf_data i s = bf_data (bufp i s)"

definition set_data :: "nat \<Rightarrow> block \<Rightarrow> 'a bst_scheme \<Rightarrow> 'a bst_scheme" where
  "set_data i b = upd_buf i (\<lambda>bp. bp\<lparr>bf_data := b\<rparr>)"

subsection \<open>The block device interface\<close>

definition bdread :: "nat \<Rightarrow> 'a bst_scheme \<Rightarrow> (int \<times> 'a bst_scheme) option" where
  "bdread i s =
     (let bp = bufp i s; dev = bf_dev bp
      in if \<not> validdev dev then panic ''bdread: invalid dev''
         else let s = s\<lparr>u_buf := i\<rparr>
              in (case dev_driver dev of
                    WD \<Rightarrow> do { (r, h) \<leftarrow> wd_read (dev_minor dev) 0 (bf_blk bp) ((hd s)\<lparr>incore := bf_data bp\<rparr>);
                               Some (r, set_data i (incore h) (s\<lparr>hd := h\<rparr>)) }
                  | FD \<Rightarrow> Some (0, s)
                  | LPR \<Rightarrow> Some (- 1, s)
                  | NUL \<Rightarrow> Some (0, s)
                  | _ \<Rightarrow> wild))"

definition bdwrite :: "nat \<Rightarrow> 'a bst_scheme \<Rightarrow> (int \<times> 'a bst_scheme) option" where
  "bdwrite i s =
     (let bp = bufp i s; dev = bf_dev bp
      in if \<not> validdev dev then panic ''bdwrite: invalid dev''
         else let s = s\<lparr>u_buf := i\<rparr>
              in (case dev_driver dev of
                    WD \<Rightarrow> do { (r, h) \<leftarrow> wd_write (dev_minor dev) 0 (bf_blk bp) ((hd s)\<lparr>incore := bf_data bp\<rparr>);
                               Some (r, set_data i (incore h) (s\<lparr>hd := h\<rparr>)) }
                  | FD \<Rightarrow> Some (0, s)
                  | _ \<Rightarrow> wild))"

subsection \<open>The pool\<close>

definition bfind :: "int \<Rightarrow> u16 \<Rightarrow> 'a bst_scheme \<Rightarrow> nat option" where
  "bfind dev blk s = scan (\<lambda>i. bf_dev (bufp i s) = dev \<and> bf_blk (bufp i s) = blk) 0 NBUFS"

text \<open>The search of \<open>freebuf\<close> for the buffer with the oldest time stamp; \<open>>=\<close> keeps the last of equals.\<close>

definition oldest_step :: "'a bst_scheme \<Rightarrow> nat \<Rightarrow> nat option \<times> u16 \<Rightarrow> nat option \<times> u16" where
  "oldest_step s i acc =
     (let age = bufclock s - bf_time (bufp i s)
      in if age \<ge> snd acc \<and> \<not> bf_busy (bufp i s) then (Some i, age) else acc)"

definition oldest :: "'a bst_scheme \<Rightarrow> nat option" where
  "oldest s = fst (fold (oldest_step s) [0..<NBUFS] (None, 0))"

definition freebuf :: "'a bst_scheme \<Rightarrow> (nat \<times> 'a bst_scheme) option" where
  "freebuf s =
     (case oldest s of
        None \<Rightarrow> panic ''no free buffers''
      | Some i \<Rightarrow>
          if bf_dirty (bufp i s) \<noteq> 0 then
            do { (r, s) \<leftarrow> bdwrite i s;
                 let s = (if r = - 1 then s\<lparr>u_error := EIO\<rparr> else s);
                 Some (i, upd_buf i (\<lambda>bp. bp\<lparr>bf_dirty := 0\<rparr>) s) }
          else Some (i, s))"

text \<open>The tail of \<open>bread\<close> and \<open>tmpbuf\<close>: mark the buffer busy and stamp it.\<close>

definition stamp :: "nat \<Rightarrow> 'a bst_scheme \<Rightarrow> 'a bst_scheme" where
  "stamp i s =
     (let s = upd_buf i (\<lambda>bp. bp\<lparr>bf_busy := True\<rparr>) s;
          s = s\<lparr>bufclock := bufclock s + 1\<rparr>
      in upd_buf i (\<lambda>bp. bp\<lparr>bf_time := bufclock s\<rparr>) s)"

definition bread :: "int \<Rightarrow> u16 \<Rightarrow> bool \<Rightarrow> 'a bst_scheme \<Rightarrow> (nat option \<times> 'a bst_scheme) option" where
  "bread dev blk rewrite s =
     (case bfind dev blk s of
        Some i \<Rightarrow> if bf_busy (bufp i s) then panic ''want busy block'' else Some (Some i, stamp i s)
      | None \<Rightarrow>
          do { (i, s) \<leftarrow> freebuf s;
               let s = upd_buf i (\<lambda>bp. bp\<lparr>bf_dev := dev, bf_blk := blk\<rparr>) s;
               if rewrite then Some (Some i, stamp i s)
               else do { (r, s) \<leftarrow> bdread i s;
                         if r = - 1 then Some (None, s\<lparr>u_error := EIO\<rparr>)
                         else Some (Some i, stamp i s) } })"

definition bfree :: "nat \<Rightarrow> u8 \<Rightarrow> 'a bst_scheme \<Rightarrow> (int \<times> 'a bst_scheme) option" where
  "bfree i dirty s =
     (let s = upd_buf i (\<lambda>bp. bp\<lparr>bf_dirty := bf_dirty bp OR dirty, bf_busy := False\<rparr>) s
      in if dirty = 2 then
           do { (r, s) \<leftarrow> bdwrite i s;
                let s = (if r = - 1 then s\<lparr>u_error := EIO\<rparr> else s);
                Some (- 1, upd_buf i (\<lambda>bp. bp\<lparr>bf_dirty := 0\<rparr>) s) }
         else Some (0, s))"

definition brelse :: "nat \<Rightarrow> 'a bst_scheme \<Rightarrow> 'a bst_scheme option" where
  "brelse i s = map_option snd (bfree i 0 s)"

definition bawrite :: "nat \<Rightarrow> 'a bst_scheme \<Rightarrow> 'a bst_scheme option" where
  "bawrite i s = map_option snd (bfree i 1 s)"

definition tmpbuf :: "'a bst_scheme \<Rightarrow> (nat \<times> 'a bst_scheme) option" where
  "tmpbuf s = do { (i, s) \<leftarrow> freebuf s; Some (i, stamp i (upd_buf i (\<lambda>bp. bp\<lparr>bf_dev := - 1\<rparr>) s)) }"

definition zerobuf :: "'a bst_scheme \<Rightarrow> (nat \<times> 'a bst_scheme) option" where
  "zerobuf s = do { (i, s) \<leftarrow> tmpbuf s; Some (i, set_data i (replicate 512 0) s) }"

definition bufsync1 :: "nat \<Rightarrow> 'a bst_scheme \<Rightarrow> 'a bst_scheme option" where
  "bufsync1 i s =
     (if bf_dev (bufp i s) \<noteq> - 1 \<and> bf_dirty (bufp i s) \<noteq> 0 then
        do { (r, s) \<leftarrow> bdwrite i s;
             Some (if \<not> bf_busy (bufp i s) then upd_buf i (\<lambda>bp. bp\<lparr>bf_dirty := 0\<rparr>) s else s) }
      else Some s)"

definition bufsync :: "'a bst_scheme \<Rightarrow> 'a bst_scheme option" where
  "bufsync s = foldM bufsync1 [0..<NBUFS] s"

definition bufinit :: "'a bst_scheme \<Rightarrow> 'a bst_scheme" where
  "bufinit s = s\<lparr>bufpool := map (\<lambda>bp. bp\<lparr>bf_dev := - 1\<rparr>) (bufpool s), hd := init_cache (hd s)\<rparr>"

text \<open>A caller that uses the result of \<open>bread\<close> as a pointer without testing it for NULL.\<close>

definition breadp :: "int \<Rightarrow> u16 \<Rightarrow> bool \<Rightarrow> 'a bst_scheme \<Rightarrow> (nat \<times> 'a bst_scheme) option" where
  "breadp dev blk rewrite s =
     do { (b, s) \<leftarrow> bread dev blk rewrite s; case b of None \<Rightarrow> wild | Some i \<Rightarrow> Some (i, s) }"


subsection \<open>What the pool means\<close>

text \<open>
  \<open>bview s d a\<close> is block \<open>a\<close> of device \<open>d\<close> as the file system sees it: the data of the buffer named
  after the block if there is one, else what the driver would deliver. \<open>pool_ok X s\<close> is the
  invariant: no two buffers have the same name, a dirty buffer belongs to a mountable device, and a
  clean buffer of a disk agrees with the driver, save the busy buffers \<open>X\<close> whose data their holder
  has begun to rewrite.
\<close>

definition disk_dev :: "int \<Rightarrow> bool" where
  "disk_dev d \<longleftrightarrow> d = 0 \<or> d = 2 \<or> d = 3"

definition mountable :: "int \<Rightarrow> bool" where
  "mountable d \<longleftrightarrow> 0 \<le> d \<and> d < 4"

definition hd_blk :: "'a bst_scheme \<Rightarrow> int \<Rightarrow> u16 \<Rightarrow> block" where
  "hd_blk s d a = hview (hd s) (ucast (dev_minor d)) a"

definition bview :: "'a bst_scheme \<Rightarrow> int \<Rightarrow> u16 \<Rightarrow> block" where
  "bview s d a = (case bfind d a s of Some i \<Rightarrow> buf_data i s | None \<Rightarrow> hd_blk s d a)"

definition named :: "blkbuf \<Rightarrow> int \<Rightarrow> u16 \<Rightarrow> bool" where
  "named bp d a \<longleftrightarrow> bf_dev bp = d \<and> bf_blk bp = a"

definition buf_inv :: "'a bst_scheme \<Rightarrow> bool \<Rightarrow> blkbuf \<Rightarrow> bool" where
  "buf_inv s loose bp \<longleftrightarrow> length (bf_data bp) = 512 \<and> (bf_dirty bp \<noteq> 0 \<longrightarrow> mountable (bf_dev bp)) \<and>
     (disk_dev (bf_dev bp) \<longrightarrow> bf_dirty bp = 0 \<longrightarrow> \<not> loose \<longrightarrow> bf_data bp = hd_blk s (bf_dev bp) (bf_blk bp))"

definition distinct_names :: "'a bst_scheme \<Rightarrow> bool" where
  "distinct_names s \<longleftrightarrow> (\<forall>i < 38. \<forall>j < 38. bf_dev (bufp i s) \<noteq> - 1 \<longrightarrow>
     named (bufp j s) (bf_dev (bufp i s)) (bf_blk (bufp i s)) \<longrightarrow> i = j)"

definition busyset :: "'a bst_scheme \<Rightarrow> nat set" where
  "busyset s = {i. i < 38 \<and> bf_busy (bufp i s)}"

definition pool_ok :: "nat set \<Rightarrow> 'a bst_scheme \<Rightarrow> bool" where
  "pool_ok X s \<longleftrightarrow> length (bufpool s) = 38 \<and> hd_ok (hd s) \<and> X \<subseteq> busyset s \<and> distinct_names s \<and>
     (\<forall>i < 38. buf_inv s (i \<in> X) (bufp i s))"

lemma NBUFS_val [simp]: "NBUFS = 38"
  by (simp add: NBUFS_def)

lemma disk_dev_facts:
  assumes "disk_dev d"
  shows "validdev d" "dev_driver d = WD" "wd_minor (dev_minor d)" "mountable d" "d \<noteq> - 1" "d \<noteq> 1"
  using assms by (auto simp: disk_dev_def validdev_def dev_driver_def dev_minor_def dev_tab_def
      wd_minor_def mountable_def)

lemma mountable_cases: "mountable d \<longleftrightarrow> disk_dev d \<or> d = 1"
  by (auto simp: mountable_def disk_dev_def)

lemma disk_dev_minor_inj:
  assumes "disk_dev d" "disk_dev e" "(ucast (dev_minor d) :: u8) = ucast (dev_minor e)"
  shows "d = e"
  using assms by (auto simp: disk_dev_def dev_minor_def dev_tab_def)

lemma floppy_dev: "validdev 1" "dev_driver 1 = FD"
  by (simp_all add: validdev_def dev_driver_def dev_tab_def)

lemma pool_okD:
  assumes "pool_ok X s"
  shows "length (bufpool s) = 38" "hd_ok (hd s)" "X \<subseteq> busyset s" "distinct_names s"
    "i < 38 \<Longrightarrow> buf_inv s (i \<in> X) (bufp i s)"
  using assms by (auto simp: pool_ok_def)

text \<open>Lookup.\<close>

lemma bfind_Some: "bfind d a s = Some i \<Longrightarrow> i < 38 \<and> named (bufp i s) d a"
  by (simp add: bfind_def scan_Some_iff named_def)

lemma bfind_None: "bfind d a s = None \<longleftrightarrow> (\<forall>i < 38. \<not> named (bufp i s) d a)"
  by (auto simp: bfind_def scan_None_iff named_def)

lemma bfind_eq:
  assumes "distinct_names s" "i < 38" "named (bufp i s) d a" "d \<noteq> - 1"
  shows "bfind d a s = Some i"
proof (cases "bfind d a s")
  case None
  with assms show ?thesis by (auto simp: bfind_None)
next
  case (Some j)
  with bfind_Some [OF this] assms have "j = i" unfolding distinct_names_def named_def by metis
  with Some show ?thesis by simp
qed

lemma bview_in:
  "distinct_names s \<Longrightarrow> i < 38 \<Longrightarrow> named (bufp i s) d a \<Longrightarrow> d \<noteq> - 1 \<Longrightarrow> bview s d a = bf_data (bufp i s)"
  by (simp add: bview_def bfind_eq buf_data_def)

lemma bview_out: "\<forall>i < 38. \<not> named (bufp i s) d a \<Longrightarrow> bview s d a = hd_blk s d a"
  by (simp add: bview_def flip: bfind_None)

lemma bview_length:
  assumes "pool_ok X s"
  shows "length (bview s d a) = 512"
proof (cases "bfind d a s")
  case None
  with assms show ?thesis by (simp add: bview_def hd_blk_def hview_length pool_okD)
next
  case (Some i)
  with bfind_Some [OF this] pool_okD(5) [OF assms] show ?thesis
    by (simp add: bview_def buf_data_def buf_inv_def)
qed

subsection \<open>One buffer replaced\<close>

lemma bufp_upd:
  "length (bufpool s) = 38 \<Longrightarrow> i < 38 \<Longrightarrow> bufp j (upd_buf i f s) = (if j = i then f (bufp i s) else bufp j s)"
  by (simp add: bufp_def upd_buf_def nth_list_update)

lemma upd_buf_frame [simp]:
  "hd (upd_buf i f s) = hd s" "u_error (upd_buf i f s) = u_error s"
  "bufclock (upd_buf i f s) = bufclock s" "length (bufpool (upd_buf i f s)) = length (bufpool s)"
  "bst.more (upd_buf i f s) = bst.more s" "hd_blk (upd_buf i f s) d a = hd_blk s d a"
  by (simp_all add: upd_buf_def hd_blk_def)

lemma buf_inv_upd [simp]: "buf_inv (upd_buf i f s) l bp = buf_inv s l bp"
  by (simp add: buf_inv_def)

text \<open>An update that keeps the name of the buffer.\<close>

lemma pool_ok_upd:
  assumes ok: "pool_ok X s" and i: "i < 38"
    and name: "\<And>b. bf_dev (f b) = bf_dev b" "\<And>b. bf_blk (f b) = bf_blk b"
    and inv: "buf_inv s (i \<in> Y) (f (bufp i s))"
    and XY: "X - {i} = Y - {i}" and busy: "i \<in> Y \<longrightarrow> bf_busy (f (bufp i s))"
  shows "pool_ok Y (upd_buf i f s)"
proof -
  note P = pool_okD [OF ok]
  have "Y \<subseteq> busyset (upd_buf i f s)"
  proof
    fix j assume j: "j \<in> Y"
    show "j \<in> busyset (upd_buf i f s)"
    proof (cases "j = i")
      case True
      with j busy i P(1) show ?thesis by (simp add: busyset_def bufp_upd)
    next
      case False
      with j XY P(3) have "j \<in> busyset s" by blast
      with False i P(1) show ?thesis by (simp add: busyset_def bufp_upd)
    qed
  qed
  moreover have "distinct_names (upd_buf i f s)"
  proof -
    have same: "bf_dev (bufp j (upd_buf i f s)) = bf_dev (bufp j s)"
      "bf_blk (bufp j (upd_buf i f s)) = bf_blk (bufp j s)" for j
      using i P(1) by (simp_all add: bufp_upd name)
    show ?thesis using P(4) by (simp add: distinct_names_def named_def same)
  qed
  moreover have "buf_inv (upd_buf i f s) (j \<in> Y) (bufp j (upd_buf i f s))" if j: "j < 38" for j
  proof (cases "j = i")
    case True
    then show ?thesis using inv i P(1) by (simp add: bufp_upd)
  next
    case False
    then have "j \<in> Y \<longleftrightarrow> j \<in> X" using XY by blast
    then show ?thesis using P(5) [OF j] False i P(1) by (simp add: bufp_upd)
  qed
  ultimately show ?thesis using P unfolding pool_ok_def by simp
qed

lemma bview_upd:
  assumes ok: "pool_ok X s" and i: "i < 38"
    and name: "\<And>b. bf_dev (f b) = bf_dev b" "\<And>b. bf_blk (f b) = bf_blk b" and d: "d \<noteq> - 1"
  shows "bview (upd_buf i f s) d a =
    (if named (bufp i s) d a then bf_data (f (bufp i s)) else bview s d a)"
proof -
  note P = pool_okD [OF ok]
  have bp: "bufp j (upd_buf i f s) = (if j = i then f (bufp i s) else bufp j s)" for j
    using i P(1) by (simp add: bufp_upd)
  have find: "bfind d a (upd_buf i f s) = bfind d a s"
    unfolding bfind_def by (rule arg_cong [where f = "\<lambda>P. scan P 0 NBUFS"]) (auto simp: bp name)
  show ?thesis
  proof (cases "named (bufp i s) d a")
    case True
    then show ?thesis using bfind_eq [OF P(4) i True d] find by (simp add: bview_def buf_data_def bp)
  next
    case False
    then show ?thesis
      using bfind_Some [of d a s] find by (auto simp: bview_def buf_data_def bp split: option.split)
  qed
qed

lemma busyset_upd:
  assumes "length (bufpool s) = 38" "i < 38"
  shows "busyset (upd_buf i f s) = (if bf_busy (f (bufp i s)) then insert i (busyset s) else busyset s - {i})"
  using assms by (auto simp: busyset_def bufp_upd)


subsection \<open>Writing a buffer out\<close>

definition same_rest :: "'a bst_scheme \<Rightarrow> 'a bst_scheme \<Rightarrow> bool" where
  "same_rest s t \<longleftrightarrow> bst.more t = bst.more s \<and> u_error t = u_error s"

lemma same_rest_refl [simp]: "same_rest s s"
  by (simp add: same_rest_def)

lemma same_rest_trans: "same_rest s t \<Longrightarrow> same_rest t u \<Longrightarrow> same_rest s u"
  by (simp add: same_rest_def)

lemma same_rest_upd [simp]: "same_rest s (upd_buf i f s)" "same_rest s (set_data i b s)"
  by (simp_all add: same_rest_def set_data_def)

lemma upd_buf_same: "f (bufp i s) = bufp i s \<Longrightarrow> upd_buf i f s = s"
  by (simp add: upd_buf_def bufp_def)

lemma bdwrite_law:
  assumes ok: "pool_ok X s" and i: "i < 38" and dev: "mountable (bf_dev (bufp i s))"
  shows "\<exists>h. bdwrite i s = Some (0, s\<lparr>u_buf := i, hd := h\<rparr>) \<and> hd_ok h \<and>
    (\<forall>d. disk_dev d \<longrightarrow> (\<forall>a. hview h (ucast (dev_minor d)) a =
       (if named (bufp i s) d a then bf_data (bufp i s) else hd_blk s d a)))"
proof -
  let ?b = "bufp i s"
  note P = pool_okD [OF ok]
  have len: "length (bf_data ?b) = 512" using P(5) [OF i] by (simp add: buf_inv_def)
  show ?thesis
  proof (cases "disk_dev (bf_dev ?b)")
    case True
    note D = disk_dev_facts [OF True]
    have "hd_ok ((hd s)\<lparr>incore := bf_data ?b\<rparr>)" using P(2) len by (simp add: hd_ok_incore)
    from wd_write_law [OF this D(3), of "bf_blk ?b"] obtain g where
      g: "wd_write (dev_minor (bf_dev ?b)) 0 (bf_blk ?b) ((hd s)\<lparr>incore := bf_data ?b\<rparr>) = Some (0, g)"
        "hd_ok g" "incore g = bf_data ?b"
      and v: "\<forall>d \<in> minors. \<forall>a. hview g d a =
        (if d = ucast (dev_minor (bf_dev ?b)) \<and> a = bf_blk ?b then bf_data ?b else hview (hd s) d a)"
      by auto
    have "set_data i (bf_data ?b) (s\<lparr>u_buf := i, hd := g\<rparr>) = s\<lparr>u_buf := i, hd := g\<rparr>"
      unfolding set_data_def by (rule upd_buf_same) (simp add: bufp_def)
    then have "bdwrite i s = Some (0, s\<lparr>u_buf := i, hd := g\<rparr>)"
      using g D by (simp add: bdwrite_def Let_def)
    moreover have "hview g (ucast (dev_minor d)) a = (if named ?b d a then bf_data ?b else hd_blk s d a)"
      if d: "disk_dev d" for d a
    proof -
      have "(ucast (dev_minor d) :: u8) = ucast (dev_minor (bf_dev ?b)) \<longleftrightarrow> d = bf_dev ?b"
        using disk_dev_minor_inj [OF d True] by blast
      moreover have "ucast (dev_minor d) \<in> minors" using disk_dev_facts(3) [OF d] by (rule wd_minor_minors)
      ultimately show ?thesis using v by (auto simp: named_def hd_blk_def)
    qed
    ultimately show ?thesis using g(2) by blast
  next
    case False
    with dev have one: "bf_dev ?b = 1" by (simp add: mountable_cases)
    then have "bdwrite i s = Some (0, s\<lparr>u_buf := i, hd := hd s\<rparr>)"
      by (simp add: bdwrite_def Let_def floppy_dev)
    moreover have "\<not> named ?b d a" if "disk_dev d" for d a
      using one disk_dev_facts(6) [OF that] by (auto simp: named_def)
    ultimately show ?thesis using P(2) by (intro exI [of _ "hd s"]) (simp add: hd_blk_def)
  qed
qed

text \<open>A buffer written out and marked clean: the pool holds the same blocks as before.\<close>

lemma written:
  assumes ok: "pool_ok X s" and i: "i < 38" and h: "hd_ok h"
    and v: "\<forall>d. disk_dev d \<longrightarrow> (\<forall>a. hview h (ucast (dev_minor d)) a =
       (if named (bufp i s) d a then bf_data (bufp i s) else hd_blk s d a))"
  defines "w \<equiv> s\<lparr>u_buf := i, hd := h\<rparr>"
  shows "pool_ok X w" "disk_dev d \<Longrightarrow> bview w d a = bview s d a" "same_rest s w" "busyset w = busyset s"
    "disk_dev (bf_dev (bufp i s)) \<Longrightarrow> bf_data (bufp i s) = hd_blk w (bf_dev (bufp i s)) (bf_blk (bufp i s))"
    "bufp j w = bufp j s"
proof -
  note P = pool_okD [OF ok]
  have bp: "bufp j w = bufp j s" for j by (simp add: w_def bufp_def)
  have hb: "hd_blk w d a = (if named (bufp i s) d a then bf_data (bufp i s) else hd_blk s d a)"
    if "disk_dev d" for d a
    using v that by (simp add: hd_blk_def w_def)
  have "buf_inv w (j \<in> X) (bufp j w)" if j: "j < 38" for j
  proof -
    have "bf_data (bufp j s) = hd_blk w (bf_dev (bufp j s)) (bf_blk (bufp j s))"
      if c: "disk_dev (bf_dev (bufp j s))" "bf_dirty (bufp j s) = 0" "j \<notin> X"
    proof (cases "j = i")
      case True
      then show ?thesis using hb c(1) by (simp add: named_def)
    next
      case False
      then have "\<not> named (bufp i s) (bf_dev (bufp j s)) (bf_blk (bufp j s))"
        using P(4) i j disk_dev_facts(5) [OF c(1)] unfolding distinct_names_def by blast
      then show ?thesis using hb c P(5) [OF j] by (simp add: buf_inv_def)
    qed
    then show ?thesis using P(5) [OF j] by (auto simp: buf_inv_def bp)
  qed
  then show "pool_ok X w"
    using P h unfolding pool_ok_def busyset_def distinct_names_def bp by (simp add: w_def)
  show "bview w d a = bview s d a" if d: "disk_dev d"
  proof (cases "bfind d a s")
    case None
    then have "\<not> named (bufp i s) d a" using i by (simp add: bfind_None)
    moreover have "bfind d a w = None" using None by (simp add: bfind_None bp)
    ultimately show ?thesis using None hb [OF d] by (simp add: bview_def)
  next
    case (Some j)
    then have "bfind d a w = Some j" by (simp add: bfind_def bp)
    with Some show ?thesis by (simp add: bview_def buf_data_def bp)
  qed
  show "same_rest s w" by (simp add: same_rest_def w_def)
  show "busyset w = busyset s" by (simp add: busyset_def bp)
  show "bf_data (bufp i s) = hd_blk w (bf_dev (bufp i s)) (bf_blk (bufp i s))"
    if "disk_dev (bf_dev (bufp i s))"
    using hb [OF that] by (simp add: named_def)
  show "bufp j w = bufp j s" by (rule bp)
qed

definition mark_clean :: "blkbuf \<Rightarrow> blkbuf" where
  "mark_clean bp = bp\<lparr>bf_dirty := 0\<rparr>"

lemma mark_clean_fields [simp]:
  "bf_dev (mark_clean b) = bf_dev b" "bf_blk (mark_clean b) = bf_blk b" "bf_busy (mark_clean b) = bf_busy b"
  "bf_data (mark_clean b) = bf_data b" "bf_dirty (mark_clean b) = 0"
  by (simp_all add: mark_clean_def)

lemma clean_out:
  assumes ok: "pool_ok X s" and i: "i < 38" and dev: "mountable (bf_dev (bufp i s))"
  shows "\<exists>w t. bdwrite i s = Some (0, w) \<and> t = upd_buf i mark_clean w \<and> pool_ok X w \<and> pool_ok (X - {i}) t \<and>
    same_rest s t \<and> busyset t = busyset s \<and> same_rest s w \<and>
    (\<forall>d a. disk_dev d \<longrightarrow> bview t d a = bview s d a \<and> bview w d a = bview s d a) \<and>
    (\<forall>j. bufp j w = bufp j s) \<and> (\<forall>j. bufp j t = (if j = i then mark_clean (bufp i s) else bufp j s))"
proof -
  from bdwrite_law [OF assms] obtain h where
    bw: "bdwrite i s = Some (0, s\<lparr>u_buf := i, hd := h\<rparr>)" and h: "hd_ok h"
    and v: "\<forall>d. disk_dev d \<longrightarrow> (\<forall>a. hview h (ucast (dev_minor d)) a =
       (if named (bufp i s) d a then bf_data (bufp i s) else hd_blk s d a))" by blast
  let ?w = "s\<lparr>u_buf := i, hd := h\<rparr>" and ?t = "upd_buf i mark_clean (s\<lparr>u_buf := i, hd := h\<rparr>)"
  note W = written [OF ok i h v]
  note P = pool_okD [OF W(1)]
  have inv: "buf_inv ?w False (mark_clean (bufp i ?w))"
    using P(5) [OF i] W(5) by (auto simp: buf_inv_def bufp_def)
  have "pool_ok (X - {i}) ?t"
    by (rule pool_ok_upd [OF W(1) i]) (use inv in auto)
  moreover have "bview ?t d a = bview s d a" if d: "disk_dev d" for d a
    using bview_upd [OF W(1) i, of mark_clean d a] disk_dev_facts(5) [OF d] W(2) [OF d, of a]
      bview_in [OF P(4) i, of d a] by auto
  moreover have "busyset ?t = busyset s"
    using busyset_upd [OF P(1) i, of mark_clean] W(4) i W(6) by (auto simp: busyset_def)
  moreover have "same_rest s ?t" using W(3) by (simp add: same_rest_def)
  moreover have "bufp j ?t = (if j = i then mark_clean (bufp i s) else bufp j s)" for j
    using bufp_upd [OF P(1) i] W(6) by simp
  ultimately show ?thesis using bw W by metis
qed


subsection \<open>Choosing a buffer\<close>

definition age :: "'a bst_scheme \<Rightarrow> nat \<Rightarrow> u16" where
  "age s i = bufclock s - bf_time (bufp i s)"

lemma oldest_prefix:
  "case fold (oldest_step s) [0..<n] (None, 0) of
     (None, t) \<Rightarrow> t = 0 \<and> (\<forall>j < n. bf_busy (bufp j s))
   | (Some i, t) \<Rightarrow> i < n \<and> \<not> bf_busy (bufp i s) \<and> t = age s i \<and>
       (\<forall>j < n. \<not> bf_busy (bufp j s) \<longrightarrow> age s j \<le> t)"
proof (induction n)
  case 0
  then show ?case by simp
next
  case (Suc n)
  then show ?case
    by (auto simp: oldest_step_def age_def Let_def less_Suc_eq split: prod.splits option.splits)
qed

lemma oldest_spec:
  "oldest s = None \<Longrightarrow> j < 38 \<Longrightarrow> bf_busy (bufp j s)"
  "oldest s = Some i \<Longrightarrow> i < 38 \<and> \<not> bf_busy (bufp i s)"
  "oldest s = Some i \<Longrightarrow> j < 38 \<Longrightarrow> \<not> bf_busy (bufp j s) \<Longrightarrow> age s j \<le> age s i"
  using oldest_prefix [where s = s and n = 38] by (auto simp: oldest_def split: prod.splits option.splits)

lemma mark_clean_eta: "(\<lambda>bp. bp\<lparr>bf_dirty := 0\<rparr>) = mark_clean"
  by (simp add: mark_clean_def fun_eq_iff)

lemma freebuf_law:
  assumes ok: "pool_ok X s" and room: "\<exists>j < 38. \<not> bf_busy (bufp j s)"
  shows "\<exists>i t. freebuf s = Some (i, t) \<and> oldest s = Some i \<and> i < 38 \<and> \<not> bf_busy (bufp i s) \<and>
    pool_ok X t \<and> same_rest s t \<and> busyset t = busyset s \<and>
    (\<forall>d a. disk_dev d \<longrightarrow> bview t d a = bview s d a) \<and>
    (\<forall>j. bufp j t = (if j = i then mark_clean (bufp i s) else bufp j s))"
proof -
  from room obtain i where o: "oldest s = Some i"
    using oldest_spec(1) by (cases "oldest s") auto
  with oldest_spec(2) have i: "i < 38" "\<not> bf_busy (bufp i s)" by blast+
  have iX: "X - {i} = X" using pool_okD(3) [OF ok] i by (auto simp: busyset_def)
  show ?thesis
  proof (cases "bf_dirty (bufp i s) = 0")
    case True
    then have "freebuf s = Some (i, s)" using o by (simp add: freebuf_def)
    moreover have "mark_clean (bufp i s) = bufp i s" using True by (simp add: mark_clean_def)
    ultimately show ?thesis using i o ok by (intro exI [of _ i] exI [of _ s]) auto
  next
    case False
    then have "mountable (bf_dev (bufp i s))" using pool_okD(5) [OF ok i(1)] by (simp add: buf_inv_def)
    from clean_out [OF ok i(1) this] obtain w t where
      bw: "bdwrite i s = Some (0, w)" and t: "t = upd_buf i mark_clean w"
      and r: "pool_ok (X - {i}) t" "same_rest s t" "busyset t = busyset s"
        "\<forall>d a. disk_dev d \<longrightarrow> bview t d a = bview s d a"
        "\<forall>j. bufp j t = (if j = i then mark_clean (bufp i s) else bufp j s)" by blast
    have "freebuf s = Some (i, t)" using o False bw t by (simp add: freebuf_def mark_clean_eta)
    with r i o iX show ?thesis by auto
  qed
qed

subsection \<open>Naming a free buffer\<close>

lemma retag:
  assumes ok: "pool_ok X s" and i: "i < 38" "\<not> bf_busy (bufp i s)" and clean: "bf_dirty (bufp i s) = 0"
    and f: "\<And>b. bf_busy (f b)" "\<And>b. bf_dirty (f b) = bf_dirty b" "\<And>b. bf_dev (f b) = dev"
      "\<And>b. bf_blk (f b) = blk" "length (bf_data (f (bufp i s))) = 512"
    and new: "dev = - 1 \<or> (\<forall>j < 38. \<not> named (bufp j s) dev blk)"
    and Y: "Y = X \<or> Y = insert i X"
    and data: "i \<notin> Y \<Longrightarrow> disk_dev dev \<Longrightarrow> bf_data (f (bufp i s)) = hd_blk s dev blk"
  defines "t \<equiv> upd_buf i f s"
  shows "pool_ok Y t" "busyset t = insert i (busyset s)"
    "disk_dev d \<Longrightarrow> bview t d a = (if d = dev \<and> a = blk then bf_data (f (bufp i s)) else bview s d a)"
proof -
  note P = pool_okD [OF ok]
  have bp: "bufp j t = (if j = i then f (bufp i s) else bufp j s)" for j
    using bufp_upd [OF P(1) i(1)] by (simp add: t_def)
  have bi: "buf_inv t l b = buf_inv s l b" for l b by (simp add: t_def)
  have iX: "i \<notin> X" using P(3) i by (auto simp: busyset_def)
  show bs: "busyset t = insert i (busyset s)"
    using busyset_upd [OF P(1) i(1)] f(1) by (simp add: t_def)
  have "distinct_names t"
    unfolding distinct_names_def
  proof (intro allI impI)
    fix p q
    assume p: "p < 38" and q: "q < 38" and nz: "bf_dev (bufp p t) \<noteq> - 1"
      and same: "named (bufp q t) (bf_dev (bufp p t)) (bf_blk (bufp p t))"
    show "p = q"
    proof (cases "p = i \<or> q = i")
      case True
      with p q nz same new show ?thesis by (auto simp: bp f named_def split: if_splits)
    next
      case False
      with p q nz same P(4) show ?thesis by (simp add: bp distinct_names_def)
    qed
  qed
  moreover have "buf_inv t (j \<in> Y) (bufp j t)" if j: "j < 38" for j
  proof (cases "j = i")
    case True
    have "buf_inv s (i \<in> Y) (f (bufp i s))" using f clean data by (simp add: buf_inv_def)
    with True show ?thesis by (simp add: bp bi)
  next
    case False
    then have "j \<in> Y \<longleftrightarrow> j \<in> X" using Y by auto
    with False show ?thesis using P(5) [OF j] by (simp add: bp bi)
  qed
  moreover have "Y \<subseteq> busyset t" using Y P(3) bs by auto
  ultimately show ok': "pool_ok Y t" using P unfolding pool_ok_def t_def by simp
  note dist = pool_okD(4) [OF ok']
  show "bview t d a = (if d = dev \<and> a = blk then bf_data (f (bufp i s)) else bview s d a)" if d: "disk_dev d"
  proof (cases "d = dev \<and> a = blk")
    case True
    then have "named (bufp i t) d a" using bp f by (simp add: named_def)
    from bview_in [OF dist i(1) this disk_dev_facts(5) [OF d]] True bp show ?thesis by simp
  next
    case False
    then have ni: "\<not> named (bufp i t) d a" using bp f by (auto simp: named_def)
    show ?thesis
    proof (cases "\<exists>j < 38. named (bufp j t) d a")
      case True
      then obtain j where j: "j < 38" "named (bufp j t) d a" by blast
      with ni have "j \<noteq> i" by auto
      then have same: "bufp j t = bufp j s" by (simp add: bp)
      then have "named (bufp j s) d a" using j by simp
      with j same False bview_in [OF dist j disk_dev_facts(5) [OF d]]
        bview_in [OF P(4) j(1) _ disk_dev_facts(5) [OF d], of a] show ?thesis by auto
    next
      case False
      then have t_out: "bview t d a = hd_blk s d a" using bview_out [of t d a] by (auto simp: t_def)
      have "bview s d a = hd_blk s d a"
      proof (cases "named (bufp i s) d a")
        case True
        have "bf_data (bufp i s) = hd_blk s d a"
          using P(5) [OF i(1)] True d clean iX by (auto simp: buf_inv_def named_def)
        then show ?thesis using bview_in [OF P(4) i(1) True disk_dev_facts(5) [OF d]] by simp
      next
        case False': False
        have "\<not> named (bufp j s) d a" if "j < 38" for j
          using False that bp [of j] False' by (cases "j = i") auto
        then show ?thesis by (simp add: bview_out)
      qed
      with t_out \<open>\<not> (d = dev \<and> a = blk)\<close> show ?thesis by auto
    qed
  qed
qed


subsection \<open>The laws of the pool's operations\<close>

lemma stamp_eq:
  "stamp i s = (upd_buf i (\<lambda>bp. bp\<lparr>bf_busy := True, bf_time := bufclock s + 1\<rparr>) s)\<lparr>bufclock := bufclock s + 1\<rparr>"
  by (cases "i < length (bufpool s)")
    (simp_all add: stamp_def Let_def upd_buf_def list_update_beyond)

lemma clock_frame [simp]:
  "pool_ok X (s\<lparr>bufclock := c\<rparr>) = pool_ok X s" "bview (s\<lparr>bufclock := c\<rparr>) d a = bview s d a"
  "busyset (s\<lparr>bufclock := c\<rparr>) = busyset s" "same_rest s (t\<lparr>bufclock := c\<rparr>) = same_rest s t"
  "bufp i (s\<lparr>bufclock := c\<rparr>) = bufp i s"
  by (simp_all add: pool_ok_def bview_def busyset_def bfind_def buf_data_def bufp_def hd_blk_def
      distinct_names_def buf_inv_def same_rest_def split: option.split)

lemma stamp_law:
  assumes ok: "pool_ok X s" and i: "i < 38"
  shows "pool_ok X (stamp i s)" "busyset (stamp i s) = insert i (busyset s)" "same_rest s (stamp i s)"
    "disk_dev d \<Longrightarrow> bview (stamp i s) d a = bview s d a"
    "bufp j (stamp i s) =
       (if j = i then (bufp i s)\<lparr>bf_busy := True, bf_time := bufclock s + 1\<rparr> else bufp j s)"
proof -
  let ?f = "\<lambda>bp. bp\<lparr>bf_busy := True, bf_time := bufclock s + 1\<rparr>"
  note P = pool_okD [OF ok]
  have inv: "buf_inv s (i \<in> X) (?f (bufp i s))" using P(5) [OF i] by (simp add: buf_inv_def)
  show "pool_ok X (stamp i s)"
    using pool_ok_upd [OF ok i, of ?f X] inv by (simp add: stamp_eq)
  show "busyset (stamp i s) = insert i (busyset s)"
    using busyset_upd [OF P(1) i, of ?f] by (simp add: stamp_eq)
  show "same_rest s (stamp i s)" by (simp add: stamp_eq)
  show "bview (stamp i s) d a = bview s d a" if d: "disk_dev d"
    using bview_upd [OF ok i, of ?f d a] disk_dev_facts(5) [OF d] bview_in [OF P(4) i, of d a]
    by (auto simp: stamp_eq)
  show "bufp j (stamp i s) =
       (if j = i then (bufp i s)\<lparr>bf_busy := True, bf_time := bufclock s + 1\<rparr> else bufp j s)"
    using bufp_upd [OF P(1) i] by (simp add: stamp_eq)
qed

lemma bdread_law:
  assumes ok: "hd_ok (hd s)" and dev: "disk_dev (bf_dev (bufp i s))" and len: "length (bf_data (bufp i s)) = 512"
  shows "\<exists>h. bdread i s = Some (0, set_data i (hd_blk s (bf_dev (bufp i s)) (bf_blk (bufp i s))) (s\<lparr>u_buf := i, hd := h\<rparr>)) \<and>
    hd_ok h \<and> (\<forall>d. disk_dev d \<longrightarrow> (\<forall>a. hview h (ucast (dev_minor d)) a = hd_blk s d a))"
proof -
  let ?b = "bufp i s"
  note D = disk_dev_facts [OF dev]
  have "hd_ok ((hd s)\<lparr>incore := bf_data ?b\<rparr>)" using ok len by (simp add: hd_ok_incore)
  from wd_read_law [OF this D(3), of "bf_blk ?b"] obtain g where
    "wd_read (dev_minor (bf_dev ?b)) 0 (bf_blk ?b) ((hd s)\<lparr>incore := bf_data ?b\<rparr>) = Some (0, g)"
    "hd_ok g" "incore g = hd_blk s (bf_dev ?b) (bf_blk ?b)"
    "\<forall>d \<in> minors. \<forall>a. hview g d a = hview (hd s) d a"
    by (auto simp: hd_blk_def)
  then show ?thesis
    using D wd_minor_minors disk_dev_facts(3)
    by (intro exI [of _ g]) (auto simp: bdread_def Let_def hd_blk_def)
qed

lemma hd_frame:
  assumes "hd_ok h" "\<forall>d. disk_dev d \<longrightarrow> (\<forall>a. hview h (ucast (dev_minor d)) a = hd_blk s d a)"
  shows "pool_ok X s \<Longrightarrow> pool_ok X (s\<lparr>u_buf := x, hd := h\<rparr>)"
    "disk_dev d \<Longrightarrow> bview (s\<lparr>u_buf := x, hd := h\<rparr>) d a = bview s d a"
    "busyset (s\<lparr>u_buf := x, hd := h\<rparr>) = busyset s" "bufp j (s\<lparr>u_buf := x, hd := h\<rparr>) = bufp j s"
    "disk_dev d \<Longrightarrow> hd_blk (s\<lparr>u_buf := x, hd := h\<rparr>) d a = hd_blk s d a"
proof -
  let ?w = "s\<lparr>u_buf := x, hd := h\<rparr>"
  show bp: "bufp j ?w = bufp j s" for j by (simp add: bufp_def)
  show hb: "disk_dev d \<Longrightarrow> hd_blk ?w d a = hd_blk s d a" for d a using assms(2) by (simp add: hd_blk_def)
  have bi: "buf_inv ?w l b = buf_inv s l b" for l b using hb by (auto simp: buf_inv_def)
  have bf: "bfind d a ?w = bfind d a s" for d a by (simp add: bfind_def bp)
  show bs: "busyset ?w = busyset s" by (simp add: busyset_def bp)
  show "pool_ok X s \<Longrightarrow> pool_ok X ?w"
    using assms(1) by (simp add: pool_ok_def bs distinct_names_def bp bi)
  show "disk_dev d \<Longrightarrow> bview ?w d a = bview s d a"
    by (simp add: bview_def bf buf_data_def bp hb split: option.split)
qed


lemma upd_upd: "upd_buf i f (upd_buf i g s) = upd_buf i (\<lambda>b. f (g b)) s"
  by (cases "i < length (bufpool s)") (simp_all add: upd_buf_def list_update_beyond)

lemma upd_other:
  "upd_buf i f (s\<lparr>u_buf := x\<rparr>) = (upd_buf i f s)\<lparr>u_buf := x\<rparr>"
  "upd_buf i f (s\<lparr>hd := h\<rparr>) = (upd_buf i f s)\<lparr>hd := h\<rparr>"
  "upd_buf i f (s\<lparr>bufclock := c\<rparr>) = (upd_buf i f s)\<lparr>bufclock := c\<rparr>"
  by (simp_all add: upd_buf_def)

lemma loosen: "pool_ok X s \<Longrightarrow> i \<in> busyset s \<Longrightarrow> pool_ok (insert i X) s"
  by (auto simp: pool_ok_def buf_inv_def)

definition tag :: "int \<Rightarrow> u16 \<Rightarrow> blkbuf \<Rightarrow> blkbuf" where
  "tag dev blk bp = bp\<lparr>bf_dev := dev, bf_blk := blk\<rparr>"

definition take_buf :: "int \<Rightarrow> u16 \<Rightarrow> block \<Rightarrow> u16 \<Rightarrow> blkbuf \<Rightarrow> blkbuf" where
  "take_buf dev blk b c bp = bp\<lparr>bf_dev := dev, bf_blk := blk, bf_data := b, bf_busy := True, bf_time := c\<rparr>"

lemma take_buf_fields [simp]:
  "bf_dev (take_buf dev blk b c bp) = dev" "bf_blk (take_buf dev blk b c bp) = blk"
  "bf_data (take_buf dev blk b c bp) = b" "bf_busy (take_buf dev blk b c bp)"
  "bf_dirty (take_buf dev blk b c bp) = bf_dirty bp"
  by (simp_all add: take_buf_def)

definition room :: "'a bst_scheme \<Rightarrow> bool" where
  "room s \<longleftrightarrow> (\<exists>j < 38. \<not> bf_busy (bufp j s))"

definition not_held :: "'a bst_scheme \<Rightarrow> int \<Rightarrow> u16 \<Rightarrow> bool" where
  "not_held s dev blk \<longleftrightarrow> (\<forall>i < 38. named (bufp i s) dev blk \<longrightarrow> \<not> bf_busy (bufp i s))"

definition got :: "nat set \<Rightarrow> 'a bst_scheme \<Rightarrow> nat \<Rightarrow> 'a bst_scheme \<Rightarrow> bool" where
  "got X s i t \<longleftrightarrow> i < 38 \<and> i \<notin> busyset s \<and> pool_ok X t \<and> busyset t = insert i (busyset s) \<and> same_rest s t \<and>
     (\<forall>j. j \<noteq> i \<longrightarrow> bufp j t = bufp j s)"

lemma bread_found:
  assumes ok: "pool_ok X s" and f: "bfind dev blk s = Some i" and dev: "disk_dev dev"
    and nb: "not_held s dev blk"
  shows "\<exists>t. bread dev blk rw s = Some (Some i, t) \<and> got X s i t \<and>
    (\<forall>d a. disk_dev d \<longrightarrow> bview t d a = bview s d a) \<and>
    named (bufp i t) dev blk \<and> buf_data i t = bview s dev blk"
proof -
  from bfind_Some [OF f] have i: "i < 38" and n: "named (bufp i s) dev blk" by auto
  with nb have b: "\<not> bf_busy (bufp i s)" by (simp add: not_held_def)
  have "bread dev blk rw s = Some (Some i, stamp i s)" using f b by (simp add: bread_def)
  moreover have "buf_data i (stamp i s) = bview s dev blk"
    using f by (simp add: buf_data_def stamp_law(5) [OF ok i] bview_def)
  moreover have "named (bufp i (stamp i s)) dev blk"
    using n by (simp add: stamp_law(5) [OF ok i] named_def)
  ultimately show ?thesis
    using stamp_law [OF ok i] i b by (auto simp: got_def busyset_def)
qed

text \<open>A free buffer taken over for \<open>(dev, blk)\<close>, its data read from the device or left to the caller.\<close>

lemma taken:
  assumes ok: "pool_ok X s" and i: "i < 38" "\<not> bf_busy (bufp i s)" "bf_dirty (bufp i s) = 0"
    and new: "dev = - 1 \<or> (\<forall>j < 38. \<not> named (bufp j s) dev blk)" and len: "length b = 512"
    and Y: "Y = X \<or> Y = insert i X" and data: "i \<notin> Y \<Longrightarrow> disk_dev dev \<Longrightarrow> b = hd_blk s dev blk"
    and t: "t = (upd_buf i (take_buf dev blk b c) s)\<lparr>bufclock := c'\<rparr>"
  shows "got Y s i t" "disk_dev d \<Longrightarrow> bview t d a = (if d = dev \<and> a = blk then b else bview s d a)"
    "named (bufp i t) dev blk" "buf_data i t = b"
proof -
  note P = pool_okD [OF ok]
  let ?f = "take_buf dev blk b c"
  note R = retag [OF ok i(1,2,3), of ?f dev blk Y]
  have bp: "bufp i t = ?f (bufp i s)" using bufp_upd [OF P(1) i(1)] by (simp add: t)
  have R1: "pool_ok Y (upd_buf i ?f s)" by (rule R(1)) (use new len Y data in auto)
  have R2: "busyset (upd_buf i ?f s) = insert i (busyset s)" by (rule R(2)) (use new len Y data in auto)
  have R3: "bview (upd_buf i ?f s) d a = (if d = dev \<and> a = blk then bf_data (?f (bufp i s)) else bview s d a)"
    if "disk_dev d" by (rule R(3)) (use new len Y data that in auto)
  have "bufp j t = bufp j s" if "j \<noteq> i" for j using bufp_upd [OF P(1) i(1)] that by (simp add: t)
  then show "got Y s i t" using R1 R2 i by (auto simp: got_def t busyset_def)
  show "bview t d a = (if d = dev \<and> a = blk then b else bview s d a)" if "disk_dev d"
    using R3 [OF that] by (simp add: t)
  show "named (bufp i t) dev blk" "buf_data i t = b" by (simp_all add: bp named_def buf_data_def)
qed

lemma got_trans:
  assumes "got X s i t" "same_rest r s" "busyset s = busyset r" "\<And>j. j \<noteq> i \<Longrightarrow> bufp j s = bufp j r"
  shows "got X r i t"
  using assms by (auto simp: got_def same_rest_def)

lemma bread_law:
  assumes ok: "pool_ok X s" and dev: "disk_dev dev" and rm: "room s" and nb: "not_held s dev blk"
  shows "\<exists>i t. bread dev blk rw s = Some (Some i, t) \<and> got (if rw then insert i X else X) s i t \<and>
    (\<forall>d a. disk_dev d \<longrightarrow> \<not> (rw \<and> d = dev \<and> a = blk) \<longrightarrow> bview t d a = bview s d a) \<and>
    named (bufp i t) dev blk \<and> (\<not> rw \<longrightarrow> buf_data i t = bview s dev blk)"
proof (cases "bfind dev blk s")
  case (Some i)
  from bread_found [OF ok Some dev nb] obtain t where
    "bread dev blk rw s = Some (Some i, t)" and g: "got X s i t" and r:
    "\<forall>d a. disk_dev d \<longrightarrow> bview t d a = bview s d a" "named (bufp i t) dev blk" "buf_data i t = bview s dev blk"
    by blast
  moreover have "got (insert i X) s i t" using g loosen [of X t i] by (auto simp: got_def)
  ultimately show ?thesis by auto
next
  case None
  from freebuf_law [OF ok] rm obtain i u where
    fb: "freebuf s = Some (i, u)" and i: "i < 38" "\<not> bf_busy (bufp i s)"
    and u: "pool_ok X u" "same_rest s u" "busyset u = busyset s"
      "\<forall>d a. disk_dev d \<longrightarrow> bview u d a = bview s d a"
      "\<forall>j. bufp j u = (if j = i then mark_clean (bufp i s) else bufp j s)"
    by (auto simp: room_def)
  have new: "\<forall>j < 38. \<not> named (bufp j u) dev blk"
    using None u(5) by (auto simp: bfind_None named_def)
  have iu: "\<not> bf_busy (bufp i u)" "bf_dirty (bufp i u) = 0" using u(5) i(2) by simp_all
  have len: "length (bf_data (bufp i u)) = 512" using pool_okD(5) [OF u(1) i(1)] by (simp add: buf_inv_def)
  let ?v = "upd_buf i (\<lambda>bp. bp\<lparr>bf_dev := dev, bf_blk := blk\<rparr>) u"
  show ?thesis
  proof (cases rw)
    case True
    let ?c = "bufclock u + 1"
    let ?t = "(upd_buf i (take_buf dev blk (bf_data (bufp i u)) ?c) u)\<lparr>bufclock := ?c\<rparr>"
    have "stamp i ?v = ?t"
      using pool_okD(1) [OF u(1)] i(1)
      by (simp add: stamp_eq upd_upd) (simp add: upd_buf_def bufp_def take_buf_def)
    then have br: "bread dev blk rw s = Some (Some i, ?t)"
      using None fb True by (simp add: bread_def Let_def)
    note T = taken [OF u(1) i(1) iu disjI2 [OF new] len, where Y = "insert i X", OF disjI2 [OF refl] _ refl]
    have "got (insert i X) s i ?t" by (rule got_trans [OF T(1) u(2,3)]) (use u(5) in simp_all)
    moreover have "named (bufp i ?t) dev blk" by (rule T(3)) simp
    moreover have "bview ?t d a = bview s d a" if "disk_dev d" "\<not> (d = dev \<and> a = blk)" for d a
      using T(2) [OF _ that(1), where a = a] that u(4) by auto
    ultimately show ?thesis using br True by auto
  next
    case False
    have bpv: "bufp i ?v = (bufp i u)\<lparr>bf_dev := dev, bf_blk := blk\<rparr>"
      using bufp_upd [OF pool_okD(1) [OF u(1)] i(1)] by simp
    have "\<exists>h. bdread i ?v = Some (0, set_data i (hd_blk u dev blk) (?v\<lparr>u_buf := i, hd := h\<rparr>)) \<and>
      hd_ok h \<and> (\<forall>d. disk_dev d \<longrightarrow> (\<forall>a. hview h (ucast (dev_minor d)) a = hd_blk u d a))"
      using bdread_law [of ?v i] pool_okD(2) [OF u(1)] dev len by (simp add: bpv)
    then obtain h where rd: "bdread i ?v = Some (0, set_data i (hd_blk u dev blk) (?v\<lparr>u_buf := i, hd := h\<rparr>))"
      and h: "hd_ok h" "\<forall>d. disk_dev d \<longrightarrow> (\<forall>a. hview h (ucast (dev_minor d)) a = hd_blk u d a)" by blast
    let ?w = "u\<lparr>u_buf := i, hd := h\<rparr>" and ?c = "bufclock u + 1" and ?D = "hd_blk u dev blk"
    let ?t = "(upd_buf i (take_buf dev blk ?D ?c) ?w)\<lparr>bufclock := ?c\<rparr>"
    note H = hd_frame [OF h]
    have "stamp i (set_data i ?D (?v\<lparr>u_buf := i, hd := h\<rparr>)) = ?t"
      by (simp add: stamp_eq upd_upd upd_other set_data_def take_buf_def [abs_def])
    then have br: "bread dev blk rw s = Some (Some i, ?t)"
      using None fb False rd by (simp add: bread_def Let_def)
    have lenD: "length ?D = 512" using pool_okD(2) [OF u(1)] by (simp add: hd_blk_def hview_length)
    have okw: "pool_ok X ?w" using H(1) u(1) by simp
    have new': "\<forall>j < 38. \<not> named (bufp j ?w) dev blk" and iw: "\<not> bf_busy (bufp i ?w)" "bf_dirty (bufp i ?w) = 0"
      using new iu H(4) by simp_all
    have Dw: "?D = hd_blk ?w dev blk" using H(5) [OF dev] by simp
    note T = taken [OF okw i(1) iw disjI2 [OF new'] lenD, where Y = X, OF disjI1 [OF refl] Dw refl]
    have bd: "bview s dev blk = ?D"
      using bview_out [OF new] u(4) dev by simp
    have "same_rest s ?w" using u(2) by (simp add: same_rest_def)
    then have "got X s i ?t" by (rule got_trans [OF T(1)]) (use H(3,4) u(3,5) in simp_all)
    moreover have "bview ?t d a = bview s d a" if d: "disk_dev d" for d a
      using T(2) [OF d, of a] H(2) [OF d] u(4) d bd by simp
    ultimately show ?thesis using br False T(3,4) bd by auto
  qed
qed


text \<open>Releasing a buffer, marking it dirty or writing it out.\<close>

lemma set_data_law:
  assumes ok: "pool_ok X s" and i: "i \<in> busyset s" and len: "length b = 512"
  shows "pool_ok (insert i X) (set_data i b s)" "busyset (set_data i b s) = busyset s"
    "disk_dev d \<Longrightarrow> bview (set_data i b s) d a = (if named (bufp i s) d a then b else bview s d a)"
    "buf_data i (set_data i b s) = b" "named (bufp j (set_data i b s)) d' a' = named (bufp j s) d' a'"
    "bf_dirty (bufp j (set_data i b s)) = bf_dirty (bufp j s)"
proof -
  let ?f = "\<lambda>bp. bp\<lparr>bf_data := b\<rparr>"
  note P = pool_okD [OF ok]
  from i have i': "i < 38" "bf_busy (bufp i s)" by (simp_all add: busyset_def)
  have inv: "buf_inv s True (?f (bufp i s))" using P(5) [OF i'(1)] len by (simp add: buf_inv_def)
  show "pool_ok (insert i X) (set_data i b s)"
    unfolding set_data_def by (rule pool_ok_upd [OF ok i'(1)]) (use inv i' in auto)
  show "busyset (set_data i b s) = busyset s"
    using busyset_upd [OF P(1) i'(1), of ?f] i i' by (auto simp: set_data_def)
  show "bview (set_data i b s) d a = (if named (bufp i s) d a then b else bview s d a)" if "disk_dev d"
    using bview_upd [OF ok i'(1), of ?f d a] disk_dev_facts(5) [OF that] by (simp add: set_data_def)
  show "buf_data i (set_data i b s) = b" "named (bufp j (set_data i b s)) d' a' = named (bufp j s) d' a'"
    "bf_dirty (bufp j (set_data i b s)) = bf_dirty (bufp j s)"
    using bufp_upd [OF P(1) i'(1)] by (simp_all add: buf_data_def set_data_def named_def)
qed

definition release :: "u8 \<Rightarrow> blkbuf \<Rightarrow> blkbuf" where
  "release dirty bp = bp\<lparr>bf_dirty := bf_dirty bp OR dirty, bf_busy := False\<rparr>"

lemma release_fields [simp]:
  "bf_dev (release y b) = bf_dev b" "bf_blk (release y b) = bf_blk b" "\<not> bf_busy (release y b)"
  "bf_data (release y b) = bf_data b" "bf_dirty (release y b) = bf_dirty b OR y"
  by (simp_all add: release_def)

lemma or_zero_iff: "(a :: u8) OR b = 0 \<longleftrightarrow> a = 0 \<and> b = 0"
  by (auto simp: bit_eq_iff bit_simps)

lemma release_law:
  assumes ok: "pool_ok X s" and i: "i < 38"
    and dirty: "y \<noteq> 0 \<Longrightarrow> mountable (bf_dev (bufp i s))"
    and keep: "y = 0 \<Longrightarrow> i \<in> X \<Longrightarrow> \<not> disk_dev (bf_dev (bufp i s)) \<or> bf_dirty (bufp i s) \<noteq> 0"
  defines "t \<equiv> upd_buf i (release y) s"
  shows "pool_ok (X - {i}) t" "busyset t = busyset s - {i}" "same_rest s t"
    "disk_dev d \<Longrightarrow> bview t d a = bview s d a"
proof -
  note P = pool_okD [OF ok]
  have inv: "buf_inv s False (release y (bufp i s))"
    using P(5) [OF i] dirty keep by (auto simp: buf_inv_def or_zero_iff)
  show "pool_ok (X - {i}) t"
    unfolding t_def by (rule pool_ok_upd [OF ok i]) (use inv in auto)
  show "busyset t = busyset s - {i}" using busyset_upd [OF P(1) i] by (simp add: t_def)
  show "same_rest s t" by (simp add: t_def)
  show "bview t d a = bview s d a" if d: "disk_dev d"
    using bview_upd [OF ok i, of "release y" d a] disk_dev_facts(5) [OF d] bview_in [OF P(4) i, of d a]
    by (auto simp: t_def)
qed

lemma bfree_eq: "dirty \<noteq> 2 \<Longrightarrow> bfree i dirty s = Some (0, upd_buf i (release dirty) s)"
  by (simp add: bfree_def release_def [abs_def] Let_def)

lemma brelse_law:
  assumes "pool_ok X s" "i < 38"
    and "i \<in> X \<Longrightarrow> \<not> disk_dev (bf_dev (bufp i s)) \<or> bf_dirty (bufp i s) \<noteq> 0"
  shows "\<exists>t. brelse i s = Some t \<and> pool_ok (X - {i}) t \<and> busyset t = busyset s - {i} \<and> same_rest s t \<and>
    (\<forall>d a. disk_dev d \<longrightarrow> bview t d a = bview s d a)"
  using release_law [OF assms(1,2), of 0] assms(3) by (simp add: brelse_def bfree_eq)

lemma bawrite_law:
  assumes "pool_ok X s" "i < 38" "mountable (bf_dev (bufp i s))"
  shows "\<exists>t. bawrite i s = Some t \<and> pool_ok (X - {i}) t \<and> busyset t = busyset s - {i} \<and> same_rest s t \<and>
    (\<forall>d a. disk_dev d \<longrightarrow> bview t d a = bview s d a)"
  using release_law [OF assms(1,2), of 1] assms(3) by (simp add: bawrite_def bfree_eq)


subsection \<open>Holding buffers\<close>

text \<open>
  What a caller of the pool needs: \<open>calm X H s\<close> says that the buffers \<open>H\<close> are held, and that of
  these \<open>X\<close> are being rewritten. A block can be opened when nobody holds it and a buffer is left; the
  buffer is closed again by \<^verbatim>\<open>brelse\<close> if its data was not touched, by \<^verbatim>\<open>bawrite\<close> or \<^verbatim>\<open>bfree\<close> with 2
  otherwise.
\<close>

definition calm :: "nat set \<Rightarrow> nat set \<Rightarrow> 'a bst_scheme \<Rightarrow> bool" where
  "calm X H s \<longleftrightarrow> pool_ok X s \<and> busyset s = H"

definition avail :: "nat set \<Rightarrow> 'a bst_scheme \<Rightarrow> int \<Rightarrow> u16 \<Rightarrow> bool" where
  "avail H s d blk \<longleftrightarrow> card H < 38 \<and> not_held s d blk"

definition same_views :: "'a bst_scheme \<Rightarrow> 'a bst_scheme \<Rightarrow> bool" where
  "same_views s t \<longleftrightarrow> (\<forall>d a. disk_dev d \<longrightarrow> bview t d a = bview s d a)"

definition others_same :: "nat \<Rightarrow> 'a bst_scheme \<Rightarrow> 'a bst_scheme \<Rightarrow> bool" where
  "others_same i s t \<longleftrightarrow> (\<forall>j. j \<noteq> i \<longrightarrow> bufp j t = bufp j s)"

lemma room_card: "card (busyset s) < 38 \<Longrightarrow> room s"
proof (rule ccontr)
  assume c: "card (busyset s) < 38" and "\<not> room s"
  then have "busyset s = {..<38}" by (auto simp: room_def busyset_def)
  with c show False by simp
qed

lemma open_read:
  assumes "calm X H s" "disk_dev d" "avail H s d blk"
  shows "\<exists>i t. breadp d blk False s = Some (i, t) \<and> i < 38 \<and> i \<notin> H \<and> calm X (insert i H) t \<and> same_rest s t \<and>
    same_views s t \<and> others_same i s t \<and> named (bufp i t) d blk \<and> buf_data i t = bview s d blk"
  using bread_law [of X s d blk False] assms room_card [of s]
  by (auto simp: calm_def avail_def got_def breadp_def same_views_def others_same_def)

lemma open_rewrite:
  assumes "calm X H s" "disk_dev d" "avail H s d blk"
  shows "\<exists>i t. breadp d blk True s = Some (i, t) \<and> i < 38 \<and> i \<notin> H \<and> calm (insert i X) (insert i H) t \<and>
    same_rest s t \<and> (\<forall>e a. disk_dev e \<longrightarrow> \<not> (e = d \<and> a = blk) \<longrightarrow> bview t e a = bview s e a) \<and>
    others_same i s t \<and> named (bufp i t) d blk \<and> length (buf_data i t) = 512"
proof -
  have ok: "pool_ok X s" and "room s" "not_held s d blk" and H: "busyset s = H"
    using assms room_card [of s] by (auto simp: calm_def avail_def)
  from bread_law [OF ok assms(2) this(2,3), where rw = True] obtain i t where
    t: "bread d blk True s = Some (Some i, t)" "got (insert i X) s i t" "named (bufp i t) d blk"
      "\<forall>e a. disk_dev e \<longrightarrow> \<not> (e = d \<and> a = blk) \<longrightarrow> bview t e a = bview s e a" by auto
  then have g: "pool_ok (insert i X) t" "i < 38" "i \<notin> H" "busyset t = insert i H" "same_rest s t" "others_same i s t"
    using H by (simp_all add: got_def others_same_def)
  moreover have "length (buf_data i t) = 512"
    using pool_okD(5) [OF g(1,2)] by (simp add: buf_inv_def buf_data_def)
  ultimately show ?thesis using t by (auto simp: breadp_def calm_def)
qed

lemma close_read:
  assumes "calm X H s" "i \<in> H" "i \<notin> X"
  shows "\<exists>t. brelse i s = Some t \<and> calm X (H - {i}) t \<and> same_rest s t \<and> same_views s t \<and> others_same i s t"
proof -
  have ok: "pool_ok X s" and i: "i < 38" using assms by (auto simp: calm_def busyset_def)
  have "others_same i s (upd_buf i (release 0) s)"
    using bufp_upd [OF pool_okD(1) [OF ok] i] by (simp add: others_same_def)
  with release_law [OF ok i, of 0] assms show ?thesis
    by (auto simp: brelse_def bfree_eq calm_def same_views_def)
qed

text \<open>Closing after the data has been replaced by \<open>b\<close>.\<close>

lemma close_common:
  assumes c: "calm X H s" and i: "i \<in> H" and n: "named (bufp i s) d blk" and d: "disk_dev d" and len: "length b = 512"
  defines "u \<equiv> set_data i b s"
  shows "pool_ok (insert i X) u" "i < 38" "mountable (bf_dev (bufp i u))" "busyset u = H" "same_rest s u"
    "\<And>e a. disk_dev e \<Longrightarrow> bview u e a = (if e = d \<and> a = blk then b else bview s e a)" "others_same i s u"
proof -
  have ok: "pool_ok X s" and b: "i \<in> busyset s" using c i by (simp_all add: calm_def)
  then have i38: "i < 38" by (simp add: busyset_def)
  note S = set_data_law [OF ok b len]
  show "pool_ok (insert i X) u" "i < 38" using S(1) i38 by (simp_all add: u_def)
  show "mountable (bf_dev (bufp i u))"
    using S(5) [of i d blk] n d by (simp add: named_def disk_dev_facts u_def)
  show "busyset u = H" using S(2) c by (simp add: calm_def u_def)
  show "same_rest s u" by (simp add: u_def)
  show "bview u e a = (if e = d \<and> a = blk then b else bview s e a)" if "disk_dev e" for e a
    using S(3) [OF that] n by (auto simp: u_def named_def)
  show "others_same i s u"
    using bufp_upd [OF pool_okD(1) [OF ok] i38] by (simp add: others_same_def u_def set_data_def)
qed

lemma close_write:
  assumes "calm X H s" "i \<in> H" "named (bufp i s) d blk" "disk_dev d" "length b = 512"
  shows "\<exists>t. bawrite i (set_data i b s) = Some t \<and> calm (X - {i}) (H - {i}) t \<and> same_rest s t \<and>
    (\<forall>e a. disk_dev e \<longrightarrow> bview t e a = (if e = d \<and> a = blk then b else bview s e a)) \<and> others_same i s t"
proof -
  note C = close_common [OF assms]
  from bawrite_law [OF C(1-3)] C(4) obtain t where
    t: "bawrite i (set_data i b s) = Some t" "pool_ok (X - {i}) t" "busyset t = H - {i}" "same_rest (set_data i b s) t"
      "\<forall>d a. disk_dev d \<longrightarrow> bview t d a = bview (set_data i b s) d a" by auto
  have "t = upd_buf i (release 1) (set_data i b s)" using t(1) by (simp add: bawrite_def bfree_eq)
  then have "others_same i s t"
    using bufp_upd [OF pool_okD(1) [OF C(1)] C(2)] C(7) by (simp add: others_same_def)
  then show ?thesis using t C(6) same_rest_trans [OF C(5) t(4)] by (auto simp: calm_def)
qed

lemma bfree2_law:
  assumes ok: "pool_ok X s" and i: "i < 38" and m: "mountable (bf_dev (bufp i s))"
  shows "\<exists>t. bfree i 2 s = Some (- 1, t) \<and> pool_ok (X - {i}) t \<and> busyset t = busyset s - {i} \<and> same_rest s t \<and>
    same_views s t \<and> others_same i s t"
proof -
  let ?u = "upd_buf i (release 2) s"
  note R = release_law [OF ok i, of 2, OF m]
  have u: "pool_ok (X - {i}) ?u" "busyset ?u = busyset s - {i}" "same_rest s ?u"
    "\<And>d a. disk_dev d \<Longrightarrow> bview ?u d a = bview s d a"
    using R by simp_all
  have bp: "bufp j ?u = (if j = i then release 2 (bufp i s) else bufp j s)" for j
    using bufp_upd [OF pool_okD(1) [OF ok] i] by simp
  have "mountable (bf_dev (bufp i ?u))" using m by (simp add: bp)
  from clean_out [OF u(1) i this] obtain w t where
    bw: "bdwrite i ?u = Some (0, w)" and t: "t = upd_buf i mark_clean w" "pool_ok (X - {i} - {i}) t"
      "same_rest ?u t" "busyset t = busyset ?u" "\<forall>d a. disk_dev d \<longrightarrow> bview t d a = bview ?u d a"
      "\<forall>j. bufp j t = (if j = i then mark_clean (bufp i ?u) else bufp j ?u)" by blast
  have "bfree i 2 s = Some (- 1, t)"
    using bw t(1) by (simp add: bfree_def Let_def release_def [abs_def] mark_clean_eta)
  with t u bp show ?thesis
    using same_rest_trans [OF u(3) t(3)] by (auto simp: same_views_def others_same_def)
qed

lemma close_through:
  assumes "calm X H s" "i \<in> H" "named (bufp i s) d blk" "disk_dev d" "length b = 512"
  shows "\<exists>t. bfree i 2 (set_data i b s) = Some (- 1, t) \<and> calm (X - {i}) (H - {i}) t \<and> same_rest s t \<and>
    (\<forall>e a. disk_dev e \<longrightarrow> bview t e a = (if e = d \<and> a = blk then b else bview s e a)) \<and> others_same i s t"
proof -
  note C = close_common [OF assms]
  from bfree2_law [OF C(1-3)] C(4) obtain t where
    t: "bfree i 2 (set_data i b s) = Some (- 1, t)" "pool_ok (X - {i}) t" "busyset t = H - {i}"
      "same_rest (set_data i b s) t" "same_views (set_data i b s) t" "others_same i (set_data i b s) t" by auto
  then show ?thesis using C(6,7) same_rest_trans [OF C(5) t(4)]
    by (auto simp: calm_def same_views_def others_same_def)
qed

lemma not_held_others:
  assumes "not_held s d blk" "others_same i s t" "\<not> named (bufp i t) d blk \<or> \<not> bf_busy (bufp i t)"
  shows "not_held t d blk"
  using assms by (auto simp: not_held_def others_same_def)

subsection \<open>A quiet pool is a block store\<close>

text \<open>Between system calls no buffer is held.\<close>

definition quiet :: "'a bst_scheme \<Rightarrow> bool" where
  "quiet s \<longleftrightarrow> pool_ok {} s \<and> busyset s = {}"

lemma quietD: "quiet s \<Longrightarrow> pool_ok {} s" "quiet s \<Longrightarrow> room s" "quiet s \<Longrightarrow> not_held s dev blk"
  by (auto simp: quiet_def room_def not_held_def busyset_def intro: exI [of _ 0])

text \<open>The two access patterns of the file system: read a block and release it; rewrite a block.\<close>

definition buf_rd :: "int \<times> u16 \<Rightarrow> 'a bst_scheme \<Rightarrow> (block \<times> 'a bst_scheme) option" where
  "buf_rd k s = do { (i, s) \<leftarrow> breadp (fst k) (snd k) False s;
                     let b = buf_data i s;
                     s \<leftarrow> brelse i s;
                     Some (b, s) }"

definition buf_wr :: "int \<times> u16 \<Rightarrow> block \<Rightarrow> 'a bst_scheme \<Rightarrow> 'a bst_scheme option" where
  "buf_wr k b s = do { (i, s) \<leftarrow> breadp (fst k) (snd k) True s; bawrite i (set_data i b s) }"

lemma buf_rd_law:
  assumes q: "quiet s" and dev: "disk_dev dev"
  shows "\<exists>t. buf_rd (dev, blk) s = Some (bview s dev blk, t) \<and> quiet t \<and> same_rest s t \<and>
    (\<forall>d a. disk_dev d \<longrightarrow> bview t d a = bview s d a)"
proof -
  note Q = quietD [OF q]
  from bread_law [OF Q(1) dev Q(2) Q(3), where rw = False and blk = blk] obtain i t where
    b: "bread dev blk False s = Some (Some i, t)" and g: "got {} s i t"
    and v: "\<forall>d a. disk_dev d \<longrightarrow> bview t d a = bview s d a" "buf_data i t = bview s dev blk" by auto
  from g have t: "pool_ok {} t" "i < 38" "busyset t = {i}" "same_rest s t"
    using q by (simp_all add: got_def quiet_def)
  from brelse_law [OF t(1,2)] obtain u where
    u: "brelse i t = Some u" "pool_ok {} u" "busyset u = {}" "same_rest t u"
      "\<forall>d a. disk_dev d \<longrightarrow> bview u d a = bview t d a" using t(3) by auto
  have "buf_rd (dev, blk) s = Some (bview s dev blk, u)" using b u(1) v(2) by (simp add: buf_rd_def breadp_def)
  with u v(1) same_rest_trans [OF t(4) u(4)] show ?thesis by (auto simp: quiet_def)
qed

lemma buf_wr_law:
  assumes q: "quiet s" and dev: "disk_dev dev" and len: "length b = 512"
  shows "\<exists>t. buf_wr (dev, blk) b s = Some t \<and> quiet t \<and> same_rest s t \<and>
    (\<forall>d a. disk_dev d \<longrightarrow> bview t d a = (if d = dev \<and> a = blk then b else bview s d a))"
proof -
  note Q = quietD [OF q]
  from bread_law [OF Q(1) dev Q(2) Q(3), where rw = True and blk = blk] obtain i t where
    r: "bread dev blk True s = Some (Some i, t)" and g: "got {i} s i t"
    and v: "\<forall>d a. disk_dev d \<longrightarrow> \<not> (d = dev \<and> a = blk) \<longrightarrow> bview t d a = bview s d a"
    and n: "named (bufp i t) dev blk" by auto
  from g have t: "pool_ok {i} t" "i < 38" "busyset t = {i}" "same_rest s t"
    using q by (simp_all add: got_def quiet_def)
  have "i \<in> busyset t" using t by simp
  note S = set_data_law [OF t(1) this len]
  have "mountable (bf_dev (bufp i (set_data i b t)))"
    using S(5) [of i dev blk] n dev by (simp add: named_def disk_dev_facts)
  from bawrite_law [OF S(1) t(2) this] obtain u where
    u: "bawrite i (set_data i b t) = Some u" "pool_ok {} u" "busyset u = {}" "same_rest (set_data i b t) u"
      "\<forall>d a. disk_dev d \<longrightarrow> bview u d a = bview (set_data i b t) d a" using t(3) S(2) by auto
  have "bview u d a = (if d = dev \<and> a = blk then b else bview s d a)" if "disk_dev d" for d a
    using u(5) S(3) [OF that] v n that by (auto simp: named_def)
  moreover have "buf_wr (dev, blk) b s = Some u" using r u(1) by (simp add: buf_wr_def breadp_def)
  moreover have "same_rest s u" using t(4) u(4) by (simp add: same_rest_def set_data_def)
  ultimately show ?thesis using u(2,3) by (auto simp: quiet_def)
qed

interpretation bufs: block_store buf_rd buf_wr "\<lambda>s k. bview s (fst k) (snd k)" quiet
  "\<lambda>k. disk_dev (fst k)" "\<lambda>b. length b = 512"
proof unfold_locales
  fix s :: "'a bst_scheme" and k :: "int \<times> u16"
  assume "quiet s" "disk_dev (fst k)"
  from buf_rd_law [OF this, of "snd k"] show "\<exists>t. buf_rd k s = Some (bview s (fst k) (snd k), t) \<and>
      quiet t \<and> (\<forall>j. disk_dev (fst j) \<longrightarrow> bview t (fst j) (snd j) = bview s (fst j) (snd j))" by auto
next
  fix s :: "'a bst_scheme" and k :: "int \<times> u16" and b :: block
  assume "quiet s" "disk_dev (fst k)" "length b = 512"
  from buf_wr_law [OF this, of "snd k"] show "\<exists>t. buf_wr k b s = Some t \<and> quiet t \<and>
      (\<forall>j. disk_dev (fst j) \<longrightarrow> bview t (fst j) (snd j) = (if j = k then b else bview s (fst j) (snd j)))"
    by (auto simp: prod_eq_iff)
qed

subsection \<open>Synchronisation\<close>

lemma bufsync1_law:
  assumes q: "quiet s" and i: "i < 38"
  shows "\<exists>t. bufsync1 i s = Some t \<and> quiet t \<and> same_rest s t \<and>
    (\<forall>d a. disk_dev d \<longrightarrow> bview t d a = bview s d a) \<and>
    (\<forall>j. j = i \<or> bf_dirty (bufp j s) = 0 \<longrightarrow> bf_dirty (bufp j t) = 0)"
proof -
  note ok = quietD(1) [OF q]
  show ?thesis
  proof (cases "bf_dirty (bufp i s) = 0")
    case True
    then show ?thesis using q by (auto simp: bufsync1_def)
  next
    case False
    then have m: "mountable (bf_dev (bufp i s))" using pool_okD(5) [OF ok i] by (simp add: buf_inv_def)
    then have nz: "bf_dev (bufp i s) \<noteq> - 1" by (simp add: mountable_def)
    from clean_out [OF ok i m] obtain w t where
      bw: "bdwrite i s = Some (0, w)" and t: "t = upd_buf i mark_clean w"
      and r: "pool_ok ({} - {i}) t" "same_rest s t" "busyset t = busyset s"
        "\<forall>d a. disk_dev d \<longrightarrow> bview t d a = bview s d a" "\<forall>j. bufp j w = bufp j s"
        "\<forall>j. bufp j t = (if j = i then mark_clean (bufp i s) else bufp j s)" by blast
    have "\<not> bf_busy (bufp i w)" using q i r(5) by (auto simp: quiet_def busyset_def)
    then have "bufsync1 i s = Some t" using bw False nz t by (simp add: bufsync1_def mark_clean_eta)
    with r q show ?thesis by (auto simp: quiet_def)
  qed
qed

lemma bufsync_prefix:
  assumes "quiet s" "\<forall>i \<in> set is. i < 38"
  shows "\<exists>t. foldM bufsync1 is s = Some t \<and> quiet t \<and> same_rest s t \<and>
    (\<forall>d a. disk_dev d \<longrightarrow> bview t d a = bview s d a) \<and>
    (\<forall>j. j \<in> set is \<or> bf_dirty (bufp j s) = 0 \<longrightarrow> bf_dirty (bufp j t) = 0)"
  using assms
proof (induction "is" arbitrary: s)
  case Nil
  then show ?case by simp
next
  case (Cons i "is")
  from bufsync1_law [OF Cons.prems(1), of i] Cons.prems(2) obtain t where
    t: "bufsync1 i s = Some t" "quiet t" "same_rest s t" "\<forall>d a. disk_dev d \<longrightarrow> bview t d a = bview s d a"
      "\<forall>j. j = i \<or> bf_dirty (bufp j s) = 0 \<longrightarrow> bf_dirty (bufp j t) = 0" by auto
  from Cons.IH [OF t(2)] Cons.prems(2) obtain u where
    u: "foldM bufsync1 is t = Some u" "quiet u" "same_rest t u" "\<forall>d a. disk_dev d \<longrightarrow> bview u d a = bview t d a"
      "\<forall>j. j \<in> set is \<or> bf_dirty (bufp j t) = 0 \<longrightarrow> bf_dirty (bufp j u) = 0" by auto
  show ?case using t u same_rest_trans [OF t(3) u(3)] by auto
qed

lemma clean_pool_view:
  assumes "quiet s" "\<forall>j < 38. bf_dirty (bufp j s) = 0" "disk_dev d"
  shows "hd_blk s d a = bview s d a"
proof (cases "bfind d a s")
  case None
  then show ?thesis by (simp add: bview_def)
next
  case (Some i)
  with bfind_Some [OF this] pool_okD(5) [OF quietD(1) [OF assms(1)], of i] assms(2,3) show ?thesis
    by (auto simp: bview_def buf_data_def buf_inv_def named_def)
qed

subsection \<open>Properties\<close>

text \<open>C2: whatever sequence of whole-block reads (\<^verbatim>\<open>bread\<close>, \<^verbatim>\<open>brelse\<close>) and rewrites (\<^verbatim>\<open>bread\<close> with
  the rewrite flag, \<^verbatim>\<open>bawrite\<close>) the file system issues to the disks, no call panics and each read
  delivers what an array of blocks would: the pool of 38 buffers, its least-recently-used
  replacement, the delayed writes and the driver's own cache below it are invisible. No buffer
  stays busy.\<close>

theorem pool_behaves_as_array:
  assumes "quiet s"
    and "\<forall>a \<in> set as. disk_dev (fst (akey a))"
    and "\<forall>k b. Wr k b \<in> set as \<longrightarrow> length b = 512"
  shows "\<exists>bs t n. accesses buf_rd buf_wr as s = Some (bs, t) \<and>
    accesses array_rd array_wr as (\<lambda>k. bview s (fst k) (snd k)) = Some (bs, n) \<and>
    quiet t \<and> (\<forall>k. disk_dev (fst k) \<longrightarrow> bview t (fst k) (snd k) = n k)"
  using bufs.accesses_as_array [of s as "\<lambda>k. bview s (fst k) (snd k)"] assms by blast

text \<open>C23: \<^verbatim>\<open>bufsync\<close> followed by the driver's \<^verbatim>\<open>ca_sync\<close> puts every block of every disk on the card
  with the content the file system sees, whatever of it was still in a buffer or a cache slot; no
  content changes and no error is reported.\<close>

theorem sync_reaches_card:
  assumes "quiet s" "disk_dev d"
  shows "\<exists>t. bufsync s = Some t \<and> quiet t \<and> u_error t = u_error s \<and> bview t d a = bview s d a \<and>
    medium (ca_sync (hd t)) (disk_addr (ucast (dev_minor d)) a) = bview s d a"
proof -
  from bufsync_prefix [OF assms(1), of "[0..<38]"] obtain t where
    t: "bufsync s = Some t" "quiet t" "same_rest s t" "\<forall>d a. disk_dev d \<longrightarrow> bview t d a = bview s d a"
      "\<forall>j < 38. bf_dirty (bufp j t) = 0" by (auto simp: bufsync_def)
  have m: "ucast (dev_minor d) \<in> minors" by (rule wd_minor_minors) (rule disk_dev_facts(3) [OF assms(2)])
  have ok: "hd_ok (hd t)" using pool_okD(2) [OF quietD(1) [OF t(2)]] .
  have "medium (ca_sync (hd t)) (disk_addr (ucast (dev_minor d)) a) = hview (ca_sync (hd t)) (ucast (dev_minor d)) a"
    using clean_view [OF ca_sync_facts(1) [OF ok] m] ca_sync_facts(4) [OF ok hash_less] by simp
  also have "\<dots> = hd_blk t d a" using ca_sync_facts(2) [OF ok m] by (simp add: hd_blk_def)
  also have "\<dots> = bview t d a" by (rule clean_pool_view [OF t(2,5) assms(2)])
  finally show ?thesis using t assms(2) by (auto simp: same_rest_def)
qed

text \<open>C33: for a disk block, \<^verbatim>\<open>bread\<close> panics exactly when the block's buffer is held by somebody or the
  block has no buffer and all 38 buffers are held; in every other case it returns a buffer of that
  block, held by the caller.\<close>

theorem bread_panics_iff:
  assumes "pool_ok X s" "disk_dev dev"
  shows "bread dev blk rewrite s = None \<longleftrightarrow>
      (case bfind dev blk s of Some i \<Rightarrow> bf_busy (bufp i s) | None \<Rightarrow> \<forall>j < 38. bf_busy (bufp j s))"
proof (cases "bfind dev blk s")
  case (Some i)
  then show ?thesis by (simp add: bread_def panic_def)
next
  case None
  show ?thesis
  proof (cases "room s")
    case True
    have "not_held s dev blk" using None by (simp add: bfind_None not_held_def)
    from bread_law [OF assms True this, where rw = rewrite] True None show ?thesis by (auto simp: room_def)
  next
    case False
    then have "oldest s = None" using oldest_spec(2) by (cases "oldest s") (auto simp: room_def)
    then show ?thesis using False None by (auto simp: bread_def freebuf_def room_def panic_def)
  qed
qed

text \<open>The buffer \<^verbatim>\<open>freebuf\<close> gives away is not held and no buffer that is not held has been unused
  for longer, where the time since the last use is the 16-bit difference of the clocks; a dirty
  buffer is written to its device first, so no block content is lost.\<close>

theorem freebuf_least_recently_used:
  assumes "pool_ok X s" "freebuf s = Some (i, t)"
  shows "i < 38 \<and> \<not> bf_busy (bufp i s) \<and> bf_dirty (bufp i t) = 0 \<and>
    (\<forall>j < 38. \<not> bf_busy (bufp j s) \<longrightarrow> age s j \<le> age s i) \<and>
    (\<forall>d a. disk_dev d \<longrightarrow> bview t d a = bview s d a)"
proof -
  have "oldest s \<noteq> None" using assms(2) by (cases "oldest s") (simp_all add: freebuf_def)
  then have "\<exists>j < 38. \<not> bf_busy (bufp j s)" using oldest_spec(2) by blast
  from freebuf_law [OF assms(1) this] assms(2) show ?thesis using oldest_spec(3) by auto
qed

subsection \<open>Witnesses\<close>

definition bst0 :: bst where
  "bst0 = \<lparr>bufpool = replicate 38 \<lparr>bf_data = blank, bf_dev = - 1, bf_blk = 0, bf_dirty = 0, bf_busy = False,
     bf_time = 0\<rparr>, bufclock = 0, hd = hd0, u_error = NOERR, u_buf = 0\<rparr>"

lemma bst0_quiet: "quiet bst0"
  by (auto simp: quiet_def pool_ok_def bst0_def hd0_ok busyset_def distinct_names_def bufp_def buf_inv_def
      blank_def disk_dev_def)

lemma pool_behaves_as_array_witness:
  "\<exists>t. accesses buf_rd buf_wr [Wr (0, 2) (replicate 512 7), Rd (3, 2), Rd (0, 2)] bst0 =
     Some ([bview bst0 3 2, replicate 512 7], t) \<and> quiet t"
proof -
  let ?as = "[Wr (0, 2) (replicate 512 7), Rd (3, 2), Rd (0, 2)]"
  have "\<exists>n. accesses array_rd array_wr ?as (\<lambda>k. bview bst0 (fst k) (snd k)) =
      Some ([bview bst0 3 2, replicate 512 7], n)" by (simp add: array_rd_def array_wr_def)
  moreover have "\<exists>bs t n. accesses buf_rd buf_wr ?as bst0 = Some (bs, t) \<and>
    accesses array_rd array_wr ?as (\<lambda>k. bview bst0 (fst k) (snd k)) = Some (bs, n) \<and>
    quiet t \<and> (\<forall>k. disk_dev (fst k) \<longrightarrow> bview t (fst k) (snd k) = n k)"
    by (rule pool_behaves_as_array) (auto simp: bst0_quiet disk_dev_def)
  ultimately show ?thesis by force
qed

text \<open>A pool with one delayed write: buffer 3 holds block 9 of disk 0.\<close>

definition bst1 :: bst where
  "bst1 = upd_buf 3 (\<lambda>bp. bp\<lparr>bf_data := replicate 512 5, bf_dev := 0, bf_blk := 9, bf_dirty := 1\<rparr>) bst0"

lemma bst1_bufp:
  "j < 38 \<Longrightarrow> bufp j bst1 = \<lparr>bf_data = if j = 3 then replicate 512 5 else blank, bf_dev = if j = 3 then 0 else - 1,
     bf_blk = if j = 3 then 9 else 0, bf_dirty = if j = 3 then 1 else 0, bf_busy = False, bf_time = 0\<rparr>"
  by (simp add: bst1_def bst0_def bufp_upd) (simp add: bufp_def)

lemma bst1_quiet: "quiet bst1"
proof -
  have "busyset bst1 = {}" by (auto simp: busyset_def bst1_bufp)
  moreover have "distinct_names bst1" by (auto simp: distinct_names_def named_def bst1_bufp split: if_splits)
  moreover have "buf_inv bst1 l (bufp i bst1)" if "i < 38" for l i
    using that by (simp add: buf_inv_def bst1_bufp blank_def mountable_def disk_dev_def)
  moreover have "length (bufpool bst1) = 38" "hd bst1 = hd0" by (simp_all add: bst1_def bst0_def)
  ultimately show ?thesis by (simp add: quiet_def pool_ok_def hd0_ok)
qed

lemma bst1_view: "bview bst1 0 9 = replicate 512 5"
  using bview_in [of bst1 3 0 9] quietD(1) [OF bst1_quiet] by (simp add: pool_okD named_def bst1_bufp)

lemma sync_reaches_card_witness:
  "\<exists>t. bufsync bst1 = Some t \<and> medium (ca_sync (hd t)) (disk_addr 0 9) = replicate 512 5"
  using sync_reaches_card [OF bst1_quiet, of 0 9] by (auto simp: bst1_view disk_dev_def dev_minor_def dev_tab_def)

lemma bread_panics_iff_witness: "bread 0 9 False bst1 \<noteq> None"
proof -
  have f: "bfind 0 9 bst1 = Some 3"
    using bfind_eq [of bst1 3 0 9] quietD(1) [OF bst1_quiet] by (simp add: pool_okD named_def bst1_bufp)
  have "disk_dev 0" by (simp add: disk_dev_def)
  from bread_panics_iff [OF quietD(1) [OF bst1_quiet] this, of 9 False] f show ?thesis
    by (simp add: bst1_bufp)
qed

lemma bst0_oldest: "freebuf bst0 = Some (37, bst0)"
proof -
  have "oldest bst0 = Some 37"
    by (simp add: oldest_def oldest_step_def bst0_def bufp_def upt_conv_Cons)
  then show ?thesis by (simp add: freebuf_def) (simp add: bst0_def bufp_def)
qed

lemma freebuf_least_recently_used_witness:
  "\<not> bf_busy (bufp 37 bst0) \<and> bf_dirty (bufp 37 bst0) = 0 \<and> age bst0 0 \<le> age bst0 37"
proof -
  have "\<not> bf_busy (bufp 0 bst0)" by (simp add: bst0_def bufp_def)
  then show ?thesis
    using freebuf_least_recently_used [OF quietD(1) [OF bst0_quiet] bst0_oldest] by simp
qed

end
