(* ===== verification/CharQueue.thy ===== *)
theory CharQueue
  imports Prelude
begin

section \<open>Character queues: DEVIO.C\<close>

text \<open>
  The circular character queues between the tty interrupt routine and the readers: \<^verbatim>\<open>insq\<close>, \<^verbatim>\<open>remq\<close>,
  \<^verbatim>\<open>uninsq\<close>, \<^verbatim>\<open>clrq\<close>, \<^verbatim>\<open>fullq\<close>. The pointers \<^verbatim>\<open>q_head\<close> and \<^verbatim>\<open>q_tail\<close> are indices into the storage
  \<open>q_base\<close>. The interrupt masking around each body (\<^verbatim>\<open>spl\<close>) makes it one atomic step. The locale
  \<open>char_queue\<close> states what the line discipline relies on: a bounded sequence with insertion and
  removal at the tail and removal at the head.
\<close>

record s_queue =
  q_base :: "u8 list"
  q_head :: nat
  q_tail :: nat
  q_size :: nat
  q_count :: nat
  q_wakeup :: nat

definition insq :: "u8 \<Rightarrow> s_queue \<Rightarrow> bool \<times> s_queue" where
  "insq c q =
     (if q_count q = q_size q then (False, q)
      else let q = q\<lparr>q_base := (q_base q)[q_tail q := c], q_count := q_count q + 1, q_tail := q_tail q + 1\<rparr>
           in (True, if q_tail q \<ge> q_size q then q\<lparr>q_tail := 0\<rparr> else q))"

definition remq :: "s_queue \<Rightarrow> u8 option \<times> s_queue" where
  "remq q =
     (if q_count q = 0 then (None, q)
      else let c = q_base q ! q_head q;
               q = q\<lparr>q_count := q_count q - 1, q_head := q_head q + 1\<rparr>
           in (Some c, if q_head q \<ge> q_size q then q\<lparr>q_head := 0\<rparr> else q))"

definition clrq :: "s_queue \<Rightarrow> s_queue" where
  "clrq q = q\<lparr>q_tail := 0, q_head := 0, q_count := 0\<rparr>"

definition uninsq :: "s_queue \<Rightarrow> u8 option \<times> s_queue" where
  "uninsq q =
     (if q_count q = 0 then (None, q)
      else let q = q\<lparr>q_count := q_count q - 1\<rparr>;
               q = (if q_tail q = 0 then q\<lparr>q_tail := q_size q - 1\<rparr> else q\<lparr>q_tail := q_tail q - 1\<rparr>)
           in (Some (q_base q ! q_tail q), q))"

definition fullq :: "s_queue \<Rightarrow> bool" where
  "fullq q \<longleftrightarrow> q_count q > q_wakeup q"

subsection \<open>The contract\<close>

locale char_queue =
  fixes ins :: "'c \<Rightarrow> 'q \<Rightarrow> bool \<times> 'q"
    and rem :: "'q \<Rightarrow> 'c option \<times> 'q"
    and unins :: "'q \<Rightarrow> 'c option \<times> 'q"
    and clr :: "'q \<Rightarrow> 'q"
    and contents :: "'q \<Rightarrow> 'c list"
    and cap :: "'q \<Rightarrow> nat"
    and ok :: "'q \<Rightarrow> bool"
  assumes ins_ok: "ok q \<Longrightarrow> ok (snd (ins c q)) \<and> cap (snd (ins c q)) = cap q \<and>
      fst (ins c q) = (length (contents q) < cap q) \<and>
      contents (snd (ins c q)) = (if length (contents q) < cap q then contents q @ [c] else contents q)"
    and rem_ok: "ok q \<Longrightarrow> ok (snd (rem q)) \<and> cap (snd (rem q)) = cap q \<and>
      fst (rem q) = (case contents q of [] \<Rightarrow> None | c # cs \<Rightarrow> Some c) \<and> contents (snd (rem q)) = tl (contents q)"
    and unins_ok: "ok q \<Longrightarrow> ok (snd (unins q)) \<and> cap (snd (unins q)) = cap q \<and>
      fst (unins q) = (if contents q = [] then None else Some (last (contents q))) \<and>
      contents (snd (unins q)) = butlast (contents q)"
    and clr_ok: "ok q \<Longrightarrow> ok (clr q) \<and> cap (clr q) = cap q \<and> contents (clr q) = []"
    and bounded: "ok q \<Longrightarrow> length (contents q) \<le> cap q"
begin

text \<open>A rubout takes back exactly the last character, and leaves the queue's content as it was.\<close>

lemma ins_unins:
  assumes "ok q" "length (contents q) < cap q"
  shows "fst (unins (snd (ins c q))) = Some c" "contents (snd (unins (snd (ins c q)))) = contents q"
  using ins_ok [OF assms(1), of c] unins_ok [of "snd (ins c q)"] assms(2) by auto

text \<open>Whole strings go through in order: what is inserted comes out first in, first out.\<close>

primrec ins_all :: "'c list \<Rightarrow> 'q \<Rightarrow> 'q" where
  "ins_all [] q = q"
| "ins_all (c # cs) q = ins_all cs (snd (ins c q))"

primrec rem_n :: "nat \<Rightarrow> 'q \<Rightarrow> 'c option list \<times> 'q" where
  "rem_n 0 q = ([], q)"
| "rem_n (Suc n) q = (let (c, q) = rem q; (cs, q) = rem_n n q in (c # cs, q))"

lemma ins_all_contents:
  "ok q \<Longrightarrow> length (contents q) + length cs \<le> cap q \<Longrightarrow>
     ok (ins_all cs q) \<and> cap (ins_all cs q) = cap q \<and> contents (ins_all cs q) = contents q @ cs"
proof (induction cs arbitrary: q)
  case Nil
  then show ?case by simp
next
  case (Cons c cs)
  from ins_ok [OF Cons.prems(1), of c] Cons.prems(2) Cons.IH [of "snd (ins c q)"] show ?case by simp
qed

lemma rem_n_contents:
  "ok q \<Longrightarrow> n \<le> length (contents q) \<Longrightarrow>
     fst (rem_n n q) = map Some (take n (contents q)) \<and> contents (snd (rem_n n q)) = drop n (contents q)"
proof (induction n arbitrary: q)
  case 0
  then show ?case by simp
next
  case (Suc n)
  then obtain c cs where c: "contents q = c # cs" by (cases "contents q") auto
  from rem_ok [OF Suc.prems(1)] c Suc.IH [of "snd (rem q)"] Suc.prems(2) show ?case
    by (auto simp: Let_def split: prod.splits)
qed

lemma first_in_first_out:
  assumes "ok q" "contents q = []" "length cs \<le> cap q"
  shows "fst (rem_n (length cs) (ins_all cs q)) = map Some cs"
  using ins_all_contents [OF assms(1), of cs] rem_n_contents [of "ins_all cs q" "length cs"] assms(2,3) by simp

text \<open>A queue that is full refuses further characters, and loses none it has.\<close>

lemma ins_full: "ok q \<Longrightarrow> length (contents q) = cap q \<Longrightarrow> contents (snd (ins c q)) = contents q \<and> \<not> fst (ins c q)"
  using ins_ok [of q c] by simp

end

subsection \<open>The code keeps the contract\<close>

definition q_contents :: "s_queue \<Rightarrow> u8 list" where
  "q_contents q = map (\<lambda>i. q_base q ! ((q_head q + i) mod q_size q)) [0..<q_count q]"

definition q_ok :: "s_queue \<Rightarrow> bool" where
  "q_ok q \<longleftrightarrow> 0 < q_size q \<and> length (q_base q) = q_size q \<and> q_head q < q_size q \<and> q_count q \<le> q_size q \<and>
     q_tail q = (q_head q + q_count q) mod q_size q"

lemma q_contents_length [simp]: "length (q_contents q) = q_count q"
  by (simp add: q_contents_def)

lemma q_wrap: "0 < (n :: nat) \<Longrightarrow> t < n \<Longrightarrow> (if t + 1 \<ge> n then 0 else t + 1) = (t + 1) mod n"
  by (auto simp: not_le le_Suc_eq)

lemma insq_law:
  assumes "q_ok q" "q_count q < q_size q"
  shows "q_ok (snd (insq c q)) \<and> q_size (snd (insq c q)) = q_size q \<and> fst (insq c q) \<and>
    q_contents (snd (insq c q)) = q_contents q @ [c]"
proof -
  note A = assms [unfolded q_ok_def]
  have t: "q_tail q < q_size q" using A by simp
  have eq: "insq c q = (True, q\<lparr>q_base := (q_base q)[q_tail q := c], q_count := q_count q + 1,
      q_tail := (q_tail q + 1) mod q_size q\<rparr>)"
    using assms(2) q_wrap [of "q_size q" "q_tail q"] t A by (auto simp: insq_def Let_def)
  have other: "(q_head q + i) mod q_size q \<noteq> q_tail q" if "i < q_count q" for i
  proof
    assume "(q_head q + i) mod q_size q = q_tail q"
    then have "(q_head q + i) mod q_size q = (q_head q + q_count q) mod q_size q" using A by simp
    then have "q_size q dvd (q_head q + q_count q) - (q_head q + i)"
      using that mod_eq_dvd_iff_nat [of "q_head q + i" "q_head q + q_count q" "q_size q"] by simp
    then have "q_size q dvd q_count q - i" by simp
    moreover have "0 < q_count q - i" "q_count q - i < q_size q" using that assms(2) by simp_all
    ultimately show False using nat_dvd_not_less by blast
  qed
  have "q_contents (snd (insq c q)) = q_contents q @ [c]"
    using other [THEN not_sym] A t by (auto simp: eq q_contents_def nth_list_update)
  moreover have "q_ok (snd (insq c q))"
    using A assms(2) by (simp add: eq q_ok_def mod_Suc_eq)
  ultimately show ?thesis by (simp add: eq)
qed

lemma remq_law:
  assumes "q_ok q" "0 < q_count q"
  shows "q_ok (snd (remq q)) \<and> q_size (snd (remq q)) = q_size q \<and>
    q_contents q = q_base q ! q_head q # q_contents (snd (remq q)) \<and> fst (remq q) = Some (q_base q ! q_head q)"
proof -
  note A = assms [unfolded q_ok_def]
  have eq: "remq q = (Some (q_base q ! q_head q), q\<lparr>q_count := q_count q - 1, q_head := (q_head q + 1) mod q_size q\<rparr>)"
    using assms(2) q_wrap [of "q_size q" "q_head q"] A by (auto simp: remq_def Let_def)
  obtain n where n: "q_count q = Suc n" using assms(2) by (cases "q_count q") auto
  have "q_contents q = q_base q ! q_head q # q_contents (snd (remq q))"
  proof -
    have "[0..<q_count q] = 0 # map Suc [0..<n]" by (simp add: n upt_conv_Cons map_Suc_upt del: upt_Suc)
    then show ?thesis using A by (simp add: eq q_contents_def n mod_simps comp_def)
  qed
  moreover have "q_ok (snd (remq q))"
    using A by (simp add: eq q_ok_def n mod_simps)
  ultimately show ?thesis by (simp add: eq)
qed

lemma uninsq_law:
  assumes "q_ok q" "0 < q_count q"
  shows "q_ok (snd (uninsq q)) \<and> q_size (snd (uninsq q)) = q_size q \<and>
    (\<exists>c. q_contents q = q_contents (snd (uninsq q)) @ [c] \<and> fst (uninsq q) = Some c)"
proof -
  note A = assms [unfolded q_ok_def]
  obtain n where n: "q_count q = Suc n" using assms(2) by (cases "q_count q") auto
  let ?t = "(q_head q + n) mod q_size q"
  have t: "(if q_tail q = 0 then q_size q - 1 else q_tail q - 1) = ?t"
  proof -
    have "q_tail q = (?t + 1) mod q_size q" using A by (simp add: n mod_simps)
    moreover have "?t < q_size q" using A by simp
    ultimately show ?thesis by (cases "?t + 1 = q_size q") auto
  qed
  have eq: "uninsq q = (Some (q_base q ! ?t), q\<lparr>q_count := n, q_tail := ?t\<rparr>)"
    using t n by (auto simp: uninsq_def Let_def split: if_splits)
  have "q_contents q = q_contents (snd (uninsq q)) @ [q_base q ! ?t]"
    by (simp add: eq q_contents_def n)
  moreover have "q_ok (snd (uninsq q))" using A n by (simp add: eq q_ok_def)
  ultimately show ?thesis by (simp add: eq)
qed

interpretation ttyq: char_queue insq remq uninsq clrq q_contents q_size q_ok
proof unfold_locales
  fix q c
  assume ok: "q_ok q"
  have full: "\<not> q_count q < q_size q \<Longrightarrow> insq c q = (False, q)"
    using ok by (simp add: insq_def q_ok_def)
  show "q_ok (snd (insq c q)) \<and> q_size (snd (insq c q)) = q_size q \<and>
      fst (insq c q) = (length (q_contents q) < q_size q) \<and>
      q_contents (snd (insq c q)) = (if length (q_contents q) < q_size q then q_contents q @ [c] else q_contents q)"
    using insq_law [OF ok, of c] full ok by (cases "q_count q < q_size q") auto
next
  fix q
  assume ok: "q_ok q"
  show "q_ok (snd (remq q)) \<and> q_size (snd (remq q)) = q_size q \<and>
      fst (remq q) = (case q_contents q of [] \<Rightarrow> None | c # cs \<Rightarrow> Some c) \<and>
      q_contents (snd (remq q)) = tl (q_contents q)"
  proof (cases "q_count q")
    case 0
    then have "remq q = (None, q)" "q_contents q = []" by (simp_all add: remq_def q_contents_def)
    with ok show ?thesis by simp
  next
    case Suc
    then have "0 < q_count q" by simp
    from remq_law [OF ok this] show ?thesis by (metis list.sel(3) list.simps(5))
  qed
next
  fix q
  assume ok: "q_ok q"
  show "q_ok (snd (uninsq q)) \<and> q_size (snd (uninsq q)) = q_size q \<and>
      fst (uninsq q) = (if q_contents q = [] then None else Some (last (q_contents q))) \<and>
      q_contents (snd (uninsq q)) = butlast (q_contents q)"
  proof (cases "q_count q")
    case 0
    then have "uninsq q = (None, q)" "q_contents q = []" by (simp_all add: uninsq_def q_contents_def)
    with ok show ?thesis by simp
  next
    case Suc
    then have "0 < q_count q" by simp
    from uninsq_law [OF ok this] show ?thesis by auto
  qed
next
  fix q
  assume "q_ok q"
  then show "q_ok (clrq q) \<and> q_size (clrq q) = q_size q \<and> q_contents (clrq q) = []"
    by (simp add: clrq_def q_ok_def q_contents_def)
next
  fix q
  assume "q_ok q"
  then show "length (q_contents q) \<le> q_size q" by (simp add: q_ok_def)
qed

subsection \<open>Properties\<close>

text \<open>C27: a queue is a bounded first-in first-out sequence in both directions: characters that fit are
  handed out in the order they were inserted wherever the ring wraps, \<^verbatim>\<open>insq\<close> refuses exactly when the
  queue is full and then changes nothing, \<^verbatim>\<open>uninsq\<close> takes back the character inserted last,
  \<^verbatim>\<open>clrq\<close> empties the queue and keeps its size, and \<^verbatim>\<open>remq\<close> and \<^verbatim>\<open>uninsq\<close> on an empty queue report it.\<close>

theorem queue_is_bounded_fifo:
  assumes "q_ok q"
  shows "fst (insq c q) = (length (q_contents q) < q_size q) \<and>
    q_contents (snd (insq c q)) = (if length (q_contents q) < q_size q then q_contents q @ [c] else q_contents q) \<and>
    fst (remq q) = (case q_contents q of [] \<Rightarrow> None | d # ds \<Rightarrow> Some d) \<and>
    q_contents (snd (remq q)) = tl (q_contents q) \<and>
    fst (uninsq q) = (if q_contents q = [] then None else Some (last (q_contents q))) \<and>
    q_contents (snd (uninsq q)) = butlast (q_contents q) \<and>
    q_ok (snd (insq c q)) \<and> q_ok (snd (remq q)) \<and> q_ok (snd (uninsq q)) \<and>
    q_ok (clrq q) \<and> q_contents (clrq q) = [] \<and> q_size (clrq q) = q_size q \<and>
    (q_contents q = [] \<longrightarrow> length cs \<le> q_size q \<longrightarrow>
       fst (ttyq.rem_n (length cs) (ttyq.ins_all cs q)) = map Some cs)"
  using ttyq.ins_ok [OF assms, of c] ttyq.rem_ok [OF assms] ttyq.unins_ok [OF assms] ttyq.clr_ok [OF assms]
    ttyq.first_in_first_out [OF assms, of cs] by auto

lemma queue_is_bounded_fifo_witness:
  "q_contents (snd (insq 9 \<lparr>q_base = [1, 2, 3], q_head = 2, q_tail = 1, q_size = 3, q_count = 2, q_wakeup = 1\<rparr>)) =
     [3, 1, 9]"
proof -
  let ?q = "\<lparr>q_base = [1, 2, 3], q_head = 2, q_tail = 1, q_size = 3, q_count = 2, q_wakeup = 1\<rparr> :: s_queue"
  have "q_ok ?q" by (simp add: q_ok_def)
  moreover have "q_contents ?q = [3, 1]" by (simp add: q_contents_def upt_rec)
  ultimately show ?thesis using queue_is_bounded_fifo [of ?q 9] by simp
qed

end
