(* ===== verification/State.thy ===== *)
theory State
  imports Buffers CharQueue
begin

section \<open>The kernel state: UNIX.H, EXTERN.H\<close>

text \<open>
  The data of the kernel above the buffer pool. \<open>kst\<close> extends the pool's state \<open>bst\<close> with the tables
  of EXTERN.H and with the fields of \<^verbatim>\<open>udata\<close>, the user block of the running process. A pointer into
  a table is an index; NULL is \<open>None\<close>. The one pointer that is read back from disk, \<^verbatim>\<open>s_mntpt\<close>,
  stays a 16-bit address: \<open>ino_addr\<close> gives the address of an inode table entry (\<^verbatim>\<open>_i_tab\<close> is at D7D8
  in UNIX.SYM, an entry has 72 bytes), \<open>addr_ino\<close> reads an address back.
  The data memory of the running process is \<open>umem\<close>; \<open>upages\<close> says which of its eight 8K pages are
  legal (a page that is legal but not yet present is supplied by \<^verbatim>\<open>upage\<close> on the first access). The
  kernel memory that \<^verbatim>\<open>udata.u_base\<close> points into when \<^verbatim>\<open>udata.u_sysio\<close> is set is \<open>sysbuf\<close>, and
  \<^verbatim>\<open>u_base\<close> is then the index into it. \<open>usp_reg\<close> is the user stack pointer register (\<^verbatim>\<open>usp()\<close>),
  \<open>low_times\<close> the eight bytes at address 0 of kernel memory, which \<^verbatim>\<open>doexit\<close> and \<^verbatim>\<open>wait\<close> use through
  NULL, and \<open>sched_pp\<close>, \<open>lcnt\<close> the static variables of \<^verbatim>\<open>getproc\<close>. \<open>uart_out\<close> is what has been sent to the serial line, the only
  terminal of this configuration.
\<close>

record time_t =
  t_time :: u16
  t_date :: u16

record off_t =
  o_blkno :: u16
  o_offset :: u16

record dinode =
  i_mode :: u16
  i_nlink :: u16
  i_uid :: u16
  i_gid :: u16
  i_size :: off_t
  i_atime :: time_t
  i_mtime :: time_t
  i_ctime :: time_t
  i_addr :: "u16 list"

record cinode =
  c_magic :: u16
  c_dev :: int
  c_num :: u16
  c_node :: dinode
  c_refs :: u8
  c_dirty :: u8

record filesys =
  s_mounted :: u16
  s_isize :: u16
  s_fsize :: u16
  s_nfree :: u16
  s_free :: "u16 list"
  s_ninode :: u16
  s_inode :: "u16 list"
  s_fmod :: u16
  s_time :: time_t
  s_tfree :: u16
  s_tinode :: u16
  s_mntpt :: u16

record oft =
  o_ptr :: off_t
  o_inode :: "nat option"
  o_access :: u8
  o_refs :: u8

text \<open>What a process sleeps on: \<^verbatim>\<open>p_wait\<close> holds the address of some kernel object.\<close>

datatype event = NoEvent | EvIno nat | EvPtab nat | EvTtyIn nat | EvTtyStop nat

record p_tab =
  p_status :: u8
  p_tty :: u8
  p_pid :: u16
  p_uid :: u16
  p_pptr :: "nat option"
  p_alarm :: u16
  p_exitval :: u16
  p_wait :: event
  p_swap :: u16
  p_priority :: u16
  p_pending :: u16
  p_ignored :: u16
  p_ublk :: "nat option"
  p_waitno :: u16
  p_inode :: u16
  p_idev :: u16
  p_idate :: time_t
  p_bintype :: u16
  p_fork_inf :: u16

record tty_data =
  t_ispeed :: u8
  t_ospeed :: u8
  t_erase :: u8
  t_kill :: u8
  t_flags :: u16
  t_intr :: u8
  t_quit :: u8
  t_start :: u8
  t_stop :: u8
  t_eof :: u8
  ctl_char :: u8

record kst = bst +
  fs_tab :: "filesys list"
  i_tab :: "cinode list"
  nexti :: nat
  of_tab :: "oft list"
  root :: "nat option"
  ROOTDEV :: int
  ptab :: "p_tab list"
  initproc :: "nat option"
  nextpid :: u16
  waitno :: u16
  tod :: time_t
  ticks :: time_t
  sec :: u16
  runticks :: u16
  inint :: u16
  sec_counter :: u16
  u_ptab :: nat
  u_insys :: u8
  u_callno :: u8
  u_retval :: u16
  u_cursig :: u16
  u_argn :: u16
  u_argn1 :: u16
  u_argn2 :: u16
  u_argn3 :: u16
  u_base :: u16
  u_count :: u16
  u_offset :: off_t
  u_sysio :: bool
  u_gid :: u16
  u_euid :: u16
  u_egid :: u16
  u_mask :: u16
  u_time :: time_t
  u_files :: "u8 list"
  u_cwd :: "nat option"
  u_break :: u16
  u_sigvec :: "u16 list"
  u_utime :: time_t
  u_stime :: time_t
  u_cutime :: time_t
  u_cstime :: time_t
  umem :: "u16 \<Rightarrow> u8"
  upages :: "bool list"
  areg :: u8
  sysbuf :: "u8 list"
  ttydata :: "tty_data list"
  ttyinq :: "s_queue list"
  stopflag :: "bool list"
  flshflag :: "bool list"
  fast_mode :: bool
  cur_win :: u16
  last_win :: u16
  uart_out :: "u8 list"
  lop :: bool
  usp_reg :: u16
  u_usp :: u16
  u_retloc :: u16
  low_times :: "time_t \<times> time_t"
  sched_pp :: nat
  lcnt :: u16

subsection \<open>Sizes and flags\<close>

abbreviation NDEVS :: nat where "NDEVS \<equiv> 4"
abbreviation ITABSIZE :: nat where "ITABSIZE \<equiv> 45"
abbreviation OFTSIZE :: nat where "OFTSIZE \<equiv> 45"
abbreviation UFTSIZE :: nat where "UFTSIZE \<equiv> 22"
abbreviation PTABSIZE :: nat where "PTABSIZE \<equiv> 30"

definition CMAGIC :: u16 where "CMAGIC = 24721"
definition SMOUNTED :: u16 where "SMOUNTED = 12742"
definition NULLBLK :: u16 where "NULLBLK = - 1"
definition ROOTINODE :: u16 where "ROOTINODE = 1"

definition OTH_EX :: u16 where "OTH_EX = 0x1"
definition OTH_WR :: u16 where "OTH_WR = 0x2"
definition OTH_RD :: u16 where "OTH_RD = 0x4"
definition MODE_MASK :: u16 where "MODE_MASK = 0xFFF"
definition F_REG :: u16 where "F_REG = 0x8000"
definition F_DIR :: u16 where "F_DIR = 0x4000"
definition F_PIPE :: u16 where "F_PIPE = 0x1000"
definition F_BDEV :: u16 where "F_BDEV = 0x6000"
definition F_CDEV :: u16 where "F_CDEV = 0x2000"
definition F_MASK :: u16 where "F_MASK = 0xF000"

definition A_TIME :: u16 where "A_TIME = 1"
definition M_TIME :: u16 where "M_TIME = 2"
definition C_TIME :: u16 where "C_TIME = 4"

definition P_EMPTY :: u8 where "P_EMPTY = 0"
definition P_RUNNING :: u8 where "P_RUNNING = 1"
definition P_READY :: u8 where "P_READY = 2"
definition P_SLEEP :: u8 where "P_SLEEP = 3"
definition P_XSLEEP :: u8 where "P_XSLEEP = 4"
definition P_PAUSE :: u8 where "P_PAUSE = 5"
definition P_FORKING :: u8 where "P_FORKING = 6"
definition P_WAIT :: u8 where "P_WAIT = 7"
definition P_ZOMBIE2 :: u8 where "P_ZOMBIE2 = 8"
definition P_ZOMBIE :: u8 where "P_ZOMBIE = 9"

lemmas mode_defs = F_REG_def F_DIR_def F_PIPE_def F_BDEV_def F_CDEV_def F_MASK_def
lemmas perm_defs = OTH_EX_def OTH_WR_def OTH_RD_def MODE_MASK_def
lemmas status_defs = P_EMPTY_def P_RUNNING_def P_READY_def P_SLEEP_def P_XSLEEP_def P_PAUSE_def
  P_FORKING_def P_WAIT_def P_ZOMBIE2_def P_ZOMBIE_def

subsection \<open>Access to the tables\<close>

definition inop :: "nat \<Rightarrow> kst \<Rightarrow> cinode" where
  "inop k s = i_tab s ! k"

definition upd_ino :: "nat \<Rightarrow> (cinode \<Rightarrow> cinode) \<Rightarrow> kst \<Rightarrow> kst" where
  "upd_ino k f s = s\<lparr>i_tab := (i_tab s)[k := f (i_tab s ! k)]\<rparr>"

definition upd_node :: "nat \<Rightarrow> (dinode \<Rightarrow> dinode) \<Rightarrow> kst \<Rightarrow> kst" where
  "upd_node k f = upd_ino k (\<lambda>c. c\<lparr>c_node := f (c_node c)\<rparr>)"

definition fsp :: "int \<Rightarrow> kst \<Rightarrow> filesys" where
  "fsp dev s = fs_tab s ! nat dev"

definition upd_fs :: "int \<Rightarrow> (filesys \<Rightarrow> filesys) \<Rightarrow> kst \<Rightarrow> kst" where
  "upd_fs dev f s = s\<lparr>fs_tab := (fs_tab s)[nat dev := f (fs_tab s ! nat dev)]\<rparr>"

definition upd_oft :: "nat \<Rightarrow> (oft \<Rightarrow> oft) \<Rightarrow> kst \<Rightarrow> kst" where
  "upd_oft k f s = s\<lparr>of_tab := (of_tab s)[k := f (of_tab s ! k)]\<rparr>"

definition upd_proc :: "nat \<Rightarrow> (p_tab \<Rightarrow> p_tab) \<Rightarrow> kst \<Rightarrow> kst" where
  "upd_proc k f s = s\<lparr>ptab := (ptab s)[k := f (ptab s ! k)]\<rparr>"

definition set_error :: "errno \<Rightarrow> kst \<Rightarrow> kst" where
  "set_error e s = s\<lparr>u_error := e\<rparr>"

definition ino_addr :: "nat option \<Rightarrow> u16" where
  "ino_addr p = (case p of None \<Rightarrow> 0 | Some k \<Rightarrow> 0xD7D8 + 72 * of_nat k)"

definition addr_ino :: "u16 \<Rightarrow> nat option" where
  "addr_ino a = scan (\<lambda>k. ino_addr (Some k) = a) 0 ITABSIZE"

text \<open>\<^verbatim>\<open>getmode\<close>, \<^verbatim>\<open>isdevice\<close>, \<^verbatim>\<open>devnum\<close>, \<^verbatim>\<open>super\<close>, \<^verbatim>\<open>magic\<close>.\<close>

definition getmode :: "nat \<Rightarrow> kst \<Rightarrow> u16" where
  "getmode ino s = i_mode (c_node (inop ino s)) AND F_MASK"

definition isdevice :: "nat \<Rightarrow> kst \<Rightarrow> bool" where
  "isdevice ino s \<longleftrightarrow> i_mode (c_node (inop ino s)) AND 0x2000 \<noteq> 0"

definition devnum :: "nat \<Rightarrow> kst \<Rightarrow> int" where
  "devnum ino s = sint (i_addr (c_node (inop ino s)) ! 0)"

definition super :: "kst \<Rightarrow> bool" where
  "super s \<longleftrightarrow> u_euid s = 0"

definition magic :: "nat \<Rightarrow> kst \<Rightarrow> unit option" where
  "magic ino s = (if c_magic (inop ino s) \<noteq> CMAGIC then panic ''Corrupt inode'' else Some ())"

definition rdtime :: "kst \<Rightarrow> time_t" where
  "rdtime s = tod s"

definition setftime :: "nat \<Rightarrow> u16 \<Rightarrow> kst \<Rightarrow> kst" where
  "setftime ino flag s =
     (let s = upd_ino ino (\<lambda>c. c\<lparr>c_dirty := 1\<rparr>) s;
          s = (if flag AND A_TIME \<noteq> 0 then upd_node ino (\<lambda>n. n\<lparr>i_atime := rdtime s\<rparr>) s else s);
          s = (if flag AND M_TIME \<noteq> 0 then upd_node ino (\<lambda>n. n\<lparr>i_mtime := rdtime s\<rparr>) s else s)
      in if flag AND C_TIME \<noteq> 0 then upd_node ino (\<lambda>n. n\<lparr>i_ctime := rdtime s\<rparr>) s else s)"

definition getperm :: "nat \<Rightarrow> kst \<Rightarrow> u16" where
  "getperm ino s =
     (if super s then 7
      else let node = c_node (inop ino s);
               mode = i_mode node;
               mode = (if i_uid node = u_euid s then signed_drop_bit 6 mode
                       else if i_gid node = u_egid s then signed_drop_bit 3 mode else mode)
           in mode AND 7)"

subsection \<open>The kernel's own fields and the pool\<close>

text \<open>An operation of the pool leaves every field of the kernel state alone, and an update of such a
  field leaves the pool alone.\<close>

lemma same_rest_kst:
  fixes s t :: kst
  assumes "same_rest s t"
  shows
    "fs_tab t = fs_tab s"
    "i_tab t = i_tab s"
    "nexti t = nexti s"
    "of_tab t = of_tab s"
    "root t = root s"
    "ROOTDEV t = ROOTDEV s"
    "ptab t = ptab s"
    "initproc t = initproc s"
    "nextpid t = nextpid s"
    "waitno t = waitno s"
    "tod t = tod s"
    "ticks t = ticks s"
    "sec t = sec s"
    "runticks t = runticks s"
    "inint t = inint s"
    "sec_counter t = sec_counter s"
    "u_ptab t = u_ptab s"
    "u_insys t = u_insys s"
    "u_callno t = u_callno s"
    "u_retval t = u_retval s"
    "u_cursig t = u_cursig s"
    "u_argn t = u_argn s"
    "u_argn1 t = u_argn1 s"
    "u_argn2 t = u_argn2 s"
    "u_argn3 t = u_argn3 s"
    "u_base t = u_base s"
    "u_count t = u_count s"
    "u_offset t = u_offset s"
    "u_sysio t = u_sysio s"
    "u_gid t = u_gid s"
    "u_euid t = u_euid s"
    "u_egid t = u_egid s"
    "u_mask t = u_mask s"
    "u_time t = u_time s"
    "u_files t = u_files s"
    "u_cwd t = u_cwd s"
    "u_break t = u_break s"
    "u_sigvec t = u_sigvec s"
    "u_utime t = u_utime s"
    "u_stime t = u_stime s"
    "u_cutime t = u_cutime s"
    "u_cstime t = u_cstime s"
    "umem t = umem s"
    "upages t = upages s"
    "areg t = areg s"
    "sysbuf t = sysbuf s"
    "ttydata t = ttydata s"
    "ttyinq t = ttyinq s"
    "stopflag t = stopflag s"
    "flshflag t = flshflag s"
    "fast_mode t = fast_mode s"
    "cur_win t = cur_win s"
    "last_win t = last_win s"
    "uart_out t = uart_out s"
    "lop t = lop s"
    "usp_reg t = usp_reg s"
    "u_usp t = u_usp s"
    "u_retloc t = u_retloc s"
    "low_times t = low_times s"
    "sched_pp t = sched_pp s"
    "lcnt t = lcnt s"
    "u_error t = u_error s"
  using assms by (cases s; cases t; simp add: same_rest_def)+

definition same_pool :: "kst \<Rightarrow> kst \<Rightarrow> bool" where
  "same_pool s t \<longleftrightarrow> bufpool t = bufpool s \<and> hd t = hd s"

lemma same_pool_refl [simp]: "same_pool s s"
  by (simp add: same_pool_def)

lemma same_pool_views:
  assumes "same_pool s t"
  shows "bview t = bview s" "calm X H t = calm X H s" "quiet t = quiet s" "avail H t d b = avail H s d b"
    "bufp i t = bufp i s" "buf_data i t = buf_data i s" "not_held t d b = not_held s d b"
proof -
  have bp: "bufp i t = bufp i s" for i using assms by (simp add: same_pool_def bufp_def)
  have hb: "hd_blk t d a = hd_blk s d a" for d a using assms by (simp add: same_pool_def hd_blk_def)
  have bf: "bfind d a t = bfind d a s" for d a by (simp add: bfind_def bp)
  show "bview t = bview s" by (simp add: fun_eq_iff bview_def bf hb buf_data_def bp split: option.split)
  have bs: "busyset t = busyset s" by (simp add: busyset_def bp)
  have po: "pool_ok X t = pool_ok X s" for X
    using assms by (simp add: pool_ok_def bs bp distinct_names_def buf_inv_def hb same_pool_def)
  show "calm X H t = calm X H s" "quiet t = quiet s" by (simp_all add: calm_def quiet_def po bs)
  show nh: "not_held t d b = not_held s d b" by (simp add: not_held_def bp)
  then show "avail H t d b = avail H s d b" by (simp add: avail_def)
  show "bufp i t = bufp i s" "buf_data i t = buf_data i s" by (simp_all add: bp buf_data_def)
qed

lemma same_pool_updates [simp]:
  "same_pool s (upd_ino k f t) = same_pool s t" "same_pool s (upd_node k g t) = same_pool s t"
  "same_pool s (upd_fs d h t) = same_pool s t" "same_pool s (upd_oft k l t) = same_pool s t"
  "same_pool s (upd_proc k p t) = same_pool s t" "same_pool s (set_error e t) = same_pool s t"
  by (simp_all add: same_pool_def upd_ino_def upd_node_def upd_fs_def upd_oft_def upd_proc_def set_error_def)

lemma fsp_upd:
  "nat d < length (fs_tab s) \<Longrightarrow> nat e < length (fs_tab s) \<Longrightarrow>
     fsp e (upd_fs d f s) = (if nat e = nat d then f (fsp d s) else fsp e s)"
  by (simp add: fsp_def upd_fs_def nth_list_update)

lemma inop_upd:
  "k < length (i_tab s) \<Longrightarrow> inop j (upd_ino k f s) = (if j = k then f (inop k s) else inop j s)"
  by (simp add: inop_def upd_ino_def nth_list_update)

text \<open>What the update functions of one table leave alone.\<close>

lemma upd_fs_frame [simp]:
  "i_tab (upd_fs d f s) = i_tab s" "u_error (upd_fs d f s) = u_error s" "length (fs_tab (upd_fs d f s)) = length (fs_tab s)"
  "of_tab (upd_fs d f s) = of_tab s" "tod (upd_fs d f s) = tod s" "inop k (upd_fs d f s) = inop k s"
  "ptab (upd_fs d f s) = ptab s" "u_files (upd_fs d f s) = u_files s"
  by (simp_all add: upd_fs_def inop_def)

lemma upd_ino_frame [simp]:
  "fs_tab (upd_ino k g s) = fs_tab s" "u_error (upd_ino k g s) = u_error s" "length (i_tab (upd_ino k g s)) = length (i_tab s)"
  "of_tab (upd_ino k g s) = of_tab s" "tod (upd_ino k g s) = tod s" "fsp d (upd_ino k g s) = fsp d s"
  "ptab (upd_ino k g s) = ptab s" "u_files (upd_ino k g s) = u_files s"
  by (simp_all add: upd_ino_def fsp_def)

lemma set_error_frame [simp]:
  "fs_tab (set_error e s) = fs_tab s" "i_tab (set_error e s) = i_tab s" "of_tab (set_error e s) = of_tab s"
  "fsp d (set_error e s) = fsp d s" "inop k (set_error e s) = inop k s" "u_error (set_error e s) = e"
  "tod (set_error e s) = tod s" "ptab (set_error e s) = ptab s" "u_files (set_error e s) = u_files s"
  by (simp_all add: set_error_def fsp_def inop_def)

subsection \<open>User memory: NEWUPUT.C, MACHASM.C\<close>

text \<open>
  Short transfers go byte by byte and stop at the first address that faults; transfers of 50 bytes
  and more go by DMA, one 8K page at a time, after touching the first byte of each page. The touch
  of the second page in \<^verbatim>\<open>uput\<close> stores register A (\<open>areg\<close>, whatever \<^verbatim>\<open>dodma\<close> left there) before the
  DMA overwrites it. A transfer that ends exactly at a page boundary touches the next page too, since
  the count is not decremented before the comparison; the DMA of the 0 bytes that remain is taken to
  transfer nothing. A fault sets \<^verbatim>\<open>EFAULT\<close> (\<^verbatim>\<open>ufault\<close>) and returns 1. The byte loops test the count
  after decrementing it, so that a count of 0 would mean 65536; no caller passes an empty list to
  \<open>uput\<close>.
\<close>

definition page_no :: "u16 \<Rightarrow> nat" where
  "page_no a = unat (drop_bit 13 a)"

definition legal :: "kst \<Rightarrow> u16 \<Rightarrow> bool" where
  "legal s a = (upages s ! page_no a)"

fun uread :: "(u16 \<Rightarrow> bool) \<Rightarrow> (u16 \<Rightarrow> u8) \<Rightarrow> u16 \<Rightarrow> nat \<Rightarrow> u8 list" where
  "uread v m a 0 = []"
| "uread v m a (Suc n) = (if \<not> v a then [] else m a # uread v m (a + 1) n)"

fun uwrite :: "(u16 \<Rightarrow> bool) \<Rightarrow> u16 \<Rightarrow> u8 list \<Rightarrow> (u16 \<Rightarrow> u8) \<Rightarrow> (u16 \<Rightarrow> u8) \<times> bool" where
  "uwrite v a [] m = (m, True)"
| "uwrite v a (b # bs) m = (if \<not> v a then (m, False) else uwrite v (a + 1) bs (m(a := b)))"

fun ureads :: "(u16 \<Rightarrow> bool) \<Rightarrow> (u16 \<Rightarrow> u8) \<Rightarrow> u16 \<Rightarrow> nat \<Rightarrow> u8 list \<times> bool" where
  "ureads v m a 0 = ([], True)"
| "ureads v m a (Suc n) =
     (if \<not> v a then ([], False)
      else if m a = 0 then ([0], True)
      else (let (bs, r) = ureads v m (a + 1) n in (m a # bs, r)))"

definition ucount :: "u16 \<Rightarrow> nat" where
  "ucount n = (if n = 0 then 65536 else unat n)"

definition dma_get :: "(u16 \<Rightarrow> u8) \<Rightarrow> u16 \<Rightarrow> nat \<Rightarrow> u8 list" where
  "dma_get m a n = map (\<lambda>i. m (a + of_nat i)) [0..<n]"

fun dma_put :: "u16 \<Rightarrow> u8 list \<Rightarrow> (u16 \<Rightarrow> u8) \<Rightarrow> (u16 \<Rightarrow> u8)" where
  "dma_put a [] m = m"
| "dma_put a (b # bs) m = dma_put (a + 1) bs (m(a := b))"

text \<open>The bytes left in the first page.\<close>

definition page_rest :: "u16 \<Rightarrow> u16" where
  "page_rest a = 0x2000 - (a AND 0x1FFF)"

definition uget :: "u16 \<Rightarrow> u16 \<Rightarrow> kst \<Rightarrow> int \<times> u8 list \<times> kst" where
  "uget uptr n s =
     (if ucount n < 50 then
        (let bs = uread (legal s) (umem s) uptr (ucount n)
         in if length bs = ucount n then (0, bs, s) else (1, bs, set_error EFAULT s))
      else if \<not> legal s uptr then (1, [], set_error EFAULT s)
      else if page_no (uptr + n) = page_no uptr then (0, dma_get (umem s) uptr (ucount n), s)
      else (let rest = page_rest uptr
            in if \<not> legal s (uptr + rest) then (1, dma_get (umem s) uptr (unat rest), set_error EFAULT s)
               else (0, dma_get (umem s) uptr (ucount n), s)))"

definition uput :: "u8 list \<Rightarrow> u16 \<Rightarrow> kst \<Rightarrow> int \<times> kst" where
  "uput bs uptr s =
     (let n = length bs
      in if n < 50 then
           (let (m, r) = uwrite (legal s) uptr bs (umem s); s = s\<lparr>umem := m\<rparr>
            in if r then (0, s) else (1, set_error EFAULT s))
         else if \<not> legal s uptr then (1, set_error EFAULT s)
         else if page_no (uptr + of_nat n) = page_no uptr then (0, s\<lparr>umem := dma_put uptr bs (umem s)\<rparr>)
         else (let rest = page_rest uptr;
                   s = s\<lparr>umem := dma_put uptr (take (unat rest) bs) (umem s)\<rparr>
               in if \<not> legal s (uptr + rest) then (1, set_error EFAULT s)
                  else (0, s\<lparr>umem := dma_put (uptr + rest) (drop (unat rest) bs)
                               ((umem s)(uptr + rest := areg s))\<rparr>)))"

definition ugets :: "u16 \<Rightarrow> u16 \<Rightarrow> kst \<Rightarrow> int \<times> u8 list \<times> kst" where
  "ugets uptr n s =
     (let (bs, r) = ureads (legal s) (umem s) uptr (ucount n)
      in if r then (0, bs, s) else (1, bs, set_error EFAULT s))"

definition uputw :: "u16 \<Rightarrow> u16 \<Rightarrow> kst \<Rightarrow> kst" where
  "uputw w uptr s = snd (uput [lo8 w, hi8 w] uptr s)"

text \<open>After a fault the local variable of \<^verbatim>\<open>ugetw\<close> and \<^verbatim>\<open>ugetc\<close> keeps what the stack held, the argument
  \<open>junk\<close>.\<close>

definition ugetw :: "u16 \<Rightarrow> u16 \<Rightarrow> kst \<Rightarrow> u16 \<times> kst" where
  "ugetw junk uptr s = (let (r, bs, s) = uget uptr 2 s in (if r = 0 then le16 (bs ! 0) (bs ! 1) else junk, s))"

definition ugetc :: "u8 \<Rightarrow> u16 \<Rightarrow> kst \<Rightarrow> u8 \<times> kst" where
  "ugetc junk uptr s = (let (r, bs, s) = uget uptr 1 s in (if r = 0 then bs ! 0 else junk, s))"

definition uputc :: "u8 \<Rightarrow> u16 \<Rightarrow> kst \<Rightarrow> kst" where
  "uputc c uptr s = snd (uput [c] uptr s)"

end
