(* ===== verification/Layout.thy ===== *)
theory Layout
  imports State
begin

section \<open>On-disk layout: dinode, superblock, directory entry\<close>

text \<open>
  The byte layout of the structures the kernel copies between memory and disk blocks with
  \<^verbatim>\<open>bcopy\<close>: an inode (64 bytes, eight to a block), a superblock (222 bytes; the kernel writes the
  512 bytes of its memory that start there), a directory entry (16 bytes). Each encoding is proved
  to be inverted by its decoding.
\<close>

definition off_words :: "off_t \<Rightarrow> u16 list" where
  "off_words p = [o_blkno p, o_offset p]"

definition time_words :: "time_t \<Rightarrow> u16 list" where
  "time_words t = [t_time t, t_date t]"

subsection \<open>Inodes\<close>

definition dinode_words :: "dinode \<Rightarrow> u16 list" where
  "dinode_words n = [i_mode n, i_nlink n, i_uid n, i_gid n] @ off_words (i_size n) @ time_words (i_atime n) @
     time_words (i_mtime n) @ time_words (i_ctime n) @ i_addr n"

definition dinode_bytes :: "dinode \<Rightarrow> u8 list" where
  "dinode_bytes n = words_bytes (dinode_words n)"

definition words_dinode :: "u16 list \<Rightarrow> dinode" where
  "words_dinode ws = \<lparr>i_mode = ws ! 0, i_nlink = ws ! 1, i_uid = ws ! 2, i_gid = ws ! 3,
     i_size = \<lparr>o_blkno = ws ! 4, o_offset = ws ! 5\<rparr>, i_atime = \<lparr>t_time = ws ! 6, t_date = ws ! 7\<rparr>,
     i_mtime = \<lparr>t_time = ws ! 8, t_date = ws ! 9\<rparr>, i_ctime = \<lparr>t_time = ws ! 10, t_date = ws ! 11\<rparr>,
     i_addr = take 20 (drop 12 ws)\<rparr>"

definition bytes_dinode :: "u8 list \<Rightarrow> dinode" where
  "bytes_dinode bs = words_dinode (bytes_words bs)"

definition dinode_ok :: "dinode \<Rightarrow> bool" where
  "dinode_ok n \<longleftrightarrow> length (i_addr n) = 20"

lemma length_dinode_bytes: "dinode_ok n \<Longrightarrow> length (dinode_bytes n) = 64"
  by (simp add: dinode_bytes_def dinode_words_def off_words_def time_words_def dinode_ok_def)

lemma bytes_dinode_bytes: "dinode_ok n \<Longrightarrow> bytes_dinode (dinode_bytes n) = n"
  by (simp add: bytes_dinode_def dinode_bytes_def words_dinode_def dinode_words_def off_words_def
      time_words_def dinode_ok_def)

lemma bytes_dinode_ok: "length bs = 64 \<Longrightarrow> dinode_ok (bytes_dinode bs)"
  by (simp add: dinode_ok_def bytes_dinode_def words_dinode_def)

text \<open>Inode \<open>ino\<close> of a device is entry \<open>ino mod 8\<close> of block \<open>ino div 8 + 2\<close>.\<close>

definition ino_blk :: "u16 \<Rightarrow> u16" where
  "ino_blk ino = drop_bit 3 ino + 2"

definition ino_slot :: "u16 \<Rightarrow> nat" where
  "ino_slot ino = unat (ino AND 7)"

definition get_dinode :: "block \<Rightarrow> nat \<Rightarrow> dinode" where
  "get_dinode b j = bytes_dinode (take 64 (drop (64 * j) b))"

definition put_dinode :: "dinode \<Rightarrow> nat \<Rightarrow> block \<Rightarrow> block" where
  "put_dinode n j b = splice (64 * j) (dinode_bytes n) b"

lemma and_7: "(w :: u16) AND 7 = take_bit 3 w"
  by (simp add: take_bit_eq_mask mask_eq_exp_minus_1)

lemma ino_slot_less [simp]: "ino_slot ino < 8"
proof -
  have "unat (ino AND 7) = take_bit 3 (unat ino)" by (simp add: and_7 unsigned_take_bit_eq)
  also have "\<dots> < 2 ^ 3" by (rule take_bit_nat_less_exp)
  finally show ?thesis by (simp add: ino_slot_def)
qed

lemma length_put_dinode:
  "dinode_ok n \<Longrightarrow> j < 8 \<Longrightarrow> length b = 512 \<Longrightarrow> length (put_dinode n j b) = 512"
  by (simp add: put_dinode_def length_dinode_bytes)

lemma get_put_dinode:
  assumes "dinode_ok n" "j < 8" "k < 8" "length b = 512"
  shows "get_dinode (put_dinode n j b) k = (if k = j then n else get_dinode b k)"
proof -
  have len: "length (dinode_bytes n) = 64" by (rule length_dinode_bytes [OF assms(1)])
  show ?thesis
  proof (cases "k = j")
    case True
    have "take (length (dinode_bytes n)) (drop (64 * j) (splice (64 * j) (dinode_bytes n) b)) = dinode_bytes n"
      by (rule splice_same) (use assms len in simp)
    then show ?thesis
      using True assms(1) by (simp add: get_dinode_def put_dinode_def len bytes_dinode_bytes)
  next
    case False
    then have "64 * k + 64 \<le> 64 * j \<or> 64 * j + 64 \<le> 64 * k" by auto
    then have "take 64 (drop (64 * k) (splice (64 * j) (dinode_bytes n) b)) = take 64 (drop (64 * k) b)"
      by (intro splice_disjoint) (use assms len in auto)
    with False show ?thesis by (simp add: get_dinode_def put_dinode_def)
  qed
qed

lemma ino_place_inj:
  assumes "ino_blk a = ino_blk b" "ino_slot a = ino_slot b"
  shows "a = b"
proof -
  from assms(1) have "drop_bit 3 a = drop_bit 3 b" by (simp add: ino_blk_def)
  moreover from assms(2) have "a AND 7 = b AND 7" by (simp add: ino_slot_def word_unat_eq_iff)
  moreover have "x = push_bit 3 (drop_bit 3 x) + (x AND 7)" for x :: u16
    unfolding and_7 by (rule bits_ident [symmetric])
  ultimately show ?thesis by metis
qed

subsection \<open>Superblocks\<close>

definition fs_words :: "filesys \<Rightarrow> u16 list" where
  "fs_words f = [s_mounted f, s_isize f, s_fsize f, s_nfree f] @ s_free f @ [s_ninode f] @ s_inode f @
     [s_fmod f] @ time_words (s_time f) @ [s_tfree f, s_tinode f, s_mntpt f]"

definition fs_bytes :: "filesys \<Rightarrow> u8 list" where
  "fs_bytes f = words_bytes (fs_words f)"

definition words_fs :: "u16 list \<Rightarrow> filesys" where
  "words_fs ws = \<lparr>s_mounted = ws ! 0, s_isize = ws ! 1, s_fsize = ws ! 2, s_nfree = ws ! 3,
     s_free = take 50 (drop 4 ws), s_ninode = ws ! 54, s_inode = take 50 (drop 55 ws), s_fmod = ws ! 105,
     s_time = \<lparr>t_time = ws ! 106, t_date = ws ! 107\<rparr>, s_tfree = ws ! 108, s_tinode = ws ! 109,
     s_mntpt = ws ! 110\<rparr>"

definition bytes_fs :: "u8 list \<Rightarrow> filesys" where
  "bytes_fs bs = words_fs (bytes_words bs)"

definition fs_shape :: "filesys \<Rightarrow> bool" where
  "fs_shape f \<longleftrightarrow> length (s_free f) = 50 \<and> length (s_inode f) = 50"

lemma length_fs_bytes: "fs_shape f \<Longrightarrow> length (fs_bytes f) = 222"
  by (simp add: fs_bytes_def fs_words_def time_words_def fs_shape_def)

lemma bytes_fs_bytes:
  assumes "fs_shape f"
  shows "bytes_fs (fs_bytes f @ rest) = f"
proof -
  have "even (length (fs_bytes f))" by (simp add: length_fs_bytes [OF assms])
  then have "bytes_words (fs_bytes f @ rest) = fs_words f @ bytes_words rest"
    by (simp add: bytes_words_append) (simp add: fs_bytes_def)
  with assms show ?thesis
    by (simp add: bytes_fs_def words_fs_def fs_words_def time_words_def fs_shape_def nth_append)
qed

lemma bytes_fs_shape: "222 \<le> length bs \<Longrightarrow> fs_shape (bytes_fs bs)"
  by (simp add: fs_shape_def bytes_fs_def words_fs_def)

text \<open>
  The free list chunk that \<^verbatim>\<open>blk_free\<close> stores in a block and \<^verbatim>\<open>blk_alloc\<close> reads back:
  \<^verbatim>\<open>s_nfree\<close> and the 50 words of \<^verbatim>\<open>s_free\<close>, 102 bytes.
\<close>

definition chunk_bytes :: "filesys \<Rightarrow> u8 list" where
  "chunk_bytes f = words_bytes (s_nfree f # s_free f)"

definition load_chunk :: "block \<Rightarrow> filesys \<Rightarrow> filesys" where
  "load_chunk b f = f\<lparr>s_nfree := get16 b 0, s_free := take 50 (drop 1 (bytes_words b))\<rparr>"

lemma length_chunk_bytes: "fs_shape f \<Longrightarrow> length (chunk_bytes f) = 102"
  by (simp add: chunk_bytes_def fs_shape_def)

lemma load_chunk_splice:
  assumes "fs_shape g" "length b = 512"
  shows "load_chunk (splice 0 (chunk_bytes g) b) f = f\<lparr>s_nfree := s_nfree g, s_free := s_free g\<rparr>"
proof -
  have len: "length (chunk_bytes g) = 102" by (rule length_chunk_bytes [OF assms(1)])
  have s: "splice 0 (chunk_bytes g) b = lo8 (s_nfree g) # hi8 (s_nfree g) # words_bytes (s_free g) @ drop 102 b"
    using assms(1) by (simp add: splice_def chunk_bytes_def fs_shape_def)
  have w: "bytes_words (words_bytes (s_free g) @ drop 102 b) = s_free g @ bytes_words (drop 102 b)"
    using assms(1) by (subst bytes_words_append) (simp_all add: fs_shape_def)
  show ?thesis using assms(1) by (simp add: load_chunk_def s get16_def w fs_shape_def)
qed

text \<open>The kernel's memory from \<^verbatim>\<open>fs_tab\<close> on: what \<^verbatim>\<open>bcopy(fs_tab + j, buf, 512)\<close> copies.\<close>

definition cinode_bytes :: "cinode \<Rightarrow> u8 list" where
  "cinode_bytes c = words_bytes [c_magic c, word_of_int (c_dev c), c_num c] @ dinode_bytes (c_node c) @
     [c_refs c, c_dirty c]"

definition tables_image :: "kst \<Rightarrow> u8 list" where
  "tables_image s = concat (map fs_bytes (fs_tab s)) @ concat (map cinode_bytes (i_tab s))"

definition super_image :: "nat \<Rightarrow> kst \<Rightarrow> block" where
  "super_image j s = take 512 (drop (222 * j) (tables_image s))"

subsection \<open>Directory entries\<close>

record direct =
  d_ino :: u16
  d_name :: "u8 list"

definition direct_bytes :: "direct \<Rightarrow> u8 list" where
  "direct_bytes d = lo8 (d_ino d) # hi8 (d_ino d) # d_name d"

definition bytes_direct :: "u8 list \<Rightarrow> direct" where
  "bytes_direct bs = \<lparr>d_ino = le16 (bs ! 0) (bs ! 1), d_name = take 14 (drop 2 bs)\<rparr>"

definition dir_entry :: "block \<Rightarrow> nat \<Rightarrow> direct" where
  "dir_entry b j = bytes_direct (take 16 (drop (16 * j) b))"

lemma bytes_direct_bytes: "length (d_name d) = 14 \<Longrightarrow> bytes_direct (direct_bytes d) = d"
  by (simp add: bytes_direct_def direct_bytes_def)

end
