(* ===== verification/Sched.thy ===== *)
theory Sched
  imports State
begin

section \<open>Sleeping, waking and signalling: PROCESS.C, PROCASM.C\<close>

text \<open>
  \<^verbatim>\<open>psleep\<close>, \<^verbatim>\<open>wakeup\<close> (the assembly version of PROCASM.C, which is the one compiled), \<^verbatim>\<open>ssig\<close> and
  \<^verbatim>\<open>sgrpsig\<close>. \<^verbatim>\<open>swapout\<close> saves the context, runs the other processes and comes back when the
  scheduler picks this one again; what they do to the shared state is not known here, so it is the
  argument \<open>swp\<close> of every routine that can sleep, and \<open>None\<close> is never coming back.
\<close>

type_synonym switch = "kst \<Rightarrow> kst option"

definition procp :: "nat \<Rightarrow> kst \<Rightarrow> p_tab" where
  "procp p s = ptab s ! p"

definition sigmask :: "u16 \<Rightarrow> u16" where
  "sigmask sig = push_bit (unat sig) 1"

definition wake1 :: "event \<Rightarrow> p_tab \<Rightarrow> p_tab" where
  "wake1 ev p = (if P_READY \<le> p_status p \<and> p_status p < P_ZOMBIE2 \<and> p_wait p = ev
     then p\<lparr>p_wait := NoEvent, p_status := P_READY\<rparr> else p)"

definition wakeup :: "event \<Rightarrow> kst \<Rightarrow> kst" where
  "wakeup ev s = s\<lparr>ptab := map (wake1 ev) (ptab s)\<rparr>"

text \<open>The C version of \<^verbatim>\<open>wakeup\<close> in PROCESS.C, compiled only with \<^verbatim>\<open>C_WAKEUP\<close>.\<close>

definition wake1_c :: "event \<Rightarrow> p_tab \<Rightarrow> p_tab" where
  "wake1_c ev p = (if p_wait p = ev \<and> p_status p \<noteq> P_ZOMBIE2 \<and> p_status p > P_RUNNING
     then p\<lparr>p_status := P_READY, p_wait := NoEvent\<rparr> else p)"

definition psleep :: "switch \<Rightarrow> event \<Rightarrow> kst \<Rightarrow> kst option" where
  "psleep swp ev s =
     (let p = u_ptab s
      in if p_status (procp p s) \<noteq> P_RUNNING then panic ''psleep: voodoo''
         else let st = (if ev = NoEvent then P_PAUSE else if ev = EvPtab p then P_WAIT else P_SLEEP);
                  s = upd_proc p (\<lambda>q. q\<lparr>p_status := st, p_wait := ev\<rparr>) s;
                  s = s\<lparr>waitno := waitno s + 1\<rparr>;
                  s = upd_proc p (\<lambda>q. q\<lparr>p_waitno := waitno s\<rparr>) s
              in swp s)"

definition ssig1 :: "u16 \<Rightarrow> p_tab \<Rightarrow> p_tab" where
  "ssig1 sig p =
     (if p_status p = P_EMPTY then p
      else if p_status p = P_ZOMBIE2 then p
      else if p_ignored p AND sigmask sig \<noteq> 0 then p
      else let st = p_status p;
               p = (if st = P_PAUSE \<or> st = P_WAIT \<or> st = P_SLEEP then p\<lparr>p_status := P_READY\<rparr> else p)
           in p\<lparr>p_wait := NoEvent, p_pending := p_pending p OR sigmask sig\<rparr>)"

definition ssig :: "nat \<Rightarrow> u16 \<Rightarrow> kst \<Rightarrow> kst" where
  "ssig p sig = upd_proc p (ssig1 sig)"

definition sgrpsig :: "u8 \<Rightarrow> u16 \<Rightarrow> kst \<Rightarrow> kst" where
  "sgrpsig tty sig s = s\<lparr>ptab := map (\<lambda>p. if p_status p \<noteq> P_EMPTY \<and> p_status p \<noteq> P_ZOMBIE2 \<and> p_tty p = tty
     then ssig1 sig p else p) (ptab s)\<rparr>"

end
