(* ===== verification/Inode.thy ===== *)
theory Inode
  imports Layout Sched
begin

section \<open>Blocks and inodes of a mounted file system: FILESYS.C\<close>

text \<open>
  Allocation of blocks and inode numbers from the in-core superblocks \<open>fs_tab\<close>, the inode table
  \<open>i_tab\<close> with its reference counts, and the map from a file's logical blocks to disk blocks. The
  superblock's free list is a stack: the top up to 50 numbers are in \<open>s_free\<close>, and the block under
  them holds the next 50 (\<open>load_chunk\<close>, \<open>chunk_bytes\<close>).
\<close>

subsection \<open>Superblocks\<close>

definition getdev :: "int \<Rightarrow> kst \<Rightarrow> kst option" where
  "getdev devno s =
     (if devno < 0 \<or> devno \<ge> int NDEVS \<or> s_mounted (fsp devno s) = 0 then panic ''getdev: bad dev''
      else Some (upd_fs devno (\<lambda>f. f\<lparr>s_time := rdtime s, s_fmod := 1\<rparr>) s))"

definition baddev :: "int \<Rightarrow> kst \<Rightarrow> bool" where
  "baddev devno s \<longleftrightarrow> s_mounted (fsp devno s) \<noteq> SMOUNTED"

definition validblk :: "int \<Rightarrow> u16 \<Rightarrow> kst \<Rightarrow> unit option" where
  "validblk dev num s =
     (let f = fsp dev s
      in if s_mounted f = 0 then panic ''validblk: not mounted''
         else if num < s_isize f \<or> num \<ge> s_fsize f then panic ''validblk: invalid blk''
         else Some ())"

text \<open>The exit \<^verbatim>\<open>corrupt:\<close> of both allocators (the warning on the console is not modelled).\<close>

definition fs_corrupt :: "int \<Rightarrow> kst \<Rightarrow> u16 \<times> kst" where
  "fs_corrupt devno s = (0, set_error ENOSPC (upd_fs devno (\<lambda>f. f\<lparr>s_mounted := 1\<rparr>) s))"

definition blk_alloc :: "int \<Rightarrow> kst \<Rightarrow> (u16 \<times> kst) option" where
  "blk_alloc devno s = do {
     s \<leftarrow> getdev devno s;
     if baddev devno s then Some (0, set_error ENOSPC s)
     else if sint (s_nfree (fsp devno s)) \<le> 0 \<or> sint (s_nfree (fsp devno s)) > 50 then Some (fs_corrupt devno s)
     else do {
       let s = upd_fs devno (\<lambda>f. f\<lparr>s_nfree := s_nfree f - 1\<rparr>) s;
       let newno = s_free (fsp devno s) ! unat (s_nfree (fsp devno s));
       if newno = 0 then
         (if s_tfree (fsp devno s) \<noteq> 0 then Some (fs_corrupt devno s)
          else Some (0, upd_fs devno (\<lambda>f. f\<lparr>s_nfree := s_nfree f + 1\<rparr>) (set_error ENOSPC s)))
       else do {
         s \<leftarrow> (if s_nfree (fsp devno s) = 0 then do {
                 (b, s) \<leftarrow> breadp devno newno False s;
                 brelse b (upd_fs devno (load_chunk (buf_data b s)) s) }
               else Some s);
         validblk devno newno s;
         if s_tfree (fsp devno s) = 0 then Some (fs_corrupt devno s)
         else do {
           let s = upd_fs devno (\<lambda>f. f\<lparr>s_tfree := s_tfree f - 1\<rparr>) s;
           (b, s) \<leftarrow> breadp devno newno True s;
           s \<leftarrow> bawrite b (set_data b (replicate 512 0) s);
           Some (newno, s) } } } }"

definition blk_free :: "int \<Rightarrow> u16 \<Rightarrow> kst \<Rightarrow> kst option" where
  "blk_free devno blk s =
     (if blk = 0 then Some s
      else do {
        s \<leftarrow> getdev devno s;
        if baddev devno s then Some s
        else do {
          validblk devno blk s;
          s \<leftarrow> (if s_nfree (fsp devno s) = 50 then do {
                  (b, s) \<leftarrow> breadp devno blk True s;
                  s \<leftarrow> bawrite b (set_data b (splice 0 (chunk_bytes (fsp devno s)) (buf_data b s)) s);
                  Some (upd_fs devno (\<lambda>f. f\<lparr>s_nfree := 0\<rparr>) s) }
                else Some s);
          let s = upd_fs devno (\<lambda>f. f\<lparr>s_tfree := s_tfree f + 1\<rparr>) s;
          let n = s_nfree (fsp devno s);
          if unat n < 50 then
            Some (upd_fs devno (\<lambda>f. f\<lparr>s_free := (s_free f)[unat n := blk], s_nfree := n + 1\<rparr>) s)
          else wild } })"

subsection \<open>Writing inodes back\<close>

definition wr_inode :: "nat \<Rightarrow> kst \<Rightarrow> kst option" where
  "wr_inode ino s = do {
     magic ino s;
     let c = inop ino s;
     (b, s) \<leftarrow> breadp (c_dev c) (ino_blk (c_num c)) False s;
     (_, s) \<leftarrow> bfree b 2 (set_data b (put_dinode (c_node (inop ino s)) (ino_slot (c_num c)) (buf_data b s)) s);
     Some (upd_ino ino (\<lambda>c. c\<lparr>c_dirty := 0\<rparr>) s) }"

definition sync_ino :: "nat \<Rightarrow> kst \<Rightarrow> kst option" where
  "sync_ino k s =
     (if sint (c_refs (inop k s)) > 0 \<and> c_dirty (inop k s) \<noteq> 0 then
        do { s \<leftarrow> wr_inode k s; Some (upd_ino k (\<lambda>c. c\<lparr>c_dirty := 0\<rparr>) s) }
      else Some s)"

definition sync_fs :: "nat \<Rightarrow> kst \<Rightarrow> kst option" where
  "sync_fs j s =
     (let dev = int j
      in if s_mounted (fsp dev s) = SMOUNTED \<and> s_fmod (fsp dev s) \<noteq> 0 then do {
           let s = upd_fs dev (\<lambda>f. f\<lparr>s_fmod := 0\<rparr>) s;
           (b, s) \<leftarrow> breadp dev 1 True s;
           (_, s) \<leftarrow> bfree b 2 (set_data b (super_image j s) s);
           Some s }
         else Some s)"

definition sys_sync :: "kst \<Rightarrow> kst option" where
  "sys_sync s = do {
     s \<leftarrow> foldM sync_ino [0..<ITABSIZE] s;
     s \<leftarrow> foldM sync_fs [0..<NDEVS] s;
     s \<leftarrow> bufsync s;
     Some (if u_insys s \<noteq> 0 \<and> in_casync (hd s) \<noteq> 1 then s\<lparr>hd := ca_sync (hd s)\<rparr> else s) }"

subsection \<open>Inode numbers\<close>

text \<open>\<open>ino_valid\<close>: \<^verbatim>\<open>ino < 2 || ino >= (dev->s_isize-2)*8\<close> is false, with 16-bit arithmetic.\<close>

definition ino_bad :: "u16 \<Rightarrow> filesys \<Rightarrow> bool" where
  "ino_bad ino f \<longleftrightarrow> ino \<ge> (s_isize f - 2) * 8"

definition ialloc_take :: "int \<Rightarrow> kst \<Rightarrow> (u16 \<times> kst) option" where
  "ialloc_take devno s =
     (if s_tinode (fsp devno s) = 0 then Some (fs_corrupt devno s)
      else let s = upd_fs devno (\<lambda>f. f\<lparr>s_ninode := s_ninode f - 1\<rparr>) s;
               n = unat (s_ninode (fsp devno s))
           in if n \<ge> 50 then wild
              else let ino = s_inode (fsp devno s) ! n
                   in if ino < 2 \<or> ino_bad ino (fsp devno s) then Some (fs_corrupt devno s)
                      else Some (ino, upd_fs devno (\<lambda>f. f\<lparr>s_tinode := s_tinode f - 1\<rparr>) s))"

definition note_free :: "block \<Rightarrow> u16 \<Rightarrow> nat \<Rightarrow> nat \<times> u16 list \<Rightarrow> nat \<times> u16 list" where
  "note_free b blk j acc =
     (case acc of (k, tab) \<Rightarrow>
        if k = 50 then acc
        else let n = get_dinode b j
             in if \<not> (i_mode n \<noteq> 0 \<or> i_nlink n \<noteq> 0) then (k + 1, tab[k := 8 * (blk - 2) + of_nat j]) else acc)"

fun ialloc_scan :: "int \<Rightarrow> u16 list \<Rightarrow> nat \<Rightarrow> kst \<Rightarrow> (nat \<times> kst) option" where
  "ialloc_scan devno [] k s = Some (k, s)"
| "ialloc_scan devno (blk # blks) k s = do {
     (b, s) \<leftarrow> breadp devno blk False s;
     let (k, tab) = fold (note_free (buf_data b s) blk) [0..<8] (k, s_inode (fsp devno s));
     s \<leftarrow> brelse b (upd_fs devno (\<lambda>f. f\<lparr>s_inode := tab\<rparr>) s);
     if k = 50 then Some (k, s) else ialloc_scan devno blks k s }"

definition i_alloc :: "int \<Rightarrow> kst \<Rightarrow> (u16 \<times> kst) option" where
  "i_alloc devno s = do {
     s \<leftarrow> getdev devno s;
     if baddev devno s then Some (fs_corrupt devno s)
     else if s_ninode (fsp devno s) \<noteq> 0 then ialloc_take devno s
     else do {
       s \<leftarrow> sys_sync s;
       (k, s) \<leftarrow> ialloc_scan devno (map of_nat [2..<unat (s_isize (fsp devno s))]) 0 s;
       if k = 0 then
         (if s_tinode (fsp devno s) \<noteq> 0 then Some (fs_corrupt devno s) else Some (0, set_error ENOSPC s))
       else ialloc_take devno (upd_fs devno (\<lambda>f. f\<lparr>s_ninode := of_nat k\<rparr>) s) } }"

definition i_free :: "int \<Rightarrow> u16 \<Rightarrow> kst \<Rightarrow> kst option" where
  "i_free devno ino s = do {
     s \<leftarrow> getdev devno s;
     if baddev devno s then Some s
     else if ino < 2 \<or> ino_bad ino (fsp devno s) then panic ''i_free: bad ino''
     else do {
       let s = upd_fs devno (\<lambda>f. f\<lparr>s_tinode := s_tinode f + 1\<rparr>) s;
       let n = s_ninode (fsp devno s);
       if sint n < 50 then
         (if sint n < 0 then wild
          else Some (upd_fs devno (\<lambda>f. f\<lparr>s_inode := (s_inode f)[unat n := ino], s_ninode := n + 1\<rparr>) s))
       else Some s } }"

subsection \<open>The inode table\<close>

definition i_ref :: "nat \<Rightarrow> kst \<Rightarrow> kst option" where
  "i_ref ino s =
     (let s = upd_ino ino (\<lambda>c. c\<lparr>c_refs := c_refs c + 1\<rparr>) s
      in if c_refs (inop ino s) = 2 * of_nat ITABSIZE then panic ''too many i-refs'' else Some s)"

text \<open>The search loop of \<^verbatim>\<open>i_open\<close>: \<open>j\<close> runs once around the table from the entry after \<open>nexti\<close>; the
  result is whether the inode was found, the entry (found, or the last unreferenced one) and the
  new \<open>nexti\<close>.\<close>

fun i_search :: "int \<Rightarrow> u16 \<Rightarrow> nat \<Rightarrow> nat \<Rightarrow> nat option \<Rightarrow> nat \<Rightarrow> kst \<Rightarrow> bool \<times> nat option \<times> nat" where
  "i_search dev ino 0 j nindex nxt s = (False, nindex, nxt)"
| "i_search dev ino (Suc n) j nindex nxt s =
     (let nxt = j;
          j = (if j + 1 \<ge> ITABSIZE then 0 else j + 1);
          c = inop j s;
          nindex = (if c_refs c = 0 then Some j else nindex)
      in if c_dev c = dev \<and> c_num c = ino then (True, Some j, nxt)
         else i_search dev ino n j nindex nxt s)"

definition i_open_found :: "bool \<Rightarrow> nat \<Rightarrow> kst \<Rightarrow> nat option \<times> kst" where
  "i_open_found new k s =
     (let n = c_node (inop k s);
          bad = (if new then i_nlink n \<noteq> 0 \<or> i_mode n AND F_MASK \<noteq> 0
                 else \<not> (i_nlink n \<noteq> 0 \<and> i_mode n AND F_MASK \<noteq> 0))
      in if bad then (None, s)
         else (Some k, upd_ino k (\<lambda>c. c\<lparr>c_refs := c_refs c + 1\<rparr>) s))"

definition i_open :: "int \<Rightarrow> u16 \<Rightarrow> kst \<Rightarrow> (nat option \<times> kst) option" where
  "i_open dev ino s =
     (if dev < 0 \<or> dev \<ge> int NDEVS then panic ''i_open: Bad dev''
      else do {
        let new = (ino = 0);
        (ino, s) \<leftarrow> (if new then i_alloc dev s else Some (ino, s));
        if new \<and> ino = 0 then Some (None, set_error ENOSPC s)
        else if ino < ROOTINODE \<or> ino_bad ino (fsp dev s) then Some (None, s)
        else do {
          let (found, nindex, nxt) = i_search dev ino ITABSIZE (nexti s) None (nexti s) s;
          let s = s\<lparr>nexti := nxt\<rparr>;
          (case nindex of
             None \<Rightarrow> Some (None, set_error ENFILE s)
           | Some k \<Rightarrow>
               if found then Some (i_open_found new k s)
               else do {
                 (b, s) \<leftarrow> breadp dev (ino_blk ino) False s;
                 let s = upd_ino k (\<lambda>c. c\<lparr>c_node := get_dinode (buf_data b s) (ino_slot ino)\<rparr>) s;
                 s \<leftarrow> brelse b s;
                 let s = upd_ino k (\<lambda>c. c\<lparr>c_dev := dev, c_num := ino, c_magic := CMAGIC\<rparr>) s;
                 Some (i_open_found new k s) }) } })"

subsection \<open>Truncation and release\<close>

primrec freeblk :: "nat \<Rightarrow> int \<Rightarrow> u16 \<Rightarrow> kst \<Rightarrow> kst option" where
  "freeblk 0 dev blk s = (if blk = 0 then Some s else blk_free dev blk s)"
| "freeblk (Suc level) dev blk s =
     (if blk = 0 then Some s
      else do {
        (b, s) \<leftarrow> breadp dev blk False s;
        s \<leftarrow> foldM (\<lambda>j s. freeblk level dev (get16 (buf_data b s) j) s) (rev [0..<256]) s;
        s \<leftarrow> brelse b s;
        blk_free dev blk s })"

definition f_trunc :: "nat \<Rightarrow> kst \<Rightarrow> kst option" where
  "f_trunc ino s = do {
     let dev = c_dev (inop ino s);
     s \<leftarrow> freeblk 2 dev (i_addr (c_node (inop ino s)) ! 19) s;
     s \<leftarrow> freeblk 1 dev (i_addr (c_node (inop ino s)) ! 18) s;
     s \<leftarrow> foldM (\<lambda>j s. freeblk 0 dev (i_addr (c_node (inop ino s)) ! j) s) (rev [0..<18]) s;
     let s = upd_node ino (\<lambda>n. n\<lparr>i_addr := replicate 20 0\<rparr>) s;
     let s = upd_ino ino (\<lambda>c. c\<lparr>c_dirty := 1\<rparr>) s;
     Some (upd_node ino (\<lambda>n. n\<lparr>i_size := \<lparr>o_blkno = 0, o_offset = 0\<rparr>\<rparr>) s) }"

definition i_deref :: "nat \<Rightarrow> kst \<Rightarrow> kst option" where
  "i_deref ino s = do {
     magic ino s;
     if c_refs (inop ino s) = 0 then panic ''inode freed.''
     else do {
       let s = (if getmode ino s = F_PIPE then wakeup (EvIno ino) s else s);
       let s = upd_ino ino (\<lambda>c. c\<lparr>c_refs := c_refs c - 1\<rparr>) s;
       s \<leftarrow> (if \<not> (c_refs (inop ino s) \<noteq> 0 \<or> i_nlink (c_node (inop ino s)) \<noteq> 0) \<and>
                (getmode ino s = F_REG \<or> getmode ino s = F_DIR \<or> getmode ino s = F_PIPE)
             then f_trunc ino s else Some s);
       if c_refs (inop ino s) = 0 \<and> c_dirty (inop ino s) \<noteq> 0 then do {
         s \<leftarrow> (if i_nlink (c_node (inop ino s)) = 0 then
                 i_free (c_dev (inop ino s)) (c_num (inop ino s)) (upd_node ino (\<lambda>n. n\<lparr>i_mode := 0\<rparr>) s)
               else Some s);
         wr_inode ino s }
       else Some s } }"

text \<open>\<open>i_deref\<close> on a pointer that may be NULL, and on one decoded from \<^verbatim>\<open>s_mntpt\<close>.\<close>

definition deref_ptr :: "nat option \<Rightarrow> kst \<Rightarrow> kst option" where
  "deref_ptr p s = (case p of None \<Rightarrow> wild | Some k \<Rightarrow> i_deref k s)"

subsection \<open>The block map of a file\<close>

fun bmap_walk :: "int \<Rightarrow> u16 \<Rightarrow> bool \<Rightarrow> nat list \<Rightarrow> u16 \<Rightarrow> kst \<Rightarrow> (u16 \<times> kst) option" where
  "bmap_walk dev bn rd [] nb s = Some (nb, s)"
| "bmap_walk dev bn rd (sh # shs) nb s = do {
     (b, s) \<leftarrow> breadp dev nb False s;
     let i = unat (drop_bit sh bn AND 0xFF);
     let nb = get16 (buf_data b s) i;
     if nb \<noteq> 0 then do { s \<leftarrow> brelse b s; bmap_walk dev bn rd shs nb s }
     else if rd then do { s \<leftarrow> brelse b s; Some (NULLBLK, s) }
     else do {
       (nb, s) \<leftarrow> blk_alloc dev s;
       if nb = 0 then do { s \<leftarrow> brelse b s; Some (NULLBLK, s) }
       else do {
         s \<leftarrow> bawrite b (set_data b (set16 (buf_data b s) i nb) s);
         bmap_walk dev bn rd shs nb s } } }"

definition set_iaddr :: "nat \<Rightarrow> nat \<Rightarrow> u16 \<Rightarrow> kst \<Rightarrow> kst" where
  "set_iaddr ip i nb s =
     upd_ino ip (\<lambda>c. c\<lparr>c_dirty := 1\<rparr>) (upd_node ip (\<lambda>n. n\<lparr>i_addr := (i_addr n)[i := nb]\<rparr>) s)"

definition bmap :: "nat \<Rightarrow> u16 \<Rightarrow> bool \<Rightarrow> kst \<Rightarrow> (u16 \<times> kst) option" where
  "bmap ip bn rd s =
     (if getmode ip s = F_BDEV then Some (bn, s)
      else let dev = c_dev (inop ip s)
           in if bn < 18 then
                (let nb = i_addr (c_node (inop ip s)) ! unat bn
                 in if nb \<noteq> 0 then Some (nb, s)
                    else if rd then Some (NULLBLK, s)
                    else do {
                      (nb, s) \<leftarrow> blk_alloc dev s;
                      if nb = 0 then Some (NULLBLK, s) else Some (nb, set_iaddr ip (unat bn) nb s) })
              else
                (let bn = bn - 18;
                     dbl = (bn AND 0xFF00 \<noteq> 0);
                     shs = (if dbl then [8, 0] else [0]);
                     slot = (if dbl then 19 else 18);
                     bn = (if dbl then bn - 256 else bn);
                     nb = i_addr (c_node (inop ip s)) ! slot
                 in if nb \<noteq> 0 then bmap_walk dev bn rd shs nb s
                    else if rd then Some (NULLBLK, s)
                    else do {
                      (nb, s) \<leftarrow> blk_alloc dev s;
                      if nb = 0 then Some (NULLBLK, s)
                      else bmap_walk dev bn rd shs nb (set_iaddr ip slot nb s) }))"

end
