(* ===== verification/Sample.thy ===== *)
theory Sample
  imports Inode
begin

section \<open>A concrete kernel state\<close>

text \<open>
  A booted kernel at rest, on which the witnesses of the properties evaluate: empty buffer pool and
  disk cache, one mounted file system on disk 0 with one free block and two free inode numbers, the
  root directory's inode referenced as the working directory of process 0, no open file, and user
  memory in the first page. \<open>ttydflt\<close> is the initialised variable of DEVTTY.C.
\<close>

definition time0 :: time_t where
  "time0 = \<lparr>t_time = 0, t_date = 0\<rparr>"

definition off0 :: off_t where
  "off0 = \<lparr>o_blkno = 0, o_offset = 0\<rparr>"

definition ttydflt :: tty_data where
  "ttydflt = \<lparr>t_ispeed = 0, t_ospeed = 0, t_erase = 8, t_kill = 0x18, t_flags = 0xC18, t_intr = 3,
     t_quit = 0x1C, t_start = 0x11, t_stop = 0x13, t_eof = 4, ctl_char = 0\<rparr>"

definition sample_fs :: filesys where
  "sample_fs = \<lparr>s_mounted = SMOUNTED, s_isize = 10, s_fsize = 100, s_nfree = 2,
     s_free = [0, 12] @ replicate 48 0, s_ninode = 2, s_inode = [5, 9] @ replicate 48 0, s_fmod = 0,
     s_time = time0, s_tfree = 1, s_tinode = 2, s_mntpt = 0\<rparr>"

definition no_fs :: filesys where
  "no_fs = \<lparr>s_mounted = 0, s_isize = 0, s_fsize = 0, s_nfree = 0, s_free = replicate 50 0, s_ninode = 0,
     s_inode = replicate 50 0, s_fmod = 0, s_time = time0, s_tfree = 0, s_tinode = 0, s_mntpt = 0\<rparr>"

definition no_node :: dinode where
  "no_node = \<lparr>i_mode = 0, i_nlink = 0, i_uid = 0, i_gid = 0, i_size = off0, i_atime = time0, i_mtime = time0,
     i_ctime = time0, i_addr = replicate 20 0\<rparr>"

definition no_ino :: cinode where
  "no_ino = \<lparr>c_magic = 0, c_dev = 0, c_num = 0, c_node = no_node, c_refs = 0, c_dirty = 0\<rparr>"

definition root_ino :: cinode where
  "root_ino = \<lparr>c_magic = CMAGIC, c_dev = 0, c_num = 1,
     c_node = no_node\<lparr>i_mode := 0x41ED, i_nlink := 2\<rparr>, c_refs = 2, c_dirty = 0\<rparr>"

definition no_oft :: oft where
  "no_oft = \<lparr>o_ptr = off0, o_inode = None, o_access = 0, o_refs = 0\<rparr>"

definition no_proc :: p_tab where
  "no_proc = \<lparr>p_status = P_EMPTY, p_tty = 0, p_pid = 0, p_uid = 0, p_pptr = None, p_alarm = 0, p_exitval = 0,
     p_wait = NoEvent, p_swap = 0, p_priority = 0, p_pending = 0, p_ignored = 0, p_ublk = None, p_waitno = 0,
     p_inode = 0, p_idev = 0, p_idate = time0, p_bintype = 0, p_fork_inf = 0\<rparr>"

definition init_proc :: p_tab where
  "init_proc = no_proc\<lparr>p_status := P_RUNNING, p_tty := 5, p_pid := 1, p_pptr := Some 0, p_priority := 15\<rparr>"

definition sample :: kst where
  "sample = \<lparr>bufpool = replicate 38 \<lparr>bf_data = blank, bf_dev = - 1, bf_blk = 0, bf_dirty = 0, bf_busy = False, bf_time = 0\<rparr>,
     bufclock = 0,
     hd = hd0,
     u_error = NOERR,
     u_buf = 0,
     fs_tab = [sample_fs, no_fs, no_fs, no_fs],
     i_tab = root_ino # replicate 44 no_ino,
     nexti = 0,
     of_tab = replicate 45 no_oft,
     root = Some 0,
     ROOTDEV = 0,
     ptab = init_proc # replicate 29 no_proc,
     initproc = Some 0,
     nextpid = 1,
     waitno = 0,
     tod = \<lparr>t_time = 7, t_date = 9\<rparr>,
     ticks = time0,
     sec = 0,
     runticks = 0,
     inint = 0,
     sec_counter = 0,
     u_ptab = 0,
     u_insys = 1,
     u_callno = 0,
     u_retval = 0,
     u_cursig = 0,
     u_argn = 0,
     u_argn1 = 0,
     u_argn2 = 0,
     u_argn3 = 0,
     u_base = 0,
     u_count = 0,
     u_offset = \<lparr>o_blkno = 0, o_offset = 0\<rparr>,
     u_sysio = False,
     u_gid = 0,
     u_euid = 0,
     u_egid = 0,
     u_mask = 0x12,
     u_time = time0,
     u_files = replicate 22 0xFF,
     u_cwd = Some 0,
     u_break = 0,
     u_sigvec = replicate 16 0,
     u_utime = time0,
     u_stime = time0,
     u_cutime = time0,
     u_cstime = time0,
     umem = (\<lambda>a. 0),
     upages = True # replicate 7 False,
     areg = 0,
     sysbuf = replicate 16 0,
     ttydata = replicate 7 ttydflt,
     ttyinq = map (\<lambda>n. \<lparr>q_base = replicate n 0, q_head = 0, q_tail = 0, q_size = n, q_count = 0, q_wakeup = n div 2\<rparr>) [0, 40, 40, 40, 40, 1536, 40],
     stopflag = replicate 7 False,
     flshflag = replicate 7 False,
     fast_mode = False,
     cur_win = 1,
     last_win = 1,
     uart_out = [],
     lop = False,
     usp_reg = 0xFF00,
     u_usp = 0xFF00,
     u_retloc = 0,
     low_times = (time0, time0),
     sched_pp = 0,
     lcnt = 0\<rparr>"

lemma sample_quiet: "quiet sample"
  by (auto simp: quiet_def pool_ok_def sample_def hd0_ok busyset_def distinct_names_def bufp_def buf_inv_def
      blank_def disk_dev_def)

lemma sample_fs0: "fsp 0 sample = sample_fs" "length (fs_tab sample) = 4" "u_error sample = NOERR"
  by (simp_all add: fsp_def sample_def)

end
