(* ===== verification/Tty.thy ===== *)
theory Tty
  imports Sample
begin

section \<open>The terminal driver: DEVTTY.C\<close>

text \<open>
  The line discipline (\<^verbatim>\<open>tinproc\<close>, run by the receive interrupt), the read, write, open, close and
  ioctl routines. In this configuration there is one terminal, the serial line with minor number 5,
  and no window system; \<^verbatim>\<open>_putc\<close> to any other minor does nothing. A call that waits for input may
  never return: the waiting loops are partial functions, and \<open>None\<close> is not returning.
\<close>

definition RAW :: u16 where "RAW = 0x20"
definition CRMOD :: u16 where "CRMOD = 0x10"
definition ECHO :: u16 where "ECHO = 0x8"
definition CBREAK :: u16 where "CBREAK = 0x2"
definition COOKED :: u16 where "COOKED = 0"
definition SIGINT :: u16 where "SIGINT = 2"
definition SIGQUIT :: u16 where "SIGQUIT = 3"

subsection \<open>Output\<close>

definition tty_putc :: "u16 \<Rightarrow> u16 \<Rightarrow> kst \<Rightarrow> kst" where
  "tty_putc minor c s = (if minor = 5 then s\<lparr>uart_out := uart_out s @ [ucast c]\<rparr> else s)"

definition ttyp :: "u16 \<Rightarrow> kst \<Rightarrow> tty_data" where
  "ttyp minor s = ttydata s ! unat minor"

definition ttyq_of :: "u16 \<Rightarrow> kst \<Rightarrow> s_queue" where
  "ttyq_of minor s = ttyinq s ! unat minor"

definition set_q :: "u16 \<Rightarrow> s_queue \<Rightarrow> kst \<Rightarrow> kst" where
  "set_q minor q s = s\<lparr>ttyinq := (ttyinq s)[unat minor := q]\<rparr>"

definition echo :: "u16 \<Rightarrow> u16 \<Rightarrow> kst \<Rightarrow> kst" where
  "echo minor c s = (if t_flags (ttyp minor s) AND ECHO \<noteq> 0 then tty_putc minor c s else s)"

definition rubout :: "u16 \<Rightarrow> kst \<Rightarrow> kst" where
  "rubout minor s = echo minor 8 (echo minor 0x20 (echo minor 8 s))"

subsection \<open>Input\<close>

definition tin_erase :: "u16 \<Rightarrow> kst \<Rightarrow> kst" where
  "tin_erase minor s =
     (case uninsq (ttyq_of minor s) of
        (None, q) \<Rightarrow> s
      | (Some oc, q) \<Rightarrow>
          if oc = 10 then set_q minor (snd (insq oc q)) s else rubout minor (set_q minor q s))"

text \<open>The loop of the line-kill character; \<open>n\<close> bounds the characters left in the queue.\<close>

fun tin_kill :: "nat \<Rightarrow> u16 \<Rightarrow> kst \<Rightarrow> kst" where
  "tin_kill 0 minor s = s"
| "tin_kill (Suc n) minor s =
     (case uninsq (ttyq_of minor s) of
        (None, q) \<Rightarrow> s
      | (Some oc, q) \<Rightarrow>
          if oc = 10 then set_q minor (snd (insq oc q)) s
          else tin_kill n minor (rubout minor (set_q minor q s)))"

definition tin_signal :: "u16 \<Rightarrow> u16 \<Rightarrow> kst \<Rightarrow> kst" where
  "tin_signal minor sig s =
     (let s = sgrpsig (ucast minor) sig s;
          s = set_q minor (clrq (ttyq_of minor s)) s
      in s\<lparr>stopflag := (stopflag s)[unat minor := False], flshflag := (flshflag s)[unat minor := False]\<rparr>)"

definition tin_store :: "u16 \<Rightarrow> u16 \<Rightarrow> u16 \<Rightarrow> u16 \<Rightarrow> kst \<Rightarrow> kst" where
  "tin_store minor mode temp_win c s =
     (let s = (if c = 10 \<and> t_flags (ttyp minor s) AND CRMOD \<noteq> 0 then echo minor 13 s else s);
          (ok, q) = insq (ucast c) (ttyq_of minor s);
          s = set_q minor q s;
          s = (if ok then echo minor c s else tty_putc minor 7 s);
          s = (if minor \<noteq> 5 then s\<lparr>last_win := temp_win\<rparr> else s)
      in if (mode \<noteq> COOKED \<or> c = 10 \<or> c = scast (t_eof (ttyp minor s))) \<and> ctl_char (ttyp minor s) = 0
         then wakeup (EvTtyIn (unat minor)) s else s)"

definition tin_ctl :: "u16 \<Rightarrow> u16 \<Rightarrow> u16 \<Rightarrow> u16 \<Rightarrow> kst \<Rightarrow> kst" where
  "tin_ctl minor mode temp_win c s =
     (let td = ttyp minor s
      in if ctl_char td = 0 \<and> (mode = COOKED \<or> mode = CBREAK) then
           (let c = (if c = 13 \<and> t_flags td AND CRMOD \<noteq> 0 then 10 else c)
            in if c = scast (t_intr td) then tin_signal minor SIGQUIT s
               else if c = scast (t_quit td) then tin_signal minor SIGINT s
               else if c = 15 then s\<lparr>flshflag := (flshflag s)[unat minor := \<not> (flshflag s ! unat minor)]\<rparr>
               else if c = scast (t_stop td) then s\<lparr>stopflag := (stopflag s)[unat minor := True]\<rparr>
               else if c = scast (t_start td) then
                 wakeup (EvTtyStop (unat minor)) (s\<lparr>stopflag := (stopflag s)[unat minor := False]\<rparr>)
               else tin_store minor mode temp_win c s)
         else tin_store minor mode temp_win c s)"

definition tin_main :: "u16 \<Rightarrow> u16 \<Rightarrow> u16 \<Rightarrow> u16 \<Rightarrow> kst \<Rightarrow> kst" where
  "tin_main minor mode temp_win c s =
     (let td = ttyp minor s
      in if mode = COOKED \<and> ctl_char td = 0 \<and> c = scast (t_erase td) then tin_erase minor s
         else if mode = COOKED \<and> ctl_char td = 0 \<and> c = scast (t_kill td) then
           tin_kill (q_count (ttyq_of minor s)) minor s
         else tin_ctl minor mode temp_win c s)"

definition tinproc :: "u16 \<Rightarrow> u16 \<Rightarrow> kst \<Rightarrow> kst" where
  "tinproc minor c s =
     (let td = ttyp minor s;
          mode = t_flags td AND (RAW OR CBREAK)
      in if minor \<noteq> 5 then
           (if c = 0x1B \<and> t_flags td = 0xC18 then s
            else let c = (if mode \<noteq> RAW then c AND 0x7F else c)
                 in if mode \<noteq> RAW \<and> c = 0 then s
                    else tin_main minor mode (last_win s) c (s\<lparr>last_win := cur_win s\<rparr>))
         else tin_main minor mode (last_win s) c s)"

subsection \<open>Reading\<close>

definition signalled :: "kst \<Rightarrow> bool" where
  "signalled s \<longleftrightarrow> u_cursig s \<noteq> 0 \<or> p_pending (procp (u_ptab s) s) \<noteq> 0"

partial_function (option) tty_getc :: "switch \<Rightarrow> u16 \<Rightarrow> kst \<Rightarrow> (u8 option \<times> kst) option" where
  "tty_getc swp minor s =
     (case remq (ttyq_of minor s) of
        (Some c, q) \<Rightarrow> Some (Some c, set_q minor q s)
      | (None, _) \<Rightarrow>
          do { s \<leftarrow> psleep swp (EvTtyIn (unat minor)) s;
               if signalled s then Some (None, set_error EINTR s) else tty_getc swp minor s })"

definition sys_putc :: "u8 \<Rightarrow> kst \<Rightarrow> kst option" where
  "sys_putc c s =
     (if u_sysio s then
        (if unat (u_base s) < length (sysbuf s) then Some (s\<lparr>sysbuf := (sysbuf s)[unat (u_base s) := c]\<rparr>) else wild)
      else Some (uputc c (u_base s) s))"

partial_function (option) tty_rd :: "switch \<Rightarrow> u16 \<Rightarrow> u16 \<Rightarrow> kst \<Rightarrow> (u16 \<times> kst) option" where
  "tty_rd swp minor nread s =
     (if \<not> nread < u_count s then Some (nread, s)
      else Option.bind (tty_getc swp minor s) (\<lambda>r. case r of
          (None, s) \<Rightarrow> Some (- 1, s)
        | (Some c, s) \<Rightarrow> Option.bind (sys_putc c s) (\<lambda>s.
            if nread = 0 \<and> c = t_eof (ttyp minor s) then Some (0, s)
            else if minor = 5 \<and> fast_mode s then
              (if q_count (ttyq_of 5 s) = 0 then Some (nread + 1, s)
               else tty_rd swp minor (nread + 1) (s\<lparr>u_base := u_base s + 1\<rparr>))
            else if t_flags (ttyp minor s) AND (RAW OR CBREAK) \<noteq> 0 then Some (nread + 1, s)
            else if c = 10 then Some (nread + 1, s)
            else tty_rd swp minor (nread + 1) (s\<lparr>u_base := u_base s + 1\<rparr>))))"

text \<open>Minor 0 is the controlling terminal of the process, which the first use establishes.\<close>

definition ctl_tty :: "u16 \<Rightarrow> kst \<Rightarrow> u16 \<times> kst" where
  "ctl_tty minor s =
     (let p = u_ptab s;
          minor = (if minor = 0 then scast (p_tty (procp p s)) else minor);
          s = (if p_tty (procp p s) = 0 then upd_proc p (\<lambda>q. q\<lparr>p_tty := ucast minor\<rparr>) s else s)
      in (minor, s))"

definition tty_read :: "switch \<Rightarrow> u16 \<Rightarrow> kst \<Rightarrow> (u16 \<times> kst) option" where
  "tty_read swp minor s =
     (if minor = 5 \<and> fast_mode s then tty_rd swp minor 0 s
      else let (minor, s) = ctl_tty minor s
           in if sint minor < 1 \<or> sint minor > 6 then Some (- 1, set_error ENODEV s)
              else tty_rd swp minor 0 s)"

subsection \<open>Writing\<close>

partial_function (option) tty_unstop :: "switch \<Rightarrow> u16 \<Rightarrow> kst \<Rightarrow> (bool \<times> kst) option" where
  "tty_unstop swp minor s =
     (if \<not> stopflag s ! unat minor then Some (True, s)
      else do { s \<leftarrow> psleep swp (EvTtyStop (unat minor)) s;
                if signalled s then Some (False, set_error EINTR s) else tty_unstop swp minor s })"

definition sys_getc :: "u8 \<Rightarrow> kst \<Rightarrow> (u8 \<times> kst) option" where
  "sys_getc junk s =
     (if u_sysio s then
        (if unat (u_base s) < length (sysbuf s) then Some (sysbuf s ! unat (u_base s), s) else wild)
      else Some (ugetc junk (u_base s) s))"

definition tty_out1 :: "u16 \<Rightarrow> kst \<Rightarrow> kst option" where
  "tty_out1 minor s =
     (if flshflag s ! unat minor then Some s
      else do { (c, s) \<leftarrow> sys_getc (areg s) s;
                let s = (if c = 10 \<and> t_flags (ttyp minor s) AND CRMOD \<noteq> 0 then tty_putc minor 13 s else s);
                Some (tty_putc minor (scast c) s) })"

partial_function (option) tty_wr :: "switch \<Rightarrow> u16 \<Rightarrow> kst \<Rightarrow> (bool \<times> kst) option" where
  "tty_wr swp minor s =
     (let n = u_count s; s = s\<lparr>u_count := n - 1\<rparr>
      in if n = 0 then Some (True, s)
         else Option.bind (tty_unstop swp minor s) (\<lambda>r.
           if \<not> fst r then Some (False, snd r)
           else Option.bind (tty_out1 minor (snd r)) (\<lambda>s. tty_wr swp minor (s\<lparr>u_base := u_base s + 1\<rparr>))))"

definition tty_write :: "switch \<Rightarrow> u16 \<Rightarrow> kst \<Rightarrow> (u16 \<times> kst) option" where
  "tty_write swp minor s =
     (let (minor, s) = ctl_tty minor s
      in if sint minor < 1 \<or> sint minor > 6 then Some (- 1, set_error ENODEV s)
         else let towrite = u_count s
              in do { (done, s) \<leftarrow> tty_wr swp minor s; Some (if done then towrite else - 1, s) })"

subsection \<open>Open, close, ioctl\<close>

definition tty_open :: "u16 \<Rightarrow> kst \<Rightarrow> int \<times> kst" where
  "tty_open minor s =
     (let s = s\<lparr>cur_win := 1, last_win := 1\<rparr>;
          (minor, s) = ctl_tty minor s
      in if minor \<noteq> 5 then (- 1, set_error ENODEV s)
         else (0, s\<lparr>ttydata := (ttydata s)[unat minor := ttydflt]\<rparr>))"

definition tty_close :: "u16 \<Rightarrow> kst \<Rightarrow> int \<times> kst" where
  "tty_close minor s =
     (let p = u_ptab s
      in (0, if minor = scast (p_tty (procp p s)) then upd_proc p (\<lambda>q. q\<lparr>p_tty := 0\<rparr>) s else s))"

text \<open>\<^verbatim>\<open>struct tty_data\<close> in memory, 12 bytes.\<close>

definition tty_bytes :: "tty_data \<Rightarrow> u8 list" where
  "tty_bytes t = [t_ispeed t, t_ospeed t, t_erase t, t_kill t, lo8 (t_flags t), hi8 (t_flags t),
     t_intr t, t_quit t, t_start t, t_stop t, t_eof t, ctl_char t]"

definition bytes_tty :: "u8 list \<Rightarrow> tty_data" where
  "bytes_tty b = \<lparr>t_ispeed = b ! 0, t_ospeed = b ! 1, t_erase = b ! 2, t_kill = b ! 3,
     t_flags = le16 (b ! 4) (b ! 5), t_intr = b ! 6, t_quit = b ! 7, t_start = b ! 8, t_stop = b ! 9,
     t_eof = b ! 10, ctl_char = b ! 11\<rparr>"

definition set_tty :: "u16 \<Rightarrow> tty_data \<Rightarrow> kst \<Rightarrow> kst" where
  "set_tty minor t s = s\<lparr>ttydata := (ttydata s)[unat minor := t]\<rparr>"

text \<open>\<^verbatim>\<open>TIOCFLUSH\<close> calls \<^verbatim>\<open>clrq\<close> with the address of the tty data: seen as an \<^verbatim>\<open>s_queue\<close>, its base is in
  the speeds, its head in the erase and kill characters, its tail in the flags and its count in the
  start and stop characters.\<close>

definition clrq_ttydata :: "tty_data \<Rightarrow> tty_data" where
  "clrq_ttydata t = t\<lparr>t_erase := t_ispeed t, t_kill := t_ospeed t,
     t_flags := le16 (t_ispeed t) (t_ospeed t), t_start := 0, t_stop := 0\<rparr>"

definition tty_ioctl :: "u16 \<Rightarrow> u16 \<Rightarrow> u16 \<Rightarrow> kst \<Rightarrow> int \<times> kst" where
  "tty_ioctl minor request data s =
     (let minor = (if minor = 0 then scast (p_tty (procp (u_ptab s) s)) else minor)
      in if sint minor < 1 \<or> sint minor > 5 then (- 1, set_error ENODEV s)
         else let t = ttyp minor s; b = tty_bytes t
              in if request = 0 then (0, snd (uput (take 6 b) data s))
                 else if request = 1 then
                   (let (_, bs, s) = uget data 6 s in (0, set_tty minor (bytes_tty (splice 0 bs b)) s))
                 else if request = 7 then (0, snd (uput (take 5 (drop 6 b)) data s))
                 else if request = 8 then
                   (let (_, bs, s) = uget data 5 s in (0, set_tty minor (bytes_tty (splice 6 bs b)) s))
                 else if request = 2 then
                   (let n = of_nat (q_count (ttyq_of minor s)) in (0, snd (uput [lo8 n, hi8 n] data s)))
                 else if request = 6 then (0, set_tty minor (clrq_ttydata t) s)
                 else if request = 9 then (0, set_tty minor (t\<lparr>ctl_char := 1\<rparr>) s)
                 else if request = 10 then (0, set_tty minor (t\<lparr>ctl_char := 0\<rparr>) s)
                 else if request = 4 then (if minor \<noteq> 5 then (- 1, s) else (0, s\<lparr>fast_mode := False\<rparr>))
                 else if request = 5 then (if minor \<noteq> 5 then (- 1, s) else (0, s\<lparr>fast_mode := True\<rparr>))
                 else (- 1, set_error EINVAL s))"

end
