(* ===== verification/Devices.thy ===== *)
theory Devices
  imports Tty
begin

section \<open>Character access to devices: DEVIO.C, DEVMISC.C, DEVMT.C\<close>

text \<open>
  The vectors of \<^verbatim>\<open>dev_tab\<close> used on behalf of a device inode, and the small drivers. \<^verbatim>\<open>lpout\<close> has an
  empty body in this configuration. Raw access to the hard disk (marked broken in the source) and to
  kernel memory (\<^verbatim>\<open>/dev/kmem\<close>, whose addresses the model does not have) are outside the model.
\<close>

definition lpr_open :: "kst \<Rightarrow> int \<times> kst" where
  "lpr_open s = (0, s\<lparr>lop := True\<rparr>)"

definition lpr_close :: "kst \<Rightarrow> int \<times> kst" where
  "lpr_close s = (0, if lop s then s\<lparr>lop := False\<rparr> else s)"

definition lpr_write :: "kst \<Rightarrow> u16 \<times> kst" where
  "lpr_write s = (u_count s, s\<lparr>u_base := u_base s + u_count s\<rparr>)"

definition null_write :: "kst \<Rightarrow> u16 \<times> kst" where
  "null_write s = (u_count s, s)"

definition mt_read :: "kst \<Rightarrow> u16 \<times> kst" where
  "mt_read s = (- 1, s)"

definition mt_write :: "kst \<Rightarrow> u16 \<times> kst" where
  "mt_write s = (- 1, s)"

definition mt_open :: "kst \<Rightarrow> int \<times> kst" where
  "mt_open s = (- 1, s)"

definition mt_close :: "kst \<Rightarrow> int \<times> kst" where
  "mt_close s = (0, s)"

definition fd_rw :: "kst \<Rightarrow> u16 \<times> kst" where
  "fd_rw s = (0, s)"

definition cdread :: "switch \<Rightarrow> int \<Rightarrow> kst \<Rightarrow> (u16 \<times> kst) option" where
  "cdread swp dev s =
     (if \<not> validdev dev then panic ''cdread: invalid dev''
      else (case dev_driver dev of
              TTY \<Rightarrow> tty_read swp (dev_minor dev) s
            | FD \<Rightarrow> Some (fd_rw s)
            | LPR \<Rightarrow> Some (- 1, s)
            | NUL \<Rightarrow> Some (0, s)
            | MT \<Rightarrow> Some (mt_read s)
            | _ \<Rightarrow> wild))"

definition cdwrite :: "switch \<Rightarrow> int \<Rightarrow> kst \<Rightarrow> (u16 \<times> kst) option" where
  "cdwrite swp dev s =
     (if \<not> validdev dev then panic ''cdwrite: invalid dev''
      else (case dev_driver dev of
              TTY \<Rightarrow> tty_write swp (dev_minor dev) s
            | FD \<Rightarrow> Some (fd_rw s)
            | LPR \<Rightarrow> Some (lpr_write s)
            | NUL \<Rightarrow> Some (null_write s)
            | MT \<Rightarrow> Some (mt_write s)
            | _ \<Rightarrow> wild))"

text \<open>\<^verbatim>\<open>wd_open\<close> initialises the controller on the first call and returns 0, \<^verbatim>\<open>fd_open\<close> returns 0.\<close>

definition d_open :: "int \<Rightarrow> kst \<Rightarrow> int \<times> kst" where
  "d_open dev s =
     (if \<not> validdev dev then (- 1, s)
      else (case dev_driver dev of
              TTY \<Rightarrow> tty_open (dev_minor dev) s
            | LPR \<Rightarrow> lpr_open s
            | MT \<Rightarrow> mt_open s
            | _ \<Rightarrow> (0, s)))"

definition d_close :: "int \<Rightarrow> kst \<Rightarrow> kst option" where
  "d_close dev s =
     (if \<not> validdev dev then panic ''d_close: bad device''
      else (case dev_driver dev of
              TTY \<Rightarrow> Some (snd (tty_close (dev_minor dev) s))
            | LPR \<Rightarrow> Some (snd (lpr_close s))
            | MT \<Rightarrow> Some (snd (mt_close s))
            | _ \<Rightarrow> Some s))"

definition d_ioctl :: "int \<Rightarrow> u16 \<Rightarrow> u16 \<Rightarrow> kst \<Rightarrow> int \<times> kst" where
  "d_ioctl dev request data s =
     (if \<not> validdev dev then (- 1, set_error ENXIO s)
      else (let (r, s) = (if dev_driver dev = TTY then tty_ioctl (dev_minor dev) request data s else (- 1, s))
            in if r \<noteq> 0 then (- 1, set_error EINVAL s) else (0, s)))"

end
