(* ===== verification/Files.thy ===== *)
theory Files
  imports Devices "HOL-Library.Signed_Division"
begin

section \<open>Open files and file input/output: FILESYS.C, SCALL1.C\<close>

text \<open>
  The open file table and the file descriptors of the process, the byte offsets of files, and
  \<^verbatim>\<open>readi\<close>/\<^verbatim>\<open>writei\<close>, through which all file data moves. A file offset is a block number and an offset
  within the block. The transfer loops and the loops that wait for the other end of a pipe may not
  end, so they are partial functions; a copy that would leave the 512 bytes of a buffer, or the
  kernel object \<^verbatim>\<open>u_base\<close> points to, is \<open>wild\<close>.
\<close>

subsection \<open>Descriptors\<close>

definition oftp :: "nat \<Rightarrow> kst \<Rightarrow> oft" where
  "oftp k s = of_tab s ! k"

definition oft_alloc :: "kst \<Rightarrow> int \<times> kst" where
  "oft_alloc s =
     (case scan (\<lambda>j. o_refs (oftp j s) = 0) 0 OFTSIZE of
        Some j \<Rightarrow> (int j, upd_oft j (\<lambda>f. f\<lparr>o_refs := 1, o_inode := None\<rparr>) s)
      | None \<Rightarrow> (- 1, set_error ENFILE s))"

definition oft_deref :: "nat \<Rightarrow> kst \<Rightarrow> kst option" where
  "oft_deref k s =
     (if k \<ge> OFTSIZE then wild
      else let s = upd_oft k (\<lambda>f. f\<lparr>o_refs := o_refs f - 1\<rparr>) s
           in (case o_inode (oftp k s) of
                 None \<Rightarrow> Some s
               | Some ino \<Rightarrow>
                   if o_refs (oftp k s) = 0 then
                     do { s \<leftarrow> i_deref ino s; Some (upd_oft k (\<lambda>f. f\<lparr>o_inode := None\<rparr>) s) }
                   else Some s))"

definition uf_alloc :: "kst \<Rightarrow> int \<times> kst" where
  "uf_alloc s =
     (case scan (\<lambda>j. u_files s ! j AND 0x80 \<noteq> 0) 0 UFTSIZE of
        Some j \<Rightarrow> (int j, s)
      | None \<Rightarrow> (- 1, set_error ENFILE s))"

definition set_file :: "nat \<Rightarrow> u8 \<Rightarrow> kst \<Rightarrow> kst" where
  "set_file u v s = s\<lparr>u_files := (u_files s)[u := v]\<rparr>"

definition getinode :: "int \<Rightarrow> kst \<Rightarrow> (nat option \<times> kst) option" where
  "getinode uindex s =
     (if uindex < 0 \<or> uindex \<ge> int UFTSIZE \<or> u_files s ! nat uindex AND 0x80 \<noteq> 0
      then Some (None, set_error EBADF s)
      else let k = unat (u_files s ! nat uindex)
           in if k \<ge> OFTSIZE then panic ''Getinode: bad desc table''
              else (case o_inode (oftp k s) of
                      None \<Rightarrow> panic ''Getinode: bad OFT''
                    | Some ino \<Rightarrow> if ino \<ge> ITABSIZE then panic ''Getinode: bad OFT''
                                  else do { magic ino s; Some (Some ino, s) }))"

definition doclose :: "int \<Rightarrow> kst \<Rightarrow> (int \<times> kst) option" where
  "doclose uindex s = do {
     (p, s) \<leftarrow> getinode uindex s;
     (case p of
        None \<Rightarrow> Some (- 1, s)
      | Some ino \<Rightarrow> do {
          let k = unat (u_files s ! nat uindex);
          s \<leftarrow> (if isdevice ino s then d_close (devnum ino s) s else Some s);
          s \<leftarrow> oft_deref k (set_file (nat uindex) (- 1) s);
          Some (0, s) }) }"

subsection \<open>Offsets\<close>

definition smin :: "u16 \<Rightarrow> u16 \<Rightarrow> u16" where
  "smin a b = (if sint a < sint b then a else b)"

definition psize :: "nat \<Rightarrow> kst \<Rightarrow> u16" where
  "psize ino s = (let z = i_size (c_node (inop ino s)) in 512 * o_blkno z + o_offset z)"

definition addoff :: "u16 \<Rightarrow> off_t \<Rightarrow> off_t" where
  "addoff amount p =
     (if sint amount \<ge> 0 then
        (let p = p\<lparr>o_offset := o_offset p + word_of_int (sint amount smod 512)\<rparr>;
             p = (if sint (o_offset p) \<ge> 512 then p\<lparr>o_offset := o_offset p - 512, o_blkno := o_blkno p + 1\<rparr> else p)
         in p\<lparr>o_blkno := o_blkno p + word_of_int (sint amount sdiv 512)\<rparr>)
      else
        (let p = p\<lparr>o_offset := o_offset p - word_of_int (sint (- amount) smod 512)\<rparr>;
             p = (if sint (o_offset p) < 0 then p\<lparr>o_offset := o_offset p + 512, o_blkno := o_blkno p - 1\<rparr> else p)
         in p\<lparr>o_blkno := o_blkno p - word_of_int (sint (- amount) sdiv 512)\<rparr>))"

subsection \<open>Reading\<close>

text \<open>The copy of \<open>amount\<close> bytes out of the buffer, from the current offset, to the reader.\<close>

definition copy_out :: "nat \<Rightarrow> u16 \<Rightarrow> kst \<Rightarrow> kst option" where
  "copy_out b amount s =
     (let off = unat (o_offset (u_offset s)); n = unat amount;
          bs = take n (drop off (buf_data b s))
      in if off + n > 512 then wild
         else if u_sysio s then
           (if unat (u_base s) + n > length (sysbuf s) then wild
            else Some (s\<lparr>sysbuf := splice (unat (u_base s)) bs (sysbuf s)\<rparr>))
         else Some (snd (uput bs (u_base s) s)))"

definition pipe_wrap :: "kst \<Rightarrow> kst" where
  "pipe_wrap s = (if o_blkno (u_offset s) \<ge> 18 then s\<lparr>u_offset := (u_offset s)\<lparr>o_blkno := 0\<rparr>\<rparr> else s)"

definition advance :: "u16 \<Rightarrow> kst \<Rightarrow> kst" where
  "advance amount s = s\<lparr>u_base := u_base s + amount, u_offset := addoff amount (u_offset s)\<rparr>"

partial_function (option) read_loop :: "nat \<Rightarrow> int \<Rightarrow> bool \<Rightarrow> u16 \<Rightarrow> kst \<Rightarrow> kst option" where
  "read_loop ino dev ispipe toread s =
     (if toread = 0 then Some s
      else Option.bind (bmap ino (o_blkno (u_offset s)) True s) (\<lambda>(pblk, s).
           Option.bind (if pblk \<noteq> NULLBLK then breadp dev pblk False s else zerobuf s) (\<lambda>(b, s).
             let amount = smin toread (512 - o_offset (u_offset s))
             in Option.bind (copy_out b amount s) (\<lambda>s.
                Option.bind (brelse b s) (\<lambda>s.
                  let s = advance amount s;
                      s = (if ispipe then
                             wakeup (EvIno ino)
                               (upd_node ino (\<lambda>n. n\<lparr>i_size := addoff (- amount) (i_size n)\<rparr>) (pipe_wrap s))
                           else s)
                  in read_loop ino dev ispipe (toread - amount) s)))))"

partial_function (option) pipe_wait_read :: "switch \<Rightarrow> nat \<Rightarrow> kst \<Rightarrow> kst option" where
  "pipe_wait_read swp ino s =
     (if psize ino s = 0 \<and> c_refs (inop ino s) \<noteq> 1
      then Option.bind (psleep swp (EvIno ino) s) (pipe_wait_read swp ino) else Some s)"

definition read_limit :: "nat \<Rightarrow> kst \<Rightarrow> u16" where
  "read_limit ino s =
     (let z = i_size (c_node (inop ino s)); p = u_offset s
      in if o_blkno z - o_blkno p \<ge> 64 then u_count s
         else smin (u_count s) (512 * (o_blkno z - o_blkno p) + (o_offset z - o_offset p)))"

definition readi :: "switch \<Rightarrow> nat \<Rightarrow> kst \<Rightarrow> kst option" where
  "readi swp ino s =
     (let mode = getmode ino s; dev = c_dev (inop ino s)
      in if mode = F_DIR \<or> mode = F_REG then
           (let s = s\<lparr>u_count := read_limit ino s\<rparr> in read_loop ino dev False (u_count s) s)
         else if mode = F_PIPE then
           do { s \<leftarrow> pipe_wait_read swp ino s;
                let s = s\<lparr>u_count := smin (u_count s) (psize ino s)\<rparr>;
                read_loop ino dev True (u_count s) s }
         else if mode = F_BDEV then read_loop ino (devnum ino s) False (u_count s) s
         else if mode = F_CDEV then
           do { (n, s) \<leftarrow> cdread swp (devnum ino s) s;
                let s = s\<lparr>u_count := n\<rparr>;
                Some (if n \<noteq> - 1 then s\<lparr>u_offset := addoff n (u_offset s)\<rparr> else s) }
         else Some (set_error ENODEV s))"

subsection \<open>Writing\<close>

definition copy_in :: "nat \<Rightarrow> u16 \<Rightarrow> kst \<Rightarrow> kst option" where
  "copy_in b amount s =
     (let off = unat (o_offset (u_offset s)); n = unat amount
      in if off + n > 512 then wild
         else if u_sysio s then
           (if unat (u_base s) + n > length (sysbuf s) then wild
            else Some (set_data b (splice off (take n (drop (unat (u_base s)) (sysbuf s))) (buf_data b s)) s))
         else (let (_, bs, s) = uget (u_base s) amount s
               in Some (set_data b (splice off bs (buf_data b s)) s)))"

partial_function (option) write_loop :: "nat \<Rightarrow> int \<Rightarrow> bool \<Rightarrow> u16 \<Rightarrow> kst \<Rightarrow> kst option" where
  "write_loop ino dev ispipe towrite s =
     (if towrite = 0 then Some s
      else let amount = smin towrite (512 - o_offset (u_offset s))
           in Option.bind (bmap ino (o_blkno (u_offset s)) False s) (\<lambda>(pblk, s).
                if pblk = NULLBLK then Some s
                else Option.bind (breadp dev pblk (amount = 512) s) (\<lambda>(b, s).
                     Option.bind (copy_in b amount s) (\<lambda>s.
                     Option.bind (bawrite b s) (\<lambda>s.
                       let s = advance amount s;
                           s = (if ispipe then
                                  wakeup (EvIno ino)
                                    (upd_node ino (\<lambda>n. n\<lparr>i_size := addoff amount (i_size n)\<rparr>) (pipe_wrap s))
                                else s)
                       in write_loop ino dev ispipe (towrite - amount) s)))))"

definition grow_size :: "nat \<Rightarrow> kst \<Rightarrow> kst" where
  "grow_size ino s =
     (let z = i_size (c_node (inop ino s)); p = u_offset s
      in if o_blkno p > o_blkno z \<or> o_blkno p = o_blkno z \<and> sint (o_offset p) > sint (o_offset z)
         then upd_ino ino (\<lambda>c. c\<lparr>c_dirty := 1\<rparr>) (upd_node ino (\<lambda>n. n\<lparr>i_size := p\<rparr>) s) else s)"

text \<open>The wait of a pipe's writer: \<open>False\<close> when there are no readers.\<close>

partial_function (option) pipe_wait_write :: "switch \<Rightarrow> nat \<Rightarrow> kst \<Rightarrow> (bool \<times> kst) option" where
  "pipe_wait_write swp ino s =
     (if u_count s > 16 * 512 - psize ino s then
        (if c_refs (inop ino s) = 1 then
           Some (False, ssig (u_ptab s) 13 (set_error EPIPE (s\<lparr>u_count := - 1\<rparr>)))
         else Option.bind (psleep swp (EvIno ino) s) (pipe_wait_write swp ino))
      else Some (True, s))"

definition writei :: "switch \<Rightarrow> nat \<Rightarrow> kst \<Rightarrow> kst option" where
  "writei swp ino s =
     (let mode = getmode ino s; dev = c_dev (inop ino s)
      in if mode = F_BDEV \<or> mode = F_DIR \<or> mode = F_REG then
           do { s \<leftarrow> write_loop ino (if mode = F_BDEV then devnum ino s else dev) False (u_count s) s;
                Some (grow_size ino s) }
         else if mode = F_PIPE then
           do { (go, s) \<leftarrow> pipe_wait_write swp ino s;
                if go then write_loop ino dev True (u_count s) s else Some s }
         else if mode = F_CDEV then
           do { (n, s) \<leftarrow> cdwrite swp (devnum ino s) s;
                let s = s\<lparr>u_count := n\<rparr>;
                Some (if n \<noteq> - 1 then s\<lparr>u_offset := addoff n (u_offset s)\<rparr> else s) }
         else Some (set_error ENODEV s))"

subsection \<open>The calls read, write and seek\<close>

definition rwsetup :: "bool \<Rightarrow> kst \<Rightarrow> (nat option \<times> kst) option" where
  "rwsetup rd s = do {
     let s = s\<lparr>u_sysio := False, u_base := u_argn1 s, u_count := u_argn s\<rparr>;
     (p, s) \<leftarrow> getinode (sint (u_argn2 s)) s;
     (case p of
        None \<Rightarrow> Some (None, s)
      | Some ino \<Rightarrow>
          (let f = oftp (unat (u_files s ! unat (u_argn2 s))) s
           in if o_access f = (if rd then 1 else 0) then Some (None, set_error EBADF s)
              else let s = setftime ino (if rd then A_TIME else A_TIME OR M_TIME OR C_TIME) s
                   in Some (Some ino, s\<lparr>u_offset := o_ptr f\<rparr>))) }"

definition updoff :: "kst \<Rightarrow> kst" where
  "updoff s = upd_oft (unat (u_files s ! unat (u_argn2 s))) (\<lambda>f. f\<lparr>o_ptr := u_offset s\<rparr>) s"

definition sys_read :: "switch \<Rightarrow> kst \<Rightarrow> (u16 \<times> kst) option" where
  "sys_read swp s = do {
     (p, s) \<leftarrow> rwsetup True s;
     (case p of None \<Rightarrow> Some (- 1, s)
      | Some ino \<Rightarrow> do { s \<leftarrow> readi swp ino s; let s = updoff s; Some (u_count s, s) }) }"

definition sys_write :: "switch \<Rightarrow> kst \<Rightarrow> (u16 \<times> kst) option" where
  "sys_write swp s = do {
     (p, s) \<leftarrow> rwsetup False s;
     (case p of None \<Rightarrow> Some (- 1, s)
      | Some ino \<Rightarrow> do { s \<leftarrow> writei swp ino s; let s = updoff s; Some (u_count s, s) }) }"

text \<open>The final loop of \<^verbatim>\<open>seek\<close>; it takes at most 127 rounds.\<close>

function norm_off :: "off_t \<Rightarrow> off_t" where
  "norm_off p = (if o_offset p \<ge> 512 then norm_off (p\<lparr>o_offset := o_offset p - 512, o_blkno := o_blkno p + 1\<rparr>) else p)"
  by pat_completeness auto
termination
  by (relation "measure (\<lambda>p. unat (o_offset p))") (auto simp: word_le_nat_alt unat_sub)

declare norm_off.simps [simp del]

definition seek_ptr :: "int \<Rightarrow> u16 \<Rightarrow> off_t \<Rightarrow> off_t \<Rightarrow> off_t option" where
  "seek_ptr flg offset z p =
     (if flg = 0 then Some (p\<lparr>o_blkno := 0, o_offset := offset\<rparr>)
      else if flg = 1 then Some (p\<lparr>o_offset := o_offset p + offset\<rparr>)
      else if flg = 2 then Some (p\<lparr>o_blkno := o_blkno z, o_offset := o_offset z + offset\<rparr>)
      else if flg = 3 then Some (p\<lparr>o_blkno := offset\<rparr>)
      else if flg = 4 then Some (p\<lparr>o_blkno := o_blkno p + offset\<rparr>)
      else if flg = 5 then Some (p\<lparr>o_blkno := o_blkno z + offset\<rparr>)
      else None)"

definition sys_seek :: "kst \<Rightarrow> (u16 \<times> kst) option" where
  "sys_seek s = do {
     (q, s) \<leftarrow> getinode (sint (u_argn2 s)) s;
     (case q of
        None \<Rightarrow> Some (- 1, s)
      | Some ino \<Rightarrow>
          if getmode ino s = F_PIPE then Some (- 1, set_error ESPIPE s)
          else let k = unat (u_files s ! unat (u_argn2 s));
                   p = o_ptr (oftp k s);
                   retval = (if sint (u_argn s) \<le> 2 then o_offset p else o_blkno p)
               in (case seek_ptr (sint (u_argn s)) (u_argn1 s) (i_size (c_node (inop ino s))) p of
                     None \<Rightarrow> Some (- 1, set_error EINVAL s)
                   | Some p \<Rightarrow> Some (retval, upd_oft k (\<lambda>f. f\<lparr>o_ptr := norm_off p\<rparr>) s))) }"

end
