(* ===== verification/Paths.thy ===== *)
theory Paths
  imports Files
begin

section \<open>Path names and directories: FILESYS.C\<close>

text \<open>
  Name comparison, directory search, mount points, path resolution (\<^verbatim>\<open>n_open\<close>), directory entries
  (\<^verbatim>\<open>ch_link\<close>), new files, and mounting. A \<^verbatim>\<open>char *\<close> into a buffer is the list of the bytes from there to
  the buffer's end; reading past it is \<open>wild\<close>. \<^verbatim>\<open>n_open\<close> stores the parent through its second argument
  only on some paths: the middle component of its result is \<open>None\<close> where the variable is left as it
  was. The kernel object that \<^verbatim>\<open>u_base\<close> points to during \<^verbatim>\<open>ch_link\<close> is its local \<^verbatim>\<open>curentry\<close>, 16
  bytes that \<open>sysbuf\<close> holds.
\<close>

subsection \<open>Names\<close>

fun namecomp :: "nat \<Rightarrow> u8 list \<Rightarrow> u8 list \<Rightarrow> bool option" where
  "namecomp n [] n2 = wild"
| "namecomp n (c1 # n1) n2 =
     (if c1 \<noteq> 0 \<and> c1 \<noteq> 47 then
        (case n2 of
           [] \<Rightarrow> wild
         | c2 # n2 \<Rightarrow> if c1 \<noteq> c2 then Some False else if n - 1 = 0 then Some True else namecomp (n - 1) n1 n2)
      else (case n2 of [] \<Rightarrow> wild | c2 # _ \<Rightarrow> Some (c2 = 0 \<or> c2 = 47)))"

text \<open>The pointer arithmetic of \<^verbatim>\<open>filename\<close>: the index after the last slash of the string.\<close>

definition last_comp :: "u8 list \<Rightarrow> nat" where
  "last_comp str = length str - length (takeWhile (\<lambda>c. c \<noteq> 47) (rev str))"

definition filename :: "u16 \<Rightarrow> kst \<Rightarrow> (u8 list \<times> kst) option" where
  "filename upath s = do {
     (tb, s) \<leftarrow> tmpbuf s;
     let (r, bs, s) = ugets upath 512 s;
     let s = set_data tb (splice 0 bs (buf_data tb s)) s;
     let b = buf_data tb s;
     let start = last_comp (takeWhile (\<lambda>c. c \<noteq> 0) b);
     if r \<noteq> 0 then do { s \<leftarrow> brelse tb s; Some (replicate 14 0, s) }
     else if 0 \<notin> set b \<or> start + 14 > length b then wild
     else do { s \<leftarrow> brelse tb s; Some (take 14 (drop start b), s) } }"

subsection \<open>Directory search\<close>

fun dir_scan :: "u8 list \<Rightarrow> block \<Rightarrow> nat list \<Rightarrow> nat option option" where
  "dir_scan nm b [] = Some None"
| "dir_scan nm b (j # js) =
     do { m \<leftarrow> namecomp 14 nm (d_name (dir_entry b j)); if m then Some (Some j) else dir_scan nm b js }"

fun srch_blocks :: "nat \<Rightarrow> u8 list \<Rightarrow> u16 list \<Rightarrow> kst \<Rightarrow> (nat option \<times> kst) option" where
  "srch_blocks wd nm [] s = Some (None, s)"
| "srch_blocks wd nm (cur # curs) s = do {
     let dev = c_dev (inop wd s);
     (pblk, s) \<leftarrow> bmap wd cur True s;
     (b, s) \<leftarrow> breadp dev pblk False s;
     m \<leftarrow> dir_scan nm (buf_data b s) [0..<32];
     (case m of
        Some j \<Rightarrow> do { let inum = d_ino (dir_entry (buf_data b s) j);
                       s \<leftarrow> brelse b s;
                       i_open dev inum s }
      | None \<Rightarrow> do { s \<leftarrow> brelse b s; srch_blocks wd nm curs s }) }"

definition dir_blocks :: "nat \<Rightarrow> kst \<Rightarrow> u16" where
  "dir_blocks wd s =
     (let z = i_size (c_node (inop wd s)) in if o_offset z \<noteq> 0 then o_blkno z + 1 else o_blkno z)"

definition srch_dir :: "nat \<Rightarrow> u8 list \<Rightarrow> kst \<Rightarrow> (nat option \<times> kst) option" where
  "srch_dir wd nm s = srch_blocks wd nm (map of_nat [0..<unat (dir_blocks wd s)]) s"

definition srch_mt :: "nat \<Rightarrow> kst \<Rightarrow> (nat option \<times> kst) option" where
  "srch_mt ino s =
     (case scan (\<lambda>j. s_mounted (fsp (int j) s) = SMOUNTED \<and> s_mntpt (fsp (int j) s) = ino_addr (Some ino)) 0 NDEVS of
        Some j \<Rightarrow> do { s \<leftarrow> i_deref ino s; i_open (int j) ROOTINODE s }
      | None \<Rightarrow> Some (Some ino, s))"

subsection \<open>Path resolution\<close>

text \<open>Going up through a mount point: \<^verbatim>\<open>..\<close> in the root of a mounted file system.\<close>

definition cross_up :: "nat \<Rightarrow> u8 list \<Rightarrow> kst \<Rightarrow> (nat \<times> kst) option" where
  "cross_up wd name s =
     (let c = inop wd s
      in if c_num c = ROOTINODE \<and> c_dev c \<noteq> ROOTDEV s then
           (case name of
              _ # c1 # _ \<Rightarrow>
                if c1 = 46 then
                  (if c_dev c < 0 \<or> c_dev c \<ge> int NDEVS then wild
                   else (case addr_ino (s_mntpt (fsp (c_dev c) s)) of
                           None \<Rightarrow> wild
                         | Some temp \<Rightarrow>
                             do { s \<leftarrow> i_deref wd (upd_ino temp (\<lambda>c. c\<lparr>c_refs := c_refs c + 1\<rparr>) s);
                                  Some (temp, s) }))
                else Some (wd, s)
            | _ \<Rightarrow> wild)
         else Some (wd, s))"

text \<open>One step into the directory \<open>ninode\<close>; \<open>Inl wd\<close> is the exit \<^verbatim>\<open>nodir:\<close> with the directory to release.\<close>

definition walk_step :: "nat \<Rightarrow> nat option \<Rightarrow> u8 list \<Rightarrow> kst \<Rightarrow> ((nat + nat \<times> nat option) \<times> kst) option" where
  "walk_step wd ninode name s =
     (case ninode of
        None \<Rightarrow> Some (Inl wd, set_error ENOENT s)
      | Some n \<Rightarrow> do {
          s \<leftarrow> i_deref wd s;
          if getmode n s \<noteq> F_DIR then Some (Inl n, set_error ENOTDIR s)
          else if getperm n s AND OTH_EX = 0 then Some (Inl n, set_error EPERM s)
          else do {
            (wd, s) \<leftarrow> cross_up n name s;
            (ninode, s) \<leftarrow> srch_dir wd name s;
            Some (Inr (wd, ninode), s) } })"

definition at_mount :: "nat option \<Rightarrow> kst \<Rightarrow> (nat option \<times> kst) option" where
  "at_mount ninode s = (case ninode of None \<Rightarrow> Some (None, s) | Some n \<Rightarrow> do { magic n s; srch_mt n s })"

abbreviation skip_slashes :: "u8 list \<Rightarrow> u8 list" where
  "skip_slashes name \<equiv> dropWhile (\<lambda>c. c = 47) name"

abbreviation skip_comp :: "u8 list \<Rightarrow> u8 list" where
  "skip_comp name \<equiv> dropWhile (\<lambda>c. c \<noteq> 47 \<and> c \<noteq> 0) name"

lemma skip_comp_shorter:
  assumes "skip_slashes name = c # cs" "c \<noteq> 0"
  shows "length (skip_comp (skip_slashes name)) < length name"
proof -
  have "c \<noteq> 47" using hd_dropWhile [of "\<lambda>c. c = 47" name] assms(1) by auto
  then have "skip_comp (skip_slashes name) = skip_comp cs" using assms by simp
  then have "length (skip_comp (skip_slashes name)) \<le> length cs" by (simp add: length_dropWhile_le)
  also have "\<dots> < length (skip_slashes name)" using assms(1) by simp
  also have "\<dots> \<le> length name" by (rule length_dropWhile_le)
  finally show ?thesis .
qed

text \<open>The loop: \<open>Inl wd\<close> at \<^verbatim>\<open>nodir:\<close>, \<open>Inr (wd, ninode)\<close> when the path is used up.\<close>

function walk :: "nat \<Rightarrow> nat option \<Rightarrow> u8 list \<Rightarrow> kst \<Rightarrow> ((nat + nat \<times> nat option) \<times> kst) option" where
  "walk wd ninode name s =
     Option.bind (at_mount ninode s) (\<lambda>(ninode, s).
       case skip_slashes name of
         [] \<Rightarrow> wild
       | c # cs \<Rightarrow>
           if c = 0 then Some (Inr (wd, ninode), s)
           else Option.bind (walk_step wd ninode (c # cs) s) (\<lambda>(r, s).
             case r of Inl wd \<Rightarrow> Some (Inl wd, s)
                     | Inr (wd, ninode) \<Rightarrow> walk wd ninode (skip_comp (c # cs)) s))"
  by pat_completeness auto
termination
proof (relation "measure (\<lambda>(wd, ninode, name, s). length name)", goal_cases)
  case 1
  show ?case by simp
next
  case 2
  then show ?case using skip_comp_shorter by fastforce
qed

declare walk.simps [simp del]

text \<open>What \<^verbatim>\<open>n_open\<close> does once \<^verbatim>\<open>ugets\<close> has copied the name to the buffer \<open>tb\<close>.\<close>

definition n_open_named :: "nat \<Rightarrow> int \<Rightarrow> u8 list \<Rightarrow> bool \<Rightarrow> kst \<Rightarrow> (nat option \<times> nat option option \<times> kst) option" where
  "n_open_named tb r bs parent s = do {
     let s = set_data tb (splice 0 bs (buf_data tb s)) s;
     if r \<noteq> 0 then do { s \<leftarrow> brelse tb s; Some (None, None, s) }
     else do {
       let name = buf_data tb s;
       wd \<leftarrow> (if name ! 0 = 47 then root s else u_cwd s);
       s \<leftarrow> i_ref wd s;
       s \<leftarrow> i_ref wd s;
       (r, s) \<leftarrow> walk wd (Some wd) name s;
       (case r of
          Inr (wd, ninode) \<Rightarrow> do {
            s \<leftarrow> (if parent then Some s else i_deref wd s);
            let s = (if \<not> parent \<and> ninode = None then set_error ENOENT s else s);
            s \<leftarrow> brelse tb s;
            Some (ninode, if parent then Some (Some wd) else None, s) }
        | Inl wd \<Rightarrow> do {
            s \<leftarrow> i_deref wd s;
            s \<leftarrow> brelse tb s;
            Some (None, if parent then Some None else None, s) }) } }"

definition n_open :: "u16 \<Rightarrow> bool \<Rightarrow> kst \<Rightarrow> (nat option \<times> nat option option \<times> kst) option" where
  "n_open uname parent s = do {
     (tb, s) \<leftarrow> tmpbuf s;
     let (r, bs, s) = ugets uname 512 s;
     n_open_named tb r bs parent s }"

subsection \<open>Directory entries\<close>

definition entry_io :: "kst \<Rightarrow> kst" where
  "entry_io s = s\<lparr>u_count := 16, u_base := 0, u_sysio := True\<rparr>"

partial_function (option) chl_search :: "switch \<Rightarrow> nat \<Rightarrow> u8 list \<Rightarrow> kst \<Rightarrow> kst option" where
  "chl_search swp wd oldname s =
     Option.bind (readi swp wd (entry_io s)) (\<lambda>s.
       if u_count s = 0 then Some s
       else Option.bind (namecomp 14 oldname (d_name (bytes_direct (sysbuf s)))) (\<lambda>m.
            if m then Some s else chl_search swp wd oldname s))"

definition back_up :: "kst \<Rightarrow> kst" where
  "back_up s =
     (let p = u_offset s;
          p = (if o_offset p = 0 then p\<lparr>o_blkno := o_blkno p - 1, o_offset := 512\<rparr> else p)
      in s\<lparr>u_offset := p\<lparr>o_offset := o_offset p - 16\<rparr>\<rparr>)"

definition ch_link :: "switch \<Rightarrow> nat \<Rightarrow> u8 list \<Rightarrow> u8 list \<Rightarrow> nat option \<Rightarrow> kst \<Rightarrow> (bool \<times> kst) option" where
  "ch_link swp wd oldname newname nindex s =
     (if getperm wd s AND OTH_WR = 0 then Some (False, set_error EPERM s)
      else do {
        s \<leftarrow> chl_search swp wd oldname
               (s\<lparr>u_offset := \<lparr>o_blkno = 0, o_offset = 0\<rparr>, sysbuf := replicate 16 0\<rparr>);
        if u_count s = 0 \<and> oldname ! 0 \<noteq> 0 then Some (False, s)
        else do {
          let d = \<lparr>d_ino = (case nindex of Some k \<Rightarrow> c_num (inop k s) | None \<Rightarrow> 0), d_name = take 14 newname\<rparr>;
          let s = s\<lparr>sysbuf := direct_bytes d\<rparr>;
          let s = (if u_count s \<noteq> 0 then back_up s else s);
          s \<leftarrow> writei swp wd (entry_io s);
          if u_error s \<noteq> NOERR then Some (False, s)
          else do {
            let s = setftime wd (A_TIME OR M_TIME OR C_TIME) s;
            let z = i_size (c_node (inop wd s));
            Some (True, if o_offset z \<noteq> 0
                        then upd_node wd (\<lambda>n. n\<lparr>i_size := \<lparr>o_blkno = o_blkno z + 1, o_offset = 0\<rparr>\<rparr>) s else s) } } })"

text \<open>The literal \<^verbatim>\<open>""\<close>; the 13 bytes that follow it in memory are taken to be 0.\<close>

definition empty_name :: "u8 list" where
  "empty_name = replicate 14 0"

definition newfile :: "switch \<Rightarrow> nat \<Rightarrow> u8 list \<Rightarrow> kst \<Rightarrow> (nat option \<times> kst) option" where
  "newfile swp pino name s =
     (if getperm pino s AND OTH_WR = 0 then do { s \<leftarrow> i_deref pino s; Some (None, s) }
      else do {
        (p, s) \<leftarrow> i_open (c_dev (inop pino s)) 0 s;
        (case p of
           None \<Rightarrow> do { s \<leftarrow> i_deref pino s; Some (None, s) }
         | Some nindex \<Rightarrow> do {
             let s = upd_node nindex (\<lambda>n. n\<lparr>i_uid := u_euid s, i_gid := u_egid s, i_mode := F_REG, i_nlink := 1,
                       i_size := \<lparr>o_blkno = 0, o_offset = 0\<rparr>, i_addr := replicate 20 0\<rparr>) s;
             s \<leftarrow> wr_inode nindex s;
             (ok, s) \<leftarrow> ch_link swp pino empty_name name (Some nindex) s;
             if \<not> ok then do { s \<leftarrow> i_deref nindex s; s \<leftarrow> i_deref pino s; Some (None, s) }
             else do { s \<leftarrow> i_deref pino s; Some (Some nindex, s) } }) })"

subsection \<open>Mounting\<close>

definition fmount :: "int \<Rightarrow> nat option \<Rightarrow> kst \<Rightarrow> (int \<times> kst) option" where
  "fmount dev ino s =
     (let (r, s) = d_open dev s
      in if r \<noteq> 0 then panic ''fmount: Cant open filesystem''
         else if dev \<ge> int NDEVS then wild
         else do {
           (b, s) \<leftarrow> breadp dev 1 False s;
           let s = upd_fs dev (\<lambda>_. bytes_fs (buf_data b s)) s;
           s \<leftarrow> brelse b s;
           let f = fsp dev s;
           if s_mounted f \<noteq> SMOUNTED \<or> s_isize f \<ge> s_fsize f then Some (- 1, s)
           else do {
             let s = upd_fs dev (\<lambda>f. f\<lparr>s_mntpt := ino_addr ino\<rparr>) s;
             Some (0, case ino of None \<Rightarrow> s | Some k \<Rightarrow> upd_ino k (\<lambda>c. c\<lparr>c_refs := c_refs c + 1\<rparr>) s) } })"

end
