(* ===== verification/FsCalls.thy ===== *)
theory FsCalls
  imports Paths
begin

section \<open>The file system calls: SCALL1.C, SCALL1B.C\<close>

text \<open>
  The system calls on files, as \<^verbatim>\<open>unix2\<close> dispatches them: the arguments are in \<^verbatim>\<open>udata.u_argn\<close> and its
  neighbours, the result is the 16-bit value put into \<^verbatim>\<open>u_retval\<close>. Where the source reads a local
  variable that no path has assigned (the parent that \<^verbatim>\<open>n_open\<close> did not store), the model is \<open>wild\<close>.
  \<open>junk\<close> is what the kernel stack held where \<^verbatim>\<open>ugetc\<close> leaves its variable unset after a fault.
\<close>

definition O_RDONLY :: int where "O_RDONLY = 0"
definition O_WRONLY :: int where "O_WRONLY = 1"
definition O_RDWR :: int where "O_RDWR = 2"

definition valadr :: "u16 \<Rightarrow> u16 \<Rightarrow> kst \<Rightarrow> bool \<times> kst" where
  "valadr base sz s =
     (if base \<ge> u_break s \<and> base + sz < usp_reg s then (False, set_error EFAULT s) else (True, s))"

subsection \<open>open, close, creat, pipe\<close>

definition cantopen :: "nat \<Rightarrow> nat \<Rightarrow> kst \<Rightarrow> (u16 \<times> kst) option" where
  "cantopen uindex oftindex s = do { s \<leftarrow> oft_deref oftindex s; Some (- 1, set_file uindex (- 1) s) }"

definition sys_open :: "switch \<Rightarrow> kst \<Rightarrow> (u16 \<times> kst) option" where
  "sys_open swp s =
     (let flg = sint (u_argn s)
      in if flg < 0 \<or> flg > 2 then Some (- 1, set_error EINVAL s)
         else let (u, s) = uf_alloc s
              in if u = - 1 then Some (- 1, s)
                 else let (k, s) = oft_alloc s; u = nat u
                      in if k = - 1 then Some (- 1, set_file u (- 1) s)
                         else do {
                           let k = nat k;
                           (p, _, s) \<leftarrow> n_open (u_argn1 s) False s;
                           (case p of
                              None \<Rightarrow> cantopen u k s
                            | Some ino \<Rightarrow>
                               (let s = upd_oft k (\<lambda>f. f\<lparr>o_inode := Some ino\<rparr>) s;
                                    perm = getperm ino s
                                in if (flg = O_RDONLY \<or> flg = O_RDWR) \<and> perm AND OTH_RD = 0 \<or>
                                      (flg = O_WRONLY \<or> flg = O_RDWR) \<and> perm AND OTH_WR = 0
                                   then cantopen u k (set_error EPERM s)
                                   else if getmode ino s = F_DIR \<and> (flg = O_WRONLY \<or> flg = O_RDWR)
                                   then cantopen u k (set_error EISDIR s)
                                   else let (r, s) = (if isdevice ino s then d_open (devnum ino s) s else (0, s))
                                        in if r \<noteq> 0 then cantopen u k (set_error ENXIO s)
                                           else do {
                                             let s = set_file u (of_nat k) s;
                                             let s = upd_oft k (\<lambda>f. f\<lparr>o_ptr := \<lparr>o_blkno = 0, o_offset = 0\<rparr>,
                                                                     o_access := word_of_int flg\<rparr>) s;
                                             s \<leftarrow> (if getmode ino s = F_PIPE \<and> o_refs (oftp k s) = 1
                                                   then psleep swp (EvIno ino) s else Some s);
                                             Some (of_nat u, s) })) })"

definition sys_close :: "kst \<Rightarrow> (u16 \<times> kst) option" where
  "sys_close s = do { (r, s) \<leftarrow> doclose (sint (u_argn s)) s; Some (word_of_int r, s) }"

text \<open>A truncated file is read and written from its start again by everyone who has it open.\<close>

definition reset_ptrs :: "nat \<Rightarrow> kst \<Rightarrow> kst" where
  "reset_ptrs ino s =
     s\<lparr>of_tab := map (\<lambda>f. if o_inode f = Some ino then f\<lparr>o_ptr := \<lparr>o_blkno = 0, o_offset = 0\<rparr>\<rparr> else f) (of_tab s)\<rparr>"

text \<open>The part of \<^verbatim>\<open>creat\<close> for a file that exists: the inode to use, or \<open>None\<close> at \<^verbatim>\<open>nogood:\<close>.\<close>

definition creat_old :: "nat \<Rightarrow> nat option \<Rightarrow> kst \<Rightarrow> (nat option \<times> kst) option" where
  "creat_old ino parent s = do {
     s \<leftarrow> deref_ptr parent s;
     if getmode ino s = F_DIR then do { s \<leftarrow> i_deref ino s; Some (None, set_error EISDIR s) }
     else if getperm ino s AND OTH_WR = 0 then do { s \<leftarrow> i_deref ino s; Some (None, set_error EACCES s) }
     else if getmode ino s = F_REG then do { s \<leftarrow> f_trunc ino s; Some (Some ino, reset_ptrs ino s) }
     else Some (Some ino, s) }"

definition creat_new :: "switch \<Rightarrow> nat option \<Rightarrow> kst \<Rightarrow> (nat option \<times> kst) option" where
  "creat_new swp parent s = do {
     (fname, s) \<leftarrow> filename (u_argn1 s) s;
     (p, s) \<leftarrow> (case parent of
                   None \<Rightarrow> Some (None, s)
                 | Some pino \<Rightarrow> if fname ! 0 \<noteq> 0 then newfile swp pino fname s else Some (None, s));
     (case p of
        None \<Rightarrow> Some (None, s)
      | Some ino \<Rightarrow> do {
          let s = upd_node ino (\<lambda>n. n\<lparr>i_mode := F_REG OR (u_argn s AND MODE_MASK AND NOT (u_mask s))\<rparr>) s;
          let s = setftime ino (A_TIME OR M_TIME OR C_TIME) s;
          s \<leftarrow> wr_inode ino s;
          Some (Some ino, s) }) }"

definition sys_creat :: "switch \<Rightarrow> kst \<Rightarrow> (u16 \<times> kst) option" where
  "sys_creat swp s =
     (let (u, s) = uf_alloc s
      in if u = - 1 then Some (- 1, s)
         else let (k, s) = oft_alloc s
              in if k = - 1 then Some (- 1, s)
                 else do {
                   (p, par, s) \<leftarrow> n_open (u_argn1 s) True s;
                   let parent = (case par of None \<Rightarrow> None | Some q \<Rightarrow> q);
                   (r, s) \<leftarrow> (case p of Some ino \<Rightarrow> creat_old ino parent s | None \<Rightarrow> creat_new swp parent s);
                   (case r of
                      None \<Rightarrow> do { s \<leftarrow> oft_deref (nat k) s; Some (- 1, s) }
                    | Some ino \<Rightarrow>
                        Some (word_of_int u,
                          upd_oft (nat k) (\<lambda>f. f\<lparr>o_ptr := \<lparr>o_blkno = 0, o_offset = 0\<rparr>, o_inode := Some ino,
                                                o_access := word_of_int O_WRONLY\<rparr>)
                            (set_file (nat u) (word_of_int k) s))) })"

definition sys_pipe :: "kst \<Rightarrow> (u16 \<times> kst) option" where
  "sys_pipe s =
     (let (u1, s) = uf_alloc s
      in if u1 = - 1 then Some (- 1, s)
      else let (k1, s) = oft_alloc s
      in if k1 = - 1 then Some (- 1, s)
      else let u1 = nat u1; k1 = nat k1; s = set_file u1 (of_nat k1) s; (u2, s) = uf_alloc s
      in if u2 = - 1 then cantopen u1 k1 s
      else let (k2, s) = oft_alloc s
      in if k2 = - 1 then cantopen u1 k1 s
      else do {
        let u2 = nat u2; let k2 = nat k2;
        (p, s) \<leftarrow> i_open (ROOTDEV s) 0 s;
        (case p of
           None \<Rightarrow> do { s \<leftarrow> oft_deref k2 s; cantopen u1 k1 s }
         | Some ino \<Rightarrow>
             (let s = set_file u2 (of_nat k2) s;
                  s = upd_oft k1 (\<lambda>f. f\<lparr>o_ptr := \<lparr>o_blkno = 0, o_offset = 0\<rparr>, o_inode := Some ino, o_access := 0\<rparr>) s;
                  s = upd_oft k2 (\<lambda>f. f\<lparr>o_ptr := \<lparr>o_blkno = 0, o_offset = 0\<rparr>, o_inode := Some ino, o_access := 1\<rparr>) s;
                  s = upd_ino ino (\<lambda>c. c\<lparr>c_refs := c_refs c + 1\<rparr>) s;
                  s = upd_node ino (\<lambda>n. n\<lparr>i_mode := F_PIPE OR 0x1FF, i_nlink := 0\<rparr>) s
              in Some (0, uputw (of_nat u2) (u_argn s + 2) (uputw (of_nat u1) (u_argn s) s)))) })"

subsection \<open>link and unlink\<close>

definition link_to :: "switch \<Rightarrow> nat \<Rightarrow> nat \<Rightarrow> kst \<Rightarrow> (u16 \<times> kst) option" where
  "link_to swp ino parent2 s =
     (if c_dev (inop ino s) \<noteq> c_dev (inop parent2 s) then
        do { s \<leftarrow> i_deref parent2 s; s \<leftarrow> i_deref ino (set_error EXDEV s); Some (- 1, s) }
      else do {
        (fname, s) \<leftarrow> filename (u_argn s) s;
        (ok, s) \<leftarrow> (if fname ! 0 \<noteq> 0 then ch_link swp parent2 empty_name fname (Some ino) s else Some (False, s));
        if \<not> ok then do { s \<leftarrow> i_deref parent2 s; s \<leftarrow> i_deref ino s; Some (- 1, s) }
        else do {
          s \<leftarrow> wr_inode ino (upd_node ino (\<lambda>n. n\<lparr>i_nlink := i_nlink n + 1\<rparr>) s);
          s \<leftarrow> i_deref parent2 (setftime ino C_TIME s);
          s \<leftarrow> i_deref ino s;
          Some (0, s) } })"

definition sys_link :: "switch \<Rightarrow> kst \<Rightarrow> (u16 \<times> kst) option" where
  "sys_link swp s = do {
     (p, _, s) \<leftarrow> n_open (u_argn1 s) False s;
     (case p of
        None \<Rightarrow> Some (- 1, s)
      | Some ino \<Rightarrow>
          if getperm ino s AND OTH_WR = 0 \<and> \<not> super s then
            do { s \<leftarrow> i_deref ino (set_error EPERM s); Some (- 1, s) }
          else do {
            (p2, par, s) \<leftarrow> n_open (u_argn s) True s;
            (case p2 of
               Some ino2 \<Rightarrow> do {
                 s \<leftarrow> i_deref ino2 s;
                 s \<leftarrow> deref_ptr (case par of None \<Rightarrow> None | Some q \<Rightarrow> q) s;
                 s \<leftarrow> i_deref ino (set_error EEXIST s);
                 Some (- 1, s) }
             | None \<Rightarrow>
                 (case par of
                    None \<Rightarrow> wild
                  | Some None \<Rightarrow> do { s \<leftarrow> i_deref ino s; Some (- 1, s) }
                  | Some (Some parent2) \<Rightarrow> link_to swp ino parent2 s)) }) }"

definition drop_link :: "nat \<Rightarrow> kst \<Rightarrow> kst" where
  "drop_link ino =
     upd_node ino (\<lambda>n. if i_nlink n = 0 then n\<lparr>i_nlink := i_nlink n - 1 + 2\<rparr> else n\<lparr>i_nlink := i_nlink n - 1\<rparr>)"

definition unlink_from :: "switch \<Rightarrow> nat \<Rightarrow> nat \<Rightarrow> kst \<Rightarrow> (u16 \<times> kst) option" where
  "unlink_from swp pino ino s =
     (if i_uid (c_node (inop ino s)) \<noteq> u_euid s \<and> getperm ino s AND OTH_WR = 0 \<and> \<not> super s then
        do { s \<leftarrow> i_deref pino (set_error EPERM s); s \<leftarrow> i_deref ino s; Some (- 1, s) }
      else do {
        (fname, s) \<leftarrow> filename (u_argn s) s;
        (ok, s) \<leftarrow> (if fname ! 0 \<noteq> 0 then ch_link swp pino fname empty_name None s else Some (False, s));
        if \<not> ok then do { s \<leftarrow> i_deref pino s; s \<leftarrow> i_deref ino s; Some (- 1, s) }
        else do {
          s \<leftarrow> i_deref pino (setftime ino C_TIME (drop_link ino s));
          s \<leftarrow> i_deref ino s;
          Some (0, s) } })"

definition sys_unlink :: "switch \<Rightarrow> kst \<Rightarrow> (u16 \<times> kst) option" where
  "sys_unlink swp s = do {
     (p, par, s) \<leftarrow> n_open (u_argn s) True s;
     (case par of
        None \<Rightarrow> wild
      | Some None \<Rightarrow> Some (- 1, set_error ENOENT s)
      | Some (Some pino) \<Rightarrow>
          (case p of
             None \<Rightarrow> do { s \<leftarrow> i_deref pino s; Some (- 1, set_error ENOENT s) }
           | Some ino \<Rightarrow> unlink_from swp pino ino s)) }"

subsection \<open>chdir, mknod, access\<close>

definition sys_chdir :: "kst \<Rightarrow> (u16 \<times> kst) option" where
  "sys_chdir s = do {
     (p, _, s) \<leftarrow> n_open (u_argn s) False s;
     (case p of
        None \<Rightarrow> Some (- 1, s)
      | Some newcwd \<Rightarrow>
          if getmode newcwd s \<noteq> F_DIR then do { s \<leftarrow> i_deref newcwd (set_error ENOTDIR s); Some (- 1, s) }
          else do { s \<leftarrow> deref_ptr (u_cwd s) s; Some (0, s\<lparr>u_cwd := Some newcwd\<rparr>) }) }"

definition sys_mknod :: "switch \<Rightarrow> kst \<Rightarrow> (u16 \<times> kst) option" where
  "sys_mknod swp s = do {
     let s = set_error NOERR s;
     (p, par, s) \<leftarrow> n_open (u_argn2 s) True s;
     (case p of
        Some ino \<Rightarrow> do {
          s \<leftarrow> i_deref ino (set_error EEXIST s);
          s \<leftarrow> deref_ptr (case par of None \<Rightarrow> None | Some q \<Rightarrow> q) s;
          Some (- 1, s) }
      | None \<Rightarrow>
          (case par of
             None \<Rightarrow> wild
           | Some None \<Rightarrow> Some (- 1, set_error ENOENT s)
           | Some (Some parent) \<Rightarrow> do {
               (fname, s) \<leftarrow> filename (u_argn2 s) s;
               (q, s) \<leftarrow> (if fname ! 0 \<noteq> 0 then newfile swp parent fname s else Some (None, s));
               (case q of
                  None \<Rightarrow> Some (- 1, s)
                | Some ino \<Rightarrow> do {
                    let s = upd_node ino (\<lambda>n. n\<lparr>i_mode := u_argn1 s AND NOT (u_mask s)\<rparr>) s;
                    let s = upd_node ino (\<lambda>n. n\<lparr>i_addr := (i_addr n)[0 := if isdevice ino s then u_argn s else 0]\<rparr>) s;
                    let s = setftime ino (A_TIME OR M_TIME OR C_TIME) s;
                    s \<leftarrow> wr_inode ino s;
                    s \<leftarrow> i_deref ino s;
                    Some (0, s) }) })) }"

definition sys_access :: "u8 \<Rightarrow> kst \<Rightarrow> (u16 \<times> kst) option" where
  "sys_access junk s =
     (let mode = u_argn s;
          (c, s) = (if mode AND 7 \<noteq> 0 then ugetc junk (u_argn1 s) s else (1, s))
      in if c = 0 then Some (- 1, set_error ENOENT s)
         else do {
           let euid = u_euid s; let egid = u_egid s;
           let s = s\<lparr>u_euid := p_uid (procp (u_ptab s) s), u_egid := u_gid s\<rparr>;
           (p, _, s) \<leftarrow> n_open (u_argn1 s) False s;
           (r, s) \<leftarrow> (case p of
                        None \<Rightarrow> Some (- 1, s)
                      | Some ino \<Rightarrow>
                          (let bad = NOT (getperm ino s) AND (mode AND 7) \<noteq> 0;
                               s = (if bad then set_error EPERM s else s)
                           in do { s \<leftarrow> i_deref ino s; Some (if bad then - 1 else 0, s) }));
           Some (r, s\<lparr>u_euid := euid, u_egid := egid\<rparr>) })"

subsection \<open>Attributes\<close>

text \<open>The pattern of \<^verbatim>\<open>chmod\<close>, \<^verbatim>\<open>chown\<close> and \<^verbatim>\<open>utime\<close>: look the path up, allow the owner and the super
  user, change, stamp and release.\<close>

definition owner_change :: "u16 \<Rightarrow> (nat \<Rightarrow> kst \<Rightarrow> kst) \<Rightarrow> kst \<Rightarrow> (u16 \<times> kst) option" where
  "owner_change path change s = do {
     (p, _, s) \<leftarrow> n_open path False s;
     (case p of
        None \<Rightarrow> Some (- 1, s)
      | Some ino \<Rightarrow>
          if i_uid (c_node (inop ino s)) \<noteq> u_euid s \<and> \<not> super s then
            do { s \<leftarrow> i_deref ino s; Some (- 1, set_error EPERM s) }
          else do { s \<leftarrow> i_deref ino (setftime ino C_TIME (change ino s)); Some (0, s) }) }"

definition sys_chmod :: "kst \<Rightarrow> (u16 \<times> kst) option" where
  "sys_chmod s =
     owner_change (u_argn1 s)
       (\<lambda>ino s. upd_node ino (\<lambda>n. n\<lparr>i_mode := (u_argn s AND MODE_MASK) OR (i_mode n AND F_MASK)\<rparr>) s) s"

definition sys_chown :: "kst \<Rightarrow> (u16 \<times> kst) option" where
  "sys_chown s =
     owner_change (u_argn2 s) (\<lambda>ino s. upd_node ino (\<lambda>n. n\<lparr>i_uid := u_argn1 s, i_gid := u_argn s\<rparr>) s) s"

definition set_times :: "u8 list \<Rightarrow> dinode \<Rightarrow> dinode" where
  "set_times bs n =
     (let ws = bytes_words (splice 0 bs (words_bytes (time_words (i_atime n) @ time_words (i_mtime n))))
      in n\<lparr>i_atime := \<lparr>t_time = ws ! 0, t_date = ws ! 1\<rparr>, i_mtime := \<lparr>t_time = ws ! 2, t_date = ws ! 3\<rparr>\<rparr>)"

definition sys_utime :: "kst \<Rightarrow> (u16 \<times> kst) option" where
  "sys_utime s =
     (let (ok, s) = valadr (u_argn s) 8 s
      in if \<not> ok then Some (- 1, s)
         else owner_change (u_argn1 s)
                (\<lambda>ino s. let (_, bs, s) = uget (u_argn s) 8 s in upd_node ino (set_times bs) s) s)"

text \<open>The first 12 bytes of a table entry from \<^verbatim>\<open>c_dev\<close> on, the first address, and the size and times.\<close>

definition stcpy :: "nat \<Rightarrow> u16 \<Rightarrow> kst \<Rightarrow> kst" where
  "stcpy ino buf s =
     (let c = inop ino s; n = c_node c;
          s = snd (uput (words_bytes [word_of_int (c_dev c), c_num c, i_mode n, i_nlink n, i_uid n, i_gid n]) buf s);
          s = snd (uput (words_bytes [i_addr n ! 0]) (buf + 12) s)
      in snd (uput (words_bytes (off_words (i_size n) @ time_words (i_atime n) @ time_words (i_mtime n) @
                       time_words (i_ctime n))) (buf + 14) s))"

definition sys_stat :: "kst \<Rightarrow> (u16 \<times> kst) option" where
  "sys_stat s =
     (let (ok, s) = valadr (u_argn s) 30 s
      in if \<not> ok then Some (- 1, s)
         else do {
           (p, _, s) \<leftarrow> n_open (u_argn1 s) False s;
           (case p of
              None \<Rightarrow> Some (- 1, s)
            | Some ino \<Rightarrow> do { s \<leftarrow> i_deref ino (stcpy ino (u_argn s) s); Some (0, s) }) })"

definition sys_fstat :: "kst \<Rightarrow> (u16 \<times> kst) option" where
  "sys_fstat s =
     (let (ok, s) = valadr (u_argn s) 30 s
      in if \<not> ok then Some (- 1, s)
         else do {
           (p, s) \<leftarrow> getinode (sint (u_argn1 s)) s;
           (case p of None \<Rightarrow> Some (- 1, s) | Some ino \<Rightarrow> Some (0, stcpy ino (u_argn s) s)) })"

subsection \<open>Descriptors, masks, devices\<close>

definition share_file :: "nat \<Rightarrow> nat \<Rightarrow> kst \<Rightarrow> kst option" where
  "share_file newd oldd s =
     (let s = set_file newd (u_files s ! oldd) s; k = unat (u_files s ! oldd)
      in if k \<ge> OFTSIZE then wild else Some (upd_oft k (\<lambda>f. f\<lparr>o_refs := o_refs f + 1\<rparr>) s))"

definition sys_dup :: "kst \<Rightarrow> (u16 \<times> kst) option" where
  "sys_dup s = do {
     (p, s) \<leftarrow> getinode (sint (u_argn s)) s;
     if p = None then Some (- 1, s)
     else (let (newd, s) = uf_alloc s
           in if newd = - 1 then Some (- 1, s)
              else do { s \<leftarrow> share_file (nat newd) (unat (u_argn s)) s; Some (word_of_int newd, s) }) }"

definition sys_dup2 :: "kst \<Rightarrow> (u16 \<times> kst) option" where
  "sys_dup2 s = do {
     (p, s) \<leftarrow> getinode (sint (u_argn1 s)) s;
     if p = None then Some (- 1, s)
     else if sint (u_argn s) < 0 \<or> sint (u_argn s) \<ge> int UFTSIZE then Some (- 1, set_error EBADF s)
     else do {
       let newd = unat (u_argn s);
       (_, s) \<leftarrow> (if u_files s ! newd AND 0x80 = 0 then doclose (int newd) s else Some (0, s));
       s \<leftarrow> share_file newd (unat (u_argn1 s)) s;
       Some (0, s) } }"

definition sys_umask :: "kst \<Rightarrow> u16 \<times> kst" where
  "sys_umask s = (u_mask s, s\<lparr>u_mask := u_argn s AND 0x1FF\<rparr>)"

definition sys_getfsys :: "kst \<Rightarrow> u16 \<times> kst" where
  "sys_getfsys s =
     (let dev = sint (u_argn1 s)
      in if dev < 0 \<or> dev \<ge> int NDEVS \<or> s_mounted (fsp dev s) \<noteq> SMOUNTED then (- 1, set_error ENXIO s)
         else (0, snd (uput (fs_bytes (fsp dev s)) (u_argn s) s)))"

definition sys_ioctl :: "kst \<Rightarrow> (u16 \<times> kst) option" where
  "sys_ioctl s = do {
     (p, s) \<leftarrow> getinode (sint (u_argn2 s)) s;
     (case p of
        None \<Rightarrow> Some (- 1, s)
      | Some ino \<Rightarrow>
          if \<not> isdevice ino s then Some (- 1, set_error ENOTTY s)
          else if getperm ino s AND OTH_WR = 0 then Some (- 1, set_error EPERM s)
          else let (r, s) = d_ioctl (devnum ino s) (u_argn1 s) (u_argn s) s
               in Some (if r \<noteq> 0 then - 1 else 0, s)) }"

subsection \<open>mount and umount\<close>

text \<open>What \<^verbatim>\<open>mount\<close> does with the two inodes in hand: \<open>True\<close> on success.\<close>

definition mount_on :: "nat \<Rightarrow> nat \<Rightarrow> kst \<Rightarrow> (bool \<times> kst) option" where
  "mount_on sino dino s =
     (if getmode sino s \<noteq> F_BDEV then Some (False, set_error ENOTBLK s)
      else if getmode dino s \<noteq> F_DIR then Some (False, set_error ENOTDIR s)
      else let dev = devnum sino s;
               (r, s) = (if dev \<ge> int NDEVS then (- 1, s) else d_open dev s)
           in if r \<noteq> 0 then Some (False, set_error ENXIO s)
              else if s_mounted (fsp dev s) \<noteq> 0 \<or> c_refs (inop dino s) \<noteq> 1 \<or> c_num (inop dino s) = ROOTINODE
              then Some (False, set_error EBUSY s)
              else do {
                s \<leftarrow> sys_sync s;
                (r, s) \<leftarrow> fmount dev (Some dino) s;
                if r \<noteq> 0 then Some (False, set_error EBUSY s) else Some (True, s) })"

definition sys_mount :: "kst \<Rightarrow> (u16 \<times> kst) option" where
  "sys_mount s =
     (if \<not> super s then Some (- 1, set_error EPERM s)
      else do {
        (p, _, s) \<leftarrow> n_open (u_argn2 s) False s;
        (case p of
           None \<Rightarrow> Some (- 1, s)
         | Some sino \<Rightarrow> do {
             (q, _, s) \<leftarrow> n_open (u_argn1 s) False s;
             (case q of
                None \<Rightarrow> do { s \<leftarrow> i_deref sino s; Some (- 1, s) }
              | Some dino \<Rightarrow> do {
                  (ok, s) \<leftarrow> mount_on sino dino s;
                  s \<leftarrow> i_deref dino s;
                  s \<leftarrow> i_deref sino s;
                  Some (if ok then 0 else - 1, s) }) }) })"

definition umount_dev :: "nat \<Rightarrow> kst \<Rightarrow> (bool \<times> kst) option" where
  "umount_dev sino s =
     (if getmode sino s \<noteq> F_BDEV then Some (False, set_error ENOTBLK s)
      else let dev = devnum sino s
           in if \<not> validdev dev then Some (False, set_error ENXIO s)
              else if dev \<ge> int NDEVS then wild
              else if s_mounted (fsp dev s) = 0 then Some (False, set_error EINVAL s)
              else if scan (\<lambda>k. sint (c_refs (inop k s)) > 0 \<and> c_dev (inop k s) = dev) 0 ITABSIZE \<noteq> None
              then Some (False, set_error EBUSY s)
              else do {
                s \<leftarrow> sys_sync s;
                let s = upd_fs dev (\<lambda>f. f\<lparr>s_mounted := 0\<rparr>) s;
                s \<leftarrow> deref_ptr (addr_ino (s_mntpt (fsp dev s))) s;
                Some (True, s) })"

definition sys_umount :: "kst \<Rightarrow> (u16 \<times> kst) option" where
  "sys_umount s =
     (if \<not> super s then Some (- 1, set_error EPERM s)
      else do {
        (p, _, s) \<leftarrow> n_open (u_argn s) False s;
        (case p of
           None \<Rightarrow> Some (- 1, s)
         | Some sino \<Rightarrow> do {
             (ok, s) \<leftarrow> umount_dev sino s;
             s \<leftarrow> i_deref sino s;
             Some (if ok then 0 else - 1, s) }) })"

end
