(* ===== verification/Process.thy ===== *)
theory Process
  imports FsCalls
begin

section \<open>Processes: PROCESS.C, SCALL2.C, SCALL3.C, MACHDEP.C\<close>

text \<open>
  The process table, signals, the clock interrupt, the scheduler's choice, process exit and wait, and
  the system calls of SCALL2.C and SCALL3.C. The page tables are not part of this state: \<open>upages\<close> says
  which data pages are legal, and the release of a process' pages (\<^verbatim>\<open>pg_free\<close>) is left out of
  \<open>doexit\<close> and \<open>free_zombie\<close>. The 512-byte copy of the user block kept in the buffer \<^verbatim>\<open>p_ublk\<close> is opaque;
  the buffer itself is claimed and released. A routine that may end the process returns \<open>Gone\<close> with the
  state in which \<^verbatim>\<open>doexit\<close> hands the machine to another process.
\<close>

datatype outcome = Ret u16 kst | Gone kst

definition TICKSPERSEC :: u16 where "TICKSPERSEC = 128"
definition MAXTICKS :: u16 where "MAXTICKS = 15"
definition NSIGS :: nat where "NSIGS = 16"
definition SIG_DFL :: u16 where "SIG_DFL = 0"
definition SIG_IGN :: u16 where "SIG_IGN = 1"
definition SIGALRM :: u16 where "SIGALRM = 14"

subsection \<open>Tick counters\<close>

definition addtick :: "time_t \<Rightarrow> time_t \<Rightarrow> time_t" where
  "addtick t1 t2 =
     (let t = \<lparr>t_time = t_time t1 + t_time t2, t_date = t_date t1 + t_date t2\<rparr>
      in if t_time t \<ge> 60 * TICKSPERSEC then \<lparr>t_time = t_time t - 60 * TICKSPERSEC, t_date = t_date t + 1\<rparr> else t)"

definition incrtick :: "time_t \<Rightarrow> time_t" where
  "incrtick t =
     (let t = t\<lparr>t_time := t_time t + 1\<rparr>
      in if t_time t = 60 * TICKSPERSEC then \<lparr>t_time = 0, t_date = t_date t + 1\<rparr> else t)"

subsection \<open>The process table\<close>

text \<open>The zombie kept for its code pages that was used least recently (\<^verbatim>\<open>p_uid\<close> holds the pid of its last
  user).\<close>

definition oldest_zombie :: "kst \<Rightarrow> nat option" where
  "oldest_zombie s =
     snd (fold (\<lambda>k (best, r). if p_status (procp k s) = P_ZOMBIE2 \<and> p_uid (procp k s) < best
                              then (p_uid (procp k s), Some k) else (best, r)) [0..<PTABSIZE] (32100, None))"

definition release_ublk :: "nat \<Rightarrow> kst \<Rightarrow> kst option" where
  "release_ublk k s = (case p_ublk (procp k s) of None \<Rightarrow> wild | Some b \<Rightarrow> brelse b s)"

definition free_zombie :: "kst \<Rightarrow> (bool \<times> kst) option" where
  "free_zombie s =
     (case oldest_zombie s of
        None \<Rightarrow> Some (False, s)
      | Some k \<Rightarrow> do { s \<leftarrow> release_ublk k s; Some (True, upd_proc k (\<lambda>p. p\<lparr>p_status := P_EMPTY\<rparr>) s) })"

partial_function (option) ptab_slot :: "kst \<Rightarrow> (nat option \<times> kst) option" where
  "ptab_slot s =
     (case scan (\<lambda>k. p_status (procp k s) = P_EMPTY) 0 PTABSIZE of
        Some k \<Rightarrow> Some (Some k, s)
      | None \<Rightarrow> Option.bind (free_zombie s) (\<lambda>(ok, s). if ok then ptab_slot s else Some (None, s)))"

definition pid_taken :: "p_tab list \<Rightarrow> u16 \<Rightarrow> bool" where
  "pid_taken tab n \<longleftrightarrow> (\<exists>p \<in> set tab. p_status p \<noteq> P_EMPTY \<and> p_pid p = n)"

definition bump_pid :: "u16 \<Rightarrow> u16" where
  "bump_pid n = (if sint n > 32000 then 1 else n + 1)"

partial_function (option) new_pid :: "p_tab list \<Rightarrow> u16 \<Rightarrow> u16 option" where
  "new_pid tab n = (let n = bump_pid n in if pid_taken tab n then new_pid tab n else Some n)"

definition empty_proc :: p_tab where
  "empty_proc = \<lparr>p_status = 0, p_tty = 0, p_pid = 0, p_uid = 0, p_pptr = None, p_alarm = 0, p_exitval = 0,
     p_wait = NoEvent, p_swap = 0, p_priority = 0, p_pending = 0, p_ignored = 0, p_ublk = None, p_waitno = 0,
     p_inode = 0, p_idev = 0, p_idate = \<lparr>t_time = 0, t_date = 0\<rparr>, p_bintype = 0, p_fork_inf = 0\<rparr>"

definition ptab_fill :: "nat \<Rightarrow> kst \<Rightarrow> kst option" where
  "ptab_fill k s = do {
     n \<leftarrow> new_pid (ptab s) (nextpid s);
     let s = upd_proc k (\<lambda>_. empty_proc\<lparr>p_pid := n, p_status := P_FORKING\<rparr>) (s\<lparr>nextpid := n\<rparr>);
     (b, s) \<leftarrow> zerobuf s;
     Some (upd_proc k (\<lambda>p. p\<lparr>p_ublk := Some b\<rparr>) s) }"

definition ptab_alloc :: "kst \<Rightarrow> (nat option \<times> kst) option" where
  "ptab_alloc s = do {
     (q, s) \<leftarrow> ptab_slot s;
     (case q of
        None \<Rightarrow> Some (None, s)
      | Some k \<Rightarrow> do { s \<leftarrow> ptab_fill k s; Some (Some k, s) }) }"

definition share_files :: "kst \<Rightarrow> kst option" where
  "share_files s =
     foldM (\<lambda>j s. let f = u_files s ! j
                  in if f AND 0x80 \<noteq> 0 then Some s
                     else if unat f \<ge> OFTSIZE then wild
                     else Some (upd_oft (unat f) (\<lambda>fl. fl\<lparr>o_refs := o_refs fl + 1\<rparr>) s)) [0..<UFTSIZE] s"

definition newproc :: "nat \<Rightarrow> kst \<Rightarrow> kst option" where
  "newproc k s = do {
     let par = procp (u_ptab s) s;
     tty \<leftarrow> (if p_tty par = 0 then (case p_pptr par of None \<Rightarrow> wild | Some g \<Rightarrow> Some (p_tty (procp g s)))
             else Some (p_tty par));
     let s = upd_proc k (\<lambda>p. p\<lparr>p_swap := of_nat k * 128 + 1, p_status := P_RUNNING, p_pptr := Some (u_ptab s),
                               p_ignored := p_ignored par, p_tty := tty, p_uid := p_uid par\<rparr>) s;
     let z = \<lparr>t_time = 0, t_date = 0\<rparr>;
     let s = s\<lparr>u_ptab := k, u_utime := z, u_stime := z, u_cutime := z, u_cstime := z, u_time := rdtime s\<rparr>;
     s \<leftarrow> (case u_cwd s of None \<Rightarrow> Some s | Some c \<Rightarrow> i_ref c s);
     let s = set_error NOERR (s\<lparr>u_cursig := 0\<rparr>);
     share_files (upd_proc k (\<lambda>p. p\<lparr>p_priority := MAXTICKS\<rparr>) s) }"

subsection \<open>The scheduler's choice\<close>

text \<open>\<^verbatim>\<open>getproc\<close> loops until a process is ready; interrupts, which alone can make one ready meanwhile, are
  not part of the loop here, so that with no ready process it does not return. \<^verbatim>\<open>rw_flag\<close> is 0: a transfer
  of the model is always finished.\<close>

definition next_pp :: "nat \<Rightarrow> nat" where
  "next_pp pp = (if pp + 1 \<ge> PTABSIZE then 0 else pp + 1)"

definition idle_work :: "kst \<Rightarrow> kst" where
  "idle_work s =
     (let s = s\<lparr>lcnt := lcnt s + 1\<rparr>
      in if in_casync (hd s) = 1 \<and> in_cawrite (hd s) = 0 \<and> lcnt s mod 80 = 0 then s\<lparr>hd := int_ca_sync (hd s)\<rparr> else s)"

partial_function (option) getproc :: "kst \<Rightarrow> (nat \<times> kst) option" where
  "getproc s =
     (let s = s\<lparr>sched_pp := next_pp (sched_pp s)\<rparr>; st = p_status (procp (sched_pp s) s)
      in if st = P_RUNNING then panic ''getproc: extra running''
         else if st = P_READY then Some (sched_pp s, s)
         else getproc (idle_work s))"

subsection \<open>Exit\<close>

definition close_all :: "kst \<Rightarrow> kst option" where
  "close_all s =
     foldM (\<lambda>j s. if u_files s ! j AND 0x80 = 0 then do { (_, s) \<leftarrow> doclose (int j) s; Some s } else Some s)
       [0..<UFTSIZE] s"

definition live_child :: "nat \<Rightarrow> nat \<Rightarrow> kst \<Rightarrow> bool" where
  "live_child par k s \<longleftrightarrow>
     (let p = procp k s in p_status p \<noteq> P_EMPTY \<and> p_status p \<noteq> P_ZOMBIE2 \<and> p_pptr p = Some par \<and> k \<noteq> par)"

definition orphan_children :: "nat \<Rightarrow> kst \<Rightarrow> kst" where
  "orphan_children par s =
     s\<lparr>ptab := map (\<lambda>k. if live_child par k s then (procp k s)\<lparr>p_pptr := p_pptr (procp par s)\<rparr> else procp k s)
                [0..<length (ptab s)]\<rparr>"

definition pptr_event :: "nat option \<Rightarrow> event" where
  "pptr_event p = (case p of None \<Rightarrow> NoEvent | Some k \<Rightarrow> EvPtab k)"

text \<open>\<^verbatim>\<open>bcopy(&u_utime, p_wait, 8)\<close> copies to the address in \<^verbatim>\<open>p_wait\<close>, which is NULL for a process that
  runs.\<close>

definition doexit :: "u16 \<Rightarrow> u16 \<Rightarrow> kst \<Rightarrow> kst option" where
  "doexit val val2 s = do {
     s \<leftarrow> close_all s;
     let me = u_ptab s;
     let s = upd_proc me (\<lambda>p. p\<lparr>p_exitval := push_bit 8 val OR (val2 AND 0xFF)\<rparr>) s;
     s \<leftarrow> deref_ptr (u_cwd s) s;
     let s = s\<lparr>u_utime := addtick (u_utime s) (u_cutime s), u_stime := addtick (u_stime s) (u_cstime s)\<rparr>;
     s \<leftarrow> (if p_wait (procp me s) = NoEvent then Some (s\<lparr>low_times := (u_utime s, u_stime s)\<rparr>) else wild);
     let s = upd_proc me (\<lambda>p. p\<lparr>p_status := P_ZOMBIE\<rparr>) s;
     let s = orphan_children me s;
     let s = wakeup (pptr_event (p_pptr (procp me s))) s;
     release_ublk me s }"

subsection \<open>Signals\<close>

fun chk_loop :: "nat list \<Rightarrow> kst \<Rightarrow> (bool \<times> kst) option" where
  "chk_loop [] s = Some (False, s)"
| "chk_loop (j # js) s =
     (let me = u_ptab s; m = sigmask (of_nat j)
      in if m AND p_pending (procp me s) = 0 then chk_loop js s
         else if u_sigvec s ! j = SIG_DFL then do { s \<leftarrow> doexit 0 (of_nat j) s; Some (True, s) }
         else if u_sigvec s ! j \<noteq> SIG_IGN then
           chk_loop js ((upd_proc me (\<lambda>p. p\<lparr>p_pending := p_pending p AND NOT m\<rparr>) s)\<lparr>u_cursig := of_nat j\<rparr>)
         else chk_loop js s)"

definition chksigs :: "kst \<Rightarrow> (bool \<times> kst) option" where
  "chksigs s = (if p_pending (procp (u_ptab s) s) = 0 then Some (False, s) else chk_loop [1..<NSIGS] s)"

definition gettrap :: "kst \<Rightarrow> u16 \<times> kst" where
  "gettrap s =
     (if u_cursig s \<noteq> 0 then
        (u_sigvec s ! unat (u_cursig s), s\<lparr>u_sigvec := (u_sigvec s)[unat (u_cursig s) := SIG_DFL]\<rparr>)
      else (0, s))"

text \<open>\<^verbatim>\<open>trap_3\<close> sends SIGILL to the running process.\<close>

definition trap_3 :: "kst \<Rightarrow> (bool \<times> kst) option" where
  "trap_3 s = chksigs (ssig (u_ptab s) 4 s)"

subsection \<open>The clock interrupt\<close>

definition alarm1 :: "p_tab \<Rightarrow> p_tab" where
  "alarm1 p =
     (if p_alarm p \<noteq> 0 then
        (let p = p\<lparr>p_alarm := p_alarm p - 1\<rparr> in if p_alarm p = 0 then ssig1 SIGALRM p else p)
      else p)"

text \<open>\<open>clk\<close> is the date and time that \<^verbatim>\<open>rdtod\<close> reads from the clock chip.\<close>

definition second :: "time_t \<Rightarrow> kst \<Rightarrow> kst" where
  "second clk s =
     (let s = s\<lparr>sec := 0, tod := clk, ptab := map alarm1 (ptab s), sec_counter := sec_counter s + 1\<rparr>
      in if sint (sec_counter s) > 120 then
           (let s = s\<lparr>sec_counter := 0\<rparr>
            in if in_casync (hd s) = 0 then s\<lparr>hd := (hd s)\<lparr>in_casync := 1\<rparr>\<rparr> else s)
         else s)"

definition clkint2 :: "switch \<Rightarrow> time_t \<Rightarrow> bool \<Rightarrow> kst \<Rightarrow> kst option" where
  "clkint2 swp clk user s =
     (let s = s\<lparr>inint := 1\<rparr>;
          s = (if p_status (procp (u_ptab s) s) = P_RUNNING then
                 (if user then s\<lparr>u_utime := incrtick (u_utime s)\<rparr> else s\<lparr>u_stime := incrtick (u_stime s)\<rparr>)
               else s);
          s = s\<lparr>ticks := incrtick (ticks s), sec := sec s + 1\<rparr>;
          s = (if sec s = TICKSPERSEC then second clk s else s);
          s = s\<lparr>runticks := runticks s + 1\<rparr>
      in do {
        s \<leftarrow> (if sint (runticks s) \<ge> sint (p_priority (procp (u_ptab s) s)) \<and> user \<and> inint s = 1 then do {
                s \<leftarrow> swp (upd_proc (u_ptab s) (\<lambda>p. p\<lparr>p_status := P_READY\<rparr>) (s\<lparr>u_insys := 1, inint := 0\<rparr>));
                Some (s\<lparr>u_insys := 0\<rparr>) }
              else Some s);
        Some (s\<lparr>inint := 0\<rparr>) })"

subsection \<open>brk, wait, exit, pause\<close>

text \<open>A page of the data space that was not allocated becomes a virgin page, which is legal.\<close>

definition sys_brk :: "kst \<Rightarrow> u16 \<times> kst" where
  "sys_brk s =
     (let addr = u_argn s
      in if addr \<ge> u_usp s - 512 then (- 1, set_error ENOMEM s)
         else (0, s\<lparr>u_break := addr, upages := map (\<lambda>j. if j \<le> page_no addr then True else upages s ! j) [0..<length (upages s)]\<rparr>))"

definition sys_sbrk :: "kst \<Rightarrow> u16 \<times> kst" where
  "sys_sbrk s =
     (let oldbrk = u_break s; s = s\<lparr>u_argn := u_argn s + oldbrk\<rparr>
      in if u_argn s < oldbrk then (- 1, s)
         else let (r, s) = sys_brk s in if r \<noteq> 0 then (- 1, s) else (oldbrk, s))"

text \<open>Collecting an exited child: its times are read through its \<^verbatim>\<open>p_wait\<close>, which is NULL.\<close>

definition reap :: "u16 \<Rightarrow> nat \<Rightarrow> kst \<Rightarrow> (u16 \<times> kst) option" where
  "reap statloc k s =
     (let p = procp k s;
          s = (if statloc \<noteq> 0 then uputw (p_exitval p) statloc s else s);
          s = upd_proc k (\<lambda>p. p\<lparr>p_status := P_EMPTY\<rparr>) s
      in if p_wait p \<noteq> NoEvent then wild
         else Some (p_pid p, s\<lparr>u_cutime := addtick (u_cutime s) (fst (low_times s)),
                               u_cstime := addtick (u_cstime s) (snd (low_times s))\<rparr>))"

partial_function (option) wait_loop :: "switch \<Rightarrow> kst \<Rightarrow> outcome option" where
  "wait_loop swp s =
     Option.bind (chksigs s) (\<lambda>(gone, s).
       if gone then Some (Gone s)
       else if u_cursig s \<noteq> 0 then Some (Ret (- 1) (set_error EINTR s))
       else (case scan (\<lambda>k. p_status (procp k s) = P_ZOMBIE \<and> p_pptr (procp k s) = Some (u_ptab s)) 0 PTABSIZE of
               Some k \<Rightarrow> map_option (\<lambda>(r, s). Ret r s) (reap (u_argn s) k s)
             | None \<Rightarrow> Option.bind (psleep swp (EvPtab (u_ptab s)) s) (wait_loop swp)))"

definition sys_wait :: "switch \<Rightarrow> kst \<Rightarrow> outcome option" where
  "sys_wait swp s =
     (let statloc = u_argn s; (ok, s) = (if statloc \<noteq> 0 then valadr statloc 2 s else (True, s))
      in if \<not> ok then Some (Ret (- 1) (set_error EFAULT s))
         else if scan (\<lambda>k. live_child (u_ptab s) k s) 0 PTABSIZE = None then Some (Ret (- 1) (set_error ECHILD s))
         else wait_loop swp s)"

definition sys_exit :: "kst \<Rightarrow> outcome option" where
  "sys_exit s = map_option Gone (doexit (u_argn s) 0 s)"

definition sys_pause :: "switch \<Rightarrow> kst \<Rightarrow> (u16 \<times> kst) option" where
  "sys_pause swp s = do { s \<leftarrow> psleep swp NoEvent s; Some (- 1, set_error EINTR s) }"

subsection \<open>Identity and time\<close>

definition sys_getpid :: "kst \<Rightarrow> u16 \<times> kst" where
  "sys_getpid s = (p_pid (procp (u_ptab s) s), s)"

definition sys_getppid :: "kst \<Rightarrow> (u16 \<times> kst) option" where
  "sys_getppid s = (case p_pptr (procp (u_ptab s) s) of None \<Rightarrow> wild | Some k \<Rightarrow> Some (p_pid (procp k s), s))"

definition sys_getuid :: "kst \<Rightarrow> u16 \<times> kst" where
  "sys_getuid s = (p_uid (procp (u_ptab s) s), s)"

definition sys_getgid :: "kst \<Rightarrow> u16 \<times> kst" where
  "sys_getgid s = (u_gid s, s)"

definition sys_setuid :: "kst \<Rightarrow> u16 \<times> kst" where
  "sys_setuid s =
     (let uid = u_argn s
      in if super s \<or> p_uid (procp (u_ptab s) s) = uid
         then (0, (upd_proc (u_ptab s) (\<lambda>p. p\<lparr>p_uid := uid\<rparr>) s)\<lparr>u_euid := uid\<rparr>)
         else (- 1, set_error EPERM s))"

definition sys_setgid :: "kst \<Rightarrow> u16 \<times> kst" where
  "sys_setgid s =
     (let gid = u_argn s
      in if super s \<or> u_gid s = gid then (0, s\<lparr>u_gid := gid, u_egid := gid\<rparr>) else (- 1, set_error EPERM s))"

definition sys_time :: "kst \<Rightarrow> u16 \<times> kst" where
  "sys_time s = (0, snd (uput (words_bytes (time_words (rdtime s))) (u_argn s) s))"

definition sys_stime :: "kst \<Rightarrow> u16 \<times> kst" where
  "sys_stime s = (- 1, set_error EPERM s)"

definition sys_times :: "kst \<Rightarrow> u16 \<times> kst" where
  "sys_times s =
     (let (ok, s) = valadr (u_argn s) 24 s
      in if \<not> ok then (- 1, s)
         else let s = snd (uput (words_bytes (time_words (u_utime s) @ time_words (u_stime s) @
                                  time_words (u_cutime s) @ time_words (u_cstime s))) (u_argn s) s)
              in (0, snd (uput (words_bytes (time_words (ticks s))) (u_argn s + 16) s)))"

subsection \<open>signal, kill, alarm\<close>

definition sys_signal :: "kst \<Rightarrow> u16 \<times> kst" where
  "sys_signal s =
     (let sg = sint (u_argn1 s); func = u_argn s; m = sigmask (u_argn1 s)
      in if sg < 1 \<or> sg \<ge> int NSIGS then (- 1, set_error EINVAL s)
         else let s = upd_proc (u_ptab s) (\<lambda>p. p\<lparr>p_ignored := if func = SIG_IGN then p_ignored p OR m
                                                               else p_ignored p AND NOT m\<rparr>) s
              in (u_sigvec s ! nat sg, s\<lparr>u_sigvec := (u_sigvec s)[nat sg := func]\<rparr>))"

definition sys_kill :: "kst \<Rightarrow> u16 \<times> kst" where
  "sys_kill s =
     (if sint (u_argn s) \<le> 0 \<or> sint (u_argn s) > 15 then (- 1, set_error EINVAL s)
      else (case scan (\<lambda>k. p_pid (procp k s) = u_argn1 s) 0 PTABSIZE of
              None \<Rightarrow> (- 1, set_error EINVAL s)
            | Some k \<Rightarrow>
                if p_uid (procp (u_ptab s) s) = p_uid (procp k s) \<or> super s then (0, ssig k (u_argn s) s)
                else (- 1, set_error EPERM s)))"

definition sys_alarm :: "kst \<Rightarrow> u16 \<times> kst" where
  "sys_alarm s =
     (p_alarm (procp (u_ptab s) s), upd_proc (u_ptab s) (\<lambda>p. p\<lparr>p_alarm := u_argn s\<rparr>) s)"

end
