(* ===== verification/Syscalls.thy ===== *)
theory Syscalls
  imports Process
begin

section \<open>The system call trap: DATA.C, PROCESS.C\<close>

text \<open>
  The dispatch table and \<^verbatim>\<open>unix2\<close>, which the trap handler calls with the call's number in \<^verbatim>\<open>u_callno\<close>.
  \<^verbatim>\<open>_fork\<close> ends in the assembly routine \<^verbatim>\<open>dofork\<close> and \<^verbatim>\<open>_execve\<close> replaces the user memory; they are
  the arguments \<open>fork\<close> and \<open>execve\<close>. \<open>junk\<close> is the stack content that \<^verbatim>\<open>ugetw\<close> and \<^verbatim>\<open>ugetc\<close> return after a
  fault. The result is \<open>Inl e\<close> for a return with the carry set and the error number, \<open>Inr r\<close> otherwise.
\<close>

definition plain :: "(kst \<Rightarrow> u16 \<times> kst) \<Rightarrow> kst \<Rightarrow> outcome option" where
  "plain f s = (let (r, s) = f s in Some (Ret r s))"

definition partial :: "(kst \<Rightarrow> (u16 \<times> kst) option) \<Rightarrow> kst \<Rightarrow> outcome option" where
  "partial f s = map_option (\<lambda>(r, s). Ret r s) (f s)"

text \<open>\<^verbatim>\<open>_sync\<close> has no return statement: its value is what the register held.\<close>

definition sys_sync_call :: "u16 \<Rightarrow> kst \<Rightarrow> outcome option" where
  "sys_sync_call junk s = map_option (Ret junk) (sys_sync s)"

definition disp_tab ::
  "switch \<Rightarrow> u16 \<Rightarrow> (kst \<Rightarrow> outcome option) \<Rightarrow> (kst \<Rightarrow> outcome option) \<Rightarrow> (kst \<Rightarrow> outcome option) list" where
  "disp_tab swp junk fork execve =
     [sys_exit, partial (sys_open swp), partial sys_close, partial (sys_creat swp), partial (sys_mknod swp),
      partial (sys_link swp), partial (sys_unlink swp), partial (sys_read swp), partial (sys_write swp),
      partial sys_seek, partial sys_chdir, sys_sync_call junk, partial (sys_access (lo8 junk)), partial sys_chmod,
      partial sys_chown, partial sys_stat, partial sys_fstat, partial sys_dup, plain sys_getpid,
      partial sys_getppid, plain sys_getuid, plain sys_umask, plain sys_getfsys, execve, sys_wait swp,
      plain sys_setuid, plain sys_setgid, plain sys_time, plain sys_stime, partial sys_ioctl, plain sys_brk,
      plain sys_sbrk, fork, partial sys_mount, partial sys_umount, plain sys_signal, partial sys_dup2,
      partial (sys_pause swp), plain sys_alarm, plain sys_kill, partial sys_pipe, plain sys_getgid,
      plain sys_times, partial sys_utime]"

definition ncalls :: int where "ncalls = 44"

text \<open>\<^verbatim>\<open>u_callno\<close> is a \<^verbatim>\<open>char\<close>: a number from 128 on is negative, passes the test against \<^verbatim>\<open>ncalls\<close> and indexes
  before the table.\<close>

definition fetch_args :: "u16 \<Rightarrow> kst \<Rightarrow> kst" where
  "fetch_args junk s =
     (let s = set_error NOERR (s\<lparr>u_insys := 1, u_usp := usp_reg s\<rparr>);
          (w, s) = ugetw junk (u_usp s + 8) s; s = s\<lparr>u_argn3 := w\<rparr>;
          (w, s) = ugetw junk (u_usp s + 6) s; s = s\<lparr>u_argn2 := w\<rparr>;
          (w, s) = ugetw junk (u_usp s + 4) s; s = s\<lparr>u_argn1 := w\<rparr>;
          (w, s) = ugetw junk (u_usp s + 2) s; s = s\<lparr>u_argn := w\<rparr>;
          (w, s) = ugetw junk (u_usp s) s
      in s\<lparr>u_retloc := w\<rparr>)"

definition call :: "switch \<Rightarrow> u16 \<Rightarrow> (kst \<Rightarrow> outcome option) \<Rightarrow> (kst \<Rightarrow> outcome option) \<Rightarrow> kst \<Rightarrow> outcome option" where
  "call swp junk fork execve s =
     (let n = sint (u_callno s); s = (if n \<ge> ncalls then set_error EINVAL s else s)
      in if u_error s \<noteq> NOERR then Some (Ret (u_retval s) s)
         else if n < 0 then wild
         else (disp_tab swp junk fork execve ! nat n) s)"

definition time_slice :: "switch \<Rightarrow> kst \<Rightarrow> kst option" where
  "time_slice swp s =
     (if sint (runticks s) \<ge> sint (p_priority (procp (u_ptab s) s))
      then swp (upd_proc (u_ptab s) (\<lambda>p. p\<lparr>p_status := P_READY\<rparr>) s) else Some s)"

definition unix2 ::
  "switch \<Rightarrow> u16 \<Rightarrow> (kst \<Rightarrow> outcome option) \<Rightarrow> (kst \<Rightarrow> outcome option) \<Rightarrow> kst \<Rightarrow> ((errno + u16) option \<times> kst) option" where
  "unix2 swp junk fork execve s = do {
     r \<leftarrow> call swp junk fork execve (fetch_args junk s);
     (case r of
        Gone s \<Rightarrow> Some (None, s)
      | Ret v s \<Rightarrow> do {
          (gone, s) \<leftarrow> chksigs (s\<lparr>u_retval := v\<rparr>);
          if gone then Some (None, s)
          else do {
            s \<leftarrow> time_slice swp s;
            let s = s\<lparr>u_insys := 0\<rparr>;
            Some (Some (if u_error s \<noteq> NOERR then Inl (u_error s) else Inr (u_retval s)), s) } }) }"

end
