(* ===== verification/Console.thy ===== *)
theory Console
  imports Syscalls
begin

section \<open>Console messages: ITOB.C, KPRINTF.C, MACHDEP.C\<close>

text \<open>
  Number formatting and the kernel's \<^verbatim>\<open>kprintf\<close>, which writes to the serial line. The arguments of
  \<^verbatim>\<open>kprintf\<close> are words or strings. \<^verbatim>\<open>itob\<close> is for bases 2 to 36 (and -10, signed decimal); for a base
  below 2 its loop would not end, and the model gives no digits.
\<close>

subsection \<open>Conversion of numbers\<close>

definition digit :: "u16 \<Rightarrow> u8" where
  "digit d = (let c = ucast (d + 48) in if sint c > 57 then c + 7 else c)"

function itob_digits :: "u16 \<Rightarrow> u16 \<Rightarrow> u8 list" where
  "itob_digits base u =
     (if base < 2 then []
      else digit (u mod base) # (if u div base > 0 then itob_digits base (u div base) else []))"
  by pat_completeness auto
termination
proof (relation "measure (\<lambda>(base, u). unat u)", goal_cases)
  case 1
  show ?case by simp
next
  case (2 base u)
  then have "u \<noteq> 0" by (metis div_0 word_neq_0_conv)
  then have "0 < unat u" by (simp add: unat_gt_0)
  moreover have "1 < unat base" using 2(1) by (simp add: word_less_nat_alt not_less)
  ultimately show ?case by (simp add: unat_div_distrib)
qed

declare itob_digits.simps [simp del]

definition itob :: "u16 \<Rightarrow> int \<Rightarrow> u8 list" where
  "itob n base =
     (let negative = sint n < 0 \<and> base = - 10;
          u = (if negative then - n else n);
          base = (if base = - 10 then 10 else base);
          ds = itob_digits (word_of_int base) u
      in rev (if negative then ds @ [45] else ds))"

subsection \<open>kprintf\<close>

definition kputchar :: "u16 \<Rightarrow> kst \<Rightarrow> kst" where
  "kputchar c s =
     (let s = (if c = 10 then tty_putc 5 13 s else s);
          s = tty_putc 5 c s
      in if c = 9 then tty_putc 5 6 s else s)"

definition kputs :: "u8 list \<Rightarrow> kst \<Rightarrow> kst" where
  "kputs str s = fold (\<lambda>c. kputchar (scast c)) (takeWhile (\<lambda>c. c \<noteq> 0) str) s"

datatype arg = Word u16 | Str "u8 list"

fun doprnt :: "u8 list \<Rightarrow> arg list \<Rightarrow> kst \<Rightarrow> kst option" where
  "doprnt [] as s = Some s"
| "doprnt [c] as s = (if c = 37 then wild else Some (kputchar (scast c) s))"
| "doprnt (c # f # fmt) as s =
     (if c \<noteq> 37 then doprnt (f # fmt) as (kputchar (scast c) s)
      else if f = 99 then
        (case as of Word w # as \<Rightarrow> doprnt fmt as (kputchar w s) | _ \<Rightarrow> wild)
      else if f = 100 \<or> f = 111 \<or> f = 117 \<or> f = 120 then
        (case as of
           Word w # as \<Rightarrow>
             doprnt fmt as (kputs (itob w (if f = 100 then - 10 else if f = 111 then 8 else if f = 117 then 10 else 16)) s)
         | _ \<Rightarrow> wild)
      else if f = 115 then
        (case as of Str x # as \<Rightarrow> doprnt fmt as (kputs x s) | _ \<Rightarrow> wild)
      else doprnt fmt as (kputchar (scast f) s))"

definition kprintf :: "u8 list \<Rightarrow> arg list \<Rightarrow> kst \<Rightarrow> kst option" where
  "kprintf fmt as s = doprnt fmt as s"

end
