(* ===== verification/FreeList.thy ===== *)
theory FreeList
  imports Sample
begin

section \<open>The free list of a file system as a stack\<close>

text \<open>
  The abstract specification of \<^verbatim>\<open>blk_alloc\<close> and \<^verbatim>\<open>blk_free\<close>: the free blocks of a device are a stack
  \<open>xs\<close>. \<open>free_stack\<close> says how the superblock's array and the chain of blocks below it represent one,
  \<open>fs_ok\<close> adds that the superblock is sane, that every block of the stack is a data block and occurs
  once, and that \<^verbatim>\<open>s_tfree\<close> counts them. Allocation pops (and zeroes the block), freeing pushes.
\<close>

definition chunk_of :: "block \<Rightarrow> u16 list" where
  "chunk_of b = take (unat (get16 b 0)) (take 50 (drop 1 (bytes_words b)))"

inductive free_stack :: "(u16 \<Rightarrow> block) \<Rightarrow> u16 list \<Rightarrow> u16 list \<Rightarrow> bool" for V where
  bottom: "free_stack V [0] []"
| in_core: "tbl \<noteq> [] \<Longrightarrow> x \<noteq> 0 \<Longrightarrow> free_stack V tbl xs \<Longrightarrow> free_stack V (tbl @ [x]) (x # xs)"
| on_disk: "x \<noteq> 0 \<Longrightarrow> 1 \<le> unat (get16 (V x) 0) \<Longrightarrow> unat (get16 (V x) 0) \<le> 50 \<Longrightarrow>
    free_stack V (chunk_of (V x)) xs \<Longrightarrow> free_stack V [x] (x # xs)"

inductive_cases free_stack_consE: "free_stack V tbl (x # xs)"
inductive_cases free_stack_nilE: "free_stack V tbl []"

definition table :: "filesys \<Rightarrow> u16 list" where
  "table f = take (unat (s_nfree f)) (s_free f)"

definition data_blk :: "filesys \<Rightarrow> u16 \<Rightarrow> bool" where
  "data_blk f x \<longleftrightarrow> s_isize f \<le> x \<and> x < s_fsize f"

definition super_ok :: "filesys \<Rightarrow> u16 list \<Rightarrow> bool" where
  "super_ok f xs \<longleftrightarrow> s_mounted f = SMOUNTED \<and> fs_shape f \<and> 1 \<le> unat (s_nfree f) \<and> unat (s_nfree f) \<le> 50 \<and>
     distinct xs \<and> (\<forall>x \<in> set xs. x \<noteq> 0 \<and> data_blk f x) \<and> unat (s_tfree f) = length xs"

definition fs_ok :: "kst \<Rightarrow> int \<Rightarrow> u16 list \<Rightarrow> bool" where
  "fs_ok s dev xs \<longleftrightarrow> disk_dev dev \<and> length (fs_tab s) = 4 \<and> super_ok (fsp dev s) xs \<and>
     free_stack (bview s dev) (table (fsp dev s)) xs"

lemma free_stack_cong:
  assumes "free_stack V tbl xs" "\<And>x. x \<in> set xs \<Longrightarrow> W x = V x"
  shows "free_stack W tbl xs"
  using assms
proof (induction rule: free_stack.induct)
  case bottom
  show ?case by (rule free_stack.bottom)
next
  case (in_core tbl x xs)
  then show ?case by (simp add: free_stack.in_core)
next
  case (on_disk x xs)
  then have "W x = V x" by simp
  with on_disk show ?case by (intro free_stack.on_disk) simp_all
qed

lemma free_stack_nonempty: "free_stack V tbl xs \<Longrightarrow> tbl \<noteq> []"
  by (induction rule: free_stack.induct) auto

lemma free_stack_top: "free_stack V tbl xs \<Longrightarrow> last tbl = (case xs of [] \<Rightarrow> 0 | x # _ \<Rightarrow> x)"
  by (induction rule: free_stack.induct) auto

lemma table_snoc:
  assumes "fs_shape f" "1 \<le> unat (s_nfree f)" "unat (s_nfree f) \<le> 50"
  shows "table f = take (unat (s_nfree f - 1)) (s_free f) @ [s_free f ! unat (s_nfree f - 1)]"
proof -
  obtain n where n: "unat (s_nfree f) = Suc n" using assms(2) by (cases "unat (s_nfree f)") auto
  then have "s_nfree f \<noteq> 0" by auto
  then have "unat (s_nfree f - 1) = n" using n by (simp add: unat_minus1_u16)
  with n assms show ?thesis by (simp add: table_def take_Suc_conv_app_nth fs_shape_def)
qed

lemma nfree_range:
  assumes "1 \<le> unat (w :: u16)" "unat w \<le> 50"
  shows "\<not> sint w \<le> 0 \<and> \<not> sint w > 50"
proof -
  have "sint w = int (unat w)" by (rule sint_small) (use assms in simp)
  then show ?thesis using assms by linarith
qed

lemma length_free_blocks:
  assumes "distinct (xs :: u16 list)" "0 \<notin> set xs"
  shows "length xs < 65536"
proof -
  have "length xs = card (set xs)" using assms(1) by (simp add: distinct_card)
  also have "\<dots> < card (UNIV :: u16 set)"
    using assms(2) by (intro psubset_card_mono) auto
  finally show ?thesis by (simp add: card_word)
qed


lemma fs_okD:
  assumes "fs_ok s dev xs"
  shows "disk_dev dev" "length (fs_tab s) = 4" "super_ok (fsp dev s) xs"
    "free_stack (bview s dev) (table (fsp dev s)) xs" "nat dev < 4" "0 \<le> dev" "dev < 4"
  using assms by (auto simp: fs_ok_def disk_dev_def)

lemma fsp_same:
  "nat d < length (fs_tab s) \<Longrightarrow> fsp d (upd_fs d f s) = f (fsp d s)"
  by (simp add: fsp_upd)

lemma fsp_rest: "same_rest s t \<Longrightarrow> fsp d t = fsp d s"
  by (simp add: fsp_def same_rest_kst)

lemma getdev_ok:
  assumes "fs_ok s dev xs"
  shows "\<exists>t. getdev dev s = Some t \<and> t = upd_fs dev (\<lambda>f. f\<lparr>s_time := tod s, s_fmod := 1\<rparr>) s"
  using fs_okD [OF assms] by (simp add: getdev_def super_ok_def SMOUNTED_def rdtime_def)

subsection \<open>Allocation\<close>

definition zero_blk :: block where
  "zero_blk = replicate 512 0"

lemma avail_after:
  assumes "avail H s e a" "others_same i s t" "busyset t = H" "i \<notin> H" "i < 38"
  shows "avail H t e a"
proof -
  have "\<not> bf_busy (bufp i t)" using assms(3-5) by (auto simp: busyset_def)
  then show ?thesis using assms(1) not_held_others [OF _ assms(2)] by (simp add: avail_def)
qed

text \<open>A block read, its buffer released after kernel fields may have changed.\<close>

lemma read_block:
  assumes c: "calm {} H s" and d: "disk_dev d" and av: "avail H s d b"
  shows "\<exists>i t. breadp d b False s = Some (i, t) \<and> buf_data i t = bview s d b \<and> same_rest s t \<and>
    (\<forall>u. same_pool t u \<longrightarrow> (\<exists>v. brelse i u = Some v \<and> calm {} H v \<and> same_rest u v \<and> same_views s v \<and>
       (\<forall>j \<in> H. bufp j v = bufp j s) \<and> (\<forall>e a. avail H s e a \<longrightarrow> avail H v e a)))"
proof -
  from open_read [OF c d av] obtain i t where
    t: "breadp d b False s = Some (i, t)" "i < 38" "i \<notin> H" "calm {} (insert i H) t" "same_rest s t"
      "same_views s t" "others_same i s t" "buf_data i t = bview s d b" by auto
  have "\<exists>v. brelse i u = Some v \<and> calm {} H v \<and> same_rest u v \<and> same_views s v \<and>
       (\<forall>j \<in> H. bufp j v = bufp j s) \<and> (\<forall>e a. avail H s e a \<longrightarrow> avail H v e a)" if u: "same_pool t u" for u
  proof -
    have "calm {} (insert i H) u" using t(4) same_pool_views(2) [OF u] by simp
    from close_read [OF this insertI1] obtain v where
      v: "brelse i u = Some v" "calm {} (insert i H - {i}) v" "same_rest u v" "same_views u v" "others_same i u v"
      by auto
    have os: "others_same i s v"
      using v(5) t(7) same_pool_views(5) [OF u] by (simp add: others_same_def)
    have "same_views s v" using v(4) t(6) same_pool_views(1) [OF u] by (simp add: same_views_def)
    moreover have cv: "calm {} H v" using v(2) t(3) by simp
    moreover have "bufp j v = bufp j s" if "j \<in> H" for j using os t(3) that by (metis others_same_def)
    moreover have "avail H v e a" if "avail H s e a" for e a
      using avail_after [OF that os _ t(3,2)] cv by (simp add: calm_def)
    ultimately show ?thesis using v(1,3) by blast
  qed
  with t show ?thesis by blast
qed

text \<open>The common end of an allocation: \<open>g\<close> is the superblock after the pop.\<close>

lemma alloc_finish:
  assumes c: "calm {} H s" and d: "disk_dev dev" and av: "avail H s dev x"
  shows "\<exists>t. breadp dev x True s \<bind> (\<lambda>(b, s). bawrite b (set_data b (replicate 512 0) s)) = Some t \<and>
    calm {} H t \<and> same_rest s t \<and> (\<forall>j \<in> H. bufp j t = bufp j s) \<and>
    (\<forall>e a. disk_dev e \<longrightarrow> bview t e a = (if e = dev \<and> a = x then zero_blk else bview s e a))"
proof -
  from open_rewrite [OF c d av] obtain i t where
    t: "breadp dev x True s = Some (i, t)" "i \<notin> H" "calm {i} (insert i H) t" "same_rest s t"
      "\<forall>e a. disk_dev e \<longrightarrow> \<not> (e = dev \<and> a = x) \<longrightarrow> bview t e a = bview s e a"
      "others_same i s t" "named (bufp i t) dev x" by auto
  have "length (replicate 512 (0 :: u8)) = 512" by simp
  from close_write [OF t(3) insertI1 t(7) d this] obtain u where
    u: "bawrite i (set_data i (replicate 512 0) t) = Some u" "calm {} H u" "same_rest t u"
      "\<forall>e a. disk_dev e \<longrightarrow> bview u e a = (if e = dev \<and> a = x then replicate 512 0 else bview t e a)"
      "others_same i t u" using t(2) by auto
  have "bufp j u = bufp j s" if "j \<in> H" for j
    using t(2,6) u(5) that by (metis others_same_def)
  then show ?thesis using t u same_rest_trans [OF t(4) u(3)] by (auto simp: zero_blk_def)
qed


lemma pop_table:
  assumes st: "free_stack V (table f) (x # xs)" and ok: "super_ok f (x # xs)"
  defines "g \<equiv> f\<lparr>s_nfree := s_nfree f - 1\<rparr>"
  defines "g' \<equiv> if s_nfree g = 0 then load_chunk (V x) g else g"
  assumes len: "length (V x) = 512"
  shows "s_free f ! unat (s_nfree f - 1) = x" "free_stack V (table g') xs" "fs_shape g'"
    "1 \<le> unat (s_nfree g')" "unat (s_nfree g') \<le> 50"
proof -
  note A = ok [unfolded super_ok_def]
  have sn: "table f = take (unat (s_nfree f - 1)) (s_free f) @ [s_free f ! unat (s_nfree f - 1)]"
    using table_snoc [of f] A by simp
  show top: "s_free f ! unat (s_nfree f - 1) = x" using free_stack_top [OF st] by (simp add: sn)
  have nz: "s_nfree f \<noteq> 0" using A by auto
  then have n1: "unat (s_nfree f - 1) = unat (s_nfree f) - 1" by (simp add: unat_minus1_u16)
  have "free_stack V (table g') xs \<and> fs_shape g' \<and> 1 \<le> unat (s_nfree g') \<and> unat (s_nfree g') \<le> 50"
  proof (cases "s_nfree g = 0")
    case True
    then have "unat (s_nfree f - 1) = 0" by (simp add: g_def)
    then have "table f = [x]" using sn top by simp
    with st have "free_stack V [x] (x # xs)" by simp
    then have k: "1 \<le> unat (get16 (V x) 0)" "unat (get16 (V x) 0) \<le> 50" "free_stack V (chunk_of (V x)) xs"
      by (auto elim: free_stack.cases)
    have g': "g' = load_chunk (V x) g" using True by (simp add: g'_def)
    have "table g' = chunk_of (V x)" by (simp add: g' table_def load_chunk_def chunk_of_def)
    moreover have "fs_shape g'" using A len by (simp add: g' load_chunk_def fs_shape_def g_def)
    moreover have "s_nfree g' = get16 (V x) 0" by (simp add: g' load_chunk_def)
    ultimately show ?thesis using k by simp
  next
    case False
    then have g': "g' = g" by (simp add: g'_def)
    have tg: "table f = table g @ [x]" using sn top by (simp add: g_def table_def)
    have "unat (s_nfree g) \<noteq> 0" using False by (simp add: unat_eq_zero)
    then have ne: "table g \<noteq> []" using A by (auto simp: table_def g_def fs_shape_def n1)
    have "free_stack V (table g) xs"
      using st unfolding tg by (cases rule: free_stack.cases) (use ne in auto)
    then show ?thesis using A \<open>unat (s_nfree g) \<noteq> 0\<close> by (simp add: g' g_def fs_shape_def n1) linarith
  qed
  then show "free_stack V (table g') xs" "fs_shape g'" "1 \<le> unat (s_nfree g')" "unat (s_nfree g') \<le> 50"
    by blast+
qed

lemma load_chunk_fields [simp]:
  "s_mounted (load_chunk b f) = s_mounted f" "s_isize (load_chunk b f) = s_isize f" "s_fsize (load_chunk b f) = s_fsize f"
  "s_tfree (load_chunk b f) = s_tfree f" "s_ninode (load_chunk b f) = s_ninode f" "s_inode (load_chunk b f) = s_inode f"
  "s_tinode (load_chunk b f) = s_tinode f" "s_mntpt (load_chunk b f) = s_mntpt f"
  by (simp_all add: load_chunk_def)


text \<open>What both operations keep of the rest of the state.\<close>

text \<open>The state in which nothing but the superblocks, the error code and buffers not in \<open>H\<close> may have changed.\<close>

definition kept :: "nat set \<Rightarrow> kst \<Rightarrow> kst \<Rightarrow> bool" where
  "kept H s t \<longleftrightarrow> (\<exists>g. bst.more t = bst.more (s\<lparr>fs_tab := g\<rparr>)) \<and> (\<forall>j \<in> H. bufp j t = bufp j s)"

lemma kept_obtain:
  assumes "kept H s t"
  obtains g where "same_rest (s\<lparr>fs_tab := g, u_error := u_error t\<rparr>) t" "\<forall>j \<in> H. bufp j t = bufp j s"
  using assms by (auto simp: kept_def same_rest_def)

lemma kept_fields:
  assumes "kept H s t"
  shows "i_tab t = i_tab s" "of_tab t = of_tab s" "u_files t = u_files s" "ptab t = ptab s" "u_ptab t = u_ptab s"
    "u_sysio t = u_sysio s" "u_base t = u_base s" "u_count t = u_count s" "u_offset t = u_offset s" "tod t = tod s"
    "umem t = umem s" "upages t = upages s" "sysbuf t = sysbuf s" "areg t = areg s" "j \<in> H \<Longrightarrow> bufp j t = bufp j s"
proof -
  from assms obtain g where g: "same_rest (s\<lparr>fs_tab := g, u_error := u_error t\<rparr>) t" "\<forall>j \<in> H. bufp j t = bufp j s"
    by (rule kept_obtain)
  note R = same_rest_kst [OF g(1), simplified]
  show "i_tab t = i_tab s" "of_tab t = of_tab s" "u_files t = u_files s" "ptab t = ptab s" "u_ptab t = u_ptab s"
    "u_sysio t = u_sysio s" "u_base t = u_base s" "u_count t = u_count s" "u_offset t = u_offset s" "tod t = tod s"
    "umem t = umem s" "upages t = upages s" "sysbuf t = sysbuf s" "areg t = areg s" "j \<in> H \<Longrightarrow> bufp j t = bufp j s"
    using R g(2) by simp_all
qed

lemma keptI:
  assumes "bst.more t = bst.more (s\<lparr>fs_tab := g\<rparr>)" "\<forall>j \<in> H. bufp j t = bufp j s"
  shows "kept H s t"
  using assms by (auto simp: kept_def)

lemma kept_refl [simp]: "kept H s s"
  by (rule keptI [where g = "fs_tab s"]) simp_all

lemma more_fs: "bst.more t = bst.more s \<Longrightarrow> bst.more (t\<lparr>fs_tab := g\<rparr>) = bst.more (s\<lparr>fs_tab := g\<rparr>)"
  by (cases s; cases t) simp

lemma kept_trans: "kept H s t \<Longrightarrow> kept H t u \<Longrightarrow> kept H s u"
proof -
  assume a: "kept H s t" "kept H t u"
  from a obtain g h where g: "bst.more t = bst.more (s\<lparr>fs_tab := g\<rparr>)" and h: "bst.more u = bst.more (t\<lparr>fs_tab := h\<rparr>)"
    by (auto simp: kept_def)
  have "bst.more u = bst.more (s\<lparr>fs_tab := h\<rparr>)" using h more_fs [OF g, of h] by simp
  then show "kept H s u" using a by (auto simp: kept_def)
qed

lemma kept_mono: "kept H s t \<Longrightarrow> G \<subseteq> H \<Longrightarrow> kept G s t"
  by (auto simp: kept_def)

lemma keptI_rest: "same_rest s t \<Longrightarrow> \<forall>j \<in> H. bufp j t = bufp j s \<Longrightarrow> kept H s t"
  by (rule keptI [where g = "fs_tab s"]) (simp_all add: same_rest_def)

lemma kept_upd_fs [simp]: "kept H s (upd_fs d f s)"
  by (rule keptI) (simp_all add: upd_fs_def bufp_def)

lemma kept_upd_fsI: "kept H s t \<Longrightarrow> kept H s (upd_fs d f t)"
  by (rule kept_trans [OF _ kept_upd_fs])

lemma kept_through:
  assumes "same_rest s t" "same_rest (upd_fs d f t) v" "\<forall>j \<in> H. bufp j v = bufp j s"
  shows "kept H s v"
proof (rule keptI [OF _ assms(3)])
  have "bst.more v = bst.more (t\<lparr>fs_tab := (fs_tab t)[nat d := f (fs_tab t ! nat d)]\<rparr>)"
    using assms(2) by (simp add: same_rest_def upd_fs_def)
  also have "\<dots> = bst.more (s\<lparr>fs_tab := (fs_tab t)[nat d := f (fs_tab t ! nat d)]\<rparr>)"
    using assms(1) by (intro more_fs) (simp add: same_rest_def)
  finally show "bst.more v = bst.more (s\<lparr>fs_tab := (fs_tab t)[nat d := f (fs_tab t ! nat d)]\<rparr>)" .
qed

definition stamped :: "kst \<Rightarrow> filesys \<Rightarrow> filesys" where
  "stamped s f = f\<lparr>s_time := tod s, s_fmod := 1\<rparr>"

lemma stamped_fields [simp]:
  "s_mounted (stamped s f) = s_mounted f" "s_isize (stamped s f) = s_isize f" "s_fsize (stamped s f) = s_fsize f"
  "s_nfree (stamped s f) = s_nfree f" "s_free (stamped s f) = s_free f" "s_tfree (stamped s f) = s_tfree f"
  "s_inode (stamped s f) = s_inode f" "s_ninode (stamped s f) = s_ninode f" "s_tinode (stamped s f) = s_tinode f"
  "s_mntpt (stamped s f) = s_mntpt f" "fs_shape (stamped s f) = fs_shape f"
  "table (stamped s f) = table f" "super_ok (stamped s f) = super_ok f"
  by (simp_all add: stamped_def table_def super_ok_def fs_shape_def data_blk_def fun_eq_iff)

lemma getdev_eq: "fs_ok s dev xs \<Longrightarrow> getdev dev s = Some (upd_fs dev (stamped s) s)"
  using getdev_ok [of s dev xs] by (auto simp: stamped_def [abs_def])

lemma upd_fs_upd_fs: "upd_fs d f (upd_fs d g s) = upd_fs d (\<lambda>x. f (g x)) s"
  by (cases "nat d < length (fs_tab s)") (simp_all add: upd_fs_def list_update_beyond)

text \<open>The refill of the in-core array, and the state the rest of \<^verbatim>\<open>blk_alloc\<close> starts from.\<close>

lemma alloc_refill:
  assumes c: "calm {} H s" and fs: "fs_ok s dev (x # xs)" and av: "avail H s dev x"
  defines "g \<equiv> (stamped s (fsp dev s))\<lparr>s_nfree := s_nfree (fsp dev s) - 1\<rparr>"
  defines "s1 \<equiv> upd_fs dev (\<lambda>f. f\<lparr>s_nfree := s_nfree f - 1\<rparr>) (upd_fs dev (stamped s) s)"
  shows "\<exists>t. (if s_nfree g = 0 then breadp dev x False s1 \<bind> (\<lambda>(b, s). brelse b (upd_fs dev (load_chunk (buf_data b s)) s))
              else Some s1) = Some t \<and>
    calm {} H t \<and> avail H t dev x \<and> same_views s t \<and> kept H s t \<and> u_error t = u_error s \<and>
    fs_tab t = (fs_tab s)[nat dev := (if s_nfree g = 0 then load_chunk (bview s dev x) g else g)]"
proof -
  note D = fs_okD [OF fs]
  have s1: "s1 = upd_fs dev (\<lambda>f. (stamped s f)\<lparr>s_nfree := s_nfree f - 1\<rparr>) s"
    by (simp add: s1_def upd_fs_upd_fs)
  have tab: "fs_tab s1 = (fs_tab s)[nat dev := g]" by (simp add: s1 upd_fs_def g_def fsp_def)
  have sp: "same_pool s s1" by (simp add: s1)
  have k1: "kept H s s1" by (simp add: s1)
  have e1: "u_error s1 = u_error s" by (simp add: s1)
  show ?thesis
  proof (cases "s_nfree g = 0")
    case False
    then show ?thesis
      using same_pool_views [OF sp] c av tab k1 e1 by (simp add: same_views_def)
  next
    case True
    have "calm {} H s1" "avail H s1 dev x" using same_pool_views [OF sp] c av by simp_all
    from read_block [OF this(1) D(1) this(2)] obtain i t where
      t: "breadp dev x False s1 = Some (i, t)" "buf_data i t = bview s dev x" "same_rest s1 t"
      and close: "\<forall>u. same_pool t u \<longrightarrow> (\<exists>v. brelse i u = Some v \<and> calm {} H v \<and> same_rest u v \<and> same_views s1 v \<and>
         (\<forall>j \<in> H. bufp j v = bufp j s1) \<and> (\<forall>e a. avail H s1 e a \<longrightarrow> avail H v e a))"
      using same_pool_views [OF sp] by auto
    let ?u = "upd_fs dev (load_chunk (bview s dev x)) t"
    have "same_pool t ?u" by simp
    with close obtain v where
      v: "brelse i ?u = Some v" "calm {} H v" "same_rest ?u v" "same_views s1 v"
        "\<forall>j \<in> H. bufp j v = bufp j s1" "avail H v dev x" using \<open>avail H s1 dev x\<close> by blast
    have "fs_tab ?u = (fs_tab s)[nat dev := load_chunk (bview s dev x) g]"
      using t(3) tab D(2,5) by (simp add: upd_fs_def same_rest_kst fsp_def)
    then have "fs_tab v = (fs_tab s)[nat dev := load_chunk (bview s dev x) g]"
      using v(3) by (simp add: same_rest_kst)
    moreover have "same_views s v" using v(4) same_pool_views [OF sp] by (simp add: same_views_def)
    moreover have "kept H s v"
      by (rule kept_trans [OF k1 kept_through [OF t(3) v(3,5)]])
    moreover have "u_error v = u_error s" using e1 t(3) v(3) by (simp add: same_rest_kst)
    ultimately show ?thesis using True t(1,2) v by auto
  qed
qed


lemma fs_okI:
  assumes "disk_dev dev" "length (fs_tab t) = 4" "fsp dev t = f" "super_ok f xs"
    "free_stack (bview t dev) (table f) xs"
  shows "fs_ok t dev xs"
  using assms by (simp add: fs_ok_def)

lemma blk_alloc_pop:
  assumes c: "calm {} H s" and fs: "fs_ok s dev (x # xs)" and av: "avail H s dev x"
  shows "\<exists>t. blk_alloc dev s = Some (x, t) \<and> calm {} H t \<and> fs_ok t dev xs \<and> kept H s t \<and> u_error t = u_error s \<and>
    (\<forall>e a. disk_dev e \<longrightarrow> bview t e a = (if e = dev \<and> a = x then zero_blk else bview s e a)) \<and>
    (\<forall>e. nat e < 4 \<longrightarrow> nat e \<noteq> nat dev \<longrightarrow> fsp e t = fsp e s) \<and>
    data_blk (fsp dev t) = data_blk (fsp dev s)"
proof -
  note D = fs_okD [OF fs]
  let ?f = "fsp dev s"
  let ?g = "(stamped s ?f)\<lparr>s_nfree := s_nfree ?f - 1\<rparr>"
  let ?g' = "if s_nfree ?g = 0 then load_chunk (bview s dev x) ?g else ?g"
  let ?s1 = "upd_fs dev (\<lambda>f. f\<lparr>s_nfree := s_nfree f - 1\<rparr>) (upd_fs dev (stamped s) s)"
  have len: "length (bview s dev x) = 512" using c bview_length [of "{}" s] by (simp add: calm_def)
  note A = D(3) [unfolded super_ok_def]
  have st: "free_stack (bview s dev) (table (stamped s ?f)) (x # xs)" using D(4) by simp
  have ok: "super_ok (stamped s ?f) (x # xs)" using D(3) by simp
  note P = pop_table [OF st ok len]
  from alloc_refill [OF c fs av] obtain t where
    t: "(if s_nfree ?g = 0 then breadp dev x False ?s1 \<bind> (\<lambda>(b, s). brelse b (upd_fs dev (load_chunk (buf_data b s)) s))
              else Some ?s1) = Some t"
      "calm {} H t" "avail H t dev x" "same_views s t" "kept H s t" "u_error t = u_error s"
      "fs_tab t = (fs_tab s)[nat dev := ?g']" by blast
  have ft: "fsp dev t = ?g'" using t(7) D(2,5) by (simp add: fsp_def)
  have tf: "s_tfree ?g' = s_tfree ?f" by simp
  have nz: "s_tfree ?f \<noteq> 0" using A by auto
  let ?u = "upd_fs dev (\<lambda>f. f\<lparr>s_tfree := s_tfree f - 1\<rparr>) t"
  have "same_pool t ?u" by simp
  from same_pool_views [OF this] t(2,3) have u: "calm {} H ?u" "avail H ?u dev x" "bview ?u = bview t" by simp_all
  from alloc_finish [OF u(1) D(1) u(2)] obtain v where
    v: "breadp dev x True ?u \<bind> (\<lambda>(b, s). bawrite b (set_data b (replicate 512 0) s)) = Some v"
      "calm {} H v" "same_rest ?u v" "\<forall>j \<in> H. bufp j v = bufp j ?u"
      "\<forall>e a. disk_dev e \<longrightarrow> bview v e a = (if e = dev \<and> a = x then zero_blk else bview ?u e a)" by blast
  have f1: "fsp dev ?s1 = ?g" using D(2,5) by (simp add: fsp_upd)
  have small: "\<not> sint (s_nfree ?f) \<le> 0 \<and> \<not> sint (s_nfree ?f) > 50" using A by (intro nfree_range) simp_all
  have x: "s_free ?f ! unat (s_nfree ?f - 1) = x" using P(1) by simp
  have vb: "validblk dev x t = Some ()"
  proof -
    have "\<not> x < s_isize ?f" "\<not> s_fsize ?f \<le> x" using A by (simp_all add: data_blk_def not_le not_less)
    then show ?thesis using A by (simp add: validblk_def ft Let_def SMOUNTED_def)
  qed
  obtain p where p1: "breadp dev x True ?u = Some p" and p2: "bawrite (fst p) (set_data (fst p) (replicate 512 0) (snd p)) = Some v"
    using v(1) by (auto split: Option.bind_split_asm prod.splits)
  have refill: "(if s_nfree (fsp dev ?s1) = 0
      then do { (b, s) \<leftarrow> breadp dev x False ?s1; brelse b (upd_fs dev (load_chunk (buf_data b s)) s) }
      else Some ?s1) = Some t"
    unfolding f1 by (rule t(1))
  have tail: "(do { (b, s) \<leftarrow> breadp dev x True ?u; s \<leftarrow> bawrite b (set_data b (replicate 512 0) s); Some (x, s) }) = Some (x, v)"
    using p1 p2 by (cases p) simp
  have nn: "s_free (fsp dev ?s1) ! unat (s_nfree (fsp dev ?s1)) = x" by (simp add: f1 x)
  have f0: "fsp dev (upd_fs dev (stamped s) s) = stamped s ?f" using D(2,5) by (simp add: fsp_upd)
  let ?rest = "\<lambda>s. do {
         validblk dev x s;
         if s_tfree (fsp dev s) = 0 then Some (fs_corrupt dev s)
         else do {
           let s = upd_fs dev (\<lambda>f. f\<lparr>s_tfree := s_tfree f - 1\<rparr>) s;
           (b, s) \<leftarrow> breadp dev x True s;
           s \<leftarrow> bawrite b (set_data b (replicate 512 0) s);
           Some (x, s) } }"
  have "blk_alloc dev s = Option.bind (if s_nfree (fsp dev ?s1) = 0
      then do { (b, s) \<leftarrow> breadp dev x False ?s1; brelse b (upd_fs dev (load_chunk (buf_data b s)) s) }
      else Some ?s1) ?rest"
    unfolding blk_alloc_def getdev_eq [OF fs] baddev_def Let_def Option.bind.simps nn f0
    using A small by (simp del: bind_Some_iff)
  also have "\<dots> = ?rest t" by (simp only: refill Option.bind.simps)
  also have "\<dots> = Some (x, v)" using tail vb nz by (simp add: ft tf Let_def)
  finally have "blk_alloc dev s = Some (x, v)" .
  moreover have fv: "fsp dev v = ?g'\<lparr>s_tfree := s_tfree ?f - 1\<rparr>"
    using v(3) ft D(2,5) t(7) tf by (simp add: fsp_rest fsp_upd)
  have "super_ok (?g'\<lparr>s_tfree := s_tfree ?f - 1\<rparr>) xs"
    using A P(3-5) nz unat_minus1_u16 [OF nz] by (auto simp: super_ok_def fs_shape_def data_blk_def)
  moreover have "free_stack (bview v dev) (table (?g'\<lparr>s_tfree := s_tfree ?f - 1\<rparr>)) xs"
  proof -
    have "free_stack (bview v dev) (table ?g') xs"
    proof (rule free_stack_cong)
      show "free_stack (bview s dev) (table ?g') xs" using P(2) by (simp only: stamped_fields)
      show "bview v dev a = bview s dev a" if "a \<in> set xs" for a
        using that A v(5) u(3) t(4) D(1) by (auto simp: same_views_def)
    qed
    then show ?thesis by (simp add: table_def)
  qed
  ultimately have "fs_ok v dev xs"
    using v(3) D(1,2) t(7) fv by (intro fs_okI) (simp_all add: same_rest_kst)
  moreover have "kept H s v"
    by (rule kept_trans [OF kept_upd_fsI [OF t(5)] keptI_rest [OF v(3,4)]])
  moreover have "bview v e a = (if e = dev \<and> a = x then zero_blk else bview s e a)" if "disk_dev e" for e a
    using that v(5) u(3) t(4) by (auto simp: same_views_def)
  moreover have "u_error v = u_error s" using v(3) t(6) by (simp add: same_rest_kst)
  moreover have "fsp e v = fsp e s" if "nat e < 4" "nat e \<noteq> nat dev" for e
    using that v(3) t(7) D(2,5) by (simp add: fsp_rest fsp_upd) (simp add: fsp_def)
  moreover have "data_blk (fsp dev v) = data_blk ?f" by (simp add: fv data_blk_def fun_eq_iff)
  ultimately show ?thesis using \<open>blk_alloc dev s = Some (x, v)\<close> v(2) by blast
qed


lemma blk_alloc_empty:
  assumes fs: "fs_ok s dev []"
  shows "\<exists>t. blk_alloc dev s = Some (0, t) \<and> same_pool s t \<and> fs_ok t dev [] \<and> u_error t = ENOSPC \<and> kept H s t"
proof -
  note D = fs_okD [OF fs]
  let ?f = "fsp dev s"
  note A = D(3) [unfolded super_ok_def]
  let ?s1 = "upd_fs dev (\<lambda>f. f\<lparr>s_nfree := s_nfree f - 1\<rparr>) (upd_fs dev (stamped s) s)"
  have sn: "table ?f = take (unat (s_nfree ?f - 1)) (s_free ?f) @ [s_free ?f ! unat (s_nfree ?f - 1)]"
    using table_snoc [of ?f] A by simp
  then have x: "s_free ?f ! unat (s_nfree ?f - 1) = 0" using free_stack_top [OF D(4)] by simp
  have tf: "s_tfree ?f = 0" using A by (simp add: unat_eq_zero)
  have small: "\<not> sint (s_nfree ?f) \<le> 0 \<and> \<not> sint (s_nfree ?f) > 50" using A by (intro nfree_range) simp_all
  let ?t = "upd_fs dev (\<lambda>f. f\<lparr>s_nfree := s_nfree f + 1\<rparr>) (set_error ENOSPC ?s1)"
  have "blk_alloc dev s = Some (0, ?t)"
    unfolding blk_alloc_def getdev_eq [OF fs] baddev_def
    using A D(2,5) small x tf by (simp add: fsp_upd Let_def)
  moreover have sp: "same_pool s ?t" by simp
  moreover have "fs_ok ?t dev []"
  proof -
    have ft: "fsp dev ?t = stamped s ?f" using D(2,5) by (simp add: fsp_upd)
    show ?thesis
      using D(1-4) same_pool_views(1) [OF sp] by (intro fs_okI [OF _ _ ft]) simp_all
  qed
  moreover have "u_error ?t = ENOSPC" by simp
  moreover have "kept H s ?t"
  proof (rule kept_upd_fsI [OF kept_trans [of H s ?s1]])
    show "kept H s ?s1" by (intro kept_upd_fsI kept_refl)
    show "kept H ?s1 (set_error ENOSPC ?s1)" by (rule keptI [where g = "fs_tab ?s1"]) (simp_all add: set_error_def bufp_def)
  qed
  ultimately show ?thesis by blast
qed

subsection \<open>Release\<close>

lemma push_table:
  assumes ok: "super_ok f xs" and st: "free_stack V (table f) xs" and x: "x \<noteq> 0" "x \<notin> set xs" "data_blk f x"
    and n: "unat (s_nfree f) < 50"
  defines "g \<equiv> f\<lparr>s_tfree := s_tfree f + 1, s_free := (s_free f)[unat (s_nfree f) := x], s_nfree := s_nfree f + 1\<rparr>"
  shows "super_ok g (x # xs)" "free_stack V (table g) (x # xs)"
proof -
  note A = ok [unfolded super_ok_def]
  have n1: "unat (s_nfree f + 1) = unat (s_nfree f) + 1" using n by (simp add: unat_plus1_u16)
  have "length (x # xs) < 65536" by (rule length_free_blocks) (use A x in auto)
  then have t1: "unat (s_tfree f + 1) = unat (s_tfree f) + 1" using A by (intro unat_plus1_u16) simp
  show "super_ok g (x # xs)"
    using A x n n1 t1 by (auto simp: super_ok_def g_def fs_shape_def data_blk_def)
  have "table g = table f @ [x]"
    using A n n1 by (simp add: table_def g_def fs_shape_def take_Suc_conv_app_nth)
  moreover have "table f \<noteq> []" by (rule free_stack_nonempty [OF st])
  ultimately show "free_stack V (table g) (x # xs)" using st x(1) by (simp add: free_stack.in_core)
qed

lemma spill_table:
  assumes ok: "super_ok f xs" and st: "free_stack V (table f) xs" and x: "x \<noteq> 0" "x \<notin> set xs" "data_blk f x"
    and n: "s_nfree f = 50" and b: "length b = 512" and W: "W x = splice 0 (chunk_bytes f) b"
    and frame: "\<And>a. a \<in> set xs \<Longrightarrow> W a = V a"
  defines "g \<equiv> f\<lparr>s_tfree := s_tfree f + 1, s_free := (s_free f)[0 := x], s_nfree := 1\<rparr>"
  shows "super_ok g (x # xs)" "free_stack W (table g) (x # xs)"
proof -
  note A = ok [unfolded super_ok_def]
  have "length (x # xs) < 65536" by (rule length_free_blocks) (use A x in auto)
  then have t1: "unat (s_tfree f + 1) = unat (s_tfree f) + 1" using A by (intro unat_plus1_u16) simp
  show "super_ok g (x # xs)"
    using A x t1 by (auto simp: super_ok_def g_def fs_shape_def data_blk_def)
  have sh: "fs_shape f" using A by simp
  have "load_chunk (W x) f = f" unfolding W using load_chunk_splice [OF sh b, of f] by simp
  then have nf: "get16 (W x) 0 = s_nfree f" and fr: "take 50 (drop 1 (bytes_words (W x))) = s_free f"
    by (metis filesys.select_convs(4) filesys.surjective filesys.update_convs(4) load_chunk_def
        filesys.select_convs(5) filesys.update_convs(5))+
  have "chunk_of (W x) = table f" using nf fr by (simp add: chunk_of_def table_def)
  moreover have "free_stack W (table f) xs" using st frame by (rule free_stack_cong) simp
  ultimately have "free_stack W [x] (x # xs)"
    using x(1) nf n by (intro free_stack.on_disk) simp_all
  moreover have "table g = [x]"
    using A by (cases "s_free f") (auto simp: g_def table_def fs_shape_def)
  ultimately show "free_stack W (table g) (x # xs)" by simp
qed


text \<open>A block rewritten with data computed from what the fresh buffer holds.\<close>

lemma rewrite_block:
  assumes c: "calm {} H s" and d: "disk_dev dev" and av: "avail H s dev x"
    and F: "\<And>b. length b = 512 \<Longrightarrow> length (F b) = 512"
  shows "\<exists>i t b v. breadp dev x True s = Some (i, t) \<and> same_rest s t \<and> buf_data i t = b \<and> length b = 512 \<and>
    bawrite i (set_data i (F b) t) = Some v \<and> calm {} H v \<and> same_rest s v \<and> (\<forall>j \<in> H. bufp j v = bufp j s) \<and>
    (\<forall>e a. disk_dev e \<longrightarrow> bview v e a = (if e = dev \<and> a = x then F b else bview s e a))"
proof -
  from open_rewrite [OF c d av] obtain i t where
    t: "breadp dev x True s = Some (i, t)" "i \<notin> H" "calm {i} (insert i H) t" "same_rest s t"
      "\<forall>e a. disk_dev e \<longrightarrow> \<not> (e = dev \<and> a = x) \<longrightarrow> bview t e a = bview s e a"
      "others_same i s t" "named (bufp i t) dev x" "length (buf_data i t) = 512" by auto
  from close_write [OF t(3) insertI1 t(7) d F [OF t(8)]] obtain u where
    u: "bawrite i (set_data i (F (buf_data i t)) t) = Some u" "calm {} H u" "same_rest t u"
      "\<forall>e a. disk_dev e \<longrightarrow> bview u e a = (if e = dev \<and> a = x then F (buf_data i t) else bview t e a)"
      "others_same i t u" using t(2) by auto
  have "bufp j u = bufp j s" if "j \<in> H" for j
    using t(2,6) u(5) that by (metis others_same_def)
  then show ?thesis using t u same_rest_trans [OF t(4) u(3)] by auto
qed

lemma blk_free_push:
  assumes c: "calm {} H s" and fs: "fs_ok s dev xs" and av: "avail H s dev x"
    and x: "x \<noteq> 0" "x \<notin> set xs" "data_blk (fsp dev s) x"
  shows "\<exists>t. blk_free dev x s = Some t \<and> calm {} H t \<and> fs_ok t dev (x # xs) \<and> kept H s t \<and> u_error t = u_error s \<and>
    (\<forall>e a. disk_dev e \<longrightarrow> \<not> (e = dev \<and> a = x) \<longrightarrow> bview t e a = bview s e a) \<and>
    (\<forall>e. nat e < 4 \<longrightarrow> nat e \<noteq> nat dev \<longrightarrow> fsp e t = fsp e s) \<and>
    data_blk (fsp dev t) = data_blk (fsp dev s)"
proof -
  note D = fs_okD [OF fs]
  let ?f = "fsp dev s" and ?s0 = "upd_fs dev (stamped s) s"
  note A = D(3) [unfolded super_ok_def]
  have ok: "super_ok (stamped s ?f) xs" and st: "free_stack (bview s dev) (table (stamped s ?f)) xs"
    using D(3,4) by simp_all
  have db: "data_blk (stamped s ?f) x" using x(3) by (simp add: data_blk_def)
  have f0: "fsp dev ?s0 = stamped s ?f" using D(2,5) by (simp add: fsp_upd)
  have vb: "validblk dev x ?s0 = Some ()"
  proof -
    have "\<not> x < s_isize ?f" "\<not> s_fsize ?f \<le> x" using x(3) by (simp_all add: data_blk_def not_le not_less)
    then show ?thesis using A by (simp add: validblk_def f0 Let_def SMOUNTED_def)
  qed
  have sp: "same_pool s ?s0" by simp
  show ?thesis
  proof (cases "s_nfree ?f = 50")
    case False
    then have "unat (s_nfree ?f) \<noteq> 50" by (simp add: word_unat_eq_iff)
    then have n: "unat (s_nfree ?f) < 50" using A by linarith
    let ?G = "\<lambda>f. f\<lparr>s_tfree := s_tfree f + 1\<rparr>"
    let ?t = "upd_fs dev (\<lambda>f. f\<lparr>s_free := (s_free f)[unat (s_nfree ?f) := x], s_nfree := s_nfree ?f + 1\<rparr>) (upd_fs dev ?G ?s0)"
    have "blk_free dev x s = Some ?t"
      unfolding blk_free_def getdev_eq [OF fs] baddev_def Option.bind.simps
      using A x(1) vb False n D(2,5) by (simp add: f0 Let_def fsp_upd)
    moreover have ft: "fsp dev ?t = (stamped s ?f)\<lparr>s_tfree := s_tfree (stamped s ?f) + 1,
        s_free := (s_free (stamped s ?f))[unat (s_nfree (stamped s ?f)) := x], s_nfree := s_nfree (stamped s ?f) + 1\<rparr>"
      using D(2,5) by (simp add: fsp_upd f0)
    moreover have "same_pool s ?t" by simp
    note V = same_pool_views [OF this]
    have "fs_ok ?t dev (x # xs)"
      by (rule fs_okI [OF D(1) _ ft push_table(1) [OF ok st x(1,2) db]])
        (use push_table(2) [OF ok st x(1,2) db] n D(2) V(1) in simp_all)
    moreover have "kept H s ?t" by (intro kept_upd_fsI kept_upd_fs)
    moreover have "fsp e ?t = fsp e s" if "nat e < 4" "nat e \<noteq> nat dev" for e
      using that D(2,5) by (simp add: fsp_upd)
    moreover have "data_blk (fsp dev ?t) = data_blk ?f" by (simp add: ft data_blk_def fun_eq_iff)
    ultimately show ?thesis using V(1,2) c by (intro exI [of _ ?t]) simp
  next
    case True
    let ?F = "splice 0 (chunk_bytes (stamped s ?f))"
    have sh: "fs_shape (stamped s ?f)" using A by simp
    have F: "length (?F b) = 512" if "length b = 512" for b
      using that length_chunk_bytes [OF sh] by simp
    have c0: "calm {} H ?s0" and av0: "avail H ?s0 dev x" using same_pool_views [OF sp] c av by simp_all
    from rewrite_block [OF c0 D(1) av0, where F = ?F, OF F] obtain i t b v where
      t: "breadp dev x True ?s0 = Some (i, t)" "same_rest ?s0 t" "buf_data i t = b" "length b = 512"
      and v: "bawrite i (set_data i (?F b) t) = Some v" "calm {} H v" "same_rest ?s0 v" "\<forall>j \<in> H. bufp j v = bufp j ?s0"
        "\<forall>e a. disk_dev e \<longrightarrow> bview v e a = (if e = dev \<and> a = x then ?F b else bview ?s0 e a)" by blast
    have ft0: "fsp dev t = stamped s ?f" "fsp dev v = stamped s ?f" using t(2) v(3) f0 by (simp_all add: fsp_rest)
    have tabv: "length (fs_tab v) = 4" using v(3) D(2) by (simp add: same_rest_kst)
    let ?t = "upd_fs dev (\<lambda>f. f\<lparr>s_free := (s_free f)[0 := x], s_nfree := 1\<rparr>)
      (upd_fs dev (\<lambda>f. f\<lparr>s_tfree := s_tfree f + 1\<rparr>) (upd_fs dev (\<lambda>f. f\<lparr>s_nfree := 0\<rparr>) v))"
    have "blk_free dev x s = Some ?t"
      unfolding blk_free_def getdev_eq [OF fs] baddev_def Option.bind.simps
      using A x(1) vb True tabv D(5) t(1,3) v(1) by (simp add: f0 ft0 Let_def fsp_upd)
    moreover have ft: "fsp dev ?t = (stamped s ?f)\<lparr>s_tfree := s_tfree (stamped s ?f) + 1,
        s_free := (s_free (stamped s ?f))[0 := x], s_nfree := 1\<rparr>"
      using tabv D(5) by (simp add: fsp_upd ft0)
    moreover have "same_pool v ?t" by simp
    note V = same_pool_views [OF this]
    have n50: "s_nfree (stamped s ?f) = 50" using True by simp
    have W: "bview v dev x = ?F b" using v(5) D(1) by simp
    have fr: "bview v dev a = bview s dev a" if "a \<in> set xs" for a
      using that v(5) D(1) x(2) same_pool_views(1) [OF sp] by auto
    note S = spill_table [OF ok st x(1,2) db n50 t(4) W fr]
    have "fs_ok ?t dev (x # xs)"
      by (rule fs_okI [OF D(1) _ ft S(1)]) (use S(2) tabv V(1) in simp_all)
    moreover have "kept H ?s0 v" by (rule keptI_rest [OF v(3,4)])
    then have "kept H s ?t" by (intro kept_upd_fsI) (rule kept_trans [OF kept_upd_fs])
    moreover have "u_error ?t = u_error s" using v(3) by (simp add: same_rest_kst)
    moreover have "fsp e ?t = fsp e s" if "nat e < 4" "nat e \<noteq> nat dev" for e
      using that D(2,5) tabv v(3) by (simp add: fsp_upd fsp_rest)
    moreover have "bview ?t e a = bview s e a" if "disk_dev e" "\<not> (e = dev \<and> a = x)" for e a
      using that V(1) v(5) same_pool_views(1) [OF sp] by auto
    moreover have "data_blk (fsp dev ?t) = data_blk ?f" by (simp add: ft data_blk_def fun_eq_iff)
    ultimately show ?thesis using V(2) v(2) by (intro exI [of _ ?t]) simp
  qed
qed


subsection \<open>Properties\<close>

text \<open>C5: \<^verbatim>\<open>blk_alloc\<close> implements a pop of the free stack. On a sane file system with the free blocks
  \<open>x # xs\<close> it returns \<open>x\<close>, filled with zeroes on the device, and leaves the free stack \<open>xs\<close>, whether
  the number came from the superblock's array or the array had to be refilled from the block itself;
  no other block changes content. With no free block it returns 0 with \<^verbatim>\<open>ENOSPC\<close> and changes no
  block. In neither case does it report a corrupt file system or panic.\<close>

theorem blk_alloc_refines_pop:
  assumes "calm {} H s" "fs_ok s dev xs" "xs = [] \<or> avail H s dev (last (table (fsp dev s)))"
  shows "\<exists>t. calm {} H t \<and> fs_ok t dev (tl xs) \<and> i_tab t = i_tab s \<and>
    (case xs of
       [] \<Rightarrow> blk_alloc dev s = Some (0, t) \<and> u_error t = ENOSPC \<and> same_views s t
     | x # _ \<Rightarrow> blk_alloc dev s = Some (x, t) \<and> u_error t = u_error s \<and>
         (\<forall>e a. disk_dev e \<longrightarrow> bview t e a = (if e = dev \<and> a = x then replicate 512 0 else bview s e a)))"
proof (cases xs)
  case Nil
  with assms(2) have "fs_ok s dev []" by simp
  from blk_alloc_empty [OF this, of H] obtain t where
    "blk_alloc dev s = Some (0, t)" "same_pool s t" "fs_ok t dev []" "u_error t = ENOSPC" "kept H s t" by blast
  then show ?thesis using Nil assms(1) same_pool_views [of s t] by (auto simp: kept_fields same_views_def)
next
  case (Cons x ys)
  have "last (table (fsp dev s)) = x" using free_stack_top [OF fs_okD(4) [OF assms(2)]] Cons by simp
  with Cons assms have "fs_ok s dev (x # ys)" "avail H s dev x" by simp_all
  from blk_alloc_pop [OF assms(1) this] Cons show ?thesis by (auto simp: kept_fields zero_blk_def)
qed

text \<open>C6: \<^verbatim>\<open>blk_free\<close> implements a push. Freeing a data block \<open>x\<close> that is not already free puts it on
  top of the free stack, spilling the full array into \<open>x\<close> when there is no room in the superblock,
  and changes no block but possibly \<open>x\<close>. It reports no error.\<close>

theorem blk_free_refines_push:
  assumes "calm {} H s" "fs_ok s dev xs" "avail H s dev x" "x \<noteq> 0" "x \<notin> set xs" "data_blk (fsp dev s) x"
  shows "\<exists>t. blk_free dev x s = Some t \<and> calm {} H t \<and> fs_ok t dev (x # xs) \<and> u_error t = u_error s \<and>
    i_tab t = i_tab s \<and> (\<forall>e a. disk_dev e \<longrightarrow> \<not> (e = dev \<and> a = x) \<longrightarrow> bview t e a = bview s e a)"
  using blk_free_push [OF assms] by (auto simp: kept_fields)

lemma avail_quiet: "quiet s \<Longrightarrow> avail {} s d b"
  by (simp add: avail_def quietD)

lemma quiet_calm: "quiet s = calm {} {} s"
  by (simp add: quiet_def calm_def)

text \<open>Freeing a block and allocating again gives that block back, zeroed, and restores the free
  stack, also across a spill and the refill that follows it.\<close>

theorem free_then_alloc:
  assumes "quiet s" "fs_ok s dev xs" "x \<noteq> 0" "x \<notin> set xs" "data_blk (fsp dev s) x"
  shows "\<exists>t u. blk_free dev x s = Some t \<and> blk_alloc dev t = Some (x, u) \<and> quiet u \<and> fs_ok u dev xs \<and>
    bview u dev x = replicate 512 0 \<and>
    (\<forall>e a. disk_dev e \<longrightarrow> \<not> (e = dev \<and> a = x) \<longrightarrow> bview u e a = bview s e a)"
proof -
  have c: "calm {} {} s" using assms(1) by (simp add: quiet_calm)
  from blk_free_push [OF c assms(2) avail_quiet [OF assms(1)] assms(3-5)] obtain t where
    t: "blk_free dev x s = Some t" "calm {} {} t" "fs_ok t dev (x # xs)"
      "\<forall>e a. disk_dev e \<longrightarrow> \<not> (e = dev \<and> a = x) \<longrightarrow> bview t e a = bview s e a" by blast
  from t(2) have q: "quiet t" by (simp add: quiet_calm)
  from blk_alloc_pop [OF t(2,3) avail_quiet [OF q]] obtain u where
    "blk_alloc dev t = Some (x, u)" "calm {} {} u" "fs_ok u dev xs"
    "\<forall>e a. disk_dev e \<longrightarrow> bview u e a = (if e = dev \<and> a = x then zero_blk else bview t e a)" by blast
  then show ?thesis using t fs_okD(1) [OF assms(2)] by (auto simp: quiet_calm zero_blk_def)
qed


subsection \<open>Witnesses\<close>

lemma sample_fs_ok: "fs_ok sample 0 [12]"
proof -
  have t: "table sample_fs = [0] @ [12]" by (simp add: table_def sample_fs_def)
  have "free_stack (bview sample 0) ([0] @ [12]) [12]"
    by (rule free_stack.in_core) (simp_all add: free_stack.bottom)
  moreover have "super_ok sample_fs [12]"
    by (simp add: super_ok_def sample_fs_def fs_shape_def data_blk_def)
  ultimately show ?thesis by (simp add: fs_ok_def sample_fs0 t disk_dev_def)
qed

lemma blk_alloc_refines_pop_witness: "\<exists>t. blk_alloc 0 sample = Some (12, t) \<and> fs_ok t 0 []"
  using blk_alloc_refines_pop [of "{}" sample 0 "[12]"] sample_quiet avail_quiet [OF sample_quiet] sample_fs_ok
  by (auto simp: quiet_calm)

lemma blk_free_refines_push_witness: "\<exists>t. blk_free 0 50 sample = Some t \<and> fs_ok t 0 [50, 12]"
  using blk_free_refines_push [of "{}" sample 0 "[12]" 50] sample_quiet avail_quiet [OF sample_quiet] sample_fs_ok
  by (auto simp: quiet_calm sample_fs0 data_blk_def sample_fs_def)

lemma free_then_alloc_witness: "\<exists>t u. blk_free 0 50 sample = Some t \<and> blk_alloc 0 t = Some (50, u)"
  using free_then_alloc [OF sample_quiet sample_fs_ok, of 50] by (auto simp: sample_fs0 data_blk_def sample_fs_def)

end
