(* ===== verification/InodeTable.thy ===== *)
theory InodeTable
  imports FreeList
begin

section \<open>The inode table and the block map\<close>

text \<open>
  \<^verbatim>\<open>i_open\<close> finds an inode that is in the table, wherever it is, and else loads it from disk into an
  unreferenced entry, so that no inode is ever in the table twice. \<^verbatim>\<open>wr_inode\<close> changes one inode of the
  disk. A reference taken and dropped leaves the state as it was; dropping the last one writes a modified
  inode back. \<^verbatim>\<open>bmap\<close> reads the radix tree of a file's blocks.
\<close>

subsection \<open>Search\<close>

definition is_ino :: "int \<Rightarrow> u16 \<Rightarrow> nat \<Rightarrow> kst \<Rightarrow> bool" where
  "is_ino dev ino k s \<longleftrightarrow> c_dev (inop k s) = dev \<and> c_num (inop k s) = ino"

definition search_ok :: "int \<Rightarrow> u16 \<Rightarrow> nat set \<Rightarrow> kst \<Rightarrow> nat option \<Rightarrow> bool \<times> nat option \<times> nat \<Rightarrow> bool" where
  "search_ok dev ino K s old r \<longleftrightarrow>
     (case r of (found, idx, nxt) \<Rightarrow> nxt < 45 \<and>
        (if found then \<exists>k < 45. idx = Some k \<and> is_ino dev ino k s
         else (\<forall>k \<in> K. \<not> is_ino dev ino k s) \<and>
              (idx = old \<and> (\<forall>k \<in> K. c_refs (inop k s) \<noteq> 0) \<or> (\<exists>k < 45. idx = Some k \<and> c_refs (inop k s) = 0))))"

lemma i_search_prefix:
  assumes "j < 45" "nxt < 45"
  shows "search_ok dev ino ((\<lambda>i. (j + i) mod 45) ` {1..n}) s nindex (i_search dev ino n j nindex nxt s)"
  using assms
proof (induction n arbitrary: j nindex nxt)
  case 0
  then show ?case by (simp add: search_ok_def)
next
  case (Suc n)
  define l where "l = (j + 1) mod 45"
  have l: "(if j + 1 \<ge> 45 then 0 else j + 1) = l" "l < 45" using Suc.prems by (cases "j = 44"; simp add: l_def)+
  let ?idx = "if c_refs (inop l s) = 0 then Some l else nindex"
  have e: "i_search dev ino (Suc n) j nindex nxt s =
      (if is_ino dev ino l s then (True, Some l, j) else i_search dev ino n l ?idx j s)"
    by (simp add: Let_def is_ino_def flip: l(1))
  have K: "(\<lambda>i. (j + i) mod 45) ` {1..Suc n} = insert l ((\<lambda>i. (l + i) mod 45) ` {1..n})"
  proof -
    have "{1..Suc n} = insert 1 (Suc ` {1..n})" by (auto simp: image_iff)
    then have "(\<lambda>i. (j + i) mod 45) ` {1..Suc n} = insert l ((\<lambda>i. (j + Suc i) mod 45) ` {1..n})"
      by (simp only: image_insert image_image l_def)
    moreover have "(j + Suc i) mod 45 = (l + i) mod 45" for i by (simp add: l_def mod_simps)
    ultimately show ?thesis by simp
  qed
  show ?case
  proof (cases "is_ino dev ino l s")
    case True
    then show ?thesis using l(2) Suc.prems(1) unfolding e by (simp add: search_ok_def)
  next
    case False
    then have "search_ok dev ino ((\<lambda>i. (l + i) mod 45) ` {1..n}) s ?idx (i_search dev ino n l ?idx j s)"
      using Suc.IH [OF l(2) Suc.prems(1)] by simp
    then show ?thesis using False l(2) unfolding K e by (auto simp: search_ok_def split: if_splits)
  qed
qed

lemma i_search_ok:
  assumes "j < 45"
  shows "search_ok dev ino {..<45} s None (i_search dev ino 45 j None j s)"
proof -
  have "k \<in> (\<lambda>i. (j + i) mod 45) ` {1..45}" if "k < 45" for k
  proof (cases "j < k")
    case True
    then show ?thesis using that assms by (intro image_eqI [of _ _ "k - j"]) auto
  next
    case False
    have "j + (k + 45 - j) = k + 45" using assms by simp
    then have "(j + (k + 45 - j)) mod 45 = k" using that by simp
    then show ?thesis using that assms False by (intro image_eqI [of _ _ "k + 45 - j"]) auto
  qed
  then have "(\<lambda>i. (j + i) mod 45) ` {1..45} = {..<45}" by auto
  then show ?thesis using i_search_prefix [OF assms assms, of dev ino 45 s None] by simp
qed

subsection \<open>i_open\<close>

definition ino_unique :: "kst \<Rightarrow> bool" where
  "ino_unique s \<longleftrightarrow> (\<forall>k < 45. \<forall>l < 45. c_num (inop k s) \<noteq> 0 \<longrightarrow>
     is_ino (c_dev (inop k s)) (c_num (inop k s)) l s \<longrightarrow> l = k)"

definition table_ok :: "kst \<Rightarrow> bool" where
  "table_ok s \<longleftrightarrow> length (i_tab s) = 45 \<and> nexti s < 45 \<and> ino_unique s"

definition disk_ino :: "kst \<Rightarrow> int \<Rightarrow> u16 \<Rightarrow> dinode" where
  "disk_ino s dev ino = get_dinode (bview s dev (ino_blk ino)) (ino_slot ino)"

text \<open>An inode in use has a type and links.\<close>

definition in_use :: "dinode \<Rightarrow> bool" where
  "in_use n \<longleftrightarrow> i_nlink n \<noteq> 0 \<and> i_mode n AND F_MASK \<noteq> 0"

lemma i_open_found_old:
  "i_open_found False k s =
     (if in_use (c_node (inop k s)) then (Some k, upd_ino k (\<lambda>c. c\<lparr>c_refs := c_refs c + 1\<rparr>) s) else (None, s))"
  by (simp add: i_open_found_def in_use_def Let_def)

lemma ino_unique_cong:
  assumes "\<And>k. k < 45 \<Longrightarrow> c_num (inop k t) = c_num (inop k s) \<and> c_dev (inop k t) = c_dev (inop k s)"
  shows "ino_unique t = ino_unique s"
  using assms by (simp add: ino_unique_def is_ino_def)

lemma i_open_eq:
  assumes dev: "disk_dev dev" and ino: "ino \<noteq> 0" "\<not> ino_bad ino (fsp dev s)"
    and srch: "i_search dev ino 45 (nexti s) None (nexti s) s = (found, idx, nxt)"
  shows "i_open dev ino s = (case idx of
      None \<Rightarrow> Some (None, set_error ENFILE (s\<lparr>nexti := nxt\<rparr>))
    | Some k \<Rightarrow>
        if found then Some (i_open_found False k (s\<lparr>nexti := nxt\<rparr>))
        else do {
          (b, s) \<leftarrow> breadp dev (ino_blk ino) False (s\<lparr>nexti := nxt\<rparr>);
          let s = upd_ino k (\<lambda>c. c\<lparr>c_node := get_dinode (buf_data b s) (ino_slot ino)\<rparr>) s;
          s \<leftarrow> brelse b s;
          let s = upd_ino k (\<lambda>c. c\<lparr>c_dev := dev, c_num := ino, c_magic := CMAGIC\<rparr>) s;
          Some (i_open_found False k s) })"
proof -
  have d: "0 \<le> dev" "dev < 4" using dev by (auto simp: disk_dev_def)
  have "\<not> ino < 1" using ino(1) by (simp add: word_less_nat_alt unat_eq_zero)
  then show ?thesis using d ino srch
    by (simp add: i_open_def ROOTINODE_def Let_def del: bind_Some_iff)
qed

lemma nexti_frame [simp]:
  "same_pool s (t\<lparr>nexti := n\<rparr>) = same_pool s t" "inop k (s\<lparr>nexti := n\<rparr>) = inop k s"
  "fsp d (s\<lparr>nexti := n\<rparr>) = fsp d s" "nexti (upd_ino k f s) = nexti s"
  by (simp_all add: same_pool_def inop_def fsp_def upd_ino_def)

text \<open>Loading an inode into entry \<open>k\<close>.\<close>

definition loaded :: "int \<Rightarrow> u16 \<Rightarrow> dinode \<Rightarrow> cinode \<Rightarrow> cinode" where
  "loaded dev ino n c = c\<lparr>c_node := n, c_dev := dev, c_num := ino, c_magic := CMAGIC\<rparr>"

lemma i_open_load:
  assumes c: "calm {} H s" and dev: "disk_dev dev" and av: "avail H s dev (ino_blk ino)"
    and len: "length (i_tab s) = 45" and k: "k < 45"
  shows "\<exists>t. (do {
          (b, s) \<leftarrow> breadp dev (ino_blk ino) False s;
          let s = upd_ino k (\<lambda>c. c\<lparr>c_node := get_dinode (buf_data b s) (ino_slot ino)\<rparr>) s;
          s \<leftarrow> brelse b s;
          let s = upd_ino k (\<lambda>c. c\<lparr>c_dev := dev, c_num := ino, c_magic := CMAGIC\<rparr>) s;
          Some (i_open_found False k s) }) = Some (i_open_found False k t) \<and>
     calm {} H t \<and> same_views s t \<and> nexti t = nexti s \<and> fs_tab t = fs_tab s \<and> u_error t = u_error s \<and>
     i_tab t = (i_tab s)[k := loaded dev ino (disk_ino s dev ino) (inop k s)]"
proof -
  from read_block [OF c dev av] obtain i t where
    t: "breadp dev (ino_blk ino) False s = Some (i, t)" "buf_data i t = bview s dev (ino_blk ino)" "same_rest s t"
    and close: "\<forall>u. same_pool t u \<longrightarrow> (\<exists>v. brelse i u = Some v \<and> calm {} H v \<and> same_rest u v \<and> same_views s v \<and>
         (\<forall>j \<in> H. bufp j v = bufp j s) \<and> (\<forall>e a. avail H s e a \<longrightarrow> avail H v e a))" by blast
  let ?u = "upd_ino k (\<lambda>c. c\<lparr>c_node := disk_ino s dev ino\<rparr>) t"
  have "same_pool t ?u" by simp
  with close obtain v where v: "brelse i ?u = Some v" "calm {} H v" "same_rest ?u v" "same_views s v" by blast
  let ?w = "upd_ino k (\<lambda>c. c\<lparr>c_dev := dev, c_num := ino, c_magic := CMAGIC\<rparr>) v"
  have "same_pool v ?w" by simp
  note V = same_pool_views [OF this]
  have "i_tab ?w = (i_tab s)[k := loaded dev ino (disk_ino s dev ino) (inop k s)]"
    using t(3) v(3) len k by (simp add: upd_ino_def same_rest_kst loaded_def inop_def)
  moreover have "same_views s ?w" using v(4) V(1) by (simp add: same_views_def)
  moreover have "nexti ?w = nexti s" "fs_tab ?w = fs_tab s" "u_error ?w = u_error s"
    using t(3) v(3) by (simp_all add: same_rest_kst)
  moreover have "calm {} H ?w" using v(2) V(2) by simp
  ultimately show ?thesis using t(1,2) v(1) by (intro exI [of _ ?w]) (simp add: disk_ino_def Let_def)
qed

text \<open>What \<^verbatim>\<open>i_open\<close> promises of its result.\<close>

definition opened :: "nat set \<Rightarrow> int \<Rightarrow> u16 \<Rightarrow> kst \<Rightarrow> nat option \<times> kst \<Rightarrow> bool" where
  "opened H dev ino s res \<longleftrightarrow> (case res of (r, t) \<Rightarrow>
    calm {} H t \<and> table_ok t \<and> same_views s t \<and>
        (case r of
           Some k \<Rightarrow> k < 45 \<and> (\<forall>j. j \<noteq> k \<longrightarrow> inop j t = inop j s) \<and>
             c_refs (inop k t) = c_refs (inop k s) + 1 \<and> is_ino dev ino k t \<and>
             c_node (inop k t) = (if is_ino dev ino k s then c_node (inop k s) else disk_ino s dev ino) \<and>
             ((\<exists>j < 45. is_ino dev ino j s) = is_ino dev ino k s)
         | None \<Rightarrow> (\<forall>j. c_refs (inop j t) = c_refs (inop j s)) \<and>
             ((\<forall>j < 45. c_refs (inop j s) \<noteq> 0) \<and> u_error t = ENFILE \<or>
              (\<exists>k < 45. is_ino dev ino k t \<and> \<not> in_use (c_node (inop k t))))))"

lemma i_open_opened:
  assumes "calm {} H s" "disk_dev dev" "table_ok s" "ino \<noteq> 0" "\<not> ino_bad ino (fsp dev s)"
    "avail H s dev (ino_blk ino)"
  shows "\<exists>res. i_open dev ino s = Some res \<and> opened H dev ino s res"
proof -
  obtain found idx nxt where srch: "i_search dev ino 45 (nexti s) None (nexti s) s = (found, idx, nxt)"
    by (metis prod_cases3)
  note T = assms(3) [unfolded table_ok_def]
  from i_search_ok [of "nexti s" dev ino s] T srch have
    so: "search_ok dev ino {..<45} s None (found, idx, nxt)" by simp
  let ?s = "s\<lparr>nexti := nxt\<rparr>"
  have nxt: "nxt < 45" using so by (simp add: search_ok_def)
  have sp: "same_pool s ?s" by simp
  note V = same_pool_views [OF sp]
  note E = i_open_eq [OF assms(2,4,5) srch]
  have tok: "table_ok ?s"
    using T nxt ino_unique_cong [of ?s s] by (simp add: table_ok_def)
  have cs: "calm {} H ?s" and sv: "same_views s ?s" using assms(1) V by (simp_all add: same_views_def)
  have step: "opened H dev ino s (i_open_found False k u)"
    if u: "calm {} H u" "table_ok u" "same_views s u" and k: "k < 45" "is_ino dev ino k u"
      "\<forall>j. j \<noteq> k \<longrightarrow> inop j u = inop j s" "c_refs (inop k u) = c_refs (inop k s)"
      "c_node (inop k u) = (if is_ino dev ino k s then c_node (inop k s) else disk_ino s dev ino)"
      "(\<exists>j < 45. is_ino dev ino j s) = is_ino dev ino k s" for k u
  proof (cases "in_use (c_node (inop k u))")
    case False
    have "c_refs (inop j u) = c_refs (inop j s)" for j using k(3,4) by (cases "j = k") simp_all
    then show ?thesis using False u k(1,2) by (auto simp: i_open_found_old opened_def)
  next
    case True
    let ?t = "upd_ino k (\<lambda>c. c\<lparr>c_refs := c_refs c + 1\<rparr>) u"
    have l: "length (i_tab u) = 45" using u(2) by (simp add: table_ok_def)
    have i: "inop j ?t = (if j = k then (inop k u)\<lparr>c_refs := c_refs (inop k u) + 1\<rparr> else inop j u)" for j
      using inop_upd [of k u j] l k(1) by simp
    have "table_ok ?t" using u(2) ino_unique_cong [of ?t u] i by (simp add: table_ok_def)
    moreover have "same_pool u ?t" by simp
    note W = same_pool_views [OF this]
    moreover have "calm {} H ?t" "same_views s ?t" using u W by (simp_all add: same_views_def)
    ultimately show ?thesis using True k i by (auto simp: i_open_found_old is_ino_def opened_def)
  qed
  show ?thesis
  proof (cases idx)
    case None
    then have "\<not> found" "\<forall>j < 45. c_refs (inop j s) \<noteq> 0" using so by (cases found; force simp: search_ok_def)+
    moreover have "same_pool s (set_error ENFILE ?s)" by simp
    note W = same_pool_views [OF this]
    moreover have "calm {} H (set_error ENFILE ?s)" "same_views s (set_error ENFILE ?s)"
      using assms(1) W by (simp_all add: same_views_def)
    moreover have "table_ok (set_error ENFILE ?s)"
      using tok ino_unique_cong [of "set_error ENFILE ?s" ?s] by (simp add: table_ok_def set_error_def inop_def)
    ultimately show ?thesis using E None by (auto simp: opened_def)
  next
    case (Some k)
    show ?thesis
    proof (cases found)
      case True
      then have k: "k < 45" "is_ino dev ino k s" using so Some by (auto simp: search_ok_def)
      then have "opened H dev ino s (i_open_found False k ?s)" by (intro step [OF cs tok sv]) (auto simp: is_ino_def)
      then show ?thesis using E Some True by auto
    next
      case False
      then have k: "k < 45" "c_refs (inop k s) = 0" "\<forall>j < 45. \<not> is_ino dev ino j s"
        using so Some by (auto simp: search_ok_def)
      have "avail H ?s dev (ino_blk ino)" "length (i_tab ?s) = 45" using assms(6) V(4) T by simp_all
      from i_open_load [OF cs assms(2) this k(1)] obtain t where
        t: "(do {
          (b, s) \<leftarrow> breadp dev (ino_blk ino) False ?s;
          let s = upd_ino k (\<lambda>c. c\<lparr>c_node := get_dinode (buf_data b s) (ino_slot ino)\<rparr>) s;
          s \<leftarrow> brelse b s;
          let s = upd_ino k (\<lambda>c. c\<lparr>c_dev := dev, c_num := ino, c_magic := CMAGIC\<rparr>) s;
          Some (i_open_found False k s) }) = Some (i_open_found False k t)"
          "calm {} H t" "same_views ?s t" "nexti t = nxt"
          "i_tab t = (i_tab s)[k := loaded dev ino (disk_ino s dev ino) (inop k s)]"
        using V(1) by (auto simp: disk_ino_def)
      have i: "inop j t = (if j = k then loaded dev ino (disk_ino s dev ino) (inop k s) else inop j s)" for j
        using t(5) T k(1) by (simp add: inop_def nth_list_update)
      have "ino_unique t"
        using T k(1,3) unfolding ino_unique_def by (auto simp: i is_ino_def loaded_def)
      then have "table_ok t" using t(4,5) T nxt by (simp add: table_ok_def)
      moreover have "same_views s t" using t(3) sv by (simp add: same_views_def)
      ultimately have "opened H dev ino s (i_open_found False k t)"
        using t(2) k i by (intro step) (auto simp: is_ino_def loaded_def)
      then show ?thesis using E Some False t(1) by (intro exI [of _ "i_open_found False k t"]) simp
    qed
  qed
qed

text \<open>C24: \<^verbatim>\<open>i_open\<close> of an inode number (not 0, within the device's inode blocks) never panics. If it
  returns an entry, the entry holds that inode with one more reference; the inode data is what was in the
  table if the inode was there, and what the disk holds otherwise; every other entry is unchanged. If it
  returns none, no reference count changed, and either no entry was free (and \<^verbatim>\<open>ENFILE\<close> is set) or the inode
  is not in use. No inode gets into the table twice, and no block changes.\<close>

theorem i_open_loads_once:
  assumes "calm {} H s" "disk_dev dev" "table_ok s" "ino \<noteq> 0" "\<not> ino_bad ino (fsp dev s)"
    "avail H s dev (ino_blk ino)"
  shows "\<exists>r t. i_open dev ino s = Some (r, t) \<and> calm {} H t \<and> table_ok t \<and> same_views s t \<and>
    (case r of
       Some k \<Rightarrow> k < 45 \<and> (\<forall>j. j \<noteq> k \<longrightarrow> inop j t = inop j s) \<and>
         c_refs (inop k t) = c_refs (inop k s) + 1 \<and> is_ino dev ino k t \<and>
         c_node (inop k t) = (if is_ino dev ino k s then c_node (inop k s) else disk_ino s dev ino) \<and>
         ((\<exists>j < 45. is_ino dev ino j s) = is_ino dev ino k s)
     | None \<Rightarrow> (\<forall>j. c_refs (inop j t) = c_refs (inop j s)) \<and>
         ((\<forall>j < 45. c_refs (inop j s) \<noteq> 0) \<and> u_error t = ENFILE \<or>
          (\<exists>k < 45. is_ino dev ino k t \<and> \<not> in_use (c_node (inop k t)))))"
  using i_open_opened [OF assms] by (auto simp: opened_def)

subsection \<open>Writing an inode back\<close>

lemma upd_ino_eq: "upd_ino k f s = s\<lparr>i_tab := (i_tab s)[k := f (inop k s)]\<rparr>"
  by (simp add: upd_ino_def inop_def)

text \<open>C34: \<^verbatim>\<open>wr_inode\<close> stores the table entry's inode on disk, leaves every other inode of the disk and every
  other block as it was, and clears the entry's dirty flag.\<close>

theorem wr_inode_stores_one:
  assumes "calm {} H s" "disk_dev (c_dev (inop k s))" "c_magic (inop k s) = CMAGIC" "dinode_ok (c_node (inop k s))"
    "avail H s (c_dev (inop k s)) (ino_blk (c_num (inop k s)))"
  shows "\<exists>t. wr_inode k s = Some t \<and> calm {} H t \<and> i_tab t = (i_tab s)[k := (inop k s)\<lparr>c_dirty := 0\<rparr>] \<and>
    disk_ino t (c_dev (inop k s)) m =
      (if m = c_num (inop k s) then c_node (inop k s) else disk_ino s (c_dev (inop k s)) m) \<and>
    (\<forall>e a. disk_dev e \<longrightarrow> \<not> (e = c_dev (inop k s) \<and> a = ino_blk (c_num (inop k s))) \<longrightarrow> bview t e a = bview s e a)"
proof -
  let ?c = "inop k s"
  let ?d = "c_dev ?c" and ?b = "ino_blk (c_num ?c)" and ?n = "c_node ?c" and ?j = "ino_slot (c_num ?c)"
  from open_read [OF assms(1,2,5)] obtain i t where
    t: "breadp ?d ?b False s = Some (i, t)" "i \<notin> H" "calm {} (insert i H) t" "same_rest s t" "same_views s t"
      "named (bufp i t) ?d ?b" "buf_data i t = bview s ?d ?b" by auto
  have len: "length (bview s ?d ?b) = 512" using assms(1) bview_length [of "{}" s] by (simp add: calm_def)
  have lp: "length (put_dinode ?n ?j (bview s ?d ?b)) = 512"
    using assms(4) len by (simp add: length_put_dinode)
  from close_through [OF t(3) insertI1 t(6) assms(2) lp] obtain u where
    u: "bfree i 2 (set_data i (put_dinode ?n ?j (bview s ?d ?b)) t) = Some (- 1, u)" "calm {} H u" "same_rest t u"
      "\<forall>e a. disk_dev e \<longrightarrow> bview u e a = (if e = ?d \<and> a = ?b then put_dinode ?n ?j (bview s ?d ?b) else bview t e a)"
    using t(2) by auto
  let ?v = "upd_ino k (\<lambda>c. c\<lparr>c_dirty := 0\<rparr>) u"
  have it: "inop k t = ?c" using t(4) by (simp add: inop_def same_rest_kst)
  have "wr_inode k s = Some ?v"
    using t(1,7) u(1) it assms(3) by (simp add: wr_inode_def magic_def Let_def)
  moreover have "same_pool u ?v" by simp
  note V = same_pool_views [OF this]
  have iu: "i_tab u = i_tab s" using t(4) u(3) by (simp add: same_rest_kst)
  moreover have "i_tab ?v = (i_tab s)[k := ?c\<lparr>c_dirty := 0\<rparr>]" by (simp add: upd_ino_def iu inop_def)
  moreover have vv: "bview ?v e a = (if e = ?d \<and> a = ?b then put_dinode ?n ?j (bview s ?d ?b) else bview s e a)"
    if "disk_dev e" for e a
    using that u(4) t(5) V(1) by (simp add: same_views_def)
  moreover have "disk_ino ?v ?d m = (if m = c_num ?c then ?n else disk_ino s ?d m)"
  proof (cases "ino_blk m = ?b")
    case True
    then have "disk_ino ?v ?d m = (if ino_slot m = ?j then ?n else disk_ino s ?d m)"
      using vv [OF assms(2)] assms(4) len by (simp add: disk_ino_def get_put_dinode)
    then show ?thesis using True ino_place_inj [of m "c_num ?c"] by auto
  next
    case False
    then show ?thesis using vv [OF assms(2)] by (auto simp: disk_ino_def)
  qed
  ultimately show ?thesis using u(2) V(2) by (intro exI [of _ ?v]) simp
qed

subsection \<open>References\<close>

text \<open>Taking a reference to an inode that is in use and dropping it again gives the state back, as long
  as the limit of 89 references is not exceeded.\<close>

theorem ref_then_deref:
  assumes "k < length (i_tab s)" "c_magic (inop k s) = CMAGIC" "1 \<le> unat (c_refs (inop k s))"
    "unat (c_refs (inop k s)) < 89" "getmode k s \<noteq> F_PIPE"
  shows "Option.bind (i_ref k s) (i_deref k) = Some s"
proof -
  let ?c = "inop k s"
  let ?t = "upd_ino k (\<lambda>c. c\<lparr>c_refs := c_refs c + 1\<rparr>) s"
  have r1: "unat (c_refs ?c + 1) = unat (c_refs ?c) + 1"
    using assms(4) by (simp add: unat_word_ariths)
  have it: "inop k ?t = ?c\<lparr>c_refs := c_refs ?c + 1\<rparr>" using assms(1) by (simp add: inop_upd)
  have "c_refs ?c + 1 \<noteq> 90" using r1 assms(4) by (auto simp: word_unat_eq_iff)
  then have ir: "i_ref k s = Some ?t" using it by (simp add: i_ref_def Let_def)
  have nz: "c_refs ?c + 1 \<noteq> 0" using r1 by (auto simp: word_unat_eq_iff)
  have undo: "upd_ino k (\<lambda>c. c\<lparr>c_refs := c_refs c - 1\<rparr>) ?t = s"
    using assms(1) by (simp add: upd_ino_def)
  have gm: "getmode k ?t = getmode k s" by (simp add: getmode_def it)
  have "c_refs ?c \<noteq> 0" using assms(3) by auto
  then have "i_deref k ?t = Some s"
    using it nz assms(2,5) undo gm by (simp add: i_deref_def magic_def Let_def)
  then show ?thesis by (simp add: ir)
qed

text \<open>C29: Dropping the last reference to a modified inode that still has links writes it to disk, exactly
  that one, and leaves the entry clean and unreferenced.\<close>

theorem last_deref_writes_back:
  assumes "calm {} H s" "k < length (i_tab s)" "disk_dev (c_dev (inop k s))" "c_magic (inop k s) = CMAGIC"
    "dinode_ok (c_node (inop k s))" "avail H s (c_dev (inop k s)) (ino_blk (c_num (inop k s)))"
    "c_refs (inop k s) = 1" "c_dirty (inop k s) \<noteq> 0" "i_nlink (c_node (inop k s)) \<noteq> 0" "getmode k s \<noteq> F_PIPE"
  shows "\<exists>t. i_deref k s = Some t \<and> calm {} H t \<and> c_refs (inop k t) = 0 \<and> c_dirty (inop k t) = 0 \<and>
    c_node (inop k t) = c_node (inop k s) \<and>
    disk_ino t (c_dev (inop k s)) m =
      (if m = c_num (inop k s) then c_node (inop k s) else disk_ino s (c_dev (inop k s)) m)"
proof -
  let ?s = "upd_ino k (\<lambda>c. c\<lparr>c_refs := c_refs c - 1\<rparr>) s"
  have i: "inop k ?s = (inop k s)\<lparr>c_refs := 0\<rparr>" using assms(2,7) by (simp add: inop_upd)
  have "same_pool s ?s" by simp
  note V = same_pool_views [OF this]
  have "i_deref k s = wr_inode k ?s"
    using assms(2,4,7-10) i by (simp add: i_deref_def magic_def Let_def)
  moreover have "disk_ino ?s d a = disk_ino s d a" for d a by (simp add: disk_ino_def V(1))
  moreover from wr_inode_stores_one [of H ?s k m] obtain t where
    "wr_inode k ?s = Some t" "calm {} H t" "i_tab t = (i_tab ?s)[k := (inop k ?s)\<lparr>c_dirty := 0\<rparr>]"
    "disk_ino t (c_dev (inop k ?s)) m = (if m = c_num (inop k ?s) then c_node (inop k ?s) else disk_ino ?s (c_dev (inop k ?s)) m)"
    using assms(1-6) i V by auto
  moreover from this(3) have "inop k t = (inop k s)\<lparr>c_refs := 0, c_dirty := 0\<rparr>"
    using assms(2) i by (simp add: inop_def)
  ultimately show ?thesis using i by auto
qed

subsection \<open>The block map as a radix tree\<close>

text \<open>A block of a file is reached from the 20 addresses of the inode along a path of indices: one index for
  the first 18 blocks, two for the next 256, three for the rest. A hole is a zero on the way.\<close>

fun tree_get :: "(u16 \<Rightarrow> block) \<Rightarrow> (nat \<Rightarrow> u16) \<Rightarrow> nat list \<Rightarrow> u16" where
  "tree_get V tab [] = 0"
| "tree_get V tab [i] = tab i"
| "tree_get V tab (i # is) = (if tab i = 0 then 0 else tree_get V (get16 (V (tab i))) is)"

lemma tree_get_head: "tree_get V tab (i # is) = tree_get V (\<lambda>_. tab i) (0 # is)"
  by (cases "is") simp_all

lemma tree_get_zero: "tab i = 0 \<Longrightarrow> tree_get V tab (i # is) = 0"
  by (cases "is") simp_all

definition blk_path :: "nat \<Rightarrow> nat list" where
  "blk_path n = (if n < 18 then [n] else if n < 274 then [18, n - 18] else [19, (n - 274) div 256, (n - 274) mod 256])"

definition file_blk :: "kst \<Rightarrow> nat \<Rightarrow> nat \<Rightarrow> u16" where
  "file_blk s k n = tree_get (bview s (c_dev (inop k s))) (nth (i_addr (c_node (inop k s)))) (blk_path n)"

definition walk_index :: "u16 \<Rightarrow> nat \<Rightarrow> nat" where
  "walk_index bn sh = unat (drop_bit sh bn AND 0xFF)"

lemma and_255: "unat ((w :: u16) AND 0xFF) = unat w mod 256"
proof -
  have "w AND 0xFF = take_bit 8 w" by (simp add: take_bit_eq_mask mask_eq_exp_minus_1)
  then show ?thesis by (simp only: unsigned_take_bit_eq) (simp add: take_bit_eq_mod)
qed

lemma and_split: "(w :: u16) = (w AND x) OR (w AND NOT x)" "(w AND x) AND NOT x = 0"
  by (rule bit_word_eqI, auto simp: bit_simps)+

lemma and_hi_zero: "((w :: u16) AND 0xFF00 = 0) = (unat w < 256)"
proof -
  have n: "(0xFF00 :: u16) = NOT 0xFF" by simp
  have "(w AND 0xFF00 = 0) = (w AND 0xFF = w)"
    unfolding n by (metis and_split or.right_neutral)
  also have "\<dots> = (unat w mod 256 = unat w)" by (simp only: word_unat_eq_iff and_255)
  also have "\<dots> = (unat w < 256)" by (metis mod_less mod_less_divisor zero_less_numeral)
  finally show ?thesis .
qed

lemma unat_drop8: "unat (drop_bit 8 (w :: u16)) = unat w div 256"
proof -
  have "unat (drop_bit 8 w) = drop_bit 8 (unat w)" by (simp only: unsigned_drop_bit_eq) (simp add: take_bit_nat_eq_self)
  then show ?thesis by (simp only: drop_bit_eq_div) simp
qed

lemma walk_index_0: "walk_index bn 0 = unat bn mod 256"
  by (simp add: walk_index_def and_255)

lemma walk_index_8: "walk_index bn 8 = unat bn div 256 mod 256"
  by (simp only: walk_index_def and_255 unat_drop8)

lemma bmap_walk_rd:
  "bmap_walk dev bn True (sh # shs) nb s = do {
     (b, s) \<leftarrow> breadp dev nb False s;
     let x = get16 (buf_data b s) (walk_index bn sh);
     s \<leftarrow> brelse b s;
     if x \<noteq> 0 then bmap_walk dev bn True shs x s else Some (NULLBLK, s) }"
  by (auto simp: walk_index_def Let_def simp del: bind_Some_iff intro!: Option.bind_cong split: if_splits)

lemma bmap_walk_reads:
  assumes "calm {} H s" "disk_dev dev" "card H < 38" "nb \<noteq> 0"
    and "\<forall>a. not_held s dev a"
  shows "\<exists>t. bmap_walk dev bn True shs nb s =
      Some (let x = tree_get (bview s dev) (\<lambda>_. nb) (0 # map (walk_index bn) shs) in if x = 0 then NULLBLK else x, t) \<and>
    calm {} H t \<and> same_rest s t \<and> same_views s t \<and> (\<forall>j \<in> H. bufp j t = bufp j s)"
  using assms
proof (induction shs arbitrary: nb s)
  case Nil
  then show ?case by (auto simp: same_views_def)
next
  case (Cons sh shs)
  have av: "avail H s dev a" for a using Cons.prems(3,5) by (simp add: avail_def)
  from read_block [OF Cons.prems(1,2) av, where b = nb] obtain i t where
    t: "breadp dev nb False s = Some (i, t)" "buf_data i t = bview s dev nb" "same_rest s t"
    and close: "\<forall>u. same_pool t u \<longrightarrow> (\<exists>v. brelse i u = Some v \<and> calm {} H v \<and> same_rest u v \<and> same_views s v \<and>
       (\<forall>j \<in> H. bufp j v = bufp j s) \<and> (\<forall>e a. avail H s e a \<longrightarrow> avail H v e a))" by blast
  obtain v where v: "brelse i t = Some v" "calm {} H v" "same_rest t v" "same_views s v"
    "\<forall>j \<in> H. bufp j v = bufp j s" "\<forall>e a. avail H s e a \<longrightarrow> avail H v e a" using close same_pool_refl by blast
  have sv: "same_rest s v" by (rule same_rest_trans [OF t(3) v(3)])
  have nh: "\<forall>a. not_held v dev a" using v(6) av by (simp add: avail_def)
  let ?x = "get16 (bview s dev nb) (walk_index bn sh)"
  have vw: "bview v dev = bview s dev" using v(4) Cons.prems(2) by (simp add: same_views_def fun_eq_iff)
  show ?case
  proof (cases "?x = 0")
    case True
    then have "tree_get (bview s dev) (\<lambda>_. nb) (0 # map (walk_index bn) (sh # shs)) = 0"
      using Cons.prems(4) by (cases shs) simp_all
    then show ?thesis using True t(1,2) v sv by (simp add: bmap_walk_rd Let_def del: bmap_walk.simps)
  next
    case False
    from Cons.IH [OF v(2) Cons.prems(2,3) False nh] obtain w where
      w: "bmap_walk dev bn True shs ?x v =
        Some (let x = tree_get (bview v dev) (\<lambda>_. ?x) (0 # map (walk_index bn) shs) in if x = 0 then NULLBLK else x, w)"
        "calm {} H w" "same_rest v w" "same_views v w" "\<forall>j \<in> H. bufp j w = bufp j v" by blast
    have "tree_get (bview s dev) (\<lambda>_. nb) (0 # map (walk_index bn) (sh # shs)) =
      tree_get (bview s dev) (\<lambda>_. ?x) (0 # map (walk_index bn) shs)"
      using Cons.prems(4) by (cases shs) simp_all
    then show ?thesis
      using False t(1,2) v w same_rest_trans [OF sv w(3)] vw
      by (simp add: bmap_walk_rd Let_def same_views_def del: bmap_walk.simps)
  qed
qed

lemma unat_minus_16: "(k :: u16) \<le> w \<Longrightarrow> unat (w - k) = unat w - unat k"
  by (simp add: unat_sub word_le_nat_alt)

lemma bmap_reads:
  assumes "calm {} H s" "disk_dev (c_dev (inop k s))" "card H < 38" "\<forall>a. not_held s (c_dev (inop k s)) a"
    "getmode k s \<noteq> F_BDEV"
  shows "\<exists>t. bmap k bn True s =
      Some (if file_blk s k (unat bn) = 0 then NULLBLK else file_blk s k (unat bn), t) \<and>
    calm {} H t \<and> same_rest s t \<and> same_views s t \<and> (\<forall>j \<in> H. bufp j t = bufp j s)"
proof -
  let ?dev = "c_dev (inop k s)" and ?addr = "i_addr (c_node (inop k s))"
  note W = bmap_walk_reads [OF assms(1-3) _ assms(4)]
  show ?thesis
  proof (cases "bn < 18")
    case True
    then have "unat bn < 18" by (simp add: word_less_nat_alt)
    then show ?thesis using True assms(1,5)
      by (auto simp: bmap_def Let_def file_blk_def blk_path_def same_views_def)
  next
    case False
    then have ge: "18 \<le> unat bn" by (simp add: word_less_nat_alt)
    have b1: "unat (bn - 18) = unat bn - 18" using unat_minus_16 [of 18 bn] False by simp
    define dbl where "dbl \<longleftrightarrow> (bn - 18) AND 0xFF00 \<noteq> 0"
    have d: "dbl = (274 \<le> unat bn)" using b1 ge by (auto simp: dbl_def and_hi_zero)
    let ?slot = "if dbl then 19 else 18 :: nat" and ?shs = "if dbl then [8, 0] else [0] :: nat list"
    let ?bn = "if dbl then bn - 18 - 256 else bn - 18"
    have path: "blk_path (unat bn) = ?slot # map (walk_index ?bn) ?shs"
    proof (cases dbl)
      case True
      then have "unat (bn - 18 - 256) = unat bn - 274"
        using unat_minus_16 [of 256 "bn - 18"] b1 d by (simp add: word_le_nat_alt)
      moreover have "unat bn - 274 < 256 * 256" using unat_u16_less [of bn] by (simp add: less_imp_diff_less)
      then have "(unat bn - 274) div 256 < 256" by (rule less_mult_imp_div_less)
      ultimately show ?thesis using True d ge by (simp add: blk_path_def walk_index_0 walk_index_8)
    next
      case False
      then show ?thesis using d ge b1 by (simp add: blk_path_def walk_index_0)
    qed
    have e: "bmap k bn True s = (if ?addr ! ?slot \<noteq> 0 then bmap_walk ?dev ?bn True ?shs (?addr ! ?slot) s else Some (NULLBLK, s))"
      using False assms(5) by (simp add: bmap_def Let_def dbl_def del: bmap_walk.simps)
    show ?thesis
    proof (cases "?addr ! ?slot = 0")
      case True
      then have "file_blk s k (unat bn) = 0" unfolding file_blk_def path by (rule tree_get_zero)
      then show ?thesis using True e assms(1) by (auto simp: same_views_def)
    next
      case False
      have "file_blk s k (unat bn) = tree_get (bview s ?dev) (\<lambda>_. ?addr ! ?slot) (0 # map (walk_index ?bn) ?shs)"
        unfolding file_blk_def path by (rule tree_get_head)
      moreover have "bmap k bn True s = bmap_walk ?dev ?bn True ?shs (?addr ! ?slot) s"
        using e False by (simp only: if_True not_False_eq_True)
      ultimately show ?thesis using W [OF False, where bn = ?bn and shs = ?shs] by (simp only: Let_def)
    qed
  qed
qed

text \<open>C16: Reading the block map (\<^verbatim>\<open>rwflg\<close> 1) of a file that is not a block device looks the block up in the
  radix tree of the file's addresses, through no, one or two indirect blocks, and returns \<^verbatim>\<open>NULLBLK\<close> for a
  hole. It changes no block and no table of the kernel.\<close>

theorem bmap_reads_tree:
  assumes "calm {} H s" "disk_dev (c_dev (inop k s))" "card H < 38" "\<forall>a. not_held s (c_dev (inop k s)) a"
    "getmode k s \<noteq> F_BDEV"
  shows "\<exists>t. bmap k bn True s =
      Some (if file_blk s k (unat bn) = 0 then NULLBLK else file_blk s k (unat bn), t) \<and>
    calm {} H t \<and> same_rest s t \<and> same_views s t \<and> (\<forall>j \<in> H. bufp j t = bufp j s)"
  by (rule bmap_reads [OF assms])

subsection \<open>Witnesses\<close>

lemma sample_ino:
  "inop 0 sample = root_ino" "length (i_tab sample) = 45" "nexti sample = 0" "fsp 0 sample = sample_fs"
  "k < 45 \<Longrightarrow> k \<noteq> 0 \<Longrightarrow> inop k sample = no_ino"
  by (simp_all add: sample_def inop_def fsp_def nth_Cons')

lemma sample_table_ok: "table_ok sample"
proof -
  have "ino_unique sample"
    unfolding ino_unique_def is_ino_def
    by (intro allI impI) (case_tac "k = 0"; case_tac "l = 0"; simp add: sample_ino root_ino_def no_ino_def)
  then show ?thesis by (simp add: table_ok_def sample_ino)
qed

lemma disk0: "disk_dev 0"
  by (simp add: disk_dev_def)

lemma sample_calm: "calm {} {} sample"
  using sample_quiet by (simp add: quiet_calm)

lemma i_open_loads_once_witness: "\<exists>r t. i_open 0 1 sample = Some (r, t) \<and> table_ok t \<and> same_views sample t"
proof -
  have "\<not> ino_bad 1 (fsp 0 sample)" by (simp add: ino_bad_def sample_ino sample_fs_def word_le_nat_alt)
  from i_open_loads_once [OF sample_calm disk0 sample_table_ok _ this avail_quiet [OF sample_quiet]] show ?thesis
    by auto
qed

lemma wr_inode_stores_one_witness: "\<exists>t. wr_inode 0 sample = Some t \<and> disk_ino t 0 1 = c_node root_ino"
  using wr_inode_stores_one [where H = "{}" and s = sample and k = 0 and m = 1] sample_calm disk0 avail_quiet [OF sample_quiet]
  by (auto simp: sample_ino root_ino_def dinode_ok_def no_node_def)

lemma ref_then_deref_witness: "Option.bind (i_ref 0 sample) (i_deref 0) = Some sample"
  by (rule ref_then_deref) (simp_all add: sample_ino root_ino_def getmode_def F_MASK_def F_PIPE_def)

lemma last_deref_writes_back_witness:
  "\<exists>t. i_deref 0 (upd_ino 0 (\<lambda>c. c\<lparr>c_refs := 1, c_dirty := 1\<rparr>) sample) = Some t \<and> c_refs (inop 0 t) = 0 \<and>
     disk_ino t 0 1 = c_node root_ino"
proof -
  let ?s = "upd_ino 0 (\<lambda>c. c\<lparr>c_refs := 1, c_dirty := 1\<rparr>) sample"
  have "same_pool sample ?s" by simp
  note V = same_pool_views [OF this]
  have "inop 0 ?s = root_ino\<lparr>c_refs := 1, c_dirty := 1\<rparr>" by (simp add: inop_upd sample_ino)
  then show ?thesis
    using last_deref_writes_back [where H = "{}" and s = ?s and k = 0 and m = 1] sample_calm disk0
      avail_quiet [OF sample_quiet] V
    by (auto simp: sample_ino root_ino_def dinode_ok_def no_node_def getmode_def F_MASK_def F_PIPE_def)
qed

lemma bmap_reads_tree_witness: "\<exists>t. bmap 0 5 True sample = Some (NULLBLK, t) \<and> same_views sample t"
proof -
  have "\<forall>a. not_held sample 0 a" using avail_quiet [OF sample_quiet] by (auto simp: avail_def)
  then show ?thesis
    using bmap_reads_tree [where H = "{}" and s = sample and k = 0 and bn = 5] sample_calm disk0
    by (auto simp: sample_ino root_ino_def getmode_def F_MASK_def F_BDEV_def file_blk_def blk_path_def no_node_def)
qed

end
