(* ===== verification/Names.thy ===== *)
theory Names
  imports Paths InodeTable
begin

section \<open>File names and permissions\<close>

text \<open>
  What the name comparison computes: equality of the two path components, cut to 14 characters. With it
  the directory search finds the first entry with the name. \<open>getperm\<close> is shown to select the permission
  bits of the owner, the group or the others.
\<close>

subsection \<open>Path components\<close>

definition name_char :: "u8 \<Rightarrow> bool" where
  "name_char c \<longleftrightarrow> c \<noteq> 0 \<and> c \<noteq> 47"

definition component :: "u8 list \<Rightarrow> u8 list" where
  "component n = takeWhile name_char n"

text \<open>Enough of the string is readable: it ends, or has the \<open>n\<close> characters that are compared.\<close>

definition readable :: "nat \<Rightarrow> u8 list \<Rightarrow> bool" where
  "readable n str \<longleftrightarrow> n \<le> length str \<or> (\<exists>c \<in> set str. \<not> name_char c)"

lemma readable_Cons: "readable (Suc n) (c # str) \<Longrightarrow> name_char c \<Longrightarrow> readable n str"
  by (auto simp: readable_def)

lemma readable_nonempty: "readable (Suc n) str \<Longrightarrow> str \<noteq> []"
  by (auto simp: readable_def)

lemma namecomp_take:
  assumes "0 < n" "readable n n1" "readable n n2"
  shows "namecomp n n1 n2 = Some (take n (component n1) = take n (component n2))"
  using assms
proof (induction n n1 n2 rule: namecomp.induct)
  case (1 n n2)
  then show ?case by (cases n) (auto dest: readable_nonempty)
next
  case (2 n c1 n1 n2)
  then obtain m c2 r2 where n: "n = Suc m" and n2: "n2 = c2 # r2"
    by (cases n; cases n2) (auto dest: readable_nonempty)
  show ?case
  proof (cases "name_char c1 \<and> c1 = c2 \<and> m \<noteq> 0")
    case True
    then have "namecomp m n1 r2 = Some (take m (component n1) = take m (component r2))"
      using 2 readable_Cons [of m c1 n1] readable_Cons [of m c2 r2] by (auto simp: n n2 name_char_def)
    with True show ?thesis by (simp add: n n2 name_char_def component_def)
  next
    case False
    then show ?thesis by (auto simp: n n2 name_char_def component_def)
  qed
qed

text \<open>Two names are the same to the kernel iff their components up to the first slash or NUL agree in
  the first 14 characters.\<close>

theorem namecomp_compares_14:
  assumes "readable 14 n1" "readable 14 n2"
  shows "namecomp 14 n1 n2 = Some (take 14 (component n1) = take 14 (component n2))"
  by (rule namecomp_take) (use assms in simp_all)

theorem namecomp_compares_14_witness:
  "namecomp 14 [117, 115, 114, 47, 98] ([117, 115, 114] @ replicate 11 0) = Some True"
  using namecomp_compares_14 [of "[117, 115, 114, 47, 98]" "[117, 115, 114] @ replicate 11 0"]
  by (simp add: readable_def component_def name_char_def)

lemma length_d_name [simp]: "length (d_name (dir_entry b j)) \<le> 14"
  by (simp add: dir_entry_def bytes_direct_def)

lemma length_d_name_eq: "length b = 512 \<Longrightarrow> j < 32 \<Longrightarrow> length (d_name (dir_entry b j)) = 14"
  by (simp add: dir_entry_def bytes_direct_def)

definition entry_named :: "u8 list \<Rightarrow> block \<Rightarrow> nat \<Rightarrow> bool" where
  "entry_named nm b j \<longleftrightarrow> take 14 (component nm) = take 14 (component (d_name (dir_entry b j)))"

lemma dir_scan_find:
  assumes "readable 14 nm" "length b = 512" "\<forall>j \<in> set js. j < 32"
  shows "dir_scan nm b js = Some (find (entry_named nm b) js)"
  using assms(3)
proof (induction js)
  case Nil
  then show ?case by simp
next
  case (Cons j js)
  then have "namecomp 14 nm (d_name (dir_entry b j)) = Some (entry_named nm b j)"
    using namecomp_take [of 14 nm "d_name (dir_entry b j)"] assms(1,2)
    by (simp add: readable_def entry_named_def length_d_name_eq)
  with Cons show ?case by simp
qed

subsection \<open>Directory search\<close>

text \<open>The blocks of a directory, with the number of the block a hole is read from (\<^verbatim>\<open>srch_dir\<close> does not test
  \<^verbatim>\<open>bmap\<close>'s \<^verbatim>\<open>NULLBLK\<close>), and the inode number of the first entry with the name.\<close>

definition dir_blk :: "kst \<Rightarrow> nat \<Rightarrow> u16 \<Rightarrow> block" where
  "dir_blk s wd cur =
     bview s (c_dev (inop wd s)) (if file_blk s wd (unat cur) = 0 then NULLBLK else file_blk s wd (unat cur))"

fun dir_lookup :: "(u16 \<Rightarrow> block) \<Rightarrow> u8 list \<Rightarrow> u16 list \<Rightarrow> u16 option" where
  "dir_lookup D nm [] = None"
| "dir_lookup D nm (cur # curs) =
     (case find (entry_named nm (D cur)) [0..<32] of
        Some j \<Rightarrow> Some (d_ino (dir_entry (D cur) j))
      | None \<Rightarrow> dir_lookup D nm curs)"

lemma not_held_kept:
  assumes "calm X H s" "calm Y H t" "\<forall>j \<in> H. bufp j t = bufp j s" "not_held s d a"
  shows "not_held t d a"
proof -
  have "bf_busy (bufp i t) \<longleftrightarrow> i \<in> H" "bf_busy (bufp i s) \<longleftrightarrow> i \<in> H" if "i < 38" for i
    using assms(1,2) that by (auto simp: calm_def busyset_def)
  with assms(3,4) show ?thesis unfolding not_held_def by metis
qed

lemma file_blk_cong:
  assumes "same_rest s t" "same_views s t" "disk_dev (c_dev (inop k s))"
  shows "file_blk t k n = file_blk s k n" "inop k t = inop k s"
proof -
  show i: "inop k t = inop k s" using assms(1) by (simp add: inop_def same_rest_kst)
  have "bview t (c_dev (inop k s)) = bview s (c_dev (inop k s))"
    using assms(2,3) by (simp add: same_views_def fun_eq_iff)
  then show "file_blk t k n = file_blk s k n" by (simp add: file_blk_def i)
qed

lemma srch_blocks_lookup:
  assumes "calm {} H s" "disk_dev (c_dev (inop wd s))" "card H < 38" "\<forall>a. not_held s (c_dev (inop wd s)) a"
    "getmode wd s \<noteq> F_BDEV" "readable 14 nm"
  shows "\<exists>t. calm {} H t \<and> same_rest s t \<and> same_views s t \<and>
    srch_blocks wd nm curs s = (case dir_lookup (dir_blk s wd) nm curs of
       None \<Rightarrow> Some (None, t) | Some n \<Rightarrow> i_open (c_dev (inop wd s)) n t)"
  using assms
proof (induction curs arbitrary: s)
  case Nil
  then show ?case by (auto simp: same_views_def)
next
  case (Cons cur curs)
  let ?dev = "c_dev (inop wd s)"
  let ?pb = "if file_blk s wd (unat cur) = 0 then NULLBLK else file_blk s wd (unat cur)"
  from bmap_reads [OF Cons.prems(1-5)] obtain t where
    t: "bmap wd cur True s = Some (?pb, t)" "calm {} H t" "same_rest s t" "same_views s t" "\<forall>j \<in> H. bufp j t = bufp j s"
    by blast
  have nh: "\<forall>a. not_held t ?dev a" using not_held_kept [OF Cons.prems(1) t(2,5)] Cons.prems(4) by blast
  then have av: "avail H t ?dev a" for a using Cons.prems(3) by (simp add: avail_def)
  from read_block [OF t(2) Cons.prems(2) av, where b = ?pb] obtain i u where
    u: "breadp ?dev ?pb False t = Some (i, u)" "buf_data i u = bview t ?dev ?pb" "same_rest t u"
    and close: "\<forall>w. same_pool u w \<longrightarrow> (\<exists>v. brelse i w = Some v \<and> calm {} H v \<and> same_rest w v \<and> same_views t v \<and>
       (\<forall>j \<in> H. bufp j v = bufp j t) \<and> (\<forall>e a. avail H t e a \<longrightarrow> avail H v e a))" by blast
  obtain v where v: "brelse i u = Some v" "calm {} H v" "same_rest u v" "same_views t v" "\<forall>j \<in> H. bufp j v = bufp j t"
    using close same_pool_refl by blast
  have sr: "same_rest s v" by (rule same_rest_trans [OF t(3) same_rest_trans [OF u(3) v(3)]])
  have sv: "same_views s v" using t(4) v(4) by (simp add: same_views_def)
  have D: "buf_data i u = dir_blk s wd cur"
    using u(2) t(4) Cons.prems(2) by (simp add: dir_blk_def same_views_def)
  have "length (dir_blk s wd cur) = 512"
    using Cons.prems(1) bview_length [of "{}" s] by (simp add: dir_blk_def calm_def)
  then have scan: "dir_scan nm (dir_blk s wd cur) [0..<32] = Some (find (entry_named nm (dir_blk s wd cur)) [0..<32])"
    using dir_scan_find [OF Cons.prems(6)] by simp
  have e: "srch_blocks wd nm (cur # curs) s = (case find (entry_named nm (dir_blk s wd cur)) [0..<32] of
       Some j \<Rightarrow> i_open ?dev (d_ino (dir_entry (dir_blk s wd cur) j)) v | None \<Rightarrow> srch_blocks wd nm curs v)"
    using t(1) u(1) scan v(1) by (simp add: Let_def D split: option.split)
  show ?case
  proof (cases "find (entry_named nm (dir_blk s wd cur)) [0..<32]")
    case (Some j)
    then show ?thesis using e v(2) sr sv by auto
  next
    case None
    have C: "file_blk v wd n = file_blk s wd n" "inop wd v = inop wd s" for n
      using file_blk_cong [OF sr sv Cons.prems(2)] by simp_all
    have "\<forall>a. not_held v ?dev a" using not_held_kept [OF t(2) v(2,5)] nh by blast
    then have "\<exists>t. calm {} H t \<and> same_rest v t \<and> same_views v t \<and>
      srch_blocks wd nm curs v = (case dir_lookup (dir_blk v wd) nm curs of
         None \<Rightarrow> Some (None, t) | Some n \<Rightarrow> i_open (c_dev (inop wd v)) n t)"
      by (intro Cons.IH) (use v(2) Cons.prems C in \<open>simp_all add: getmode_def\<close>)
    moreover have "dir_blk v wd = dir_blk s wd"
      using sv Cons.prems(2) by (simp add: fun_eq_iff dir_blk_def C same_views_def)
    ultimately obtain w where w: "calm {} H w" "same_rest v w" "same_views v w"
      "srch_blocks wd nm curs v = (case dir_lookup (dir_blk s wd) nm curs of
         None \<Rightarrow> Some (None, w) | Some n \<Rightarrow> i_open ?dev n w)" unfolding C(2) by metis
    moreover have "same_views s w" using sv w(3) by (simp add: same_views_def)
    ultimately show ?thesis using e None same_rest_trans [OF sr w(2)] by auto
  qed
qed

text \<open>C12: Searching a directory opens the inode of the first entry, in the order of the blocks and of the 32
  entries in each, whose name agrees with the wanted component, and returns NULL if there is none. No block
  and no kernel table changes before that \<^verbatim>\<open>i_open\<close>.\<close>

theorem srch_dir_opens_first:
  assumes "calm {} H s" "disk_dev (c_dev (inop wd s))" "card H < 38" "\<forall>a. not_held s (c_dev (inop wd s)) a"
    "getmode wd s \<noteq> F_BDEV" "readable 14 nm"
  shows "\<exists>t. calm {} H t \<and> same_rest s t \<and> same_views s t \<and>
    srch_dir wd nm s = (case dir_lookup (dir_blk s wd) nm (map of_nat [0..<unat (dir_blocks wd s)]) of
       None \<Rightarrow> Some (None, t) | Some n \<Rightarrow> i_open (c_dev (inop wd s)) n t)"
  unfolding srch_dir_def by (rule srch_blocks_lookup [OF assms])

theorem srch_dir_opens_first_witness:
  "\<exists>t. srch_dir 0 [98, 105, 110, 0] sample = Some (None, t) \<and> same_views sample t"
proof -
  have "\<forall>a. not_held sample 0 a" using avail_quiet [OF sample_quiet] by (auto simp: avail_def)
  moreover have "dir_blocks 0 sample = 0"
    by (simp add: dir_blocks_def sample_ino root_ino_def no_node_def off0_def)
  ultimately show ?thesis
    using srch_dir_opens_first [where H = "{}" and s = sample and wd = 0 and nm = "[98, 105, 110, 0]"] sample_calm disk0
    by (auto simp: sample_ino root_ino_def getmode_def F_MASK_def F_BDEV_def readable_def name_char_def)
qed

subsection \<open>The last component of a path\<close>

text \<open>The pointer \<^verbatim>\<open>filename\<close> computes splits the path behind its last slash.\<close>

theorem last_comp_splits:
  "take (last_comp str) str @ drop (last_comp str) str = str \<and> 47 \<notin> set (drop (last_comp str) str) \<and>
   (last_comp str = 0 \<or> str ! (last_comp str - 1) = 47)"
proof -
  let ?t = "takeWhile (\<lambda>c. c \<noteq> 47) (rev str)" and ?d = "dropWhile (\<lambda>c. c \<noteq> 47) (rev str)"
  have "rev str = ?t @ ?d" by simp
  then have str: "str = rev ?d @ rev ?t" by (metis rev_append rev_rev_ident)
  have "length str = length ?d + length ?t" using arg_cong [OF str, of length] by simp
  then have n: "last_comp str = length (rev ?d)" by (simp add: last_comp_def)
  have d: "drop (last_comp str) str = rev ?t"
    by (subst (2) str) (simp add: n)
  then have "47 \<notin> set (drop (last_comp str) str)" by (auto dest: set_takeWhileD)
  moreover have "last_comp str = 0 \<or> str ! (last_comp str - 1) = 47"
  proof (cases ?d)
    case Nil
    then show ?thesis by (simp add: n)
  next
    case (Cons c cs)
    then have "c = 47" using hd_dropWhile [of "\<lambda>c. c \<noteq> 47" "rev str"] by auto
    moreover have "str ! (last_comp str - 1) = (rev cs @ [c]) ! length cs"
      by (subst str) (simp add: n Cons nth_append)
    moreover have "(rev cs @ [c]) ! length cs = c" using nth_append_length [of "rev cs" c "[]"] by simp
    ultimately show ?thesis by simp
  qed
  ultimately show ?thesis by simp
qed

subsection \<open>Names with a dot in second place\<close>

text \<open>In the root directory of a mounted file system every name whose second character is a dot is taken for
  \<^verbatim>\<open>..\<close> (only \<^verbatim>\<open>name[1]\<close> is tested): the search goes on in the directory the file system is mounted on.\<close>

lemma cross_up_any_dot_name:
  assumes "c_num (inop wd s) = ROOTINODE" "c_dev (inop wd s) \<noteq> ROOTDEV s"
    "0 \<le> c_dev (inop wd s)" "c_dev (inop wd s) < 4" "addr_ino (s_mntpt (fsp (c_dev (inop wd s)) s)) = Some k"
    "i_deref wd (upd_ino k (\<lambda>c. c\<lparr>c_refs := c_refs c + 1\<rparr>) s) = Some t"
  shows "cross_up wd (c # 46 # name) s = Some (k, t)"
  using assms by (simp add: cross_up_def Let_def)

subsection \<open>Permissions\<close>

definition perm_class :: "nat \<Rightarrow> kst \<Rightarrow> nat" where
  "perm_class ino s =
     (if i_uid (c_node (inop ino s)) = u_euid s then 6 else if i_gid (c_node (inop ino s)) = u_egid s then 3 else 0)"

text \<open>The super user has all permissions; anyone else has the three bits of the mode that belong to the
  owner, to the group if not the owner, or to the others.\<close>

theorem getperm_selects_class:
  "unat (getperm ino s) =
     (if u_euid s = 0 then 7 else unat (i_mode (c_node (inop ino s))) div 2 ^ perm_class ino s mod 8)"
proof -
  have bits: "unat (signed_drop_bit k m AND 7) = unat (m :: u16) div 2 ^ k mod 8" if "k \<le> 6" for k m
  proof -
    have "signed_drop_bit k m AND 7 = drop_bit k m AND 7"
      by (rule bit_word_eqI) (use that in \<open>auto simp: bit_simps bit_numeral_rec(2) numeral_eq_Suc elim!: less_SucE\<close>)
    also have "\<dots> = take_bit 3 (drop_bit k m)" by (simp add: take_bit_eq_mask mask_eq_exp_minus_1)
    finally have "unat (signed_drop_bit k m AND 7) = unat (take_bit 3 (drop_bit k m))" by simp
    also have "\<dots> = take_bit 3 (drop_bit k (unat m))"
      by (simp add: unsigned_take_bit_eq unsigned_drop_bit_eq take_bit_nat_eq_self del: drop_bit_of_0)
    finally show ?thesis by (simp add: take_bit_eq_mod drop_bit_eq_div)
  qed
  have "unat (m AND 7) = unat (m :: u16) mod 8" for m using bits [of 0 m] by simp
  then show ?thesis using bits [of 6] bits [of 3]
    by (simp add: getperm_def super_def perm_class_def Let_def)
qed

end
