(* ===== verification/FileTree.thy ===== *)
theory FileTree
  imports InodeTable
begin

section \<open>The blocks of a file as a forest\<close>

text \<open>
  The addresses of an inode are the roots of twenty trees, of height 0 (direct), 1 and 2; an inner node is a block
  of 256 block numbers, 0 for a subtree that is missing. \<open>ptr\<close> looks a block up, \<open>nodes\<close> lists all blocks of a tree,
  \<open>inner\<close> those that hold numbers, and \<open>content\<close> gives the data of a block, zeros for a missing one. A tree is
  changed in two ways: a fresh block of zeros is hung into an empty place, and the data of a leaf is replaced.
\<close>

primrec ptr :: "nat \<Rightarrow> (u16 \<Rightarrow> block) \<Rightarrow> u16 \<Rightarrow> nat \<Rightarrow> u16" where
  "ptr 0 V p n = p"
| "ptr (Suc h) V p n = ptr h V (if p = 0 then 0 else get16 (V p) (n div 256 ^ h mod 256)) n"

primrec nodes :: "nat \<Rightarrow> (u16 \<Rightarrow> block) \<Rightarrow> u16 \<Rightarrow> u16 list" where
  "nodes 0 V p = (if p = 0 then [] else [p])"
| "nodes (Suc h) V p = (if p = 0 then [] else p # concat (map (\<lambda>i. nodes h V (get16 (V p) i)) [0..<256]))"

primrec inner :: "nat \<Rightarrow> (u16 \<Rightarrow> block) \<Rightarrow> u16 \<Rightarrow> u16 list" where
  "inner 0 V p = []"
| "inner (Suc h) V p = (if p = 0 then [] else p # concat (map (\<lambda>i. inner h V (get16 (V p) i)) [0..<256]))"

definition content :: "(u16 \<Rightarrow> block) \<Rightarrow> u16 \<Rightarrow> block" where
  "content V q = (if q = 0 then zero_blk else V q)"

lemma ptr_0 [simp]: "ptr h V 0 n = 0"
  by (induction h) simp_all

lemma nodes_0 [simp]: "nodes h V 0 = []"
  by (cases h) simp_all

lemma inner_0 [simp]: "inner h V 0 = []"
  by (cases h) simp_all

lemma nodes_ne: "p \<noteq> 0 \<Longrightarrow> p \<in> set (nodes h V p)"
  by (cases h) simp_all

lemma inner_nodes: "set (inner h V p) \<subseteq> set (nodes h V p)"
proof (induction h arbitrary: p)
  case (Suc h)
  then show ?case by (auto simp: subset_iff)
qed simp

lemma nodes_nonzero: "0 \<notin> set (nodes h V p)"
  by (induction h arbitrary: p) auto

lemma digit_less [simp]: "n div 256 ^ h mod 256 < (256 :: nat)"
  by simp

lemma ptr_in_nodes: "ptr h V p n \<noteq> 0 \<Longrightarrow> ptr h V p n \<in> set (nodes h V p)"
proof (induction h arbitrary: p)
  case (Suc h)
  then have "p \<noteq> 0" by (cases "p = 0") simp_all
  then show ?case using Suc.IH [of "get16 (V p) (n div 256 ^ h mod 256)"] Suc.prems by fastforce
qed simp

lemma inner_cong:
  assumes "\<And>a. a \<in> set (inner h V p) \<Longrightarrow> W a = V a"
  shows "nodes h W p = nodes h V p" "inner h W p = inner h V p" "ptr h W p n = ptr h V p n"
proof -
  have "nodes h W p = nodes h V p \<and> inner h W p = inner h V p \<and> ptr h W p n = ptr h V p n"
    using assms
  proof (induction h arbitrary: p)
    case (Suc h)
    show ?case
    proof (cases "p = 0")
      case False
      then have p: "W p = V p" using Suc.prems by simp
      have "nodes h W (get16 (V p) i) = nodes h V (get16 (V p) i) \<and> inner h W (get16 (V p) i) = inner h V (get16 (V p) i) \<and>
          ptr h W (get16 (V p) i) n = ptr h V (get16 (V p) i) n" if "i < 256" for i
      proof (rule Suc.IH)
        show "W a = V a" if "a \<in> set (inner h V (get16 (V p) i))" for a
          using that \<open>i < 256\<close> False by (intro Suc.prems) auto
      qed
      note C = this
      have "map (\<lambda>i. nodes h W (get16 (V p) i)) [0..<256] = map (\<lambda>i. nodes h V (get16 (V p) i)) [0..<256]"
        "map (\<lambda>i. inner h W (get16 (V p) i)) [0..<256] = map (\<lambda>i. inner h V (get16 (V p) i)) [0..<256]"
        using C by simp_all
      then show ?thesis using False C by (simp only: nodes.simps inner.simps ptr.simps p if_False digit_less simp_thms)
    qed simp
  qed simp
  then show "nodes h W p = nodes h V p" "inner h W p = inner h V p" "ptr h W p n = ptr h V p n" by simp_all
qed

text \<open>In a tree without repetitions a leaf is in one place.\<close>

lemma distinct_concat_upt:
  "distinct (concat (map f [0..<n])) \<longleftrightarrow>
     (\<forall>j < n. distinct (f j)) \<and> (\<forall>j < n. \<forall>k < n. j \<noteq> k \<longrightarrow> set (f j) \<inter> set (f k) = {})"
proof (induction n)
  case (Suc n)
  have "distinct (concat (map f [0..<Suc n])) \<longleftrightarrow>
      distinct (concat (map f [0..<n])) \<and> distinct (f n) \<and> (\<forall>j < n. set (f j) \<inter> set (f n) = {})"
    by (simp add: disjoint_iff atLeast0LessThan) blast
  also have "\<dots> \<longleftrightarrow> (\<forall>j < Suc n. distinct (f j)) \<and> (\<forall>j < Suc n. \<forall>k < Suc n. j \<noteq> k \<longrightarrow> set (f j) \<inter> set (f k) = {})"
    unfolding Suc.IH All_less_Suc by blast
  finally show ?case .
qed simp

lemma child_disjoint:
  assumes "distinct (nodes (Suc h) V p)" "p \<noteq> 0" "i < 256" "j < 256" "i \<noteq> j"
  shows "set (nodes h V (get16 (V p) i)) \<inter> set (nodes h V (get16 (V p) j)) = {}"
  using assms unfolding nodes.simps if_not_P [OF assms(2)] distinct.simps distinct_concat_upt by blast

lemma child_distinct:
  assumes "distinct (nodes (Suc h) V p)" "p \<noteq> 0" "i < 256"
  shows "distinct (nodes h V (get16 (V p) i))" "p \<notin> set (nodes h V (get16 (V p) i))"
    "set (nodes h V (get16 (V p) i)) \<subseteq> set (nodes (Suc h) V p)"
  using assms by (auto simp: distinct_concat_iff)

lemma leaf_not_inner:
  assumes "distinct (nodes h V p)" "ptr h V p n \<noteq> 0"
  shows "ptr h V p n \<notin> set (inner h V p)"
  using assms
proof (induction h arbitrary: p)
  case (Suc h)
  let ?i = "n div 256 ^ h mod 256"
  let ?c = "\<lambda>i. get16 (V p) i"
  have p: "p \<noteq> 0" using Suc.prems(2) by (cases "p = 0") simp_all
  then have q: "ptr (Suc h) V p n = ptr h V (?c ?i) n" by simp
  note C = child_distinct [OF Suc.prems(1) p, of ?i]
  have m: "ptr h V (?c ?i) n \<in> set (nodes h V (?c ?i))" using Suc.prems(2) q by (intro ptr_in_nodes) simp
  have "ptr h V (?c ?i) n \<notin> set (inner h V (?c ?i))" using Suc.prems(2) q C(1) by (intro Suc.IH) simp_all
  moreover have "ptr h V (?c ?i) n \<notin> set (inner h V (?c j))" if "j < 256" "j \<noteq> ?i" for j
    using child_disjoint [OF Suc.prems(1) p _ that(1), of ?i] that m inner_nodes [of h V "?c j"] by auto
  moreover have "ptr h V (?c ?i) n \<noteq> p" using C(2) m by auto
  ultimately have "\<forall>j < 256. ptr h V (?c ?i) n \<notin> set (inner h V (?c j))" "ptr h V (?c ?i) n \<noteq> p"
    by metis+
  then show ?case using p unfolding q by auto
qed simp

lemma leaf_unique:
  assumes "distinct (nodes h V p)" "ptr h V p n = ptr h V p m" "ptr h V p n \<noteq> 0"
  shows "n mod 256 ^ h = m mod 256 ^ h"
  using assms
proof (induction h arbitrary: p)
  case (Suc h)
  let ?i = "\<lambda>n. n div 256 ^ h mod 256"
  let ?c = "\<lambda>i. get16 (V p) i"
  have p: "p \<noteq> 0" using Suc.prems(3) by (cases "p = 0") simp_all
  then have q: "ptr (Suc h) V p n = ptr h V (?c (?i n)) n" for n by simp
  have "ptr h V (?c (?i k)) k \<in> set (nodes h V (?c (?i k)))" if "k = n \<or> k = m" for k
    using Suc.prems(2,3) q that by (intro ptr_in_nodes) auto
  then have "ptr h V (?c (?i n)) n \<in> set (nodes h V (?c (?i n))) \<inter> set (nodes h V (?c (?i m)))"
    using Suc.prems(2) unfolding q by (metis IntI)
  then have i: "?i n = ?i m" using child_disjoint [OF Suc.prems(1) p, of "?i n" "?i m"] by fastforce
  have "n mod 256 ^ h = m mod 256 ^ h"
  proof (rule Suc.IH)
    show "distinct (nodes h V (?c (?i n)))" by (rule child_distinct(1) [OF Suc.prems(1) p]) simp
    show "ptr h V (?c (?i n)) n = ptr h V (?c (?i n)) m" "ptr h V (?c (?i n)) n \<noteq> 0"
      using Suc.prems(2,3) i q [of n] q [of m] by simp_all
  qed
  then show ?case using i by (simp only: power_Suc2 mod_mult2_eq)
qed simp

lemma ptr_digits:
  assumes "n mod 256 ^ h = m mod 256 ^ h"
  shows "ptr h V p n = ptr h V p m"
  using assms
proof (induction h arbitrary: p)
  case (Suc h)
  have split: "x mod 256 ^ Suc h = 256 ^ h * (x div 256 ^ h mod 256) + x mod 256 ^ h" for x :: nat
    by (simp only: power_Suc2 mod_mult2_eq)
  have "x mod 256 ^ Suc h div 256 ^ h = x div 256 ^ h mod 256" "x mod 256 ^ Suc h mod 256 ^ h = x mod 256 ^ h" for x :: nat
    unfolding split by simp_all
  then have "n div 256 ^ h mod 256 = m div 256 ^ h mod 256" "n mod 256 ^ h = m mod 256 ^ h" using Suc.prems by metis+
  then show ?case using Suc.IH by simp
qed simp

text \<open>The data of a leaf replaced.\<close>

lemma write_leaf:
  fixes b :: block
  assumes "distinct (nodes h V p)" "ptr h V p m = q" "q \<noteq> 0"
  defines "W \<equiv> V(q := b)"
  shows "nodes h W p = nodes h V p" "inner h W p = inner h V p" "ptr h W p n = ptr h V p n"
    "content W (ptr h W p n) = (if n mod 256 ^ h = m mod 256 ^ h then b else content V (ptr h V p n))"
proof -
  have "q \<notin> set (inner h V p)" using leaf_not_inner [OF assms(1), of m] assms(2,3) by simp
  then have W: "W a = V a" if "a \<in> set (inner h V p)" for a using that by (auto simp: W_def)
  from inner_cong [of h V p W, OF W]
  show N: "nodes h W p = nodes h V p" "inner h W p = inner h V p" and P: "ptr h W p n = ptr h V p n" by simp_all
  show "content W (ptr h W p n) = (if n mod 256 ^ h = m mod 256 ^ h then b else content V (ptr h V p n))"
  proof (cases "n mod 256 ^ h = m mod 256 ^ h")
    case True
    from ptr_digits [OF this, of V p] show ?thesis using True assms(2,3) unfolding P by (simp add: content_def W_def)
  next
    case False
    then have "ptr h V p n \<noteq> q" using leaf_unique [OF assms(1), of n m] assms(2,3) by metis
    then show ?thesis using False unfolding P by (simp add: content_def W_def)
  qed
qed

text \<open>A tree that has got the blocks \<open>new\<close> (and perhaps a root): nothing else has changed and every content is as before.\<close>

definition grown_tree :: "nat \<Rightarrow> (u16 \<Rightarrow> block) \<Rightarrow> u16 \<Rightarrow> (u16 \<Rightarrow> block) \<Rightarrow> u16 \<Rightarrow> u16 list \<Rightarrow> bool" where
  "grown_tree h V p W q new \<longleftrightarrow> distinct (nodes h W q) \<and> set (nodes h W q) = set (nodes h V p) \<union> set new \<and>
     set (inner h W q) \<subseteq> set (inner h V p) \<union> set new \<and> (\<forall>n. content W (ptr h W q n) = content V (ptr h V p n)) \<and>
     (\<forall>a. a \<notin> set (inner h V p) \<union> set new \<longrightarrow> W a = V a)"

lemma grown_tree_refl: "distinct (nodes h V p) \<Longrightarrow> grown_tree h V p V p []"
  by (simp add: grown_tree_def)

lemma grown_tree_trans:
  assumes "grown_tree h V p W q xs" "grown_tree h W q X r ys"
  shows "grown_tree h V p X r (xs @ ys)"
  using assms unfolding grown_tree_def by (auto simp: subset_iff)

lemma get16_zero: "i < 256 \<Longrightarrow> get16 zero_blk i = 0"
  by (simp add: get16_def zero_blk_def le16_def)

lemma fresh_tree:
  assumes "x \<noteq> 0"
  shows "grown_tree h V 0 (V(x := zero_blk)) x [x]"
proof -
  let ?W = "V(x := zero_blk)"
  have "nodes h ?W x = [x] \<and> set (inner h ?W x) \<subseteq> {x} \<and> content ?W (ptr h ?W x n) = zero_blk" for n
    using assms by (cases h) (simp_all add: get16_zero content_def)
  then show ?thesis by (simp add: grown_tree_def content_def)
qed

lemma grown_tree_child:
  assumes d: "distinct (nodes (Suc h) V p)" "p \<noteq> 0" and i: "i < 256" and l: "length (V p) = 512"
    and g: "grown_tree h V (get16 (V p) i) W c new" and new: "set new \<inter> set (nodes (Suc h) V p) = {}"
  defines "X \<equiv> W(p := set16 (V p) i c)"
  shows "grown_tree (Suc h) V p X p new" "get16 (X p) i = c"
    "n div 256 ^ h mod 256 = i \<Longrightarrow> ptr (Suc h) X p n = ptr h W c n"
proof -
  let ?c = "\<lambda>j. get16 (V p) j"
  note C = child_distinct [OF d] and [simp del] = nodes.simps inner.simps
  have cX: "get16 (X p) j = (if j = i then c else ?c j)" for j using l i by (simp add: X_def get16_set16)
  have pn: "p \<notin> set (nodes h V (?c i))" "p \<notin> set new" using C(2) [OF i] new nodes_ne [OF d(2)] by blast+
  have far: "X a = V a" if "a \<noteq> p" "a \<notin> set (inner h V (?c i)) \<union> set new" for a using g that by (simp add: grown_tree_def X_def)
  have old: "a \<notin> set (inner h V (?c i)) \<union> set new" "a \<noteq> p" if "a \<in> set (nodes h V (?c j))" "j < 256" "j \<noteq> i" for a j
    using that child_disjoint [OF d that(2) i that(3)] inner_nodes [of h V "?c i"] new C(2,3) [OF that(2)] by blast+
  have o: "nodes h X (?c j) = nodes h V (?c j)" "inner h X (?c j) = inner h V (?c j)" "ptr h X (?c j) n = ptr h V (?c j) n"
    if "j < 256" "j \<noteq> i" for j n
    using inner_cong [of h V "?c j" X] far old [OF _ that] inner_nodes [of h V "?c j"] by blast+
  have "p \<notin> set (inner h W c)" using g pn inner_nodes [of h V "?c i"] by (auto simp: grown_tree_def)
  then have "X a = W a" if "a \<in> set (inner h W c)" for a using that by (auto simp: X_def)
  from inner_cong [of h W c X, OF this]
  have cc: "nodes h X c = nodes h W c" "inner h X c = inner h W c" "ptr h X c n = ptr h W c n" for n by blast+
  have G: "distinct (nodes h X c)" "set (nodes h X c) = set (nodes h V (?c i)) \<union> set new"
      "set (inner h X c) \<subseteq> set (inner h V (?c i)) \<union> set new" "content X (ptr h X c n) = content V (ptr h V (?c i) n)" for n
  proof -
    show "distinct (nodes h X c)" "set (nodes h X c) = set (nodes h V (?c i)) \<union> set new"
      "set (inner h X c) \<subseteq> set (inner h V (?c i)) \<union> set new" using g by (simp_all add: grown_tree_def cc)
    have "ptr h W c n \<noteq> p" using g pn ptr_in_nodes [of h W c n] d(2) by (auto simp: grown_tree_def)
    then have "content X (ptr h W c n) = content W (ptr h W c n)" by (simp add: content_def X_def)
    then show "content X (ptr h X c n) = content V (ptr h V (?c i) n)" using g unfolding cc by (simp add: grown_tree_def)
  qed
  let ?d = "\<lambda>j. get16 (X p) j"
  have NJ: "set (nodes h X (?d j)) = set (nodes h V (?c j)) \<union> (if j = i then set new else {})"
    and IJ: "set (inner h X (?d j)) \<subseteq> set (inner h V (?c j)) \<union> (if j = i then set new else {})"
    and DJ: "distinct (nodes h X (?d j))" if "j < 256" for j
    using that o G C(1) by (cases "j = i"; simp add: cX)+
  have N: "set (nodes (Suc h) X p) = set (nodes (Suc h) V p) \<union> set new"
    using NJ i d(2) by (auto simp: nodes.simps split: if_splits)
  have I: "set (inner (Suc h) X p) \<subseteq> set (inner (Suc h) V p) \<union> set new"
    using IJ i d(2) by (fastforce simp: inner.simps split: if_splits)
  have "set (nodes h X (?d j)) \<inter> set (nodes h X (?d k)) = {}" if "j < 256" "k < 256" "j \<noteq> k" for j k
    using child_disjoint [OF d that] new C(3) [OF that(1)] C(3) [OF that(2)] that(3) unfolding NJ [OF that(1)] NJ [OF that(2)] by auto
  moreover have "p \<notin> set (nodes h X (?d j))" if "j < 256" for j
    using C(2) [OF that] pn(2) unfolding NJ [OF that] by simp
  ultimately have D: "distinct (nodes (Suc h) X p)" using d(2) DJ by (auto simp: nodes.simps distinct_concat_upt)
  have P: "ptr (Suc h) X p n = ptr h X (?d (n div 256 ^ h mod 256)) n" "ptr (Suc h) V p n = ptr h V (?c (n div 256 ^ h mod 256)) n" for n
    using d(2) by simp_all
  have "content X (ptr (Suc h) X p n) = content V (ptr (Suc h) V p n)" for n
  proof (cases "n div 256 ^ h mod 256 = i")
    case True
    then show ?thesis unfolding P using G(4) by (simp add: cX)
  next
    case False
    let ?j = "n div 256 ^ h mod 256"
    have "X (ptr h V (?c ?j) n) = V (ptr h V (?c ?j) n)" if "ptr h V (?c ?j) n \<noteq> 0"
      using far old [OF ptr_in_nodes [OF that] digit_less False] by blast
    then show ?thesis unfolding P using False o(3) [OF digit_less False] by (simp add: cX content_def)
  qed
  moreover have "X a = V a" if "a \<notin> set (inner (Suc h) V p) \<union> set new" for a
    using that d(2) i by (intro far) (auto simp: inner.simps)
  ultimately show "grown_tree (Suc h) V p X p new" using D N I unfolding grown_tree_def by blast
  show "get16 (X p) i = c" by (simp add: cX)
  show "ptr (Suc h) X p n = ptr h W c n" if "n div 256 ^ h mod 256 = i" using that P(1) cc by (simp add: cX)
qed

lemma set16_get16:
  assumes "length b = 512" "i < 256"
  shows "set16 b i (get16 b i) = b"
  using assms by (simp add: set16_def get16_def lo8_le16 hi8_le16)

lemma grown_tree_below:
  assumes "distinct (nodes (Suc h) V p)" "p \<noteq> 0" "i < 256" "length (V p) = 512"
    "grown_tree h V (get16 (V p) i) W (get16 (V p) i) new" "set new \<inter> set (nodes (Suc h) V p) = {}"
  shows "grown_tree (Suc h) V p W p new" "n div 256 ^ h mod 256 = i \<Longrightarrow> ptr (Suc h) W p n = ptr h W (get16 (V p) i) n"
proof -
  have "p \<notin> set (inner h V (get16 (V p) i)) \<union> set new"
    using child_distinct(2) [OF assms(1-3)] inner_nodes [of h V "get16 (V p) i"] assms(6) nodes_ne [OF assms(2)] by blast
  then have "W p = V p" using assms(5) by (simp add: grown_tree_def)
  then have "W(p := set16 (V p) i (get16 (V p) i)) = W" using set16_get16 [OF assms(4,3)] by auto
  with grown_tree_child(1,3) [OF assms] show "grown_tree (Suc h) V p W p new"
    "n div 256 ^ h mod 256 = i \<Longrightarrow> ptr (Suc h) W p n = ptr h W (get16 (V p) i) n" by simp_all
qed

subsection \<open>The addresses of an inode\<close>

definition tall :: "nat \<Rightarrow> nat" where
  "tall j = (if j < 18 then 0 else if j = 18 then 1 else 2)"

definition slot :: "nat \<Rightarrow> nat" where
  "slot n = (if n < 18 then n else if n < 274 then 18 else 19)"

definition within :: "nat \<Rightarrow> nat" where
  "within n = (if n < 18 then 0 else if n < 274 then n - 18 else n - 274)"

definition file_nodes :: "(u16 \<Rightarrow> block) \<Rightarrow> u16 list \<Rightarrow> u16 list" where
  "file_nodes V A = concat (map (\<lambda>j. nodes (tall j) V (A ! j)) [0..<20])"

definition file_ptr :: "(u16 \<Rightarrow> block) \<Rightarrow> u16 list \<Rightarrow> nat \<Rightarrow> u16" where
  "file_ptr V A n = ptr (tall (slot n)) V (A ! slot n) (within n)"

lemma slot_less [simp]: "slot n < 20"
  by (simp add: slot_def)

lemma place_unique:
  assumes "slot n = slot m" "within n mod 256 ^ tall (slot n) = within m mod 256 ^ tall (slot n)" "n < 65536" "m < 65536"
  shows "n = m"
  using assms by (auto simp: slot_def within_def tall_def split: if_splits)

lemma file_nodes_distinct:
  "distinct (file_nodes V A) \<longleftrightarrow> (\<forall>j < 20. distinct (nodes (tall j) V (A ! j))) \<and>
     (\<forall>j < 20. \<forall>k < 20. j \<noteq> k \<longrightarrow> set (nodes (tall j) V (A ! j)) \<inter> set (nodes (tall k) V (A ! k)) = {})"
  by (simp add: file_nodes_def distinct_concat_upt)

lemma file_distinctD:
  assumes "distinct (file_nodes V A)"
  shows "j < 20 \<Longrightarrow> distinct (nodes (tall j) V (A ! j))"
    "j < 20 \<Longrightarrow> k < 20 \<Longrightarrow> j \<noteq> k \<Longrightarrow> set (nodes (tall j) V (A ! j)) \<inter> set (nodes (tall k) V (A ! k)) = {}"
  using assms unfolding file_nodes_distinct by blast+

lemma file_nodes_slot: "j < 20 \<Longrightarrow> set (nodes (tall j) V (A ! j)) \<subseteq> set (file_nodes V A)"
  by (auto simp: file_nodes_def)

lemma file_nodes_nonzero: "0 \<notin> set (file_nodes V A)"
  by (auto simp: file_nodes_def nodes_nonzero)

lemma file_ptr_node: "file_ptr V A n \<noteq> 0 \<Longrightarrow> file_ptr V A n \<in> set (file_nodes V A)"
  unfolding file_ptr_def using ptr_in_nodes file_nodes_slot [OF slot_less] by blast

lemma file_cong:
  assumes "\<And>a. a \<in> set (file_nodes V A) \<Longrightarrow> W a = V a"
  shows "file_nodes W A = file_nodes V A" "file_ptr W A n = file_ptr V A n"
proof -
  have W: "W a = V a" if "a \<in> set (inner (tall j) V (A ! j))" "j < 20" for a j
    using assms that file_nodes_slot [OF that(2), of V A] inner_nodes [of "tall j" V "A ! j"] by blast
  have C: "nodes (tall j) W (A ! j) = nodes (tall j) V (A ! j)" "ptr (tall j) W (A ! j) m = ptr (tall j) V (A ! j) m"
    if "j < 20" for j m
    using inner_cong [of "tall j" V "A ! j" W] W [OF _ that] by blast+
  show "file_nodes W A = file_nodes V A" unfolding file_nodes_def using C(1) by (intro arg_cong [where f = concat] map_cong) auto
  show "file_ptr W A n = file_ptr V A n" using C(2) by (simp add: file_ptr_def)
qed

text \<open>One tree grows.\<close>

lemma file_grows:
  assumes d: "distinct (file_nodes V A)" "length A = 20" "j < 20" and g: "grown_tree (tall j) V (A ! j) W q new"
    and new: "set new \<inter> set (file_nodes V A) = {}"
  defines "B \<equiv> A[j := q]"
  shows "distinct (file_nodes W B)" "set (file_nodes W B) = set (file_nodes V A) \<union> set new"
    "content W (file_ptr W B n) = content V (file_ptr V A n)"
    "a \<notin> set (file_nodes V A) \<union> set new \<Longrightarrow> W a = V a"
proof -
  let ?N = "\<lambda>V A k. nodes (tall k) V (A ! k)"
  note D = file_distinctD [OF d(1)]
  have B: "B ! k = (if k = j then q else A ! k)" for k using d(2,3) by (simp add: B_def)
  have far: "W a = V a" if "a \<in> set (?N V A k)" "k < 20" "k \<noteq> j" for a k
  proof -
    have "a \<notin> set (?N V A j)" using D(2) [OF that(2) d(3) that(3)] that(1) by blast
    moreover have "a \<notin> set new" using new file_nodes_slot [OF that(2), of V A] that(1) by blast
    ultimately show ?thesis using g inner_nodes [of "tall j" V "A ! j"] by (auto simp: grown_tree_def)
  qed
  have o: "?N W A k = ?N V A k" "ptr (tall k) W (A ! k) m = ptr (tall k) V (A ! k) m" if "k < 20" "k \<noteq> j" for k m
    using inner_cong [of "tall k" V "A ! k" W] far [OF _ that] inner_nodes [of "tall k" V "A ! k"] by blast+
  have N: "set (?N W B k) = set (?N V A k) \<union> (if k = j then set new else {})"
    and E: "distinct (?N W B k)" if "k < 20" for k
    using that o D(1) g by (cases "k = j"; simp add: B grown_tree_def)+
  have "set (?N W B k) \<inter> set (?N W B l) = {}" if "k < 20" "l < 20" "k \<noteq> l" for k l
    using D(2) [OF that] new file_nodes_slot [OF that(1), of V A] file_nodes_slot [OF that(2), of V A] that(3)
    unfolding N [OF that(1)] N [OF that(2)] by auto
  then show "distinct (file_nodes W B)" using E by (simp add: file_nodes_distinct)
  show "set (file_nodes W B) = set (file_nodes V A) \<union> set new"
    using N d(3) by (auto simp: file_nodes_def split: if_splits)
  show "content W (file_ptr W B n) = content V (file_ptr V A n)"
  proof (cases "slot n = j")
    case True
    then show ?thesis using g by (simp add: file_ptr_def B grown_tree_def)
  next
    case False
    let ?p = "ptr (tall (slot n)) V (A ! slot n) (within n)"
    have "W ?p = V ?p" if "?p \<noteq> 0" using far [OF ptr_in_nodes [OF that] slot_less False] .
    then show ?thesis using False o(2) [OF slot_less False] by (simp add: file_ptr_def B content_def)
  qed
  show "W a = V a" if "a \<notin> set (file_nodes V A) \<union> set new"
    using g that file_nodes_slot [OF d(3), of V A] inner_nodes [of "tall j" V "A ! j"] by (auto simp: grown_tree_def)
qed

text \<open>The data of a block replaced.\<close>

lemma file_writes:
  fixes b :: block
  assumes d: "distinct (file_nodes V A)" and q: "file_ptr V A m = q" "q \<noteq> 0" and m: "m < 65536"
  defines "W \<equiv> V(q := b)"
  shows "file_nodes W A = file_nodes V A" "file_ptr W A n = file_ptr V A n"
    "n < 65536 \<Longrightarrow> content W (file_ptr W A n) = (if n = m then b else content V (file_ptr V A n))"
proof -
  let ?N = "\<lambda>k. nodes (tall k) V (A ! k)"
  note D = file_distinctD [OF d]
  have p: "ptr (tall (slot m)) V (A ! slot m) (within m) = q" using q by (simp add: file_ptr_def)
  note L = write_leaf [OF D(1) [OF slot_less] p q(2), of b, folded W_def]
  have qm: "q \<in> set (?N (slot m))" using ptr_in_nodes [of "tall (slot m)" V "A ! slot m" "within m"] p q(2) by simp
  have far: "W a = V a" if "a \<in> set (?N k)" "k < 20" "k \<noteq> slot m" for a k
    using D(2) [OF that(2) slot_less that(3)] that(1) qm by (auto simp: W_def)
  have o: "nodes (tall k) W (A ! k) = ?N k" "ptr (tall k) W (A ! k) i = ptr (tall k) V (A ! k) i" if "k < 20" for k i
    using L inner_cong [of "tall k" V "A ! k" W] far [OF _ that] inner_nodes [of "tall k" V "A ! k"] by (cases "k = slot m"; blast)+
  show "file_nodes W A = file_nodes V A" unfolding file_nodes_def using o(1) by (intro arg_cong [where f = concat] map_cong) auto
  show F: "file_ptr W A n = file_ptr V A n" using o(2) by (simp add: file_ptr_def)
  show "content W (file_ptr W A n) = (if n = m then b else content V (file_ptr V A n))" if n: "n < 65536"
  proof (cases "slot n = slot m")
    case True
    have "within n mod 256 ^ tall (slot m) = within m mod 256 ^ tall (slot m) \<longleftrightarrow> n = m"
      using place_unique [of n m] True n m by auto
    then show ?thesis using L(4) [of "within n"] True by (simp add: file_ptr_def)
  next
    case False
    let ?p = "ptr (tall (slot n)) V (A ! slot n) (within n)"
    have "W ?p = V ?p" if "?p \<noteq> 0" using far [OF ptr_in_nodes [OF that] slot_less False] .
    then show ?thesis using False o(2) [OF slot_less] by (auto simp: file_ptr_def content_def)
  qed
qed

end
