(* ===== verification/FileAlloc.thy ===== *)
theory FileAlloc
  imports FileTree
begin

section \<open>The block map that allocates\<close>

text \<open>
  With \<^verbatim>\<open>rwflg\<close> 0 \<^verbatim>\<open>bmap\<close> allocates what is missing on the way to a block. On a file whose blocks are distinct data
  blocks that are not free it takes them from the free stack and hangs them into the trees of \<open>FileTree\<close>: no content changes.
\<close>

text \<open>Steps that change nothing but superblocks, buffers and blocks of the device \<open>dev\<close>, and leave the free blocks \<open>ys\<close>.\<close>

definition alloc_step :: "int \<Rightarrow> u16 list \<Rightarrow> kst \<Rightarrow> kst \<Rightarrow> bool" where
  "alloc_step dev ys s t \<longleftrightarrow> quiet t \<and> fs_ok t dev ys \<and> kept {} s t \<and> u_error t = u_error s \<and>
     data_blk (fsp dev t) = data_blk (fsp dev s) \<and> (\<forall>e a. disk_dev e \<longrightarrow> e \<noteq> dev \<longrightarrow> bview t e a = bview s e a)"

lemma alloc_step_refl: "quiet s \<Longrightarrow> fs_ok s dev xs \<Longrightarrow> alloc_step dev xs s s"
  by (simp add: alloc_step_def)

lemma alloc_step_trans: "alloc_step dev ys s t \<Longrightarrow> alloc_step dev zs t u \<Longrightarrow> alloc_step dev zs s u"
  by (auto simp: alloc_step_def intro: kept_trans)

lemma fs_ok_views:
  assumes "fs_ok s dev xs" "same_rest s t" "\<And>a. a \<in> set xs \<Longrightarrow> bview t dev a = bview s dev a"
  shows "fs_ok t dev xs"
  using assms free_stack_cong [OF _ assms(3)] unfolding fs_ok_def by (simp add: fsp_rest same_rest_kst)

text \<open>A block read and released.\<close>

lemma read_step:
  assumes "quiet s" "fs_ok s dev xs"
  shows "\<exists>i t u. breadp dev p False s = Some (i, t) \<and> buf_data i t = bview s dev p \<and> same_rest s t \<and>
    brelse i t = Some u \<and> alloc_step dev xs s u \<and> bview u dev = bview s dev"
proof -
  note d = fs_okD(1) [OF assms(2)]
  have c: "calm {} {} s" and av: "avail {} s dev p" using assms(1) by (simp_all add: quiet_calm avail_quiet)
  from read_block [OF c d av] obtain i t where
    t: "breadp dev p False s = Some (i, t)" "buf_data i t = bview s dev p" "same_rest s t"
    and close: "\<forall>u. same_pool t u \<longrightarrow> (\<exists>v. brelse i u = Some v \<and> calm {} {} v \<and> same_rest u v \<and> same_views s v \<and>
       (\<forall>j \<in> {}. bufp j v = bufp j s) \<and> (\<forall>e a. avail {} s e a \<longrightarrow> avail {} v e a))" by blast
  from close obtain u where u: "brelse i t = Some u" "calm {} {} u" "same_rest t u" "same_views s u" using same_pool_refl by blast
  have r: "same_rest s u" by (rule same_rest_trans [OF t(3) u(3)])
  moreover have "fs_ok u dev xs" using u(4) d by (intro fs_ok_views [OF assms(2) r]) (simp add: same_views_def)
  ultimately have "alloc_step dev xs s u"
    using u(2,4) keptI_rest [OF r] by (auto simp: alloc_step_def quiet_calm same_views_def fsp_rest same_rest_kst)
  moreover have "bview u dev = bview s dev" using u(4) d by (simp add: same_views_def fun_eq_iff)
  ultimately show ?thesis using t u(1) by blast
qed

text \<open>An empty place of a block filled with a new block of zeros.\<close>

lemma hang_step:
  assumes q: "quiet s" and fs: "fs_ok s dev (x # xs)" and p: "p \<noteq> x" "p \<notin> set xs"
  shows "\<exists>b t u v. breadp dev p False s = Some (b, t) \<and> buf_data b t = bview s dev p \<and> blk_alloc dev t = Some (x, u) \<and>
    buf_data b u = bview s dev p \<and> bawrite b (set_data b (set16 (buf_data b u) i x) u) = Some v \<and> alloc_step dev xs s v \<and>
    bview v dev = (bview s dev)(x := zero_blk, p := set16 (bview s dev p) i x)"
proof -
  note d = fs_okD(1) [OF fs]
  have c: "calm {} {} s" and av: "avail {} s dev p" using q by (simp_all add: quiet_calm avail_quiet)
  from open_read [OF c d av] obtain b t where
    t: "breadp dev p False s = Some (b, t)" "b < 38" "calm {} {b} t" "same_rest s t" "same_views s t" "named (bufp b t) dev p"
      "buf_data b t = bview s dev p" by auto
  have st: "fs_ok t dev (x # xs)" using t(5) d by (intro fs_ok_views [OF fs t(4)]) (simp add: same_views_def)
  have "bf_busy (bufp j t) \<longleftrightarrow> j = b" if "j < 38" for j using t(3) that by (auto simp: calm_def busyset_def)
  then have "avail {b} t dev x" using t(6) p(1) by (auto simp: avail_def not_held_def named_def)
  from blk_alloc_pop [OF t(3) st this] obtain u where
    u: "blk_alloc dev t = Some (x, u)" "calm {} {b} u" "fs_ok u dev xs" "kept {b} t u" "u_error u = u_error t"
      "\<forall>e a. disk_dev e \<longrightarrow> bview u e a = (if e = dev \<and> a = x then zero_blk else bview t e a)"
      "data_blk (fsp dev u) = data_blk (fsp dev t)" by blast
  have bu: "bufp b u = bufp b t" using kept_fields(15) [OF u(4)] by simp
  then have bd: "buf_data b u = bview s dev p" using t(7) by (simp add: buf_data_def)
  have len: "length (set16 (buf_data b u) i x) = 512"
    using bview_length [of "{}" s dev p] q by (simp add: bd quiet_def)
  have nm: "named (bufp b u) dev p" using t(6) bu by simp
  from close_write [OF u(2) _ nm d len] obtain v where
    v: "bawrite b (set_data b (set16 (buf_data b u) i x) u) = Some v" "calm {} {} v" "same_rest u v"
      "\<forall>e a. disk_dev e \<longrightarrow> bview v e a = (if e = dev \<and> a = p then set16 (buf_data b u) i x else bview u e a)" by auto
  have V: "bview v dev = (bview s dev)(x := zero_blk, p := set16 (bview s dev p) i x)"
    using v(4) u(6) t(5) d p(1) by (auto simp: bd same_views_def fun_eq_iff)
  have "fs_ok v dev xs" using v(4) d p(2) by (intro fs_ok_views [OF u(3) v(3)]) auto
  moreover have "kept {} s v"
    using kept_trans [OF keptI_rest [OF t(4)] kept_trans [OF kept_mono [OF u(4)] keptI_rest [OF v(3)]]] by simp
  moreover have "bview v e a = bview s e a" if "disk_dev e" "e \<noteq> dev" for e a using v(4) u(6) t(5) that by (simp add: same_views_def)
  moreover have "u_error v = u_error s" "data_blk (fsp dev v) = data_blk (fsp dev s)"
    using u(5,7) t(4) v(3) by (simp_all add: fsp_rest same_rest_kst)
  ultimately have "alloc_step dev xs s v" using v(2) by (simp add: alloc_step_def quiet_calm)
  with t(1,7) u(1) bd v(1) V show ?thesis by blast
qed

text \<open>The walk down a tree.\<close>

primrec digits :: "u16 \<Rightarrow> nat \<Rightarrow> nat list \<Rightarrow> bool" where
  "digits bn n [] = True"
| "digits bn n (sh # shs) \<longleftrightarrow> walk_index bn sh = n div 256 ^ length shs mod 256 \<and> digits bn n shs"

lemma bmap_walk_wr:
  "bmap_walk dev bn False (sh # shs) nb s = do {
     (b, s) \<leftarrow> breadp dev nb False s;
     let i = walk_index bn sh;
     let x = get16 (buf_data b s) i;
     if x \<noteq> 0 then do { s \<leftarrow> brelse b s; bmap_walk dev bn False shs x s }
     else do {
       (x, s) \<leftarrow> blk_alloc dev s;
       if x = 0 then do { s \<leftarrow> brelse b s; Some (NULLBLK, s) }
       else do { s \<leftarrow> bawrite b (set_data b (set16 (buf_data b s) i x) s); bmap_walk dev bn False shs x s } } }"
  by (simp add: walk_index_def Let_def cong: if_cong)

lemma walk_grows:
  assumes "quiet s" "fs_ok s dev xs" "nb \<noteq> 0" "digits bn n shs" "distinct (nodes (length shs) (bview s dev) nb)"
    "set (nodes (length shs) (bview s dev) nb) \<inter> set xs = {}" "length shs \<le> length xs"
  shows "\<exists>t new ys. bmap_walk dev bn False shs nb s = Some (ptr (length shs) (bview t dev) nb n, t) \<and>
    ptr (length shs) (bview t dev) nb n \<noteq> 0 \<and> xs = new @ ys \<and> length new \<le> length shs \<and>
    grown_tree (length shs) (bview s dev) nb (bview t dev) nb new \<and> alloc_step dev ys s t"
  using assms
proof (induction shs arbitrary: s nb xs)
  case Nil
  then show ?case using grown_tree_refl [of 0 "bview s dev" nb] alloc_step_refl
    by (intro exI [of _ s] exI [of _ "[]"] exI [of _ xs]) simp
next
  case (Cons sh shs)
  let ?h = "length shs" and ?V = "bview s dev" and ?i = "walk_index bn sh"
  let ?c = "get16 (?V nb) ?i"
  note q = Cons.prems(1) and fs = Cons.prems(2)
  have i: "?i < 256" "n div 256 ^ ?h mod 256 = ?i" and dg: "digits bn n shs" using Cons.prems(4) by simp_all
  have dn: "distinct (nodes (Suc ?h) ?V nb)" and dj: "set (nodes (Suc ?h) ?V nb) \<inter> set xs = {}" using Cons.prems(5,6) by (simp_all only: list.size add_Suc_right add_0_right)
  note C = child_distinct [OF dn Cons.prems(3) i(1)]
  have len: "length (?V nb) = 512" using bview_length [of "{}" s dev nb] q by (simp add: quiet_def)
  show ?case
  proof (cases "?c = 0")
    case False
    from read_step [OF q fs, of nb] obtain b t u where
      t: "breadp dev nb False s = Some (b, t)" "buf_data b t = ?V nb" "brelse b t = Some u" "alloc_step dev xs s u" "bview u dev = ?V"
      by blast
    have "quiet u" "fs_ok u dev xs" using t(4) by (simp_all add: alloc_step_def)
    moreover have "distinct (nodes ?h (bview u dev) ?c)" "set (nodes ?h (bview u dev) ?c) \<inter> set xs = {}" "?h \<le> length xs"
      using C(1,3) dj Cons.prems(7) unfolding t(5) by auto
    ultimately obtain v new ys where
      v: "bmap_walk dev bn False shs ?c u = Some (ptr ?h (bview v dev) ?c n, v)" "ptr ?h (bview v dev) ?c n \<noteq> 0"
        "xs = new @ ys" "length new \<le> ?h" "grown_tree ?h ?V ?c (bview v dev) ?c new" "alloc_step dev ys u v"
      using Cons.IH [OF _ _ False dg, of u xs] unfolding t(5) by blast
    have "set new \<inter> set (nodes (Suc ?h) ?V nb) = {}" using dj unfolding v(3) set_append by blast
    note G = grown_tree_below [OF dn Cons.prems(3) i(1) len v(5) this]
    have "bmap_walk dev bn False (sh # shs) nb s = Some (ptr (Suc ?h) (bview v dev) nb n, v)"
      using t(1-3) False v(1) G(2) [OF i(2)] by (simp add: bmap_walk_wr Let_def del: bmap_walk.simps)
    then show ?thesis using v(2-4) G i(2) alloc_step_trans [OF t(4) v(6)]
      by (intro exI [of _ v] exI [of _ new] exI [of _ ys]) simp
  next
    case True
    obtain x zs where xs: "xs = x # zs" using Cons.prems(7) by (cases xs) auto
    have x: "nb \<noteq> x" "nb \<notin> set zs" "x \<noteq> 0" "x \<notin> set zs"
      using nodes_ne [OF Cons.prems(3), of "Suc ?h" ?V] dj fs_okD(3) [OF fs] xs by (auto simp: super_ok_def)
    from hang_step [OF q fs [unfolded xs] x(1,2), of ?i] obtain b t u v where
      t: "breadp dev nb False s = Some (b, t)" "buf_data b t = ?V nb" "blk_alloc dev t = Some (x, u)"
        "buf_data b u = ?V nb" "bawrite b (set_data b (set16 (buf_data b u) ?i x) u) = Some v" "alloc_step dev zs s v"
        "bview v dev = ?V(x := zero_blk, nb := set16 (?V nb) ?i x)" by blast
    let ?W = "bview v dev"
    have new: "set [x] \<inter> set (nodes (Suc ?h) ?V nb) = {}" using dj xs by auto
    note F = fresh_tree [OF x(3), of ?h ?V]
    note G = grown_tree_child [OF dn Cons.prems(3) i(1) len _ new, of "?V(x := zero_blk)" x, folded t(7)]
    have G1: "grown_tree (Suc ?h) ?V nb ?W nb [x]" "get16 (?W nb) ?i = x" using G(1,2) F True by simp_all
    have "nb \<notin> set (inner ?h (?V(x := zero_blk)) x)" using F x(1) by (auto simp: grown_tree_def)
    then have "?W a = (?V(x := zero_blk)) a" if "a \<in> set (inner ?h (?V(x := zero_blk)) x)" for a using that by (auto simp: t(7))
    from inner_cong(1) [of ?h "?V(x := zero_blk)" x ?W, OF this] F have nx: "distinct (nodes ?h ?W x)" "set (nodes ?h ?W x) = {x}"
      by (simp_all only: grown_tree_def nodes_0) simp_all
    have "quiet v" "fs_ok v dev zs" using t(6) by (simp_all add: alloc_step_def)
    moreover have "set (nodes ?h ?W x) \<inter> set zs = {}" "?h \<le> length zs" using nx(2) x(4) Cons.prems(7) xs by auto
    ultimately obtain w new ys where
      w: "bmap_walk dev bn False shs x v = Some (ptr ?h (bview w dev) x n, w)" "ptr ?h (bview w dev) x n \<noteq> 0"
        "zs = new @ ys" "length new \<le> ?h" "grown_tree ?h ?W x (bview w dev) x new" "alloc_step dev ys v w"
      using Cons.IH [OF _ _ x(3) dg nx(1), of zs] by blast
    have dn2: "distinct (nodes (Suc ?h) ?W nb)" and dj2: "set new \<inter> set (nodes (Suc ?h) ?W nb) = {}"
      using G1(1) dj w(3) xs x(4) by (auto simp: grown_tree_def)
    have len2: "length (?W nb) = 512" using bview_length [of "{}" v dev nb] \<open>quiet v\<close> by (simp add: quiet_def)
    have "grown_tree ?h ?W (get16 (?W nb) ?i) (bview w dev) (get16 (?W nb) ?i) new" using w(5) G1(2) by simp
    note H = grown_tree_below [OF dn2 Cons.prems(3) i(1) len2 this dj2]
    have "bmap_walk dev bn False (sh # shs) nb s = Some (ptr (Suc ?h) (bview w dev) nb n, w)"
      using t(1-5) True x(3) w(1) H(2) [OF i(2)] G1(2) by (simp add: bmap_walk_wr Let_def del: bmap_walk.simps)
    then show ?thesis using w(2-4) H G1 i(2) xs grown_tree_trans [OF G1(1) H(1)] alloc_step_trans [OF t(6) w(6)]
      by (intro exI [of _ w] exI [of _ "x # new"] exI [of _ ys]) simp
  qed
qed

subsection \<open>Files in memory\<close>

abbreviation file_addr :: "nat \<Rightarrow> kst \<Rightarrow> u16 list" where
  "file_addr k s \<equiv> i_addr (c_node (inop k s))"

abbreviation file_disk :: "nat \<Rightarrow> kst \<Rightarrow> u16 \<Rightarrow> block" where
  "file_disk k s \<equiv> bview s (c_dev (inop k s))"

text \<open>The file of the inode \<open>k\<close> is in order, with the free blocks \<open>xs\<close> of its device.\<close>

definition file_ok :: "nat \<Rightarrow> u16 list \<Rightarrow> kst \<Rightarrow> bool" where
  "file_ok k xs s \<longleftrightarrow> quiet s \<and> fs_ok s (c_dev (inop k s)) xs \<and> k < length (i_tab s) \<and> length (file_addr k s) = 20 \<and>
     distinct (file_nodes (file_disk k s) (file_addr k s)) \<and> set (file_nodes (file_disk k s) (file_addr k s)) \<inter> set xs = {} \<and>
     (\<forall>a \<in> set (file_nodes (file_disk k s) (file_addr k s)). data_blk (fsp (c_dev (inop k s)) s) a)"

definition block_of :: "nat \<Rightarrow> kst \<Rightarrow> nat \<Rightarrow> block" where
  "block_of k s n = content (file_disk k s) (file_ptr (file_disk k s) (file_addr k s) n)"

text \<open>Besides superblocks and buffers only the addresses of the inode and its dirty flag have changed.\<close>

definition file_step :: "nat \<Rightarrow> kst \<Rightarrow> kst \<Rightarrow> bool" where
  "file_step k s t \<longleftrightarrow> (\<exists>g A d. bst.more t = bst.more (s\<lparr>fs_tab := g,
     i_tab := (i_tab s)[k := (inop k s)\<lparr>c_node := (c_node (inop k s))\<lparr>i_addr := A\<rparr>, c_dirty := d\<rparr>]\<rparr>))"

lemma more_fields:
  fixes s t :: kst
  assumes "bst.more t = bst.more s"
  shows "i_tab t = i_tab s" "fs_tab t = fs_tab s" "of_tab t = of_tab s" "u_files t = u_files s" "u_argn2 t = u_argn2 s"
    "u_sysio t = u_sysio s" "u_base t = u_base s" "u_count t = u_count s" "u_offset t = u_offset s" "tod t = tod s"
    "umem t = umem s" "upages t = upages s" "sysbuf t = sysbuf s" "areg t = areg s" "u_ptab t = u_ptab s" "ptab t = ptab s"
proof -
  have "same_rest (s\<lparr>u_error := u_error t\<rparr>) t" using assms by (simp add: same_rest_def)
  note R = same_rest_kst [OF this, simplified]
  show "i_tab t = i_tab s" "fs_tab t = fs_tab s" "of_tab t = of_tab s" "u_files t = u_files s" "u_argn2 t = u_argn2 s"
    "u_sysio t = u_sysio s" "u_base t = u_base s" "u_count t = u_count s" "u_offset t = u_offset s" "tod t = tod s"
    "umem t = umem s" "upages t = upages s" "sysbuf t = sysbuf s" "areg t = areg s" "u_ptab t = u_ptab s" "ptab t = ptab s"
    by (rule R)+
qed

lemma file_step_obtain:
  assumes "file_step k s t"
  obtains A d where "i_tab t = (i_tab s)[k := (inop k s)\<lparr>c_node := (c_node (inop k s))\<lparr>i_addr := A\<rparr>, c_dirty := d\<rparr>]"
    "of_tab t = of_tab s" "u_files t = u_files s" "u_argn2 t = u_argn2 s"
    "u_sysio t = u_sysio s" "u_base t = u_base s" "u_count t = u_count s" "u_offset t = u_offset s" "tod t = tod s"
    "umem t = umem s" "upages t = upages s" "sysbuf t = sysbuf s" "areg t = areg s" "u_ptab t = u_ptab s" "ptab t = ptab s"
proof -
  from assms obtain g A d where "bst.more t = bst.more (s\<lparr>fs_tab := g,
     i_tab := (i_tab s)[k := (inop k s)\<lparr>c_node := (c_node (inop k s))\<lparr>i_addr := A\<rparr>, c_dirty := d\<rparr>]\<rparr>)"
    by (auto simp: file_step_def)
  note M = more_fields [OF this, simplified]
  show thesis by (rule that) (rule M)+
qed

lemma file_step_fields:
  assumes "file_step k s t"
  shows "of_tab t = of_tab s" "u_files t = u_files s" "u_argn2 t = u_argn2 s"
    "u_sysio t = u_sysio s" "u_base t = u_base s" "u_count t = u_count s" "u_offset t = u_offset s"
    "umem t = umem s" "upages t = upages s" "sysbuf t = sysbuf s" "areg t = areg s"
    "c_dev (inop k t) = c_dev (inop k s)" "i_size (c_node (inop k t)) = i_size (c_node (inop k s))" "getmode k t = getmode k s"
    "length (i_tab t) = length (i_tab s)"
proof -
  from assms obtain A d where I: "i_tab t = (i_tab s)[k := (inop k s)\<lparr>c_node := (c_node (inop k s))\<lparr>i_addr := A\<rparr>, c_dirty := d\<rparr>]"
    "of_tab t = of_tab s" "u_files t = u_files s" "u_argn2 t = u_argn2 s"
    "u_sysio t = u_sysio s" "u_base t = u_base s" "u_count t = u_count s" "u_offset t = u_offset s"
    "umem t = umem s" "upages t = upages s" "sysbuf t = sysbuf s" "areg t = areg s" by (rule file_step_obtain)
  then show "of_tab t = of_tab s" "u_files t = u_files s" "u_argn2 t = u_argn2 s"
    "u_sysio t = u_sysio s" "u_base t = u_base s" "u_count t = u_count s" "u_offset t = u_offset s"
    "umem t = umem s" "upages t = upages s" "sysbuf t = sysbuf s" "areg t = areg s" "length (i_tab t) = length (i_tab s)" by simp_all
  have "inop k t = (inop k s)\<lparr>c_node := (c_node (inop k s))\<lparr>i_addr := A\<rparr>, c_dirty := d\<rparr> \<or> inop k t = inop k s"
    by (cases "k < length (i_tab s)") (simp_all add: inop_def I(1) list_update_beyond)
  then show "c_dev (inop k t) = c_dev (inop k s)" "i_size (c_node (inop k t)) = i_size (c_node (inop k s))" "getmode k t = getmode k s"
    by (auto simp: getmode_def)
qed

lemma file_step_kept: "kept H s t \<Longrightarrow> file_step k s t"
proof -
  assume "kept H s t"
  then obtain g where "bst.more t = bst.more (s\<lparr>fs_tab := g\<rparr>)" by (auto simp: kept_def)
  moreover have "(i_tab s)[k := (inop k s)\<lparr>c_node := (c_node (inop k s))\<lparr>i_addr := i_addr (c_node (inop k s))\<rparr>, c_dirty := c_dirty (inop k s)\<rparr>] = i_tab s"
    by (simp add: inop_def)
  ultimately show "file_step k s t"
    unfolding file_step_def by (intro exI [of _ g] exI [of _ "i_addr (c_node (inop k s))"] exI [of _ "c_dirty (inop k s)"]) simp
qed

lemma file_step_refl: "file_step k s s"
  by (rule file_step_kept [OF kept_refl])

lemma more_fs_i: "bst.more t = bst.more s \<Longrightarrow> bst.more (t\<lparr>fs_tab := g, i_tab := h\<rparr>) = bst.more (s\<lparr>fs_tab := g, i_tab := h\<rparr>)"
  for s t :: kst
  by (cases s; cases t) simp

lemma file_step_trans:
  assumes "file_step k s t" "file_step k t u"
  shows "file_step k s u"
proof -
  from assms(1) obtain g A d where m: "bst.more t = bst.more (s\<lparr>fs_tab := g,
      i_tab := (i_tab s)[k := (inop k s)\<lparr>c_node := (c_node (inop k s))\<lparr>i_addr := A\<rparr>, c_dirty := d\<rparr>]\<rparr>)" by (auto simp: file_step_def)
  from assms(2) obtain h B e where n: "bst.more u = bst.more (t\<lparr>fs_tab := h,
      i_tab := (i_tab t)[k := (inop k t)\<lparr>c_node := (c_node (inop k t))\<lparr>i_addr := B\<rparr>, c_dirty := e\<rparr>]\<rparr>)" by (auto simp: file_step_def)
  have i: "i_tab t = (i_tab s)[k := (inop k s)\<lparr>c_node := (c_node (inop k s))\<lparr>i_addr := A\<rparr>, c_dirty := d\<rparr>]"
    using more_fields(1) [OF m] by simp
  have "(i_tab t)[k := (inop k t)\<lparr>c_node := (c_node (inop k t))\<lparr>i_addr := B\<rparr>, c_dirty := e\<rparr>] =
      (i_tab s)[k := (inop k s)\<lparr>c_node := (c_node (inop k s))\<lparr>i_addr := B\<rparr>, c_dirty := e\<rparr>]"
    by (cases "k < length (i_tab s)") (simp_all add: i inop_def list_update_beyond)
  then have "bst.more u = bst.more (s\<lparr>fs_tab := h,
      i_tab := (i_tab s)[k := (inop k s)\<lparr>c_node := (c_node (inop k s))\<lparr>i_addr := B\<rparr>, c_dirty := e\<rparr>]\<rparr>)"
    unfolding n using more_fs_i [OF m] by simp
  then show ?thesis by (auto simp: file_step_def)
qed

lemma file_step_iaddr: "file_step k s (set_iaddr k j x s)"
proof -
  have "bst.more (set_iaddr k j x s) = bst.more (s\<lparr>fs_tab := fs_tab s,
      i_tab := (i_tab s)[k := (inop k s)\<lparr>c_node := (c_node (inop k s))\<lparr>i_addr := (file_addr k s)[j := x]\<rparr>, c_dirty := 1\<rparr>]\<rparr>)"
    by (cases "k < length (i_tab s)") (simp_all add: set_iaddr_def upd_ino_def upd_node_def inop_def list_update_beyond)
  then show ?thesis unfolding file_step_def by blast
qed

subsection \<open>The allocation for one block of a file\<close>

lemma alloc_step_pop:
  assumes "quiet s" "fs_ok s dev (x # xs)"
  shows "\<exists>t. blk_alloc dev s = Some (x, t) \<and> alloc_step dev xs s t \<and> bview t dev = (bview s dev)(x := zero_blk)"
proof -
  have c: "calm {} {} s" and av: "avail {} s dev x" using assms(1) by (simp_all add: quiet_calm avail_quiet)
  from blk_alloc_pop [OF c assms(2) av] obtain t where
    "blk_alloc dev s = Some (x, t)" "calm {} {} t" "fs_ok t dev xs" "kept {} s t" "u_error t = u_error s"
    "\<forall>e a. disk_dev e \<longrightarrow> bview t e a = (if e = dev \<and> a = x then zero_blk else bview s e a)"
    "data_blk (fsp dev t) = data_blk (fsp dev s)" by blast
  then show ?thesis using fs_okD(1) [OF assms(2)] by (auto simp: alloc_step_def quiet_calm fun_eq_iff)
qed

lemma bmap_unfold:
  assumes "getmode k s \<noteq> F_BDEV"
  shows "\<exists>b shs. length shs = tall (slot (unat bn)) \<and> digits b (within (unat bn)) shs \<and>
    bmap k bn False s =
      (let dev = c_dev (inop k s); nb = file_addr k s ! slot (unat bn)
       in if nb \<noteq> 0 then bmap_walk dev b False shs nb s
          else do {
            (nb, s) \<leftarrow> blk_alloc dev s;
            if nb = 0 then Some (NULLBLK, s) else bmap_walk dev b False shs nb (set_iaddr k (slot (unat bn)) nb s) })"
proof (cases "bn < 18")
  case True
  then have "unat bn < 18" by (simp add: word_less_nat_alt)
  then have j: "slot (unat bn) = unat bn" "tall (unat bn) = 0" by (simp_all add: tall_def slot_def)
  have "length [] = tall (slot (unat bn)) \<and> digits bn (within (unat bn)) []" unfolding j by simp
  moreover have "bmap k bn False s =
      (let dev = c_dev (inop k s); nb = file_addr k s ! slot (unat bn)
       in if nb \<noteq> 0 then bmap_walk dev bn False [] nb s
          else do {
            (nb, s) \<leftarrow> blk_alloc dev s;
            if nb = 0 then Some (NULLBLK, s) else bmap_walk dev bn False [] nb (set_iaddr k (slot (unat bn)) nb s) })"
    unfolding bmap_walk.simps(1) j bmap_def Let_def using True assms by simp
  ultimately show ?thesis by blast
next
  case False
  then have ge: "18 \<le> unat bn" by (simp add: word_less_nat_alt)
  have b1: "unat (bn - 18) = unat bn - 18" using unat_minus_16 [of 18 bn] False by simp
  define dbl where "dbl \<longleftrightarrow> (bn - 18) AND 0xFF00 \<noteq> 0"
  have d: "dbl = (274 \<le> unat bn)" using b1 ge by (auto simp: dbl_def and_hi_zero)
  let ?shs = "if dbl then [8, 0] else [0] :: nat list" and ?b = "if dbl then bn - 18 - 256 else bn - 18"
  have "length ?shs = tall (slot (unat bn))" using d ge by (simp add: tall_def slot_def)
  moreover have "digits ?b (within (unat bn)) ?shs"
  proof (cases dbl)
    case True
    then have "unat (bn - 18 - 256) = unat bn - 274"
      using unat_minus_16 [of 256 "bn - 18"] b1 d by (simp add: word_le_nat_alt)
    then show ?thesis using True d by (simp add: walk_index_0 walk_index_8 within_def)
  next
    case False
    then show ?thesis using d ge b1 by (simp add: walk_index_0 within_def)
  qed
  moreover have j: "slot (unat bn) = (if dbl then 19 else 18)" using d ge by (simp add: slot_def)
  have "bmap k bn False s =
      (let dev = c_dev (inop k s); nb = file_addr k s ! slot (unat bn)
       in if nb \<noteq> 0 then bmap_walk dev ?b False ?shs nb s
          else do {
            (nb, s) \<leftarrow> blk_alloc dev s;
            if nb = 0 then Some (NULLBLK, s) else bmap_walk dev ?b False ?shs nb (set_iaddr k (slot (unat bn)) nb s) })"
    unfolding j bmap_def Let_def dbl_def using False assms by (simp del: bmap_walk.simps)
  ultimately show ?thesis by blast
qed

text \<open>The file has got the blocks \<open>new\<close>, and only blocks of the file have changed.\<close>

definition grown_file :: "nat \<Rightarrow> kst \<Rightarrow> kst \<Rightarrow> u16 list \<Rightarrow> bool" where
  "grown_file k s t new \<longleftrightarrow>
     set (file_nodes (file_disk k t) (file_addr k t)) = set (file_nodes (file_disk k s) (file_addr k s)) \<union> set new \<and>
     (\<forall>a. a \<notin> set (file_nodes (file_disk k s) (file_addr k s)) \<union> set new \<longrightarrow> file_disk k t a = file_disk k s a)"

lemma grown_file_refl: "grown_file k s s []"
  by (simp add: grown_file_def)

lemma grown_file_trans: "grown_file k s t xs \<Longrightarrow> grown_file k t u ys \<Longrightarrow> grown_file k s u (xs @ ys)"
  by (auto simp: grown_file_def)

lemma bmap_grows:
  assumes ok: "file_ok k xs s" and len: "3 \<le> length xs" and m: "getmode k s \<noteq> F_BDEV"
  shows "\<exists>t new ys. bmap k bn False s = Some (file_ptr (file_disk k t) (file_addr k t) (unat bn), t) \<and>
    file_ptr (file_disk k t) (file_addr k t) (unat bn) \<noteq> 0 \<and> xs = new @ ys \<and> length new \<le> 3 \<and> file_ok k ys t \<and>
    (\<forall>n. block_of k t n = block_of k s n) \<and> file_step k s t \<and> u_error t = u_error s \<and> grown_file k s t new"
proof -
  let ?dev = "c_dev (inop k s)" and ?j = "slot (unat bn)" and ?V = "file_disk k s" and ?A = "file_addr k s"
  note O = ok [unfolded file_ok_def]
  have q: "quiet s" and fs: "fs_ok s ?dev xs" and kl: "k < length (i_tab s)" and A: "length ?A = 20"
    and dn: "distinct (file_nodes ?V ?A)" and dj: "set (file_nodes ?V ?A) \<inter> set xs = {}"
    and db: "\<forall>a \<in> set (file_nodes ?V ?A). data_blk (fsp ?dev s) a" using O by simp_all
  note S = file_nodes_slot [OF slot_less, of "unat bn" ?V ?A]
  from bmap_unfold [OF m, of bn] obtain b shs where
    b: "length shs = tall ?j" "digits b (within (unat bn)) shs"
      "bmap k bn False s = (let dev = ?dev; nb = ?A ! ?j
       in if nb \<noteq> 0 then bmap_walk dev b False shs nb s
          else do {
            (nb, s) \<leftarrow> blk_alloc dev s;
            if nb = 0 then Some (NULLBLK, s) else bmap_walk dev b False shs nb (set_iaddr k ?j nb s) })" by blast
  have t2: "tall ?j \<le> 2" by (simp add: tall_def)
  have fin: ?thesis
    if run: "bmap k bn False s = Some (ptr (tall ?j) (bview t ?dev) p (within (unat bn)), t)"
      and nz: "ptr (tall ?j) (bview t ?dev) p (within (unat bn)) \<noteq> 0"
      and ys: "xs = new @ ys" "length new \<le> 3" and g: "grown_tree (tall ?j) ?V (?A ! ?j) (bview t ?dev) p new"
      and addr: "file_addr k t = ?A[?j := p]" and st: "file_step k s t" "quiet t" "fs_ok t ?dev ys" "u_error t = u_error s"
        "data_blk (fsp ?dev t) = data_blk (fsp ?dev s)" for t p new ys
  proof -
    have dev: "c_dev (inop k t) = ?dev" using file_step_fields(12) [OF st(1)] .
    have n0: "set new \<inter> set (file_nodes ?V ?A) = {}" using dj ys(1) by auto
    note G = file_grows [OF dn A slot_less g n0, folded addr]
    have "distinct xs" and dx: "\<forall>x \<in> set xs. data_blk (fsp ?dev s) x" using fs_okD(3) [OF fs] by (auto simp: super_ok_def)
    then have "set (file_nodes (bview t ?dev) (file_addr k t)) \<inter> set ys = {}"
      using G(2) dj ys(1) by auto
    moreover have "data_blk (fsp ?dev t) a" if "a \<in> set (file_nodes (bview t ?dev) (file_addr k t))" for a
      using that G(2) db dx ys(1) st(5) by auto
    ultimately have "file_ok k ys t"
      using st(2,3) G(1) kl A addr file_step_fields(15) [OF st(1)] by (simp add: file_ok_def dev)
    moreover have "file_ptr (file_disk k t) (file_addr k t) (unat bn) = ptr (tall ?j) (bview t ?dev) p (within (unat bn))"
      using A by (simp add: file_ptr_def dev addr)
    moreover have "block_of k t n = block_of k s n" for n using G(3) by (simp add: block_of_def dev)
    moreover have "grown_file k s t new" using G(2,4) by (simp add: grown_file_def dev)
    ultimately show ?thesis using run nz ys st(1,4) by auto
  qed
  show ?thesis
  proof (cases "?A ! ?j = 0")
    case False
    have D: "distinct (nodes (length shs) ?V (?A ! ?j))" "set (nodes (length shs) ?V (?A ! ?j)) \<inter> set xs = {}" "length shs \<le> length xs"
      using file_distinctD(1) [OF dn slot_less] S dj len t2 by (auto simp: b(1))
    from walk_grows [OF q fs False b(2) D] obtain t new ys where
      t: "bmap_walk ?dev b False shs (?A ! ?j) s = Some (ptr (tall ?j) (bview t ?dev) (?A ! ?j) (within (unat bn)), t)"
        "ptr (tall ?j) (bview t ?dev) (?A ! ?j) (within (unat bn)) \<noteq> 0" "xs = new @ ys" "length new \<le> tall ?j"
        "grown_tree (tall ?j) ?V (?A ! ?j) (bview t ?dev) (?A ! ?j) new" "alloc_step ?dev ys s t" unfolding b(1) by blast
    have k: "kept {} s t" using t(6) by (simp add: alloc_step_def)
    show ?thesis
    proof (rule fin [OF _ t(2,3) _ t(5)])
      show "bmap k bn False s = Some (ptr (tall ?j) (bview t ?dev) (?A ! ?j) (within (unat bn)), t)"
        using b(3) t(1) False by (simp add: Let_def)
      show "file_addr k t = ?A[?j := ?A ! ?j]" using kept_fields(1) [OF k] by (simp add: inop_def)
      show "file_step k s t" by (rule file_step_kept [OF k])
    qed (use t t2 in \<open>simp_all add: alloc_step_def\<close>)
  next
    case True
    obtain x zs where xs: "xs = x # zs" using len by (cases xs) auto
    have x: "x \<noteq> 0" "x \<notin> set zs" using fs_okD(3) [OF fs] xs by (auto simp: super_ok_def)
    from alloc_step_pop [OF q fs [unfolded xs]] obtain u where
      u: "blk_alloc ?dev s = Some (x, u)" "alloc_step ?dev zs s u" "bview u ?dev = ?V(x := zero_blk)" by blast
    let ?v = "set_iaddr k ?j x u"
    have ku: "kept {} s u" using u(2) by (simp add: alloc_step_def)
    then have iu: "i_tab u = i_tab s" by (rule kept_fields)
    have sp: "same_pool u ?v" by (simp add: set_iaddr_def)
    note V = same_pool_views [OF sp]
    have fsv: "fsp e ?v = fsp e u" "fs_tab ?v = fs_tab u" "u_error ?v = u_error u" for e by (simp_all add: set_iaddr_def upd_node_def)
    have qv: "quiet ?v" "fs_ok ?v ?dev zs" using u(2) V(1,3) fsv by (simp_all add: alloc_step_def fs_ok_def)
    have F: "grown_tree (tall ?j) ?V 0 (bview ?v ?dev) x [x]" using fresh_tree [OF x(1), of "tall ?j" ?V] u(3) V(1) by simp
    then have D: "distinct (nodes (length shs) (bview ?v ?dev) x)" "set (nodes (length shs) (bview ?v ?dev) x) \<inter> set zs = {}"
      "length shs \<le> length zs" using x(2) len t2 xs by (auto simp: grown_tree_def b(1))
    from walk_grows [OF qv x(1) b(2) D] obtain t new ys where
      t: "bmap_walk ?dev b False shs x ?v = Some (ptr (tall ?j) (bview t ?dev) x (within (unat bn)), t)"
        "ptr (tall ?j) (bview t ?dev) x (within (unat bn)) \<noteq> 0" "zs = new @ ys" "length new \<le> tall ?j"
        "grown_tree (tall ?j) (bview ?v ?dev) x (bview t ?dev) x new" "alloc_step ?dev ys ?v t" unfolding b(1) by blast
    have kt: "kept {} ?v t" using t(6) by (simp add: alloc_step_def)
    have st: "file_step k s t"
      by (rule file_step_trans [OF file_step_trans [OF file_step_kept [OF ku] file_step_iaddr] file_step_kept [OF kt]])
    show ?thesis
    proof (rule fin [OF _ t(2) _ _ _ _ st])
      show "bmap k bn False s = Some (ptr (tall ?j) (bview t ?dev) x (within (unat bn)), t)"
        using b(3) u(1) t(1) True x(1) by (simp add: Let_def)
      show "xs = (x # new) @ ys" "length (x # new) \<le> 3" using t(3,4) xs t2 by simp_all
      show "grown_tree (tall ?j) ?V (?A ! ?j) (bview t ?dev) x (x # new)" using grown_tree_trans [OF F t(5)] True by simp
      show "file_addr k t = ?A[?j := x]"
        using kept_fields(1) [OF kt] kl iu by (simp add: inop_def set_iaddr_def upd_ino_def upd_node_def)
    qed (use t(6) u(2) fsv in \<open>simp_all add: alloc_step_def\<close>)
  qed
qed

end
