(* ===== verification/Offsets.thy ===== *)
theory Offsets
  imports Files FreeList
begin

section \<open>File offsets as byte positions\<close>

text \<open>
  An offset, a block number and an offset in the block, stands for a byte position of a file.
  \<^verbatim>\<open>addoff\<close> adds a signed amount to it, the final loop of \<^verbatim>\<open>seek\<close> brings it into the normal form in
  which the offset is below 512, and \<^verbatim>\<open>readi\<close> limits a transfer to what is left of the file.
\<close>

definition pos :: "off_t \<Rightarrow> int" where
  "pos p = 512 * uint (o_blkno p) + uint (o_offset p)"

definition normal :: "off_t \<Rightarrow> bool" where
  "normal p \<longleftrightarrow> uint (o_offset p) < 512"

lemma sdivmod_nonneg:
  assumes "0 \<le> (a :: int)"
  shows "a sdiv 512 = a div 512" "a smod 512 = a mod 512"
  using assms by (auto simp: signed_divide_int_def signed_modulo_int_def sgn_if)

subsection \<open>addoff\<close>

lemma add_forward:
  assumes n: "normal p" and a: "0 \<le> a" "a < 32768" and fit: "pos p + a < 512 * 65536"
  defines "q \<equiv> p\<lparr>o_offset := o_offset p + word_of_int (a mod 512)\<rparr>"
  defines "r \<equiv> if sint (o_offset q) \<ge> 512 then q\<lparr>o_offset := o_offset q - 512, o_blkno := o_blkno q + 1\<rparr> else q"
  defines "t \<equiv> r\<lparr>o_blkno := o_blkno r + word_of_int (a div 512)\<rparr>"
  shows "pos t = pos p + a \<and> normal t"
proof -
  let ?o = "uint (o_offset p)" and ?b = "uint (o_blkno p)"
  define m d where "m = a mod 512" and "d = a div 512"
  have md: "a = 512 * d + m" "0 \<le> m" "m < 512" "0 \<le> d" using a by (auto simp: m_def d_def)
  have o: "0 \<le> ?o" "?o < 512" using n uint16_range(1) [of "o_offset p"] unfolding normal_def by linarith+
  have b: "512 * ?b + ?o + a < 33554432" using fit by (simp add: pos_def)
  have qo: "uint (o_offset q) = ?o + m"
  proof -
    have "uint (o_offset p + word_of_int m) = ?o + m" by (rule uint_add_int) (use md o in linarith)+
    then show ?thesis by (simp add: q_def m_def)
  qed
  have qs: "sint (o_offset q) = ?o + m"
    using qo md o by (simp add: sint_cases16)
  show ?thesis
  proof (cases "?o + m \<ge> 512")
    case True
    have r: "r = q\<lparr>o_offset := o_offset q - 512, o_blkno := o_blkno q + 1\<rparr>" using True by (simp add: r_def qs)
    have "uint (o_offset q - word_of_int 512) = uint (o_offset q) - 512"
      by (rule uint_sub_int) (use True qo in auto)
    then have ro: "uint (o_offset r) = ?o + m - 512" using qo by (simp add: r)
    have "uint (o_blkno p + word_of_int (1 + d)) = ?b + (1 + d)"
      by (rule uint_add_int) (use md o b True in linarith)+
    moreover have "o_blkno p + word_of_int (1 + d) = o_blkno p + 1 + word_of_int d" by simp
    ultimately have "uint (o_blkno t) = ?b + 1 + d" by (simp add: t_def r q_def d_def add.assoc)
    moreover have "uint (o_offset t) = ?o + m - 512" using ro by (simp add: t_def)
    ultimately show ?thesis using md o by (simp add: pos_def normal_def)
  next
    case False
    have r: "r = q" using False by (simp add: r_def qs)
    have "uint (o_blkno p + word_of_int d) = ?b + d"
      by (rule uint_add_int) (use md o b in linarith)+
    then have "uint (o_blkno t) = ?b + d" by (simp add: t_def r q_def d_def)
    moreover have "uint (o_offset t) = ?o + m" using qo by (simp add: t_def r)
    ultimately show ?thesis using md o False by (simp add: pos_def normal_def)
  qed
qed


lemma add_backward:
  assumes n: "normal p" and a: "0 < a" "a < 32768" and fit: "a \<le> pos p"
  defines "q \<equiv> p\<lparr>o_offset := o_offset p - word_of_int (a mod 512)\<rparr>"
  defines "r \<equiv> if sint (o_offset q) < 0 then q\<lparr>o_offset := o_offset q + 512, o_blkno := o_blkno q - 1\<rparr> else q"
  defines "t \<equiv> r\<lparr>o_blkno := o_blkno r - word_of_int (a div 512)\<rparr>"
  shows "pos t = pos p - a \<and> normal t"
proof -
  let ?o = "uint (o_offset p)" and ?b = "uint (o_blkno p)"
  define m d where "m = a mod 512" and "d = a div 512"
  have md: "a = 512 * d + m" "0 \<le> m" "m < 512" "0 \<le> d" using a by (auto simp: m_def d_def)
  have o: "0 \<le> ?o" "?o < 512" using n uint16_range(1) [of "o_offset p"] unfolding normal_def by linarith+
  have b: "a \<le> 512 * ?b + ?o" using fit by (simp add: pos_def)
  have q: "o_offset q = o_offset p - word_of_int m" by (simp add: q_def m_def)
  show ?thesis
  proof (cases "?o < m")
    case True
    have qo: "uint (o_offset q) = ?o - m + 65536"
      unfolding q by (rule uint_sub_wrap) (use md True in linarith)+
    have "32768 \<le> uint (o_offset q)" using qo md o True by linarith
    then have "sint (o_offset q) < 0"
      using sint_cases16 [of "o_offset q"] uint16_range(2) [of "o_offset q"] by simp
    then have r: "r = q\<lparr>o_offset := o_offset q + 512, o_blkno := o_blkno q - 1\<rparr>" by (simp add: r_def)
    have "uint (o_offset p + word_of_int (512 - m)) = ?o + (512 - m)"
      by (rule uint_add_int) (use md o True in linarith)+
    moreover have "o_offset t = o_offset p + word_of_int (512 - m)" by (simp add: t_def r q)
    ultimately have ro: "uint (o_offset t) = ?o + 512 - m" by simp
    have "uint (o_blkno p - word_of_int (1 + d)) = ?b - (1 + d)"
      by (rule uint_sub_int) (use md o b True in linarith)+
    moreover have "o_blkno t = o_blkno p - word_of_int (1 + d)" by (simp add: t_def r q_def d_def diff_diff_eq)
    ultimately have "uint (o_blkno t) = ?b - (1 + d)" by simp
    with ro show ?thesis using md o True by (simp add: pos_def normal_def)
  next
    case False
    have qo: "uint (o_offset q) = ?o - m"
      unfolding q by (rule uint_sub_int) (use md False in linarith)+
    have "sint (o_offset q) = ?o - m"
      using qo md o False by (simp add: sint_cases16)
    then have r: "r = q" using False by (simp add: r_def)
    have "uint (o_blkno p - word_of_int d) = ?b - d"
      by (rule uint_sub_int) (use md o b False in linarith)+
    then have "uint (o_blkno t) = ?b - d" by (simp add: t_def r q_def d_def)
    moreover have "uint (o_offset t) = ?o - m" using qo by (simp add: t_def r)
    ultimately show ?thesis using md o False by (simp add: pos_def normal_def)
  qed
qed

lemma sint_minus16:
  assumes "sint (w :: u16) < 0" "sint w \<noteq> - 32768"
  shows "sint (- w) = - sint w"
proof -
  have u: "32768 < uint w" "sint w = uint w - 65536"
    using assms sint_cases16 [of w] uint16_range [of w] by (auto split: if_splits)
  have "uint (- w) = (- uint w) mod 65536" by (simp add: uint_word_ariths)
  also have "\<dots> = (65536 - uint w) mod 65536" by (simp add: mod_diff_left_eq [symmetric])
  also have "\<dots> = 65536 - uint w" using u uint16_range [of w] by (intro mod_pos_pos_trivial) linarith+
  finally show ?thesis using u by (simp add: sint_cases16)
qed

text \<open>\<^verbatim>\<open>addoff\<close> adds a signed 16-bit amount to the byte position an offset stands for, and leaves the
  offset normal, whenever the sum is a position (not negative, below 65536 blocks). The amount -32768 is
  excluded: its negation in the source overflows.\<close>

lemma addoff_pos:
  assumes "normal p" "sint amount \<noteq> - 32768" "0 \<le> pos p + sint amount" "pos p + sint amount < 512 * 65536"
  shows "pos (addoff amount p) = pos p + sint amount \<and> normal (addoff amount p)"
proof (cases "sint amount \<ge> 0")
  case True
  from add_forward [OF assms(1) True sint16_range(2) assms(4)] show ?thesis
    using True by (simp add: addoff_def Let_def sdivmod_nonneg)
next
  case False
  then have m: "sint (- amount) = - sint amount" using sint_minus16 assms(2) by simp
  have "- sint amount < 32768" using sint16_range(1) [of amount] assms(2) by linarith
  note B = add_backward [OF assms(1) _ this]
  have "sint (- amount) smod 512 = - sint amount mod 512" "sint (- amount) sdiv 512 = - sint amount div 512"
    unfolding m by (rule sdivmod_nonneg; use False in simp)+
  then have "pos (addoff amount p) = pos p - - sint amount \<and> normal (addoff amount p)"
    using B False assms(3) by (simp only: addoff_def Let_def if_False)
  then show ?thesis by simp
qed

subsection \<open>The normal form after seek\<close>

declare norm_off.simps [simp del]

lemma norm_off_normal: "normal (norm_off p)"
proof (induction p rule: norm_off.induct)
  case (1 p)
  show ?case
  proof (cases "512 \<le> o_offset p")
    case True
    with 1 show ?thesis by (simp add: norm_off.simps [of p])
  next
    case False
    then show ?thesis by (simp add: norm_off.simps [of p] normal_def word_le_def)
  qed
qed

definition max_pos :: int where
  "max_pos = 33554432"

lemma pos_range: "normal p \<Longrightarrow> 0 \<le> pos p \<and> pos p < max_pos"
  using uint16_range [of "o_blkno p"] uint16_range(1) [of "o_offset p"] unfolding normal_def pos_def max_pos_def by linarith

lemma mod_shift: "(512 * (x mod 65536) + y) mod max_pos = (512 * x + y) mod max_pos"
proof -
  have "512 * (x mod 65536) = (512 * x) mod max_pos" using mult_mod_right [of 512 x 65536] by (simp add: max_pos_def)
  then show ?thesis by (simp only: mod_add_left_eq)
qed

lemma uint_plus: "uint ((a :: u16) + b) = (uint a + uint b) mod 65536"
  by (simp add: uint_word_ariths)

lemma norm_off_mod: "pos (norm_off p) mod max_pos = pos p mod max_pos"
proof (induction p rule: norm_off.induct)
  case (1 p)
  show ?case
  proof (cases "512 \<le> o_offset p")
    case True
    let ?q = "p\<lparr>o_offset := o_offset p - 512, o_blkno := o_blkno p + 1\<rparr>"
    have "512 \<le> uint (o_offset p)" using True by (simp add: word_le_def)
    then have "uint (o_offset p - word_of_int 512) = uint (o_offset p) - 512" by (intro uint_sub_int) simp_all
    moreover have "uint (o_blkno p + 1) = (uint (o_blkno p) + 1) mod 65536" by (simp add: uint_word_ariths)
    ultimately have "pos ?q mod max_pos = (512 * ((uint (o_blkno p) + 1) mod 65536) + (uint (o_offset p) - 512)) mod max_pos"
      by (simp add: pos_def)
    also have "\<dots> = (512 * (uint (o_blkno p) + 1) + (uint (o_offset p) - 512)) mod max_pos" by (rule mod_shift)
    also have "\<dots> = pos p mod max_pos" by (simp add: pos_def)
    finally show ?thesis using 1 [OF True] True by (simp add: norm_off.simps [of p])
  next
    case False
    then show ?thesis by (simp add: norm_off.simps [of p])
  qed
qed

lemma norm_off_pos: "pos (norm_off p) = pos p mod max_pos"
  using norm_off_mod [of p] pos_range [OF norm_off_normal] by simp

lemma pos_blkno:
  "pos (p\<lparr>o_blkno := o_blkno q + w\<rparr>) mod max_pos = (512 * uint (o_blkno q) + 512 * uint w + uint (o_offset p)) mod max_pos"
  using mod_shift [of "uint (o_blkno q) + uint w" "uint (o_offset p)"] by (simp add: pos_def uint_plus distrib_left)

lemma pos_offset:
  assumes "normal q" "uint w < 65024"
  shows "pos (p\<lparr>o_offset := o_offset q + w\<rparr>) = 512 * uint (o_blkno p) + uint (o_offset q) + uint w"
proof -
  have "uint (o_offset q + word_of_int (uint w)) = uint (o_offset q) + uint w"
    by (rule uint_add_int) (use assms in \<open>auto simp: normal_def\<close>)
  then show ?thesis by (simp add: pos_def)
qed

text \<open>The pointer \<^verbatim>\<open>seek\<close> leaves is normal, and stands for: the offset (flag 0), the old position or
  the end of the file plus the offset (1, 2), the given block, the old block or the last block plus the
  given blocks with the offset in the block kept (3, 4, 5), reduced modulo 65536 blocks. Any other flag is
  refused.\<close>

theorem seek_positions:
  assumes "normal p" "normal z" "uint offset < 65024"
  defines "new \<equiv> \<lambda>flg. map_option (\<lambda>q. pos (norm_off q)) (seek_ptr flg offset z p)"
  shows "new 0 = Some (uint offset) \<and>
    new 1 = Some ((pos p + uint offset) mod max_pos) \<and>
    new 2 = Some ((pos z + uint offset) mod max_pos) \<and>
    new 3 = Some (512 * uint offset + uint (o_offset p)) \<and>
    new 4 = Some ((pos p + 512 * uint offset) mod max_pos) \<and>
    new 5 = Some ((512 * (uint (o_blkno z) + uint offset) + uint (o_offset p)) mod max_pos) \<and>
    (new flg = None) = (flg \<notin> {0..5}) \<and> normal (norm_off (the (seek_ptr flg offset z p)))"
proof -
  have n: "normal (p\<lparr>o_blkno := w\<rparr>)" for w using assms(1) by (simp add: normal_def)
  have "new 0 = Some (uint offset)"
    using assms(3) by (simp add: new_def seek_ptr_def norm_off_pos) (simp add: pos_def max_pos_def)
  moreover have "new 1 = Some ((pos p + uint offset) mod max_pos)"
    using pos_offset [OF assms(1,3), of p] by (simp add: new_def seek_ptr_def norm_off_pos) (simp add: pos_def)
  moreover have "new 2 = Some ((pos z + uint offset) mod max_pos)"
    using pos_offset [OF assms(2,3), of "p\<lparr>o_blkno := o_blkno z\<rparr>"]
    by (simp add: new_def seek_ptr_def norm_off_pos) (simp add: pos_def)
  moreover have "new 3 = Some (512 * uint offset + uint (o_offset p))"
    using pos_range [OF n [of offset]] by (simp add: new_def seek_ptr_def norm_off_pos) (simp add: pos_def)
  moreover have "new 4 = Some ((pos p + 512 * uint offset) mod max_pos)"
    by (simp add: new_def seek_ptr_def norm_off_pos pos_blkno) (simp add: pos_def algebra_simps)
  moreover have "new 5 = Some ((512 * (uint (o_blkno z) + uint offset) + uint (o_offset p)) mod max_pos)"
    by (simp add: new_def seek_ptr_def norm_off_pos pos_blkno distrib_left)
  moreover have "(new flg = None) = (flg \<notin> {0..5})" by (auto simp: new_def seek_ptr_def)
  ultimately show ?thesis by (simp add: norm_off_normal)
qed

theorem seek_positions_witness:
  "map_option (\<lambda>q. pos (norm_off q)) (seek_ptr 2 1000 \<lparr>o_blkno = 3, o_offset = 100\<rparr> off0) = Some 2636"
  using seek_positions [of off0 "\<lparr>o_blkno = 3, o_offset = 100\<rparr>" 1000]
  by (simp add: pos_def normal_def max_pos_def off0_def)

subsection \<open>The end of a file\<close>

lemma smin_small:
  assumes "uint a < 32768" "uint b < 32768"
  shows "uint (smin a b) = min (uint a) (uint b)"
  using assms by (simp add: smin_def sint_cases16)

text \<open>Reading a file from a position not beyond its end is limited to the bytes that are left, for
  requests of up to 32257 bytes (the signed 16-bit arithmetic of the source is right up to there).\<close>

lemma read_limit_rest:
  assumes "normal (u_offset s)" "normal (i_size (c_node (inop ino s)))"
    "pos (u_offset s) \<le> pos (i_size (c_node (inop ino s)))" "uint (u_count s) \<le> 32257"
  shows "uint (read_limit ino s) = min (uint (u_count s)) (pos (i_size (c_node (inop ino s))) - pos (u_offset s))"
proof -
  let ?z = "i_size (c_node (inop ino s))" and ?p = "u_offset s"
  define d where "d = uint (o_blkno ?z) - uint (o_blkno ?p)"
  have pz: "pos ?z - pos ?p = 512 * d + uint (o_offset ?z) - uint (o_offset ?p)" by (simp add: pos_def d_def)
  have zo: "uint (o_offset ?z) < 512" "uint (o_offset ?p) < 512" using assms(1,2) by (simp_all add: normal_def)
  have d0: "0 \<le> d" using assms(3) pz zo uint16_range(1) [of "o_offset ?p"] by linarith
  have du: "uint (o_blkno ?z - o_blkno ?p) = d"
    using uint_sub_int [of "uint (o_blkno ?p)" "o_blkno ?z"] uint16_range(1) [of "o_blkno ?p"] d0 by (simp add: d_def)
  show ?thesis
  proof (cases "64 \<le> d")
    case True
    then have "read_limit ino s = u_count s" by (simp add: read_limit_def Let_def word_le_def du)
    moreover have "uint (u_count s) \<le> pos ?z - pos ?p"
      using True pz zo assms(4) uint16_range(1) [of "o_offset ?z"] by linarith
    ultimately show ?thesis by simp
  next
    case False
    define w where "w = 512 * (o_blkno ?z - o_blkno ?p) + (o_offset ?z - o_offset ?p)"
    have rl: "read_limit ino s = smin (u_count s) w" using False by (simp add: read_limit_def Let_def word_le_def du w_def)
    have r: "0 \<le> pos ?z - pos ?p" "pos ?z - pos ?p < 32768"
      using False assms(3) pz zo uint16_range(1) [of "o_offset ?p"] by linarith+
    have "w = word_of_int (pos ?z - pos ?p)" by (simp add: w_def pos_def algebra_simps)
    then have "uint w = (pos ?z - pos ?p) mod 65536" by (simp only: uint_word_of_int) simp
    then have "uint w = pos ?z - pos ?p" using r by simp
    then show ?thesis using smin_small [of "u_count s" w] r assms(4) by (simp add: rl)
  qed
qed

text \<open>Outside that domain the end of the file is not respected: from a position in a block behind the last
  one the whole request is granted, and a request of 32768 bytes or more is granted in full.\<close>

lemma read_limit_behind_end:
  assumes "uint (o_blkno (i_size (c_node (inop ino s)))) < uint (o_blkno (u_offset s))"
    "uint (o_blkno (u_offset s)) \<le> 65472"
  shows "read_limit ino s = u_count s"
proof -
  let ?z = "o_blkno (i_size (c_node (inop ino s)))" and ?p = "o_blkno (u_offset s)"
  have "uint (?z - ?p) = (uint ?z - uint ?p) mod 65536" using uint_sub_mod [of ?z "uint ?p"] by simp
  also have "\<dots> = (uint ?z - uint ?p + 65536) mod 65536" by simp
  also have "\<dots> = uint ?z - uint ?p + 65536"
    using assms uint16_range(1) [of ?z] by (intro mod_pos_pos_trivial) linarith+
  finally have "64 \<le> uint (?z - ?p)" using assms uint16_range(1) [of ?z] by linarith
  then show ?thesis by (simp add: read_limit_def Let_def word_le_def)
qed

lemma read_limit_large_request:
  assumes "normal (i_size (c_node (inop ino s)))" "o_blkno (i_size (c_node (inop ino s))) = 0"
    "u_offset s = \<lparr>o_blkno = 0, o_offset = 0\<rparr>" "32768 \<le> uint (u_count s)"
  shows "read_limit ino s = u_count s"
proof -
  have "sint (u_count s) < 0" using assms(4) uint16_range(2) [of "u_count s"] by (simp add: sint_cases16)
  moreover have "0 \<le> sint (o_offset (i_size (c_node (inop ino s))))"
    using assms(1) by (simp add: sint_cases16 normal_def)
  ultimately show ?thesis using assms(2,3) by (simp add: read_limit_def Let_def smin_def)
qed

end
