(* ===== verification/LineEdit.thy ===== *)
theory LineEdit
  imports Tty Names
begin

section \<open>The line discipline as an editor of lines\<close>

text \<open>
  What \<^verbatim>\<open>tinproc\<close> and \<^verbatim>\<open>tty_read\<close> do, stated over the sequence of characters in the input queue: typed
  characters edit the sequence, and a read takes its first line. The proofs use the queue contract only.
\<close>

subsection \<open>Typing\<close>

definition typed :: "kst \<Rightarrow> u8 list" where
  "typed s = q_contents (ttyq_of 5 s)"

definition line_kill :: "u8 list \<Rightarrow> u8 list" where
  "line_kill l = rev (dropWhile (\<lambda>c. c \<noteq> 10) (rev l))"

definition edit :: "tty_data \<Rightarrow> nat \<Rightarrow> u8 list \<Rightarrow> u16 \<Rightarrow> u8 list" where
  "edit td cap l c =
     (if c = scast (t_erase td) then (if l = [] \<or> last l = 10 then l else butlast l)
      else if c = scast (t_kill td) then line_kill l
      else let c = (if c = 13 \<and> t_flags td AND CRMOD \<noteq> 0 then 10 else c)
           in if c = scast (t_intr td) \<or> c = scast (t_quit td) then []
              else if c = 15 \<or> c = scast (t_stop td) \<or> c = scast (t_start td) then l
              else if length l < cap then l @ [ucast c] else l)"

definition cooked :: "kst \<Rightarrow> bool" where
  "cooked s \<longleftrightarrow> q_ok (ttyq_of 5 s) \<and> 5 < length (ttyinq s) \<and> ctl_char (ttyp 5 s) = 0 \<and>
     t_flags (ttyp 5 s) AND (RAW OR CBREAK) = COOKED"

definition queue_only :: "kst \<Rightarrow> kst \<Rightarrow> u8 list \<Rightarrow> bool" where
  "queue_only s t l \<longleftrightarrow> typed t = l \<and> q_ok (ttyq_of 5 t) \<and> q_size (ttyq_of 5 t) = q_size (ttyq_of 5 s) \<and>
     ttydata t = ttydata s \<and> length (ttyinq t) = length (ttyinq s) \<and>
     (\<forall>m. unat m \<noteq> 5 \<longrightarrow> ttyq_of m t = ttyq_of m s)"

lemma ttyq_set: "5 < length (ttyinq s) \<Longrightarrow> ttyq_of m (set_q 5 q s) = (if unat m = 5 then q else ttyq_of m s)"
  by (simp add: ttyq_of_def set_q_def nth_list_update)

lemma queue_only_set:
  "5 < length (ttyinq s) \<Longrightarrow> q_ok q \<Longrightarrow> q_size q = q_size (ttyq_of 5 s) \<Longrightarrow> queue_only s (set_q 5 q s) (q_contents q)"
  by (simp add: queue_only_def typed_def ttyq_set) (simp add: set_q_def)

lemma queue_only_other:
  "ttyinq t = ttyinq u \<Longrightarrow> ttydata t = ttydata u \<Longrightarrow> queue_only s t l = queue_only s u l"
  by (simp add: queue_only_def typed_def ttyq_of_def)

lemma queue_only_refl: "q_ok (ttyq_of 5 s) \<Longrightarrow> queue_only s s (typed s)"
  by (simp add: queue_only_def)

lemma queue_only_trans: "queue_only s t l \<Longrightarrow> queue_only t u m \<Longrightarrow> queue_only s u m"
  by (simp add: queue_only_def)

lemma output_frame:
  "ttyinq (tty_putc m c s) = ttyinq s" "ttydata (tty_putc m c s) = ttydata s"
  "ttyinq (echo m c s) = ttyinq s" "ttydata (echo m c s) = ttydata s"
  "ttyinq (rubout m s) = ttyinq s" "ttydata (rubout m s) = ttydata s"
  "ttyinq (wakeup ev s) = ttyinq s" "ttydata (wakeup ev s) = ttydata s"
  "ttyinq (sgrpsig n g s) = ttyinq s" "ttydata (sgrpsig n g s) = ttydata s"
  "ttyq_of k (echo m c s) = ttyq_of k s" "ttyq_of k (wakeup ev s) = ttyq_of k s" "ttyp k (echo m c s) = ttyp k s"
  by (simp_all add: tty_putc_def echo_def rubout_def wakeup_def sgrpsig_def ttyq_of_def ttyp_def)

lemma uninsq_cases:
  assumes "q_ok q"
  obtains (empty) q1 where "q_contents q = []" "uninsq q = (None, q1)"
  | (char) oc q1 where "uninsq q = (Some oc, q1)" "q_contents q = q_contents q1 @ [oc]" "q_ok q1" "q_size q1 = q_size q"
proof (cases "q_contents q = []")
  case True
  then have "uninsq q = (None, snd (uninsq q))" using ttyq.unins_ok [OF assms] by (simp add: prod_eq_iff)
  then show thesis using True empty by blast
next
  case False
  have u: "uninsq q = (Some (last (q_contents q)), snd (uninsq q))"
    using False ttyq.unins_ok [OF assms] by (simp add: prod_eq_iff)
  have "q_contents q = q_contents (snd (uninsq q)) @ [last (q_contents q)]"
    using False ttyq.unins_ok [OF assms] by simp
  then show thesis using char [OF u] ttyq.unins_ok [OF assms] by blast
qed

lemma put_back:
  assumes "q_ok q1" "q_contents q = q_contents q1 @ [oc]" "q_size q1 = q_size q" "q_ok q"
  shows "q_ok (snd (insq oc q1))" "q_size (snd (insq oc q1)) = q_size q" "q_contents (snd (insq oc q1)) = q_contents q"
proof -
  have "length (q_contents q1) < q_size q1" using ttyq.bounded [OF assms(4)] assms(2,3) by simp
  then show "q_ok (snd (insq oc q1))" "q_size (snd (insq oc q1)) = q_size q" "q_contents (snd (insq oc q1)) = q_contents q"
    using ttyq.ins_ok [OF assms(1), of oc] assms(2,3) by auto
qed

lemma tin_erase_edits:
  assumes "cooked s"
  shows "queue_only s (tin_erase 5 s) (if typed s = [] \<or> last (typed s) = 10 then typed s else butlast (typed s))"
proof -
  have ok: "q_ok (ttyq_of 5 s)" and len: "5 < length (ttyinq s)" using assms by (simp_all add: cooked_def)
  from ok show ?thesis
  proof (cases rule: uninsq_cases)
    case (empty q1)
    then show ?thesis using queue_only_refl [OF ok] by (simp add: tin_erase_def typed_def)
  next
    case (char oc q1)
    note pb = put_back [OF char(3,2,4) ok]
    show ?thesis
    proof (cases "oc = 10")
      case True
      then show ?thesis using char queue_only_set [OF len pb(1,2)] pb(3) by (simp add: tin_erase_def typed_def)
    next
      case False
      then show ?thesis
        using char queue_only_set [OF len char(3,4)] queue_only_other [of "rubout 5 (set_q 5 q1 s)" "set_q 5 q1 s" s "q_contents q1"]
        by (simp add: tin_erase_def typed_def output_frame)
    qed
  qed
qed

lemma line_kill_simps: "line_kill [] = []" "line_kill (l @ [c]) = (if c = 10 then l @ [c] else line_kill l)"
  by (simp_all add: line_kill_def)

lemma tin_kill_edits:
  "q_ok (ttyq_of 5 s) \<Longrightarrow> 5 < length (ttyinq s) \<Longrightarrow> length (typed s) \<le> n \<Longrightarrow> queue_only s (tin_kill n 5 s) (line_kill (typed s))"
proof (induction n arbitrary: s)
  case 0
  then show ?case using queue_only_refl [of s] by (simp add: line_kill_simps)
next
  case (Suc n)
  from Suc.prems(1) show ?case
  proof (cases rule: uninsq_cases)
    case (empty q1)
    then show ?thesis using queue_only_refl [OF Suc.prems(1)] by (simp add: typed_def line_kill_simps)
  next
    case (char oc q1)
    note pb = put_back [OF char(3,2,4) Suc.prems(1)]
    show ?thesis
    proof (cases "oc = 10")
      case True
      then show ?thesis using char queue_only_set [OF Suc.prems(2) pb(1,2)] pb(3) by (simp add: typed_def line_kill_simps)
    next
      case False
      let ?t = "rubout 5 (set_q 5 q1 s)"
      have t: "queue_only s ?t (q_contents q1)"
        using queue_only_set [OF Suc.prems(2) char(3,4)] queue_only_other [of ?t "set_q 5 q1 s"] by (simp add: output_frame)
      then have tt: "typed ?t = q_contents q1" "q_ok (ttyq_of 5 ?t)" "length (ttyinq ?t) = length (ttyinq s)"
        by (simp_all add: queue_only_def)
      have "queue_only ?t (tin_kill n 5 ?t) (line_kill (typed ?t))"
        using tt Suc.prems(2,3) char(2) by (intro Suc.IH) (simp_all add: typed_def)
      then show ?thesis using queue_only_trans [OF t] False char tt by (simp add: typed_def line_kill_simps)
    qed
  qed
qed

lemma tin_store_edits:
  assumes "cooked s"
  shows "queue_only s (tin_store 5 COOKED w c s) (if length (typed s) < q_size (ttyq_of 5 s) then typed s @ [ucast c] else typed s)"
proof -
  have ok: "q_ok (ttyq_of 5 s)" and len: "5 < length (ttyinq s)" using assms by (simp_all add: cooked_def)
  let ?s1 = "if c = 10 \<and> t_flags (ttyp 5 s) AND CRMOD \<noteq> 0 then echo 5 13 s else s"
  obtain b q where q: "insq (ucast c) (ttyq_of 5 s) = (b, q)" by (cases "insq (ucast c) (ttyq_of 5 s)") auto
  note ins = ttyq.ins_ok [OF ok, of "ucast c", unfolded q snd_conv]
  have q1: "insq (ucast c) (ttyq_of 5 ?s1) = (b, q)"
  proof -
    have "ttyq_of 5 ?s1 = ttyq_of 5 s" by (simp add: output_frame)
    then show ?thesis using q by simp
  qed
  have t: "ttyinq (tin_store 5 COOKED w c s) = ttyinq (set_q 5 q ?s1)" "ttydata (tin_store 5 COOKED w c s) = ttydata ?s1"
    unfolding tin_store_def Let_def q1 split_conv by (simp_all add: output_frame set_q_def)
  have "queue_only s (set_q 5 q s) (q_contents q)" using ins by (intro queue_only_set [OF len]) simp_all
  moreover have "queue_only s (tin_store 5 COOKED w c s) l = queue_only s (set_q 5 q s) l" for l
    by (rule queue_only_other) (simp_all add: t, simp_all add: set_q_def output_frame)
  ultimately show ?thesis using ins
    by (cases "q_count (ttyq_of 5 s) < q_size (ttyq_of 5 s)") (simp_all add: typed_def)
qed

lemma tin_signal_edits:
  assumes "cooked s"
  shows "queue_only s (tin_signal 5 sig s) []"
proof -
  have ok: "q_ok (ttyq_of 5 s)" and len: "5 < length (ttyinq s)" using assms by (simp_all add: cooked_def)
  have "queue_only s (set_q 5 (clrq (ttyq_of 5 s)) s) []" using queue_only_set [OF len] ttyq.clr_ok [OF ok] by force
  moreover have "queue_only s (tin_signal 5 sig s) l = queue_only s (set_q 5 (clrq (ttyq_of 5 s)) s) l" for l
    by (rule queue_only_other) (simp_all add: tin_signal_def Let_def set_q_def output_frame ttyq_of_def)
  ultimately show ?thesis by simp
qed

lemma tinproc_edits:
  assumes "cooked s"
  shows "queue_only s (tinproc 5 c s) (edit (ttyp 5 s) (q_size (ttyq_of 5 s)) (typed s) c)"
proof -
  have ok: "q_ok (ttyq_of 5 s)" and len: "5 < length (ttyinq s)" and ctl: "ctl_char (ttyp 5 s) = 0"
    and mode: "t_flags (ttyp 5 s) AND (RAW OR CBREAK) = COOKED" using assms by (simp_all add: cooked_def)
  have run: "tinproc 5 c s = tin_main 5 COOKED (last_win s) c s" by (simp add: tinproc_def Let_def mode)
  have kill: "queue_only s (tin_kill (q_count (ttyq_of 5 s)) 5 s) (line_kill (typed s))"
    by (rule tin_kill_edits [OF ok len]) (simp add: typed_def)
  have flags: "queue_only s (s\<lparr>flshflag := f\<rparr>) (typed s)" "queue_only s (s\<lparr>stopflag := f\<rparr>) (typed s)"
    "queue_only s (wakeup ev (s\<lparr>stopflag := f\<rparr>)) (typed s)" for f ev
    using queue_only_refl [OF ok] queue_only_other [of "s\<lparr>flshflag := f\<rparr>" s s] queue_only_other [of "s\<lparr>stopflag := f\<rparr>" s s]
      queue_only_other [of "wakeup ev (s\<lparr>stopflag := f\<rparr>)" s s]
    by (simp_all add: output_frame)
  show ?thesis
    unfolding run tin_main_def edit_def Let_def tin_ctl_def
    using tin_erase_edits [OF assms] kill tin_store_edits [OF assms] tin_signal_edits [OF assms] flags ctl
    by (simp split: if_split)
qed

lemma queue_only_cooked: "cooked s \<Longrightarrow> queue_only s t l \<Longrightarrow> cooked t \<and> ttyp 5 t = ttyp 5 s"
  by (simp add: cooked_def queue_only_def ttyp_def)

text \<open>C22: in cooked mode the characters typed at the serial line edit the input as \<open>edit\<close> says: the erase
  character takes the last character back but never a newline, the kill character the unfinished line,
  the interrupt and quit characters all of the input, and any other character is added at the end as long as the queue has room, carriage
  return as a newline with CRMOD. Nothing else of the terminals' data changes.\<close>

theorem typing_edits_lines:
  assumes "cooked s"
  shows "let t = fold (tinproc 5) cs s
    in typed t = foldl (edit (ttyp 5 s) (q_size (ttyq_of 5 s))) (typed s) cs \<and> cooked t \<and>
       ttydata t = ttydata s \<and> (\<forall>m. unat m \<noteq> 5 \<longrightarrow> ttyq_of m t = ttyq_of m s)"
proof -
  have "queue_only s (fold (tinproc 5) cs s) (foldl (edit (ttyp 5 s) (q_size (ttyq_of 5 s))) (typed s) cs)"
    using assms
  proof (induction cs arbitrary: s)
    case Nil
    then show ?case using queue_only_refl by (simp add: cooked_def)
  next
    case (Cons c cs)
    let ?t = "tinproc 5 c s"
    note t = tinproc_edits [OF Cons.prems, of c]
    have "cooked ?t" "ttyp 5 ?t = ttyp 5 s" using queue_only_cooked [OF Cons.prems t] by simp_all
    with Cons.IH [of ?t] t queue_only_trans [OF t] show ?case by (simp add: queue_only_def)
  qed
  then show ?thesis using queue_only_cooked [OF assms] by (auto simp: Let_def queue_only_def)
qed


lemma cooked_sample: "cooked sample" "typed sample = []" "ttyp 5 sample = ttydflt" "q_size (ttyq_of 5 sample) = 1536"
  by (simp_all add: cooked_def ttyq_of_def ttyp_def sample_def q_ok_def ttydflt_def typed_def q_contents_def
      RAW_def CBREAK_def COOKED_def)

lemma typing_edits_lines_witness:
  "typed (fold (tinproc 5) [97, 98, 8, 99, 13] sample) = [97, 99, 10]"
  using typing_edits_lines [OF cooked_sample(1), of "[97, 98, 8, 99, 13]"]
  by (simp add: cooked_sample edit_def ttydflt_def CRMOD_def Let_def line_kill_def)

subsection \<open>Reading a line\<close>

lemma unat_u16_le: "unat (w :: u16) \<le> 65535"
  using unat_u16_less [of w] by linarith

lemma uputc_legal: "legal s a \<Longrightarrow> uputc c a s = s\<lparr>umem := (umem s)(a := c)\<rparr>"
  by (simp add: uputc_def uput_def Let_def)

lemma tty_getc_typed:
  assumes "q_ok (ttyq_of 5 s)" "5 < length (ttyinq s)" "typed s = c # l"
  shows "\<exists>q. tty_getc swp 5 s = Some (Some c, set_q 5 q s) \<and> queue_only s (set_q 5 q s) l"
proof -
  obtain r q where q: "remq (ttyq_of 5 s) = (r, q)" by (cases "remq (ttyq_of 5 s)") auto
  have "q_contents (ttyq_of 5 s) = c # l" using assms(3) by (simp add: typed_def)
  note rem = ttyq.rem_ok [OF assms(1), unfolded q this]
  have "r = Some c" "q_contents q = l" using rem by simp_all
  then have "tty_getc swp 5 s = Some (Some c, set_q 5 q s)" "queue_only s (set_q 5 q s) l"
    using q queue_only_set [OF assms(2), of q] rem by (simp_all add: tty_getc.simps [of swp 5 s])
  then show ?thesis by blast
qed

lemma set_q_frame: "umem (set_q m q s) = umem s" "upages (set_q m q s) = upages s" "u_base (set_q m q s) = u_base s"
  "u_count (set_q m q s) = u_count s" "u_sysio (set_q m q s) = u_sysio s" "fast_mode (set_q m q s) = fast_mode s"
  "ttyp k (set_q m q s) = ttyp k s"
  by (simp_all add: set_q_def ttyp_def)

lemma tty_rd_line:
  assumes "cooked s" "\<not> fast_mode s" "\<not> u_sysio s" "t_eof (ttyp 5 s) \<noteq> 10"
    "typed s = l @ 10 # rest" "10 \<notin> set l" "nread = 0 \<Longrightarrow> take 1 l \<noteq> [t_eof (ttyp 5 s)]"
    "unat nread + length l < unat (u_count s)" "\<forall>i \<le> length l. legal s (u_base s + of_nat i)"
  shows "\<exists>t. tty_rd swp 5 nread s = Some (nread + of_nat (length l) + 1, t) \<and> typed t = rest \<and>
    umem t = dma_put (u_base s) (l @ [10]) (umem s) \<and> cooked t"
  using assms
proof (induction l arbitrary: s nread)
  case Nil
  have ok: "q_ok (ttyq_of 5 s)" "5 < length (ttyinq s)" using Nil.prems(1) by (simp_all add: cooked_def)
  obtain q where q: "tty_getc swp 5 s = Some (Some 10, set_q 5 q s)" "queue_only s (set_q 5 q s) rest"
    using tty_getc_typed [OF ok, of 10 rest] Nil.prems(5) by auto
  let ?t = "(set_q 5 q s)\<lparr>umem := (umem s)(u_base s := 10)\<rparr>"
  have lt: "nread < u_count s" using Nil.prems(8) by (simp add: word_less_nat_alt)
  have leg: "legal (set_q 5 q s) (u_base s)" using Nil.prems(9) by (simp add: legal_def set_q_frame)
  have mode: "t_flags (ttyp 5 s) AND (RAW OR CBREAK) = 0" using Nil.prems(1) by (simp add: cooked_def COOKED_def)
  have "tty_rd swp 5 nread s = Some (nread + 1, ?t)"
    using Nil.prems(2-4) lt q(1) mode
    by (subst tty_rd.simps) (simp add: sys_putc_def set_q_frame uputc_legal [OF leg] ttyp_def, simp add: set_q_def)
  moreover have "queue_only s ?t rest" using q(2) queue_only_other [of ?t "set_q 5 q s"] by simp
  ultimately show ?case using queue_only_cooked [OF Nil.prems(1), of ?t rest] by (simp add: queue_only_def fun_upd_def)
next
  case (Cons c l)
  have ok: "q_ok (ttyq_of 5 s)" "5 < length (ttyinq s)" using Cons.prems(1) by (simp_all add: cooked_def)
  obtain q where q: "tty_getc swp 5 s = Some (Some c, set_q 5 q s)" "queue_only s (set_q 5 q s) (l @ 10 # rest)"
    using tty_getc_typed [OF ok, of c "l @ 10 # rest"] Cons.prems(5) by auto
  let ?t = "(set_q 5 q s)\<lparr>umem := (umem s)(u_base s := c), u_base := u_base s + 1\<rparr>"
  have lt: "nread < u_count s" using Cons.prems(8) by (simp add: word_less_nat_alt)
  have leg: "legal (set_q 5 q s) (u_base s)" using Cons.prems(9) [rule_format, of 0] by (simp add: legal_def set_q_frame)
  have mode: "t_flags (ttyp 5 s) AND (RAW OR CBREAK) = 0" using Cons.prems(1) by (simp add: cooked_def COOKED_def)
  have step: "tty_rd swp 5 nread s = tty_rd swp 5 (nread + 1) ?t"
    using Cons.prems(2-4,6,7) lt q(1) mode
    by (subst tty_rd.simps) (auto simp: sys_putc_def set_q_frame uputc_legal [OF leg] ttyp_def, simp_all add: set_q_def)
  have qt: "queue_only s ?t (l @ 10 # rest)" using q(2) queue_only_other [of ?t "set_q 5 q s"] by simp
  have ct: "cooked ?t" "ttyp 5 ?t = ttyp 5 s" using queue_only_cooked [OF Cons.prems(1) qt] by simp_all
  have "unat nread < unat (u_count s) - 1" "unat (u_count s) \<le> 65535"
    using Cons.prems(8) unat_u16_le [of "u_count s"] by auto
  then have n1: "unat (nread + 1) = unat nread + 1" by (intro unat_plus1_u16) linarith
  have "\<exists>t. tty_rd swp 5 (nread + 1) ?t = Some (nread + 1 + of_nat (length l) + 1, t) \<and> typed t = rest \<and>
    umem t = dma_put (u_base ?t) (l @ [10]) (umem ?t) \<and> cooked t"
  proof (rule Cons.IH [OF ct(1)])
    show "typed ?t = l @ 10 # rest" using qt by (simp add: queue_only_def)
    show "nread + 1 = 0 \<Longrightarrow> take 1 l \<noteq> [t_eof (ttyp 5 ?t)]" using n1 by (metis Suc_eq_plus1 nat.distinct(1) unat_0)
    show "\<forall>i \<le> length l. legal ?t (u_base ?t + of_nat i)"
      using Cons.prems(9) by (auto simp: legal_def set_q_frame add.assoc dest: spec [of _ "Suc _"])
  qed (use Cons.prems n1 ct(2) in \<open>simp_all add: set_q_frame\<close>)
  then show ?case by (simp add: step add.commute add.left_commute)
qed


lemma dma_put_below: "i < length bs \<Longrightarrow> length bs \<le> 65536 \<Longrightarrow> dma_put a bs m (a + of_nat i) = bs ! i"
proof (induction bs arbitrary: a m i rule: rev_induct)
  case Nil
  then show ?case by simp
next
  case (snoc b bs)
  have put: "dma_put a (bs @ [b]) m = (dma_put a bs m)(a + of_nat (length bs) := b)" for a m
    by (induction bs arbitrary: a m) (simp_all add: add.assoc)
  have "(of_nat i :: u16) \<noteq> of_nat (length bs)" if "i \<noteq> length bs"
    using that snoc.prems by (simp add: word_of_nat_eq_iff take_bit_eq_mod)
  then show ?case using snoc by (cases "i = length bs") (simp_all add: put nth_append)
qed

text \<open>C30: a read at the serial line in cooked mode returns the first line that was typed, newline included,
  when it fits: its bytes are in user memory at the address given, the number of them is returned, and
  the rest of the input stays in the queue. (A line that begins with the end-of-file character reads as 0
  bytes.)\<close>

theorem read_takes_line:
  assumes "cooked s" "\<not> fast_mode s" "\<not> u_sysio s" "t_eof (ttyp 5 s) \<noteq> 10"
    "typed s = l @ 10 # rest" "10 \<notin> set l" "take 1 l \<noteq> [t_eof (ttyp 5 s)]"
    "length l < unat (u_count s)" "\<forall>i \<le> length l. legal s (u_base s + of_nat i)"
  shows "\<exists>t. tty_read swp 5 s = Some (of_nat (length l + 1), t) \<and> typed t = rest \<and> cooked t \<and>
    (\<forall>i \<le> length l. umem t (u_base s + of_nat i) = (l @ [10]) ! i)"
proof -
  obtain s1 where c: "ctl_tty 5 s = (5, s1)" "s1 = s \<or> (\<exists>q. s1 = upd_proc (u_ptab s) (\<lambda>p. p\<lparr>p_tty := 5\<rparr>) s)"
    by (auto simp: ctl_tty_def Let_def)
  have f: "u_base s1 = u_base s" "umem s1 = umem s" "u_count s1 = u_count s" "upages s1 = upages s"
    "fast_mode s1 = fast_mode s" "u_sysio s1 = u_sysio s" "ttydata s1 = ttydata s" "ttyinq s1 = ttyinq s"
    using c(2) by (auto simp: upd_proc_def)
  then have v: "cooked s1" "typed s1 = typed s" "ttyp 5 s1 = ttyp 5 s" "legal s1 a = legal s a" for a
    using assms(1) by (simp_all add: cooked_def typed_def ttyq_of_def ttyp_def legal_def)
  have run: "tty_read swp 5 s = tty_rd swp 5 0 s1" using assms(2) c(1) by (simp add: tty_read_def)
  obtain t where t: "tty_rd swp 5 0 s1 = Some (0 + of_nat (length l) + 1, t)" "typed t = rest"
    "umem t = dma_put (u_base s1) (l @ [10]) (umem s1)" "cooked t"
    using tty_rd_line [of s1 l rest 0 swp] assms f v by auto
  have "umem t (u_base s + of_nat i) = (l @ [10]) ! i" if "i \<le> length l" for i
    using t(3) that assms(8) unat_u16_le [of "u_count s"] dma_put_below [of i "l @ [10]"] f by simp
  with t run show ?thesis by (auto simp: add.commute)
qed

definition line_typed :: kst where
  "line_typed = set_q 5 \<lparr>q_base = [104, 105, 10, 120, 0], q_head = 0, q_tail = 4, q_size = 5, q_count = 4, q_wakeup = 2\<rparr>
     (sample\<lparr>u_base := 0x100, u_count := 80\<rparr>)"

lemma line_typed_q: "ttyq_of 5 line_typed =
    \<lparr>q_base = [104, 105, 10, 120, 0], q_head = 0, q_tail = 4, q_size = 5, q_count = 4, q_wakeup = 2\<rparr>"
    "5 < length (ttyinq line_typed)" "ttydata line_typed = ttydata sample"
  by (simp_all add: line_typed_def ttyq_of_def set_q_def sample_def)

lemma line_typed_facts:
  "cooked line_typed" "typed line_typed = [104, 105, 10, 120]" "\<not> fast_mode line_typed" "\<not> u_sysio line_typed"
  "ttyp 5 line_typed = ttydflt" "u_count line_typed = 80" "u_base line_typed = 0x100"
  "upages line_typed = True # replicate 7 False"
proof -
  have t: "ttyp 5 line_typed = ttydflt" by (simp add: ttyp_def line_typed_q sample_def)
  then show "cooked line_typed" "ttyp 5 line_typed = ttydflt"
    by (simp_all add: cooked_def line_typed_q q_ok_def, simp add: ttydflt_def RAW_def CBREAK_def COOKED_def)
  show "typed line_typed = [104, 105, 10, 120]" by (simp add: typed_def line_typed_q q_contents_def upt_rec)
qed (simp_all add: line_typed_def set_q_def sample_def)

lemma read_takes_line_witness:
  "\<exists>t. tty_read (\<lambda>s. None) 5 line_typed = Some (3, t) \<and> typed t = [120] \<and> umem t 0x101 = 105"
proof -
  have "legal line_typed (0x100 + of_nat i)" if "i \<le> 2" for i
  proof -
    have "i = 0 \<or> i = 1 \<or> i = 2" using that by auto
    then show ?thesis by (auto simp: legal_def line_typed_facts page_no_def)
  qed
  with read_takes_line [of line_typed "[104, 105]" "[120]" "\<lambda>s. None"] show ?thesis
    by (force simp: line_typed_facts ttydflt_def)
qed

end
