(* ===== verification/UserMem.thy ===== *)
theory UserMem
  imports LineEdit
begin

section \<open>Transfers between kernel and user memory\<close>

text \<open>
  \<^verbatim>\<open>uput\<close> and \<^verbatim>\<open>uget\<close> move up to a block between the kernel and the pages of a process: byte by byte below
  50 bytes, else by DMA in one or two page-sized pieces. Where the range does not end exactly at the end
  of a page, the pieces make up one transfer.
\<close>

lemma unat_add_u16: "unat ((a :: u16) + of_nat n) = (unat a + n) mod 65536"
  by (simp add: unat_word_ariths unsigned_of_nat take_bit_eq_mod mod_simps)

lemma unat_of_small: "n < 65536 \<Longrightarrow> unat (of_nat n :: u16) = n"
  by (simp add: unsigned_of_nat take_bit_nat_eq_self)

lemma page_no_div: "page_no a = unat a div 8192"
  by (simp add: page_no_def drop_bit_eq_div unat_div_distrib)

lemma page_rest_nat: "unat (page_rest a) = 8192 - unat a mod 8192"
proof -
  have m: "a AND 0x1FFF = take_bit 13 a" by (simp add: take_bit_eq_mask mask_eq_exp_minus_1)
  have u: "unat (a AND 0x1FFF) = unat a mod 8192" unfolding m by (simp add: take_bit_eq_mod unat_mod_distrib)
  have "a AND 0x1FFF \<le> 0x2000" by (simp add: word_le_nat_alt u less_imp_le)
  then show ?thesis by (simp add: page_rest_def unat_sub u)
qed

lemma same_page_iff:
  assumes "n \<le> 8192"
  shows "page_no (a + of_nat n) = page_no a \<longleftrightarrow> n < unat (page_rest a)"
proof -
  let ?u = "unat a"
  have dm: "x < 8192 \<Longrightarrow> (8192 * q + x) div 8192 = q" for x q :: nat by simp
  have u: "?u < 65536" "?u = 8192 * (?u div 8192) + ?u mod 8192" "?u mod 8192 < 8192" "?u div 8192 < 8"
    by simp_all (rule less_mult_imp_div_less, simp)
  show ?thesis
  proof (cases "n < 8192 - ?u mod 8192")
    case True
    then have e: "?u + n = 8192 * (?u div 8192) + (?u mod 8192 + n)" and l: "?u mod 8192 + n < 8192" using u(2) by linarith+
    have "(?u + n) div 8192 = ?u div 8192" by (subst e) (rule dm [OF l])
    moreover have "?u + n < 65536" using e l u(4) by linarith
    ultimately show ?thesis using True by (simp add: page_no_div unat_add_u16 page_rest_nat)
  next
    case False
    define q m where "q = ?u div 8192" and "m = ?u mod 8192"
    have split: "?u = 8192 * q + m" "m < 8192" "q < 8" "\<not> n < 8192 - m" using u False by (simp_all add: q_def m_def)
    have e: "?u + n = 8192 * (?u div 8192 + 1) + (?u mod 8192 + n - 8192)" "?u mod 8192 + n - 8192 < 8192"
      unfolding q_def [symmetric] m_def [symmetric] using split assms by arith+
    note l = e(2)
    have "((?u + n) mod 65536) div 8192 = (?u div 8192 + 1) mod 8"
    proof (cases "?u div 8192 = 7")
      case True
      then have "(?u + n) mod 65536 = ?u mod 8192 + n - 8192" using e(1) l by simp
      then show ?thesis using True l by simp
    next
      case no: False
      then have "?u div 8192 + 1 < 8" using u(4) by linarith
      then have "?u + n < 65536" 
      proof -
        obtain z where z: "?u + n = 8192 * (q + 1) + z" "z < 8192" using e(1) l unfolding q_def by blast
        have "q + 1 \<le> 7" using \<open>?u div 8192 + 1 < 8\<close> unfolding q_def by simp
        moreover have "x < 65536" if "q + 1 \<le> 7" "x = 8192 * (q + 1) + z" "z < 8192" for x q z :: nat
          using that by simp
        ultimately show ?thesis using z by blast
      qed
      then show ?thesis using \<open>?u div 8192 + 1 < 8\<close> by (simp only: mod_less, subst e(1)) (rule dm [OF l])
    qed
    also have "\<dots> \<noteq> ?u div 8192" using u(4) by (cases "?u div 8192 = 7") auto
    finally show ?thesis using False by (simp add: page_no_div unat_add_u16 page_rest_nat)
  qed
qed

lemma dma_put_append: "dma_put a (xs @ ys) m = dma_put (a + of_nat (length xs)) ys (dma_put a xs m)"
  by (induction xs arbitrary: a m) (simp_all add: add.assoc)

lemma dma_put_outside: "\<forall>i < length bs. b \<noteq> a + of_nat i \<Longrightarrow> dma_put a bs m b = m b"
proof (induction bs arbitrary: a m)
  case Nil
  then show ?case by simp
next
  case (Cons c bs)
  have "\<forall>i < length bs. b \<noteq> a + 1 + of_nat i" using Cons.prems by (auto simp: add.assoc dest: spec [of _ "Suc _"])
  moreover have "b \<noteq> a" using Cons.prems by auto
  ultimately show ?case using Cons.IH by simp
qed

lemma uwrite_legal: "\<forall>i < length bs. v (a + of_nat i) \<Longrightarrow> uwrite v a bs m = (dma_put a bs m, True)"
proof (induction bs arbitrary: a m)
  case Nil
  then show ?case by simp
next
  case (Cons b bs)
  have "\<forall>i < length bs. v (a + 1 + of_nat i)" using Cons.prems by (auto simp: add.assoc dest: spec [of _ "Suc _"])
  with Cons show ?case by (auto simp: fun_upd_def)
qed

lemma uread_legal: "\<forall>i < n. v (a + of_nat i) \<Longrightarrow> uread v m a n = map (\<lambda>i. m (a + of_nat i)) [0..<n]"
proof (induction n arbitrary: a)
  case 0
  then show ?case by simp
next
  case (Suc n)
  have "\<forall>i < n. v (a + 1 + of_nat i)" using Suc.prems by (auto simp: add.assoc dest: spec [of _ "Suc _"])
  moreover have "v a" using Suc.prems by auto
  ultimately show ?case using Suc.IH [of "a + 1"]
    by (simp add: upt_conv_Cons map_Suc_upt [symmetric] add.assoc del: upt_Suc)
qed

text \<open>What \<^verbatim>\<open>uput\<close> stores in legal pages \<^verbatim>\<open>uget\<close> gets back, for every length up to a block: both
  succeed, nothing but the bytes of the range changes, and the bytes come back as they were, on the byte
  loop and on the DMA in one or two pieces. The range must not end exactly at a page end when the DMA is used.\<close>

lemma uput_uget:
  assumes "0 < length bs" "length bs \<le> 512" "\<forall>i < length bs. legal s (a + of_nat i)"
    "length bs < 50 \<or> unat (page_rest a) \<noteq> length bs"
  shows "uput bs a s = (0, s\<lparr>umem := dma_put a bs (umem s)\<rparr>) \<and>
    uget a (of_nat (length bs)) (s\<lparr>umem := dma_put a bs (umem s)\<rparr>) = (0, bs, s\<lparr>umem := dma_put a bs (umem s)\<rparr>) \<and>
    (\<forall>b. (\<forall>i < length bs. b \<noteq> a + of_nat i) \<longrightarrow> dma_put a bs (umem s) b = umem s b)"
proof -
  let ?n = "length bs" and ?t = "s\<lparr>umem := dma_put a bs (umem s)\<rparr>" and ?r = "page_rest a"
  have cnt: "ucount (of_nat ?n) = ?n"
  proof -
    have "unat (of_nat ?n :: u16) \<noteq> 0" using assms(1,2) unat_of_small [of ?n] by simp
    then have "(of_nat ?n :: u16) \<noteq> 0" by (metis unat_0)
    then show ?thesis using assms(2) unat_of_small [of ?n] by (simp add: ucount_def)
  qed
  have first: "legal s a" using assms(1,3) by force
  have rest: "legal s (a + ?r)" if "\<not> ?n < unat ?r" "50 \<le> ?n"
  proof -
    have "unat ?r < ?n" using assms(4) that by linarith
    then show ?thesis using assms(3) [rule_format, of "unat ?r"] by simp
  qed
  have bck: "map (\<lambda>i. dma_put a bs (umem s) (a + of_nat i)) [0..<?n] = bs"
    using assms(2) dma_put_below by (intro nth_equalityI) simp_all
  have same: "page_no (a + of_nat ?n) = page_no a \<longleftrightarrow> ?n < unat ?r" using assms(2) same_page_iff [of ?n a] by simp
  have put: "uput bs a s = (0, ?t)"
  proof (cases "?n < 50")
    case True
    then show ?thesis using uwrite_legal [of bs "legal s" a] assms(3) by (simp add: uput_def Let_def)
  next
    case long: False
    show ?thesis
    proof (cases "?n < unat ?r")
      case True
      then show ?thesis using long first same by (simp add: uput_def Let_def)
    next
      case False
      let ?k = "unat ?r"
      obtain b rs where d: "drop ?k bs = b # rs"
        using False assms(4) long by (cases "drop ?k bs") auto
      have "take ?k bs @ b # rs = bs" by (simp flip: d)
      moreover have "length (take ?k bs) = ?k" using False by simp
      ultimately have "dma_put a bs m = dma_put (a + ?r) (b # rs) (dma_put a (take ?k bs) m)" for m
        using dma_put_append [of a "take ?k bs" "b # rs" m] by simp
      then have "dma_put (a + ?r) (drop ?k bs) ((dma_put a (take ?k bs) (umem s))(a + ?r := areg s)) = dma_put a bs (umem s)"
        by (simp add: d)
      then show ?thesis using long first same False rest
        by (simp add: uput_def Let_def) (simp add: legal_def)
    qed
  qed
  have leg: "legal ?t = legal s" by (simp add: fun_eq_iff legal_def)
  have get: "uget a (of_nat ?n) ?t = (0, bs, ?t)"
  proof (cases "?n < 50")
    case True
    then show ?thesis using uread_legal [of ?n "legal s" a "dma_put a bs (umem s)"] assms(3) bck
      by (simp add: uget_def cnt Let_def leg)
  next
    case False
    then show ?thesis using first same rest bck
      by (cases "?n < unat ?r") (simp_all add: uget_def cnt Let_def leg dma_get_def)
  qed
  have "dma_put a bs m b = m b" if "\<forall>i < ?n. b \<noteq> a + of_nat i" for m b
    using that by (rule dma_put_outside)
  with put get show ?thesis by simp
qed

lemma legal_page: "page_no b = page_no a \<Longrightarrow> legal s b = legal s a"
  by (simp add: legal_def)

end
