(* ===== verification/FileData.thy ===== *)
theory FileData
  imports FileAlloc Offsets UserMem
begin

section \<open>Files as sequences of bytes\<close>

text \<open>
  \<^verbatim>\<open>readi\<close> and \<^verbatim>\<open>writei\<close> of a regular file or a directory move bytes between the memory of the caller and the file:
  the kernel's \<^verbatim>\<open>sysbuf\<close> or the pages of the process. \<open>fbyte\<close> is the file as a function from positions to bytes, where what has not been
  allocated reads as zero; \<open>fetch\<close> and \<open>deliver\<close> are the memory, and \<open>reach\<close> says that a transfer stays in legal
  memory and that no piece of it ends exactly at a page end (see \<open>UserMem\<close>).
\<close>

subsection \<open>The memory of the caller\<close>

definition fetch :: "kst \<Rightarrow> u16 \<Rightarrow> nat \<Rightarrow> u8 list" where
  "fetch s a n = (if u_sysio s then take n (drop (unat a) (sysbuf s)) else dma_get (umem s) a n)"

definition deliver :: "u8 list \<Rightarrow> u16 \<Rightarrow> kst \<Rightarrow> kst" where
  "deliver bs a s = (if u_sysio s then s\<lparr>sysbuf := splice (unat a) bs (sysbuf s)\<rparr> else s\<lparr>umem := dma_put a bs (umem s)\<rparr>)"

definition reach :: "kst \<Rightarrow> nat \<Rightarrow> u16 \<Rightarrow> nat \<Rightarrow> bool" where
  "reach s off a n \<longleftrightarrow> unat a + n < 65536 \<and>
     (if u_sysio s then unat a + n \<le> length (sysbuf s)
      else (\<forall>i < n. legal s (a + of_nat i)) \<and>
           (\<forall>j \<in> {1..n}. (off + j) mod 512 = 0 \<or> j = n \<longrightarrow> (unat a + j) mod 8192 \<noteq> 0))"

lemma reach_first:
  assumes "reach s off a n" "m = min n (512 - off)" "off < 512"
  shows "reach s off a m"
proof -
  have m: "m \<le> n" "m = n \<or> off + m = 512" using assms(2,3) by auto
  have "(unat a + j) mod 8192 \<noteq> 0" if "\<not> u_sysio s" "j \<in> {1..m}" "(off + j) mod 512 = 0 \<or> j = m" for j
  proof -
    have "(off + j) mod 512 = 0 \<or> j = n" using that(3) m(2) by auto
    moreover have "j \<in> {1..n}" using that(2) m(1) by auto
    ultimately show ?thesis using assms(1) that(1) by (auto simp: reach_def)
  qed
  then show ?thesis using assms(1) m(1) by (auto simp: reach_def split: if_splits)
qed

lemma reach_rest:
  assumes "reach s off a n" "m < n" "(off + m) mod 512 = 0"
  shows "reach s 0 (a + of_nat m) (n - m)"
proof -
  have u: "unat (a + of_nat m) = unat a + m" using assms(1,2) by (simp add: reach_def unat_add_u16)
  have "(unat a + m + j) mod 8192 \<noteq> 0"
    if "\<not> u_sysio s" "j \<in> {1..n - m}" "j mod 512 = 0 \<or> j = n - m" for j
  proof -
    have "(off + (m + j)) mod 512 = ((off + m) mod 512 + j) mod 512" by (simp add: mod_simps add.assoc)
    then have "(off + (m + j)) mod 512 = j mod 512" using assms(3) by simp
    then have "(off + (m + j)) mod 512 = 0 \<or> m + j = n" using that(2,3) assms(2) by fastforce
    moreover have "m + j \<in> {1..n}" using that(2) by auto
    ultimately show ?thesis using assms(1) that(1) by (auto simp: reach_def add.assoc)
  qed
  moreover have "legal s (a + of_nat m + of_nat i)" if "\<not> u_sysio s" "i < n - m" for i
  proof -
    have "m + i < n" using that(2) by simp
    then have "legal s (a + of_nat (m + i))" using assms(1) that(1) by (simp only: reach_def if_False)
    then show ?thesis by (simp add: add.assoc)
  qed
  ultimately show ?thesis using assms(1,2) by (auto simp: reach_def u split: if_splits)
qed

lemma reach_cong:
  assumes "u_sysio t = u_sysio s" "upages t = upages s" "length (sysbuf t) = length (sysbuf s)"
  shows "reach t off a n = reach s off a n"
  using assms by (simp add: reach_def legal_def)

lemma deliver_fields [simp]:
  "u_sysio (deliver bs a s) = u_sysio s" "upages (deliver bs a s) = upages s" "i_tab (deliver bs a s) = i_tab s"
  "u_offset (deliver bs a s) = u_offset s" "u_base (deliver bs a s) = u_base s" "u_count (deliver bs a s) = u_count s"
  "fs_tab (deliver bs a s) = fs_tab s" "same_pool s (deliver bs a s)"
  by (simp_all add: deliver_def same_pool_def)

lemma dma_put_get: "n \<le> 65536 \<Longrightarrow> dma_put a (dma_get m a n) m = m"
proof
  fix b
  assume n: "n \<le> 65536"
  show "dma_put a (dma_get m a n) m b = m b"
  proof (cases "\<exists>i < n. b = a + of_nat i")
    case True
    then show ?thesis using dma_put_below [of _ "dma_get m a n" a m] n by (auto simp: dma_get_def)
  next
    case False
    then show ?thesis by (intro dma_put_outside) (auto simp: dma_get_def)
  qed
qed

lemma reach_piece:
  assumes "reach s off a n" "0 < n" "n \<le> 512" "\<not> u_sysio s"
  shows "\<forall>i < n. legal s (a + of_nat i)" "n < 50 \<or> unat (page_rest a) \<noteq> n"
proof -
  show "\<forall>i < n. legal s (a + of_nat i)" using assms by (simp add: reach_def)
  have "n \<in> {1..n}" using assms(2) by simp
  then have "(unat a + n) mod 8192 \<noteq> 0" using assms(1,4) unfolding reach_def by auto
  moreover have "(x + n) mod 8192 = 0" if "8192 - x mod 8192 = n" for x :: nat
  proof -
    define q r where "q = x div 8192" and "r = x mod 8192"
    have "x = 8192 * q + r" "r < 8192" by (simp_all add: q_def r_def)
    moreover from this have "r + n = 8192" using that unfolding r_def [symmetric] by auto
    ultimately have "x + n = 8192 * (q + 1)" by simp
    then show ?thesis by simp
  qed
  ultimately show "n < 50 \<or> unat (page_rest a) \<noteq> n" unfolding page_rest_nat by metis
qed

lemma uput_reach:
  assumes "reach s off a (length bs)" "0 < length bs" "length bs \<le> 512" "\<not> u_sysio s"
  shows "uput bs a s = (0, s\<lparr>umem := dma_put a bs (umem s)\<rparr>)"
  using uput_uget [OF assms(2,3) reach_piece [OF assms(1-3)]] assms(4) by simp

lemma uget_reach:
  assumes "reach s off a n" "0 < n" "n \<le> 512" "\<not> u_sysio s"
  shows "uget a (of_nat n) s = (0, fetch s a n, s)"
proof -
  have l: "length (fetch s a n) = n" using assms(4) by (simp add: fetch_def dma_get_def)
  have "s\<lparr>umem := dma_put a (fetch s a n) (umem s)\<rparr> = s" using dma_put_get [of n a "umem s"] assms(3,4) by (simp add: fetch_def)
  with uput_uget [where bs = "fetch s a n" and s = s and a = a] reach_piece [OF assms] l assms(2,3) show ?thesis by simp
qed

lemma length_fetch: "reach s off a n \<Longrightarrow> length (fetch s a n) = n"
  by (auto simp: reach_def fetch_def dma_get_def split: if_splits)

subsection \<open>Bytes of a file\<close>

definition fbyte :: "nat \<Rightarrow> kst \<Rightarrow> nat \<Rightarrow> u8" where
  "fbyte k s q = block_of k s (q div 512) ! (q mod 512)"

definition off_at :: "nat \<Rightarrow> off_t" where
  "off_at q = \<lparr>o_blkno = of_nat (q div 512), o_offset = of_nat (q mod 512)\<rparr>"

lemma off_at_fields:
  assumes "q < 33554432"
  shows "unat (o_blkno (off_at q)) = q div 512" "unat (o_offset (off_at q)) = q mod 512"
    "normal (off_at q)" "pos (off_at q) = int q"
proof -
  have q: "q div 512 < 65536" "q mod 512 < 65536" using assms by (simp_all add: less_mult_imp_div_less)
  then show u: "unat (o_blkno (off_at q)) = q div 512" "unat (o_offset (off_at q)) = q mod 512"
    using unat_of_small by (simp_all add: off_at_def)
  have "uint (o_blkno (off_at q)) = int (q div 512)" "uint (o_offset (off_at q)) = int (q mod 512)" unfolding u [symmetric] by simp_all
  moreover have "int q = int (512 * (q div 512) + q mod 512)" by simp
  then have "int q = 512 * int (q div 512) + int (q mod 512)" by (simp only: of_nat_add of_nat_mult of_nat_numeral)
  ultimately show "normal (off_at q)" "pos (off_at q) = int q" by (simp_all add: normal_def pos_def)
qed

lemma off_at_normal:
  assumes "normal p"
  shows "p = off_at (nat (pos p))" "nat (pos p) < 33554432"
proof -
  let ?b = "unat (o_blkno p)" and ?o = "unat (o_offset p)"
  have "nat (uint (o_offset p)) < 512" using assms by (simp only: normal_def)
  then have o: "?o < 512" by simp
  have n: "nat (pos p) = 512 * ?b + ?o" by (simp add: pos_def nat_add_distrib nat_mult_distrib)
  have "(512 * x + y) div 512 = x \<and> (512 * x + y) mod 512 = y" if "y < 512" for x y :: nat using that by simp
  from this [OF o, of ?b] have "nat (pos p) div 512 = ?b" "nat (pos p) mod 512 = ?o" unfolding n by blast+
  then show "p = off_at (nat (pos p))" by (simp add: off_at_def)
  have "?b < 65536" using unat_u16_less [of "o_blkno p"] by simp
  then show "nat (pos p) < 33554432" unfolding n using o by linarith
qed

lemma addoff_at:
  assumes "m \<le> 512" "q + m < 33554432"
  shows "addoff (of_nat m) (off_at q) = off_at (q + m)"
proof -
  have q: "q < 33554432" using assms by simp
  have s: "sint (of_nat m :: u16) = int m"
  proof -
    have "unat (of_nat m :: u16) = m" using assms(1) by (intro unat_of_small) simp
    then have "uint (of_nat m :: u16) = int m" by (simp add: unsigned_of_nat take_bit_nat_eq_self)
    then show ?thesis using assms(1) by (simp only: sint_cases16) simp
  qed
  note F = off_at_fields [OF q]
  have "pos (addoff (of_nat m) (off_at q)) = int q + int m \<and> normal (addoff (of_nat m) (off_at q))"
    using addoff_pos [of "off_at q" "of_nat m"] F(3,4) s assms by simp
  then show ?thesis using off_at_normal(1) [of "addoff (of_nat m) (off_at q)"] by (simp add: nat_add_distrib)
qed

lemma length_block_of: "quiet s \<Longrightarrow> length (block_of k s n) = 512"
  using bview_length [of "{}" s] by (simp add: block_of_def content_def zero_blk_def quiet_def)

lemma file_views:
  assumes "same_views s t" "i_tab t = i_tab s" "disk_dev (c_dev (inop k s))"
  shows "block_of k t = block_of k s" "fbyte k t = fbyte k s" "file_disk k t = file_disk k s" "file_addr k t = file_addr k s"
proof -
  have i: "inop k t = inop k s" using assms(2) by (simp add: inop_def)
  then show D: "file_disk k t = file_disk k s" and A: "file_addr k t = file_addr k s"
    using assms(1,3) by (simp_all add: same_views_def fun_eq_iff)
  show B: "block_of k t = block_of k s" unfolding block_of_def [abs_def] D A ..
  show "fbyte k t = fbyte k s" unfolding fbyte_def [abs_def] B ..
qed

text \<open>The piece of a file that lies in one block.\<close>

lemma fbyte_block:
  assumes "m \<le> 512 - p mod 512" "quiet s"
  shows "take m (drop (p mod 512) (block_of k s (p div 512))) = map (fbyte k s) [p..<p + m]"
proof (rule nth_equalityI)
  show "length (take m (drop (p mod 512) (block_of k s (p div 512)))) = length (map (fbyte k s) [p..<p + m])"
    using assms by (simp add: length_block_of)
  fix i assume "i < length (take m (drop (p mod 512) (block_of k s (p div 512))))"
  then have i: "i < m" "p mod 512 + i < 512" using assms by (simp_all add: length_block_of)
  have "p + i = 512 * (p div 512) + (p mod 512 + i)" by simp
  then have "(p + i) div 512 = p div 512" "(p + i) mod 512 = p mod 512 + i" using i(2) by (metis div_mult_self4 div_less add_0_right zero_neq_numeral, metis mod_mult_self4 mod_less)
  then show "take m (drop (p mod 512) (block_of k s (p div 512))) ! i = map (fbyte k s) [p..<p + m] ! i"
    using i by (simp add: fbyte_def length_block_of [OF assms(2)])
qed

subsection \<open>Reading\<close>

lemma file_blk_ptr: "n < 65536 \<Longrightarrow> file_blk s k n = file_ptr (file_disk k s) (file_addr k s) n"
proof -
  assume n: "n < 65536"
  then have "(n - 274) div 256 < 256" by (simp add: less_mult_imp_div_less)
  then show ?thesis
    by (auto simp: file_blk_def blk_path_def file_ptr_def slot_def tall_def within_def numeral_2_eq_2)
qed

lemma zerobuf_open:
  fixes s :: kst
  assumes "quiet s"
  shows "\<exists>b t. zerobuf s = Some (b, t) \<and> calm {} {b} t \<and> same_rest s t \<and> same_views s t \<and> buf_data b t = zero_blk"
proof -
  have ok: "pool_ok {} s" and bs: "busyset s = {}" using assms by (simp_all add: quiet_def)
  have room: "\<exists>j < 38. \<not> bf_busy (bufp j s)" using quietD(2) [OF assms] by (simp add: room_def)
  from freebuf_law [OF ok room] obtain b t where
    t: "freebuf s = Some (b, t)" "b < 38" "\<not> bf_busy (bufp b s)" "pool_ok {} t" "same_rest s t" "busyset t = busyset s"
      "\<forall>d a. disk_dev d \<longrightarrow> bview t d a = bview s d a" "\<forall>j. bufp j t = (if j = b then mark_clean (bufp b s) else bufp j s)" by blast
  let ?c = "bufclock t + 1"
  define u where "u = (upd_buf b (take_buf (- 1) (bf_blk (bufp b t)) zero_blk ?c) t)\<lparr>bufclock := ?c\<rparr>"
  have "set_data b zero_blk (stamp b (upd_buf b (\<lambda>bp. bp\<lparr>bf_dev := - 1\<rparr>) t)) = u"
  proof -
    let ?A = "(bufpool t ! b)\<lparr>bf_dev := - 1, bf_busy := True, bf_time := ?c, bf_data := zero_blk\<rparr>"
    let ?B = "(bufpool t ! b)\<lparr>bf_dev := - 1, bf_data := zero_blk, bf_busy := True, bf_time := ?c\<rparr>"
    have "set_data b zero_blk (stamp b (upd_buf b (\<lambda>bp. bp\<lparr>bf_dev := - 1\<rparr>) t)) = t\<lparr>bufclock := ?c, bufpool := (bufpool t)[b := ?A]\<rparr>"
      using t(2) pool_okD(1) [OF t(4)] by (simp add: stamp_eq set_data_def upd_buf_def)
    also have "\<dots> = t\<lparr>bufpool := (bufpool t)[b := ?A], bufclock := ?c\<rparr>" by (cases t) simp
    also have "?A = ?B" by simp
    also have "t\<lparr>bufpool := (bufpool t)[b := ?B], bufclock := ?c\<rparr> = u"
      by (simp add: u_def upd_buf_def take_buf_def bufp_def)
    finally show ?thesis .
  qed
  then have z: "zerobuf s = Some (b, u)" using t(1) by (simp add: zerobuf_def tmpbuf_def zero_blk_def)
  have nb: "\<not> bf_busy (bufp b t)" "bf_dirty (bufp b t) = 0" using t(3,8) by simp_all
  note T = taken [OF t(4,2) nb disjI1 [OF refl] _ disjI1 [OF refl] _ u_def]
  have len: "length zero_blk = 512" by (simp add: zero_blk_def)
  have g: "got {} t b u" by (rule T(1)) (simp_all add: len disk_dev_def)
  have v: "bview u d a = bview s d a" if "disk_dev d" for d a
    using T(2) [OF len _ that, of a] that t(7) by (auto simp: disk_dev_def)
  have "buf_data b u = zero_blk" by (rule T(4)) (simp_all add: len disk_dev_def)
  then show ?thesis using z g v bs t(5,6) same_rest_trans [OF t(5)]
    by (auto simp: got_def calm_def same_views_def)
qed

text \<open>The block at a position, in a held buffer.\<close>

lemma open_block:
  assumes ok: "file_ok k xs s" and m: "getmode k s \<noteq> F_BDEV"
  shows "\<exists>pb s1 b t. bmap k bn True s = Some (pb, s1) \<and>
    (if pb \<noteq> NULLBLK then breadp (c_dev (inop k s)) pb False s1 else zerobuf s1) = Some (b, t) \<and>
    calm {} {b} t \<and> same_rest s t \<and> same_views s t \<and> buf_data b t = block_of k s (unat bn)"
proof -
  let ?dev = "c_dev (inop k s)" and ?q = "file_ptr (file_disk k s) (file_addr k s) (unat bn)"
  have q: "quiet s" and d: "disk_dev ?dev" using ok fs_okD(1) by (auto simp: file_ok_def)
  have c: "calm {} {} s" and nh: "\<forall>a. not_held s ?dev a" using q quietD(3) by (auto simp: quiet_calm)
  have fb: "file_blk s k (unat bn) = ?q" using unat_u16_less [of bn] by (intro file_blk_ptr) simp
  have "\<exists>t. bmap k bn True s = Some (if ?q = 0 then NULLBLK else ?q, t) \<and> calm {} {} t \<and> same_rest s t \<and> same_views s t"
    using bmap_reads [OF c d _ nh m, of bn] unfolding fb by auto
  then obtain s1 where s1: "bmap k bn True s = Some (if ?q = 0 then NULLBLK else ?q, s1)" "calm {} {} s1" "same_rest s s1" "same_views s s1" by blast
  have q1: "quiet s1" using s1(2) by (simp add: quiet_calm)
  show ?thesis
  proof (cases "?q = 0")
    case True
    from zerobuf_open [OF q1] obtain b t where
      t: "zerobuf s1 = Some (b, t)" "calm {} {b} t" "same_rest s1 t" "same_views s1 t" "buf_data b t = zero_blk" by blast
    then show ?thesis using True s1 same_rest_trans [OF s1(3) t(3)] by (auto simp: same_views_def block_of_def content_def)
  next
    case False
    have "data_blk (fsp ?dev s) ?q" using ok file_ptr_node [OF False] by (auto simp: file_ok_def)
    then have "?q < s_fsize (fsp ?dev s)" by (simp add: data_blk_def)
    then have nn: "?q \<noteq> NULLBLK" by (auto simp: NULLBLK_def)
    from open_read [OF s1(2) d avail_quiet [OF q1], of ?q] obtain b t where
      t: "breadp ?dev ?q False s1 = Some (b, t)" "calm {} {b} t" "same_rest s1 t" "same_views s1 t" "buf_data b t = bview s1 ?dev ?q" by auto
    then show ?thesis using False nn s1 d same_rest_trans [OF s1(3) t(3)]
      by (auto simp: same_views_def block_of_def content_def)
  qed
qed

lemma file_ok_views:
  assumes "file_ok k xs s" "quiet t" "same_views s t" "i_tab t = i_tab s" "fs_tab t = fs_tab s"
  shows "file_ok k xs t"
proof -
  have d: "disk_dev (c_dev (inop k s))" using assms(1) fs_okD(1) by (auto simp: file_ok_def)
  have i: "inop k t = inop k s" and f: "fsp e t = fsp e s" for e using assms(4,5) by (simp_all add: inop_def fsp_def)
  have v: "file_disk k s = bview t (c_dev (inop k s))" using assms(3) d by (simp add: same_views_def fun_eq_iff)
  show ?thesis using assms(1,2,4,5) unfolding file_ok_def fs_ok_def i f v by simp
qed

lemma deliver_append:
  assumes "reach s off a (length xs + length ys)"
  shows "deliver ys (a + of_nat (length xs)) (deliver xs a s) = deliver (xs @ ys) a s"
proof (cases "u_sysio s")
  case True
  then have "unat a + length xs + length ys \<le> length (sysbuf s)" and u: "unat (a + of_nat (length xs)) = unat a + length xs"
    using assms by (simp_all add: reach_def unat_add_u16)
  then have "splice (unat a + length xs) ys (splice (unat a) xs (sysbuf s)) = splice (unat a) (xs @ ys) (sysbuf s)"
    by (simp add: splice_def) (simp add: add.commute add.left_commute)
  then show ?thesis using True u by (simp add: deliver_def)
next
  case False
  then show ?thesis by (simp add: deliver_def dma_put_append)
qed

lemma same_rest_deliver:
  fixes s t :: kst
  assumes "same_rest s t"
  shows "same_rest (deliver bs a s) (deliver bs a t)"
  using assms by (cases s; cases t) (simp add: same_rest_def deliver_def)

lemma same_rest_place:
  fixes s t :: kst
  assumes "same_rest s t"
  shows "same_rest (s\<lparr>u_base := x, u_offset := y\<rparr>) (t\<lparr>u_base := x, u_offset := y\<rparr>)"
  using assms by (cases s; cases t) (simp add: same_rest_def)

lemma deliver_place: "deliver bs a (s\<lparr>u_base := x, u_offset := y\<rparr>) = (deliver bs a s)\<lparr>u_base := x, u_offset := y\<rparr>"
  by (simp add: deliver_def)

lemma placed_fields:
  assumes "same_rest ((deliver bs a s)\<lparr>u_base := x, u_offset := y\<rparr>) t"
  shows "u_offset t = y" "u_base t = x" "u_sysio t = u_sysio s" "upages t = upages s" "i_tab t = i_tab s" "fs_tab t = fs_tab s"
    "u_count t = u_count s" "unat a + length bs \<le> length (sysbuf s) \<or> \<not> u_sysio s \<Longrightarrow> length (sysbuf t) = length (sysbuf s)"
  by (simp_all add: same_rest_kst [OF assms]) (auto simp: deliver_def)

lemma copy_out_law:
  assumes "reach s off (u_base s) m" "0 < m" "off + m \<le> 512" "unat (o_offset (u_offset s)) = off" "length (buf_data b s) = 512"
  shows "copy_out b (of_nat m) s = Some (deliver (take m (drop off (buf_data b s))) (u_base s) s)"
proof -
  have u: "unat (of_nat m :: u16) = m" using assms(3) by (intro unat_of_small) simp
  have l: "length (take m (drop off (buf_data b s))) = m" using assms(3,5) by simp
  show ?thesis
  proof (cases "u_sysio s")
    case True
    then show ?thesis using assms by (simp add: copy_out_def Let_def u deliver_def reach_def)
  next
    case False
    then show ?thesis
      using uput_reach [of s off "u_base s" "take m (drop off (buf_data b s))"] assms l
      by (simp add: copy_out_def Let_def u deliver_def)
  qed
qed

lemma smin_piece:
  assumes "0 < n" "n < 32768" "q < 33554432"
  shows "smin (of_nat n) (512 - o_offset (off_at q)) = of_nat (min n (512 - q mod 512))"
proof -
  have o: "512 - o_offset (off_at q) = of_nat (512 - q mod 512)"
  proof -
    have "q mod 512 \<le> 512" using mod_less_divisor [of 512 q] by simp
    then show ?thesis by (simp add: off_at_def of_nat_diff)
  qed
  have u: "uint (of_nat x :: u16) = int x" if "x < 65536" for x
    using that by (simp add: unsigned_of_nat take_bit_nat_eq_self)
  have "sint (of_nat n :: u16) = int n" "sint (of_nat (512 - q mod 512) :: u16) = int (512 - q mod 512)"
    using assms by (simp_all only: sint_cases16 u) (simp_all add: u)
  then have "smin (of_nat n) (of_nat (512 - q mod 512)) = (if n < 512 - q mod 512 then of_nat n else of_nat (512 - q mod 512) :: u16)"
    by (simp only: smin_def of_nat_less_iff)
  then show ?thesis unfolding o by (simp only: min_def) auto
qed

lemma read_piece:
  assumes ok: "file_ok k xs s" and m: "getmode k s \<noteq> F_BDEV" and p: "u_offset s = off_at p" "p + n < 33554432"
    and n: "0 < n" "n < 32768" and r: "reach s (p mod 512) (u_base s) n"
  defines "m \<equiv> min n (512 - p mod 512)"
  shows "\<exists>t. read_loop k (c_dev (inop k s)) False (of_nat n) s = read_loop k (c_dev (inop k s)) False (of_nat (n - m)) t \<and>
    quiet t \<and> same_views s t \<and>
    same_rest ((deliver (map (fbyte k s) [p..<p + m]) (u_base s) s)\<lparr>u_base := u_base s + of_nat m, u_offset := off_at (p + m)\<rparr>) t"
proof -
  let ?o = "p mod 512" and ?bs = "map (fbyte k s) [p..<p + m]"
  have po: "p < 33554432" "?o < 512" using p(2) by simp_all
  note F = off_at_fields [OF po(1)]
  have mm: "0 < m" "m \<le> n" "?o + m \<le> 512" using n po(2) by (auto simp: m_def)
  have q: "quiet s" using ok by (simp add: file_ok_def)
  from open_block [OF ok m, of "o_blkno (off_at p)"] obtain pb s1 b t where
    t: "bmap k (o_blkno (off_at p)) True s = Some (pb, s1)"
      "(if pb \<noteq> NULLBLK then breadp (c_dev (inop k s)) pb False s1 else zerobuf s1) = Some (b, t)"
      "calm {} {b} t" "same_rest s t" "same_views s t" "buf_data b t = block_of k s (p div 512)" unfolding F(1) by blast
  have tf: "u_offset t = off_at p" "u_base t = u_base s" "u_sysio t = u_sysio s" "upages t = upages s" "sysbuf t = sysbuf s"
    using t(4) p(1) by (simp_all add: same_rest_kst)
  have rt: "reach t ?o (u_base t) m" using reach_first [OF r meta_eq_to_obj_eq [OF m_def] po(2)] reach_cong [of t s] tf by simp
  have "copy_out b (of_nat m) t = Some (deliver (take m (drop ?o (buf_data b t))) (u_base t) t)"
    by (rule copy_out_law [OF rt mm(1,3)]) (simp_all add: tf(1) F(2) t(6) length_block_of [OF q])
  also have "take m (drop ?o (buf_data b t)) = ?bs" unfolding t(6) using mm(3) by (intro fbyte_block [OF _ q]) simp
  finally have co: "copy_out b (of_nat m) t = Some (deliver ?bs (u_base s) t)" by (simp add: tf)
  let ?u = "deliver ?bs (u_base s) t"
  have sp: "same_pool t ?u" by simp
  have cu: "calm {} {b} ?u" using t(3) same_pool_views(2) [OF sp] by simp
  from close_read [OF cu] obtain v where
    v: "brelse b ?u = Some v" "calm {} {} v" "same_rest ?u v" "same_views ?u v" by auto
  have vf: "u_offset v = off_at p" "u_base v = u_base s" using v(3) tf by (simp_all add: same_rest_kst)
  have av: "advance (of_nat m) v = v\<lparr>u_base := u_base s + of_nat m, u_offset := off_at (p + m)\<rparr>"
    using addoff_at [of m p] mm p(2) by (simp add: advance_def vf)
  let ?t = "v\<lparr>u_base := u_base s + of_nat m, u_offset := off_at (p + m)\<rparr>"
  have am: "smin (of_nat n) (512 - o_offset (off_at p)) = of_nat m" unfolding m_def by (rule smin_piece [OF n po(1)])
  have nz: "(of_nat n :: u16) \<noteq> 0"
  proof
    assume "(of_nat n :: u16) = 0"
    then have "unat (of_nat n :: u16) = 0" by (simp only: unat_0)
    then show False using n unat_of_small [of n] by linarith
  qed
  have "(of_nat n :: u16) - of_nat m = of_nat (n - m)" using mm(2) by (simp add: of_nat_diff)
  then have "read_loop k (c_dev (inop k s)) False (of_nat n) s = read_loop k (c_dev (inop k s)) False (of_nat (n - m)) ?t"
    using t(1,2) co v(1) av am nz by (subst read_loop.simps) (simp add: p(1) tf(1))
  moreover have "quiet ?t"
  proof -
    have "same_pool v ?t" by (simp add: same_pool_def)
    then show ?thesis using v(2) same_pool_views(3) by (simp add: quiet_calm)
  qed
  moreover have "same_views s ?t"
  proof -
    have "same_pool v ?t" by (simp add: same_pool_def)
    then have "bview ?t = bview v" by (rule same_pool_views)
    moreover have "bview ?u = bview t" by (rule same_pool_views [OF sp])
    ultimately show ?thesis using v(4) t(5) by (simp add: same_views_def)
  qed
  moreover have "same_rest ((deliver ?bs (u_base s) s)\<lparr>u_base := u_base s + of_nat m, u_offset := off_at (p + m)\<rparr>) ?t"
    by (rule same_rest_place [OF same_rest_trans [OF same_rest_deliver [OF t(4)] v(3)]])
  ultimately show ?thesis by blast
qed

lemma read_loop_law:
  assumes "file_ok k xs s" "getmode k s \<noteq> F_BDEV" "u_offset s = off_at p" "p + n < 33554432" "n < 32768"
    "reach s (p mod 512) (u_base s) n"
  shows "\<exists>t. read_loop k (c_dev (inop k s)) False (of_nat n) s = Some t \<and> quiet t \<and> same_views s t \<and>
    same_rest ((deliver (map (fbyte k s) [p..<p + n]) (u_base s) s)\<lparr>u_base := u_base s + of_nat n, u_offset := off_at (p + n)\<rparr>) t"
  using assms
proof (induction n arbitrary: s p rule: less_induct)
  case (less n)
  have q: "quiet s" and d: "disk_dev (c_dev (inop k s))" using less.prems(1) fs_okD(1) by (auto simp: file_ok_def)
  show ?case
  proof (cases "n = 0")
    case True
    have "deliver [] (u_base s) s = s" by (simp add: deliver_def splice_def)
    moreover have "s\<lparr>u_base := u_base s, u_offset := off_at p\<rparr> = s" by (cases s) (use less.prems(3) in simp)
    ultimately show ?thesis using True q by (subst read_loop.simps) (simp add: same_views_def)
  next
    case False
    let ?dev = "c_dev (inop k s)"
    define m where "m = min n (512 - p mod 512)"
    have mm: "0 < m" "m \<le> n" using False by (auto simp: m_def)
    from read_piece [OF less.prems(1-4) _ less.prems(5,6)] False obtain t where
      t: "read_loop k ?dev False (of_nat n) s = read_loop k ?dev False (of_nat (n - m)) t" "quiet t" "same_views s t"
        "same_rest ((deliver (map (fbyte k s) [p..<p + m]) (u_base s) s)\<lparr>u_base := u_base s + of_nat m, u_offset := off_at (p + m)\<rparr>) t"
      unfolding m_def by blast
    note tf = placed_fields [OF t(4)]
    have bl: "length (sysbuf t) = length (sysbuf s)"
      using less.prems(6) mm(2) by (intro tf(8)) (auto simp: reach_def)
    have okt: "file_ok k xs t" by (rule file_ok_views [OF less.prems(1) t(2,3) tf(5,6)])
    have it: "inop k t = inop k s" using tf(5) by (simp add: inop_def)
    have fb: "fbyte k t = fbyte k s" by (rule file_views [OF t(3) tf(5) d])
    show ?thesis
    proof (cases "m = n")
      case True
      have "read_loop k ?dev False (of_nat (n - m)) t = Some t" unfolding True by (subst read_loop.simps) simp
      then have "read_loop k ?dev False (of_nat n) s = Some t" using t(1) by (simp only:)
      then show ?thesis using t(2-4) True by blast
    next
      case no: False
      then have e: "p mod 512 + m = 512" by (auto simp: m_def)
      have "(p + m) mod 512 = (p mod 512 + m) mod 512" by (simp add: mod_simps)
      then have e': "(p + m) mod 512 = 0" unfolding e by simp
      have "reach t ((p + m) mod 512) (u_base t) (n - m)"
        unfolding e' tf(2) using reach_rest [OF less.prems(6) _ _] no mm(2) e reach_cong [OF tf(3,4) bl] by simp
      moreover have "getmode k t \<noteq> F_BDEV" using less.prems(2) it by (simp add: getmode_def)
      moreover have "n - m < n" "p + m + (n - m) < 33554432" "n - m < 32768" using mm less.prems(4,5) by auto
      ultimately obtain v where
        v: "read_loop k ?dev False (of_nat (n - m)) t = Some v" "quiet v" "same_views t v"
          "same_rest ((deliver (map (fbyte k s) [p + m..<p + m + (n - m)]) (u_base t) t)
            \<lparr>u_base := u_base t + of_nat (n - m), u_offset := off_at (p + m + (n - m))\<rparr>) v"
        using less.IH [of "n - m" t "p + m"] okt tf(1) it fb by auto
      let ?xs = "map (fbyte k s) [p..<p + m]" and ?ys = "map (fbyte k s) [p + m..<p + n]"
      have "?xs @ ?ys = map (fbyte k s) [p..<p + n]" 
        using upt_add_eq_append [of p "p + m" "n - m"] mm(2) by (simp flip: map_append)
      moreover have "reach s (p mod 512) (u_base s) (length ?xs + length ?ys)" using less.prems(6) mm(2) by simp
      ultimately have da: "deliver ?ys (u_base s + of_nat m) (deliver ?xs (u_base s) s) = deliver (map (fbyte k s) [p..<p + n]) (u_base s) s"
        using deliver_append [of s "p mod 512" "u_base s" ?xs ?ys] by simp
      have nm: "p + m + (n - m) = p + n" "of_nat m + of_nat (n - m) = (of_nat n :: u16)" using mm(2) by (simp_all add: of_nat_diff)
      have "same_rest ((deliver ?ys (u_base s + of_nat m) (deliver ?xs (u_base s) s))
          \<lparr>u_base := u_base s + of_nat m + of_nat (n - m), u_offset := off_at (p + n)\<rparr>) v"
        using same_rest_trans [OF same_rest_place [OF same_rest_deliver [OF t(4)]] v(4)] by (simp add: nm(1) tf(2) deliver_place)
      then show ?thesis using t(1,3) v(1-3) da nm(2) by (auto simp: same_views_def add.assoc)
    qed
  qed
qed

lemma file_ok_count:
  assumes "file_ok k xs s"
  shows "file_ok k xs (s\<lparr>u_count := c\<rparr>)" "fbyte k (s\<lparr>u_count := c\<rparr>) = fbyte k s"
proof -
  have sp: "same_pool s (s\<lparr>u_count := c\<rparr>)" by (simp add: same_pool_def)
  note V = same_pool_views [OF sp]
  have v: "same_views s (s\<lparr>u_count := c\<rparr>)" by (simp add: same_views_def V(1))
  have q: "quiet s" and d: "disk_dev (c_dev (inop k s))" using assms fs_okD(1) by (auto simp: file_ok_def)
  show "file_ok k xs (s\<lparr>u_count := c\<rparr>)" using file_ok_views [OF assms _ v] V(3) q by simp
  show "fbyte k (s\<lparr>u_count := c\<rparr>) = fbyte k s" using file_views(2) [OF v _ d] by simp
qed

lemma readi_law:
  fixes s :: kst and p z :: nat
  defines "n \<equiv> min (unat (u_count s)) (z - p)"
  assumes ok: "file_ok k xs s" and m: "getmode k s = F_REG \<or> getmode k s = F_DIR" and p: "u_offset s = off_at p" "p \<le> z"
    and z: "i_size (c_node (inop k s)) = off_at z" "z < 33554432" and c: "unat (u_count s) \<le> 32257"
    and r: "reach s (p mod 512) (u_base s) n"
  shows "\<exists>t. readi swp k s = Some t \<and> quiet t \<and> same_views s t \<and>
    same_rest ((deliver (map (fbyte k s) [p..<p + n]) (u_base s) s)
      \<lparr>u_count := of_nat n, u_base := u_base s + of_nat n, u_offset := off_at (p + n)\<rparr>) t"
proof -
  have pz: "p < 33554432" using p(2) z(2) by simp
  have uc: "uint (u_count s) = int (unat (u_count s))" by simp
  then have ci: "uint (u_count s) \<le> 32257" using c by linarith
  have "uint (read_limit k s) = min (uint (u_count s)) (int z - int p)"
    using read_limit_rest [of s k] off_at_fields(3,4) [OF pz] off_at_fields(3,4) [OF z(2)] ci p by (simp add: z(1))
  also have "\<dots> = int n" using p(2) unfolding uc by (simp only: n_def of_nat_min of_nat_diff)
  finally have lim: "read_limit k s = of_nat n" by (metis of_int_of_nat_eq word_of_int_uint)
  let ?s = "s\<lparr>u_count := of_nat n\<rparr>"
  have i: "inop k ?s = inop k s" by (simp add: inop_def)
  have nb: "getmode k ?s \<noteq> F_BDEV" using m by (auto simp: getmode_def i F_REG_def F_DIR_def F_BDEV_def)
  have rs: "reach ?s (p mod 512) (u_base ?s) n" using r by (simp add: reach_def legal_def cong: if_cong)
  have "p + n < 33554432" "n < 32768" using z(2) p(2) c by (auto simp: n_def)
  from read_loop_law [OF file_ok_count(1) [OF ok] nb _ this rs] p(1) obtain t where
    t: "read_loop k (c_dev (inop k s)) False (of_nat n) ?s = Some t" "quiet t" "same_views ?s t"
      "same_rest ((deliver (map (fbyte k s) [p..<p + n]) (u_base s) ?s)\<lparr>u_base := u_base s + of_nat n, u_offset := off_at (p + n)\<rparr>) t"
    by (auto simp: i file_ok_count(2) [OF ok])
  have "readi swp k s = Some t" using m t(1) by (auto simp: readi_def Let_def lim)
  moreover have "(deliver bs a ?s)\<lparr>u_base := x, u_offset := y\<rparr> = (deliver bs a s)\<lparr>u_count := of_nat n, u_base := x, u_offset := y\<rparr>" for bs a x y
    by (cases s) (simp add: deliver_def)
  moreover have "same_views s t"
  proof -
    have "same_pool s ?s" by (simp add: same_pool_def)
    then have "bview ?s = bview s" by (rule same_pool_views)
    then show ?thesis using t(3) by (simp add: same_views_def)
  qed
  ultimately show ?thesis using t(2,4) by auto
qed

end
