(* ===== verification/FileWrite.thy ===== *)
theory FileWrite
  imports FileData
begin

section \<open>Writing to a file\<close>

text \<open>
  \<^verbatim>\<open>writei\<close> replaces bytes of a file by bytes of the caller's memory, block by block, and allocates the blocks that are missing. A block
  of a file needs at most three blocks of the device.
\<close>

subsection \<open>One block\<close>

lemma write_step:
  fixes s :: kst
  assumes "quiet s" "disk_dev d"
  shows "\<exists>b t. breadp d q rw s = Some (b, t) \<and> same_rest s t \<and> length (buf_data b t) = 512 \<and>
    (\<not> rw \<longrightarrow> buf_data b t = bview s d q) \<and>
    (\<forall>D. length D = 512 \<longrightarrow> (\<exists>v. bawrite b (set_data b D t) = Some v \<and> quiet v \<and> same_rest s v \<and>
       (\<forall>e a. disk_dev e \<longrightarrow> bview v e a = (if e = d \<and> a = q then D else bview s e a))))"
proof -
  have c: "calm {} {} s" and av: "avail {} s d q" using assms(1) by (simp_all add: quiet_calm avail_quiet)
  obtain b t X where
    t: "breadp d q rw s = Some (b, t)" "X \<subseteq> {b}" "calm X {b} t" "same_rest s t" "named (bufp b t) d q" "length (buf_data b t) = 512"
      "\<not> rw \<longrightarrow> buf_data b t = bview s d q" "\<forall>e a. disk_dev e \<longrightarrow> \<not> (e = d \<and> a = q) \<longrightarrow> bview t e a = bview s e a"
  proof (cases rw)
    case True
    from open_rewrite [OF c assms(2) av] obtain b t where
      "breadp d q True s = Some (b, t)" "calm {b} {b} t" "same_rest s t" "named (bufp b t) d q" "length (buf_data b t) = 512"
      "\<forall>e a. disk_dev e \<longrightarrow> \<not> (e = d \<and> a = q) \<longrightarrow> bview t e a = bview s e a" by auto
    with True that [of b t "{b}"] show ?thesis by simp
  next
    case False
    from open_read [OF c assms(2) av] obtain b t where
      t: "breadp d q False s = Some (b, t)" "calm {} {b} t" "same_rest s t" "named (bufp b t) d q" "buf_data b t = bview s d q"
        "same_views s t" by auto
    then have "length (buf_data b t) = 512" using bview_length [of "{}" s] assms(1) by (simp add: quiet_def)
    with False t that [of b t "{}"] show ?thesis by (simp add: same_views_def)
  qed
  have "\<exists>v. bawrite b (set_data b D t) = Some v \<and> quiet v \<and> same_rest s v \<and>
      (\<forall>e a. disk_dev e \<longrightarrow> bview v e a = (if e = d \<and> a = q then D else bview s e a))" if "length D = 512" for D
  proof -
    from close_write [OF t(3) insertI1 t(5) assms(2) that] obtain v where
      v: "bawrite b (set_data b D t) = Some v" "calm (X - {b}) {} v" "same_rest t v"
        "\<forall>e a. disk_dev e \<longrightarrow> bview v e a = (if e = d \<and> a = q then D else bview t e a)" by auto
    moreover have "X - {b} = {}" using t(2) by auto
    ultimately show ?thesis using t(8) same_rest_trans [OF t(4) v(3)] by (auto simp: quiet_calm)
  qed
  then show ?thesis using t by blast
qed

lemma file_ok_write:
  assumes ok: "file_ok k xs s" and q: "q = file_ptr (file_disk k s) (file_addr k s) m" "q \<noteq> 0" "m < 65536"
    and v: "quiet v" "same_rest s v"
      "\<forall>e a. disk_dev e \<longrightarrow> bview v e a = (if e = c_dev (inop k s) \<and> a = q then D else bview s e a)"
  shows "file_ok k xs v" "n < 65536 \<Longrightarrow> block_of k v n = (if n = m then D else block_of k s n)" "grown_file k s v []"
proof -
  let ?d = "c_dev (inop k s)" and ?V = "file_disk k s" and ?A = "file_addr k s"
  note O = ok [unfolded file_ok_def]
  have i: "i_tab v = i_tab s" "fs_tab v = fs_tab s" using v(2) by (simp_all add: same_rest_kst)
  then have ik: "inop k v = inop k s" by (simp add: inop_def)
  have d: "disk_dev ?d" using O fs_okD(1) by auto
  have V: "bview v ?d = ?V(q := D)" using v(3) d by (simp add: fun_eq_iff)
  note W = file_writes [OF _ q(1) [symmetric] q(2,3), where b = D, folded V]
  have dn: "distinct (file_nodes ?V ?A)" using O by simp
  have qn: "q \<in> set (file_nodes ?V ?A)" using file_ptr_node [of ?V ?A m] q by simp
  then have "q \<notin> set xs" using O by blast
  then have "fs_ok v ?d xs" using O V by (intro fs_ok_views [OF _ v(2)]) auto
  then show "file_ok k xs v" using O W(1) [OF dn] v(1) i by (simp add: file_ok_def ik fsp_def)
  show "grown_file k s v []" using W(1) [OF dn] qn by (auto simp: grown_file_def ik V)
  show "block_of k v n = (if n = m then D else block_of k s n)" if "n < 65536"
    using W(3) [OF dn that] by (simp add: block_of_def ik)
qed

lemma copy_in_law:
  assumes "reach s off (u_base s) m" "0 < m" "off + m \<le> 512" "unat (o_offset (u_offset s)) = off"
  shows "copy_in b (of_nat m) s = Some (set_data b (splice off (fetch s (u_base s) m) (buf_data b s)) s)"
proof -
  have u: "unat (of_nat m :: u16) = m" using assms(3) by (intro unat_of_small) simp
  show ?thesis
  proof (cases "u_sysio s")
    case True
    then show ?thesis using assms by (simp add: copy_in_def Let_def u fetch_def reach_def)
  next
    case False
    then show ?thesis using uget_reach [OF assms(1,2)] assms by (simp add: copy_in_def Let_def u)
  qed
qed

subsection \<open>Bytes overwritten\<close>

definition overwrite :: "nat \<Rightarrow> u8 list \<Rightarrow> (nat \<Rightarrow> u8) \<Rightarrow> nat \<Rightarrow> u8" where
  "overwrite p bs f = (\<lambda>q. if p \<le> q \<and> q < p + length bs then bs ! (q - p) else f q)"

lemma overwrite_append: "overwrite (p + length xs) ys (overwrite p xs f) = overwrite p (xs @ ys) f"
  by (auto simp: overwrite_def fun_eq_iff nth_append)

lemma fbyte_write:
  assumes bs: "p mod 512 + length bs \<le> 512" and q: "quiet s"
    and v: "\<And>n. n < 65536 \<Longrightarrow> block_of k v n = (if n = p div 512 then splice (p mod 512) bs (block_of k s (p div 512)) else block_of k s n)"
    and j: "j < 33554432"
  shows "fbyte k v j = overwrite p bs (fbyte k s) j"
proof -
  have "j div 512 < 65536" using j by (simp add: less_mult_imp_div_less)
  note B = v [OF this]
  show ?thesis
  proof (cases "j div 512 = p div 512")
    case False
    have "\<not> (p \<le> j \<and> j < p + length bs)"
    proof
      assume a: "p \<le> j \<and> j < p + length bs"
      have "p = 512 * (p div 512) + p mod 512" by simp
      then have "512 * (p div 512) \<le> j" "j < 512 * (p div 512) + 512" using a bs by linarith+
      then have "j div 512 = p div 512" by (intro div_nat_eqI) simp_all
      with False show False by simp
    qed
    then show ?thesis using B False by (auto simp: fbyte_def overwrite_def)
  next
    case True
    define x y b where "x = j mod 512" and "y = p mod 512" and "b = p div 512"
    have "j = 512 * (j div 512) + x" "p = 512 * (p div 512) + y" by (simp_all add: x_def y_def)
    then have j: "j = 512 * b + x" and p: "p = 512 * b + y" unfolding True b_def [symmetric] .
    have "x < 512" by (simp add: x_def)
    have "fbyte k v j = splice y bs (block_of k s b) ! x" using B True by (simp add: fbyte_def x_def y_def b_def)
    also have "\<dots> = (if y \<le> x \<and> x < y + length bs then bs ! (x - y) else block_of k s b ! x)"
      using bs \<open>x < 512\<close> by (intro nth_splice) (simp_all add: length_block_of [OF q] y_def)
    also have "\<dots> = overwrite p bs (fbyte k s) j" using True by (simp add: overwrite_def fbyte_def j p) (simp add: x_def b_def)
    finally show ?thesis .
  qed
qed

subsection \<open>The loop\<close>

lemma file_step_place:
  "file_step k s t \<Longrightarrow> file_step k (s\<lparr>u_base := x, u_offset := y\<rparr>) (t\<lparr>u_base := x, u_offset := y\<rparr>)"
proof -
  assume "file_step k s t"
  then obtain g A d where m: "bst.more t = bst.more (s\<lparr>fs_tab := g,
     i_tab := (i_tab s)[k := (inop k s)\<lparr>c_node := (c_node (inop k s))\<lparr>i_addr := A\<rparr>, c_dirty := d\<rparr>]\<rparr>)" by (auto simp: file_step_def)
  have "bst.more (t\<lparr>u_base := x, u_offset := y\<rparr>) = bst.more (s\<lparr>u_base := x, u_offset := y, fs_tab := g,
     i_tab := (i_tab s)[k := (inop k s)\<lparr>c_node := (c_node (inop k s))\<lparr>i_addr := A\<rparr>, c_dirty := d\<rparr>]\<rparr>)"
    using m by (cases s; cases t) simp
  then show ?thesis unfolding file_step_def by (auto simp: inop_def)
qed

lemma file_step_rest: "same_rest s t \<Longrightarrow> file_step k s t"
  by (rule file_step_kept [OF keptI_rest [where H = "{}"]]) simp_all

lemma write_piece:
  assumes ok: "file_ok k xs s" and m: "getmode k s \<noteq> F_BDEV" and p: "u_offset s = off_at p" "p + n < 33554432"
    and n: "0 < n" "n < 32768" and r: "reach s (p mod 512) (u_base s) n" and len: "3 \<le> length xs"
  defines "m \<equiv> min n (512 - p mod 512)"
  shows "\<exists>t new ys. write_loop k (c_dev (inop k s)) False (of_nat n) s = write_loop k (c_dev (inop k s)) False (of_nat (n - m)) t \<and>
    xs = new @ ys \<and> length new \<le> 3 \<and> file_ok k ys t \<and> u_error t = u_error s \<and>
    (\<forall>j < 33554432. fbyte k t j = overwrite p (fetch s (u_base s) m) (fbyte k s) j) \<and> grown_file k s t new \<and>
    file_step k (s\<lparr>u_base := u_base s + of_nat m, u_offset := off_at (p + m)\<rparr>) t"
proof -
  let ?o = "p mod 512" and ?d = "c_dev (inop k s)" and ?bs = "fetch s (u_base s) m"
  have po: "p < 33554432" "?o < 512" using p(2) by simp_all
  note F = off_at_fields [OF po(1)]
  have mm: "0 < m" "m \<le> n" "?o + m \<le> 512" using n po(2) by (auto simp: m_def)
  have q: "quiet s" and d: "disk_dev ?d" using ok fs_okD(1) by (auto simp: file_ok_def)
  from bmap_grows [OF ok len m, of "o_blkno (off_at p)"] obtain t new ys where
    t: "bmap k (o_blkno (off_at p)) False s = Some (file_ptr (file_disk k t) (file_addr k t) (p div 512), t)"
      "file_ptr (file_disk k t) (file_addr k t) (p div 512) \<noteq> 0" "xs = new @ ys" "length new \<le> 3" "file_ok k ys t"
      "\<forall>n. block_of k t n = block_of k s n" "file_step k s t" "u_error t = u_error s" "grown_file k s t new" unfolding F(1) by blast
  let ?q = "file_ptr (file_disk k t) (file_addr k t) (p div 512)"
  have tq: "quiet t" using t(5) by (simp add: file_ok_def)
  note T = file_step_fields [OF t(7)]
  have tf: "u_offset t = off_at p" "u_base t = u_base s" "c_dev (inop k t) = ?d" using T p(1) by simp_all
  have "data_blk (fsp ?d t) ?q" using t(5) file_ptr_node [OF t(2)] tf(3) by (auto simp: file_ok_def)
  then have "?q < s_fsize (fsp ?d t)" by (simp add: data_blk_def)
  then have nn: "?q \<noteq> NULLBLK" by (auto simp: NULLBLK_def)
  let ?rw = "(of_nat m :: u16) = 512"
  from write_step [OF tq d, of ?q ?rw] obtain b u where
    u: "breadp ?d ?q ?rw t = Some (b, u)" "same_rest t u" "length (buf_data b u) = 512"
      "\<not> ?rw \<longrightarrow> buf_data b u = bview t ?d ?q"
    and w: "\<forall>D. length D = 512 \<longrightarrow> (\<exists>v. bawrite b (set_data b D u) = Some v \<and> quiet v \<and> same_rest t v \<and>
       (\<forall>e a. disk_dev e \<longrightarrow> bview v e a = (if e = ?d \<and> a = ?q then D else bview t e a)))" by blast
  have uf: "u_offset u = off_at p" "u_base u = u_base s" "u_sysio u = u_sysio s" "upages u = upages s" "sysbuf u = sysbuf s" "umem u = umem s"
    using T p(1) u(2) by (simp_all add: same_rest_kst)
  have ru: "reach u ?o (u_base u) m" using reach_first [OF r meta_eq_to_obj_eq [OF m_def] po(2)] reach_cong [of u s] uf by simp
  have fu: "fetch u (u_base u) m = ?bs" using uf by (simp add: fetch_def)
  have bl: "length ?bs = m" using length_fetch [OF ru] fu by simp
  let ?D = "splice ?o ?bs (buf_data b u)"
  have ci: "copy_in b (of_nat m) u = Some (set_data b ?D u)"
    using copy_in_law [OF ru mm(1,3), of b] by (simp add: uf(1) F(2) fu)
  have Dl: "length ?D = 512" using mm(3) bl u(3) by simp
  from w Dl obtain v where
    v: "bawrite b (set_data b ?D u) = Some v" "quiet v" "same_rest t v"
      "\<forall>e a. disk_dev e \<longrightarrow> bview v e a = (if e = c_dev (inop k t) \<and> a = ?q then ?D else bview t e a)" unfolding tf(3) by blast
  have pn: "p div 512 < 65536" using po(1) by (simp add: less_mult_imp_div_less)
  note W = file_ok_write [OF t(5) refl t(2) pn v(2-4)]
  have "block_of k t (p div 512) = bview t ?d ?q" using t(2) by (simp only: block_of_def content_def tf(3) if_False)
  then have old: "bview t ?d ?q = block_of k s (p div 512)" using t(6) by simp
  have D: "?D = splice ?o ?bs (block_of k s (p div 512))"
  proof (cases ?rw)
    case True
    then have "unat (of_nat m :: u16) = 512" by simp
    then have "m = 512" "?o = 0" using mm(3) by (simp_all add: unat_of_small)
    then show ?thesis using bl u(3) by (simp add: splice_def length_block_of [OF q])
  next
    case False
    then show ?thesis using u(4) old by simp
  qed
  have fb: "fbyte k v j = overwrite p ?bs (fbyte k s) j" if "j < 33554432" for j
  proof (rule fbyte_write [OF _ q _ that])
    show "?o + length ?bs \<le> 512" using mm(3) bl by simp
    show "block_of k v i = (if i = p div 512 then splice ?o ?bs (block_of k s (p div 512)) else block_of k s i)" if "i < 65536" for i
      using W(2) [OF that] t(6) by (simp add: D)
  qed
  let ?t = "v\<lparr>u_base := u_base s + of_nat m, u_offset := off_at (p + m)\<rparr>"
  have vf: "u_offset v = off_at p" "u_base v = u_base s" using v(3) tf by (simp_all add: same_rest_kst)
  have av: "advance (of_nat m) v = ?t"
    using addoff_at [of m p] mm p(2) by (simp add: advance_def vf)
  have am: "smin (of_nat n) (512 - o_offset (off_at p)) = of_nat m" unfolding m_def by (rule smin_piece [OF n po(1)])
  have nz: "(of_nat n :: u16) \<noteq> 0"
  proof
    assume "(of_nat n :: u16) = 0"
    then have "unat (of_nat n :: u16) = 0" by (simp only: unat_0)
    then show False using n unat_of_small [of n] by linarith
  qed
  have "(of_nat n :: u16) - of_nat m = of_nat (n - m)" using mm(2) by (simp add: of_nat_diff)
  then have "write_loop k ?d False (of_nat n) s = write_loop k ?d False (of_nat (n - m)) ?t"
    using t(1) u(1) nn ci v(1) av am nz by (subst write_loop.simps) (simp add: p(1))
  moreover have sp: "same_pool v ?t" by (simp add: same_pool_def)
  note V = same_pool_views [OF sp]
  have sv: "same_views v ?t" by (simp add: same_views_def V(1))
  have "file_ok k ys ?t" using V(3) v(2) by (intro file_ok_views [OF W(1) _ sv]) simp_all
  moreover have "fbyte k ?t = fbyte k v"
    using W(1) fs_okD(1) by (intro file_views(2) [OF sv]) (auto simp: file_ok_def)
  moreover have "grown_file k s ?t new"
  proof -
    have g: "grown_file k v ?t []" by (simp add: grown_file_def V(1) inop_def)
    show ?thesis using grown_file_trans [OF grown_file_trans [OF t(9) W(3)] g] by simp
  qed
  moreover have "u_error ?t = u_error s" using v(3) t(8) by (simp add: same_rest_kst)
  moreover have "file_step k (s\<lparr>u_base := u_base s + of_nat m, u_offset := off_at (p + m)\<rparr>) ?t"
    by (rule file_step_place [OF file_step_trans [OF t(7) file_step_rest [OF v(3)]]])
  ultimately show ?thesis using t(3,4) fb by (intro exI [of _ ?t] exI [of _ new] exI [of _ ys]) simp
qed

text \<open>The number of blocks that a transfer touches.\<close>

definition touched :: "nat \<Rightarrow> nat \<Rightarrow> nat" where
  "touched p n = (p mod 512 + n + 511) div 512"

lemma touched_rest:
  assumes "m = min n (512 - p mod 512)" "m < n"
  shows "touched p n = Suc (touched (p + m) (n - m))" "(p + m) mod 512 = 0"
proof -
  have e: "p mod 512 + m = 512" using assms by (auto simp: min_def split: if_splits)
  have "(p + m) mod 512 = (p mod 512 + m) mod 512" by (simp add: mod_simps)
  then show z: "(p + m) mod 512 = 0" unfolding e by simp
  have "p mod 512 + n + 511 = 512 + (n - m + 511)" using e assms(2) by linarith
  then show "touched p n = Suc (touched (p + m) (n - m))" unfolding touched_def z by simp
qed

lemma write_loop_law:
  assumes "file_ok k xs s" "getmode k s \<noteq> F_BDEV" "u_offset s = off_at p" "p + n < 33554432" "n < 32768"
    "reach s (p mod 512) (u_base s) n" "3 * touched p n \<le> length xs"
  shows "\<exists>t new ys. write_loop k (c_dev (inop k s)) False (of_nat n) s = Some t \<and> xs = new @ ys \<and> file_ok k ys t \<and>
    u_error t = u_error s \<and> (\<forall>j < 33554432. fbyte k t j = overwrite p (fetch s (u_base s) n) (fbyte k s) j) \<and> grown_file k s t new \<and>
    file_step k (s\<lparr>u_base := u_base s + of_nat n, u_offset := off_at (p + n)\<rparr>) t"
  using assms
proof (induction n arbitrary: s p xs rule: less_induct)
  case (less n)
  let ?dev = "c_dev (inop k s)"
  show ?case
  proof (cases "n = 0")
    case True
    have "s\<lparr>u_base := u_base s, u_offset := off_at p\<rparr> = s" by (cases s) (use less.prems(3) in simp)
    moreover have "write_loop k ?dev False (of_nat n) s = Some s" using True by (subst write_loop.simps) simp
    moreover have "overwrite p (fetch s (u_base s) n) f = f" for f
      using length_fetch [OF less.prems(6)] True by (auto simp: overwrite_def fun_eq_iff)
    ultimately show ?thesis using True less.prems(1) file_step_refl grown_file_refl by (intro exI [of _ s] exI [of _ "[]"] exI [of _ xs]) simp
  next
    case False
    define m where "m = min n (512 - p mod 512)"
    have mm: "0 < m" "m \<le> n" using False by (auto simp: m_def)
    have "1 \<le> touched p n" using False by (simp add: touched_def)
    then have "3 \<le> length xs" using less.prems(7) by linarith
    from write_piece [OF less.prems(1-4) _ less.prems(5,6) this] False obtain t new ys where
      t: "write_loop k ?dev False (of_nat n) s = write_loop k ?dev False (of_nat (n - m)) t" "xs = new @ ys" "length new \<le> 3"
        "file_ok k ys t" "u_error t = u_error s" "\<forall>j < 33554432. fbyte k t j = overwrite p (fetch s (u_base s) m) (fbyte k s) j"
        "file_step k (s\<lparr>u_base := u_base s + of_nat m, u_offset := off_at (p + m)\<rparr>) t" "grown_file k s t new"
      unfolding m_def by blast
    show ?thesis
    proof (cases "m = n")
      case True
      have "write_loop k ?dev False (of_nat (n - m)) t = Some t" unfolding True by (subst write_loop.simps) simp
      then have "write_loop k ?dev False (of_nat n) s = Some t" using t(1) by (simp only:)
      then show ?thesis using t(2-8) True by blast
    next
      case no: False
      then have "m < n" using mm(2) by simp
      note R = touched_rest [OF m_def this]
      have i: "inop k (s\<lparr>u_base := x, u_offset := y\<rparr>) = inop k s" for x y by (simp add: inop_def)
      note T = file_step_fields [OF t(7), simplified]
      have tf: "u_offset t = off_at (p + m)" "u_base t = u_base s + of_nat m" "u_sysio t = u_sysio s" "upages t = upages s"
          "sysbuf t = sysbuf s" "umem t = umem s" by (rule T)+
      have gm: "getmode k t = getmode k s" "c_dev (inop k t) = ?dev" using T by (simp_all add: i getmode_def)
      have "reach t ((p + m) mod 512) (u_base t) (n - m)"
      proof -
        have e: "(p mod 512 + m) mod 512 = 0" using R(2) by (simp add: mod_simps)
        show ?thesis unfolding R(2) tf(2)
          using reach_rest [OF less.prems(6) \<open>m < n\<close> e] reach_cong [of t s] tf by simp
      qed
      moreover have "n - m < n" "p + m + (n - m) < 33554432" "n - m < 32768" "3 * touched (p + m) (n - m) \<le> length ys"
        using mm less.prems(4,5,7) R(1) t(2,3) by auto
      ultimately obtain v nw zs where
        v: "write_loop k ?dev False (of_nat (n - m)) t = Some v" "ys = nw @ zs" "file_ok k zs v" "u_error v = u_error t"
          "\<forall>j < 33554432. fbyte k v j = overwrite (p + m) (fetch t (u_base t) (n - m)) (fbyte k t) j"
          "file_step k (t\<lparr>u_base := u_base t + of_nat (n - m), u_offset := off_at (p + m + (n - m))\<rparr>) v" "grown_file k t v nw"
        using less.IH [of "n - m" ys t "p + m"] t(4) tf(1) gm less.prems(2) by auto
      let ?xs = "fetch s (u_base s) m" and ?ys = "fetch t (u_base t) (n - m)"
      have lx: "length ?xs = m" using length_fetch [OF reach_first [OF less.prems(6) m_def]] by simp
      have fa: "?xs @ ?ys = fetch s (u_base s) n"
      proof (cases "u_sysio s")
        case True
        then have "unat (u_base s + of_nat m) = unat (u_base s) + m" using less.prems(6) mm(2) by (simp add: reach_def unat_add_u16)
        then show ?thesis using True mm(2) take_add [of m "n - m" "drop (unat (u_base s)) (sysbuf s)"]
          by (simp add: fetch_def tf add.commute)
      next
        case False
        have "dma_get w a m @ dma_get w (a + of_nat m) (n - m) = dma_get w a n" for w and a :: u16
          using mm(2) by (intro nth_equalityI) (auto simp: dma_get_def nth_append of_nat_diff)
        then show ?thesis using False by (simp add: fetch_def tf)
      qed
      have "fbyte k v j = overwrite p (fetch s (u_base s) n) (fbyte k s) j" if "j < 33554432" for j
      proof -
        have "fbyte k v j = overwrite (p + length ?xs) ?ys (overwrite p ?xs (fbyte k s)) j"
          using v(5) t(6) that by (simp add: lx) (simp add: overwrite_def)
        then show ?thesis unfolding overwrite_append fa .
      qed
      moreover have nm: "p + m + (n - m) = p + n" "of_nat m + of_nat (n - m) = (of_nat n :: u16)" using mm(2) by (simp_all add: of_nat_diff)
      have "file_step k (s\<lparr>u_base := u_base s + of_nat n, u_offset := off_at (p + n)\<rparr>) v"
        using file_step_trans [OF file_step_place [OF t(7)] v(6)] mm(2) by (simp add: tf(2) nm add.assoc)
      ultimately show ?thesis using t(1,2,5) v(1-4) grown_file_trans [OF t(8) v(7)]
        by (intro exI [of _ v] exI [of _ "new @ nw"] exI [of _ zs]) simp
    qed
  qed
qed

end
