(* ===== verification/FileIO.thy ===== *)
theory FileIO
  imports FileWrite Sample
begin

section \<open>Reading and writing a file\<close>

text \<open>
  The calls \<^verbatim>\<open>readi\<close> and \<^verbatim>\<open>writei\<close> on a regular file or a directory, as operations on the bytes of the file and the
  memory of the caller.
\<close>

subsection \<open>The size of the file\<close>

lemma grow_size_law:
  assumes "i_size (c_node (inop k s)) = off_at z" "u_offset s = off_at e" "z < 33554432" "e < 33554432" "k < length (i_tab s)"
  shows "i_size (c_node (inop k (grow_size k s))) = off_at (max z e)" "file_addr k (grow_size k s) = file_addr k s"
    "c_dev (inop k (grow_size k s)) = c_dev (inop k s)" "l \<noteq> k \<Longrightarrow> inop l (grow_size k s) = inop l s"
    "same_pool s (grow_size k s)" "fs_tab (grow_size k s) = fs_tab s" "length (i_tab (grow_size k s)) = length (i_tab s)"
    "u_error (grow_size k s) = u_error s" "u_count (grow_size k s) = u_count s" "u_offset (grow_size k s) = u_offset s"
    "u_sysio (grow_size k s) = u_sysio s" "upages (grow_size k s) = upages s" "sysbuf (grow_size k s) = sysbuf s"
    "umem (grow_size k s) = umem s" "of_tab (grow_size k s) = of_tab s" "u_files (grow_size k s) = u_files s" "u_argn2 (grow_size k s) = u_argn2 s"
    "getmode k (grow_size k s) = getmode k s" "c_magic (inop k (grow_size k s)) = c_magic (inop k s)"
proof -
  note Z = off_at_fields [OF assms(3)] and E = off_at_fields [OF assms(4)]
  have "sint x = int (unat x)" if "unat x < 512" for x :: u16
  proof -
    have u: "uint x = int (unat x)" by simp
    then have "uint x < 32768" using that by linarith
    then show ?thesis using u by (simp only: sint_cases16 if_True)
  qed
  then have o: "sint (o_offset (off_at z)) = int (z mod 512)" "sint (o_offset (off_at e)) = int (e mod 512)" unfolding Z(2) [symmetric] E(2) [symmetric] by (simp_all only: Z(2) E(2) mod_less_divisor zero_less_numeral)
  have "z = 512 * (z div 512) + z mod 512" "e = 512 * (e div 512) + e mod 512" by simp_all
  then have "z < e \<longleftrightarrow> z div 512 < e div 512 \<or> z div 512 = e div 512 \<and> z mod 512 < e mod 512"
    using mod_less_divisor [of 512 z] mod_less_divisor [of 512 e] by linarith
  then have c: "(o_blkno (off_at e) > o_blkno (off_at z) \<or> o_blkno (off_at e) = o_blkno (off_at z) \<and>
      sint (o_offset (off_at e)) > sint (o_offset (off_at z))) = (z < e)"
    using Z(1) E(1) unfolding o by (auto simp: word_less_nat_alt word_unat_eq_iff)
  have g: "grow_size k s = (if z < e then upd_ino k (\<lambda>c. c\<lparr>c_dirty := 1\<rparr>) (upd_node k (\<lambda>n. n\<lparr>i_size := off_at e\<rparr>) s) else s)"
    unfolding grow_size_def Let_def assms(1,2) c ..
  show "i_size (c_node (inop k (grow_size k s))) = off_at (max z e)"
    using assms(1,5) by (simp add: g max_def inop_def upd_ino_def upd_node_def)
  show "file_addr k (grow_size k s) = file_addr k s" "c_dev (inop k (grow_size k s)) = c_dev (inop k s)"
    "getmode k (grow_size k s) = getmode k s" "c_magic (inop k (grow_size k s)) = c_magic (inop k s)"
    "l \<noteq> k \<Longrightarrow> inop l (grow_size k s) = inop l s"
    using assms(5) by (auto simp: g getmode_def inop_def upd_ino_def upd_node_def)
  show "same_pool s (grow_size k s)" "fs_tab (grow_size k s) = fs_tab s" "length (i_tab (grow_size k s)) = length (i_tab s)"
    "u_error (grow_size k s) = u_error s" "u_count (grow_size k s) = u_count s" "u_offset (grow_size k s) = u_offset s"
    "u_sysio (grow_size k s) = u_sysio s" "upages (grow_size k s) = upages s" "sysbuf (grow_size k s) = sysbuf s"
    "umem (grow_size k s) = umem s" "of_tab (grow_size k s) = of_tab s" "u_files (grow_size k s) = u_files s" "u_argn2 (grow_size k s) = u_argn2 s"
    by (simp_all add: g same_pool_def upd_ino_def upd_node_def)
qed

lemma same_file:
  assumes "same_pool s t" "file_addr k t = file_addr k s" "c_dev (inop k t) = c_dev (inop k s)"
  shows "fbyte k t = fbyte k s" "grown_file k s t []" "fs_tab t = fs_tab s \<Longrightarrow> length (i_tab t) = length (i_tab s) \<Longrightarrow> file_ok k xs t = file_ok k xs s"
proof -
  note V = same_pool_views [OF assms(1)]
  show "fbyte k t = fbyte k s" by (simp add: fbyte_def [abs_def] block_of_def V(1) assms)
  show "grown_file k s t []" by (simp add: grown_file_def V(1) assms)
  show "fs_tab t = fs_tab s \<Longrightarrow> length (i_tab t) = length (i_tab s) \<Longrightarrow> file_ok k xs t = file_ok k xs s"
    by (simp add: file_ok_def fs_ok_def fsp_def V(1,3) assms)
qed

lemma unchanged_file:
  assumes i: "inop l t = inop l s" and W: "\<forall>a \<in> set (file_nodes (file_disk l s) (file_addr l s)). file_disk l t a = file_disk l s a"
  shows "fbyte l t = fbyte l s"
proof -
  let ?V = "file_disk l s" and ?W = "file_disk l t" and ?A = "file_addr l s"
  have F: "file_ptr ?W ?A n = file_ptr ?V ?A n" for n by (rule file_cong(2)) (use W in blast)
  have "content ?W (file_ptr ?V ?A n) = content ?V (file_ptr ?V ?A n)" for n
    using W file_ptr_node [of ?V ?A n] by (auto simp: content_def)
  then have "block_of l t n = block_of l s n" for n unfolding block_of_def using F i by simp
  then show ?thesis by (simp add: fbyte_def [abs_def])
qed

lemma other_file:
  assumes g: "grown_file k s t new" and i: "inop l t = inop l s" and d: "c_dev (inop l s) = c_dev (inop k s)" "c_dev (inop k t) = c_dev (inop k s)"
    and dj: "set (file_nodes (file_disk l s) (file_addr l s)) \<inter> (set (file_nodes (file_disk k s) (file_addr k s)) \<union> set new) = {}"
  shows "fbyte l t = fbyte l s"
proof (intro unchanged_file [OF i] ballI)
  fix a assume "a \<in> set (file_nodes (file_disk l s) (file_addr l s))"
  then have "a \<notin> set (file_nodes (file_disk k s) (file_addr k s)) \<union> set new" using dj by blast
  then have "file_disk k t a = file_disk k s a" using g by (simp only: grown_file_def) blast
  then show "file_disk l t a = file_disk l s a" by (simp only: i d)
qed

lemma writei_law:
  fixes s :: kst and p z n :: nat
  defines "n \<equiv> unat (u_count s)"
  assumes ok: "file_ok k xs s" and m: "getmode k s = F_REG \<or> getmode k s = F_DIR" and p: "u_offset s = off_at p" "p + n < 33554432"
    and z: "i_size (c_node (inop k s)) = off_at z" "z < 33554432" and n: "n < 32768"
    and r: "reach s (p mod 512) (u_base s) n" and len: "3 * touched p n \<le> length xs"
  shows "\<exists>t new ys. writei swp k s = Some t \<and> xs = new @ ys \<and> file_ok k ys t \<and> grown_file k s t new \<and>
    (\<forall>j < 33554432. fbyte k t j = overwrite p (fetch s (u_base s) n) (fbyte k s) j) \<and> (\<forall>l. l \<noteq> k \<longrightarrow> inop l t = inop l s) \<and>
    u_error t = u_error s \<and> u_count t = u_count s \<and> u_offset t = off_at (p + n) \<and> i_size (c_node (inop k t)) = off_at (max z (p + n)) \<and>
    c_dev (inop k t) = c_dev (inop k s) \<and> umem t = umem s \<and> upages t = upages s \<and>
    of_tab t = of_tab s \<and> u_files t = u_files s \<and> u_argn2 t = u_argn2 s \<and>
    getmode k t = getmode k s \<and> c_magic (inop k t) = c_magic (inop k s)"
proof -
  have nb: "getmode k s \<noteq> F_BDEV" using m by (auto simp: F_REG_def F_DIR_def F_BDEV_def)
  have c: "(of_nat n :: u16) = u_count s" by (simp add: n_def)
  from write_loop_law [OF ok nb p n r len] obtain t new ys where
    t: "write_loop k (c_dev (inop k s)) False (u_count s) s = Some t" "xs = new @ ys" "file_ok k ys t" "u_error t = u_error s"
      "\<forall>j < 33554432. fbyte k t j = overwrite p (fetch s (u_base s) n) (fbyte k s) j" "grown_file k s t new"
      "file_step k (s\<lparr>u_base := u_base s + of_nat n, u_offset := off_at (p + n)\<rparr>) t" unfolding c by blast
  have i: "inop l (s\<lparr>u_base := x, u_offset := y\<rparr>) = inop l s" for x y l by (simp add: inop_def)
  note T = file_step_fields [OF t(7), simplified]
  have T': "u_count t = u_count s" "u_offset t = off_at (p + n)" "u_sysio t = u_sysio s" "upages t = upages s" "sysbuf t = sysbuf s"
    "umem t = umem s" "c_dev (inop k t) = c_dev (inop k s)" "i_size (c_node (inop k t)) = off_at z" "of_tab t = of_tab s"
    "u_files t = u_files s" "u_argn2 t = u_argn2 s" "getmode k t = getmode k s"
    using T z(1) by (simp_all add: i getmode_def)
  have it: "inop l t = inop l s \<or> l = k" "c_magic (inop k t) = c_magic (inop k s)" for l
  proof -
    from t(7) obtain A d where I: "i_tab t = (i_tab s)[k := (inop k (s\<lparr>u_base := u_base s + of_nat n, u_offset := off_at (p + n)\<rparr>))
        \<lparr>c_node := (c_node (inop k (s\<lparr>u_base := u_base s + of_nat n, u_offset := off_at (p + n)\<rparr>)))\<lparr>i_addr := A\<rparr>, c_dirty := d\<rparr>]"
      by (rule file_step_obtain) simp
    show "inop l t = inop l s \<or> l = k" unfolding inop_def I by (cases "l = k") (simp_all add: nth_list_update)
    show "c_magic (inop k t) = c_magic (inop k s)"
      unfolding inop_def I by (cases "k < length (i_tab s)") (simp_all add: list_update_beyond inop_def)
  qed
  have kl: "k < length (i_tab t)" using t(3) by (simp add: file_ok_def)
  note G = grow_size_law [OF T'(8,2) z(2) p(2) kl]
  let ?u = "grow_size k t"
  note S = same_file [OF G(5,2,3)]
  have "getmode k s = F_BDEV \<or> getmode k s = F_DIR \<or> getmode k s = F_REG" using m by blast
  then have "writei swp k s = Some ?u" unfolding writei_def Let_def by (simp only: if_True if_not_P [OF nb] t(1) bind.bind_lunit)
  moreover have "file_ok k ys ?u" using S(3) [OF G(6,7)] t(3) by simp
  moreover have "grown_file k s ?u new" using grown_file_trans [OF t(6) S(2)] by simp
  moreover have "u_error ?u = u_error s" "u_count ?u = u_count s" "u_offset ?u = off_at (p + n)" "c_dev (inop k ?u) = c_dev (inop k s)"
    "upages ?u = upages s" "umem ?u = umem s" "of_tab ?u = of_tab s" "u_files ?u = u_files s" "u_argn2 ?u = u_argn2 s"
    "getmode k ?u = getmode k s" "c_magic (inop k ?u) = c_magic (inop k s)"
    using G T' t(4) it(2) by simp_all
  moreover have "\<forall>l. l \<noteq> k \<longrightarrow> inop l ?u = inop l s" using G(4) it(1) by metis
  moreover have "\<forall>j < 33554432. fbyte k ?u j = overwrite p (fetch s (u_base s) n) (fbyte k s) j" using t(5) by (simp only: S(1))
  ultimately show ?thesis using t(2) G(1) by (intro exI [of _ ?u] exI [of _ new] exI [of _ ys] conjI)
qed

subsection \<open>The calls on an open file\<close>

text \<open>The descriptor \<open>fd\<close> is open, for reading or for writing, on a file or a directory in the entry \<open>k\<close> of the inode table.\<close>

definition oft_of :: "nat \<Rightarrow> kst \<Rightarrow> nat" where
  "oft_of fd s = unat (u_files s ! fd)"

definition opened :: "nat \<Rightarrow> nat \<Rightarrow> bool \<Rightarrow> kst \<Rightarrow> bool" where
  "opened fd k rd s \<longleftrightarrow> fd < 22 \<and> u_files s ! fd AND 0x80 = 0 \<and> oft_of fd s < 45 \<and> length (of_tab s) = 45 \<and>
     o_inode (oftp (oft_of fd s) s) = Some k \<and> o_access (oftp (oft_of fd s) s) \<noteq> (if rd then 1 else 0) \<and>
     k < 45 \<and> k < length (i_tab s) \<and> c_magic (inop k s) = CMAGIC \<and> (getmode k s = F_REG \<or> getmode k s = F_DIR)"

lemma setftime_fields:
  assumes "k < length (i_tab s)"
  shows "file_addr k (setftime k fl s) = file_addr k s" "c_dev (inop k (setftime k fl s)) = c_dev (inop k s)"
    "i_size (c_node (inop k (setftime k fl s))) = i_size (c_node (inop k s))" "getmode k (setftime k fl s) = getmode k s"
    "c_magic (inop k (setftime k fl s)) = c_magic (inop k s)" "l \<noteq> k \<Longrightarrow> inop l (setftime k fl s) = inop l s"
    "same_pool s (setftime k fl s)" "fs_tab (setftime k fl s) = fs_tab s" "length (i_tab (setftime k fl s)) = length (i_tab s)"
    "of_tab (setftime k fl s) = of_tab s" "u_files (setftime k fl s) = u_files s" "u_sysio (setftime k fl s) = u_sysio s"
    "u_base (setftime k fl s) = u_base s" "u_count (setftime k fl s) = u_count s" "umem (setftime k fl s) = umem s"
    "upages (setftime k fl s) = upages s" "u_argn2 (setftime k fl s) = u_argn2 s" "u_error (setftime k fl s) = u_error s"
  using assms by (auto simp: setftime_def Let_def getmode_def inop_def upd_ino_def upd_node_def same_pool_def)

lemma rwsetup_law:
  assumes o: "opened fd k rd s" and fd: "u_argn2 s = of_nat fd"
  shows "\<exists>t. rwsetup rd s = Some (Some k, t) \<and> file_addr k t = file_addr k s \<and> c_dev (inop k t) = c_dev (inop k s) \<and>
    i_size (c_node (inop k t)) = i_size (c_node (inop k s)) \<and> getmode k t = getmode k s \<and> c_magic (inop k t) = c_magic (inop k s) \<and>
    (\<forall>l. l \<noteq> k \<longrightarrow> inop l t = inop l s) \<and> same_pool s t \<and> fs_tab t = fs_tab s \<and> length (i_tab t) = length (i_tab s) \<and>
    of_tab t = of_tab s \<and> u_files t = u_files s \<and> \<not> u_sysio t \<and> u_base t = u_argn1 s \<and> u_count t = u_argn s \<and> umem t = umem s \<and>
    upages t = upages s \<and> u_argn2 t = u_argn2 s \<and> u_error t = u_error s \<and> u_offset t = o_ptr (oftp (oft_of fd s) s)"
proof -
  let ?s = "s\<lparr>u_sysio := False, u_base := u_argn1 s, u_count := u_argn s\<rparr>"
  let ?t = "(setftime k (if rd then A_TIME else A_TIME OR M_TIME OR C_TIME) ?s)\<lparr>u_offset := o_ptr (oftp (oft_of fd s) s)\<rparr>"
  note O = o [unfolded opened_def]
  have "fd < 22" using O by blast
  then have u: "unat (u_argn2 s) = fd" "sint (u_argn2 s) = int fd"
  proof -
    show "unat (u_argn2 s) = fd" unfolding fd using \<open>fd < 22\<close> by (intro unat_of_small) simp
    moreover have "uint (u_argn2 s) = int (unat (u_argn2 s))" by simp
    ultimately have "uint (u_argn2 s) = int fd" by (simp only:)
    then show "sint (u_argn2 s) = int fd" using \<open>fd < 22\<close> by (simp only: sint_cases16) simp
  qed
  have g: "getinode (int fd) ?s = Some (Some k, ?s)"
    using O by (simp add: getinode_def Let_def oft_of_def oftp_def magic_def inop_def)
  have "rwsetup rd s = Some (Some k, ?t)"
    unfolding rwsetup_def Let_def
    using O by (simp add: u g oft_of_def oftp_def)
  moreover have i: "inop l ?s = inop l s" "getmode l ?s = getmode l s" for l by (simp_all add: inop_def getmode_def)
  have kl: "k < length (i_tab ?s)" using O by simp
  have t: "inop l ?t = inop l (setftime k (if rd then A_TIME else A_TIME OR M_TIME OR C_TIME) ?s)"
     "getmode l ?t = getmode l (setftime k (if rd then A_TIME else A_TIME OR M_TIME OR C_TIME) ?s)" for l by (simp_all add: inop_def getmode_def)
  note F = setftime_fields [OF kl, where fl = "if rd then A_TIME else A_TIME OR M_TIME OR C_TIME"]
  moreover have "same_pool s ?t" using F(7) by (simp add: same_pool_def)
  ultimately show ?thesis by (intro exI [of _ ?t]) (simp add: t i F)
qed

lemma updoff_law:
  assumes "opened fd k rd s" "u_argn2 t = of_nat fd" "u_files t = u_files s" "of_tab t = of_tab s"
  shows "o_ptr (oftp (oft_of fd s) (updoff t)) = u_offset t" "same_pool t (updoff t)" "i_tab (updoff t) = i_tab t"
    "fs_tab (updoff t) = fs_tab t" "u_count (updoff t) = u_count t" "umem (updoff t) = umem t" "u_error (updoff t) = u_error t"
    "upages (updoff t) = upages t" "u_files (updoff t) = u_files t"
    "f \<noteq> oft_of fd s \<Longrightarrow> oftp f (updoff t) = oftp f s" "length (of_tab (updoff t)) = 45"
    "o_inode (oftp f (updoff t)) = o_inode (oftp f s)" "o_access (oftp f (updoff t)) = o_access (oftp f s)"
proof -
  have "fd < 22" using assms(1) by (simp add: opened_def)
  then have "unat (u_argn2 t) = fd" unfolding assms(2) by (intro unat_of_small) simp
  then have u: "updoff t = t\<lparr>of_tab := (of_tab s)[oft_of fd s := (of_tab s ! oft_of fd s)\<lparr>o_ptr := u_offset t\<rparr>]\<rparr>"
    using assms(3,4) by (simp add: updoff_def upd_oft_def oft_of_def)
  have l: "oft_of fd s < length (of_tab s)" "length (of_tab s) = 45" using assms(1) by (simp_all add: opened_def)
  show "o_ptr (oftp (oft_of fd s) (updoff t)) = u_offset t" "same_pool t (updoff t)" "i_tab (updoff t) = i_tab t"
    "fs_tab (updoff t) = fs_tab t" "u_count (updoff t) = u_count t" "umem (updoff t) = umem t" "u_error (updoff t) = u_error t"
    "upages (updoff t) = upages t" "u_files (updoff t) = u_files t"
    "f \<noteq> oft_of fd s \<Longrightarrow> oftp f (updoff t) = oftp f s" "length (of_tab (updoff t)) = 45"
    "o_inode (oftp f (updoff t)) = o_inode (oftp f s)" "o_access (oftp f (updoff t)) = o_access (oftp f s)"
    using l by (simp_all add: u oftp_def same_pool_def nth_list_update)
qed

text \<open>A transfer through the memory of the process.\<close>

definition user_reach :: "kst \<Rightarrow> nat \<Rightarrow> u16 \<Rightarrow> nat \<Rightarrow> bool" where
  "user_reach s p a n \<longleftrightarrow> unat a + n < 65536 \<and> (\<forall>i < n. legal s (a + of_nat i)) \<and>
     (\<forall>j \<in> {1..n}. (p + j) mod 512 = 0 \<or> j = n \<longrightarrow> (unat a + j) mod 8192 \<noteq> 0)"

lemma user_reach_reach:
  assumes "user_reach s p a n" "\<not> u_sysio t" "upages t = upages s"
  shows "reach t (p mod 512) a n"
proof -
  have "(p mod 512 + j) mod 512 = (p + j) mod 512" for j by (simp add: mod_simps)
  then show ?thesis using assms by (simp add: reach_def user_reach_def legal_def)
qed

lemma sys_write_law:
  fixes s :: kst and p z n :: nat
  defines "n \<equiv> unat (u_argn s)"
  assumes o: "opened fd k False s" and fd: "u_argn2 s = of_nat fd" and ok: "file_ok k xs s"
    and p: "o_ptr (oftp (oft_of fd s) s) = off_at p" "p + n < 33554432"
    and z: "i_size (c_node (inop k s)) = off_at z" "z < 33554432" and n: "n < 32768"
    and r: "user_reach s p (u_argn1 s) n" and len: "3 * touched p n \<le> length xs"
  shows "\<exists>t new ys. sys_write swp s = Some (u_argn s, t) \<and> xs = new @ ys \<and> file_ok k ys t \<and> grown_file k s t new \<and>
    (\<forall>j < 33554432. fbyte k t j = overwrite p (dma_get (umem s) (u_argn1 s) n) (fbyte k s) j) \<and>
    (\<forall>l. l \<noteq> k \<longrightarrow> inop l t = inop l s) \<and> c_dev (inop k t) = c_dev (inop k s) \<and>
    i_size (c_node (inop k t)) = off_at (max z (p + n)) \<and> o_ptr (oftp (oft_of fd s) t) = off_at (p + n) \<and>
    u_error t = u_error s \<and> umem t = umem s \<and> upages t = upages s \<and> (\<forall>rd. opened fd k rd s \<longrightarrow> opened fd k rd t) \<and> oft_of fd t = oft_of fd s"
proof -
  from rwsetup_law [OF o fd] obtain u where
    u: "rwsetup False s = Some (Some k, u)" "file_addr k u = file_addr k s" "c_dev (inop k u) = c_dev (inop k s)"
      "i_size (c_node (inop k u)) = i_size (c_node (inop k s))" "getmode k u = getmode k s"
      "\<forall>l. l \<noteq> k \<longrightarrow> inop l u = inop l s" "same_pool s u" "fs_tab u = fs_tab s" "length (i_tab u) = length (i_tab s)"
      "of_tab u = of_tab s" "u_files u = u_files s" "\<not> u_sysio u" "u_base u = u_argn1 s" "u_count u = u_argn s" "umem u = umem s"
      "upages u = upages s" "u_argn2 u = u_argn2 s" "u_error u = u_error s" "u_offset u = o_ptr (oftp (oft_of fd s) s)" "c_magic (inop k u) = c_magic (inop k s)" by blast
  note S = same_file [OF u(7,2,3)]
  have oku: "file_ok k xs u" using S(3) [OF u(8,9)] ok by simp
  have m: "getmode k u = F_REG \<or> getmode k u = F_DIR" using o u(5) by (simp add: opened_def)
  have c: "unat (u_count u) = n" using u(14) by (simp add: n_def)
  have ru: "reach u (p mod 512) (u_base u) (unat (u_count u))" using user_reach_reach [OF r u(12,16)] by (simp add: u(13) c)
  have pu: "u_offset u = off_at p" "i_size (c_node (inop k u)) = off_at z" "p + unat (u_count u) < 33554432" "unat (u_count u) < 32768"
    "3 * touched p (unat (u_count u)) \<le> length xs" using p z n len u(4,19) by (simp_all only: c)
  from writei_law [OF oku m pu(1,3,2) z(2) pu(4) ru pu(5), of swp] obtain t new ys where
    t: "writei swp k u = Some t" "xs = new @ ys" "file_ok k ys t" "grown_file k u t new"
      "\<forall>j < 33554432. fbyte k t j = overwrite p (fetch u (u_base u) n) (fbyte k u) j" "\<forall>l. l \<noteq> k \<longrightarrow> inop l t = inop l u"
      "u_error t = u_error u" "u_count t = u_count u" "u_offset t = off_at (p + n)" "i_size (c_node (inop k t)) = off_at (max z (p + n))"
      "c_dev (inop k t) = c_dev (inop k u)" "umem t = umem u" "upages t = upages u" "of_tab t = of_tab u" "u_files t = u_files u"
      "u_argn2 t = u_argn2 u" "getmode k t = getmode k u" "c_magic (inop k t) = c_magic (inop k u)" unfolding c by blast
  have "u_argn2 t = of_nat fd" "u_files t = u_files s" "of_tab t = of_tab s" using t(14-16) u(10,11,17) fd by simp_all
  note U = updoff_law [OF o this]
  have iv: "inop l (updoff t) = inop l t" for l by (simp add: inop_def U(3))
  have "sys_write swp s = Some (u_argn s, updoff t)" by (simp add: sys_write_def u(1,14) t(1,8) U(5) Let_def)
  moreover have sf: "fbyte k (updoff t) = fbyte k t" "grown_file k t (updoff t) []" "file_ok k ys (updoff t) = file_ok k ys t"
    using same_file [OF U(2), where k = k] U(3,4) by (simp_all add: iv)
  have "grown_file k s (updoff t) new"
    using grown_file_trans [OF grown_file_trans [OF S(2) t(4)] sf(2)] by simp
  moreover have "fetch u (u_base u) n = dma_get (umem s) (u_argn1 s) n" by (simp add: fetch_def u)
  moreover have "oft_of fd (updoff t) = oft_of fd s" using U(9) t(15) u(11) by (simp add: oft_of_def)
  moreover have "opened fd k rd (updoff t)" if "opened fd k rd s" for rd
    using that U(9,11-13) t(3,15,17,18) u(5,11,20) iv by (simp add: opened_def oft_of_def getmode_def file_ok_def U(3))
  ultimately show ?thesis using t(2,3,5-7,9-13) u(3,6,15,16,18) U(1,6-8)
    by (intro exI [of _ "updoff t"] exI [of _ new] exI [of _ ys]) (simp add: sf iv S(1))
qed

lemma deliver_open_fields [simp]:
  "of_tab (deliver bs a s) = of_tab s" "u_files (deliver bs a s) = u_files s" "u_argn2 (deliver bs a s) = u_argn2 s"
  "\<not> u_sysio s \<Longrightarrow> umem (deliver bs a s) = dma_put a bs (umem s)"
  by (simp_all add: deliver_def)

lemma sys_read_law:
  fixes s :: kst and p z :: nat
  defines "n \<equiv> min (unat (u_argn s)) (z - p)"
  assumes o: "opened fd k True s" and fd: "u_argn2 s = of_nat fd" and ok: "file_ok k xs s"
    and p: "o_ptr (oftp (oft_of fd s) s) = off_at p" "p \<le> z"
    and z: "i_size (c_node (inop k s)) = off_at z" "z < 33554432" and c: "unat (u_argn s) \<le> 32257"
    and r: "user_reach s p (u_argn1 s) n"
  shows "\<exists>t. sys_read swp s = Some (of_nat n, t) \<and> file_ok k xs t \<and> fbyte k t = fbyte k s \<and> same_views s t \<and>
    (\<forall>l. l \<noteq> k \<longrightarrow> inop l t = inop l s) \<and> i_size (c_node (inop k t)) = off_at z \<and>
    o_ptr (oftp (oft_of fd s) t) = off_at (p + n) \<and> umem t = dma_put (u_argn1 s) (map (fbyte k s) [p..<p + n]) (umem s)"
proof -
  from rwsetup_law [OF o fd] obtain u where
    u: "rwsetup True s = Some (Some k, u)" "file_addr k u = file_addr k s" "c_dev (inop k u) = c_dev (inop k s)"
      "i_size (c_node (inop k u)) = i_size (c_node (inop k s))" "getmode k u = getmode k s"
      "\<forall>l. l \<noteq> k \<longrightarrow> inop l u = inop l s" "same_pool s u" "fs_tab u = fs_tab s" "length (i_tab u) = length (i_tab s)"
      "of_tab u = of_tab s" "u_files u = u_files s" "\<not> u_sysio u" "u_base u = u_argn1 s" "u_count u = u_argn s" "umem u = umem s"
      "upages u = upages s" "u_argn2 u = u_argn2 s" "u_error u = u_error s" "u_offset u = o_ptr (oftp (oft_of fd s) s)" "c_magic (inop k u) = c_magic (inop k s)" by blast
  note S = same_file [OF u(7,2,3)]
  have oku: "file_ok k xs u" using S(3) [OF u(8,9)] ok by simp
  have m: "getmode k u = F_REG \<or> getmode k u = F_DIR" using o u(5) by (simp add: opened_def)
  have c': "min (unat (u_count u)) (z - p) = n" by (simp add: u(14) n_def)
  have ru: "reach u (p mod 512) (u_base u) (min (unat (u_count u)) (z - p))" using user_reach_reach [OF r u(12,16)] by (simp add: u(13) c')
  have pu: "u_offset u = off_at p" "i_size (c_node (inop k u)) = off_at z" "unat (u_count u) \<le> 32257"
    using p z c by (simp_all only: u(4,14,19))
  from readi_law [OF oku m pu(1) p(2) pu(2) z(2) pu(3) ru, of swp] obtain t where
    t: "readi swp k u = Some t" "quiet t" "same_views u t"
      "same_rest ((deliver (map (fbyte k u) [p..<p + n]) (u_base u) u)
        \<lparr>u_count := of_nat n, u_base := u_base u + of_nat n, u_offset := off_at (p + n)\<rparr>) t" unfolding c' by blast
  note R = same_rest_kst [OF t(4)]
  have tf: "i_tab t = i_tab u" "fs_tab t = fs_tab u" "of_tab t = of_tab u" "u_files t = u_files u" "u_argn2 t = u_argn2 u"
    "u_count t = of_nat n" "u_offset t = off_at (p + n)" by (simp_all add: R)
  have um: "umem t = dma_put (u_argn1 s) (map (fbyte k s) [p..<p + n]) (umem s)"
    by (simp add: R u S(1))
  have "u_argn2 t = of_nat fd" "u_files t = u_files s" "of_tab t = of_tab s" using tf(3-5) u(10,11,17) fd by simp_all
  note U = updoff_law [OF o this]
  have iv: "inop l (updoff t) = inop l u" for l by (simp add: inop_def U(3) tf(1))
  have "sys_read swp s = Some (of_nat n, updoff t)" by (simp add: sys_read_def u(1) t(1) U(5) tf(6) Let_def)
  moreover have bt: "bview (updoff t) = bview t" and qt: "quiet (updoff t) = quiet t" by (rule same_pool_views [OF U(2)])+
  have vs: "same_views u (updoff t)" using t(3) by (simp add: same_views_def bt)
  have d: "disk_dev (c_dev (inop k u))" using oku fs_okD(1) by (auto simp: file_ok_def)
  have "file_ok k xs (updoff t)" using file_ok_views [OF oku _ vs] qt t(2) U(3,4) tf by simp
  moreover have "fbyte k (updoff t) = fbyte k s" using file_views(2) [OF vs _ d] U(3) tf(1) S(1) by simp
  moreover have "same_views s (updoff t)" using vs same_pool_views(1) [OF u(7)] by (simp add: same_views_def)
  ultimately show ?thesis using u(6) pu(2) U(1,6) tf(7) um by (intro exI [of _ "updoff t"]) (simp add: iv)
qed

subsection \<open>Properties\<close>

text \<open>C7: \<^verbatim>\<open>write\<close> on an open file replaces the bytes at the pointer by the bytes of the caller's buffer, takes the blocks that it needs
  from the front of the free stack, moves the pointer behind them, extends the size when the file ends before, and touches no other file
  and not the memory.\<close>

theorem write_overwrites_file:
  fixes s :: kst and p z n :: nat
  defines "n \<equiv> unat (u_argn s)"
  assumes "opened fd k False s" "u_argn2 s = of_nat fd" "file_ok k xs s"
    "o_ptr (oftp (oft_of fd s) s) = off_at p" "p + n < 33554432" "i_size (c_node (inop k s)) = off_at z" "z < 33554432" "n < 32768"
    "user_reach s p (u_argn1 s) n" "3 * touched p n \<le> length xs"
  shows "\<exists>t new ys. sys_write swp s = Some (u_argn s, t) \<and> xs = new @ ys \<and> file_ok k ys t \<and> umem t = umem s \<and>
    (\<forall>j < 33554432. fbyte k t j = overwrite p (dma_get (umem s) (u_argn1 s) n) (fbyte k s) j) \<and>
    i_size (c_node (inop k t)) = off_at (max z (p + n)) \<and> o_ptr (oftp (oft_of fd s) t) = off_at (p + n) \<and> u_error t = u_error s \<and>
    (\<forall>l. l \<noteq> k \<and> c_dev (inop l s) = c_dev (inop k s) \<and>
       set (file_nodes (file_disk l s) (file_addr l s)) \<inter> (set (file_nodes (file_disk k s) (file_addr k s)) \<union> set xs) = {} \<longrightarrow>
       fbyte l t = fbyte l s)"
proof -
  from sys_write_law [OF assms(2-5) assms(6-11) [unfolded n_def], of swp] obtain t new ys where
    t: "sys_write swp s = Some (u_argn s, t)" "xs = new @ ys" "file_ok k ys t" "grown_file k s t new"
      "\<forall>j < 33554432. fbyte k t j = overwrite p (dma_get (umem s) (u_argn1 s) n) (fbyte k s) j"
      "\<forall>l. l \<noteq> k \<longrightarrow> inop l t = inop l s" "c_dev (inop k t) = c_dev (inop k s)"
      "i_size (c_node (inop k t)) = off_at (max z (p + n))" "o_ptr (oftp (oft_of fd s) t) = off_at (p + n)" "u_error t = u_error s" "umem t = umem s"
    unfolding n_def by blast
  have "fbyte l t = fbyte l s" if "l \<noteq> k" "c_dev (inop l s) = c_dev (inop k s)"
    "set (file_nodes (file_disk l s) (file_addr l s)) \<inter> (set (file_nodes (file_disk k s) (file_addr k s)) \<union> set xs) = {}" for l
    using other_file [OF t(4) _ that(2) t(7)] t(2,6) that(1,3) by auto
  then show ?thesis using t by blast
qed

text \<open>C10: \<^verbatim>\<open>read\<close> on an open file delivers the bytes from the pointer on, as many as asked for and at most those that are left of the file,
  into the caller's buffer and nowhere else, moves the pointer behind them and leaves every file as it was.\<close>

theorem read_delivers_file:
  fixes s :: kst and p z n :: nat
  defines "n \<equiv> min (unat (u_argn s)) (z - p)"
  assumes "opened fd k True s" "u_argn2 s = of_nat fd" "file_ok k xs s"
    "o_ptr (oftp (oft_of fd s) s) = off_at p" "p \<le> z" "i_size (c_node (inop k s)) = off_at z" "z < 33554432"
    "unat (u_argn s) \<le> 32257" "user_reach s p (u_argn1 s) n"
  shows "\<exists>t. sys_read swp s = Some (of_nat n, t) \<and> o_ptr (oftp (oft_of fd s) t) = off_at (p + n) \<and>
    umem t = dma_put (u_argn1 s) (map (fbyte k s) [p..<p + n]) (umem s) \<and> file_ok k xs t \<and>
    i_size (c_node (inop k t)) = off_at z \<and> fbyte k t = fbyte k s \<and> same_views s t"
  using sys_read_law [OF assms(2-9) assms(10) [unfolded n_def], of swp] unfolding n_def by blast

text \<open>The registers of a system call.\<close>

definition args :: "u16 \<Rightarrow> u16 \<Rightarrow> nat \<Rightarrow> kst \<Rightarrow> kst" where
  "args c b fd s = s\<lparr>u_argn := c, u_argn1 := b, u_argn2 := of_nat fd\<rparr>"

lemma args_fields [simp]:
  "u_argn (args c b fd s) = c" "u_argn1 (args c b fd s) = b" "u_argn2 (args c b fd s) = of_nat fd" "umem (args c b fd s) = umem s"
  "i_tab (args c b fd s) = i_tab s" "fs_tab (args c b fd s) = fs_tab s" "of_tab (args c b fd s) = of_tab s"
  "u_files (args c b fd s) = u_files s" "upages (args c b fd s) = upages s" "same_pool s (args c b fd s)"
  "oftp f (args c b fd s) = oftp f s" "oft_of g (args c b fd s) = oft_of g s" "inop k (args c b fd s) = inop k s"
  "opened g k rd (args c b fd s) = opened g k rd s" "user_reach (args c b fd s) p a n = user_reach s p a n"
  by (simp_all add: args_def same_pool_def oftp_def oft_of_def inop_def opened_def getmode_def user_reach_def legal_def)

lemma args_file [simp]: "fbyte k (args c b fd s) = fbyte k s" "file_ok k xs (args c b fd s) = file_ok k xs s"
  using same_file(1) [of s "args c b fd s" k] same_file(3) [of s "args c b fd s" k xs] by simp_all

lemma seek_to:
  assumes "opened fd k rd s" "p < 65536" "u_argn s = 0" "u_argn1 s = of_nat p" "u_argn2 s = of_nat fd"
  shows "\<exists>r. sys_seek s = Some (r, upd_oft (oft_of fd s) (\<lambda>f. f\<lparr>o_ptr := off_at p\<rparr>) s)"
proof -
  note O = assms(1) [unfolded opened_def]
  have "fd < 22" using O by blast
  then have u: "unat (u_argn2 s) = fd" "sint (u_argn2 s) = int fd"
  proof -
    show "unat (u_argn2 s) = fd" unfolding assms(5) using \<open>fd < 22\<close> by (intro unat_of_small) simp
    moreover have "uint (u_argn2 s) = int (unat (u_argn2 s))" by simp
    ultimately have "uint (u_argn2 s) = int fd" by (simp only:)
    then show "sint (u_argn2 s) = int fd" using \<open>fd < 22\<close> by (simp only: sint_cases16) simp
  qed
  have g: "getinode (int fd) s = Some (Some k, s)"
    using O by (simp add: getinode_def Let_def oft_of_def oftp_def magic_def inop_def)
  let ?q = "(o_ptr (oftp (oft_of fd s) s))\<lparr>o_blkno := 0, o_offset := of_nat p\<rparr>"
  have "uint (of_nat p :: u16) = int p" using assms(2) by (simp add: unsigned_of_nat take_bit_nat_eq_self)
  then have "pos ?q = int p" by (simp only: pos_def) simp
  then have "pos (norm_off ?q) = int p" using assms(2) by (simp only: norm_off_pos max_pos_def) simp
  then have n: "norm_off ?q = off_at p" using off_at_normal(1) [OF norm_off_normal, of ?q] by simp
  have "getmode k s \<noteq> F_PIPE" using O by (auto simp: F_REG_def F_DIR_def F_PIPE_def)
  then show ?thesis
    by (simp add: sys_seek_def u g assms(3,4) seek_ptr_def Let_def n oft_of_def [symmetric])
qed

text \<open>C9: what is written to a file at a position below 65536 is what a read at that position delivers, after the pointer has been set back
  by \<^verbatim>\<open>seek\<close>, into any other buffer of the process.\<close>

theorem write_seek_read_roundtrip:
  fixes s :: kst
  assumes o: "opened fd k False s" "opened fd k True s" and ok: "file_ok k xs s"
    and p: "o_ptr (oftp (oft_of fd s) s) = off_at p" "p < 65536" and z: "i_size (c_node (inop k s)) = off_at z" "z < 33554432"
    and n: "n \<le> 32257" and r: "user_reach s p a n" "user_reach s p b n" and len: "3 * touched p n \<le> length xs"
  shows "\<exists>t u v r. sys_write swp (args (of_nat n) a fd s) = Some (of_nat n, t) \<and> sys_seek (args 0 (of_nat p) fd t) = Some (r, u) \<and>
    sys_read swp (args (of_nat n) b fd u) = Some (of_nat n, v) \<and> dma_get (umem v) b n = dma_get (umem s) a n"
proof -
  have un: "unat (of_nat n :: u16) = n" using n by (intro unat_of_small) simp
  let ?s = "args (of_nat n) a fd s"
  have pn: "p + unat (u_argn ?s) < 33554432" "unat (u_argn ?s) < 32768" using n p(2) by (simp_all add: un)
  from sys_write_law [of fd k ?s xs p z swp] pn o(1) ok p(1) z r(1) len obtain t new ys where
    t: "sys_write swp ?s = Some (of_nat n, t)" "file_ok k ys t"
      "\<forall>j < 33554432. fbyte k t j = overwrite p (dma_get (umem s) a n) (fbyte k s) j"
      "i_size (c_node (inop k t)) = off_at (max z (p + n))" "umem t = umem s" "upages t = upages s"
      "\<forall>rd. opened fd k rd s \<longrightarrow> opened fd k rd t" "oft_of fd t = oft_of fd s"
    by (auto simp: un)
  let ?t = "args 0 (of_nat p) fd t"
  let ?u = "upd_oft (oft_of fd t) (\<lambda>f. f\<lparr>o_ptr := off_at p\<rparr>) ?t"
  have ot: "opened fd k True t" using t(7) o(2) by blast
  from seek_to [of fd k True ?t p] ot p(2) obtain q where q: "sys_seek ?t = Some (q, ?u)" by auto
  let ?r = "args (of_nat n) b fd ?u"
  have ft: "oft_of fd t < length (of_tab t)" using ot by (simp add: opened_def)
  have fu: "inop l ?u = inop l t" "oft_of g ?u = oft_of g t" "o_ptr (oftp (oft_of fd t) ?u) = off_at p" "umem ?u = umem t"
    "upages ?u = upages t" "fs_tab ?u = fs_tab t" "length (i_tab ?u) = length (i_tab t)" "same_pool t ?u" for l g
    using ft by (simp_all add: upd_oft_def oftp_def oft_of_def inop_def same_pool_def args_def)
  have ou: "opened fd k True ?u" using ot ft
    by (simp add: opened_def upd_oft_def oftp_def oft_of_def inop_def getmode_def args_def nth_list_update)
  have S: "fbyte k ?u = fbyte k t" "file_ok k ys ?u"
    using same_file(1) [OF fu(8), of k] same_file(3) [OF fu(8), of k ys] fu(1,6,7) t(2) by simp_all
  have z2: "max z (p + n) < 33554432" "p \<le> max z (p + n)" and mn: "min n (max z (p + n) - p) = n" using z n p(2) by auto
  have ur: "user_reach ?u p b n" using r(2) by (simp add: user_reach_def legal_def fu(5) t(6))
  from sys_read_law [of fd k ?r ys p "max z (p + n)" swp] ou S(2) z2 fu(1-3) t(4) n ur obtain v where
    v: "sys_read swp ?r = Some (of_nat n, v)" "umem v = dma_put b (map (fbyte k ?u) [p..<p + n]) (umem ?u)"
    by (auto simp: un mn)
  have "fbyte k t j = dma_get (umem s) a n ! (j - p)" if "p \<le> j" "j < p + n" for j
    using t(3) that n p(2) by (simp add: overwrite_def dma_get_def)
  then have "map (fbyte k ?u) [p..<p + n] = dma_get (umem s) a n"
    by (intro nth_equalityI) (simp_all add: S(1) dma_get_def)
  then have "dma_get (umem v) b n = dma_get (dma_put b (dma_get (umem s) a n) (umem t)) b n" by (simp add: v(2) fu(4))
  also have "\<dots> = dma_get (umem s) a n"
    using dma_put_below [of _ "dma_get (umem s) a n" b "umem t"] n by (auto simp: dma_get_def)
  finally show ?thesis using t(1) q v(1) by blast
qed

subsection \<open>Witnesses\<close>

text \<open>A file of three bytes in the block 20, open for reading and writing with the pointer at its third byte, and the free blocks
  14, 13 and 12.\<close>

definition file_state :: kst where
  "file_state = sample\<lparr>fs_tab := [sample_fs\<lparr>s_nfree := 4, s_free := [0, 12, 13, 14] @ replicate 46 0, s_tfree := 3\<rparr>, no_fs, no_fs, no_fs],
     i_tab := [root_ino, no_ino, no_ino\<lparr>c_magic := CMAGIC, c_num := 5, c_refs := 1, c_node := no_node\<lparr>i_mode := 0x8180, i_nlink := 1,
       i_size := off_at 3, i_addr := 20 # replicate 19 0\<rparr>\<rparr>] @ replicate 42 no_ino,
     of_tab := no_oft\<lparr>o_ptr := off_at 2, o_inode := Some 2, o_access := 2, o_refs := 1\<rparr> # replicate 44 no_oft,
     u_files := 0 # replicate 21 0xFF\<rparr>"

lemma file_state_opened: "opened 0 2 rd file_state" "oft_of 0 file_state = 0" "o_ptr (oftp 0 file_state) = off_at 2"
  "i_size (c_node (inop 2 file_state)) = off_at 3"
  by (simp_all add: opened_def oft_of_def oftp_def file_state_def sample_def inop_def getmode_def F_REG_def F_MASK_def no_ino_def no_oft_def
)

lemma file_state_nodes: "file_nodes V (file_addr 2 file_state) = [20]"
  by (simp add: file_nodes_def tall_def upt_rec inop_def file_state_def no_ino_def)

lemma file_state_ok: "file_ok 2 [14, 13, 12] file_state"
proof -
  have sp: "same_pool sample file_state" by (simp add: same_pool_def file_state_def)
  have q: "quiet file_state" using sample_quiet same_pool_views(3) [OF sp] by simp
  let ?f = "sample_fs\<lparr>s_nfree := 4, s_free := [0, 12, 13, 14] @ replicate 46 0, s_tfree := 3\<rparr>"
  have f: "fsp 0 file_state = ?f" "length (fs_tab file_state) = 4" by (simp_all add: fsp_def file_state_def)
  have t: "table ?f = (([0] @ [12]) @ [13]) @ [14]" by (simp add: table_def)
  have "free_stack V ((([0] @ [12]) @ [13]) @ [14]) [14, 13, 12]" for V
    by (intro free_stack.in_core free_stack.bottom) simp_all
  moreover have "super_ok ?f [14, 13, 12]" by (simp add: super_ok_def sample_fs_def fs_shape_def data_blk_def)
  ultimately have fs: "fs_ok file_state 0 [14, 13, 12]" by (simp only: fs_ok_def f t) (simp add: disk_dev_def)
  have i: "c_dev (inop 2 file_state) = 0" "length (file_addr 2 file_state) = 20" "length (i_tab file_state) = 45"
    by (simp_all add: inop_def file_state_def no_ino_def)
  show ?thesis using q fs by (simp add: file_ok_def i file_state_nodes f data_blk_def sample_fs_def)
qed

lemma file_state_reach: "n \<le> 8 \<Longrightarrow> user_reach file_state p 0x100 n" "n \<le> 8 \<Longrightarrow> user_reach file_state p 0x200 n"
proof -
  have u: "upages file_state ! 0" by (simp add: file_state_def sample_def)
  have "legal file_state (of_nat a + of_nat i)" if "a + i < 8192" for a i
  proof -
    have "unat (of_nat (a + i) :: u16) = a + i" using that by (intro unat_of_small) simp
    then show ?thesis using u that by (simp add: legal_def page_no_div)
  qed
  from this [of 256] this [of 512] show "n \<le> 8 \<Longrightarrow> user_reach file_state p 0x100 n" "n \<le> 8 \<Longrightarrow> user_reach file_state p 0x200 n"
    by (auto simp: user_reach_def)
qed

lemma write_overwrites_file_witness:
  "\<forall>swp. \<exists>t. sys_write swp (args 4 0x100 0 file_state) = Some (4, t) \<and> i_size (c_node (inop 2 t)) = off_at 6"
proof
  show "\<exists>t. sys_write swp (args 4 0x100 0 file_state) = Some (4, t) \<and> i_size (c_node (inop 2 t)) = off_at 6" for swp
    using write_overwrites_file [of 0 2 "args 4 0x100 0 file_state" "[14, 13, 12]" 2 3 swp] file_state_opened file_state_ok file_state_reach
    by (auto simp: touched_def)
qed

lemma read_delivers_file_witness:
  "\<forall>swp. \<exists>t. sys_read swp (args 4 0x100 0 file_state) = Some (1, t) \<and> o_ptr (oftp 0 t) = off_at 3"
proof
  show "\<exists>t. sys_read swp (args 4 0x100 0 file_state) = Some (1, t) \<and> o_ptr (oftp 0 t) = off_at 3" for swp
    using read_delivers_file [of 0 2 "args 4 0x100 0 file_state" "[14, 13, 12]" 2 3 swp] file_state_opened file_state_ok file_state_reach
    by auto
qed

lemma write_seek_read_roundtrip_witness:
  "\<forall>swp. \<exists>t u v r. sys_write swp (args (of_nat 4) 0x100 0 file_state) = Some (of_nat 4, t) \<and>
    sys_seek (args 0 (of_nat 2) 0 t) = Some (r, u) \<and> sys_read swp (args (of_nat 4) 0x200 0 u) = Some (of_nat 4, v) \<and>
    dma_get (umem v) 0x200 4 = dma_get (umem file_state) 0x100 4"
  by (rule allI, rule write_seek_read_roundtrip [of 0 2 file_state "[14, 13, 12]" 2 3])
    (simp_all add: file_state_opened file_state_ok file_state_reach touched_def)

end
