(* ===== verification/Frames.thy ===== *)
theory Frames
  imports Inode
begin

section \<open>What the release of blocks and inodes leaves alone\<close>

text \<open>
  Below \<^verbatim>\<open>i_deref\<close> lie the buffer pool, the free lists and the inode writes. They change buffers, superblocks, the disk addresses of an
  inode and its dirty flag, and nothing else: every reflexive and transitive relation of states that allows these changes holds between the
  states before and after. The locale \<open>silent\<close> states this once; \<open>ExitWait\<close> uses it for the process table, \<open>Descriptors\<close> for the tables of
  open files.
\<close>

subsection \<open>The pool\<close>

lemma bdwrite_more: "bdwrite i s = Some (r, t) \<Longrightarrow> bst.more t = bst.more s"
  by (auto simp: bdwrite_def Let_def set_data_def upd_buf_def split: driver.splits if_splits)

lemma bdread_more: "bdread i s = Some (r, t) \<Longrightarrow> bst.more t = bst.more s"
  by (auto simp: bdread_def Let_def set_data_def upd_buf_def split: driver.splits if_splits)

lemma freebuf_more: "freebuf s = Some (i, t) \<Longrightarrow> bst.more t = bst.more s"
  by (auto simp: freebuf_def Let_def upd_buf_def dest!: bdwrite_more split: option.splits if_splits)

lemma stamp_more: "bst.more (stamp i s) = bst.more s"
  by (simp add: stamp_def Let_def upd_buf_def)

lemma bread_more: "bread d b r s = Some (i, t) \<Longrightarrow> bst.more t = bst.more s"
  by (auto simp: bread_def Let_def stamp_more upd_buf_def dest!: freebuf_more bdread_more split: option.splits if_splits)

lemma bfree_more: "bfree i d s = Some (r, t) \<Longrightarrow> bst.more t = bst.more s"
  by (auto simp: bfree_def Let_def upd_buf_def dest!: bdwrite_more split: if_splits)

lemma brelse_more: "brelse i s = Some t \<Longrightarrow> bst.more t = bst.more s"
  by (auto simp: brelse_def dest: bfree_more)

lemma bawrite_more: "bawrite i s = Some t \<Longrightarrow> bst.more t = bst.more s"
  by (auto simp: bawrite_def dest: bfree_more)

lemma breadp_more: "breadp d b r s = Some (i, t) \<Longrightarrow> bst.more t = bst.more s"
  by (auto simp: breadp_def dest: bread_more split: option.splits)

lemma set_data_more: "bst.more (set_data i b s) = bst.more s"
  by (simp add: set_data_def upd_buf_def)

subsection \<open>Relations that allow the changes\<close>

locale silent =
  fixes R :: "kst \<Rightarrow> kst \<Rightarrow> bool"
  assumes refl: "R s s"
    and trans: "R s t \<Longrightarrow> R t u \<Longrightarrow> R s u"
    and more: "bst.more t = bst.more s \<Longrightarrow> R s t"
    and fs: "R s (upd_fs d f s)"
    and node: "R s (upd_node k h s)"
    and dirty: "R s (upd_ino k (\<lambda>c. c\<lparr>c_dirty := x\<rparr>) s)"
begin

lemmas pool = breadp_more [THEN more] bfree_more [THEN more] brelse_more [THEN more] bawrite_more [THEN more]

lemma data: "R s (set_data i b s)"
  by (rule more [OF set_data_more])

lemma getdev: "getdev d s = Some t \<Longrightarrow> R s t"
  by (auto simp: getdev_def fs split: if_splits)

lemma blk_free:
  assumes "blk_free d b s = Some t"
  shows "R s t"
proof (cases "b = 0")
  case True
  then show ?thesis using assms refl by (simp add: blk_free_def)
next
  case False
  then obtain s1 where s1: "getdev d s = Some s1" using assms by (auto simp: blk_free_def)
  show ?thesis
  proof (cases "baddev d s1")
    case True
    then show ?thesis using assms False s1 getdev [OF s1] by (simp add: blk_free_def)
  next
    case good: False
    obtain s2 where s2: "(if s_nfree (fsp d s1) = 50 then do {
        (i, s) \<leftarrow> breadp d b True s1;
        s \<leftarrow> bawrite i (set_data i (splice 0 (chunk_bytes (fsp d s)) (buf_data i s)) s);
        Some (upd_fs d (\<lambda>f. f\<lparr>s_nfree := 0\<rparr>) s) } else Some s1) = Some s2"
      and t: "(let s = upd_fs d (\<lambda>f. f\<lparr>s_tfree := s_tfree f + 1\<rparr>) s2; n = s_nfree (fsp d s) in
        if unat n < 50 then Some (upd_fs d (\<lambda>f. f\<lparr>s_free := (s_free f)[unat n := b], s_nfree := n + 1\<rparr>) s) else wild) = Some t"
      using assms False s1 good by (auto simp: blk_free_def Let_def bind_Some_iff)
    have 2: "R s1 s2"
    proof (cases "s_nfree (fsp d s1) = 50")
      case True
      then obtain i u v where u: "breadp d b True s1 = Some (i, u)"
        "bawrite i (set_data i (splice 0 (chunk_bytes (fsp d u)) (buf_data i u)) u) = Some v" "s2 = upd_fs d (\<lambda>f. f\<lparr>s_nfree := 0\<rparr>) v"
        using s2 by (auto simp: bind_Some_iff)
      show ?thesis unfolding u(3) by (rule trans [OF pool(1) [OF u(1)] trans [OF data trans [OF pool(4) [OF u(2)] fs]]])
    next
      case False
      then show ?thesis using s2 refl by simp
    qed
    have "R s2 t" using t trans [OF fs fs] by (auto simp: Let_def split: if_splits)
    then show ?thesis by (rule trans [OF trans [OF getdev [OF s1] 2]])
  qed
qed

lemma foldM_step:
  assumes "foldM f xs s = Some t" "\<And>x s t. x \<in> set xs \<Longrightarrow> f x s = Some t \<Longrightarrow> R s t"
  shows "R s t"
  using assms(1)
proof (rule foldM_invariant [where I = "R s"])
  show "R s u" if "x \<in> set xs" "R s r" "f x r = Some u" for x r u
    using that assms(2) by (blast intro: trans)
qed (rule refl)

lemma freeblk: "freeblk l d b s = Some t \<Longrightarrow> R s t"
proof (induction l arbitrary: b s t)
  case 0
  then show ?case using refl by (auto dest: blk_free split: if_splits)
next
  case (Suc l)
  show ?case
  proof (cases "b = 0")
    case True
    then show ?thesis using Suc.prems refl by simp
  next
    case False
    then obtain i s1 s2 s3 where r: "breadp d b False s = Some (i, s1)"
      "foldM (\<lambda>j s. freeblk l d (get16 (buf_data i s) j) s) (rev [0..<256]) s1 = Some s2"
      "brelse i s2 = Some s3" "blk_free d b s3 = Some t"
      using Suc.prems by auto
    have "R s1 s2" using r(2) Suc.IH by (rule foldM_step)
    then show ?thesis using pool(1) [OF r(1)] pool(3) [OF r(3)] blk_free [OF r(4)] by (blast intro: trans)
  qed
qed

lemma f_trunc:
  assumes "f_trunc i s = Some t"
  shows "R s t"
proof -
  obtain s1 s2 s3 where r: "freeblk 2 (c_dev (inop i s)) (i_addr (c_node (inop i s)) ! 19) s = Some s1"
    "freeblk 1 (c_dev (inop i s)) (i_addr (c_node (inop i s1)) ! 18) s1 = Some s2"
    "foldM (\<lambda>j u. freeblk 0 (c_dev (inop i s)) (i_addr (c_node (inop i u)) ! j) u) (rev [0..<18]) s2 = Some s3"
    and t: "upd_node i (\<lambda>n. n\<lparr>i_size := \<lparr>o_blkno = 0, o_offset = 0\<rparr>\<rparr>)
      (upd_ino i (\<lambda>c. c\<lparr>c_dirty := 1\<rparr>) (upd_node i (\<lambda>n. n\<lparr>i_addr := replicate 20 0\<rparr>) s3)) = t"
    using assms unfolding f_trunc_def Let_def bind_Some_iff
    by (elim exE conjE, intro that) (assumption | simp only: option.inject)+
  have "R s2 s3" using r(3) freeblk by (rule foldM_step)
  moreover have "R s3 t" unfolding t [symmetric] by (rule trans [OF node trans [OF dirty node]])
  ultimately show ?thesis using r(1,2) [THEN freeblk] by (blast intro: trans)
qed

lemma i_free:
  assumes "i_free d i s = Some t"
  shows "R s t"
proof -
  obtain s1 where s1: "Inode.getdev d s = Some s1" using assms by (auto simp: i_free_def)
  have "R s1 t" using assms s1 refl fs trans [OF fs fs] by (auto simp: i_free_def Let_def split: if_splits)
  then show ?thesis by (rule trans [OF getdev [OF s1]])
qed

lemma wr_inode:
  assumes "wr_inode i s = Some t"
  shows "R s t"
proof -
  obtain b u r v where u: "breadp (c_dev (inop i s)) (ino_blk (c_num (inop i s))) False s = Some (b, u)"
    "bfree b 2 (set_data b (put_dinode (c_node (inop i u)) (ino_slot (c_num (inop i s))) (buf_data b u)) u) = Some (r, v)"
    "t = upd_ino i (\<lambda>c. c\<lparr>c_dirty := 0\<rparr>) v"
    using assms by (auto simp: wr_inode_def Let_def bind_Some_iff)
  show ?thesis unfolding u(3) by (rule trans [OF pool(1) [OF u(1)] trans [OF data trans [OF pool(2) [OF u(2)] dirty]]])
qed

text \<open>Apart from the references of the inode and, for a pipe, the wakeup of the processes that sleep on it.\<close>

lemma i_deref:
  assumes "i_deref i s = Some t"
  shows "R (upd_ino i (\<lambda>c. c\<lparr>c_refs := c_refs c - 1\<rparr>) (if getmode i s = F_PIPE then wakeup (EvIno i) s else s)) t"
proof -
  let ?s1 = "upd_ino i (\<lambda>c. c\<lparr>c_refs := c_refs c - 1\<rparr>) (if getmode i s = F_PIPE then wakeup (EvIno i) s else s)"
  obtain s2 where s2: "(if \<not> (c_refs (inop i ?s1) \<noteq> 0 \<or> i_nlink (c_node (inop i ?s1)) \<noteq> 0) \<and>
        (getmode i ?s1 = F_REG \<or> getmode i ?s1 = F_DIR \<or> getmode i ?s1 = F_PIPE) then Inode.f_trunc i ?s1 else Some ?s1) = Some s2"
    "(if c_refs (inop i s2) = 0 \<and> c_dirty (inop i s2) \<noteq> 0 then
        Option.bind (if i_nlink (c_node (inop i s2)) = 0
           then Inode.i_free (c_dev (inop i s2)) (c_num (inop i s2)) (upd_node i (\<lambda>n. n\<lparr>i_mode := 0\<rparr>) s2) else Some s2) (Inode.wr_inode i)
      else Some s2) = Some t"
    using assms unfolding i_deref_def Let_def bind_Some_iff by (auto split: if_splits)
  have 2: "R ?s1 s2" using s2(1) refl by (auto dest: f_trunc split: if_splits)
  have "R s2 t"
  proof (cases "c_refs (inop i s2) = 0 \<and> c_dirty (inop i s2) \<noteq> 0")
    case True
    then obtain u where u: "(if i_nlink (c_node (inop i s2)) = 0
        then Inode.i_free (c_dev (inop i s2)) (c_num (inop i s2)) (upd_node i (\<lambda>n. n\<lparr>i_mode := 0\<rparr>) s2) else Some s2) = Some u"
      "Inode.wr_inode i u = Some t" using s2(2) by (auto simp: bind_Some_iff)
    have "R s2 u" using u(1) refl trans [OF node i_free] by (auto split: if_splits)
    then show ?thesis by (rule trans [OF _ wr_inode [OF u(2)]])
  next
    case False
    have "s2 = t" using s2(2) unfolding if_not_P [OF False] by (simp only: option.inject)
    then show ?thesis using refl by simp
  qed
  with 2 show ?thesis by (rule trans)
qed

end

end
