(* ===== verification/Descriptors.thy ===== *)
theory Descriptors
  imports FileIO Frames FsCalls
begin

section \<open>Types of file descriptors\<close>

text \<open>
  A file descriptor is a byte of \<^verbatim>\<open>u_files\<close> that stands for an entry of the open file table, which in turn stands for an entry of the inode
  table; both are counted. \<open>typed\<close> says that every open descriptor has a referent and that all counts are exact. The calls that only
  move descriptors keep it, and \<^verbatim>\<open>getinode\<close> does not panic on it.
\<close>

subsection \<open>The invariant\<close>

abbreviation is_open :: "u8 \<Rightarrow> bool" where
  "is_open x \<equiv> x AND 0x80 = 0"

definition fds :: "nat \<Rightarrow> kst \<Rightarrow> nat" where
  "fds f s = length (filter (\<lambda>x. is_open x \<and> unat x = f) (u_files s))"

definition users :: "nat \<Rightarrow> kst \<Rightarrow> nat" where
  "users k s = length (filter (\<lambda>e. o_inode e = Some k) (of_tab s))"

text \<open>\<open>oth\<close> are the references of other processes to the open files, \<open>ioth\<close> the references to inodes that do not come from open files.\<close>

definition typed :: "(nat \<Rightarrow> nat) \<Rightarrow> (nat \<Rightarrow> nat) \<Rightarrow> kst \<Rightarrow> bool" where
  "typed oth ioth s \<longleftrightarrow> length (u_files s) = 22 \<and> length (of_tab s) = 45 \<and> length (i_tab s) = 45 \<and>
     (\<forall>x \<in> set (u_files s). is_open x \<longrightarrow> unat x < 45 \<and> o_inode (of_tab s ! unat x) \<noteq> None) \<and>
     (\<forall>f < 45. unat (o_refs (of_tab s ! f)) = fds f s + oth f) \<and>
     (\<forall>f < 45. \<forall>k. o_inode (of_tab s ! f) = Some k \<longrightarrow> k < 45 \<and> c_magic (inop k s) = CMAGIC \<and> o_refs (of_tab s ! f) \<noteq> 0) \<and>
     (\<forall>k < 45. unat (c_refs (inop k s)) = users k s + ioth k)"

lemma typedD:
  assumes "typed oth ioth s"
  shows "length (u_files s) = 22" "length (of_tab s) = 45" "length (i_tab s) = 45"
    "x \<in> set (u_files s) \<Longrightarrow> is_open x \<Longrightarrow> unat x < 45" "x \<in> set (u_files s) \<Longrightarrow> is_open x \<Longrightarrow> o_inode (of_tab s ! unat x) \<noteq> None"
    "f < 45 \<Longrightarrow> unat (o_refs (of_tab s ! f)) = fds f s + oth f"
    "f < 45 \<Longrightarrow> o_inode (of_tab s ! f) = Some k \<Longrightarrow> k < 45" "f < 45 \<Longrightarrow> o_inode (of_tab s ! f) = Some k \<Longrightarrow> c_magic (inop k s) = CMAGIC"
    "f < 45 \<Longrightarrow> o_inode (of_tab s ! f) = Some k \<Longrightarrow> o_refs (of_tab s ! f) \<noteq> 0"
    "k < 45 \<Longrightarrow> unat (c_refs (inop k s)) = users k s + ioth k"
  using assms unfolding typed_def by blast+

lemma filter_update:
  "i < length xs \<Longrightarrow> length (filter P (xs[i := y])) + (if P (xs ! i) then 1 else 0) = length (filter P xs) + (if P y then 1 else 0)"
proof (induction xs arbitrary: i)
  case (Cons x xs)
  then show ?case by (cases i) auto
qed simp

lemma fds_set:
  assumes "d < length (u_files s)" "u_files t = (u_files s)[d := y]"
  shows "fds f t + (if is_open (u_files s ! d) \<and> unat (u_files s ! d) = f then 1 else 0) = fds f s + (if is_open y \<and> unat y = f then 1 else 0)"
  using filter_update [OF assms(1), of "\<lambda>x. is_open x \<and> unat x = f" y] by (simp add: fds_def assms(2))

lemma users_set:
  assumes "f < length (of_tab s)" "of_tab t = (of_tab s)[f := e]"
  shows "users k t + (if o_inode (of_tab s ! f) = Some k then 1 else 0) = users k s + (if o_inode e = Some k then 1 else 0)"
  using filter_update [OF assms(1), of "\<lambda>e. o_inode e = Some k" e] by (simp add: users_def assms(2))

subsection \<open>What leaves descriptors alone\<close>

definition same_desc :: "kst \<Rightarrow> kst \<Rightarrow> bool" where
  "same_desc s t \<longleftrightarrow> u_files t = u_files s \<and> of_tab t = of_tab s \<and> u_argn1 t = u_argn1 s \<and> length (i_tab t) = length (i_tab s) \<and>
     (\<forall>k < length (i_tab s). c_magic (inop k t) = c_magic (inop k s) \<and> c_refs (inop k t) = c_refs (inop k s))"

lemma same_desc_more: "bst.more t = bst.more s \<Longrightarrow> same_desc s t"
  by (cases s; cases t) (simp add: same_desc_def inop_def)

interpretation desc: silent same_desc
proof
  show "same_desc s t \<Longrightarrow> same_desc t u \<Longrightarrow> same_desc s u" for s t u by (simp add: same_desc_def)
  show "same_desc s (upd_ino k (\<lambda>c. c\<lparr>c_dirty := x\<rparr>) s)" "same_desc s (upd_node k h s)" for s k x h
    by (cases "k < length (i_tab s)"; simp add: same_desc_def upd_node_def upd_ino_def inop_def nth_list_update list_update_beyond)+
  show "same_desc s (upd_fs d f s)" for s d f by (simp add: same_desc_def upd_fs_def inop_def)
  show "bst.more t = bst.more s \<Longrightarrow> same_desc s t" for s t :: kst by (rule same_desc_more)
qed (simp add: same_desc_def)

lemma typed_same: "same_desc s t \<Longrightarrow> typed oth ioth s \<Longrightarrow> typed oth ioth t"
  by (simp add: typed_def same_desc_def fds_def users_def)

lemma same_desc_d_close:
  assumes "d_close d s = Some t"
  shows "same_desc s t"
proof -
  have "same_desc s (snd (tty_close m s))" for m
    by (simp add: tty_close_def Let_def same_desc_def upd_proc_def inop_def)
  moreover have "same_desc s (s\<lparr>lop := False\<rparr>)" by (simp add: same_desc_def inop_def)
  ultimately show ?thesis using assms desc.refl
    by (auto simp: d_close_def lpr_close_def mt_close_def split: if_splits driver.splits)
qed

lemma getinode_typed:
  assumes "typed oth ioth s"
  shows "getinode u s = Some (None, set_error EBADF s) \<or>
    (\<exists>k. getinode u s = Some (Some k, s) \<and> 0 \<le> u \<and> u < 22 \<and> is_open (u_files s ! nat u) \<and> o_inode (of_tab s ! oft_of (nat u) s) = Some k)"
proof (cases "u < 0 \<or> u \<ge> 22 \<or> \<not> is_open (u_files s ! nat u)")
  case True
  then show ?thesis by (auto simp: getinode_def)
next
  case False
  let ?x = "u_files s ! nat u"
  have x: "?x \<in> set (u_files s)" "is_open ?x" using False typedD(1) [OF assms] by auto
  from typedD(5) [OF assms x] obtain k where k: "o_inode (of_tab s ! unat ?x) = Some k" by auto
  note f = typedD(4) [OF assms x]
  have "getinode u s = Some (Some k, s)"
    using False f k typedD(7,8) [OF assms f k] by (simp add: getinode_def oftp_def magic_def Let_def)
  then show ?thesis using False k by (simp add: oft_of_def)
qed

subsection \<open>Closing\<close>

lemma typed_drop:
  assumes ty: "typed oth ioth s" and d: "d < 22" "is_open (u_files s ! d)" and f: "f = oft_of d s" and k: "o_inode (of_tab s ! f) = Some k"
    and u: "u_files t = (u_files s)[d := - 1]" "length (i_tab t) = 45" "\<And>l. l < 45 \<Longrightarrow> c_magic (inop l t) = c_magic (inop l s)"
    and last: "o_refs (of_tab s ! f) = 1 \<Longrightarrow> of_tab t = (of_tab s)[f := (of_tab s ! f)\<lparr>o_refs := 0, o_inode := None\<rparr>] \<and>
        c_refs (inop k t) = c_refs (inop k s) - 1 \<and> (\<forall>l < 45. l \<noteq> k \<longrightarrow> c_refs (inop l t) = c_refs (inop l s))"
    and more: "o_refs (of_tab s ! f) \<noteq> 1 \<Longrightarrow> of_tab t = (of_tab s)[f := (of_tab s ! f)\<lparr>o_refs := o_refs (of_tab s ! f) - 1\<rparr>] \<and>
        (\<forall>l < 45. c_refs (inop l t) = c_refs (inop l s))"
  shows "typed oth ioth t"
proof -
  note T = typedD [OF ty]
  let ?e = "of_tab s ! f" and ?x = "u_files s ! d"
  have x: "?x \<in> set (u_files s)" using T(1) d(1) by simp
  have f45: "f < 45" using T(4) [OF x d(2)] by (simp add: f oft_of_def)
  have r0: "o_refs ?e \<noteq> 0" by (rule T(9) [OF f45 k])
  have r1: "unat (o_refs ?e - 1) = unat (o_refs ?e) - 1" using r0 by (simp add: unat_minus_one)
  have fd: "fds g t + (if g = f then 1 else 0) = fds g s" for g
    using fds_set [of d s t "- 1" g] d T(1) u(1) by (auto simp: f oft_of_def)
  have lt: "length (of_tab t) = 45" using last more T(2) by (cases "o_refs ?e = 1") simp_all
  have refs: "unat (o_refs (of_tab t ! g)) = fds g t + oth g" if "g < 45" for g
  proof (cases "g = f")
    case True
    have "unat (o_refs (of_tab t ! f)) = unat (o_refs ?e) - 1"
      using last more f45 T(2) r1 by (cases "o_refs ?e = 1") simp_all
    then show ?thesis using T(6) [OF f45] fd [of f] True by simp
  next
    case False
    have "of_tab t ! g = of_tab s ! g" using last more False by (cases "o_refs ?e = 1") simp_all
    then show ?thesis using T(6) [OF that] fd [of g] False by simp
  qed
  have ino: "l < 45 \<and> c_magic (inop l t) = CMAGIC \<and> o_refs (of_tab t ! g) \<noteq> 0" if "g < 45" "o_inode (of_tab t ! g) = Some l" for g l
  proof (cases "o_refs ?e = 1")
    case True
    then have "g \<noteq> f" "of_tab t ! g = of_tab s ! g" using last that f45 T(2) by (auto simp: nth_list_update split: if_splits)
    then show ?thesis using T(7-9) [OF that(1), of l] u(3) [of l] that(2) by simp
  next
    case False
    have "o_inode (of_tab s ! g) = Some l" using more [OF False] that f45 T(2) by (auto simp: nth_list_update split: if_splits)
    moreover have "o_refs (of_tab t ! g) \<noteq> 0"
    proof (cases "g = f")
      case True
      have "o_refs ?e - 1 \<noteq> 0" using False by (simp add: eq_iff_diff_eq_0 [symmetric])
      then show ?thesis using more [OF False] True f45 T(2) by simp
    qed (use more [OF False] T(9) [OF that(1)] calculation in simp)
    ultimately show ?thesis using T(7,8) [OF that(1), of l] u(3) [of l] by simp
  qed
  have use: "unat (c_refs (inop l t)) = users l t + ioth l" if "l < 45" for l
  proof (cases "o_refs ?e = 1")
    case True
    have U: "users l t + (if l = k then 1 else 0) = users l s"
      using users_set [of f s t "?e\<lparr>o_refs := 0, o_inode := None\<rparr>" l] last [OF True] f45 T(2) k by auto
    show ?thesis
    proof (cases "l = k")
      case True
      then have "c_refs (inop k s) \<noteq> 0" using T(10) [of k] U that by auto
      then show ?thesis using last [OF \<open>o_refs ?e = 1\<close>] T(10) [of k] U True that by (simp add: unat_minus_one)
    qed (use last [OF True] T(10) [OF that] U that in simp)
  next
    case False
    have "users l t = users l s"
      using users_set [of f s t "?e\<lparr>o_refs := o_refs ?e - 1\<rparr>" l] more [OF False] f45 T(2) by simp
    then show ?thesis using more [OF False] T(10) [OF that] that by simp
  qed
  have opn: "unat x < 45 \<and> o_inode (of_tab t ! unat x) \<noteq> None" if "x \<in> set (u_files t)" "is_open x" for x
  proof -
    have "x \<in> set (u_files s)" using that set_update_subset_insert [of "u_files s" d "- 1"] u(1) by auto
    note X = T(4,5) [OF this that(2)]
    have "o_inode (of_tab t ! unat x) \<noteq> None"
    proof (cases "unat x = f")
      case True
      then have "0 < fds f t" using that by (auto simp: fds_def filter_empty_conv)
      then have "o_refs ?e \<noteq> 1" using T(6) [OF f45] fd [of f] by auto
      then show ?thesis using more X True f45 T(2) by simp
    qed (use last more X(2) in \<open>cases "o_refs ?e = 1"; simp\<close>)
    then show ?thesis using X(1) by simp
  qed
  show ?thesis unfolding typed_def using T(1) u(1,2) lt opn refs ino use by (simp del: not_None_eq)
qed

lemma oft_deref_typed:
  assumes ty: "typed oth ioth s" and d: "d < 22" "is_open (u_files s ! d)" and r: "oft_deref (oft_of d s) (set_file d (- 1) s) = Some t"
  shows "typed oth ioth t \<and> u_files t = (u_files s)[d := - 1] \<and> u_argn1 t = u_argn1 s"
proof -
  note T = typedD [OF ty]
  let ?f = "oft_of d s" and ?s = "set_file d (- 1) s"
  have x: "u_files s ! d \<in> set (u_files s)" using T(1) d(1) by simp
  have f: "?f < 45" using T(4) [OF x d(2)] by (simp add: oft_of_def)
  obtain k where k: "o_inode (of_tab s ! ?f) = Some k" using T(5) [OF x d(2)] by (auto simp: oft_of_def)
  let ?u = "upd_oft ?f (\<lambda>e. e\<lparr>o_refs := o_refs e - 1\<rparr>) ?s"
  have U: "u_files ?u = (u_files s)[d := - 1]" "of_tab ?u = (of_tab s)[?f := (of_tab s ! ?f)\<lparr>o_refs := o_refs (of_tab s ! ?f) - 1\<rparr>]"
    "inop l ?u = inop l s" "i_tab ?u = i_tab s" for l
    by (simp_all add: upd_oft_def set_file_def inop_def)
  have ou: "oftp ?f ?u = (of_tab s ! ?f)\<lparr>o_refs := o_refs (of_tab s ! ?f) - 1\<rparr>" using U(2) f T(2) by (simp add: oftp_def)
  show ?thesis
  proof (cases "o_refs (of_tab s ! ?f) = 1")
    case False
    then have "t = ?u" using r f k by (simp add: oft_deref_def Let_def ou)
    then show ?thesis using typed_drop [OF ty d refl k, of t] U T(3) False by simp (simp add: upd_oft_def set_file_def)
  next
    case True
    then obtain v where v: "i_deref k ?u = Some v" "t = upd_oft ?f (\<lambda>e. e\<lparr>o_inode := None\<rparr>) v"
      using r f k by (auto simp: oft_deref_def Let_def ou)
    have k45: "k < 45" by (rule T(7) [OF f k])
    let ?w = "upd_ino k (\<lambda>c. c\<lparr>c_refs := c_refs c - 1\<rparr>) (if getmode k ?u = F_PIPE then wakeup (EvIno k) ?u else ?u)"
    have W: "u_files ?w = u_files ?u" "of_tab ?w = of_tab ?u" "length (i_tab ?w) = 45" "c_magic (inop l ?w) = c_magic (inop l s)"
      "c_refs (inop l ?w) = c_refs (inop l s) - (if l = k then 1 else 0)" if "l < 45" for l
      using that k45 T(3) by (simp_all add: upd_ino_def wakeup_def inop_def U nth_list_update)
    have w: "same_desc ?w v" by (rule desc.i_deref [OF v(1)])
    have V: "u_files v = (u_files s)[d := - 1]" "of_tab v = of_tab ?u" "length (i_tab v) = 45" "c_magic (inop l v) = c_magic (inop l s)"
      "c_refs (inop l v) = c_refs (inop l s) - (if l = k then 1 else 0)" if "l < 45" for l
      using w W [OF that] that U(1) by (simp_all add: same_desc_def)
    have V0: "u_files v = (u_files s)[d := - 1]" "of_tab v = of_tab ?u" "length (i_tab v) = 45" using V(1-3) [of 0] by simp_all
    have iv: "inop l t = inop l v" "i_tab t = i_tab v" "u_files t = u_files v" for l by (simp_all add: v(2) upd_oft_def inop_def)
    have ot: "of_tab t = (of_tab s)[?f := (of_tab s ! ?f)\<lparr>o_refs := 0, o_inode := None\<rparr>]"
      using True f T(2) by (simp add: v(2) upd_oft_def set_file_def V0(2) U(2))
    have "u_argn1 t = u_argn1 s"
      using w by (simp add: v(2) same_desc_def) (simp add: upd_oft_def upd_ino_def wakeup_def set_file_def)
    moreover have "typed oth ioth t"
    proof (rule typed_drop [OF ty d refl k])
      show "u_files t = (u_files s)[d := - 1]" "length (i_tab t) = 45" using V0 iv by simp_all
      show "c_magic (inop l t) = c_magic (inop l s)" if "l < 45" for l using V(4) [OF that] iv by simp
    qed (use ot V(5) k45 iv True in auto)
    ultimately show ?thesis using V0(1) iv(3) by simp
  qed
qed

lemma doclose_typed:
  assumes ty: "typed oth ioth s" and r: "doclose u s = Some (x, t)"
  shows "typed oth ioth t" "0 \<le> u \<Longrightarrow> u < 22 \<Longrightarrow> is_open (u_files s ! nat u) \<Longrightarrow> u_files t = (u_files s)[nat u := - 1]"
    "u_argn1 t = u_argn1 s"
proof -
  have "typed oth ioth t \<and> u_argn1 t = u_argn1 s \<and> (0 \<le> u \<and> u < 22 \<and> is_open (u_files s ! nat u) \<longrightarrow> u_files t = (u_files s)[nat u := - 1])"
    using getinode_typed [OF ty, of u]
  proof (elim disjE exE conjE)
    assume g: "getinode u s = Some (None, set_error EBADF s)"
    then have t: "t = set_error EBADF s" using r by (simp add: doclose_def)
    have "\<not> (0 \<le> u \<and> u < 22 \<and> is_open (u_files s ! nat u))"
    proof
      assume "0 \<le> u \<and> u < 22 \<and> is_open (u_files s ! nat u)"
      then have "getinode u s \<noteq> Some (None, set_error EBADF s)"
        by (auto simp: getinode_def Let_def split: option.splits)
      then show False using g by contradiction
    qed
    moreover have "same_desc s t" unfolding t by (simp add: same_desc_def set_error_def inop_def)
    ultimately show ?thesis using typed_same [OF _ ty] unfolding same_desc_def by blast
  next
    fix k assume g: "getinode u s = Some (Some k, s)" and u: "0 \<le> u" "u < 22" "is_open (u_files s ! nat u)"
    obtain v where v: "(if isdevice k s then d_close (devnum k s) s else Some s) = Some v"
      "oft_deref (unat (u_files s ! nat u)) (set_file (nat u) (- 1) v) = Some t"
      using r g by (auto simp: doclose_def Let_def)
    have sv: "same_desc s v" using v(1) desc.refl by (auto dest: same_desc_d_close split: if_splits)
    then have uf: "u_files v = u_files s" "u_argn1 v = u_argn1 s" by (simp_all add: same_desc_def)
    have "oft_deref (oft_of (nat u) v) (set_file (nat u) (- 1) v) = Some t" using v(2) uf by (simp add: oft_of_def)
    then show ?thesis using oft_deref_typed [OF typed_same [OF sv ty], of "nat u"] u uf by simp
  qed
  then show "typed oth ioth t" "0 \<le> u \<Longrightarrow> u < 22 \<Longrightarrow> is_open (u_files s ! nat u) \<Longrightarrow> u_files t = (u_files s)[nat u := - 1]"
    "u_argn1 t = u_argn1 s" by blast+
qed

subsection \<open>Sharing\<close>

lemma share_typed:
  assumes ty: "typed oth ioth s" and n: "n < 22" "\<not> is_open (u_files s ! n)" and d: "d < 22" "is_open (u_files s ! d)"
    and oth: "oth (oft_of d s) \<le> 233" and r: "share_file n d s = Some t"
  shows "typed oth ioth t"
proof -
  note T = typedD [OF ty]
  let ?f = "oft_of d s"
  let ?e = "of_tab s ! ?f"
  have x: "u_files s ! d \<in> set (u_files s)" using T(1) d(1) by simp
  have f: "?f < 45" using T(4) [OF x d(2)] by (simp add: oft_of_def)
  have "n \<noteq> d" using n(2) d(2) by auto
  then have t: "u_files t = (u_files s)[n := u_files s ! d]" "of_tab t = (of_tab s)[?f := ?e\<lparr>o_refs := o_refs ?e + 1\<rparr>]"
    "i_tab t = i_tab s" "inop l t = inop l s" for l
    using r f T(1) by (auto simp: share_file_def Let_def set_file_def upd_oft_def oft_of_def inop_def)
  have fd: "fds g t = fds g s + (if g = ?f then 1 else 0)" for g
    using fds_set [of n s t "u_files s ! d" g] n d T(1) t(1) by (auto simp: oft_of_def)
  have "length (filter (\<lambda>y. is_open y \<and> unat y = ?f) (u_files s)) < length (u_files s)"
    using n T(1) by (intro length_filter_less [of "u_files s ! n"]) simp_all
  then have "fds ?f s < 22" using T(1) by (simp add: fds_def)
  then have "unat (o_refs ?e) < 255" using T(6) [OF f] oth by simp
  then have r1: "unat (o_refs ?e + 1) = unat (o_refs ?e) + 1" "o_refs ?e + 1 \<noteq> 0"
    using unat_word_ariths(1) [of "o_refs ?e" 1] by (auto simp: unat_eq_zero)
  have refs: "unat (o_refs (of_tab t ! g)) = fds g t + oth g" if "g < 45" for g
    using T(6) [OF that] fd [of g] r1(1) f T(2) by (auto simp: t(2) nth_list_update)
  have ino: "o_inode (of_tab t ! g) = o_inode (of_tab s ! g)" for g using f T(2) by (auto simp: t(2) nth_list_update)
  have nz: "o_refs (of_tab t ! g) \<noteq> 0" if "g < 45" "o_inode (of_tab s ! g) = Some k" for g k
    using T(9) [OF that] r1(2) f T(2) by (auto simp: t(2) nth_list_update)
  have use: "users k t = users k s" for k using users_set [of ?f s t "?e\<lparr>o_refs := o_refs ?e + 1\<rparr>" k] f T(2) t(2) by simp
  have mem: "y \<in> set (u_files s)" if "y \<in> set (u_files t)" for y
    using that x set_update_subset_insert [of "u_files s" n "u_files s ! d"] unfolding t(1) by auto
  have "unat y < 45 \<and> o_inode (of_tab t ! unat y) \<noteq> None" if "y \<in> set (u_files t)" "is_open y" for y
    unfolding ino using T(4,5) [OF mem [OF that(1)] that(2)] by simp
  moreover have "k < 45 \<and> c_magic (inop k t) = CMAGIC \<and> o_refs (of_tab t ! g) \<noteq> 0" if "g < 45" "o_inode (of_tab t ! g) = Some k" for g k
    using T(7,8) [OF that(1)] nz [OF that(1)] that(2) unfolding ino t(4) by blast
  moreover have "unat (c_refs (inop k t)) = users k t + ioth k" if "k < 45" for k
    unfolding use t(4) by (rule T(10) [OF that])
  ultimately show ?thesis unfolding typed_def using T(1-3) refs by (simp add: t(1-3) del: not_None_eq)
qed

subsection \<open>The calls\<close>

datatype desc_call = Close u16 | Dup u16 | Dup2 u16 u16

primrec desc_run :: "desc_call \<Rightarrow> kst \<Rightarrow> kst option" where
  "desc_run (Close d) s = map_option snd (sys_close (s\<lparr>u_argn := d\<rparr>))"
| "desc_run (Dup d) s = map_option snd (sys_dup (s\<lparr>u_argn := d\<rparr>))"
| "desc_run (Dup2 oldd newd) s = map_option snd (sys_dup2 (s\<lparr>u_argn1 := oldd, u_argn := newd\<rparr>))"

lemma typed_args: "typed oth ioth (s\<lparr>u_argn := x\<rparr>) = typed oth ioth s" "typed oth ioth (s\<lparr>u_argn1 := x\<rparr>) = typed oth ioth s"
  "typed oth ioth (set_error e s) = typed oth ioth s"
  by (simp_all add: typed_def fds_def users_def inop_def set_error_def)

lemma sint_index: "0 \<le> sint (d :: u16) \<Longrightarrow> nat (sint d) = unat d"
proof -
  assume "0 \<le> sint d"
  then have "sint d = uint d" using sint_cases16 [of d] uint16_range(2) [of d] by (simp split: if_splits)
  then show ?thesis by simp
qed

lemma uf_alloc_cases:
  "uf_alloc s = (- 1, set_error ENFILE s) \<or> (\<exists>n < 22. uf_alloc s = (int n, s) \<and> \<not> is_open (u_files s ! n))"
  by (auto simp: uf_alloc_def scan_Some_iff split: option.splits)

lemma dup_typed:
  assumes ty: "typed oth ioth s" and oth: "\<forall>f < 45. oth f \<le> 233"
  shows "\<exists>x t. sys_dup s = Some (x, t) \<and> typed oth ioth t"
  using getinode_typed [OF ty, of "sint (u_argn s)"]
proof (elim disjE exE conjE)
  assume "getinode (sint (u_argn s)) s = Some (None, set_error EBADF s)"
  then show ?thesis using ty by (simp add: sys_dup_def typed_args)
next
  fix k assume g: "getinode (sint (u_argn s)) s = Some (Some k, s)" and d: "0 \<le> sint (u_argn s)" "sint (u_argn s) < 22"
    "is_open (u_files s ! nat (sint (u_argn s)))"
  have ix: "nat (sint (u_argn s)) = unat (u_argn s)" by (rule sint_index [OF d(1)])
  have dd: "unat (u_argn s) < 22" "is_open (u_files s ! unat (u_argn s))" using d unfolding ix [symmetric] by simp_all
  note T = typedD [OF ty]
  have f: "oft_of (unat (u_argn s)) s < 45" using T(1,4) dd by (simp add: oft_of_def)
  from uf_alloc_cases [of s] show ?thesis
  proof (elim disjE exE conjE)
    assume "uf_alloc s = (- 1, set_error ENFILE s)"
    then show ?thesis using ty g by (simp add: sys_dup_def typed_args Let_def)
  next
    fix n assume n: "n < 22" "uf_alloc s = (int n, s)" "\<not> is_open (u_files s ! n)"
    then have "n \<noteq> unat (u_argn s)" using dd(2) by auto
    then obtain t where t: "share_file n (unat (u_argn s)) s = Some t"
      using f T(1) by (simp add: share_file_def Let_def set_file_def oft_of_def)
    then have "typed oth ioth t" using share_typed [OF ty n(1,3) dd _ t] oth f by simp
    then show ?thesis using t g n(2) by (simp add: sys_dup_def Let_def)
  qed
qed

lemma dup2_typed:
  assumes ty: "typed oth ioth s" and oth: "\<forall>f < 45. oth f \<le> 233" and ne: "u_argn1 s \<noteq> u_argn s" and r: "sys_dup2 s = Some (x, t)"
  shows "typed oth ioth t"
  using getinode_typed [OF ty, of "sint (u_argn1 s)"]
proof (elim disjE exE conjE)
  assume "getinode (sint (u_argn1 s)) s = Some (None, set_error EBADF s)"
  then have "t = set_error EBADF s" using r by (simp add: sys_dup2_def)
  then show ?thesis using ty by (simp add: typed_args)
next
  fix k assume g: "getinode (sint (u_argn1 s)) s = Some (Some k, s)" and d: "0 \<le> sint (u_argn1 s)" "sint (u_argn1 s) < 22"
    "is_open (u_files s ! nat (sint (u_argn1 s)))"
  let ?d = "unat (u_argn1 s)" and ?n = "unat (u_argn s)"
  have dd: "?d < 22" "is_open (u_files s ! ?d)" using d unfolding sint_index [OF d(1), symmetric] by simp_all
  show ?thesis
  proof (cases "sint (u_argn s) < 0 \<or> sint (u_argn s) \<ge> 22")
    case True
    then have "t = set_error EBADF s" using r g by (auto simp: sys_dup2_def split: if_splits)
    then show ?thesis using ty by (simp add: typed_args)
  next
    case False
    then have n: "?n < 22" using sint_index [of "u_argn s"] by linarith
    have nd: "?n \<noteq> ?d" using ne by (simp add: word_unat_eq_iff)
    obtain y v where v: "(if is_open (u_files s ! ?n) then doclose (int ?n) s else Some (0, s)) = Some (y, v)" "share_file ?n ?d v = Some t"
    proof -
      obtain y v where "(if is_open (u_files s ! ?n) then doclose (int ?n) s else Some (0, s)) = Some (y, v)"
        "share_file ?n (unat (u_argn1 v)) v = Some t"
        using r g False by (auto simp: sys_dup2_def Let_def bind_Some_iff)
      moreover from this(1) have "u_argn1 v = u_argn1 s" using doclose_typed(3) [OF ty] by (auto split: if_splits)
      ultimately show ?thesis using that by simp
    qed
    have V: "typed oth ioth v" "\<not> is_open (u_files v ! ?n)" "u_files v ! ?d = u_files s ! ?d"
    proof -
      have "typed oth ioth v \<and> \<not> is_open (u_files v ! ?n) \<and> u_files v ! ?d = u_files s ! ?d"
      proof (cases "is_open (u_files s ! ?n)")
        case True
        then have c: "doclose (int ?n) s = Some (y, v)" using v(1) by simp
        have i: "0 \<le> int ?n" "int ?n < 22" using n by linarith+
        have "u_files v = (u_files s)[?n := - 1]" using doclose_typed(2) [OF ty c i] True by (simp only: nat_int)
        then show ?thesis using doclose_typed(1) [OF ty c] n nd typedD(1) [OF ty] by simp
      next
        case False
        then have "v = s" using v(1) by simp
        then show ?thesis using False ty by simp
      qed
      then show "typed oth ioth v" "\<not> is_open (u_files v ! ?n)" "u_files v ! ?d = u_files s ! ?d" by blast+
    qed
    have "u_files v ! ?d \<in> set (u_files v)" using typedD(1) [OF V(1)] dd(1) by simp
    then have "oft_of ?d v < 45" using typedD(4) [OF V(1)] dd(2) V(3) by (simp add: oft_of_def)
    then show ?thesis using share_typed [OF V(1) n V(2) dd(1) _ _ v(2)] dd(2) V(3) oth by simp
  qed
qed

lemma desc_run_typed:
  assumes ty: "typed oth ioth s" and oth: "\<forall>f < 45. oth f \<le> 233" and c: "\<forall>a. c \<noteq> Dup2 a a" and r: "desc_run c s = Some t"
  shows "typed oth ioth t"
proof (cases c)
  case (Close d)
  then show ?thesis using r doclose_typed(1) [of oth ioth "s\<lparr>u_argn := d\<rparr>"] ty by (auto simp: sys_close_def typed_args)
next
  case (Dup d)
  then show ?thesis using r dup_typed [of oth ioth "s\<lparr>u_argn := d\<rparr>"] ty oth by (auto simp: typed_args)
next
  case (Dup2 a b)
  then show ?thesis using r c dup2_typed [of oth ioth "s\<lparr>u_argn1 := a, u_argn := b\<rparr>"] ty oth by (auto simp: typed_args)
qed

text \<open>C26: file descriptors stay well typed. Any sequence of the calls \<^verbatim>\<open>close\<close>, \<^verbatim>\<open>dup\<close> and \<^verbatim>\<open>dup2\<close> with any arguments (\<^verbatim>\<open>dup2\<close> of
  a descriptor to itself excepted, which the source gets wrong) leaves every open descriptor with an entry of the open file table, every such
  entry with an inode, and all reference counts of both tables exact; no number then makes \<^verbatim>\<open>getinode\<close> panic, and \<^verbatim>\<open>dup\<close> always returns.\<close>

theorem calls_keep_descriptors_typed:
  assumes "typed oth ioth s" "\<forall>f < 45. oth f \<le> 233" "\<forall>a. Dup2 a a \<notin> set cs" "foldM desc_run cs s = Some t"
  shows "typed oth ioth t \<and> (\<forall>u. getinode u t \<noteq> None) \<and> (\<forall>d. desc_run (Dup d) t \<noteq> None)"
proof -
  have ty: "typed oth ioth t"
  proof (rule foldM_invariant [where I = "typed oth ioth", OF assms(4,1)])
    show "typed oth ioth v" if "c \<in> set cs" "typed oth ioth u" "desc_run c u = Some v" for c u v
      using that assms(2,3) by (intro desc_run_typed [of oth ioth u c v]) auto
  qed
  moreover have "getinode u t \<noteq> None" for u using getinode_typed [OF ty, of u] by auto
  moreover have "desc_run (Dup d) t \<noteq> None" for d
    using dup_typed [of oth ioth "t\<lparr>u_argn := d\<rparr>"] ty assms(2) by (auto simp: typed_args)
  ultimately show ?thesis by blast
qed

text \<open>Three duplicates of the descriptor 0 of the state of FileIO; the root inode has two references that are not from files.\<close>

lemma file_state_typed: "typed (\<lambda>f. 0) (\<lambda>k. if k = 0 then 2 else 0) file_state"
proof -
  have u: "u_files file_state = 0 # replicate 21 0xFF" by (simp add: file_state_def)
  have o: "of_tab file_state = no_oft\<lparr>o_ptr := off_at 2, o_inode := Some 2, o_access := 2, o_refs := 1\<rparr> # replicate 44 no_oft"
    by (simp add: file_state_def)
  have i: "i_tab file_state = [root_ino, no_ino, inop 2 file_state] @ replicate 42 no_ino"
    by (simp add: file_state_def inop_def)
  have e: "of_tab file_state ! f = (if f = 0 then no_oft\<lparr>o_ptr := off_at 2, o_inode := Some 2, o_access := 2, o_refs := 1\<rparr> else no_oft)"
    if "f < 45" for f using that by (cases f) (simp_all add: o)
  have fd: "fds f file_state = (if f = 0 then 1 else 0)" for f by (simp add: fds_def u)
  have us: "users k file_state = (if k = 2 then 1 else 0)" for k by (simp add: users_def o no_oft_def)
  have r: "unat (c_refs (inop k file_state)) = (if k = 2 then 1 else 0) + (if k = 0 then 2 else 0)" if "k < 45" for k
  proof -
    have "c_refs (inop 2 file_state) = 1" by (simp add: file_state_def inop_def)
    moreover have "inop k file_state = ([root_ino, no_ino, inop 2 file_state] @ replicate 42 no_ino) ! k" unfolding inop_def [of k] using i by simp
    ultimately show ?thesis using that by (auto simp: nth_append nth_Cons' root_ino_def no_ino_def)
  qed
  have "c_magic (inop 2 file_state) = CMAGIC" by (simp add: file_state_def inop_def)
  moreover have "k < 45 \<and> c_magic (inop k file_state) = CMAGIC \<and> o_refs (of_tab file_state ! f) \<noteq> 0"
    if "f < 45" "o_inode (of_tab file_state ! f) = Some k" for f k
    using that(2) \<open>c_magic (inop 2 file_state) = CMAGIC\<close> by (auto simp: e [OF that(1)] no_oft_def split: if_splits)
  moreover have "unat (o_refs (of_tab file_state ! f)) = fds f file_state + 0" if "f < 45" for f
    by (simp add: e [OF that] fd no_oft_def)
  moreover have "length (i_tab file_state) = 45" by (subst i) simp
  ultimately show ?thesis unfolding typed_def using r e [of 0] by (simp add: us u) (simp add: o)
qed

lemma calls_keep_descriptors_typed_witness:
  "\<exists>t. foldM desc_run [Dup 0, Dup 3, Dup 0] file_state = Some t \<and> (\<forall>u. getinode u t \<noteq> None)"
proof -
  let ?ty = "typed (\<lambda>f. 0) (\<lambda>k. if k = 0 then 2 else 0)"
  have step: "\<exists>t. desc_run (Dup d) s = Some t \<and> ?ty t" if "?ty s" for d s
    using dup_typed [of "\<lambda>f. 0" "\<lambda>k. if k = 0 then 2 else 0" "s\<lparr>u_argn := d\<rparr>"] that by (auto simp: typed_args)
  from step [OF file_state_typed] obtain a where a: "desc_run (Dup 0) file_state = Some a" "?ty a" by blast
  from step [OF a(2)] obtain b where b: "desc_run (Dup 3) a = Some b" "?ty b" by blast
  from step [OF b(2)] obtain c where c: "desc_run (Dup 0) b = Some c" by blast
  have "foldM desc_run [Dup 0, Dup 3, Dup 0] file_state = Some c" using a(1) b(1) c by (simp del: desc_run.simps)
  with calls_keep_descriptors_typed [OF file_state_typed _ _ this] show ?thesis by auto
qed

end
