(* ===== verification/FileTrunc.thy ===== *)
theory FileTrunc
  imports FileIO
begin

section \<open>Truncation\<close>

text \<open>
  \<^verbatim>\<open>f_trunc\<close> empties a file: \<^verbatim>\<open>freeblk\<close> walks down the trees of its blocks and pushes every block on the free stack of the device, children
  before their parent, whose buffer stays held meanwhile.
\<close>

subsection \<open>Steps that free blocks\<close>

definition free_step :: "int \<Rightarrow> nat set \<Rightarrow> u16 list \<Rightarrow> u16 list \<Rightarrow> kst \<Rightarrow> kst \<Rightarrow> bool" where
  "free_step dev H fs xs s t \<longleftrightarrow> calm {} H t \<and> fs_ok t dev (fs @ xs) \<and> kept H s t \<and> u_error t = u_error s \<and>
     data_blk (fsp dev t) = data_blk (fsp dev s) \<and>
     (\<forall>e a. disk_dev e \<longrightarrow> e \<noteq> dev \<or> a \<notin> set fs \<longrightarrow> bview t e a = bview s e a)"

definition freeable :: "int \<Rightarrow> nat set \<Rightarrow> u16 list \<Rightarrow> u16 set \<Rightarrow> kst \<Rightarrow> bool" where
  "freeable dev H xs A s \<longleftrightarrow> calm {} H s \<and> fs_ok s dev xs \<and> A \<inter> set xs = {} \<and> 0 \<notin> A \<and>
     (\<forall>a \<in> A. data_blk (fsp dev s) a \<and> not_held s dev a)"

lemma free_step_refl: "calm {} H s \<Longrightarrow> fs_ok s dev xs \<Longrightarrow> free_step dev H [] xs s s"
  by (simp add: free_step_def)

lemma free_step_trans:
  "free_step dev H fs xs s t \<Longrightarrow> free_step dev H gs (fs @ xs) t u \<Longrightarrow> free_step dev H (gs @ fs) xs s u"
  by (auto simp: free_step_def intro: kept_trans)

lemma distinct_concat_rev: "distinct (concat (map f (rev xs))) \<longleftrightarrow> distinct (concat (map f xs))"
  by (induction xs) auto

lemma disjoint_concat: "(\<And>j. j \<in> set js \<Longrightarrow> X \<inter> set (f j) = {}) \<Longrightarrow> X \<inter> set (concat (map f js)) = {}"
  by auto

lemma freeable_mono: "freeable dev H xs A s \<Longrightarrow> B \<subseteq> A \<Longrightarrow> freeable dev H xs B s"
  by (auto simp: freeable_def)

lemma still_not_held:
  assumes "calm {} H s" "calm {} H t" "\<forall>j \<in> H. bufp j t = bufp j s" "not_held s d a"
  shows "not_held t d a"
proof -
  have "i \<in> H" if "i < 38" "bf_busy (bufp i t)" for i using assms(2) that by (auto simp: calm_def busyset_def)
  moreover have "bf_busy (bufp i s)" if "i \<in> H" for i using assms(1) that by (auto simp: calm_def busyset_def)
  ultimately show ?thesis using assms(3,4) unfolding not_held_def by metis
qed

lemma freeable_step:
  assumes "freeable dev H xs A s" "free_step dev H fs xs s t" "A \<inter> set fs = {}"
  shows "freeable dev H (fs @ xs) A t"
proof -
  have "not_held t dev a" if "a \<in> A" for a
    using assms that kept_fields(15) [of H s t] by (intro still_not_held [of H s t]) (auto simp: freeable_def free_step_def)
  then show ?thesis using assms by (auto simp: freeable_def free_step_def)
qed

lemma free_one:
  assumes "freeable dev H xs {x} s" "card H < 38"
  shows "\<exists>t. blk_free dev x s = Some t \<and> free_step dev H [x] xs s t"
proof -
  have "calm {} H s" "fs_ok s dev xs" "avail H s dev x" "x \<noteq> 0" "x \<notin> set xs" "data_blk (fsp dev s) x"
    using assms by (auto simp: freeable_def avail_def)
  from blk_free_push [OF this] show ?thesis by (auto simp: free_step_def)
qed

lemma free_keeps_nodes:
  assumes "free_step dev H fs xs s t" "disk_dev dev" "set (nodes h (bview s dev) p) \<inter> set fs = {}"
  shows "nodes h (bview t dev) p = nodes h (bview s dev) p"
proof (rule inner_cong(1))
  fix a assume "a \<in> set (inner h (bview s dev) p)"
  then have "a \<notin> set fs" using assms(3) inner_nodes [of h "bview s dev" p] by blast
  then show "bview t dev a = bview s dev a" using assms(1,2) by (simp add: free_step_def)
qed

text \<open>A loop over trees that share no block.\<close>

lemma free_loop:
  assumes body: "\<And>s xs p. freeable dev H xs (set (nodes h (bview s dev) p)) s \<Longrightarrow> distinct (nodes h (bview s dev) p) \<Longrightarrow>
      \<exists>t fs. freeblk h dev p s = Some t \<and> free_step dev H fs xs s t \<and> set fs = set (nodes h (bview s dev) p)"
    and g: "\<And>j t. j \<in> set js \<Longrightarrow> kept H r t \<Longrightarrow> c j t = g j" and rs: "kept H r s"
    and d: "distinct (concat (map (\<lambda>j. nodes h (bview s dev) (g j)) js))"
    and f: "freeable dev H xs (set (concat (map (\<lambda>j. nodes h (bview s dev) (g j)) js))) s"
  shows "\<exists>t fs. foldM (\<lambda>j s. freeblk h dev (c j s) s) js s = Some t \<and> free_step dev H fs xs s t \<and>
    set fs = set (concat (map (\<lambda>j. nodes h (bview s dev) (g j)) js))"
  using g rs d f
proof (induction js arbitrary: s xs)
  case Nil
  then show ?case using free_step_refl by (auto simp: freeable_def intro!: exI [of _ s] exI [of _ "[]"])
next
  case (Cons j js)
  let ?N = "\<lambda>s j. nodes h (bview s dev) (g j)"
  have cj: "c j s = g j" using Cons.prems(1,2) by simp
  have "freeable dev H xs (set (?N s j)) s" "distinct (?N s j)"
    using Cons.prems(3) freeable_mono [OF Cons.prems(4)] by auto
  from body [OF this] obtain t fs where
    t: "freeblk h dev (g j) s = Some t" "free_step dev H fs xs s t" "set fs = set (?N s j)" by blast
  have dd: "disk_dev dev" using Cons.prems(4) fs_okD(1) by (auto simp: freeable_def)
  have N: "?N t i = ?N s i" if "i \<in> set js" for i
    using Cons.prems(3) that by (intro free_keeps_nodes [OF t(2) dd]) (auto simp: t(3))
  have M: "map (?N t) js = map (?N s) js" using N by simp
  have kt: "kept H r t" using Cons.prems(2) t(2) by (auto simp: free_step_def intro: kept_trans)
  have "freeable dev H (fs @ xs) (set (concat (map (?N t) js))) t"
    unfolding M using Cons.prems(3) t(3)
    by (intro freeable_step [OF freeable_mono [OF Cons.prems(4)] t(2)]) auto
  moreover have "distinct (concat (map (?N t) js))" unfolding M using Cons.prems(3) by simp
  ultimately obtain u gs where
    u: "foldM (\<lambda>j s. freeblk h dev (c j s) s) js t = Some u" "free_step dev H gs (fs @ xs) t u" "set gs = set (concat (map (?N t) js))"
    using Cons.IH [of t "fs @ xs"] Cons.prems(1) kt by auto
  have "foldM (\<lambda>j s. freeblk h dev (c j s) s) (j # js) s = Some u" using t(1) u(1) by (simp add: cj)
  moreover have "set (gs @ fs) = set (concat (map (?N s) (j # js)))" using u(3) t(3) unfolding M by auto
  ultimately show ?case using free_step_trans [OF t(2) u(2)] by blast
qed

subsection \<open>freeblk\<close>

lemma freeblk_law:
  assumes "freeable dev H xs (set (nodes h (bview s dev) p)) s" "distinct (nodes h (bview s dev) p)" "card H + h < 38"
  shows "\<exists>t fs. freeblk h dev p s = Some t \<and> free_step dev H fs xs s t \<and> set fs = set (nodes h (bview s dev) p)"
  using assms
proof (induction h arbitrary: H s xs p)
  case 0
  then show ?case
  proof (cases "p = 0")
    case True
    then show ?thesis using 0 free_step_refl by (auto simp: freeable_def intro!: exI [of _ "[]"])
  next
    case False
    then show ?thesis using 0 free_one [of dev H xs p s] by (auto intro!: exI [of _ "[p]"])
  qed
next
  case (Suc h)
  show ?case
  proof (cases "p = 0")
    case True
    then show ?thesis using Suc.prems free_step_refl by (auto simp: freeable_def intro!: exI [of _ "[]"])
  next
    case False
    let ?V = "bview s dev" and ?c = "\<lambda>j. get16 (bview s dev p) j"
    let ?N = "concat (map (\<lambda>j. nodes h ?V (?c j)) (rev [0..<256]))"
    have ns: "set (nodes (Suc h) ?V p) = insert p (set ?N)" and nd: "p \<notin> set ?N" "distinct ?N"
      using Suc.prems(2) False unfolding distinct_concat_rev by simp_all
    note F = Suc.prems(1) [unfolded ns]
    have c: "calm {} H s" and fs: "fs_ok s dev xs" and av: "avail H s dev p" using F Suc.prems(3) by (auto simp: freeable_def avail_def)
    note dd = fs_okD(1) [OF fs]
    from open_read [OF c dd av] obtain b t where
      t: "breadp dev p False s = Some (b, t)" "b < 38" "b \<notin> H" "calm {} (insert b H) t" "same_rest s t" "same_views s t"
        "others_same b s t" "named (bufp b t) dev p" "buf_data b t = ?V p" by auto
    have vt: "bview t dev = ?V" using t(6) dd by (simp add: same_views_def fun_eq_iff)
    have ft: "fs_ok t dev xs" by (rule fs_ok_views [OF fs t(5)]) (simp add: vt)
    have "not_held t dev a" if "a \<in> set ?N" for a
    proof -
      have "a \<noteq> p" "not_held s dev a" using that nd(1) F by (auto simp: freeable_def)
      then show ?thesis using t(7,8) unfolding not_held_def others_same_def named_def by metis
    qed
    then have "freeable dev (insert b H) xs (set ?N) t"
      using F t(4) ft by (auto simp: freeable_def fsp_rest [OF t(5)])
    moreover have "finite H" using c by (auto simp: calm_def busyset_def)
    then have card: "card (insert b H) + h < 38" using t(3) Suc.prems(3) by simp
    moreover have "get16 (buf_data b u) j = ?c j" if "kept (insert b H) t u" for j u
      using kept_fields(15) [OF that, of b] t(9) by (simp add: buf_data_def)
    ultimately obtain u fs where
      u: "foldM (\<lambda>j s. freeblk h dev (get16 (buf_data b s) j) s) (rev [0..<256]) t = Some u"
        "free_step dev (insert b H) fs xs t u" "set fs = set ?N"
      using free_loop [of dev "insert b H" h "rev [0..<256]" t "\<lambda>j s. get16 (buf_data b s) j" ?c t xs] Suc.IH nd(2) unfolding vt by auto
    have "calm {} (insert b H) u" using u(2) by (simp add: free_step_def)
    from close_read [OF this insertI1] obtain v where
      v: "brelse b u = Some v" "calm {} (insert b H - {b}) v" "same_rest u v" "same_views u v" "others_same b u v" by auto
    have cv: "calm {} H v" using v(2) t(3) by (simp add: insert_Diff_if)
    have vv: "bview v e a = bview u e a" if "disk_dev e" for e a using v(4) that by (simp add: same_views_def)
    have fv: "fs_ok v dev (fs @ xs)" using u(2) vv [OF dd] by (intro fs_ok_views [OF _ v(3)]) (auto simp: free_step_def)
    have kv: "kept H s v"
    proof -
      have "kept H t u" using u(2) kept_mono [of "insert b H" t u H] by (auto simp: free_step_def)
      moreover have "\<forall>j \<in> H. bufp j t = bufp j s" "\<forall>j \<in> H. bufp j v = bufp j u" using t(3,7) v(5) by (auto simp: others_same_def)
      ultimately show ?thesis using kept_trans [OF keptI_rest [OF t(5)] kept_trans [OF _ keptI_rest [OF v(3)]]] by blast
    qed
    have sv: "free_step dev H fs xs s v"
      using u(2) cv fv kv t(6) vv v(3) t(5) by (auto simp: free_step_def same_views_def fsp_rest same_rest_kst)
    have "freeable dev H (fs @ xs) {p} v"
      using freeable_step [OF freeable_mono [OF F] sv, of "{p}"] nd(1) u(3) by auto
    from free_one [OF this] Suc.prems(3) obtain w where
      w: "blk_free dev p v = Some w" "free_step dev H [p] (fs @ xs) v w" by auto
    have "freeblk (Suc h) dev p s = Some w" using False t(1) u(1) v(1) w(1) by simp
    moreover have "set ([p] @ fs) = set (nodes (Suc h) ?V p)" unfolding ns by (simp add: u(3))
    ultimately show ?thesis using free_step_trans [OF sv w(2)] by blast
  qed
qed

subsection \<open>f_trunc\<close>

lemma file_nodes_parts:
  "set (file_nodes V A) = set (nodes 2 V (A ! 19)) \<union> set (nodes 1 V (A ! 18)) \<union>
     set (concat (map (\<lambda>j. nodes 0 V (A ! j)) (rev [0..<18])))"
proof -
  have "{0..<20} = {0..<18} \<union> {18, 19 :: nat}" by auto
  then show ?thesis by (auto simp: file_nodes_def tall_def)
qed

lemma trunc_law:
  assumes ok: "file_ok k xs s"
  defines "dev \<equiv> c_dev (inop k s)" and "N \<equiv> set (file_nodes (file_disk k s) (file_addr k s))"
  shows "\<exists>t u fs. free_step dev {} fs xs s u \<and> set fs = N \<and> f_trunc k s = Some t \<and>
    t = upd_node k (\<lambda>n. n\<lparr>i_size := \<lparr>o_blkno = 0, o_offset = 0\<rparr>\<rparr>)
      (upd_ino k (\<lambda>c. c\<lparr>c_dirty := 1\<rparr>) (upd_node k (\<lambda>n. n\<lparr>i_addr := replicate 20 0\<rparr>) u))"
proof -
  let ?V = "bview s dev" and ?A = "file_addr k s"
  let ?D = "concat (map (\<lambda>j. nodes 0 ?V (?A ! j)) (rev [0..<18]))"
  note O = ok [unfolded file_ok_def, folded dev_def N_def]
  have dd: "disk_dev dev" using O fs_okD(1) by blast
  have F: "freeable dev {} xs N s"
    using O quietD(3) file_nodes_nonzero [of ?V ?A] by (auto simp: freeable_def quiet_calm dev_def N_def)
  have dn: "distinct (file_nodes ?V ?A)" using O by (simp add: dev_def)
  have NN: "N = set (nodes 2 ?V (?A ! 19)) \<union> set (nodes 1 ?V (?A ! 18)) \<union> set ?D"
    unfolding N_def dev_def [symmetric] by (rule file_nodes_parts)
  note P = file_distinctD [OF dn]
  have d: "distinct (nodes 2 ?V (?A ! 19))" "distinct (nodes 1 ?V (?A ! 18))"
    using P(1) [of 19] P(1) [of 18] by (simp_all add: tall_def)
  have e: "set (nodes 2 ?V (?A ! 19)) \<inter> set (nodes 1 ?V (?A ! 18)) = {}"
    using P(2) [of 19 18] by (simp add: tall_def)
  have e0: "set (nodes 2 ?V (?A ! 19)) \<inter> set (nodes 0 ?V (?A ! j)) = {}" "set (nodes 1 ?V (?A ! 18)) \<inter> set (nodes 0 ?V (?A ! j)) = {}"
    if "j < 18" for j
    using P(2) [of 19 j] P(2) [of 18 j] that by (simp_all add: tall_def)
  have dD: "distinct ?D"
    unfolding distinct_concat_rev distinct_concat_upt
  proof (intro conjI allI impI)
    show "distinct (nodes 0 ?V (?A ! j))" if "j < 18" for j using P(1) [of j] that by (simp add: tall_def)
    show "set (nodes 0 ?V (?A ! j)) \<inter> set (nodes 0 ?V (?A ! i)) = {}" if "j < 18" "i < 18" "j \<noteq> i" for i j
      using P(2) [of j i] that by (simp add: tall_def)
  qed
  have eD: "set (nodes 2 ?V (?A ! 19)) \<inter> set ?D = {}" "set (nodes 1 ?V (?A ! 18)) \<inter> set ?D = {}"
    by (intro disjoint_concat e0; simp)+
  have A: "file_addr k u = ?A" if "kept {} s u" for u using kept_fields(1) [OF that] by (simp add: inop_def)
  from freeblk_law [OF freeable_mono [OF F] d(1)] NN obtain u1 f1 where
    u1: "freeblk 2 dev (?A ! 19) s = Some u1" "free_step dev {} f1 xs s u1" "set f1 = set (nodes 2 ?V (?A ! 19))" by auto
  have k1: "kept {} s u1" using u1(2) by (simp add: free_step_def)
  have n1: "nodes 1 (bview u1 dev) (?A ! 18) = nodes 1 ?V (?A ! 18)"
    using e unfolding u1(3) [symmetric] by (intro free_keeps_nodes [OF u1(2) dd]) blast
  have F1: "freeable dev {} (f1 @ xs) (set (nodes 1 ?V (?A ! 18)) \<union> set ?D) u1"
    using e eD NN unfolding u1(3) [symmetric] by (intro freeable_step [OF freeable_mono [OF F] u1(2)]; blast)
  have "freeable dev {} (f1 @ xs) (set (nodes 1 (bview u1 dev) (?A ! 18))) u1" unfolding n1 by (rule freeable_mono [OF F1]) simp
  from freeblk_law [OF this] d(2) obtain u2 f2 where
    u2: "freeblk 1 dev (?A ! 18) u1 = Some u2" "free_step dev {} f2 (f1 @ xs) u1 u2" "set f2 = set (nodes 1 ?V (?A ! 18))"
    unfolding n1 by auto
  note S2 = free_step_trans [OF u1(2) u2(2)]
  have k2: "kept {} s u2" using S2 by (simp add: free_step_def)
  have n2: "concat (map (\<lambda>j. nodes 0 (bview u2 dev) (?A ! j)) (rev [0..<18])) = ?D" by simp
  have F2: "freeable dev {} (f2 @ f1 @ xs) (set ?D) u2"
    using eD(2) unfolding u2(3) [symmetric] by (intro freeable_step [OF freeable_mono [OF F1] u2(2)]; blast)
  have "\<exists>t fs. foldM (\<lambda>j s. freeblk 0 dev (file_addr k s ! j) s) (rev [0..<18]) u2 = Some t \<and>
      free_step dev {} fs (f2 @ f1 @ xs) u2 t \<and> set fs = set ?D"
  proof -
    have "\<exists>t fs. freeblk 0 dev p s = Some t \<and> free_step dev {} fs xs s t \<and> set fs = set (nodes 0 (bview s dev) p)"
      if "freeable dev {} xs (set (nodes 0 (bview s dev) p)) s" "distinct (nodes 0 (bview s dev) p)" for s xs p
      by (rule freeblk_law [OF that]) simp
    moreover have "file_addr k t ! j = ?A ! j" if "kept {} s t" for j t using A [OF that] by simp
    ultimately show ?thesis
      using k2 dD F2 by (intro free_loop [where h = 0 and dev = dev and js = "rev [0..<18]" and r = s and g = "\<lambda>j. ?A ! j" and s = u2, unfolded n2]) blast+
  qed
  then obtain u3 f3 where
    u3: "foldM (\<lambda>j s. freeblk 0 dev (file_addr k s ! j) s) (rev [0..<18]) u2 = Some u3"
      "free_step dev {} f3 (f2 @ f1 @ xs) u2 u3" "set f3 = set ?D" by blast
  have "free_step dev {} (f3 @ f2 @ f1) xs s u3" using free_step_trans [OF S2, of f3 u3] u3(2) by simp
  moreover have "set (f3 @ f2 @ f1) = N" unfolding NN set_append u1(3) u2(3) u3(3) by blast
  moreover have "f_trunc k s = Some (upd_node k (\<lambda>n. n\<lparr>i_size := \<lparr>o_blkno = 0, o_offset = 0\<rparr>\<rparr>)
      (upd_ino k (\<lambda>c. c\<lparr>c_dirty := 1\<rparr>) (upd_node k (\<lambda>n. n\<lparr>i_addr := replicate 20 0\<rparr>) u3)))"
    unfolding f_trunc_def Let_def dev_def [symmetric] by (simp only: u1(1) u2(1) u3(1) A [OF k1] bind.bind_lunit)
  ultimately show ?thesis by blast
qed

text \<open>C8: \<^verbatim>\<open>f_trunc\<close> gives every block of a file back to the device, the blocks that hold block numbers included and each of them once: they
  lie on top of the free stack, which stays sound. The file is then empty and reads as zeros, and no other file has changed.\<close>

theorem trunc_returns_blocks:
  assumes ok: "file_ok k xs s"
  shows "\<exists>t fs. f_trunc k s = Some t \<and> file_ok k (fs @ xs) t \<and> distinct fs \<and>
    set fs = set (file_nodes (file_disk k s) (file_addr k s)) \<and> i_size (c_node (inop k t)) = off_at 0 \<and> (\<forall>j. fbyte k t j = 0) \<and>
    u_error t = u_error s \<and> (\<forall>l. l \<noteq> k \<longrightarrow> inop l t = inop l s) \<and>
    (\<forall>l. l \<noteq> k \<and> c_dev (inop l s) = c_dev (inop k s) \<and>
       set (file_nodes (file_disk l s) (file_addr l s)) \<inter> set (file_nodes (file_disk k s) (file_addr k s)) = {} \<longrightarrow>
       fbyte l t = fbyte l s)"
proof -
  let ?dev = "c_dev (inop k s)"
  from trunc_law [OF ok] obtain t u fs where
    u: "free_step ?dev {} fs xs s u" "set fs = set (file_nodes (file_disk k s) (file_addr k s))" "f_trunc k s = Some t"
      "t = upd_node k (\<lambda>n. n\<lparr>i_size := \<lparr>o_blkno = 0, o_offset = 0\<rparr>\<rparr>)
        (upd_ino k (\<lambda>c. c\<lparr>c_dirty := 1\<rparr>) (upd_node k (\<lambda>n. n\<lparr>i_addr := replicate 20 0\<rparr>) u))" by blast
  note O = ok [unfolded file_ok_def]
  have ku: "kept {} s u" using u(1) by (simp add: free_step_def)
  then have iu: "i_tab u = i_tab s" by (rule kept_fields)
  have kl: "k < length (i_tab s)" using O by blast
  have sp: "same_pool u t" by (simp add: u(4) same_pool_def upd_ino_def upd_node_def)
  note V = same_pool_views [OF sp]
  have i: "c_dev (inop k t) = ?dev" "file_addr k t = replicate 20 0" "i_size (c_node (inop k t)) = off_at 0"
    "l \<noteq> k \<Longrightarrow> inop l t = inop l s" "fs_tab t = fs_tab u" "length (i_tab t) = length (i_tab s)" "u_error t = u_error u" for l
    using kl iu by (simp_all add: u(4) inop_def upd_ino_def upd_node_def off_at_def)
  have fz: "file_nodes W (replicate 20 0) = []" "file_ptr W (replicate 20 0) n = 0" for W n
    by (simp_all add: file_nodes_def file_ptr_def)
  have "quiet t" "fs_ok t ?dev (fs @ xs)" using u(1) V(1,3) i(5) by (simp_all add: free_step_def quiet_calm fs_ok_def fsp_def)
  then have "file_ok k (fs @ xs) t" using kl by (simp add: file_ok_def i fz)
  moreover have "fbyte k t j = 0" for j by (simp add: fbyte_def block_of_def content_def i(2) fz zero_blk_def)
  moreover have "distinct fs"
  proof -
    have "fs_ok u ?dev (fs @ xs)" using u(1) by (simp add: free_step_def)
    from fs_okD(3) [OF this] show ?thesis by (simp add: super_ok_def)
  qed
  moreover have "fbyte l t = fbyte l s" if "l \<noteq> k" "c_dev (inop l s) = ?dev"
    "set (file_nodes (file_disk l s) (file_addr l s)) \<inter> set (file_nodes (file_disk k s) (file_addr k s)) = {}" for l
  proof (rule unchanged_file [OF i(4) [OF that(1)]], rule ballI)
    fix a assume "a \<in> set (file_nodes (file_disk l s) (file_addr l s))"
    then have "a \<notin> set fs" using that(3) unfolding u(2) by blast
    then show "file_disk l t a = file_disk l s a"
      using u(1) fs_okD(1) O that(2) by (auto simp: free_step_def V(1) i(4) [OF that(1)])
  qed
  moreover have "u_error t = u_error s" using u(1) i(7) by (simp add: free_step_def)
  ultimately show ?thesis using u(2,3) i(3,4) by blast
qed

lemma trunc_returns_blocks_witness: "\<exists>t. f_trunc 2 file_state = Some t \<and> file_ok 2 [20, 14, 13, 12] t"
proof -
  from trunc_returns_blocks [OF file_state_ok] obtain t fs where
    t: "f_trunc 2 file_state = Some t" "file_ok 2 (fs @ [14, 13, 12]) t" "distinct fs"
      "set fs = set (file_nodes (file_disk 2 file_state) (file_addr 2 file_state))" by blast
  have "set fs = {20}" using t(4) by (simp add: file_state_nodes)
  then have "fs = [20]" using t(3) by (cases fs) (auto simp: distinct_singleton dest: subset_singletonD)
  then show ?thesis using t(1,2) by auto
qed

end
