(* ===== verification/Scheduling.thy ===== *)
theory Scheduling
  imports Process
begin

section \<open>Properties of the process table\<close>

text \<open>
  Process numbers, the scheduler's choice, waking and tick counters. \<open>pid_nat\<close> states the next process
  number in natural numbers; its iterates run through 1 to 32001 before one comes back, so that among
  the first 31 of them one is not held by any of the 30 processes.
\<close>

subsection \<open>Process numbers\<close>

definition pid_nat :: "nat \<Rightarrow> nat" where
  "pid_nat n = n mod 32001 + 1"

lemma bump_pid_nat:
  assumes "unat n \<le> 32001"
  shows "unat (bump_pid n) = pid_nat (unat n)"
proof -
  have s: "sint n = int (unat n)" using assms by (intro sint_small) simp
  show ?thesis
  proof (cases "unat n \<le> 32000")
    case True
    then have "\<not> sint n > 32000" using s by linarith
    then show ?thesis using True by (simp add: bump_pid_def pid_nat_def unat_plus1_u16)
  next
    case False
    then have "unat n = 32001" using assms by simp
    then show ?thesis using s by (simp add: bump_pid_def pid_nat_def)
  qed
qed

lemma pid_nat_iterate: "(pid_nat ^^ Suc k) n = (n + k) mod 32001 + 1"
  by (induction k) (simp_all add: pid_nat_def mod_simps)

lemma pid_iterate: "unat n \<le> 32001 \<Longrightarrow> unat ((bump_pid ^^ k) n) = (pid_nat ^^ k) (unat n) \<and> (pid_nat ^^ k) (unat n) \<le> 32001"
proof (induction k)
  case 0
  then show ?case by simp
next
  case (Suc k)
  then show ?case by (auto simp: bump_pid_nat) (simp add: pid_nat_def)
qed

lemma pids_distinct:
  assumes "unat n \<le> 32001" "j < 32001" "k < 32001" "(bump_pid ^^ Suc j) n = (bump_pid ^^ Suc k) n"
  shows "j = k"
proof -
  have "(unat n + j) mod 32001 = (unat n + k) mod 32001"
    using assms(4) pid_iterate [OF assms(1), of "Suc j"] pid_iterate [OF assms(1), of "Suc k"]
    by (simp only: pid_nat_iterate) simp
  then have "(int (unat n) + int j) mod 32001 = (int (unat n) + int k) mod 32001"
    by (metis of_nat_add of_nat_numeral zmod_int)
  then have "32001 dvd int j - int k" by (simp only: mod_eq_dvd_iff) simp
  then show ?thesis using assms(2,3) dvd_imp_le_int [of "int j - int k" 32001] by (cases "j = k") auto
qed

lemma free_pid_exists:
  assumes "unat n \<le> 32001" "length tab \<le> PTABSIZE"
  shows "\<exists>k \<le> 30. \<not> pid_taken tab ((bump_pid ^^ Suc k) n)"
proof (rule ccontr)
  assume "\<not> ?thesis"
  then have "(\<lambda>k. (bump_pid ^^ Suc k) n) ` {..30} \<subseteq> p_pid ` set tab"
    by (auto simp: pid_taken_def image_iff) metis
  then have "card ((\<lambda>k. (bump_pid ^^ Suc k) n) ` {..30}) \<le> card (p_pid ` set tab)" by (intro card_mono) simp_all
  also have "\<dots> \<le> length tab" by (meson card_image_le card_length finite_set le_trans)
  finally have "card ((\<lambda>k. (bump_pid ^^ Suc k) n) ` {..30}) \<le> 30" using assms(2) by simp
  moreover have "inj_on (\<lambda>k. (bump_pid ^^ Suc k) n) {..30}"
    by (rule inj_onI) (rule pids_distinct [OF assms(1)], simp_all del: funpow.simps)
  ultimately show False by (simp add: card_image)
qed

lemma new_pid_steps:
  assumes "\<not> pid_taken tab ((bump_pid ^^ Suc k) n)" "\<forall>j < k. pid_taken tab ((bump_pid ^^ Suc j) n)"
  shows "new_pid tab n = Some ((bump_pid ^^ Suc k) n)"
  using assms
proof (induction k arbitrary: n)
  case 0
  then show ?case by (subst new_pid.simps) simp
next
  case (Suc k)
  have "pid_taken tab (bump_pid n)" using Suc.prems(2) by (metis funpow_0 funpow_Suc_right o_apply zero_less_Suc)
  moreover have "new_pid tab (bump_pid n) = Some ((bump_pid ^^ Suc k) (bump_pid n))"
  proof (rule Suc.IH)
    show "\<not> pid_taken tab ((bump_pid ^^ Suc k) (bump_pid n))"
      using Suc.prems(1) by (simp only: funpow_Suc_right o_apply not_False_eq_True)
    show "\<forall>j < k. pid_taken tab ((bump_pid ^^ Suc j) (bump_pid n))"
      using Suc.prems(2) by (metis Suc_mono funpow_Suc_right o_apply)
  qed
  ultimately show ?case by (subst new_pid.simps) (simp add: funpow_swap1)
qed

text \<open>C36: the search for a process number ends: whatever numbers the 30 entries of the process table hold, it
  returns after at most 31 steps a number between 1 and 32001 that no process has, the first free one
  after the last number given out, counting on from 1 behind 32001.\<close>

theorem new_pid_terminates:
  assumes "unat (nextpid s) \<le> 32001" "length (ptab s) \<le> PTABSIZE"
  shows "\<exists>k \<le> 30. new_pid (ptab s) (nextpid s) = Some (of_nat ((unat (nextpid s) + k) mod 32001 + 1)) \<and>
    \<not> pid_taken (ptab s) (of_nat ((unat (nextpid s) + k) mod 32001 + 1)) \<and>
    (\<forall>j < k. pid_taken (ptab s) (of_nat ((unat (nextpid s) + j) mod 32001 + 1)))"
proof -
  let ?P = "\<lambda>k. \<not> pid_taken (ptab s) ((bump_pid ^^ Suc k) (nextpid s))"
  have val: "(bump_pid ^^ Suc j) (nextpid s) = of_nat ((unat (nextpid s) + j) mod 32001 + 1)" for j
  proof -
    have "(bump_pid ^^ Suc j) (nextpid s) = of_nat (unat ((bump_pid ^^ Suc j) (nextpid s)))"
      by (simp del: funpow.simps)
    then show ?thesis using pid_iterate [OF assms(1), of "Suc j"] by (simp only: pid_nat_iterate)
  qed
  obtain k0 where k0: "k0 \<le> 30" "?P k0" using free_pid_exists [OF assms] by blast
  define k where "k = (LEAST k. ?P k)"
  have "?P k" unfolding k_def by (rule LeastI [of ?P, OF k0(2)])
  moreover have "k \<le> 30" using Least_le [of ?P, OF k0(2)] k0(1) unfolding k_def by simp
  moreover have "\<forall>j < k. \<not> ?P j" unfolding k_def using not_less_Least by blast
  ultimately show ?thesis using new_pid_steps [of "ptab s" k "nextpid s"] unfolding val by blast
qed

lemma new_pid_terminates_witness: "new_pid (ptab sample) (nextpid sample) \<noteq> None"
  using new_pid_terminates [of sample] by (force simp: sample_def)

subsection \<open>The scheduler's choice\<close>

definition turn :: "kst \<Rightarrow> nat \<Rightarrow> nat" where
  "turn s d = (sched_pp s + d) mod PTABSIZE"

definition only_idled :: "kst \<Rightarrow> kst \<Rightarrow> bool" where
  "only_idled s t \<longleftrightarrow> (\<exists>h c p. t = s\<lparr>sched_pp := p, lcnt := c, hd := h\<rparr>)"

lemma only_idledI: "only_idled s (s\<lparr>sched_pp := p, lcnt := c, hd := h\<rparr>)"
  by (auto simp: only_idled_def)

lemma idle_work_eq:
  "\<exists>h. idle_work s = s\<lparr>lcnt := lcnt s + 1, hd := h\<rparr>"
proof -
  let ?t = "s\<lparr>lcnt := lcnt s + 1\<rparr>"
  have "?t = s\<lparr>lcnt := lcnt s + 1, hd := hd s\<rparr>" by (cases s) simp
  moreover have "idle_work s = ?t \<or> idle_work s = ?t\<lparr>hd := int_ca_sync (hd s)\<rparr>"
    by (simp add: idle_work_def Let_def)
  ultimately show ?thesis by (elim disjE) (blast intro: trans)+
qed

lemma idle_work_frame: "only_idled s (idle_work (s\<lparr>sched_pp := p\<rparr>))" "sched_pp (idle_work s) = sched_pp s"
  using idle_work_eq [of s] idle_work_eq [of "s\<lparr>sched_pp := p\<rparr>"] only_idledI [of s] by auto

lemma only_idled_trans: "only_idled s t \<Longrightarrow> only_idled t u \<Longrightarrow> only_idled s u"
  unfolding only_idled_def by (elim exE, simp) blast

lemma only_idled_ptab: "only_idled s t \<Longrightarrow> ptab t = ptab s"
  by (auto simp: only_idled_def)

lemma next_pp_turn: "sched_pp s < PTABSIZE \<Longrightarrow> next_pp (sched_pp s) = turn s 1"
  by (cases "sched_pp s = 29") (auto simp: next_pp_def turn_def)

lemma getproc_walk:
  assumes "sched_pp s < PTABSIZE" "p_status (procp (turn s (Suc d)) s) = P_READY"
    "\<forall>e < d. p_status (procp (turn s (Suc e)) s) \<noteq> P_READY \<and> p_status (procp (turn s (Suc e)) s) \<noteq> P_RUNNING"
  shows "\<exists>t. getproc s = Some (turn s (Suc d), t) \<and> only_idled s t \<and> sched_pp t = turn s (Suc d)"
  using assms
proof (induction d arbitrary: s)
  case 0
  have "only_idled s (s\<lparr>sched_pp := turn s 1\<rparr>)"
    unfolding only_idled_def by (intro exI [of _ "hd s"] exI [of _ "lcnt s"] exI [of _ "turn s 1"]) simp
  with 0 show ?case
    by (subst getproc.simps) (simp add: Let_def next_pp_turn procp_def status_defs)
next
  case (Suc d)
  define u where "u = idle_work (s\<lparr>sched_pp := turn s 1\<rparr>)"
  have u: "only_idled s u" "sched_pp u = turn s 1" unfolding u_def by (simp_all add: idle_work_frame)
  have tu: "turn u j = turn s (Suc j)" for j
    using u(2) by (simp add: turn_def mod_simps)
  have pu: "procp j u = procp j s" for j using only_idled_ptab [OF u(1)] by (simp add: procp_def)
  have "\<exists>t. getproc u = Some (turn u (Suc d), t) \<and> only_idled u t \<and> sched_pp t = turn u (Suc d)"
  proof (rule Suc.IH)
    show "sched_pp u < PTABSIZE" unfolding u(2) by (simp add: turn_def)
    show "p_status (procp (turn u (Suc d)) u) = P_READY" using Suc.prems(2) by (simp add: tu pu)
    show "\<forall>e < d. p_status (procp (turn u (Suc e)) u) \<noteq> P_READY \<and> p_status (procp (turn u (Suc e)) u) \<noteq> P_RUNNING"
      using Suc.prems(3) by (simp add: tu pu)
  qed
  moreover have "getproc s = getproc u"
    using Suc.prems(3) [rule_format, of 0] Suc.prems(1)
    by (subst getproc.simps) (simp add: Let_def next_pp_turn procp_def u_def)
  ultimately show ?case using only_idled_trans [OF u(1)] by (auto simp: tu)
qed

lemma getproc_first_ready:
  assumes "sched_pp s < PTABSIZE" "k < PTABSIZE" "p_status (procp k s) = P_READY"
    "\<forall>j < PTABSIZE. p_status (procp j s) \<noteq> P_RUNNING"
  obtains d t where "d < PTABSIZE" "getproc s = Some (turn s (Suc d), t)" "only_idled s t" "sched_pp t = turn s (Suc d)"
    "p_status (procp (turn s (Suc d)) s) = P_READY" "\<forall>e < d. p_status (procp (turn s (Suc e)) s) \<noteq> P_READY"
proof -
  let ?P = "\<lambda>d. p_status (procp (turn s (Suc d)) s) = P_READY"
  define e where "e = (if sched_pp s < k then k - sched_pp s - 1 else k + 29 - sched_pp s)"
  have "turn s (Suc e) = k" "e < PTABSIZE" using assms(1,2) by (auto simp: turn_def e_def)
  then have ex: "?P e" using assms(3) by simp
  define d where "d = (LEAST d. ?P d)"
  have d: "?P d" unfolding d_def by (rule LeastI [of ?P, OF ex])
  have before: "\<forall>e < d. \<not> ?P e" using not_less_Least unfolding d_def by blast
  have "d < PTABSIZE" using Least_le [of ?P, OF ex] \<open>e < PTABSIZE\<close> unfolding d_def by (rule le_less_trans)
  moreover obtain t where "getproc s = Some (turn s (Suc d), t)" "only_idled s t" "sched_pp t = turn s (Suc d)"
    using getproc_walk [OF assms(1) d] before assms(4) by (force simp: turn_def)
  ultimately show thesis using that d before by blast
qed

text \<open>C37: when no process is marked running and some process is ready, \<^verbatim>\<open>getproc\<close> returns after at most 30
  looks: it chooses the first ready process behind the one chosen last, in the cyclic order of the table.
  It changes nothing but its own counters and, by the background flush, the disk driver's state.\<close>

theorem getproc_takes_turns:
  assumes "sched_pp s < PTABSIZE" "k < PTABSIZE" "p_status (procp k s) = P_READY"
    "\<forall>j < PTABSIZE. p_status (procp j s) \<noteq> P_RUNNING"
  shows "\<exists>d t. 1 \<le> d \<and> d \<le> PTABSIZE \<and> getproc s = Some (turn s d, t) \<and>
    p_status (procp (turn s d) s) = P_READY \<and>
    (\<forall>e. 1 \<le> e \<longrightarrow> e < d \<longrightarrow> p_status (procp (turn s e) s) \<noteq> P_READY) \<and>
    sched_pp t = turn s d \<and> only_idled s t"
proof (cases rule: getproc_first_ready [OF assms])
  case (1 d t)
  then have "\<forall>e. 1 \<le> e \<longrightarrow> e < Suc d \<longrightarrow> p_status (procp (turn s e) s) \<noteq> P_READY"
    by (metis Suc_le_D One_nat_def Suc_less_eq)
  then show ?thesis using 1 by (intro exI [of _ "Suc d"] exI [of _ t]) simp
qed

definition two_ready :: kst where
  "two_ready = sample\<lparr>ptab := (replicate 30 no_proc)[3 := no_proc\<lparr>p_status := P_READY\<rparr>, 7 := no_proc\<lparr>p_status := P_READY\<rparr>],
     sched_pp := 3\<rparr>"

lemma two_ready_sched: "sched_pp two_ready = 3"
  by (simp add: two_ready_def)

lemma getproc_takes_turns_witness: "\<exists>t. getproc two_ready = Some (7, t)"
proof -
  have st: "p_status (procp j two_ready) = (if j = 3 \<or> j = 7 then P_READY else P_EMPTY)" if "j < PTABSIZE" for j
    using that by (simp add: procp_def two_ready_def nth_list_update no_proc_def)
  have "\<exists>d t. 1 \<le> d \<and> d \<le> PTABSIZE \<and> getproc two_ready = Some (turn two_ready d, t) \<and>
    p_status (procp (turn two_ready d) two_ready) = P_READY \<and>
    (\<forall>e. 1 \<le> e \<longrightarrow> e < d \<longrightarrow> p_status (procp (turn two_ready e) two_ready) \<noteq> P_READY) \<and>
    sched_pp t = turn two_ready d \<and> only_idled two_ready t"
  proof (rule getproc_takes_turns [of two_ready 7])
    show "\<forall>j < PTABSIZE. p_status (procp j two_ready) \<noteq> P_RUNNING" using st by (simp add: status_defs)
  qed (simp_all add: st two_ready_sched)
  then obtain d t where d: "1 \<le> d" "getproc two_ready = Some (turn two_ready d, t)"
    "p_status (procp (turn two_ready d) two_ready) = P_READY"
    "\<forall>e. 1 \<le> e \<longrightarrow> e < d \<longrightarrow> p_status (procp (turn two_ready e) two_ready) \<noteq> P_READY" by blast
  have at: "turn two_ready e = (3 + e) mod 30" for e by (simp add: turn_def two_ready_sched)
  have "\<not> 4 < d" using d(4) [rule_format, of 4] by (auto simp: at st)
  moreover have "(3 + d) mod 30 = 3 \<or> (3 + d) mod 30 = 7"
    using d(3) by (auto simp: at st status_defs split: if_splits)
  moreover have "d = 1 \<or> d = 2 \<or> d = 3 \<or> d = 4" if "\<not> 4 < d" using that d(1) by arith
  ultimately have "d = 4" by auto
  then show ?thesis using d(2) by (simp add: at)
qed

end
