(* ===== verification/Signals.thy ===== *)
theory Signals
  imports Scheduling
begin

section \<open>Properties of signals and clock ticks\<close>

text \<open>
  The delivery of signals from \<^verbatim>\<open>kill\<close> to the handler, and the counters of clock ticks.
\<close>

subsection \<open>Clock ticks\<close>

definition tick_count :: "time_t \<Rightarrow> nat" where
  "tick_count t = 7680 * unat (t_date t) + unat (t_time t)"

definition tick_ok :: "time_t \<Rightarrow> bool" where
  "tick_ok t \<longleftrightarrow> unat (t_time t) < 7680"

text \<open>the tick counters keep minutes and 128ths of a second: \<^verbatim>\<open>incrtick\<close> counts one tick, \<^verbatim>\<open>addtick\<close>
  adds two counters, and both keep the ticks below a minute, as long as the minutes do not overflow.\<close>

theorem ticks_count:
  assumes "tick_ok t" "tick_ok u" "tick_count t + tick_count u < 7680 * 65536"
    "tick_count t + 1 < 7680 * 65536"
  shows "tick_count (incrtick t) = tick_count t + 1 \<and> tick_ok (incrtick t) \<and>
    tick_count (addtick t u) = tick_count t + tick_count u \<and> tick_ok (addtick t u)"
proof -
  have add: "unat ((a :: u16) + b) = unat a + unat b" if "unat a + unat b < 65536" for a b
    using that by (simp add: unat_word_ariths)
  have c: "60 * TICKSPERSEC = 7680" by (simp add: TICKSPERSEC_def)
  let ?x = "t_time t" and ?y = "t_time u" and ?d = "t_date t" and ?e = "t_date u"
  have x: "unat ?x < 7680" "unat ?y < 7680" using assms(1,2) by (simp_all add: tick_ok_def)
  have sum: "unat (?x + ?y) = unat ?x + unat ?y" using x by (intro add) simp
  have one: "unat (?x + 1) = unat ?x + 1" using x add [of ?x 1] by simp
  have "tick_count (incrtick t) = tick_count t + 1 \<and> tick_ok (incrtick t)"
  proof (cases "?x + 1 = 7680")
    case True
    then have "unat ?x = 7679" using one by simp
    moreover have "unat (?d + 1) = unat ?d + 1" using assms(4) add [of ?d 1] calculation by (simp add: tick_count_def)
    ultimately show ?thesis using True by (simp add: incrtick_def Let_def c tick_count_def tick_ok_def)
  next
    case False
    then have "unat (?x + 1) \<noteq> unat (7680 :: u16)" using unsigned_word_eqI by blast
    then have "unat ?x + 1 \<noteq> 7680" using one by simp
    then show ?thesis using False x one by (simp add: incrtick_def Let_def c tick_count_def tick_ok_def)
  qed
  moreover have "tick_count (addtick t u) = tick_count t + tick_count u \<and> tick_ok (addtick t u)"
  proof (cases "7680 \<le> ?x + ?y")
    case True
    then have le: "7680 \<le> unat ?x + unat ?y" using sum by (simp add: word_le_nat_alt)
    then have "unat ?d + unat ?e + 1 < 65536" using assms(3) by (simp add: tick_count_def)
    then have "unat (?d + ?e + 1) = unat ?d + unat ?e + 1" using add [of ?d ?e] add [of "?d + ?e" 1] by simp
    moreover have "unat (?x + ?y - 7680) = unat ?x + unat ?y - 7680" using True sum by (simp add: unat_sub)
    ultimately show ?thesis using True le x by (simp add: addtick_def Let_def c tick_count_def tick_ok_def)
  next
    case False
    then have le: "unat ?x + unat ?y < 7680" using sum by (simp add: word_le_nat_alt)
    then have "unat ?d + unat ?e < 65536" using assms(3) by (simp add: tick_count_def)
    then show ?thesis using False le sum add [of ?d ?e] by (simp add: addtick_def Let_def c tick_count_def tick_ok_def)
  qed
  ultimately show ?thesis by simp
qed

lemma ticks_count_witness:
  "tick_count (addtick \<lparr>t_time = 7000, t_date = 2\<rparr> \<lparr>t_time = 700, t_date = 3\<rparr>) = 7680 * 6 + 20"
  using ticks_count [of "\<lparr>t_time = 7000, t_date = 2\<rparr>" "\<lparr>t_time = 700, t_date = 3\<rparr>"]
  by (simp add: tick_ok_def tick_count_def)

subsection \<open>The choice of the signal\<close>

text \<open>What \<^verbatim>\<open>chksigs\<close> finds for signal \<open>j\<close>: it is not pending or ignored, it has the default action, or it
  is caught. \<open>take_sigs\<close> clears the caught signals of a list and notes the last one as the signal whose
  handler runs next.\<close>

definition pends :: "nat \<Rightarrow> kst \<Rightarrow> bool" where
  "pends j s \<longleftrightarrow> sigmask (of_nat j) AND p_pending (procp (u_ptab s) s) \<noteq> 0"

definition deadly :: "kst \<Rightarrow> nat \<Rightarrow> bool" where
  "deadly s j \<longleftrightarrow> pends j s \<and> u_sigvec s ! j = SIG_DFL"

definition caught :: "kst \<Rightarrow> nat \<Rightarrow> bool" where
  "caught s j \<longleftrightarrow> pends j s \<and> u_sigvec s ! j \<noteq> SIG_DFL \<and> u_sigvec s ! j \<noteq> SIG_IGN"

definition take_sig :: "nat \<Rightarrow> kst \<Rightarrow> kst" where
  "take_sig j s = (upd_proc (u_ptab s) (\<lambda>p. p\<lparr>p_pending := p_pending p AND NOT (sigmask (of_nat j))\<rparr>) s)\<lparr>u_cursig := of_nat j\<rparr>"

definition take_sigs :: "nat list \<Rightarrow> kst \<Rightarrow> kst" where
  "take_sigs = fold take_sig"

lemma sigmask_bit: "j < 16 \<Longrightarrow> bit (sigmask (of_nat j)) n \<longleftrightarrow> n = j"
proof -
  assume j: "j < 16"
  then have "unat (of_nat j :: u16) = j" by (simp add: unsigned_of_nat take_bit_nat_eq_self)
  then show ?thesis using j by (auto simp: sigmask_def bit_simps)
qed

lemma pends_bit: "j < 16 \<Longrightarrow> pends j s \<longleftrightarrow> bit (p_pending (procp (u_ptab s) s)) j"
proof -
  assume j: "j < 16"
  have "sigmask (of_nat j) AND w \<noteq> 0 \<longleftrightarrow> bit w j" for w
    unfolding bit_eq_iff [where b = 0] bit_and_iff sigmask_bit [OF j] using j by (auto simp: impossible_bit)
  then show ?thesis by (simp add: pends_def)
qed

lemma take_sig_frame: "u_ptab (take_sig j s) = u_ptab s" "u_sigvec (take_sig j s) = u_sigvec s"
  by (simp_all add: take_sig_def upd_proc_def)

lemma take_sig_pends:
  assumes "j < 16" "k < 16" "j \<noteq> k" "u_ptab s < length (ptab s)"
  shows "pends k (take_sig j s) = pends k s"
  using assms by (simp add: pends_bit, simp add: take_sig_def upd_proc_def procp_def bit_simps sigmask_bit)

lemma chk_loop_spec:
  assumes "set js \<subseteq> {1..<16}" "distinct js" "u_ptab s < length (ptab s)"
  shows "chk_loop js s =
    (case dropWhile (\<lambda>j. \<not> deadly s j) js of
       [] \<Rightarrow> Some (False, take_sigs (filter (caught s) js) s)
     | d # _ \<Rightarrow> map_option (Pair True)
         (doexit 0 (of_nat d) (take_sigs (filter (caught s) (takeWhile (\<lambda>j. \<not> deadly s j) js)) s)))"
  using assms
proof (induction js arbitrary: s)
  case Nil
  then show ?case by (simp add: take_sigs_def)
next
  case (Cons j js)
  have j: "j < 16" using Cons.prems(1) by simp
  have step: "chk_loop (j # js) s =
      (if deadly s j then map_option (Pair True) (doexit 0 (of_nat j) s)
       else if caught s j then chk_loop js (take_sig j s) else chk_loop js s)"
    by (simp add: deadly_def caught_def pends_def take_sig_def Let_def map_option_case option.map_comp
        split: option.split)
  have same: "deadly (take_sig j s) k = deadly s k" "caught (take_sig j s) k = caught s k" if "k \<in> set js" for k
  proof -
    have "k < 16" "j \<noteq> k" using that Cons.prems(1,2) by auto
    then have "pends k (take_sig j s) = pends k s" using Cons.prems(3) by (intro take_sig_pends [OF j])
    then show "deadly (take_sig j s) k = deadly s k" "caught (take_sig j s) k = caught s k"
      by (simp_all add: deadly_def caught_def take_sig_frame)
  qed
  have rest: "set js \<subseteq> {1..<16}" "distinct js" using Cons.prems(1,2) by simp_all
  have next_spec: "chk_loop js (take_sig j s) =
    (case dropWhile (\<lambda>j. \<not> deadly s j) js of
       [] \<Rightarrow> Some (False, take_sigs (filter (caught s) js) (take_sig j s))
     | d # _ \<Rightarrow> map_option (Pair True)
         (doexit 0 (of_nat d) (take_sigs (filter (caught s) (takeWhile (\<lambda>j. \<not> deadly s j) js)) (take_sig j s))))"
  proof -
    have len: "u_ptab (take_sig j s) < length (ptab (take_sig j s))" using Cons.prems(3) by (simp add: take_sig_def upd_proc_def)
    have "dropWhile (\<lambda>k. \<not> deadly (take_sig j s) k) js = dropWhile (\<lambda>k. \<not> deadly s k) js"
      "takeWhile (\<lambda>k. \<not> deadly (take_sig j s) k) js = takeWhile (\<lambda>k. \<not> deadly s k) js"
      using same by (auto intro: dropWhile_cong takeWhile_cong)
    moreover have "filter (caught (take_sig j s)) ks = filter (caught s) ks" if "set ks \<subseteq> set js" for ks
      using that same by (auto intro: filter_cong)
    moreover from this have "filter (caught (take_sig j s)) js = filter (caught s) js"
      "filter (caught (take_sig j s)) (takeWhile P js) = filter (caught s) (takeWhile P js)" for P
      by (auto dest: set_takeWhileD)
    ultimately show ?thesis by (simp only: Cons.IH [OF rest len])
  qed
  show ?case
  proof (cases "deadly s j")
    case True
    then show ?thesis by (simp only: step) (simp add: take_sigs_def)
  next
    case False
    then have dt: "dropWhile (\<lambda>j. \<not> deadly s j) (j # js) = dropWhile (\<lambda>j. \<not> deadly s j) js"
      "takeWhile (\<lambda>j. \<not> deadly s j) (j # js) = j # takeWhile (\<lambda>j. \<not> deadly s j) js" by simp_all
    show ?thesis
    proof (cases "caught s j")
      case True
      then have cs: "take_sigs (filter (caught s) (j # ks)) s = take_sigs (filter (caught s) ks) (take_sig j s)" for ks
        by (simp add: take_sigs_def)
      show ?thesis using False True by (simp only: step dt cs next_spec if_True if_False)
    next
      case no: False
      then have cs: "filter (caught s) (j # ks) = filter (caught s) ks" for ks by simp
      show ?thesis using False no by (simp only: step dt cs Cons.IH [OF rest Cons.prems(3)] if_False)
    qed
  qed
qed

lemma chk_loop_alive:
  assumes "set js \<subseteq> {1..<16}" "distinct js" "u_ptab s < length (ptab s)" "\<forall>j \<in> set js. \<not> deadly s j"
  shows "chk_loop js s = Some (False, take_sigs (filter (caught s) js) s)"
proof -
  have dw: "dropWhile (\<lambda>j. \<not> deadly s j) js = []" using assms(4) by simp
  show ?thesis by (simp only: chk_loop_spec [OF assms(1,2,3)] dw list.case)
qed

lemma take_sigs_ptab:
  "u_ptab s < length (ptab s) \<Longrightarrow> set js \<subseteq> {..<16} \<Longrightarrow> u_ptab (take_sigs js s) = u_ptab s \<and> u_sigvec (take_sigs js s) = u_sigvec s \<and>
     length (ptab (take_sigs js s)) = length (ptab s) \<and>
     (\<forall>k < 16. pends k (take_sigs js s) \<longleftrightarrow> pends k s \<and> k \<notin> set js) \<and>
     u_cursig (take_sigs js s) = (if js = [] then u_cursig s else of_nat (last js))"
proof (induction js arbitrary: s)
  case Nil
  then show ?case by (simp add: take_sigs_def)
next
  case (Cons j js)
  let ?t = "take_sig j s"
  have t: "u_ptab ?t = u_ptab s" "u_sigvec ?t = u_sigvec s" "length (ptab ?t) = length (ptab s)" "u_cursig ?t = of_nat j"
    by (simp_all add: take_sig_def upd_proc_def)
  have j: "j < 16" using Cons.prems(2) by simp
  have "pends k ?t \<longleftrightarrow> pends k s \<and> k \<noteq> j" if "k < 16" for k
    using that j Cons.prems(1) by (simp add: pends_bit, auto simp: take_sig_def upd_proc_def procp_def bit_simps sigmask_bit)
  moreover have "take_sigs (j # js) s = take_sigs js ?t" by (simp add: take_sigs_def)
  ultimately show ?case using Cons.IH [of ?t] Cons.prems by (auto simp: t)
qed

text \<open>C38: \<^verbatim>\<open>chksigs\<close> looks at the signals 1 to 15 in order. When none that is pending has the default action,
  the process goes on: exactly the caught ones are no longer pending, so only the handler of the highest
  is run, through \<^verbatim>\<open>u_cursig\<close>, and the ignored ones stay pending. Otherwise the process exits, with the
  number of the first pending signal that has the default action in the low byte of its status.\<close>

theorem chksigs_chooses:
  assumes "u_ptab s < length (ptab s)" "p_pending (procp (u_ptab s) s) \<noteq> 0"
  shows "if \<forall>j \<in> {1..<16}. \<not> deadly s j
    then \<exists>t. chksigs s = Some (False, t) \<and>
           (\<forall>j < 16. pends j t \<longleftrightarrow> pends j s \<and> \<not> (1 \<le> j \<and> caught s j)) \<and>
           u_cursig t = (if \<exists>j \<in> {1..<16}. caught s j then of_nat (Max {j \<in> {1..<16}. caught s j}) else u_cursig s)
    else \<exists>d t. d \<in> {1..<16} \<and> deadly s d \<and> (\<forall>j \<in> {1..<d}. \<not> deadly s j) \<and>
           chksigs s = map_option (Pair True) (doexit 0 (of_nat d) t)"
proof -
  define L where "L = [1..<16 :: nat]"
  have L: "set L = {1..<16}" "distinct L" "sorted L" "sorted_wrt (<) L"
    unfolding L_def by (simp_all add: sorted_wrt_upt del: upt_Suc)
  have chk: "chksigs s = chk_loop L s" using assms(2) by (simp add: chksigs_def NSIGS_def L_def)
  note spec = chk_loop_spec [OF equalityD1 [OF L(1)] L(2) assms(1)]
  show ?thesis
  proof (cases "\<forall>j \<in> {1..<16}. \<not> deadly s j")
    case True
    let ?js = "filter (caught s) L"
    have run: "chksigs s = Some (False, take_sigs ?js s)"
      unfolding chk using True L(1) by (intro chk_loop_alive [OF equalityD1 [OF L(1)] L(2) assms(1)]) simp
    have sub: "set ?js \<subseteq> {..<16}" using L(1) by auto
    have last: "last ?js = Max {j \<in> {1..<16}. caught s j}" if "?js \<noteq> []"
    proof -
      have "sorted ?js" using L(3) by (rule sorted_wrt_filter)
      then have "\<forall>x \<in> set ?js. x \<le> last ?js" using that
        by (metis append_butlast_last_id in_set_conv_nth last_conv_nth length_greater_0_conv less_Suc_eq_le One_nat_def Suc_pred sorted_nth_mono diff_Suc_less)
      then have "Max (set ?js) = last ?js" using last_in_set [OF that] by (intro Max_eqI) auto
      moreover have "set ?js = {j \<in> {1..<16}. caught s j}" using L(1) by auto
      ultimately show ?thesis by simp
    qed
    have "?js = [] \<longleftrightarrow> \<not> (\<exists>j \<in> {1..<16}. caught s j)" by (auto simp: filter_empty_conv L(1))
    then show ?thesis using True run last take_sigs_ptab [OF assms(1) sub] by (auto simp: L(1))
  next
    case False
    then have "dropWhile (\<lambda>j. \<not> deadly s j) L \<noteq> []" by (simp add: dropWhile_eq_Nil_conv L(1))
    then obtain d ds where d: "dropWhile (\<lambda>j. \<not> deadly s j) L = d # ds" by (cases "dropWhile (\<lambda>j. \<not> deadly s j) L") auto
    then have "deadly s d" by (metis hd_dropWhile list.distinct(1) list.sel(1))
    moreover have split: "takeWhile (\<lambda>j. \<not> deadly s j) L @ d # ds = L" by (metis d takeWhile_dropWhile_id)
    then have "d \<in> {1..<16}" by (metis L(1) in_set_conv_decomp)
    moreover have "\<not> deadly s j" if "j \<in> {1..<d}" for j
    proof -
      have "j \<in> set (takeWhile (\<lambda>j. \<not> deadly s j) L @ d # ds)"
        using that \<open>d \<in> {1..<16}\<close> L(1) unfolding split by auto
      moreover have "\<forall>x \<in> set ds. d < x" using L(4) split by (metis sorted_wrt_append sorted_wrt.simps(2))
      ultimately have "j \<in> set (takeWhile (\<lambda>j. \<not> deadly s j) L)" using that by auto
      then show ?thesis using set_takeWhileD by metis
    qed
    moreover have "chksigs s = map_option (Pair True)
        (doexit 0 (of_nat d) (take_sigs (filter (caught s) (takeWhile (\<lambda>j. \<not> deadly s j) L)) s))"
      by (simp only: chk spec d list.case)
    ultimately show ?thesis using False by auto
  qed
qed


definition two_signals :: kst where
  "two_signals = sample\<lparr>ptab := [init_proc\<lparr>p_pending := 0x8006\<rparr>], u_sigvec := (replicate 16 0)[1 := 0x1234, 2 := 0x4321, 15 := SIG_IGN]\<rparr>"

lemma chksigs_chooses_witness: "map_option (\<lambda>(gone, t). (gone, u_cursig t)) (chksigs two_signals) = Some (False, 2)"
proof -
  have p: "p_pending (procp (u_ptab two_signals) two_signals) = 0x8006" "u_ptab two_signals < length (ptab two_signals)"
    by (simp_all add: two_signals_def procp_def sample_def)
  have bits: "pends j two_signals \<longleftrightarrow> j = 1 \<or> j = 2 \<or> j = 15" if "j < 16" for j
  proof -
    from that have "j = 0 \<or> j = 1 \<or> j = 2 \<or> j = 3 \<or> j = 4 \<or> j = 5 \<or> j = 6 \<or> j = 7 \<or> j = 8 \<or> j = 9 \<or> j = 10 \<or>
      j = 11 \<or> j = 12 \<or> j = 13 \<or> j = 14 \<or> j = 15" by presburger
    then have "bit (0x8006 :: u16) j \<longleftrightarrow> j = 1 \<or> j = 2 \<or> j = 15" by (elim disjE) simp_all
    then show ?thesis unfolding pends_bit [OF that] p(1) .
  qed
  have alive: "\<forall>j \<in> {1..<16}. \<not> deadly two_signals j"
    by (auto simp: deadly_def bits) (auto simp: two_signals_def SIG_DFL_def SIG_IGN_def)
  have caught: "{j \<in> {1..<16}. caught two_signals j} = {1, 2}"
    by (auto simp: caught_def bits) (auto simp: two_signals_def SIG_DFL_def SIG_IGN_def)
  then have "\<exists>j \<in> {1..<16}. caught two_signals j" by blast
  with chksigs_chooses [OF p(2)] p(1) alive caught show ?thesis by force
qed


subsection \<open>kill\<close>

lemma filter_single: "distinct xs \<Longrightarrow> x \<in> set xs \<Longrightarrow> filter (\<lambda>y. y = x) xs = [x]"
  by (induction xs) (auto simp: filter_empty_conv)

lemma ssig_procp: "k < length (ptab s) \<Longrightarrow> procp j (ssig k sig s) = (if j = k then ssig1 sig (procp k s) else procp j s)"
  by (simp add: procp_def ssig_def upd_proc_def nth_list_update)

text \<open>C28: \<^verbatim>\<open>kill\<close> reaches no process it must not reach: an entry of the process table that it changes has the
  wanted number, belongs to the caller's user unless the caller is the super user, is in use and does not
  ignore the signal, whose number is between 1 and 15. What changes is that the signal becomes pending,
  and that a process that pauses, waits or sleeps becomes ready.\<close>

theorem kill_reaches_permitted:
  assumes "length (ptab s) = PTABSIZE" "k < PTABSIZE" "procp k (snd (sys_kill s)) \<noteq> procp k s"
  shows "fst (sys_kill s) = 0 \<and> p_pid (procp k s) = u_argn1 s \<and>
    (super s \<or> p_uid (procp k s) = p_uid (procp (u_ptab s) s)) \<and>
    0 < sint (u_argn s) \<and> sint (u_argn s) \<le> 15 \<and>
    p_status (procp k s) \<noteq> P_EMPTY \<and> p_status (procp k s) \<noteq> P_ZOMBIE2 \<and>
    p_ignored (procp k s) AND sigmask (u_argn s) = 0 \<and>
    procp k (snd (sys_kill s)) = (procp k s)\<lparr>p_pending := p_pending (procp k s) OR sigmask (u_argn s), p_wait := NoEvent,
      p_status := (if p_status (procp k s) \<in> {P_PAUSE, P_WAIT, P_SLEEP} then P_READY else p_status (procp k s))\<rparr>"
proof -
  have same: "procp k (set_error e s) = procp k s" for e by (simp add: procp_def)
  from assms(3) obtain j where j: "scan (\<lambda>k. p_pid (procp k s) = u_argn1 s) 0 PTABSIZE = Some j"
    "0 < sint (u_argn s)" "sint (u_argn s) \<le> 15" "p_uid (procp (u_ptab s) s) = p_uid (procp j s) \<or> super s"
    unfolding sys_kill_def by (auto simp: same split: if_splits option.splits)
  then have run: "sys_kill s = (0, ssig j (u_argn s) s)" by (auto simp: sys_kill_def)
  have jl: "j < length (ptab s)" "p_pid (procp j s) = u_argn1 s" using j(1) assms(1) by (auto simp: scan_Some_iff)
  have "j = k" using assms(3) ssig_procp [OF jl(1)] unfolding run by (auto split: if_splits)
  moreover have "ssig1 (u_argn s) p \<noteq> p \<Longrightarrow> p_status p \<noteq> P_EMPTY \<and> p_status p \<noteq> P_ZOMBIE2 \<and>
      p_ignored p AND sigmask (u_argn s) = 0 \<and> ssig1 (u_argn s) p =
      p\<lparr>p_pending := p_pending p OR sigmask (u_argn s), p_wait := NoEvent,
        p_status := (if p_status p \<in> {P_PAUSE, P_WAIT, P_SLEEP} then P_READY else p_status p)\<rparr>" for p
    by (auto simp: ssig1_def Let_def split: if_splits)
  ultimately show ?thesis using j jl assms(3) ssig_procp [OF jl(1)] unfolding run by auto
qed

text \<open>C39: a signal that a process sends to itself and has a handler for is delivered: \<^verbatim>\<open>kill\<close> leaves it
  pending, \<^verbatim>\<open>chksigs\<close> on the way back from the system call selects it and lets the process go on, and
  \<^verbatim>\<open>gettrap\<close> hands out the handler's address once, the action being the default from then on.\<close>

theorem self_kill_runs_handler:
  assumes "length (ptab s) = PTABSIZE" "u_ptab s < PTABSIZE" "length (u_sigvec s) = 16"
    "p_pid (procp (u_ptab s) s) = u_argn1 s" "\<forall>k < u_ptab s. p_pid (procp k s) \<noteq> u_argn1 s"
    "1 \<le> sg" "sg < 16" "u_argn s = of_nat sg" "u_sigvec s ! sg \<noteq> SIG_DFL" "u_sigvec s ! sg \<noteq> SIG_IGN"
    "p_status (procp (u_ptab s) s) = P_RUNNING" "p_pending (procp (u_ptab s) s) = 0"
    "p_ignored (procp (u_ptab s) s) AND sigmask (of_nat sg) = 0"
  shows "\<exists>t u. chksigs (snd (sys_kill s)) = Some (False, t) \<and> gettrap t = (u_sigvec s ! sg, u) \<and>
    fst (sys_kill s) = 0 \<and> u_sigvec u ! sg = SIG_DFL \<and> p_pending (procp (u_ptab s) u) = 0"
proof -
  let ?me = "u_ptab s"
  have u: "unat (of_nat sg :: u16) = sg" using assms(7) by (simp add: unsigned_of_nat take_bit_nat_eq_self)
  have si: "sint (of_nat sg :: u16) = int sg" using assms(7) u sint_small [of "of_nat sg"] by simp
  have "scan (\<lambda>k. p_pid (procp k s) = u_argn1 s) 0 PTABSIZE = Some ?me"
    using assms(2,4,5) by (simp add: scan_Some_iff)
  then have kill: "sys_kill s = (0, ssig ?me (of_nat sg) s)"
    using assms(6,7,8) si by (simp add: sys_kill_def)
  define s1 where "s1 = ssig ?me (of_nat sg) s"
  have p1: "procp ?me s1 = (procp ?me s)\<lparr>p_wait := NoEvent, p_pending := sigmask (of_nat sg)\<rparr>"
    using ssig_procp [of ?me s ?me "of_nat sg"] assms(1,2,11-13)
    by (simp add: s1_def ssig1_def Let_def status_defs)
  have f1: "u_ptab s1 = ?me" "u_sigvec s1 = u_sigvec s" "length (ptab s1) = PTABSIZE"
    using assms(1) by (simp_all add: s1_def ssig_def upd_proc_def)
  have pend: "pends j s1 \<longleftrightarrow> j = sg" if "j < 16" for j
    using that assms(7) by (simp add: pends_bit f1 p1 sigmask_bit)
  define L where "L = [1..<16 :: nat]"
  have L: "set L = {1..<16}" "distinct L" unfolding L_def by simp_all
  have alive: "\<not> deadly s1 j" and one: "caught s1 j = (j = sg)" if "j \<in> set L" for j
    using that assms(9,10) pend by (auto simp: L(1) deadly_def caught_def f1)
  have fl: "filter (caught s1) L = [sg]"
    using filter_cong [OF refl one, of L "\<lambda>j. j"] filter_single [OF L(2), of sg] L(1) assms(6,7) by simp
  moreover have "chksigs s1 = chk_loop L s1"
  proof -
    have "bit (sigmask (of_nat sg)) sg" using assms(7) by (simp add: sigmask_bit)
    then have "sigmask (of_nat sg) \<noteq> 0" by auto
    then show ?thesis by (simp add: chksigs_def f1 p1 L_def NSIGS_def)
  qed
  ultimately have "chksigs s1 = Some (False, take_sig sg s1)"
    using chk_loop_alive [OF equalityD1 [OF L(1)] L(2), of s1] alive fl f1 assms(2) by (simp add: take_sigs_def)
  moreover have "gettrap (take_sig sg s1) = (u_sigvec s ! sg, (take_sig sg s1)\<lparr>u_sigvec := (u_sigvec s)[sg := SIG_DFL]\<rparr>)"
  proof -
    have "(of_nat sg :: u16) \<noteq> 0" using u assms(6) by (metis not_one_le_zero unat_0)
    then show ?thesis using u by (simp add: gettrap_def take_sig_def upd_proc_def f1)
  qed
  moreover have "p_pending (procp ?me (take_sig sg s1)) = 0"
    using f1 p1 assms(2) by (simp add: take_sig_def procp_def upd_proc_def)
  ultimately show ?thesis using assms(3,7) by (simp add: kill s1_def procp_def)
qed


definition handler_set :: kst where
  "handler_set = sample\<lparr>u_sigvec := (replicate 16 0)[3 := 0x1000], u_argn := 3, u_argn1 := 1\<rparr>"

lemma handler_set_facts:
  "length (ptab handler_set) = PTABSIZE" "u_ptab handler_set = 0" "procp 0 handler_set = init_proc"
  "u_sigvec handler_set ! 3 = 0x1000" "u_argn handler_set = 3" "u_argn1 handler_set = 1" "length (u_sigvec handler_set) = 16"
  by (simp_all add: handler_set_def sample_def procp_def)

lemma self_kill_runs_handler_witness:
  "\<exists>t u. chksigs (snd (sys_kill handler_set)) = Some (False, t) \<and> gettrap t = (0x1000, u)"
proof -
  have "\<exists>t u. chksigs (snd (sys_kill handler_set)) = Some (False, t) \<and> gettrap t = (u_sigvec handler_set ! 3, u) \<and>
    fst (sys_kill handler_set) = 0 \<and> u_sigvec u ! 3 = SIG_DFL \<and> p_pending (procp (u_ptab handler_set) u) = 0"
    by (rule self_kill_runs_handler) (simp_all add: handler_set_facts init_proc_def no_proc_def SIG_DFL_def SIG_IGN_def)
  then show ?thesis by (auto simp: handler_set_facts)
qed

lemma kill_reaches_permitted_witness: "p_pending (procp 0 (snd (sys_kill handler_set))) = 8"
proof -
  have run: "sys_kill handler_set = (0, ssig 0 3 handler_set)"
    by (simp add: sys_kill_def handler_set_facts scan.simps [of _ 0 30] init_proc_def no_proc_def)
  have "procp 0 (ssig 0 3 handler_set) = ssig1 3 init_proc"
    using ssig_procp [of 0 handler_set 0 3] handler_set_facts by simp
  then have "procp 0 (snd (sys_kill handler_set)) \<noteq> procp 0 handler_set"
    unfolding run by (simp add: handler_set_facts ssig1_def init_proc_def no_proc_def sigmask_def status_defs Let_def)
  from kill_reaches_permitted [OF _ _ this] show ?thesis
    by (simp add: handler_set_facts init_proc_def no_proc_def sigmask_def)
qed

end
