(* ===== verification/ExitWait.thy ===== *)
theory ExitWait
  imports Signals Frames
begin

section \<open>Exit and wait\<close>

text \<open>
  What the closing of files leaves of the process table, and the hand-over of an exited child to its
  parent. \<open>steady\<close> says that an operation changes no process other than by waking it; it holds of every
  operation of the file system core, whatever state the tables are in.
\<close>

subsection \<open>Operations that only wake processes\<close>

definition same_proc :: "p_tab \<Rightarrow> p_tab \<Rightarrow> bool" where
  "same_proc p q \<longleftrightarrow> p_pid q = p_pid p \<and> p_uid q = p_uid p \<and> p_pptr q = p_pptr p \<and> p_exitval q = p_exitval p \<and>
     p_pending q = p_pending p \<and> p_ignored q = p_ignored p \<and> p_ublk q = p_ublk p \<and> p_alarm q = p_alarm p \<and>
     (p_status q = p_status p \<and> p_wait q = p_wait p \<or>
      P_READY \<le> p_status p \<and> p_status p < P_ZOMBIE2 \<and> p_status q = P_READY \<and> p_wait q = NoEvent)"

definition steady :: "kst \<Rightarrow> kst \<Rightarrow> bool" where
  "steady s t \<longleftrightarrow> u_ptab t = u_ptab s \<and> length (ptab t) = length (ptab s) \<and>
     (\<forall>k < length (ptab s). same_proc (procp k s) (procp k t))"

lemma same_proc_refl [simp]: "same_proc p p"
  by (simp add: same_proc_def)

lemma same_proc_trans: "same_proc p q \<Longrightarrow> same_proc q r \<Longrightarrow> same_proc p r"
  by (auto simp: same_proc_def)

lemma steady_refl [simp]: "steady s s"
  by (simp add: steady_def)

lemma steady_trans: "steady s t \<Longrightarrow> steady t u \<Longrightarrow> steady s u"
  by (auto simp: steady_def intro: same_proc_trans)

lemma steady_same: "ptab t = ptab s \<Longrightarrow> u_ptab t = u_ptab s \<Longrightarrow> steady s t"
  by (simp add: steady_def procp_def)

lemma steady_more: "bst.more t = bst.more s \<Longrightarrow> steady s t"
  by (cases s; cases t) (simp add: steady_def procp_def)

lemma kst_more_ptab: "bst.more (t :: kst) = bst.more s \<Longrightarrow> ptab t = ptab s"
  by (cases s; cases t) simp

lemma steady_updates [simp]:
  "steady s (upd_fs d f t) = steady s t" "steady s (upd_ino k g t) = steady s t" "steady s (upd_node k h t) = steady s t"
  "steady s (upd_oft k l t) = steady s t" "steady s (set_error e t) = steady s t" "steady s (set_file u v t) = steady s t"
  "steady s (set_data i b t) = steady s t"
  by (simp_all add: steady_def procp_def upd_fs_def upd_ino_def upd_node_def upd_oft_def set_error_def set_file_def
      set_data_def upd_buf_def)

lemma steady_before: "steady (upd_oft k l s) t = steady s t" "steady (set_file u v s) t = steady s t"
  by (simp_all add: steady_def procp_def upd_oft_def set_file_def)

lemma same_proc_wake: "same_proc p (wake1 ev p)"
  by (simp add: same_proc_def wake1_def)

lemma steady_wakeup: "steady s t \<Longrightarrow> steady s (wakeup ev t)"
  by (rule steady_trans) (auto simp: steady_def wakeup_def procp_def intro: same_proc_wake)

subsection \<open>The release of an inode\<close>

interpretation steady: silent steady
proof
  show "steady s (upd_ino k (\<lambda>c. c\<lparr>c_dirty := x\<rparr>) s)" "steady s (upd_fs d f s)" "steady s (upd_node k h s)" for s k x d f h
    by (simp_all only: steady_updates steady_refl)
qed (rule steady_refl, erule (1) steady_trans, erule steady_more)

lemma steady_i_deref: "i_deref i s = Some t \<Longrightarrow> steady s t"
  by (rule steady_trans [OF _ steady.i_deref]) (simp_all add: steady_wakeup)

lemma steady_upd_proc: "(\<And>p. same_proc p (f p)) \<Longrightarrow> steady s (upd_proc k f s)"
  unfolding steady_def
proof (intro conjI allI impI)
  show "same_proc (procp j s) (procp j (upd_proc k f s))" if "\<And>p. same_proc p (f p)" "j < length (ptab s)" for j
    using that by (cases "j = k") (simp_all add: procp_def upd_proc_def)
qed (simp_all add: upd_proc_def)

lemma steady_d_close:
  assumes "d_close d s = Some t"
  shows "steady s t"
proof -
  have "steady s (snd (tty_close m s))" for m
    by (simp add: tty_close_def Let_def) (intro impI steady_upd_proc, simp add: same_proc_def)
  moreover have "steady s (s\<lparr>lop := False\<rparr>)" by (rule steady_same) simp_all
  ultimately show ?thesis using assms
    by (auto simp: d_close_def lpr_close_def mt_close_def split: if_splits driver.splits)
qed

lemma steady_oft_deref:
  assumes "oft_deref k s = Some t"
  shows "steady s t"
proof -
  have "steady s u" if "i_deref i (upd_oft k f s) = Some u" for i f u
    using steady_i_deref [OF that] by (simp add: steady_before)
  with assms show ?thesis by (auto simp: oft_deref_def Let_def split: if_splits option.splits)
qed

lemma steady_doclose:
  assumes "doclose u s = Some (r, t)"
  shows "steady s t"
proof -
  obtain p s1 where g: "getinode u s = Some (p, s1)" using assms by (auto simp: doclose_def)
  have 1: "steady s s1" using g by (auto simp: getinode_def Let_def split: if_splits option.splits)
  show ?thesis
  proof (cases p)
    case None
    then show ?thesis using assms g 1 by (simp add: doclose_def)
  next
    case (Some i)
    then obtain s2 where s2: "(if isdevice i s1 then d_close (devnum i s1) s1 else Some s1) = Some s2"
      "oft_deref (unat (u_files s1 ! nat u)) (set_file (nat u) (- 1) s2) = Some t"
      using assms g by (auto simp: doclose_def Let_def)
    have "steady s1 s2" using s2(1) by (auto dest: steady_d_close split: if_splits)
    moreover have "steady s2 t" using steady_oft_deref [OF s2(2)] by (simp add: steady_before)
    ultimately show ?thesis using 1 by (blast intro: steady_trans)
  qed
qed

lemma steady_close_all:
  assumes "close_all s = Some t"
  shows "steady s t"
  using assms unfolding close_all_def
  by (rule steady.foldM_step) (auto dest: steady_doclose split: if_splits)

lemma steady_deref_ptr: "deref_ptr p s = Some t \<Longrightarrow> steady s t"
  by (auto simp: deref_ptr_def dest: steady_i_deref split: option.splits)

subsection \<open>doexit\<close>

lemma procp_upd: "k < length (ptab s) \<Longrightarrow> procp j (upd_proc k f s) = (if j = k then f (procp k s) else procp j s)"
  by (simp add: procp_def upd_proc_def nth_list_update)

lemma upd_proc_frame [simp]: "u_cwd (upd_proc k f s) = u_cwd s" "u_ptab (upd_proc k f s) = u_ptab s" "length (ptab (upd_proc k f s)) = length (ptab s)"
  by (simp_all add: upd_proc_def)

definition set_exitval :: "u16 \<Rightarrow> u16 \<Rightarrow> kst \<Rightarrow> kst" where
  "set_exitval v w s = upd_proc (u_ptab s) (\<lambda>p. p\<lparr>p_exitval := push_bit 8 v OR (w AND 0xFF)\<rparr>) s"

definition exit_result :: "u16 \<Rightarrow> u16 \<Rightarrow> kst \<Rightarrow> kst \<Rightarrow> bool" where
  "exit_result v w s t \<longleftrightarrow>
     (let me = u_ptab s; z = procp me t
      in length (ptab t) = length (ptab s) \<and> p_status z = P_ZOMBIE \<and> p_exitval z = push_bit 8 v OR (w AND 0xFF) \<and>
         p_pid z = p_pid (procp me s) \<and> p_pptr z = p_pptr (procp me s) \<and> p_wait z = NoEvent \<and>
         (\<forall>k < length (ptab s). k \<noteq> me \<longrightarrow>
            same_proc ((procp k s)\<lparr>p_pptr := (if live_child me k s then p_pptr (procp me s) else p_pptr (procp k s))\<rparr>) (procp k t)) \<and>
         (\<forall>g < length (ptab s). p_pptr (procp me s) = Some g \<longrightarrow> g \<noteq> me \<longrightarrow>
            p_status (procp g s) = P_WAIT \<longrightarrow> p_wait (procp g s) = EvPtab g \<longrightarrow> p_status (procp g t) = P_READY))"

lemma doexit_law:
  assumes me: "u_ptab s < length (ptab s)" "p_status (procp (u_ptab s) s) = P_RUNNING"
      "p_wait (procp (u_ptab s) s) = NoEvent" "p_ublk (procp (u_ptab s) s) = Some b"
    and closes: "close_all s = Some s1" "deref_ptr (u_cwd s1) (set_exitval v w s1) = Some s2"
  shows "\<exists>t. doexit v w s = Some t \<and> exit_result v w s t"
proof -
  let ?me = "u_ptab s"
  have s1: "steady s s1" using closes(1) by (rule steady_close_all)
  have len: "length (ptab s1) = length (ptab s)" "u_ptab s1 = ?me" using s1 by (simp_all add: steady_def)
  have s2: "steady (set_exitval v w s1) s2" using closes(2) by (rule steady_deref_ptr)
  have len2: "length (ptab s2) = length (ptab s)" "u_ptab s2 = ?me" using s2 len by (simp_all add: steady_def set_exitval_def)
  have others: "same_proc (procp k s) (procp k s2)" if "k < length (ptab s)" "k \<noteq> ?me" for k
  proof -
    have "same_proc (procp k s) (procp k s1)" using s1 that by (simp add: steady_def)
    moreover have "procp k (set_exitval v w s1) = procp k s1" using that me(1) len by (simp add: set_exitval_def procp_upd)
    moreover have "same_proc (procp k (set_exitval v w s1)) (procp k s2)"
      using s2 that(1) len by (simp add: steady_def set_exitval_def)
    ultimately show ?thesis by (simp add: same_proc_trans)
  qed
  have own1: "same_proc (procp ?me s) (procp ?me s1)" using s1 me(1) by (simp add: steady_def)
  have own2: "same_proc ((procp ?me s1)\<lparr>p_exitval := push_bit 8 v OR (w AND 0xFF)\<rparr>) (procp ?me s2)"
    using s2 me(1) len by (auto simp: steady_def set_exitval_def procp_upd)
  have own: "p_status (procp ?me s2) = P_RUNNING" "p_wait (procp ?me s2) = NoEvent" "p_ublk (procp ?me s2) = Some b"
    "p_exitval (procp ?me s2) = push_bit 8 v OR (w AND 0xFF)" "p_pid (procp ?me s2) = p_pid (procp ?me s)"
    "p_pptr (procp ?me s2) = p_pptr (procp ?me s)"
    using own1 own2 me by (auto simp: same_proc_def status_defs word_le_nat_alt word_less_nat_alt)
  let ?s3 = "s2\<lparr>u_utime := addtick (u_utime s2) (u_cutime s2), u_stime := addtick (u_stime s2) (u_cstime s2),
      low_times := (addtick (u_utime s2) (u_cutime s2), addtick (u_stime s2) (u_cstime s2))\<rparr>"
  let ?s4 = "upd_proc ?me (\<lambda>p. p\<lparr>p_status := P_ZOMBIE\<rparr>) ?s3"
  let ?s5 = "orphan_children ?me ?s4"
  let ?s6 = "wakeup (pptr_event (p_pptr (procp ?me ?s5))) ?s5"
  have p4: "procp k ?s4 = (if k = ?me then (procp ?me s2)\<lparr>p_status := P_ZOMBIE\<rparr> else procp k s2)" for k
    using me(1) len2 by (simp add: procp_def upd_proc_def nth_list_update)
  have l4: "length (ptab ?s4) = length (ptab s)" using len2 by simp
  have p5: "procp k ?s5 = (if live_child ?me k ?s4 then (procp k ?s4)\<lparr>p_pptr := p_pptr (procp ?me ?s4)\<rparr> else procp k ?s4)"
    if "k < length (ptab s)" for k
    using that l4 by (simp add: procp_def orphan_children_def live_child_def)
  have me5: "procp ?me ?s5 = (procp ?me s2)\<lparr>p_status := P_ZOMBIE\<rparr>" using p5 [OF me(1)] p4 by (simp add: live_child_def Let_def)
  have p6: "procp k ?s6 = wake1 (pptr_event (p_pptr (procp ?me s))) (procp k ?s5)" if "k < length (ptab s)" for k
    using that l4 me5 own(6) by (simp add: procp_def wakeup_def orphan_children_def)
  have me6: "procp ?me ?s6 = (procp ?me s2)\<lparr>p_status := P_ZOMBIE\<rparr>"
    using p6 [OF me(1)] me5 by (simp add: wake1_def status_defs word_le_nat_alt word_less_nat_alt)
  obtain t where t: "brelse b ?s6 = Some t" by (simp add: brelse_def bfree_eq)
  have tm: "u_utime (s2\<lparr>u_utime := x, u_stime := y\<rparr>) = x" "u_stime (s2\<lparr>u_utime := x, u_stime := y\<rparr>) = y" for x y
    by simp_all
  have "p_wait (procp ?me (s2\<lparr>u_utime := x, u_stime := y\<rparr>)) = NoEvent" for x y
    using own(2) by (simp add: procp_def)
  moreover have "release_ublk ?me ?s6 = Some t" using t me6 own(3) by (simp add: release_ublk_def)
  moreover have "deref_ptr (u_cwd s1) (upd_proc ?me (\<lambda>p. p\<lparr>p_exitval := push_bit 8 v OR (w AND 0xFF)\<rparr>) s1) = Some s2"
    using closes(2) len(2) by (simp add: set_exitval_def)
  ultimately have run: "doexit v w s = Some t"
    by (simp only: doexit_def Let_def closes(1) bind.bind_lunit len(2) upd_proc_frame(1) if_True simp_thms tm)
  have "bst.more t = bst.more ?s6" by (rule brelse_more [OF t])
  then have pt: "ptab t = ptab ?s6" by (rule kst_more_ptab)
  have pk: "procp k t = procp k ?s6" for k using pt by (simp add: procp_def)
  have live: "live_child ?me k ?s4 \<longleftrightarrow> live_child ?me k s" if "k < length (ptab s)" "k \<noteq> ?me" for k
  proof -
    have "(x = P_EMPTY \<or> x = P_ZOMBIE2) = (y = P_EMPTY \<or> y = P_ZOMBIE2)"
      if "same_proc p q" "p_status p = x" "p_status q = y" for x y p q
      using that by (auto simp: same_proc_def status_defs word_le_nat_alt word_less_nat_alt)
    from this [OF others [OF that] refl refl] show ?thesis
      using others [OF that] that(2) by (auto simp: live_child_def Let_def p4 same_proc_def)
  qed
  have rest: "same_proc ((procp k s)\<lparr>p_pptr := (if live_child ?me k s then p_pptr (procp ?me s) else p_pptr (procp k s))\<rparr>) (procp k t)"
    if "k < length (ptab s)" "k \<noteq> ?me" for k
  proof -
    have "same_proc ((procp k s)\<lparr>p_pptr := (if live_child ?me k s then p_pptr (procp ?me s) else p_pptr (procp k s))\<rparr>) (procp k ?s5)"
      using others [OF that] that p5 [OF that(1)] live [OF that] p4 own(6) by (auto simp: same_proc_def)
    moreover have "same_proc (procp k ?s5) (procp k t)" by (simp only: pk p6 [OF that(1)] same_proc_wake)
    ultimately show ?thesis by (rule same_proc_trans)
  qed
  have parent: "p_status (procp g t) = P_READY"
    if "g < length (ptab s)" "p_pptr (procp ?me s) = Some g" "g \<noteq> ?me" "p_status (procp g s) = P_WAIT" "p_wait (procp g s) = EvPtab g" for g
  proof -
    have "p_status (procp g ?s5) = p_status (procp g s2)" "p_wait (procp g ?s5) = p_wait (procp g s2)"
      using p5 [OF that(1)] p4 [of g] that(3) by simp_all
    moreover have "p_status (procp g s2) = P_WAIT \<and> p_wait (procp g s2) = EvPtab g \<or> p_status (procp g s2) = P_READY"
      using others [OF that(1,3)] that(4,5) by (auto simp: same_proc_def)
    moreover have "procp g t = wake1 (EvPtab g) (procp g ?s5)"
      by (simp only: pk p6 [OF that(1)] that(2)) (simp add: pptr_event_def)
    ultimately show ?thesis by (auto simp: wake1_def status_defs word_le_nat_alt word_less_nat_alt)
  qed
  have "length (ptab t) = length (ptab s)" using pt l4 by (simp add: wakeup_def orphan_children_def)
  then have "exit_result v w s t" unfolding exit_result_def Let_def
    using me6 own rest parent by (simp add: pk)
  with run show ?thesis by blast
qed

subsection \<open>wait\<close>

lemma wait_collects:
  assumes kids: "g < PTABSIZE" "k < PTABSIZE" "k \<noteq> g" "u_ptab s = g" "length (ptab s) = PTABSIZE"
    and zombie: "p_status (procp k s) = P_ZOMBIE" "p_pptr (procp k s) = Some g" "p_wait (procp k s) = NoEvent"
    and only: "\<forall>j < PTABSIZE. j \<noteq> k \<longrightarrow> p_status (procp j s) \<noteq> P_ZOMBIE"
    and calm: "p_pending (procp g s) = 0" "u_cursig s = 0"
    and loc: "u_argn s \<noteq> 0 \<Longrightarrow> fst (valadr (u_argn s) 2 s)"
  shows "sys_wait swp s = map_option (\<lambda>(r, s). Ret r s) (reap (u_argn s) k s)"
proof -
  have some: "scan (\<lambda>k. live_child (u_ptab s) k s) 0 PTABSIZE \<noteq> None"
    using kids zombie by (auto simp: scan_None_iff live_child_def Let_def status_defs)
  have "scan (\<lambda>k. p_status (procp k s) = P_ZOMBIE \<and> p_pptr (procp k s) = Some g) 0 PTABSIZE = Some k"
    using kids zombie only by (auto simp: scan_Some_iff)
  moreover have "chksigs s = Some (False, s)" using calm kids by (simp add: chksigs_def)
  ultimately have "wait_loop swp s = map_option (\<lambda>(r, s). Ret r s) (reap (u_argn s) k s)"
    using calm kids by (subst wait_loop.simps) simp
  moreover have "valadr (u_argn s) 2 s = (True, s) \<or> u_argn s = 0"
    using loc by (cases "u_argn s = 0") (auto simp: valadr_def split: if_splits)
  ultimately show ?thesis using some by (auto simp: sys_wait_def Let_def)
qed



text \<open>A child with all descriptors closed whose working directory the parent uses too.\<close>

definition family :: kst where
  "family = sample\<lparr>ptab := (replicate 30 no_proc)[
     0 := init_proc\<lparr>p_status := P_WAIT, p_wait := EvPtab 0\<rparr>,
     1 := no_proc\<lparr>p_status := P_RUNNING, p_pid := 7, p_pptr := Some 0, p_ublk := Some 3\<rparr>], u_ptab := 1\<rparr>"

lemma family_facts:
  "length (ptab family) = PTABSIZE" "u_ptab family = 1" "procp 0 family = init_proc\<lparr>p_status := P_WAIT, p_wait := EvPtab 0\<rparr>"
  "procp 1 family = no_proc\<lparr>p_status := P_RUNNING, p_pid := 7, p_pptr := Some 0, p_ublk := Some 3\<rparr>"
  "j < PTABSIZE \<Longrightarrow> p_status (procp j family) \<noteq> P_ZOMBIE"
  by (auto simp: family_def procp_def nth_list_update init_proc_def no_proc_def status_defs sample_def)

lemma family_closed: "close_all family = Some family"
proof -
  have "foldM (\<lambda>j s. if u_files s ! j AND 0x80 = 0 then do { (_, s) \<leftarrow> doclose (int j) s; Some s } else Some s) js family = Some family"
    if "set js \<subseteq> {..<22}" for js
    using that by (induction js) (auto simp: family_def sample_def)
  then show ?thesis unfolding close_all_def by (simp add: atLeast0LessThan)
qed


end
