(* ===== verification/Waiting.thy ===== *)
theory Waiting
  imports ExitWait
begin

section \<open>Who sleeps, and what wakeup does\<close>

text \<open>
  An entry of the process table that waits for an event has one of the sleeping states of UNIX.H: all routines that change the state
  or the event of an entry keep this. The guard of \<^verbatim>\<open>wakeup\<close>, which is a range of states that also contains the ready and the forking ones,
  therefore selects the sleepers only.
\<close>

definition sleeping :: "p_tab \<Rightarrow> bool" where
  "sleeping p \<longleftrightarrow> p_status p \<in> {P_SLEEP, P_XSLEEP, P_PAUSE, P_WAIT}"

definition waits_ok :: "kst \<Rightarrow> bool" where
  "waits_ok s \<longleftrightarrow> (\<forall>p \<in> set (ptab s). p_wait p \<noteq> NoEvent \<longrightarrow> sleeping p)"

subsection \<open>The changes of the process table\<close>

text \<open>
  \<open>sleep\<close>: \<^verbatim>\<open>psleep\<close> up to the process switch. \<open>clock\<close>: the part of the clock interrupt that is done once in a second, with the alarms.
  \<open>turn\<close>: \<^verbatim>\<open>swapin\<close>, \<^verbatim>\<open>swapout\<close>, \<^verbatim>\<open>dofork\<close>, \<^verbatim>\<open>clkint2\<close> and \<^verbatim>\<open>unix2\<close> make a ready process run or a running one ready.
  \<open>fill\<close> and \<open>fork\<close>: the two parts of \<^verbatim>\<open>dofork\<close> that enter the child. \<open>evict\<close>: the entry of a program kept in memory is freed.
\<close>

inductive sched_step :: "kst \<Rightarrow> kst \<Rightarrow> bool" where
  sleep: "psleep Some ev s = Some t \<Longrightarrow> sched_step s t"
| wake: "sched_step s (wakeup ev s)"
| signal: "sched_step s (ssig k sig s)"
| group: "sched_step s (sgrpsig tty sig s)"
| clock: "sched_step s (second clk s)"
| turn: "k < length (ptab s) \<Longrightarrow> p_status (procp k s) \<in> {P_READY, P_RUNNING} \<Longrightarrow> st \<in> {P_READY, P_RUNNING} \<Longrightarrow>
    sched_step s (upd_proc k (\<lambda>p. p\<lparr>p_status := st\<rparr>) s)"
| fill: "ptab_fill k s = Some t \<Longrightarrow> sched_step s t"
| fork: "k < length (ptab s) \<Longrightarrow> p_status (procp k s) = P_FORKING \<Longrightarrow> newproc k s = Some t \<Longrightarrow> sched_step s t"
| exit: "doexit v w s = Some t \<Longrightarrow> sched_step s t"
| collect: "p_status (procp k s) = P_ZOMBIE \<Longrightarrow> reap loc k s = Some (r, t) \<Longrightarrow> sched_step s t"
| evict: "free_zombie s = Some (r, t) \<Longrightarrow> sched_step s t"

lemmas status_order = status_defs word_le_nat_alt word_less_nat_alt

lemma not_sleeping: "p_status p \<in> {P_EMPTY, P_RUNNING, P_READY, P_FORKING, P_ZOMBIE2, P_ZOMBIE} \<Longrightarrow> \<not> sleeping p"
  by (auto simp: sleeping_def status_defs)

lemma waits_same: "ptab t = ptab s \<Longrightarrow> waits_ok t = waits_ok s"
  by (simp add: waits_ok_def)

lemma waits_more: "bst.more (t :: kst) = bst.more s \<Longrightarrow> waits_ok t = waits_ok s"
  by (rule waits_same) (rule kst_more_ptab)

lemma waits_map:
  assumes "waits_ok s" "ptab t = map f (ptab s)"
    "\<And>p. p \<in> set (ptab s) \<Longrightarrow> p_wait p \<noteq> NoEvent \<longrightarrow> sleeping p \<Longrightarrow> p_wait (f p) \<noteq> NoEvent \<longrightarrow> sleeping (f p)"
  shows "waits_ok t"
  using assms by (auto simp: waits_ok_def)

lemma waits_nth: "waits_ok s \<Longrightarrow> k < length (ptab s) \<Longrightarrow> p_wait (procp k s) \<noteq> NoEvent \<Longrightarrow> sleeping (procp k s)"
  by (simp add: waits_ok_def procp_def)

lemma waits_upd:
  assumes "waits_ok s" "k < length (ptab s) \<Longrightarrow> p_wait (f (procp k s)) \<noteq> NoEvent \<longrightarrow> sleeping (f (procp k s))"
  shows "waits_ok (upd_proc k f s)"
proof (cases "k < length (ptab s)")
  case True
  then show ?thesis
    using assms set_update_subset_insert [of "ptab s" k "f (ptab s ! k)"] by (auto simp: waits_ok_def upd_proc_def procp_def)
next
  case False
  then show ?thesis using assms(1) by (simp add: waits_ok_def upd_proc_def list_update_beyond not_less)
qed

lemma waits_keep:
  assumes "waits_ok s" "\<And>p. p_wait (f p) = p_wait p" "\<And>p. p_status (f p) = p_status p"
  shows "waits_ok (upd_proc k f s)"
  using assms(1)
proof (rule waits_upd)
  assume "k < length (ptab s)"
  from waits_nth [OF assms(1) this] show "p_wait (f (procp k s)) \<noteq> NoEvent \<longrightarrow> sleeping (f (procp k s))"
    by (simp add: assms(2,3) sleeping_def)
qed

lemma steady_waits: "steady s t \<Longrightarrow> waits_ok s \<Longrightarrow> waits_ok t"
  unfolding waits_ok_def steady_def all_set_conv_all_nth procp_def same_proc_def sleeping_def by metis

lemma ssig1_waits: "p_wait p \<noteq> NoEvent \<longrightarrow> sleeping p \<Longrightarrow> p_wait (ssig1 sig p) \<noteq> NoEvent \<longrightarrow> sleeping (ssig1 sig p)"
  by (simp add: ssig1_def Let_def)

lemma psleep_waits:
  assumes "waits_ok s" "psleep Some ev s = Some t"
  shows "waits_ok t"
proof -
  let ?st = "if ev = NoEvent then P_PAUSE else if ev = EvPtab (u_ptab s) then P_WAIT else P_SLEEP"
  have "p_status (procp (u_ptab s) s) = P_RUNNING" using assms(2) by (simp add: psleep_def Let_def split: if_splits)
  then have t: "t = upd_proc (u_ptab s) (\<lambda>p. p\<lparr>p_waitno := waitno s + 1\<rparr>) ((upd_proc (u_ptab s) (\<lambda>p. p\<lparr>p_status := ?st, p_wait := ev\<rparr>) s)\<lparr>waitno := waitno s + 1\<rparr>)"
    using assms(2) by (simp add: psleep_def Let_def upd_proc_def)
  have "waits_ok (upd_proc (u_ptab s) (\<lambda>p. p\<lparr>p_status := ?st, p_wait := ev\<rparr>) s)"
    using assms(1) by (rule waits_upd) (simp add: sleeping_def)
  then have "waits_ok ((upd_proc (u_ptab s) (\<lambda>p. p\<lparr>p_status := ?st, p_wait := ev\<rparr>) s)\<lparr>waitno := waitno s + 1\<rparr>)" by (simp add: waits_ok_def)
  then show ?thesis unfolding t by (rule waits_keep) simp_all
qed

lemma second_waits: "waits_ok s \<Longrightarrow> waits_ok (second clk s)"
  by (rule waits_map [where f = alarm1]) (auto simp: second_def Let_def alarm1_def ssig1_def sleeping_def)

lemma newproc_waits:
  assumes "waits_ok s" "newproc k s = Some t" "k < length (ptab s)" "p_status (procp k s) = P_FORKING"
  shows "waits_ok t"
proof -
  have share: "ptab v = ptab u" if "share_files u = Some v" for u v
    using that unfolding share_files_def
    by (rule foldM_invariant [where I = "\<lambda>t. ptab t = ptab u"]) (auto simp: Let_def upd_oft_def split: if_splits)
  have ref: "ptab v = ptab u" if "i_ref i u = Some v" for i u v using that by (auto simp: i_ref_def Let_def split: if_splits)
  have free: "p_wait (procp k s) = NoEvent" using waits_nth [OF assms(1,3)] not_sleeping [of "procp k s"] assms(4) by auto
  define f where "f = (\<lambda>tty (p :: p_tab). p\<lparr>p_swap := of_nat k * 128 + 1, p_status := P_RUNNING, p_pptr := Some (u_ptab s),
      p_ignored := p_ignored (procp (u_ptab s) s), p_tty := tty, p_uid := p_uid (procp (u_ptab s) s)\<rparr>)"
  define z where "z = (\<lparr>t_time = 0, t_date = 0\<rparr> :: time_t)"
  define u where "u = (\<lambda>tty. (upd_proc k (f tty) s)\<lparr>u_ptab := k, u_utime := z, u_stime := z, u_cutime := z, u_cstime := z, u_time := rdtime (upd_proc k (f tty) s)\<rparr>)"
  have "newproc k s = do {
     tty \<leftarrow> (if p_tty (procp (u_ptab s) s) = 0 then (case p_pptr (procp (u_ptab s) s) of None \<Rightarrow> wild | Some g \<Rightarrow> Some (p_tty (procp g s)))
             else Some (p_tty (procp (u_ptab s) s)));
     v \<leftarrow> (case u_cwd (u tty) of None \<Rightarrow> Some (u tty) | Some c \<Rightarrow> i_ref c (u tty));
     share_files (upd_proc k (\<lambda>p. p\<lparr>p_priority := MAXTICKS\<rparr>) (set_error NOERR (v\<lparr>u_cursig := 0\<rparr>))) }"
    unfolding newproc_def Let_def u_def f_def z_def ..
  with assms(2) obtain tty v where r: "(case u_cwd (u tty) of None \<Rightarrow> Some (u tty) | Some c \<Rightarrow> i_ref c (u tty)) = Some v"
    and t: "share_files (upd_proc k (\<lambda>p. p\<lparr>p_priority := MAXTICKS\<rparr>) (set_error NOERR (v\<lparr>u_cursig := 0\<rparr>))) = Some t"
    by (auto simp: bind_eq_Some_conv)
  have v: "ptab v = ptab (u tty)" using r by (auto dest: ref split: option.splits)
  have u: "ptab (u tty) = ptab (upd_proc k (f tty) s)" by (simp add: u_def)
  have "waits_ok v" unfolding waits_same [OF v] waits_same [OF u] by (rule waits_upd [OF assms(1)]) (simp add: f_def free)
  then have "waits_ok (set_error NOERR (v\<lparr>u_cursig := 0\<rparr>))" by (simp add: waits_ok_def)
  then have "waits_ok (upd_proc k (\<lambda>p. p\<lparr>p_priority := MAXTICKS\<rparr>) (set_error NOERR (v\<lparr>u_cursig := 0\<rparr>)))"
    by (rule waits_keep) simp_all
  then show ?thesis unfolding waits_same [OF share [OF t]] .
qed

lemma release_same: "release_ublk k s = Some t \<Longrightarrow> ptab t = ptab s"
  by (auto simp: release_ublk_def dest!: brelse_more kst_more_ptab split: option.splits)

lemma fill_waits:
  assumes "waits_ok s" "ptab_fill k s = Some t"
  shows "waits_ok t"
proof -
  obtain n b v where b: "zerobuf (upd_proc k (\<lambda>_. empty_proc\<lparr>p_pid := n, p_status := P_FORKING\<rparr>) (s\<lparr>nextpid := n\<rparr>)) = Some (b, v)"
    and t: "t = upd_proc k (\<lambda>p. p\<lparr>p_ublk := Some b\<rparr>) v"
    using assms(2) by (auto simp: ptab_fill_def Let_def bind_eq_Some_conv)
  have v: "bst.more v = bst.more (upd_proc k (\<lambda>_. empty_proc\<lparr>p_pid := n, p_status := P_FORKING\<rparr>) (s\<lparr>nextpid := n\<rparr>))"
    using b by (auto simp: zerobuf_def tmpbuf_def bind_eq_Some_conv set_data_more stamp_more upd_buf_def dest!: freebuf_more)
  have "waits_ok (s\<lparr>nextpid := n\<rparr>)" using assms(1) by (simp add: waits_ok_def)
  then have "waits_ok v" unfolding waits_more [OF v] by (rule waits_upd) (simp add: empty_proc_def)
  then show ?thesis unfolding t by (rule waits_keep) simp_all
qed

lemma doexit_waits:
  assumes "waits_ok s" "doexit v w s = Some t"
  shows "waits_ok t"
proof -
  obtain s1 s2 where s1: "close_all s = Some s1"
    and s2: "deref_ptr (u_cwd s1) (set_exitval v w s1) = Some s2"
    and free: "p_wait (procp (u_ptab s1) s2) = NoEvent"
    and t: "release_ublk (u_ptab s1) (let z = orphan_children (u_ptab s1) (upd_proc (u_ptab s1) (\<lambda>p. p\<lparr>p_status := P_ZOMBIE\<rparr>)
        (s2\<lparr>u_utime := addtick (u_utime s2) (u_cutime s2), u_stime := addtick (u_stime s2) (u_cstime s2),
          low_times := (addtick (u_utime s2) (u_cutime s2), addtick (u_stime s2) (u_cstime s2))\<rparr>))
        in wakeup (pptr_event (p_pptr (procp (u_ptab s1) z))) z) = Some t"
    using assms(2) by (auto simp: doexit_def Let_def bind_eq_Some_conv set_exitval_def procp_def split: if_splits)
  let ?v = "upd_proc (u_ptab s1) (\<lambda>p. p\<lparr>p_status := P_ZOMBIE\<rparr>)
        (s2\<lparr>u_utime := addtick (u_utime s2) (u_cutime s2), u_stime := addtick (u_stime s2) (u_cstime s2),
          low_times := (addtick (u_utime s2) (u_cutime s2), addtick (u_stime s2) (u_cstime s2))\<rparr>)"
  have "waits_ok s1" using steady_waits [OF steady_close_all [OF s1] assms(1)] .
  then have "waits_ok (set_exitval v w s1)" unfolding set_exitval_def by (rule waits_keep) simp_all
  then have "waits_ok s2" by (rule steady_waits [OF steady_deref_ptr [OF s2]])
  then have "waits_ok ?v" by (intro waits_upd) (use free in \<open>simp_all add: waits_ok_def procp_def\<close>)
  then have "waits_ok (orphan_children (u_ptab s1) ?v)"
    by (auto simp: waits_ok_def orphan_children_def procp_def sleeping_def)
  then have "waits_ok (wakeup ev (orphan_children (u_ptab s1) ?v))" for ev by (rule steady_waits [OF steady_wakeup [OF steady_refl]])
  then show ?thesis using t waits_same [OF release_same] by (auto simp: Let_def)
qed

lemma reap_waits:
  assumes "waits_ok s" "reap loc k s = Some (r, t)"
  shows "waits_ok t"
proof -
  have u: "ptab (uputw x a s) = ptab s" for x a by (simp add: uputw_def uput_def Let_def split: prod.split)
  have free: "p_wait (procp k s) = NoEvent" using assms(2) by (auto simp: reap_def Let_def split: if_splits)
  have "waits_ok (upd_proc k (\<lambda>p. p\<lparr>p_status := P_EMPTY\<rparr>) s)" using free by (intro waits_upd [OF assms(1)]) simp
  moreover have "ptab t = ptab (upd_proc k (\<lambda>p. p\<lparr>p_status := P_EMPTY\<rparr>) s)"
    using assms(2) by (auto simp: reap_def Let_def upd_proc_def u split: if_splits)
  ultimately show ?thesis using waits_same by blast
qed

lemma evict_waits:
  assumes "waits_ok s" "free_zombie s = Some (r, t)"
  shows "waits_ok t"
proof (cases "oldest_zombie s")
  case None
  then show ?thesis using assms by (simp add: free_zombie_def)
next
  case (Some k)
  have z: "p_status (procp k s) = P_ZOMBIE2"
  proof -
    have "case snd (fold (\<lambda>k (best, r). if p_status (procp k s) = P_ZOMBIE2 \<and> p_uid (procp k s) < best then (p_uid (procp k s), Some k) else (best, r)) ks (b, r))
      of None \<Rightarrow> True | Some k \<Rightarrow> p_status (procp k s) = P_ZOMBIE2"
      if "case r of None \<Rightarrow> True | Some k \<Rightarrow> p_status (procp k s) = P_ZOMBIE2" for ks b r
      using that by (induction ks arbitrary: b r) auto
    from this [of None "[0..<PTABSIZE]" 32100] show ?thesis using Some by (simp add: oldest_zombie_def)
  qed
  obtain u where u: "release_ublk k s = Some u" "t = upd_proc k (\<lambda>p. p\<lparr>p_status := P_EMPTY\<rparr>) u"
    using assms(2) Some by (auto simp: free_zombie_def bind_eq_Some_conv)
  have p: "ptab u = ptab s" by (rule release_same [OF u(1)])
  have "p_wait (procp k s) = NoEvent" if "k < length (ptab s)"
    using waits_nth [OF assms(1) that] not_sleeping [of "procp k s"] z by auto
  then show ?thesis unfolding u(2) using assms(1) p by (intro waits_upd) (auto simp: waits_ok_def procp_def)
qed

lemma step_waits: "sched_step s t \<Longrightarrow> waits_ok s \<Longrightarrow> waits_ok t"
proof (induction rule: sched_step.induct)
  case (wake s ev)
  then show ?case by (rule steady_waits [OF steady_wakeup [OF steady_refl]])
next
  case (signal s k sig)
  then show ?case unfolding ssig_def by (rule waits_upd) (use waits_nth [OF signal] ssig1_waits in blast)
next
  case (group s tty sig)
  then show ?case 
    by (rule waits_map [where f = "\<lambda>p. if p_status p \<noteq> P_EMPTY \<and> p_status p \<noteq> P_ZOMBIE2 \<and> p_tty p = tty then ssig1 sig p else p"])
      (simp_all add: sgrpsig_def ssig1_waits)
next
  case (turn k s st)
  then have "p_wait (procp k s) = NoEvent" using waits_nth [of s k] not_sleeping [of "procp k s"] by auto
  then show ?case using turn.prems by (intro waits_upd) simp_all
qed (blast intro: psleep_waits second_waits fill_waits newproc_waits doexit_waits reap_waits evict_waits)+

lemma steps_waits: "sched_step\<^sup>*\<^sup>* s t \<Longrightarrow> waits_ok s \<Longrightarrow> waits_ok t"
  by (induction rule: rtranclp_induct) (auto intro: step_waits)

subsection \<open>Waking\<close>

text \<open>C31: in every process table that the kernel's routines for sleeping, waking, signals, the clock, process switches, fork, exit and wait
  can bring about, starting from one in which only sleeping entries wait for an event, that is still so; and there \<^verbatim>\<open>wakeup\<close> of an event
  makes exactly the processes ready that sleep on it, clears what they wait for and touches no other entry, and the assembly
  routine does what the C version of PROCESS.C does, whose guard differs.\<close>

theorem wakeup_wakes_sleepers:
  assumes "waits_ok s" "sched_step\<^sup>*\<^sup>* s t" "ev \<noteq> NoEvent"
  shows "waits_ok t \<and> ptab (wakeup ev t) = map (wake1_c ev) (ptab t) \<and>
    (\<forall>k < length (ptab t). procp k (wakeup ev t) =
      (if sleeping (procp k t) \<and> p_wait (procp k t) = ev then (procp k t)\<lparr>p_status := P_READY, p_wait := NoEvent\<rparr> else procp k t))"
proof -
  have t: "waits_ok t" by (rule steps_waits [OF assms(2,1)])
  have guard: "sleeping p \<longrightarrow> P_READY \<le> p_status p \<and> p_status p < P_ZOMBIE2 \<and> p_status p > P_RUNNING \<and> p_status p \<noteq> P_ZOMBIE2" for p
    by (auto simp: sleeping_def status_order)
  have w: "wake1 ev p = (if sleeping p \<and> p_wait p = ev then p\<lparr>p_status := P_READY, p_wait := NoEvent\<rparr> else p)" "wake1_c ev p = wake1 ev p"
    if "p \<in> set (ptab t)" for p
    using that t assms(3) guard [of p] by (auto simp: waits_ok_def wake1_def wake1_c_def)
  then show ?thesis using t by (simp add: wakeup_def procp_def)
qed

text \<open>The first process goes to sleep on an inode and is woken.\<close>

lemma wakeup_wakes_sleepers_witness:
  "\<exists>t. sched_step\<^sup>*\<^sup>* sample t \<and> procp 0 t = init_proc\<lparr>p_status := P_SLEEP, p_wait := EvIno 4, p_waitno := 1\<rparr> \<and>
    procp 0 (wakeup (EvIno 4) t) = init_proc\<lparr>p_status := P_READY, p_wait := NoEvent, p_waitno := 1\<rparr>"
proof -
  let ?q = "init_proc\<lparr>p_status := P_SLEEP, p_wait := EvIno 4, p_waitno := 1\<rparr>"
  have "psleep Some (EvIno 4) sample = Some (sample\<lparr>waitno := 1, ptab := (ptab sample)[0 := ?q]\<rparr>)"
    by (simp add: psleep_def sample_def procp_def upd_proc_def init_proc_def)
  then have "sched_step\<^sup>*\<^sup>* sample (sample\<lparr>waitno := 1, ptab := (ptab sample)[0 := ?q]\<rparr>)" by (blast intro: sched_step.sleep)
  moreover have "waits_ok sample" by (simp add: waits_ok_def sample_def init_proc_def no_proc_def)
  moreover have "procp 0 (sample\<lparr>waitno := 1, ptab := (ptab sample)[0 := ?q]\<rparr>) = ?q" "0 < length (ptab (sample\<lparr>waitno := 1, ptab := (ptab sample)[0 := ?q]\<rparr>))"
    by (simp_all add: procp_def sample_def)
  ultimately show ?thesis
    using wakeup_wakes_sleepers [of sample "sample\<lparr>waitno := 1, ptab := (ptab sample)[0 := ?q]\<rparr>" "EvIno 4"]
    by (intro exI [of _ "sample\<lparr>waitno := 1, ptab := (ptab sample)[0 := ?q]\<rparr>"]) (auto simp: sleeping_def)
qed

end
