(* ===== verification/Clock.thy ===== *)
theory Clock
  imports Process
begin

section \<open>The clock chip\<close>

text \<open>
  \<^verbatim>\<open>rdtod\<close> and \<^verbatim>\<open>getclk\<close> of MACHASM.C, which read hour, minute, second, day, month and year bit by bit from the DS1302 timekeeper
  and pack them into the two words of \<^verbatim>\<open>tod\<close>; \<^verbatim>\<open>second\<close> in Process gets them as an argument. The chip hangs on one port. What an
  input from the port reads is a parameter of the model, a function of the bytes that have been put out to it so far. Bit 0 of an output is
  the serial clock, bit 1 the (inverted) reset and bit 7 the data line, on which the chip answers as well.
\<close>

type_synonym chip = "u8 list \<Rightarrow> u8"

subsection \<open>Reading the registers\<close>

text \<open>The loop \<open>gclko\<close>: \<open>n\<close> bits of \<open>d\<close>, the lowest first.\<close>

primrec send_bits :: "nat \<Rightarrow> u8 \<Rightarrow> u8 list \<Rightarrow> u8 list" where
  "send_bits 0 d h = h"
| "send_bits (Suc n) d h =
     (let a = (if bit d 0 then 0x80 else 0) OR drop_bit 1 0x04;
          h = h @ [a];
          h = h @ [a OR 1]
      in send_bits n (drop_bit 1 d) h)"

text \<open>The loop \<open>gclki\<close>.\<close>

primrec recv_bits :: "chip \<Rightarrow> nat \<Rightarrow> u8 \<Rightarrow> u8 list \<Rightarrow> u8 \<times> u8 list" where
  "recv_bits chip 0 d h = (d, h)"
| "recv_bits chip (Suc n) d h =
     (let h = h @ [0x82];
          l = chip h;
          h = h @ [0x83]
      in recv_bits chip n ((if bit l 7 then 0x80 else 0) OR drop_bit 1 d) h)"

definition read_reg :: "chip \<Rightarrow> u8 \<Rightarrow> u8 list \<Rightarrow> u8 \<times> u8 list" where
  "read_reg chip cmd h =
     (let h = send_bits 8 cmd (h @ [0x02]);
          (d, h) = recv_bits chip 8 0 h
      in (d, h @ [0x02] @ [0x00]))"

definition watrdc :: "u8 list" where
  "watrdc = [0x85, 0x83, 0x81, 0x87, 0x89, 0x8D, 0, 0]"

fun gclklp :: "chip \<Rightarrow> u8 list \<Rightarrow> u8 list \<Rightarrow> u8 list \<times> u8 list" where
  "gclklp chip [] h = ([], h)"
| "gclklp chip (c # cs) h =
     (if c = 0 then ([], h)
      else let (d, h) = read_reg chip c h; (ds, h) = gclklp chip cs h in (d # ds, h))"

text \<open>\<^verbatim>\<open>rrca\<close> and \<^verbatim>\<open>rlca\<close> rotate.\<close>

definition bcdbin :: "u8 \<Rightarrow> u8" where
  "bcdbin x =
     (let b = x AND 0x0F;
          c = word_rotr 3 (x AND 0xF0);
          a = word_rotl 2 c
      in a + c + b)"

definition getclk :: "chip \<Rightarrow> u8 list \<Rightarrow> u8 list \<times> u8 list" where
  "getclk chip h = (let (ds, h) = gclklp chip watrdc h in (map bcdbin ds, h))"

definition pack_time :: "u8 \<Rightarrow> u8 \<Rightarrow> u8 \<Rightarrow> u16" where
  "pack_time hour mi sc = (drop_bit 1 (ucast sc) OR push_bit 5 (ucast mi)) OR push_bit 11 (ucast hour)"

definition pack_date :: "u8 \<Rightarrow> u8 \<Rightarrow> u8 \<Rightarrow> u16" where
  "pack_date dd mm yy = (ucast (dd - 1) OR push_bit 5 (ucast mm)) OR push_bit 9 (100 + ucast yy)"

definition rdtod :: "chip \<Rightarrow> u8 list \<Rightarrow> time_t \<times> u8 list" where
  "rdtod chip h =
     (let (t, h) = getclk chip h
      in (\<lparr>t_time = pack_time (t ! 0) (t ! 1) (t ! 2), t_date = pack_date (t ! 3) (t ! 4) (t ! 5)\<rparr>, h))"

subsection \<open>The protocol of the chip\<close>

text \<open>
  What the data sheet of the chip promises for a transfer that begins with the reset line going up: after the eight clock pulses of a read command
  each falling edge of the clock puts the next bit of the register on the data line, the lowest first. The registers are taken to stand still.
\<close>

definition pulses :: "u8 \<Rightarrow> u8 list" where
  "pulses cmd = concat (map (\<lambda>i. if bit cmd i then [0x82, 0x83] else [0x02, 0x03]) [0..<8])"

definition at_rest :: "u8 list \<Rightarrow> bool" where
  "at_rest h \<longleftrightarrow> h = [] \<or> last h = 0"

definition serves :: "chip \<Rightarrow> (u8 \<Rightarrow> u8) \<Rightarrow> bool" where
  "serves chip reg \<longleftrightarrow> (\<forall>h. \<forall>cmd \<in> {0x85, 0x83, 0x81, 0x87, 0x89, 0x8D}. \<forall>i < 8. at_rest h \<longrightarrow>
     bit (chip (h @ [0x02] @ pulses cmd @ concat (replicate i [0x82, 0x83]) @ [0x82])) 7 = bit (reg cmd) i)"

lemma send_bits_pulses: "send_bits 8 cmd h = h @ pulses cmd"
proof -
  have one: "(if b then 0x80 else 0) OR drop_bit 1 (0x04 :: u8) = (if b then 0x82 else 0x02)"
    "((if b then 0x82 else 0x02) OR 1 :: u8) = (if b then 0x83 else 0x03)" for b by simp_all
  have "send_bits n d h = h @ concat (map (\<lambda>i. if bit d i then [0x82, 0x83] else [0x02, 0x03]) [0..<n])" for n d
  proof (induction n arbitrary: d h)
    case (Suc n)
    show ?case
      by (simp only: send_bits.simps Let_def one Suc.IH upt_conv_Cons [OF zero_less_Suc] map_Suc_upt [symmetric] list.map map_map o_def)
        (simp add: bit_drop_bit_eq)
  qed simp
  then show ?thesis by (simp add: pulses_def)
qed

lemma recv_bits_history: "snd (recv_bits chip n d h) = h @ concat (replicate n [0x82, 0x83])"
  by (induction n arbitrary: d h) (simp_all add: Let_def)

text \<open>After \<open>n\<close> bits the register has moved \<open>n\<close> places down, and the bits received are above.\<close>

lemma recv_bits_value:
  assumes "\<And>j. j < n \<Longrightarrow> bit (chip (h @ concat (replicate j [0x82, 0x83]) @ [0x82])) 7 = f j" "m < 8"
  shows "bit (fst (recv_bits chip n d h)) m = (if m + n < 8 then bit d (m + n) else f (m + n - 8))"
  using assms(1)
proof (induction n arbitrary: d h f)
  case 0
  then show ?case using assms(2) by simp
next
  case (Suc n)
  let ?c = "if bit (chip (h @ [0x82])) 7 then 0x80 else 0 :: u8"
  have f0: "bit (chip (h @ [0x82])) 7 = f 0" using Suc.prems [of 0] by simp
  have bits: "bit (?c OR drop_bit 1 d) k = (if k = 7 then f 0 else bit d (Suc k))" if "k < 8" for k
  proof -
    have "bit (0x80 :: u8) k = (k = 7)" using that by (auto simp: less_Suc_eq numeral_eq_Suc)
    moreover have "\<not> bit d 8" by (simp add: bit_word.rep_eq)
    ultimately show ?thesis using that by (cases "k = 7") (auto simp: bit_simps f0)
  qed
  have "bit (fst (recv_bits chip n (?c OR drop_bit 1 d) ((h @ [0x82]) @ [0x83]))) m =
      (if m + n < 8 then bit (?c OR drop_bit 1 d) (m + n) else f (Suc (m + n - 8)))"
  proof (rule Suc.IH)
    show "bit (chip (((h @ [0x82]) @ [0x83]) @ concat (replicate j [0x82, 0x83]) @ [0x82])) 7 = f (Suc j)" if "j < n" for j
      using Suc.prems [of "Suc j"] that by simp
  qed
  moreover have "fst (recv_bits chip (Suc n) d h) = fst (recv_bits chip n (?c OR drop_bit 1 d) ((h @ [0x82]) @ [0x83]))"
    by (simp only: recv_bits.simps Let_def)
  moreover have "Suc (m + n - 8) = m + n - 7" if "\<not> m + n < 8" using that by simp
  ultimately show ?case using bits [of "m + n"] by (cases "m + n = 7") auto
qed

lemma read_reg_value:
  assumes "serves chip reg" "at_rest h" "cmd \<in> {0x85, 0x83, 0x81, 0x87, 0x89, 0x8D}"
  shows "fst (read_reg chip cmd h) = reg cmd" "at_rest (snd (read_reg chip cmd h))"
proof -
  have "fst (recv_bits chip 8 0 ((h @ [0x02]) @ pulses cmd)) = reg cmd"
  proof (rule bit_word_eqI)
    fix m assume "m < LENGTH(8)"
    then have m: "m < 8" by simp
    show "bit (fst (recv_bits chip 8 0 ((h @ [0x02]) @ pulses cmd))) m = bit (reg cmd) m"
      by (subst recv_bits_value [where f = "bit (reg cmd)", OF _ m]) (use assms in \<open>auto simp: serves_def\<close>)
  qed
  then show "fst (read_reg chip cmd h) = reg cmd" by (simp add: read_reg_def send_bits_pulses split_beta Let_def)
  show "at_rest (snd (read_reg chip cmd h))" by (simp add: read_reg_def split_beta Let_def at_rest_def)
qed

lemma gclklp_values:
  assumes "serves chip reg" "at_rest h" "set cs \<subseteq> {0x85, 0x83, 0x81, 0x87, 0x89, 0x8D}"
  shows "fst (gclklp chip (cs @ 0 # r) h) = map reg cs \<and> at_rest (snd (gclklp chip (cs @ 0 # r) h))"
  using assms(2,3)
proof (induction cs arbitrary: h)
  case (Cons c cs)
  from Cons.prems have c: "c \<in> {0x85, 0x83, 0x81, 0x87, 0x89, 0x8D}" "set cs \<subseteq> {0x85, 0x83, 0x81, 0x87, 0x89, 0x8D}" by simp_all
  note R = read_reg_value [OF assms(1) Cons.prems(1) c(1)]
  have "c \<noteq> 0" using c(1) by auto
  then show ?case using Cons.IH [OF R(2) c(2)] R(1) by (simp add: split_beta Let_def)
qed simp

subsection \<open>The packed time\<close>

definition bcd :: "nat \<Rightarrow> u8" where
  "bcd n = of_nat (16 * (n div 10) + n mod 10)"

lemma bcdbin_bcd:
  assumes "n < 100"
  shows "bcdbin (bcd n) = of_nat n"
proof -
  have s: "16 * (n div 10) + n mod 10 < 256" using assms by simp
  then have u: "unat (bcd n) = 16 * (n div 10) + n mod 10" unfolding bcd_def by (simp only: unat_of_nat) simp
  have lo: "bcd n AND 0x0F = of_nat (n mod 10)"
  proof -
    have "unat (take_bit 4 (bcd n)) = n mod 10" unfolding unsigned_take_bit_eq u by (simp add: take_bit_eq_mod)
    then have "take_bit 4 (bcd n) = of_nat (n mod 10)" by (metis of_nat_unat ucast_id)
    then show ?thesis by (simp add: take_bit_eq_mask mask_eq_exp_minus_1)
  qed
  have "x AND 0xF0 = push_bit 4 (drop_bit 4 x)" for x :: u8
  proof (rule bit_word_eqI)
    fix m assume "m < LENGTH(8)"
    then have "m = 0 \<or> m = 1 \<or> m = 2 \<or> m = 3 \<or> m = 4 \<or> m = 5 \<or> m = 6 \<or> m = 7" by auto
    then show "bit (x AND 0xF0) m = bit (push_bit 4 (drop_bit 4 x)) m" by (elim disjE) (simp_all add: bit_simps)
  qed
  moreover have "drop_bit 4 (bcd n) = of_nat (n div 10)"
  proof -
    have "unat (drop_bit 4 (bcd n)) = n div 10" unfolding unat_drop_bit_eq u by (simp add: drop_bit_eq_div)
    then show ?thesis by (metis of_nat_unat ucast_id)
  qed
  ultimately have hi: "bcd n AND 0xF0 = push_bit 4 (of_nat (n div 10))" by simp
  have "list_all (\<lambda>k. word_rotl 2 (word_rotr 3 (push_bit 4 (of_nat k :: u8))) + word_rotr 3 (push_bit 4 (of_nat k)) = of_nat (10 * k)) [0..<10]"
    by code_simp
  moreover have "n div 10 < 10" using assms by auto
  ultimately have "word_rotl 2 (word_rotr 3 (push_bit 4 (of_nat (n div 10) :: u8))) + word_rotr 3 (push_bit 4 (of_nat (n div 10))) = of_nat (10 * (n div 10))"
    by (simp only: list_all_iff set_upt atLeastLessThan_iff zero_le simp_thms)
  then have "bcdbin (bcd n) = of_nat (10 * (n div 10)) + of_nat (n mod 10)" by (simp only: bcdbin_def Let_def lo hi)
  then show ?thesis by (simp only: of_nat_add [symmetric] mult_div_mod_eq)
qed

lemma or_field:
  assumes "unat (a :: u16) < 2 ^ n" "n < 16"
  shows "unat (a OR push_bit n b) = (unat a + unat b * 2 ^ n mod 65536) mod 65536"
proof -
  have "unat (take_bit n a) = unat a" using assms(1) by (simp add: unsigned_take_bit_eq take_bit_nat_eq_self)
  then have a: "take_bit n a = a" by (simp only: word_unat_eq_iff)
  have "take_bit n a AND push_bit n b = 0" by (rule bit_word_eqI) (auto simp: bit_simps)
  then have "a AND push_bit n b = 0" unfolding a .
  then have "a OR push_bit n b = a + push_bit n b" by (simp add: disjunctive_add_eq_or)
  then show ?thesis by (simp add: unat_word_ariths(1) unsigned_push_bit_eq push_bit_nat_def take_bit_eq_mod)
qed

lemma unat_byte: "n < 256 \<Longrightarrow> unat (ucast (of_nat n :: u8) :: u16) = n"
  by (simp add: unsigned_ucast_eq take_bit_nat_eq_self unsigned_of_nat)

lemma pack_time_val:
  assumes "hh < 24" "mi < 60" "ss < 60"
  shows "unat (pack_time (of_nat hh) (of_nat mi) (of_nat ss)) = 2048 * hh + 32 * mi + ss div 2"
proof -
  have s: "unat (drop_bit 1 (ucast (of_nat ss :: u8)) :: u16) = ss div 2" using assms(3) by (simp only: unat_drop_bit_eq) (simp add: unat_byte drop_bit_eq_div)
  then have m: "unat (drop_bit 1 (ucast (of_nat ss :: u8)) OR push_bit 5 (ucast (of_nat mi :: u8)) :: u16) = ss div 2 + 32 * mi"
    using assms by (subst or_field) (simp_all add: unat_byte)
  show ?thesis unfolding pack_time_def using assms by (subst or_field) (simp_all only: m, simp_all add: unat_byte)
qed

lemma pack_date_val:
  assumes "1 \<le> dd" "dd \<le> 31" "mo \<le> 12" "yy < 100"
  shows "unat (pack_date (of_nat dd) (of_nat mo) (of_nat yy)) = 512 * ((100 + yy) mod 128) + 32 * mo + (dd - 1)"
proof -
  have "of_nat dd - 1 = (of_nat (dd - 1) :: u8)" using assms(1) by (simp add: of_nat_diff)
  then have d: "unat (ucast (of_nat dd - 1 :: u8) :: u16) = dd - 1" using assms by (simp only: unat_byte)
  have m: "unat (ucast (of_nat dd - 1 :: u8) OR push_bit 5 (ucast (of_nat mo :: u8)) :: u16) = dd - 1 + 32 * mo"
    using assms by (subst or_field) (simp_all only: d, simp_all add: unat_byte)
  have y: "unat (100 + ucast (of_nat yy :: u8) :: u16) = 100 + yy" using assms(4) by (simp add: unat_word_ariths unat_byte)
  have "(100 + yy) * 512 mod 65536 = 512 * ((100 + yy) mod 128)" using mod_mult_mult2 [of "100 + yy" 512 128] by simp
  moreover have "dd - 1 + 32 * mo < 512" using assms by simp
  ultimately show ?thesis unfolding pack_date_def by (subst or_field) (simp_all only: m y, simp_all)
qed

text \<open>C32: with a chip that keeps to its protocol and holds a time and a date as binary coded decimals \<^verbatim>\<open>rdtod\<close> gets all six registers, bit by
  bit, converts them and packs them without overlap: hour, minute and half seconds in one word; year since 1900, month and day less one
  in the other, in whose seven bits the year is right only up to 2027 and begins again with 1900 in 2028. The chip is at rest again behind it.\<close>

theorem rdtod_packs_clock:
  assumes "serves chip reg" "at_rest h"
    and time: "reg 0x85 = bcd hh" "reg 0x83 = bcd mi" "reg 0x81 = bcd ss" "hh < 24" "mi < 60" "ss < 60"
    and date: "reg 0x87 = bcd dd" "reg 0x89 = bcd mo" "reg 0x8D = bcd yy" "1 \<le> dd" "dd \<le> 31" "mo \<le> 12" "yy < 100"
  shows "\<exists>t g. rdtod chip h = (t, g) \<and> at_rest g \<and>
    unat (t_time t) = 2048 * hh + 32 * mi + ss div 2 \<and> unat (t_date t) = 512 * ((100 + yy) mod 128) + 32 * mo + (dd - 1) \<and>
    (unat (t_date t) div 512 = 100 + yy \<longleftrightarrow> yy < 28)"
proof -
  obtain ds g where r: "gclklp chip watrdc h = (ds, g)" by fastforce
  have w: "watrdc = [0x85, 0x83, 0x81, 0x87, 0x89, 0x8D] @ 0 # [0]" by (simp add: watrdc_def)
  have ds: "ds = map reg [0x85, 0x83, 0x81, 0x87, 0x89, 0x8D]" and g: "at_rest g"
    using gclklp_values [OF assms(1,2), of "[0x85, 0x83, 0x81, 0x87, 0x89, 0x8D]" "[0]"] r unfolding w by simp_all
  have "map bcdbin ds = map of_nat [hh, mi, ss, dd, mo, yy]" using time date by (simp add: ds bcdbin_bcd)
  then have "rdtod chip h = (\<lparr>t_time = pack_time (of_nat hh) (of_nat mi) (of_nat ss), t_date = pack_date (of_nat dd) (of_nat mo) (of_nat yy)\<rparr>, g)"
    by (simp add: rdtod_def getclk_def r numeral_eq_Suc)
  moreover have "(512 * ((100 + yy) mod 128) + 32 * mo + (dd - 1)) div 512 = (100 + yy) mod 128" using date by simp
  moreover have "(100 + yy) mod 128 = 100 + yy \<longleftrightarrow> yy < 28"
    using mod_less [of "100 + yy" 128] mod_less_divisor [of 128 "100 + yy"] by linarith
  ultimately show ?thesis using g pack_time_val [OF time(4-6)] pack_date_val [OF date(4-7)] by simp
qed

text \<open>A chip that keeps to the protocol: the bytes since the reset line went up hold the command, and their number the position in the register.\<close>

definition ds1302 :: "(u8 \<Rightarrow> u8) \<Rightarrow> chip" where
  "ds1302 reg h =
     (let x = rev (takeWhile (\<lambda>b. b \<noteq> 0) (rev h));
          cmd = horner_sum of_bool 2 (map (\<lambda>j. bit (x ! Suc (2 * j)) 7) [0..<8])
      in if bit (reg cmd) ((length x - 18) div 2) then 0x80 else 0)"

lemma transfer_since_reset:
  assumes "at_rest h" "0 \<notin> set x"
  shows "rev (takeWhile (\<lambda>b. b \<noteq> 0) (rev (h @ x))) = x"
proof -
  have "takeWhile (\<lambda>b. b \<noteq> 0) (rev h) = []" using assms(1) by (cases h rule: rev_cases) (simp_all add: at_rest_def)
  moreover have "takeWhile (\<lambda>b. b \<noteq> 0) (rev x @ rev h) = rev x @ takeWhile (\<lambda>b. b \<noteq> 0) (rev h)"
    using assms(2) by (intro takeWhile_append2) auto
  ultimately show ?thesis by simp
qed

lemma pulses_list:
  "pulses cmd = concat (map (\<lambda>i. [if bit cmd i then 0x82 else 0x02, if bit cmd i then 0x83 else 0x03]) [0, 1, 2, 3, 4, 5, 6, 7])"
proof -
  have "[0..<8] = [0, 1, 2, 3, 4, 5, 6, 7 :: nat]" by (simp add: upt_rec)
  then show ?thesis by (simp only: pulses_def) (simp add: if_distrib)
qed

lemma pulses_command:
  "horner_sum of_bool 2 (map (\<lambda>j. bit (([0x02] @ pulses cmd @ y) ! Suc (2 * j)) 7) [0..<8]) = cmd"
proof -
  have "bit (([0x02] @ pulses cmd @ y) ! Suc (2 * j)) 7 = bit cmd j" if "j < 8" for j
  proof -
    have "j = 0 \<or> j = 1 \<or> j = 2 \<or> j = 3 \<or> j = 4 \<or> j = 5 \<or> j = 6 \<or> j = 7" using that by auto
    then show ?thesis by (elim disjE) (simp_all add: pulses_list)
  qed
  then have m: "map (\<lambda>j. bit (([0x02] @ pulses cmd @ y) ! Suc (2 * j)) 7) [0..<8] = map (bit cmd) [0..<8]" by (intro map_cong) simp_all
  have "take_bit 8 cmd = cmd" using take_bit_word_eq_self [of 8 cmd] by simp
  then show ?thesis unfolding m by (simp only: horner_sum_bit_eq_take_bit)
qed

lemma ds1302_serves: "serves (ds1302 reg) reg"
proof -
  have c: "length (pulses cmd) = 16" "0 \<notin> set (pulses cmd)" for cmd by (simp_all add: pulses_list)
  have "bit (ds1302 reg (h @ [0x02] @ pulses cmd @ concat (replicate i [0x82, 0x83]) @ [0x82])) 7 = bit (reg cmd) i"
    if h: "at_rest h" and cmd: "cmd \<in> {0x85, 0x83, 0x81, 0x87, 0x89, 0x8D}" and i: "i < 8" for h cmd i
  proof -
    define x where "x = [0x02] @ pulses cmd @ concat (replicate i [0x82, 0x83 :: u8]) @ [0x82]"
    have "0 \<notin> set x" using c(2) [of cmd] by (auto simp: x_def)
    then have r: "rev (takeWhile (\<lambda>b. b \<noteq> 0) (rev (h @ x))) = x" by (rule transfer_since_reset [OF h])
    have "length (concat (replicate i [0x82, 0x83 :: u8])) = 2 * i" by (induction i) simp_all
    then have "(length x - 18) div 2 = i" by (simp add: x_def c(1))
    moreover have "horner_sum of_bool 2 (map (\<lambda>j. bit (x ! Suc (2 * j)) 7) [0..<8]) = cmd" unfolding x_def by (rule pulses_command)
    ultimately show ?thesis unfolding x_def [symmetric] ds1302_def Let_def r by simp
  qed
  then show ?thesis by (simp add: serves_def)
qed

text \<open>The last second of the 15th of March 2028.\<close>

definition march_2028 :: "u8 \<Rightarrow> u8" where
  "march_2028 = (\<lambda>_. 0)(0x85 := bcd 23, 0x83 := bcd 59, 0x81 := bcd 59, 0x87 := bcd 15, 0x89 := bcd 3, 0x8D := bcd 28)"

lemma rdtod_packs_clock_witness:
  "\<exists>t g. rdtod (ds1302 march_2028) [] = (t, g) \<and> unat (t_time t) = 2048 * 23 + 32 * 59 + 29 \<and> unat (t_date t) = 32 * 3 + 14"
  using rdtod_packs_clock [OF ds1302_serves, of "[]" march_2028 23 59 59 15 3 28] by (auto simp: at_rest_def march_2028_def)

end
