(* ===== verification/Uart.thy ===== *)
theory Uart
  imports Tty
begin

section \<open>The serial line: DEVTTYAS.C\<close>

text \<open>
  The receive interrupt of the UART and the output of a character, in the configuration with \<^verbatim>\<open>POLLED_UART_TX\<close>. The characters that
  the receiver holds until it is empty are an argument of the interrupt. Waiting for the transmitter is the hardware's; what has been
  sent is \<open>uart_out\<close>.
\<close>

definition putuart :: "u8 \<Rightarrow> kst \<Rightarrow> kst" where
  "putuart c s = s\<lparr>uart_out := uart_out s @ [c]\<rparr>"

lemma tty_putc_uart: "tty_putc 5 c = putuart (ucast c)"
  by (simp add: tty_putc_def putuart_def fun_eq_iff)

text \<open>The insertion that the interrupt does in the fast mode in place of \<^verbatim>\<open>insq\<close>.\<close>

definition fast_insq :: "u8 \<Rightarrow> s_queue \<Rightarrow> s_queue" where
  "fast_insq c q =
     (let q = q\<lparr>q_base := (q_base q)[q_tail q := c], q_count := q_count q + 1\<rparr>;
          q = q\<lparr>q_tail := q_tail q + 1\<rparr>
      in if q_tail q < q_size q then q else q\<lparr>q_tail := 0\<rparr>)"

definition uart_char :: "u8 \<Rightarrow> kst \<Rightarrow> kst" where
  "uart_char c s =
     (if fast_mode s then wakeup (EvTtyIn 5) (set_q 5 (fast_insq c (ttyq_of 5 s)) s)
      else tinproc 5 (ucast c) s)"

definition uart_int :: "u8 list \<Rightarrow> kst \<Rightarrow> kst" where
  "uart_int cs s = fold uart_char cs s"

subsection \<open>The fast mode\<close>

text \<open>While there is room the interrupt inserts as \<^verbatim>\<open>insq\<close> does; a full queue it takes beyond its size.\<close>

lemma fast_insq_room: "q_count q \<noteq> q_size q \<Longrightarrow> fast_insq c q = snd (insq c q)"
  by (simp add: fast_insq_def insq_def Let_def)

lemma fast_insq_full: "q_count q = q_size q \<Longrightarrow> q_size q < q_count (fast_insq c q)"
  by (simp add: fast_insq_def Let_def)

lemma uart_fast:
  assumes "fast_mode s" "5 < length (ttyinq s)" "q_ok (ttyq_of 5 s)"
    "length (q_contents (ttyq_of 5 s)) + length cs \<le> q_size (ttyq_of 5 s)"
  shows "q_ok (ttyq_of 5 (uart_int cs s)) \<and> q_contents (ttyq_of 5 (uart_int cs s)) = q_contents (ttyq_of 5 s) @ cs"
  using assms
proof (induction cs arbitrary: s)
  case (Cons c cs)
  let ?q = "ttyq_of 5 s" and ?t = "uart_char c s"
  have room: "length (q_contents ?q) < q_size ?q" using Cons.prems(4) by simp
  note I = ttyq.ins_ok [OF Cons.prems(3), of c]
  have "q_count ?q \<noteq> q_size ?q" using room by (simp add: q_contents_def)
  then have q: "ttyq_of 5 ?t = snd (insq c ?q)" "fast_mode ?t" "5 < length (ttyinq ?t)"
    using Cons.prems(1,2) by (simp_all add: uart_char_def fast_insq_room wakeup_def set_q_def ttyq_of_def)
  have "q_ok (ttyq_of 5 (uart_int cs ?t)) \<and> q_contents (ttyq_of 5 (uart_int cs ?t)) = q_contents (ttyq_of 5 ?t) @ cs"
    using Cons.prems(4) I room q by (intro Cons.IH) simp_all
  then show ?case using I room q(1) by (simp add: uart_int_def)
qed (simp add: uart_int_def)

end
