(* ===== verification/FreeBuild.thy ===== *)
theory FreeBuild
  imports FreeList Paths
begin

section \<open>Building a free list\<close>

text \<open>
  Both \<^verbatim>\<open>mkfs\<close> and pass 2 of \<^verbatim>\<open>fsck\<close> build the free list of a file system from its highest block
  downwards, each with its own routine that writes a block. The locale states what they rely on; its lemma shows that the list they
  build is the stack of the blocks given. A device with a sane superblock and free list can be mounted.
\<close>

text \<open>What both loops do with a free block \<open>j\<close>: \<open>after\<close> is the memory behind the superblock.\<close>

definition put_free :: "(u16 \<Rightarrow> block \<Rightarrow> 's \<Rightarrow> 's option) \<Rightarrow> u8 list \<Rightarrow> u16 \<Rightarrow> filesys \<times> 's \<Rightarrow> (filesys \<times> 's) option" where
  "put_free wr after j fs = do {
     let (f, s) = fs;
     (f, s) \<leftarrow> (if s_nfree f = 50 then do {
                   s \<leftarrow> wr j (take 512 (drop 6 (fs_bytes f) @ after)) s;
                   Some (f\<lparr>s_nfree := 0\<rparr>, s) }
                 else Some (f, s));
     let n = s_nfree f;
     if unat n < 50 then Some (f\<lparr>s_tfree := s_tfree f + 1, s_free := (s_free f)[unat n := j], s_nfree := n + 1\<rparr>, s) else wild }"

definition but_list :: "filesys \<Rightarrow> filesys \<Rightarrow> bool" where
  "but_list f g \<longleftrightarrow> g\<lparr>s_tfree := s_tfree f, s_free := s_free f, s_nfree := s_nfree f\<rparr> = f"

lemma but_list_refl: "but_list f f"
  by (simp add: but_list_def)

lemma but_list_trans:
  assumes "but_list f g" "but_list g h"
  shows "but_list f h"
  using assms by (cases f, cases g, cases h) (simp add: but_list_def)

lemma but_list_fields:
  assumes "but_list f g"
  shows "s_isize g = s_isize f" "s_fsize g = s_fsize f" "s_tinode g = s_tinode f" "s_ninode g = s_ninode f" "data_blk g = data_blk f"
  using assms by (cases f, cases g, simp add: but_list_def data_blk_def fun_eq_iff)+

lemma but_list_update: "but_list f (f\<lparr>s_tfree := a, s_free := b, s_nfree := c\<rparr>)"
  by (simp add: but_list_def)

lemma spilled:
  assumes "fs_shape f" "296 \<le> length after"
  defines "d \<equiv> take 512 (drop 6 (fs_bytes f) @ after)"
  shows "length d = 512" "d = splice 0 (chunk_bytes f) d"
proof -
  show "length d = 512" using length_fs_bytes [OF assms(1)] assms(2) by (simp add: d_def)
  have "take 102 (drop 6 (fs_bytes f)) = chunk_bytes f"
    using assms(1) by (simp add: fs_bytes_def fs_words_def chunk_bytes_def fs_shape_def)
  moreover have "drop 102 (drop 6 (fs_bytes f)) = drop 108 (fs_bytes f)" by simp
  ultimately have "drop 6 (fs_bytes f) = chunk_bytes f @ drop 108 (fs_bytes f)" by (metis append_take_drop_id)
  then show "d = splice 0 (chunk_bytes f) d" using length_chunk_bytes [OF assms(1)] by (simp add: d_def splice_def)
qed

locale free_builder =
  fixes wr :: "u16 \<Rightarrow> block \<Rightarrow> 's \<Rightarrow> 's option"
    and view :: "'s \<Rightarrow> u16 \<Rightarrow> block"
    and ok :: "'s \<Rightarrow> bool"
    and rest :: "'s \<Rightarrow> 's \<Rightarrow> bool"
  assumes wr_law: "ok s \<Longrightarrow> length b = 512 \<Longrightarrow>
      \<exists>t. wr a b s = Some t \<and> ok t \<and> rest s t \<and> (\<forall>x. view t x = (if x = a then b else view s x))"
    and rest_refl: "rest s s"
    and rest_trans: "rest s t \<Longrightarrow> rest t u \<Longrightarrow> rest s u"
begin

definition stack_ok :: "filesys \<Rightarrow> 's \<Rightarrow> u16 list \<Rightarrow> bool" where
  "stack_ok f s xs \<longleftrightarrow> ok s \<and> super_ok f xs \<and> free_stack (view s) (table f) xs"

lemma put_free_step:
  assumes h: "stack_ok f s xs" and x: "x \<noteq> 0" "x \<notin> set xs" "data_blk f x" and after: "296 \<le> length after"
  shows "\<exists>g t. put_free wr after x (f, s) = Some (g, t) \<and> stack_ok g t (x # xs) \<and> rest s t \<and> but_list f g \<and>
    (\<forall>a. a \<noteq> x \<longrightarrow> view t a = view s a)"
proof -
  have H: "ok s" "super_ok f xs" "free_stack (view s) (table f) xs" using h by (simp_all add: stack_ok_def)
  have sh: "fs_shape f" "unat (s_nfree f) \<le> 50" using H(2) by (simp_all add: super_ok_def)
  show ?thesis
  proof (cases "s_nfree f = 50")
    case True
    let ?d = "take 512 (drop 6 (fs_bytes f) @ after)"
    note D = spilled [OF sh(1) after]
    from wr_law [OF H(1) D(1)] obtain t where
      t: "wr x ?d s = Some t" "ok t" "rest s t" "\<forall>a. view t a = (if a = x then ?d else view s a)" by blast
    let ?g = "f\<lparr>s_tfree := s_tfree f + 1, s_free := (s_free f)[0 := x], s_nfree := 1\<rparr>"
    have "view t x = splice 0 (chunk_bytes f) ?d" using t(4) D(2) by presburger
    moreover have "view t a = view s a" if "a \<in> set xs" for a using t(4) x(2) that by metis
    ultimately have "super_ok ?g (x # xs)" "free_stack (view t) (table ?g) (x # xs)"
      using spill_table [OF H(2,3) x True D(1), of "view t"] by blast+
    moreover have "put_free wr after x (f, s) = Some (?g, t)" using True t(1) by (simp add: put_free_def)
    ultimately show ?thesis using t(2-4) but_list_update by (auto simp: stack_ok_def)
  next
    case False
    then have "unat (s_nfree f) \<noteq> unat (50 :: u16)" using unsigned_word_eqI [of "s_nfree f" 50] by blast
    then have n: "unat (s_nfree f) < 50" using sh(2) by simp
    let ?g = "f\<lparr>s_tfree := s_tfree f + 1, s_free := (s_free f)[unat (s_nfree f) := x], s_nfree := s_nfree f + 1\<rparr>"
    have "stack_ok ?g s (x # xs)" using push_table [OF H(2,3) x n] H(1) by (simp add: stack_ok_def)
    moreover have "put_free wr after x (f, s) = Some (?g, s)" using False n by (simp add: put_free_def Let_def)
    ultimately show ?thesis using rest_refl but_list_update by blast
  qed
qed

lemma put_free_all:
  assumes "stack_ok f s xs" "distinct ys" "\<And>y. y \<in> set ys \<Longrightarrow> y \<noteq> 0 \<and> y \<notin> set xs \<and> data_blk f y" "296 \<le> length after"
  shows "\<exists>g t. foldM (put_free wr after) ys (f, s) = Some (g, t) \<and> stack_ok g t (rev ys @ xs) \<and> rest s t \<and> but_list f g \<and>
    (\<forall>a. a \<notin> set ys \<longrightarrow> view t a = view s a)"
  using assms
proof (induction ys arbitrary: f s xs)
  case Nil
  then show ?case by (auto intro: rest_refl but_list_refl)
next
  case (Cons y ys)
  have y: "y \<noteq> 0" "y \<notin> set xs" "data_blk f y" using Cons.prems(3) by auto
  from put_free_step [OF Cons.prems(1) y Cons.prems(4)] obtain g t where
    t: "put_free wr after y (f, s) = Some (g, t)" "stack_ok g t (y # xs)" "rest s t" "but_list f g" "\<forall>a. a \<noteq> y \<longrightarrow> view t a = view s a" by blast
  have "z \<noteq> 0 \<and> z \<notin> set (y # xs) \<and> data_blk g z" if "z \<in> set ys" for z
    using that Cons.prems(2,3) but_list_fields(5) [OF t(4)] by auto
  from Cons.IH [OF t(2) _ this Cons.prems(4)] Cons.prems(2) obtain h u where
    u: "foldM (put_free wr after) ys (g, t) = Some (h, u)" "stack_ok h u (rev ys @ y # xs)" "rest t u" "but_list g h"
      "\<forall>a. a \<notin> set ys \<longrightarrow> view u a = view t a" by auto
  then show ?case using t rest_trans [OF t(3) u(3)] but_list_trans [OF t(4) u(4)] by auto
qed

end

subsection \<open>The data blocks in order\<close>

lemma unat_of_below: "j < unat (w :: u16) \<Longrightarrow> unat (of_nat j :: u16) = j"
  using less_trans [of j "unat w" 65536] by (simp add: unsigned_of_nat take_bit_nat_eq_self)

lemma blocks_from:
  fixes n :: u16
  assumes "0 < m"
  shows "distinct (map of_nat [m..<unat n] :: u16 list)"
    and "y \<in> set (map of_nat [m..<unat n]) \<longleftrightarrow> y \<noteq> 0 \<and> m \<le> unat y \<and> y < n"
proof -
  have u: "unat (of_nat i :: u16) = i" if "i < unat n" for i using that by (rule unat_of_below)
  have "inj_on (of_nat :: nat \<Rightarrow> u16) {m..<unat n}" by (rule inj_on_inverseI [of _ unat]) (simp add: u)
  then show "distinct (map of_nat [m..<unat n] :: u16 list)" by (simp add: distinct_map)
  show "y \<in> set (map of_nat [m..<unat n]) \<longleftrightarrow> y \<noteq> 0 \<and> m \<le> unat y \<and> y < n"
  proof
    assume "y \<in> set (map of_nat [m..<unat n])"
    then obtain i where i: "y = of_nat i" "m \<le> i" "i < unat n" by auto
    then show "y \<noteq> 0 \<and> m \<le> unat y \<and> y < n" using u [OF i(3)] assms by (auto simp: word_less_nat_alt)
  next
    assume "y \<noteq> 0 \<and> m \<le> unat y \<and> y < n"
    then have "y = of_nat (unat y)" "unat y \<in> {m..<unat n}" by (simp_all add: word_less_nat_alt)
    then show "y \<in> set (map of_nat [m..<unat n])" by (metis image_eqI list.set_map set_upt)
  qed
qed

subsection \<open>Mounting\<close>

lemma mount_sane:
  fixes s :: kst
  assumes q: "quiet s" and d: "disk_dev dev" and len: "length (fs_tab s) = 4" and f: "bytes_fs (bview s dev 1) = f" "s_isize f < s_fsize f"
    and ok: "super_ok f xs" "free_stack (bview s dev) (table f) xs"
  shows "\<exists>t. fmount dev None s = Some (0, t) \<and> fs_ok t dev xs \<and> fsp dev t = f\<lparr>s_mntpt := 0\<rparr> \<and> same_views s t"
proof -
  have calm: "calm {} {} s" using q by (simp add: quiet_calm)
  from read_block [OF calm d avail_quiet [OF q], of 1] obtain i v where
    v: "breadp dev 1 False s = Some (i, v)" "buf_data i v = bview s dev 1" "same_rest s v"
    and rel: "\<forall>u. same_pool v u \<longrightarrow> (\<exists>w. brelse i u = Some w \<and> calm {} {} w \<and> same_rest u w \<and> same_views s w)" by blast
  let ?v = "upd_fs dev (\<lambda>_. f) v"
  from rel obtain w where w: "brelse i ?v = Some w" "calm {} {} w" "same_rest ?v w" "same_views s w"
    by (meson same_pool_refl same_pool_updates(3))
  let ?u = "upd_fs dev (\<lambda>f. f\<lparr>s_mntpt := 0\<rparr>) w"
  have lv: "length (fs_tab v) = 4" using len v(3) by (simp add: same_rest_kst)
  have nd: "nat dev < 4" "dev < 4" "0 \<le> dev" using d by (auto simp: disk_dev_def)
  have lw: "length (fs_tab w) = 4" "fsp dev w = f"
    using w(3) lv nd fsp_same [of dev v "\<lambda>_. f"] by (simp_all add: same_rest_kst fsp_rest)
  have "d_open dev s = (0, s)" using d by (simp add: d_open_def disk_dev_facts)
  then have mount: "fmount dev None s = Some (0, ?u)"
    using nd v(1,2) w(1) lw(2) f ok(1) by (simp add: fmount_def Let_def super_ok_def ino_addr_def not_le)
  have uv: "bview ?u = bview w" using same_pool_views(1) [of w ?u] by simp
  then have vw: "bview ?u dev = bview s dev" using w(4) d by (simp add: same_views_def fun_eq_iff)
  have fu: "fsp dev ?u = f\<lparr>s_mntpt := 0\<rparr>" using lw nd by (simp add: fsp_same)
  have "free_stack (bview ?u dev) (table (f\<lparr>s_mntpt := 0\<rparr>)) xs" using ok(2) by (simp add: vw table_def)
  then have "fs_ok ?u dev xs" using ok(1) lw d by (simp add: fs_ok_def fu super_ok_def fs_shape_def data_blk_def)
  then show ?thesis using mount fu w(4) uv by (auto simp: same_views_def)
qed

end
