(* ===== verification/Mkfs.thy ===== *)
theory Mkfs
  imports FreeBuild Names
begin

section \<open>Making a file system: MKFS.C\<close>

text \<open>
  The utility that writes an empty file system. Its buffer pool has the routines of the kernel's (the two
  sources of DEVIO.C differ in no routine used here but \<^verbatim>\<open>bufsync\<close>, which for buffers that nobody holds
  does the same, and in the number of buffers, which is 5); the model uses the kernel's pool and driver.
  \<^verbatim>\<open>dwrite\<close> copies 512 bytes from the address of a structure that may be shorter: \<open>after\<close> is
  the program's memory behind the variable \<^verbatim>\<open>filsys\<close>. The answer to the confirmation question is an
  argument of \<open>mkfs_main\<close>, whose other arguments are the numbers on the command line.
\<close>

definition dwrite :: "int \<Rightarrow> u16 \<Rightarrow> block \<Rightarrow> 'a bst_scheme \<Rightarrow> 'a bst_scheme option" where
  "dwrite dev blk data s = do {
     (b, s) \<leftarrow> breadp dev blk True s;
     (_, s) \<leftarrow> bfree b 1 (set_data b data s);
     Some s }"

definition new_super :: "u16 \<Rightarrow> u16 \<Rightarrow> filesys" where
  "new_super isize fsize =
     \<lparr>s_mounted = SMOUNTED, s_isize = isize, s_fsize = fsize, s_nfree = 1, s_free = replicate 50 0, s_ninode = 0,
      s_inode = replicate 50 0, s_fmod = 0, s_time = time0, s_tfree = 0, s_tinode = 8 * (isize - 2) - 2, s_mntpt = 0\<rparr>"

definition mkfs_free :: "int \<Rightarrow> u8 list \<Rightarrow> u16 \<Rightarrow> filesys \<times> 'a bst_scheme \<Rightarrow> (filesys \<times> 'a bst_scheme) option" where
  "mkfs_free dev after j fs = do {
     let (f, s) = fs;
     (f, s) \<leftarrow> (if s_nfree f = 50 then do {
                   s \<leftarrow> dwrite dev j (take 512 (drop 6 (fs_bytes f) @ after)) s;
                   Some (f\<lparr>s_nfree := 0\<rparr>, s) }
                 else Some (f, s));
     let f = f\<lparr>s_tfree := s_tfree f + 1\<rparr>;
     let n = s_nfree f;
     if unat n < 50 then Some (f\<lparr>s_free := (s_free f)[unat n := j], s_nfree := n + 1\<rparr>, s) else wild }"

definition root_dinode :: "u16 \<Rightarrow> dinode" where
  "root_dinode isize = no_node\<lparr>i_mode := F_DIR OR (0x1FF AND MODE_MASK), i_nlink := 3,
     i_size := \<lparr>o_blkno = 0, o_offset = 32\<rparr>, i_addr := (replicate 20 0)[0 := isize]\<rparr>"

definition reserved_dinode :: dinode where
  "reserved_dinode = no_node\<lparr>i_nlink := 1, i_mode := - 1\<rparr>"

definition first_inodes :: "u16 \<Rightarrow> block" where
  "first_inodes isize = concat (map dinode_bytes (reserved_dinode # root_dinode isize # replicate 6 no_node))"

definition dirbuf :: block where
  "dirbuf = direct_bytes \<lparr>d_ino = ROOTINODE, d_name = [46] @ replicate 13 0\<rparr> @
     direct_bytes \<lparr>d_ino = ROOTINODE, d_name = [46, 46] @ replicate 12 0\<rparr> @ replicate 480 0"

definition mkfs :: "int \<Rightarrow> u8 list \<Rightarrow> u16 \<Rightarrow> u16 \<Rightarrow> 'a bst_scheme \<Rightarrow> 'a bst_scheme option" where
  "mkfs dev after fsize isize s = do {
     s \<leftarrow> foldM (\<lambda>j. dwrite dev (of_nat j) zero_blk) [0..<unat isize] s;
     (f, s) \<leftarrow> foldM (mkfs_free dev after) (map of_nat (rev [Suc (unat isize)..<unat fsize])) (new_super isize fsize, s);
     s \<leftarrow> dwrite dev 2 (first_inodes isize) s;
     s \<leftarrow> dwrite dev isize dirbuf s;
     s \<leftarrow> dwrite dev 1 (take 512 (fs_bytes f @ after)) s;
     bufsync s }"

definition xbufinit :: "'a bst_scheme \<Rightarrow> 'a bst_scheme" where
  "xbufinit s = s\<lparr>bufpool := map (\<lambda>bp. bp\<lparr>bf_dev := - 1\<rparr>) (bufpool s)\<rparr>"

definition mkfs_main :: "int \<Rightarrow> u8 list \<Rightarrow> u16 \<Rightarrow> u16 \<Rightarrow> bool \<Rightarrow> kst \<Rightarrow> (int \<times> kst) option" where
  "mkfs_main dev after isize fsize yes s =
     (if dev < 0 \<or> dev \<ge> int NDEVS \<or> dev = 1 then Some (- 1, s)
      else if fsize < 3 \<or> isize < 2 \<or> isize \<ge> fsize then Some (- 1, s)
      else if \<not> yes then Some (- 1, s)
      else let s = xbufinit s; (r, s) = d_open dev s
           in if r \<noteq> 0 then Some (- 1, s)
              else do { s \<leftarrow> mkfs dev after fsize isize s; s \<leftarrow> bufsync s; Some (0, s) })"

subsection \<open>What it writes\<close>

lemma dwrite_buf_wr: "dwrite dev blk = buf_wr (dev, blk)"
  by (auto simp: fun_eq_iff dwrite_def buf_wr_def bawrite_def split: bind_split)

lemma dwrite_law:
  assumes "quiet s" "disk_dev dev" "length b = 512"
  shows "\<exists>t. dwrite dev blk b s = Some t \<and> quiet t \<and> same_rest s t \<and>
    (\<forall>a. bview t dev a = (if a = blk then b else bview s dev a))"
  using buf_wr_law [OF assms, of blk] assms(2) by (auto simp: dwrite_buf_wr)

lemma zero_blocks:
  assumes "quiet s" "disk_dev dev"
  shows "\<exists>t. foldM (\<lambda>j. dwrite dev (of_nat j) zero_blk) js s = Some t \<and> quiet t \<and> same_rest s t"
  using assms(1)
proof (induction js arbitrary: s)
  case Nil
  then show ?case by simp
next
  case (Cons j js)
  from dwrite_law [OF Cons.prems assms(2), of zero_blk "of_nat j"] obtain u where
    u: "dwrite dev (of_nat j) zero_blk s = Some u" "quiet u" "same_rest s u" by (auto simp: zero_blk_def)
  from Cons.IH [OF u(2)] same_rest_trans [OF u(3)] u(1) show ?case by auto
qed

lemma mkfs_free_put: "mkfs_free dev after = put_free (dwrite dev) after"
  by (auto simp: fun_eq_iff mkfs_free_def put_free_def Let_def split: bind_split)

interpretation mk: free_builder "dwrite dev" "\<lambda>s. bview s dev" "\<lambda>s. quiet s \<and> disk_dev dev" same_rest for dev
proof
  show "\<exists>t. dwrite dev a b s = Some t \<and> (quiet t \<and> disk_dev dev) \<and> same_rest s t \<and> (\<forall>x. bview t dev x = (if x = a then b else bview s dev x))"
    if "quiet s \<and> disk_dev dev" "length b = 512" for s a b
    using dwrite_law that by blast
qed (auto intro: same_rest_trans)

lemma build_all:
  assumes s: "quiet (s :: 'a bst_scheme)" "disk_dev dev" and i: "unat isize < unat fsize" and after: "296 \<le> length after"
  shows "\<exists>f t. foldM (mkfs_free dev after) (map of_nat (rev [Suc (unat isize)..<unat fsize])) (new_super isize fsize, s) = Some (f, t) \<and>
    quiet t \<and> same_rest s t \<and> s_isize f = isize \<and> s_fsize f = fsize \<and> super_ok f (map of_nat [Suc (unat isize)..<unat fsize]) \<and>
    free_stack (bview t dev) (table f) (map of_nat [Suc (unat isize)..<unat fsize])"
proof -
  let ?xs = "map of_nat [Suc (unat isize)..<unat fsize] :: u16 list" and ?f = "new_super isize fsize"
  note B = blocks_from [of "Suc (unat isize)", OF zero_less_Suc, where n = fsize]
  have start: "mk.stack_ok dev ?f s []"
    unfolding mk.stack_ok_def using s by (simp add: new_super_def super_ok_def fs_shape_def table_def free_stack.bottom)
  have "y \<noteq> 0 \<and> y \<notin> set [] \<and> data_blk ?f y" if "y \<in> set (rev ?xs)" for y
    using that B(2) [of y] by (simp add: data_blk_def new_super_def word_le_nat_alt)
  moreover have "distinct (rev ?xs)" using B(1) by simp
  ultimately obtain f t where
    t: "foldM (put_free (dwrite dev) after) (rev ?xs) (?f, s) = Some (f, t)" "mk.stack_ok dev f t (rev (rev ?xs) @ [])" "same_rest s t" "but_list ?f f"
    using mk.put_free_all [OF start _ _ after, of "rev ?xs"] by blast
  then show ?thesis
    using but_list_fields(1,2) [OF t(4)] unfolding mk.stack_ok_def by (simp add: mkfs_free_put rev_map new_super_def)
qed

subsection \<open>What it is read as\<close>

lemma length_first_inodes: "length (first_inodes isize) = 512"
  by (simp add: first_inodes_def length_dinode_bytes dinode_ok_def root_dinode_def reserved_dinode_def no_node_def numeral_eq_Suc)

lemma root_in_first_inodes: "get_dinode (first_inodes isize) 1 = root_dinode isize"
proof -
  have ok: "dinode_ok (root_dinode isize)" "dinode_ok reserved_dinode"
    by (simp_all add: dinode_ok_def root_dinode_def reserved_dinode_def no_node_def)
  have "take 64 (drop 64 (first_inodes isize)) = dinode_bytes (root_dinode isize)"
    by (simp add: first_inodes_def length_dinode_bytes ok)
  then show ?thesis by (simp add: get_dinode_def bytes_dinode_bytes ok)
qed

lemma dirbuf_entries:
  "length dirbuf = 512" "dir_entry dirbuf 0 = \<lparr>d_ino = ROOTINODE, d_name = [46] @ replicate 13 0\<rparr>"
  "dir_entry dirbuf 1 = \<lparr>d_ino = ROOTINODE, d_name = [46, 46] @ replicate 12 0\<rparr>"
  by (simp_all add: dirbuf_def dir_entry_def direct_bytes_def bytes_direct_def numeral_eq_Suc)

lemma mkfs_writes:
  fixes s :: "'a bst_scheme"
  assumes "quiet s" "disk_dev dev" "3 \<le> unat isize" "unat isize < unat fsize" "296 \<le> length after"
  defines "xs \<equiv> map of_nat [Suc (unat isize)..<unat fsize] :: u16 list"
  shows "\<exists>t f. mkfs dev after fsize isize s = Some t \<and> quiet t \<and>
    s_isize f = isize \<and> s_fsize f = fsize \<and> super_ok f xs \<and> free_stack (hd_blk t dev) (table f) xs \<and> bytes_fs (hd_blk t dev 1) = f \<and>
    hd_blk t dev 2 = first_inodes isize \<and> hd_blk t dev isize = dirbuf"
proof -
  from zero_blocks [OF assms(1,2), of "[0..<unat isize]"] obtain s1 where
    s1: "foldM (\<lambda>j. dwrite dev (of_nat j) zero_blk) [0..<unat isize] s = Some s1" "quiet s1" "same_rest s s1" by blast
  from build_all [OF s1(2) assms(2,4,5)] obtain f s2 where
    s2: "foldM (mkfs_free dev after) (map of_nat (rev [Suc (unat isize)..<unat fsize])) (new_super isize fsize, s1) = Some (f, s2)"
      "quiet s2" and f: "s_isize f = isize" "s_fsize f = fsize" "super_ok f xs" "free_stack (bview s2 dev) (table f) xs"
    unfolding xs_def by blast
  have sh: "fs_shape f" using f(3) by (simp add: super_ok_def)
  from dwrite_law [OF s2(2) assms(2) length_first_inodes, of 2 isize] obtain s3 where
    s3: "dwrite dev 2 (first_inodes isize) s2 = Some s3" "quiet s3"
      "\<forall>a. bview s3 dev a = (if a = 2 then first_inodes isize else bview s2 dev a)" by blast
  from dwrite_law [OF s3(2) assms(2) dirbuf_entries(1), of isize] obtain s4 where
    s4: "dwrite dev isize dirbuf s3 = Some s4" "quiet s4"
      "\<forall>a. bview s4 dev a = (if a = isize then dirbuf else bview s3 dev a)" by blast
  let ?sb = "take 512 (fs_bytes f @ after)"
  have sb: "length ?sb = 512" "bytes_fs ?sb = f"
    using length_fs_bytes [OF sh] assms(5) bytes_fs_bytes [OF sh, of "take 290 after"] by simp_all
  from dwrite_law [OF s4(2) assms(2) sb(1), of 1] obtain s5 where
    s5: "dwrite dev 1 ?sb s4 = Some s5" "quiet s5"
      "\<forall>a. bview s5 dev a = (if a = 1 then ?sb else bview s4 dev a)" by blast
  from bufsync_prefix [OF s5(2), of "[0..<38]"] obtain t where
    t: "bufsync s5 = Some t" "quiet t" "\<forall>a. bview t dev a = bview s5 dev a" "\<forall>j < 38. bf_dirty (bufp j t) = 0"
    using assms(2) by (auto simp: bufsync_def)
  have run: "mkfs dev after fsize isize s = Some t"
    by (simp only: mkfs_def s1(1) s2(1) s3(1) s4(1) s5(1) t(1) bind.bind_lunit split_conv)
  have D: "hd_blk t dev a = bview t dev a" for a by (rule clean_pool_view [OF t(2,4) assms(2)])
  have V: "hd_blk t dev a = (if a = 1 then ?sb else if a = isize then dirbuf else if a = 2 then first_inodes isize else bview s2 dev a)" for a
    using D t(3) s5(3) s4(3) s3(3) by simp
  have "hd_blk t dev a = bview s2 dev a" if "a \<in> set xs" for a
    using that blocks_from(2) [of "Suc (unat isize)", OF zero_less_Suc, where y = a] assms(3) by (auto simp: V xs_def)
  then have "free_stack (hd_blk t dev) (table f) xs" by (rule free_stack_cong [OF f(4)])
  moreover have "isize \<noteq> 1" "isize \<noteq> 2" using assms(3) by auto
  then have "bytes_fs (hd_blk t dev 1) = f" "hd_blk t dev 2 = first_inodes isize" "hd_blk t dev isize = dirbuf" by (simp_all add: V sb(2) del: take_append)
  ultimately show ?thesis using run t(2) f(1-3) by blast
qed

text \<open>C13: \<^verbatim>\<open>mkfs\<close> makes a file system that the kernel can mount and allocate from. It returns; and a kernel that has nothing of the
  device in its own buffers and finds on it what \<^verbatim>\<open>mkfs\<close> has left there, after the last \<^verbatim>\<open>bufsync\<close> of the utility and without its buffers,
  mounts it: the superblock is sane and its free list is the stack of all blocks
  behind the first data block, lowest on top, each once, whatever lay on the device and behind the
  utility's variables; inode 1 is a directory of two entries in the first data block, whose entries \<open>.\<close> and \<open>..\<close> both name inode 1.\<close>

theorem mkfs_then_mount:
  fixes k :: kst
  assumes "quiet s" "disk_dev dev" "3 \<le> unat isize" "unat isize < unat fsize" "296 \<le> length after"
    and kernel: "quiet k" "length (fs_tab k) = 4" "\<forall>i < 38. bf_dev (bufp i k) \<noteq> dev"
  shows "\<exists>t. mkfs dev after fsize isize s = Some t \<and> quiet t \<and>
    ((\<forall>a. hd_blk k dev a = hd_blk t dev a) \<longrightarrow>
       (\<exists>u. fmount dev None k = Some (0, u) \<and>
          fs_ok u dev (map of_nat [Suc (unat isize)..<unat fsize]) \<and> s_isize (fsp dev u) = isize \<and> s_fsize (fsp dev u) = fsize \<and>
          get_dinode (bview u dev (ino_blk ROOTINODE)) (ino_slot ROOTINODE) = root_dinode isize \<and>
          dir_entry (bview u dev isize) 0 = \<lparr>d_ino = ROOTINODE, d_name = [46] @ replicate 13 0\<rparr> \<and>
          dir_entry (bview u dev isize) 1 = \<lparr>d_ino = ROOTINODE, d_name = [46, 46] @ replicate 12 0\<rparr>))"
proof -
  let ?xs = "map of_nat [Suc (unat isize)..<unat fsize] :: u16 list"
  from mkfs_writes [OF assms(1-5)] obtain t f where
    t: "mkfs dev after fsize isize s = Some t" "quiet t" and f: "s_isize f = isize" "s_fsize f = fsize" "super_ok f ?xs"
      "free_stack (hd_blk t dev) (table f) ?xs" "bytes_fs (hd_blk t dev 1) = f"
    and b: "hd_blk t dev 2 = first_inodes isize" "hd_blk t dev isize = dirbuf" by blast
  have "\<exists>u. fmount dev None k = Some (0, u) \<and> fs_ok u dev ?xs \<and> fsp dev u = f\<lparr>s_mntpt := 0\<rparr> \<and> same_views k u"
    if "bview k dev = hd_blk t dev"
  proof (rule mount_sane [OF kernel(1) assms(2) kernel(2) _ _ f(3)])
    show "bytes_fs (bview k dev 1) = f" "free_stack (bview k dev) (table f) ?xs" using that f(4,5) by simp_all
    show "s_isize f < s_fsize f" using f(1,2) assms(4) by (simp add: word_less_nat_alt)
  qed
  moreover have "bview k dev a = hd_blk k dev a" for a using kernel(3) by (intro bview_out) (simp add: named_def)
  moreover have "ino_blk ROOTINODE = 2" "ino_slot ROOTINODE = 1" by (simp_all add: ino_blk_def ino_slot_def ROOTINODE_def)
  ultimately show ?thesis
    using t f(1,2) b assms(2) root_in_first_inodes [of isize] dirbuf_entries(2,3) by (auto simp: fun_eq_iff same_views_def)
qed

text \<open>A kernel with empty buffers on the driver of another program.\<close>

lemma fresh_kernel:
  assumes "hd_ok h"
  shows "quiet (sample\<lparr>hd := h\<rparr>)" "length (fs_tab (sample\<lparr>hd := h\<rparr>)) = 4" "i < 38 \<Longrightarrow> bf_dev (bufp i (sample\<lparr>hd := h\<rparr>)) = - 1"
  using assms by (auto simp: quiet_def pool_ok_def sample_def busyset_def distinct_names_def bufp_def buf_inv_def blank_def disk_dev_def)

lemma mkfs_then_mount_witness:
  "\<exists>t u. mkfs 2 (replicate 296 9) 100 10 sample = Some t \<and> fmount 2 None (sample\<lparr>hd := hd t\<rparr>) = Some (0, u) \<and>
    fs_ok u 2 (map of_nat [11..<100])"
proof -
  have d: "disk_dev 2" by (simp add: disk_dev_def)
  from mkfs_writes [OF sample_quiet d, of 10 100 "replicate 296 9"] obtain t where
    t: "mkfs 2 (replicate 296 9) 100 10 sample = Some t" "quiet t" by auto
  note k = fresh_kernel [OF pool_okD(2) [OF quietD(1) [OF t(2)]]]
  have "hd_blk (sample\<lparr>hd := hd t\<rparr>) 2 a = hd_blk t 2 a" for a by (simp add: hd_blk_def)
  with mkfs_then_mount [OF sample_quiet d _ _ _ k(1,2), of 10 100 "replicate 296 9"] k(3) t(1) show ?thesis by auto
qed

end
