(* ===== verification/Memory.thy ===== *)
theory Memory
  imports Process
begin

section \<open>Pages of user memory: MACHDEP.C, MACHASM.C, SCALL2.C, SCALL3.C, PROCASM.C\<close>

text \<open>
  The memory below the flat user memory of \<open>kst\<close>. \<open>vm\<close> holds the table of page descriptors, the
  16 MMU entries of the user mode (0 to 7 for data, 8 to 15 for code), the page table \<^verbatim>\<open>udata.u_page\<close> of the
  running process, the user blocks of the other processes (\<open>ublk\<close>, by the number of the buffer that
  \<^verbatim>\<open>p_ublk\<close> points to; \<open>b_data\<close> stands for the fields of \<^verbatim>\<open>u_data\<close> that \<open>kst\<close> has), and the physical memory as a map from a page's frame and an offset to a byte.
  \<open>kern\<close> is the rest of the kernel. An MMU entry or \<^verbatim>\<open>pg_addr\<close> has the frame in the bits from 5 up; bit 3 makes
  it valid, bit 2 write-protects it, bit 0 says that the page was written, bit 4 is undefined.
  A page pointer is a constructor of \<open>upg\<close>; \<open>Page i\<close> points to \<^verbatim>\<open>pgtab[i]\<close>. A user access (\<^verbatim>\<open>STUD\<close>,
  \<^verbatim>\<open>LDUD\<close>) goes through the MMU and fails when the entry is not valid or forbids it; \<^verbatim>\<open>usflt\<close> and \<^verbatim>\<open>ulflt\<close> then
  call \<^verbatim>\<open>upage\<close> and repeat it. Swapping to disk is not implemented in the source (\<^verbatim>\<open>_SWAP_OUT_\<close> is not defined).
\<close>

datatype upg = NOPAGE | OUTPAGE | VIRGPAGE | Page nat

record pg_descr =
  pg_addr :: u16
  pg_refs :: u8
  pg_age :: u16

record u_block =
  b_data :: kst
  b_page :: "upg list"
  b_pbreak :: u16
  b_isp :: u16
  b_name :: "u8 list"

record vm =
  pgtab :: "pg_descr list"
  page_age :: u16
  phys :: "u16 \<Rightarrow> u16 \<Rightarrow> u8"
  mmu :: "u16 list"
  c_mode :: nat
  u_page :: "upg list"
  u_pbreak :: u16
  u_isp :: u16
  u_name :: "u8 list"
  ublk :: "nat \<Rightarrow> u_block"
  kern :: kst

subsection \<open>MMU and descriptors\<close>

definition setmmu :: "nat \<Rightarrow> u16 \<Rightarrow> vm \<Rightarrow> vm" where
  "setmmu pgnum v m = m\<lparr>mmu := (mmu m)[pgnum := v]\<rparr>"

definition getmmu :: "nat \<Rightarrow> vm \<Rightarrow> u16" where
  "getmmu pgnum m = mmu m ! pgnum AND 0xFFEF"

definition pgp :: "nat \<Rightarrow> vm \<Rightarrow> pg_descr" where
  "pgp i m = pgtab m ! i"

definition upd_pg :: "nat \<Rightarrow> (pg_descr \<Rightarrow> pg_descr) \<Rightarrow> vm \<Rightarrow> vm" where
  "upd_pg i f m = m\<lparr>pgtab := (pgtab m)[i := f (pgtab m ! i)]\<rparr>"

definition and_addr :: "u16 \<Rightarrow> pg_descr \<Rightarrow> pg_descr" where
  "and_addr w pg = pg\<lparr>pg_addr := pg_addr pg AND w\<rparr>"

definition or_addr :: "u16 \<Rightarrow> pg_descr \<Rightarrow> pg_descr" where
  "or_addr w pg = pg\<lparr>pg_addr := pg_addr pg OR w\<rparr>"

definition set_page :: "nat \<Rightarrow> upg \<Rightarrow> vm \<Rightarrow> vm" where
  "set_page j p m = m\<lparr>u_page := (u_page m)[j := p]\<rparr>"

definition page_frame :: "u16 \<Rightarrow> u16" where
  "page_frame w = w AND 0xFFE0"

definition pg_copy :: "u16 \<Rightarrow> u16 \<Rightarrow> vm \<Rightarrow> vm" where
  "pg_copy src dest m = m\<lparr>phys := (phys m)(page_frame dest := phys m (page_frame src))\<rparr>"

definition pg_zero :: "u16 \<Rightarrow> vm \<Rightarrow> vm" where
  "pg_zero pg m = m\<lparr>phys := (phys m)(page_frame pg := (\<lambda>_. 0))\<rparr>"

definition rdmmu :: "vm \<Rightarrow> vm" where
  "rdmmu m = fold (\<lambda>j m. case u_page m ! j of Page i \<Rightarrow> upd_pg i (\<lambda>pg. pg\<lparr>pg_addr := getmmu j m\<rparr>) m | _ \<Rightarrow> m) [0..<16] m"

definition ldmmu :: "vm \<Rightarrow> vm" where
  "ldmmu m = fold (\<lambda>j m. case u_page m ! j of Page i \<Rightarrow> setmmu j (pg_addr (pgp i m)) m | _ \<Rightarrow> setmmu j 0 m) [0..<16] m"

subsection \<open>Allocation\<close>

definition pg_realloc :: "nat \<Rightarrow> vm \<Rightarrow> vm" where
  "pg_realloc i = upd_pg i (\<lambda>pg. pg\<lparr>pg_refs := pg_refs pg + 1\<rparr>)"

definition pg_free :: "nat \<Rightarrow> vm \<Rightarrow> vm option" where
  "pg_free i m =
     (if pg_refs (pgp i m) = 0 then panic ''pg_free'' else Some (upd_pg i (\<lambda>pg. pg\<lparr>pg_refs := pg_refs pg - 1\<rparr>) m))"

definition free_pages :: "nat \<Rightarrow> upg list \<Rightarrow> vm \<Rightarrow> vm option" where
  "free_pages n tab = foldM (\<lambda>j m. case tab ! j of Page i \<Rightarrow> pg_free i m | _ \<Rightarrow> Some m) [0..<n]"

definition own_pages :: "p_tab \<Rightarrow> nat" where
  "own_pages p = (if p_bintype p \<noteq> 0 then 8 else 16)"

definition free_zombie_pages :: "vm \<Rightarrow> (bool \<times> vm) option" where
  "free_zombie_pages m =
     (case oldest_zombie (kern m) of
        None \<Rightarrow> Some (False, m)
      | Some k \<Rightarrow> do {
          let p = procp k (kern m);
          b \<leftarrow> p_ublk p;
          m \<leftarrow> free_pages (own_pages p) (b_page (ublk m b)) m;
          s \<leftarrow> release_ublk k (kern m);
          Some (True, m\<lparr>kern := upd_proc k (\<lambda>p. p\<lparr>p_status := P_EMPTY\<rparr>) s\<rparr>) })"

definition take_page :: "nat \<Rightarrow> vm \<Rightarrow> vm" where
  "take_page i m =
     (let m = upd_pg i (\<lambda>pg. (and_addr 0xFFEF pg)\<lparr>pg_refs := 1\<rparr>) m;
          m = pg_zero (pg_addr (pgp i m)) (m\<lparr>page_age := page_age m + 1\<rparr>)
      in upd_pg i (\<lambda>pg. (or_addr 0xA (and_addr 0xFFF0 pg))\<lparr>pg_age := page_age m\<rparr>) m)"

partial_function (option) pg_alloc :: "vm \<Rightarrow> (nat \<times> vm) option" where
  "pg_alloc m =
     (case scan (\<lambda>i. pg_refs (pgp i m) = 0) 0 (length (pgtab m)) of
        Some i \<Rightarrow> Some (i, take_page i m)
      | None \<Rightarrow> Option.bind (free_zombie_pages m) (\<lambda>(ok, m). if ok then pg_alloc m else panic ''no pages''))"

subsection \<open>Page faults\<close>

definition twin :: "nat \<Rightarrow> nat" where
  "twin pnum = (if pnum < 8 then pnum + 8 else pnum - 8)"

definition bintype :: "vm \<Rightarrow> bool" where
  "bintype m \<longleftrightarrow> p_bintype (procp (u_ptab (kern m)) (kern m)) \<noteq> 0"

definition map_twin :: "nat \<Rightarrow> nat \<Rightarrow> u16 \<Rightarrow> vm \<Rightarrow> vm" where
  "map_twin pnum i w m = (if bintype m then setmmu (twin pnum) w (set_page (twin pnum) (Page i) m) else m)"

definition virgin_page :: "nat \<Rightarrow> vm \<Rightarrow> vm option" where
  "virgin_page pnum m = do {
     (i, m) \<leftarrow> pg_alloc m;
     let m = upd_pg i (and_addr 0xFFEF) (set_page pnum (Page i) m);
     let w = pg_addr (pgp i m) OR 0xB;
     Some (setmmu pnum w (map_twin pnum i w m)) }"

definition last_user :: "nat \<Rightarrow> nat \<Rightarrow> vm \<Rightarrow> vm" where
  "last_user pnum i m =
     (let m = upd_pg i (\<lambda>pg. and_addr 0xFFEF (and_addr 0xFFFB pg)) m;
          w = pg_addr (pgp i m)
      in setmmu pnum w (map_twin pnum i w m))"

definition copy_on_write :: "nat \<Rightarrow> nat \<Rightarrow> vm \<Rightarrow> vm option" where
  "copy_on_write pnum i m = do {
     (n, m) \<leftarrow> pg_alloc (upd_pg i (and_addr 0xFFEF) m);
     let m = upd_pg n (and_addr 0xFFEF) m;
     let m = pg_copy (pg_addr (pgp i m)) (pg_addr (pgp n m)) m;
     let w = pg_addr (pgp n m) OR 0xB;
     let m = setmmu pnum w (set_page pnum (Page n) (map_twin pnum n w m));
     let m = upd_pg i (\<lambda>pg. pg\<lparr>pg_refs := pg_refs pg - 1\<rparr>) m;
     Some (if pg_refs (pgp i m) = 1 then upd_pg i (and_addr 0xFFFB) m else m) }"

definition reload_page :: "nat \<Rightarrow> nat \<Rightarrow> vm \<Rightarrow> vm" where
  "reload_page pnum i m =
     (let m = upd_pg i (and_addr 0xFFEF) m;
          w = pg_addr (pgp i m);
          m = setmmu pnum w m
      in if bintype m then setmmu (twin pnum) w m else m)"

definition getpag :: "nat \<Rightarrow> vm \<Rightarrow> (int \<times> vm) option" where
  "getpag pnum m =
     (let pnum = pnum + c_mode m
      in case u_page m ! pnum of
           NOPAGE \<Rightarrow> Some (- 1, m)
         | OUTPAGE \<Rightarrow> do { (_, m) \<leftarrow> pg_alloc m; Some (0, m) }
         | VIRGPAGE \<Rightarrow> do { m \<leftarrow> virgin_page pnum m; Some (0, m) }
         | Page i \<Rightarrow>
             if pg_addr (pgp i m) AND 4 \<noteq> 0 then
               if pg_refs (pgp i m) = 1 then Some (0, last_user pnum i m)
               else do { m \<leftarrow> copy_on_write pnum i m; Some (0, m) }
             else Some (0, reload_page pnum i m))"

definition upage :: "u16 \<Rightarrow> vm \<Rightarrow> (int \<times> vm) option" where
  "upage uptr m = getpag (unat (drop_bit 13 uptr)) m"

definition usegv2 :: "nat \<Rightarrow> vm \<Rightarrow> (int \<times> vm) option" where
  "usegv2 badpage m =
     (if badpage \<ge> 16 then panic ''User segv of system page'' else getpag badpage (m\<lparr>c_mode := 0\<rparr>))"

subsection \<open>Accesses of the kernel to user data\<close>

definition page_off :: "u16 \<Rightarrow> u16" where
  "page_off a = a AND 0x1FFF"

definition STUD :: "u16 \<Rightarrow> u8 \<Rightarrow> vm \<Rightarrow> vm option" where
  "STUD a v m =
     (let e = mmu m ! page_no a
      in if e AND 8 = 0 \<or> e AND 4 \<noteq> 0 then None
         else Some (m\<lparr>phys := (phys m)(page_frame e := (phys m (page_frame e))(page_off a := v))\<rparr>))"

definition LDUD :: "u16 \<Rightarrow> vm \<Rightarrow> u8 option" where
  "LDUD a m = (let e = mmu m ! page_no a in if e AND 8 = 0 then None else Some (phys m (page_frame e) (page_off a)))"

definition usflt :: "u16 \<Rightarrow> u8 \<Rightarrow> vm \<Rightarrow> (bool \<times> vm) option" where
  "usflt a v m = do {
     (r, m) \<leftarrow> upage a (m\<lparr>c_mode := 0\<rparr>);
     Some (if r \<noteq> 0 then (False, m\<lparr>kern := set_error EFAULT (kern m)\<rparr>)
           else (True, case STUD a v m of None \<Rightarrow> m | Some m \<Rightarrow> m)) }"

definition ulflt :: "u16 \<Rightarrow> vm \<Rightarrow> (u8 option \<times> vm) option" where
  "ulflt a m = do {
     (r, m) \<leftarrow> upage a m;
     (if r \<noteq> 0 then Some (None, m\<lparr>kern := set_error EFAULT (kern m)\<rparr>)
      else case LDUD a m of None \<Rightarrow> wild | Some v \<Rightarrow> Some (Some v, m)) }"

definition put_byte :: "u16 \<Rightarrow> u8 \<Rightarrow> vm \<Rightarrow> (bool \<times> vm) option" where
  "put_byte a v m = (case STUD a v m of Some m \<Rightarrow> Some (True, m) | None \<Rightarrow> usflt a v m)"

definition get_byte :: "u16 \<Rightarrow> vm \<Rightarrow> (u8 option \<times> vm) option" where
  "get_byte a m = (case LDUD a m of Some v \<Rightarrow> Some (Some v, m) | None \<Rightarrow> ulflt a m)"

subsection \<open>User blocks and process switches\<close>

definition save_udata :: "vm \<Rightarrow> u_block" where
  "save_udata m = \<lparr>b_data = kern m, b_page = u_page m, b_pbreak = u_pbreak m, b_isp = u_isp m, b_name = u_name m\<rparr>"

definition u_fields :: "kst \<Rightarrow> kst \<Rightarrow> kst" where
  "u_fields u s = s\<lparr>u_ptab := u_ptab u, u_insys := u_insys u, u_callno := u_callno u, u_retloc := u_retloc u,
     u_retval := u_retval u, u_error := u_error u, u_usp := u_usp u, u_cursig := u_cursig u, u_argn := u_argn u,
     u_argn1 := u_argn1 u, u_argn2 := u_argn2 u, u_argn3 := u_argn3 u, u_base := u_base u, u_count := u_count u,
     u_offset := u_offset u, u_sysio := u_sysio u, u_gid := u_gid u, u_euid := u_euid u, u_egid := u_egid u,
     u_mask := u_mask u, u_time := u_time u, u_files := u_files u, u_cwd := u_cwd u, u_break := u_break u,
     u_sigvec := u_sigvec u, u_utime := u_utime u, u_stime := u_stime u, u_cutime := u_cutime u, u_cstime := u_cstime u\<rparr>"

definition load_udata :: "u_block \<Rightarrow> vm \<Rightarrow> vm" where
  "load_udata b m = m\<lparr>kern := u_fields (b_data b) (kern m), u_page := b_page b, u_pbreak := b_pbreak b,
     u_isp := b_isp b, u_name := b_name b\<rparr>"

definition on_kern :: "(kst \<Rightarrow> kst) \<Rightarrow> vm \<Rightarrow> vm" where
  "on_kern f m = m\<lparr>kern := f (kern m)\<rparr>"

definition swrite :: "vm \<Rightarrow> vm option" where
  "swrite m = do {
     b \<leftarrow> p_ublk (procp (u_ptab (kern m)) (kern m));
     Some (m\<lparr>ublk := (ublk m)(b := save_udata m)\<rparr>) }"

definition MAXINTER :: u16 where "MAXINTER = 20"
definition MAXBACK2 :: u16 where "MAXBACK2 = 3"

definition swapin :: "nat \<Rightarrow> vm \<Rightarrow> vm option" where
  "swapin pp m = do {
     let m = on_kern (upd_proc pp (\<lambda>p. p\<lparr>p_priority := if p_ignored p \<noteq> 0xC then MAXINTER else MAXBACK2\<rparr>)) m;
     b \<leftarrow> p_ublk (procp pp (kern m));
     let m = ldmmu (load_udata (ublk m b) m);
     (if pp \<noteq> u_ptab (kern m) then panic ''mangled swapin''
      else Some (on_kern (\<lambda>s. (upd_proc pp (\<lambda>p. p\<lparr>p_status := P_RUNNING\<rparr>) s)\<lparr>runticks := 0\<rparr>) m)) }"

definition exit_switch :: "vm \<Rightarrow> vm option" where
  "exit_switch m = do {
     m \<leftarrow> free_pages (own_pages (procp (u_ptab (kern m)) (kern m))) (u_page m) m;
     (pp, s) \<leftarrow> getproc (kern m);
     swapin pp (m\<lparr>kern := s\<rparr>) }"

definition swapout :: "vm \<Rightarrow> vm option" where
  "swapout m = do {
     (gone, s) \<leftarrow> chksigs (kern m);
     (if gone then exit_switch (m\<lparr>kern := s\<rparr>)
      else do {
        (newp, s) \<leftarrow> getproc s;
        let m = m\<lparr>kern := s\<rparr>;
        (if newp = u_ptab s then Some (on_kern (\<lambda>s. (upd_proc (u_ptab s) (\<lambda>p. p\<lparr>p_status := P_RUNNING\<rparr>) s)\<lparr>runticks := 0\<rparr>) m)
         else do {
           m \<leftarrow> swrite (on_kern (\<lambda>s. s\<lparr>u_usp := usp_reg s\<rparr>) (rdmmu m));
           swapin newp m }) }) }"

subsection \<open>Fork\<close>

partial_function (option) ptab_slot_pages :: "vm \<Rightarrow> (nat option \<times> vm) option" where
  "ptab_slot_pages m =
     (case scan (\<lambda>k. p_status (procp k (kern m)) = P_EMPTY) 0 PTABSIZE of
        Some k \<Rightarrow> Some (Some k, m)
      | None \<Rightarrow> Option.bind (free_zombie_pages m) (\<lambda>(ok, m). if ok then ptab_slot_pages m else Some (None, m)))"

definition ptab_alloc_pages :: "vm \<Rightarrow> (nat option \<times> vm) option" where
  "ptab_alloc_pages m = do {
     (q, m) \<leftarrow> ptab_slot_pages m;
     (case q of
        None \<Rightarrow> Some (None, m)
      | Some k \<Rightarrow> do {
          s \<leftarrow> ptab_fill k (kern m);
          b \<leftarrow> p_ublk (procp k s);
          Some (Some k, m\<lparr>kern := s, ublk := (ublk m)(b := (ublk m b)\<lparr>b_page := replicate 16 NOPAGE\<rparr>)\<rparr>) }) }"

definition share_page :: "bool \<Rightarrow> nat \<Rightarrow> upg \<Rightarrow> vm \<Rightarrow> vm" where
  "share_page once j p m =
     (case p of
        Page i \<Rightarrow> upd_pg i (or_addr 5) (if once \<and> j \<ge> 8 then m else pg_realloc i m)
      | _ \<Rightarrow> m)"

definition share_pages :: "bool \<Rightarrow> vm \<Rightarrow> vm" where
  "share_pages once m = fold (\<lambda>j m. share_page once j (u_page m ! j) m) [0..<16] m"

definition dofork :: "vm \<Rightarrow> (int \<times> vm) option" where
  "dofork m = do {
     (q, m) \<leftarrow> ptab_alloc_pages m;
     (case q of
        None \<Rightarrow> Some (- 1, on_kern (set_error EAGAIN) m)
      | Some p \<Rightarrow> do {
          let m = ldmmu (share_pages False (rdmmu m));
          let m = on_kern (\<lambda>s. upd_proc (u_ptab s) (\<lambda>p. p\<lparr>p_status := P_READY\<rparr>) s) m;
          m \<leftarrow> swrite (on_kern (\<lambda>s. s\<lparr>u_usp := usp_reg s\<rparr>) m);
          s \<leftarrow> newproc p (kern m);
          Some (0, m\<lparr>kern := upd_proc p (\<lambda>p. p\<lparr>p_status := P_RUNNING, p_fork_inf := 1\<rparr>) (s\<lparr>runticks := 0\<rparr>)\<rparr>) }) }"

subsection \<open>Programs kept in memory\<close>

definition give_pages :: "nat option \<Rightarrow> vm \<Rightarrow> vm option" where
  "give_pages q m =
     (case q of
        None \<Rightarrow> Some m
      | Some k \<Rightarrow> do {
          let p = procp k (kern m);
          b \<leftarrow> p_ublk p;
          Some (fold (\<lambda>j m. let pg = b_page (ublk m b) ! j in set_page j pg (share_page (p_bintype p \<noteq> 0) j pg m)) [0..<16] m) })"

definition setup_pg_type1 :: "vm \<Rightarrow> vm" where
  "setup_pg_type1 m =
     ldmmu (fold (\<lambda>j m. case u_page m ! j of Page i \<Rightarrow> set_page (j - 8) (Page i) m | _ \<Rightarrow> m) [8..<16] (rdmmu m))"

definition eq_proc :: "nat \<Rightarrow> kst \<Rightarrow> bool" where
  "eq_proc k s \<longleftrightarrow>
     (let p = procp k s; q = procp (u_ptab s) s
      in p_inode p = p_inode q \<and> p_idev p = p_idev q \<and> p_idate p = p_idate q)"

definition find_zombie2 :: "kst \<Rightarrow> nat option \<times> kst" where
  "find_zombie2 s =
     (case scan (\<lambda>k. p_status (procp k s) = P_ZOMBIE2 \<and> eq_proc k s) 0 PTABSIZE of
        None \<Rightarrow> (None, s)
      | Some k \<Rightarrow> (Some k, upd_proc k (\<lambda>p. p\<lparr>p_uid := p_pid (procp (u_ptab s) s), p_status := P_FORKING\<rparr>) s))"

definition make_zombie :: "vm \<Rightarrow> (nat \<times> vm) option" where
  "make_zombie m = do {
     (q, m) \<leftarrow> ptab_alloc_pages (rdmmu m);
     z \<leftarrow> q;
     let me = procp (u_ptab (kern m)) (kern m);
     let m = on_kern (upd_proc z (\<lambda>p. p\<lparr>p_bintype := p_bintype me, p_uid := p_pid me, p_status := P_FORKING,
                                        p_inode := p_inode me, p_idev := p_idev me, p_idate := p_idate me\<rparr>)) m;
     let m = ldmmu (share_pages (p_bintype me \<noteq> 0) m);
     b \<leftarrow> p_ublk (procp z (kern m));
     let u = save_udata m;
     Some (z, m\<lparr>ublk := (ublk m)(b := u\<lparr>b_data := (b_data u)\<lparr>u_ptab := z\<rparr>\<rparr>)\<rparr>) }"

definition brk_pages :: "vm \<Rightarrow> vm" where
  "brk_pages m = fold (\<lambda>j m. if u_page m ! j = NOPAGE then set_page j VIRGPAGE m else m) [0..<Suc (page_no (u_break (kern m)))] m"

end
