(* ===== verification/Paging.thy ===== *)
theory Paging
  imports Memory Sample
begin

section \<open>Copy on write keeps the memories of the processes apart\<close>

text \<open>
  The invariant of the page tables: every reference count is the number of page table entries that own the
  page, a shared page is write-protected, and the MMU of the running process agrees with its page table.
  A program without separate code pages (\<^verbatim>\<open>p_bintype\<close> not 0) has each page in both halves of its table and
  owns it once.
\<close>

subsection \<open>Bits of a descriptor\<close>

lemma frame_bits:
  "page_frame (w AND 0xFFEF) = page_frame w" "page_frame (w AND 0xFFFB) = page_frame w" "page_frame (w AND 0xFFF0) = page_frame w"
  "page_frame (w OR 0xA) = page_frame w" "page_frame (w OR 0xB) = page_frame w" "page_frame (w OR 5) = page_frame w"
  by (simp_all add: page_frame_def and.assoc bit.conj_disj_distrib2)

lemma valid_bits:
  "(w AND 0xFFEF) AND 8 = w AND (8 :: u16)" "(w AND 0xFFFB) AND 8 = w AND (8 :: u16)" "(w OR 5) AND 8 = w AND (8 :: u16)"
  "(w OR 0xA) AND 8 \<noteq> (0 :: u16)" "(w OR 0xB) AND 8 \<noteq> (0 :: u16)"
  "(w AND 0xFFEF) AND 4 = w AND (4 :: u16)" "(w AND 0xFFFB) AND 4 = (0 :: u16)" "(w OR 5) AND 4 \<noteq> (0 :: u16)"
  "(w OR 0xA) AND 4 = w AND (4 :: u16)" "(w OR 0xB) AND 4 = w AND (4 :: u16)" "(w AND 0xFFF0) AND 4 = (0 :: u16)"
  by (simp_all add: and.assoc bit.conj_disj_distrib2)

subsection \<open>The invariant\<close>

definition holds :: "nat \<Rightarrow> kst \<Rightarrow> bool" where
  "holds k s \<longleftrightarrow> p_status (procp k s) \<noteq> P_EMPTY \<and> p_status (procp k s) \<noteq> P_ZOMBIE"

definition ptable :: "nat \<Rightarrow> vm \<Rightarrow> upg list" where
  "ptable k m = (if k = u_ptab (kern m) then u_page m else b_page (ublk m (the (p_ublk (procp k (kern m))))))"

definition slots :: "nat \<Rightarrow> vm \<Rightarrow> upg list" where
  "slots k m = (if holds k (kern m) then take (own_pages (procp k (kern m))) (ptable k m) else [])"

definition uses :: "nat \<Rightarrow> vm \<Rightarrow> nat" where
  "uses i m = (\<Sum>k<PTABSIZE. count_list (slots k m) (Page i))"

definition table_ok :: "nat \<Rightarrow> bool \<Rightarrow> upg list \<Rightarrow> bool" where
  "table_ok n two tab \<longleftrightarrow> length tab = 16 \<and>
     (\<forall>j < 16. tab ! j \<noteq> OUTPAGE \<and> (\<forall>i. tab ! j = Page i \<longrightarrow> i < n)) \<and>
     (two \<longrightarrow> (\<forall>j < 8. \<forall>i. tab ! j = Page i \<longleftrightarrow> tab ! (j + 8) = Page i)) \<and>
     (\<forall>i j k. i < 16 \<longrightarrow> j < 16 \<longrightarrow> tab ! i = Page k \<longrightarrow> tab ! j = Page k \<longrightarrow> i mod 8 = j mod 8)"

definition desc_ok :: "nat \<Rightarrow> vm \<Rightarrow> bool" where
  "desc_ok i m \<longleftrightarrow> (let pg = pgp i m in unat (pg_refs pg) = uses i m \<and>
     (uses i m > 1 \<longrightarrow> pg_addr pg AND 4 \<noteq> 0) \<and> (uses i m > 0 \<longrightarrow> pg_addr pg AND 8 \<noteq> 0))"

definition entry_ok :: "nat \<Rightarrow> vm \<Rightarrow> bool" where
  "entry_ok j m \<longleftrightarrow> (case u_page m ! j of
       Page i \<Rightarrow> page_frame (mmu m ! j) = page_frame (pg_addr (pgp i m)) \<and> mmu m ! j AND 8 \<noteq> 0 \<and>
                 (uses i m > 1 \<longrightarrow> mmu m ! j AND 4 \<noteq> 0)
     | _ \<Rightarrow> mmu m ! j AND 8 = 0)"

definition mmu_ok :: "vm \<Rightarrow> bool" where
  "mmu_ok m \<longleftrightarrow> length (mmu m) = 16 \<and> (\<forall>j < 16. entry_ok j m)"

definition frames_ok :: "vm \<Rightarrow> bool" where
  "frames_ok m \<longleftrightarrow> inj_on (\<lambda>i. page_frame (pg_addr (pgp i m))) {..<length (pgtab m)}"

definition tables_ok :: "vm \<Rightarrow> bool" where
  "tables_ok m \<longleftrightarrow>
     (\<forall>k < PTABSIZE. holds k (kern m) \<longrightarrow> table_ok (length (pgtab m)) (p_bintype (procp k (kern m)) \<noteq> 0) (ptable k m))"

definition procs_ok :: "kst \<Rightarrow> bool" where
  "procs_ok s \<longleftrightarrow> length (ptab s) = PTABSIZE \<and> u_ptab s < PTABSIZE \<and> holds (u_ptab s) s"

definition vm_ok :: "vm \<Rightarrow> bool" where
  "vm_ok m \<longleftrightarrow> procs_ok (kern m) \<and> tables_ok m \<and> (\<forall>i < length (pgtab m). desc_ok i m) \<and> frames_ok m \<and> mmu_ok m"

text \<open>What process \<open>k\<close> sees in its page \<open>j\<close> at an offset; \<open>None\<close> for a page outside its address space.\<close>

definition sees :: "nat \<Rightarrow> vm \<Rightarrow> nat \<Rightarrow> u16 \<Rightarrow> u8 option" where
  "sees k m j o' = (case ptable k m ! j of
       Page i \<Rightarrow> Some (phys m (page_frame (pg_addr (pgp i m))) o')
     | VIRGPAGE \<Rightarrow> Some 0
     | _ \<Rightarrow> None)"

subsection \<open>Counting references\<close>

lemma count_list_positions: "count_list xs x = card {j. j < length xs \<and> xs ! j = x}"
  by (simp add: count_list_eq_length_filter length_filter_conv_card eq_commute)

lemma count_list_update:
  "j < length xs \<Longrightarrow> count_list (xs[j := y]) x + (if xs ! j = x then 1 else 0) = count_list xs x + (if y = x then 1 else 0)"
proof (induction xs arbitrary: j)
  case (Cons z zs)
  show ?case using Cons.IH [of "j - 1"] Cons.prems by (cases j) (auto split: if_splits)
qed simp

lemma count_list_two:
  assumes "i < length xs" "j < length xs" "i \<noteq> j" "xs ! i = x" "xs ! j = x"
  shows "2 \<le> count_list xs x"
proof -
  have "card {i, j} \<le> card {j. j < length xs \<and> xs ! j = x}" using assms by (intro card_mono) auto
  then show ?thesis using assms(3) by (simp add: count_list_positions)
qed

lemma mod_8: "i < 16 \<Longrightarrow> i mod 8 = (if i < 8 then i else i - (8 :: nat))"
  by (simp add: le_mod_geq)

lemma twin_bounds [simp]: "j < 16 \<Longrightarrow> twin j < 16" "j < 16 \<Longrightarrow> twin j \<noteq> j" "j < 16 \<Longrightarrow> twin (twin j) = j" "j < 16 \<Longrightarrow> twin j mod 8 = j mod 8"
  by (auto simp: twin_def mod_8)

lemma same_mod_8:
  assumes "i < 16" "j < 16" "i mod 8 = j mod 8"
  shows "i = j \<or> i = twin j"
proof -
  have "(if i < 8 then i else i - 8) = (if j < 8 then j else j - 8)" using assms by (simp only: mod_8)
  then show ?thesis unfolding twin_def by (auto split: if_splits)
qed

lemma twin_page:
  assumes "table_ok n True tab" "j < 16"
  shows "tab ! twin j = Page i \<longleftrightarrow> tab ! j = Page i"
proof (cases "j < 8")
  case True
  then show ?thesis using assms(1) by (simp add: table_ok_def twin_def)
next
  case False
  then have "j - 8 < 8" "j - 8 + 8 = j" using assms(2) by auto
  moreover have "j - 8 < 8 \<Longrightarrow> tab ! (j - 8) = Page i \<longleftrightarrow> tab ! (j - 8 + 8) = Page i"
    using assms(1) by (simp only: table_ok_def)
  ultimately show ?thesis using False by (simp add: twin_def)
qed

lemma tables_okD: "tables_ok m \<Longrightarrow> k < PTABSIZE \<Longrightarrow> holds k (kern m) \<Longrightarrow>
    table_ok (length (pgtab m)) (p_bintype (procp k (kern m)) \<noteq> 0) (ptable k m)"
  by (simp add: tables_ok_def)

lemma slot_of_page:
  assumes "tables_ok m" "k < PTABSIZE" "holds k (kern m)" "j < 16" "ptable k m ! j = Page i"
  shows "\<exists>q < length (slots k m). slots k m ! q = Page i"
proof -
  note t = tables_okD [OF assms(1-3)]
  have l: "length (ptable k m) = 16" using t by (simp add: table_ok_def)
  show ?thesis
  proof (cases "p_bintype (procp k (kern m)) = 0 \<or> j < 8")
    case True
    then show ?thesis using l assms by (intro exI [of _ j]) (auto simp: slots_def own_pages_def)
  next
    case False
    then have "ptable k m ! (j - 8) = Page i" "j - 8 < 8"
      using twin_page [of _ "ptable k m" j i] t assms(4,5) by (simp_all add: twin_def)
    then show ?thesis using l False assms(3) by (intro exI [of _ "j - 8"]) (simp add: slots_def own_pages_def)
  qed
qed

lemma count_of_page:
  assumes "tables_ok m" "k < PTABSIZE" "holds k (kern m)" "j < 16" "ptable k m ! j = Page i"
  shows "1 \<le> count_list (slots k m) (Page i)"
proof -
  obtain q where "q < length (slots k m)" "slots k m ! q = Page i" using slot_of_page [OF assms] by blast
  then have "Page i \<in> set (slots k m)" by (metis nth_mem)
  then show ?thesis using count_list_0_iff [of "slots k m" "Page i"] by linarith
qed

lemma uses_split: "c < PTABSIZE \<Longrightarrow> uses i m = count_list (slots c m) (Page i) + (\<Sum>k \<in> {..<PTABSIZE} - {c}. count_list (slots k m) (Page i))"
  unfolding uses_def by (rule sum.remove) auto

lemma page_used:
  assumes "tables_ok m" "k < PTABSIZE" "holds k (kern m)" "j < 16" "ptable k m ! j = Page i"
  shows "1 \<le> uses i m"
  using count_of_page [OF assms] uses_split [OF assms(2), of i m] by simp

lemma exclusive_page:
  assumes "tables_ok m" "uses i m \<le> 1" "c < PTABSIZE" "holds c (kern m)" "p < 16" "ptable c m ! p = Page i"
    and "k < PTABSIZE" "holds k (kern m)" "j < 16" "ptable k m ! j = Page i"
  shows "k = c \<and> (j = p \<or> p_bintype (procp c (kern m)) \<noteq> 0 \<and> j = twin p)"
proof (cases "k = c")
  case False
  have "count_list (slots k m) (Page i) \<le> (\<Sum>k \<in> {..<PTABSIZE} - {c}. count_list (slots k m) (Page i))"
    using False assms(7) by (intro member_le_sum) auto
  then have "2 \<le> uses i m"
    using count_of_page [OF assms(1,3-6)] count_of_page [OF assms(1,7-10)] uses_split [OF assms(3), of i m] by linarith
  with assms(2) show ?thesis by simp
next
  case True
  have "j mod 8 = p mod 8"
    using tables_okD [OF assms(1,3,4)] assms(5,6,9,10) True unfolding table_ok_def by blast
  then have j: "j = p \<or> j = twin p" using same_mod_8 assms(5,9) by blast
  moreover have False if b: "p_bintype (procp c (kern m)) = 0" and "j \<noteq> p"
  proof -
    have l: "length (ptable c m) = 16" using tables_okD [OF assms(1,3,4)] by (simp add: table_ok_def)
    have "2 \<le> count_list (slots c m) (Page i)"
      using l b that(2) assms(4-6,9,10) True by (intro count_list_two [of j _ p]) (simp_all add: slots_def own_pages_def)
    then show False using uses_split [OF assms(3), of i m] assms(2) by simp
  qed
  ultimately show ?thesis using True by blast
qed

subsection \<open>Page faults\<close>

text \<open>How many pages are free, and which pages of the running process the MMU lets the kernel store to.\<close>

definition left :: "vm \<Rightarrow> nat" where
  "left m = card {i. i < length (pgtab m) \<and> pg_refs (pgp i m) = 0}"

definition ready :: "nat \<Rightarrow> vm \<Rightarrow> bool" where
  "ready j m \<longleftrightarrow> mmu m ! j AND 8 \<noteq> 0 \<and> mmu m ! j AND 4 = 0"

text \<open>The page of the running process is present and writable, and apart from the other half of a program
  without separate code nobody sees a change.\<close>

definition faulted :: "nat \<Rightarrow> vm \<Rightarrow> vm \<Rightarrow> bool" where
  "faulted pnum m t \<longleftrightarrow> vm_ok t \<and> kern t = kern m \<and> c_mode t = c_mode m \<and>
     (\<exists>i. u_page t ! pnum = Page i \<and> uses i t = 1) \<and> ready pnum t \<and> (\<forall>j < 16. ready j m \<longrightarrow> ready j t) \<and> left m \<le> Suc (left t) \<and>
     (\<forall>k < PTABSIZE. \<forall>j < 16. holds k (kern m) \<longrightarrow> k = u_ptab (kern m) \<and> bintype m \<and> j = twin pnum \<or> sees k t j = sees k m j)"

lemma vm_okD:
  assumes "vm_ok m"
  shows "procs_ok (kern m)" "tables_ok m" "\<And>i. i < length (pgtab m) \<Longrightarrow> desc_ok i m" "frames_ok m" "mmu_ok m"
    "length (u_page m) = 16" "length (mmu m) = 16" "u_ptab (kern m) < PTABSIZE" "holds (u_ptab (kern m)) (kern m)"
    "table_ok (length (pgtab m)) (bintype m) (u_page m)"
proof -
  show t: "procs_ok (kern m)" "tables_ok m" "\<And>i. i < length (pgtab m) \<Longrightarrow> desc_ok i m" "frames_ok m" "mmu_ok m"
    using assms by (simp_all add: vm_ok_def)
  show c: "u_ptab (kern m) < PTABSIZE" "holds (u_ptab (kern m)) (kern m)" using t(1) by (simp_all add: procs_ok_def)
  show tab: "table_ok (length (pgtab m)) (bintype m) (u_page m)"
    using tables_okD [OF t(2) c] by (simp add: ptable_def bintype_def)
  then show "length (u_page m) = 16" by (simp add: table_ok_def)
  show "length (mmu m) = 16" using t(5) by (simp add: mmu_ok_def)
qed

lemma table_okD:
  assumes "table_ok n two tab" "j < 16"
  shows "tab ! j \<noteq> OUTPAGE" "tab ! j = Page i \<Longrightarrow> i < n"
  using assms by (simp_all add: table_ok_def)

definition both :: "bool \<Rightarrow> nat \<Rightarrow> 'a \<Rightarrow> 'a list \<Rightarrow> 'a list" where
  "both two pnum x xs = (if two then xs[pnum := x, twin pnum := x] else xs[pnum := x])"

lemma length_both [simp]: "length (both two p x xs) = length xs"
  by (simp add: both_def)

lemma nth_both:
  "p < 16 \<Longrightarrow> length xs = 16 \<Longrightarrow> j < 16 \<Longrightarrow> both two p x xs ! j = (if j = p \<or> two \<and> j = twin p then x else xs ! j)"
  by (auto simp: both_def nth_list_update)

lemma sees_cong:
  assumes "ptable k t ! j = ptable k m ! j"
    and "\<And>i. ptable k m ! j = Page i \<Longrightarrow> phys t (page_frame (pg_addr (pgp i t))) = phys m (page_frame (pg_addr (pgp i m)))"
  shows "sees k t j = sees k m j"
  using assms by (auto simp: fun_eq_iff sees_def split: upg.split)

lemma rewrite_entry:
  assumes ok: "vm_ok m" and p: "pnum < 16" "u_page m ! pnum = Page i" "uses i m = 1"
    and w: "page_frame w = page_frame (pg_addr (pgp i m))" "w AND 8 \<noteq> 0" "w AND 4 = 0"
    and t: "t = m\<lparr>pgtab := (pgtab m)[i := (pgp i m)\<lparr>pg_addr := w\<rparr>], mmu := both (bintype m) pnum w (mmu m)\<rparr>"
  shows "faulted pnum m t"
proof -
  note D = vm_okD [OF ok]
  have i: "i < length (pgtab m)" using table_okD [OF D(10) p(1)] p(2) by simp
  have same: "ptable k t = ptable k m" "slots k t = slots k m" "kern t = kern m" "u_page t = u_page m" for k
    by (simp_all add: t ptable_def slots_def)
  have uses: "uses x t = uses x m" for x by (simp add: uses_def same)
  note pt = same uses
  have pg: "pgp x t = (if x = i then (pgp i m)\<lparr>pg_addr := w\<rparr> else pgp x m)" for x
    using i by (simp add: t pgp_def nth_list_update)
  have fr: "page_frame (pg_addr (pgp x t)) = page_frame (pg_addr (pgp x m))" for x by (simp add: pg w(1))
  have len: "length (pgtab t) = length (pgtab m)" by (simp add: t)
  have mmu: "mmu t ! j = (if j = pnum \<or> bintype m \<and> j = twin pnum then w else mmu m ! j)" if "j < 16" for j
    using p(1) D(7) that by (simp add: t nth_both)
  have tw: "u_page m ! twin pnum = Page i" if "bintype m"
    using twin_page [of _ "u_page m" pnum i] D(10) that p(1,2) by simp
  have desc: "desc_ok x t" if "x < length (pgtab m)" for x
    using D(3) [OF that] p(3) w by (auto simp: desc_ok_def Let_def pt pg)
  have "entry_ok j t" if j: "j < 16" for j
  proof (cases "j = pnum \<or> bintype m \<and> j = twin pnum")
    case True
    then have "u_page t ! j = Page i" using p(2) tw pt(4) by auto
    then show ?thesis using True mmu [OF j] w p(3) by (simp add: entry_ok_def fr pt)
  next
    case False
    then have "mmu t ! j = mmu m ! j" using mmu [OF j] by auto
    moreover have "entry_ok j m" using D(5) j by (simp add: mmu_ok_def)
    ultimately show ?thesis by (simp add: entry_ok_def pt fr split: upg.splits)
  qed
  then have "mmu_ok t" using D(7) by (simp add: mmu_ok_def t)
  moreover have "frames_ok t" using D(4) by (simp add: frames_ok_def fr len)
  moreover have "tables_ok t" using D(2) by (simp add: tables_ok_def pt len)
  ultimately have "vm_ok t" using D(1) desc by (simp add: vm_ok_def pt len)
  moreover have "sees k t j = sees k m j" for k j by (rule sees_cong) (simp_all add: pt fr, simp add: t)
  moreover have "c_mode t = c_mode m" by (simp add: t)
  moreover have "\<forall>j < 16. ready j m \<longrightarrow> ready j t" using mmu w by (simp add: ready_def)
  moreover have "left t = left m" by (simp add: left_def len pg) (metis (mono_tags, lifting))
  ultimately show ?thesis using p w mmu [OF p(1)] by (simp add: faulted_def pt ready_def)
qed

lemma slots_both:
  assumes "length tab = 16" "pnum < 16"
  shows "take (if two then 8 else 16) (both two pnum x tab) =
    (take (if two then 8 else 16) tab)[(if two \<and> 8 \<le> pnum then pnum - 8 else pnum) := x]"
  using assms by (auto simp: both_def twin_def take_update_swap list_update_beyond)

lemma both_table_ok:
  assumes ok: "table_ok n two tab" and p: "pnum < 16" and x: "x < n" and new: "\<And>j. j < 16 \<Longrightarrow> tab ! j \<noteq> Page x"
  shows "table_ok n two (both two pnum (Page x) tab)" (is "table_ok n two ?t")
proof -
  have l: "length tab = 16" using ok by (simp add: table_ok_def)
  note at = nth_both [OF p l, of _ two "Page x"]
  have A: "\<forall>j < 16. ?t ! j \<noteq> OUTPAGE \<and> (\<forall>i. ?t ! j = Page i \<longrightarrow> i < n)"
    using table_okD [OF ok] x by (auto simp: at split: if_splits)
  have B: "?t ! j = Page i \<longleftrightarrow> ?t ! (j + 8) = Page i" if two "j < 8" for j i
  proof -
    have j: "twin j = j + 8" "j + 8 = twin pnum \<longleftrightarrow> j = pnum" "j = twin pnum \<longleftrightarrow> j + 8 = pnum"
      using that(2) p by (auto simp: twin_def)
    then have "tab ! (j + 8) = Page i \<longleftrightarrow> tab ! j = Page i" using twin_page [of n tab j i] ok that by simp
    then show ?thesis using j that at [of j] at [of "j + 8"] by auto
  qed
  have C: "i mod 8 = j mod 8" if "i < 16" "j < 16" "?t ! i = Page k" "?t ! j = Page k" for i j k
  proof (cases "k = x")
    case True
    then show ?thesis using that p new at by (auto split: if_splits)
  next
    case False
    then have "tab ! i = Page k" "tab ! j = Page k" using that at by (auto split: if_splits)
    then show ?thesis using ok that(1,2) unfolding table_ok_def by blast
  qed
  have "length ?t = 16" using l by simp
  then show ?thesis unfolding table_ok_def using A B C by blast
qed

lemma install_page:
  assumes ok: "vm_ok m" and p: "pnum < 16" "u_page m ! pnum = old" and n: "n < length (pgtab m)" "uses n m = 0"
    and old: "old = VIRGPAGE \<or> (\<exists>i. old = Page i)"
    and t: "kern t = kern m" "ublk t = ublk m" "c_mode t = c_mode m" "length (pgtab t) = length (pgtab m)"
      "u_page t = both (bintype m) pnum (Page n) (u_page m)" "mmu t = both (bintype m) pnum w (mmu m)"
    and fr: "\<And>x. x < length (pgtab m) \<Longrightarrow> page_frame (pg_addr (pgp x t)) = page_frame (pg_addr (pgp x m))"
    and new: "pg_refs (pgp n t) = 1" "pg_addr (pgp n t) AND 8 \<noteq> 0"
      "page_frame w = page_frame (pg_addr (pgp n m))" "w AND 8 \<noteq> 0" "w AND 4 = 0"
    and rest: "\<And>x. x < length (pgtab m) \<Longrightarrow> x \<noteq> n \<Longrightarrow>
        unat (pg_refs (pgp x t)) = unat (pg_refs (pgp x m)) - (if old = Page x then 1 else 0) \<and>
        pg_addr (pgp x t) AND 8 = pg_addr (pgp x m) AND 8 \<and>
        (1 < unat (pg_refs (pgp x t)) \<longrightarrow> pg_addr (pgp x t) AND 4 = pg_addr (pgp x m) AND 4)"
    and ph: "\<And>x. x < length (pgtab m) \<Longrightarrow> x \<noteq> n \<Longrightarrow>
        phys t (page_frame (pg_addr (pgp x m))) = phys m (page_frame (pg_addr (pgp x m)))"
      "\<And>o'. sees (u_ptab (kern m)) m pnum o' = Some (phys t (page_frame (pg_addr (pgp n m))) o')"
  shows "faulted pnum m t"
proof -
  note D = vm_okD [OF ok]
  let ?c = "u_ptab (kern m)" and ?q = "if bintype m \<and> 8 \<le> pnum then pnum - 8 else pnum"
  have pt: "ptable k t = (if k = ?c then u_page t else ptable k m)" for k by (simp add: ptable_def t)
  have pc: "ptable ?c m = u_page m" by (simp add: ptable_def)
  have other: "slots k t = slots k m" if "k \<noteq> ?c" for k using that by (simp add: slots_def pt t)
  have sc: "slots ?c t = (slots ?c m)[?q := Page n]" "length (slots ?c m) = (if bintype m then 8 else 16)"
    using D(6,9) slots_both [OF D(6) p(1), of "bintype m" "Page n"]
    by (simp_all add: slots_def pt pc t own_pages_def bintype_def)
  have q: "?q < length (slots ?c m)" using p(1) sc(2) by (simp add: less_diff_conv2)
  have at: "slots ?c m ! ?q = Page x \<longleftrightarrow> old = Page x" for x
  proof -
    have "u_page m ! ?q = Page x \<longleftrightarrow> u_page m ! pnum = Page x"
      using twin_page [of _ "u_page m" pnum x] D(10) p(1) by (auto simp: twin_def)
    moreover have "slots ?c m ! ?q = u_page m ! ?q" using q D(9) by (simp add: slots_def pc)
    ultimately show ?thesis using p(2) by simp
  qed
  have uses: "uses x t + (if old = Page x then 1 else 0) = uses x m + (if n = x then 1 else 0)" for x
    using count_list_update [OF q, of "Page n" "Page x"] uses_split [OF D(8), of x m] uses_split [OF D(8), of x t] other
    by (simp add: sc(1) at t)
  have fresh: "ptable k m ! j \<noteq> Page n" if "k < PTABSIZE" "holds k (kern m)" "j < 16" for k j
    using page_used [OF D(2) that, of n] n(2) by auto
  have tab: "u_page t ! j = (if j = pnum \<or> bintype m \<and> j = twin pnum then Page n else u_page m ! j)" if "j < 16" for j
    using p(1) D(6) that by (simp add: t nth_both)
  have mmu: "mmu t ! j = (if j = pnum \<or> bintype m \<and> j = twin pnum then w else mmu m ! j)" if "j < 16" for j
    using p(1) D(7) that by (simp add: t nth_both)
  have usen: "uses n t = 1" using uses [of n] fresh [OF D(8,9) p(1)] p(2) n(2) by (simp add: pc split: if_splits)
  have desc: "desc_ok x t" if x: "x < length (pgtab m)" for x
  proof (cases "x = n")
    case True
    then show ?thesis using new usen by (simp add: desc_ok_def)
  next
    case False
    then have "uses x t = uses x m - (if old = Page x then 1 else 0)" using uses [of x] by auto
    moreover have "uses x t \<le> uses x m" using uses [of x] False by auto
    ultimately show ?thesis using D(3) [OF x] rest [OF x False] by (auto simp: desc_ok_def Let_def split: if_splits)
  qed
  have "table_ok (length (pgtab m)) (bintype m) (u_page t)"
    unfolding t(5) using fresh [OF D(8,9)] by (intro both_table_ok [OF D(10) p(1) n(1)]) (simp add: pc)
  then have "tables_ok t" using D(2) by (auto simp: tables_ok_def pt t bintype_def)
  moreover have "frames_ok t" using D(4) fr by (simp add: frames_ok_def t inj_on_def)
  moreover have "entry_ok j t" if j: "j < 16" for j
  proof (cases "j = pnum \<or> bintype m \<and> j = twin pnum")
    case True
    then show ?thesis using tab [OF j] mmu [OF j] new fr [OF n(1)] usen by (simp add: entry_ok_def)
  next
    case False
    then have "mmu t ! j = mmu m ! j" "u_page t ! j = u_page m ! j" using tab [OF j] mmu [OF j] by auto
    moreover have "entry_ok j m" using D(5) j by (simp add: mmu_ok_def)
    moreover have "uses x t \<le> uses x m" if "u_page m ! j = Page x" for x
      using uses [of x] fresh [OF D(8,9) j] that by (auto simp: pc split: if_splits)
    moreover have "x < length (pgtab m)" if "u_page m ! j = Page x" for x using table_okD(2) [OF D(10) j that] .
    ultimately show ?thesis using fr by (fastforce simp: entry_ok_def split: upg.splits)
  qed
  ultimately have vm: "vm_ok t" using D(1,7) desc by (simp add: vm_ok_def t mmu_ok_def)
  have sees: "sees k t j = sees k m j"
    if k: "k < PTABSIZE" "j < 16" "holds k (kern m)" and no: "\<not> (k = ?c \<and> bintype m \<and> j = twin pnum)" for k j
  proof (cases "k = ?c \<and> j = pnum")
    case True
    then show ?thesis using ph(2) fr [OF n(1)] tab [OF p(1)] by (simp add: fun_eq_iff sees_def [of _ t] pt)
  next
    case False
    then have same: "ptable k t ! j = ptable k m ! j" using no tab [OF k(2)] by (auto simp: pt pc)
    show ?thesis
    proof (rule sees_cong [OF same])
      fix x assume x: "ptable k m ! j = Page x"
      then have "x \<noteq> n" using fresh [OF k(1,3,2)] by auto
      moreover have "x < length (pgtab m)" using table_okD(2) [OF tables_okD [OF D(2) k(1,3)] k(2) x] .
      ultimately show "phys t (page_frame (pg_addr (pgp x t))) = phys m (page_frame (pg_addr (pgp x m)))"
        using fr ph(1) by simp
    qed
  qed
  have "\<forall>j < 16. ready j m \<longrightarrow> ready j t" using mmu new(4,5) by (simp add: ready_def)
  moreover have "left m \<le> Suc (left t)"
  proof -
    let ?L = "\<lambda>u. {i. i < length (pgtab u) \<and> pg_refs (pgp i u) = 0}"
    have "pg_refs (pgp x t) = 0" if "x < length (pgtab m)" "x \<noteq> n" "pg_refs (pgp x m) = 0" for x
      using rest [OF that(1,2)] that(3) by (simp add: unat_eq_zero)
    then have "?L m \<subseteq> insert n (?L t)" by (auto simp: t(4))
    then have "card (?L m) \<le> card (insert n (?L t))" by (rule card_mono [rotated]) simp
    also have "\<dots> \<le> Suc (card (?L t))" by (simp add: card_insert_if)
    finally show ?thesis by (simp add: left_def)
  qed
  ultimately show ?thesis using vm t(1,3) tab [OF p(1)] mmu [OF p(1)] usen new(4,5) sees by (auto simp: faulted_def ready_def)
qed

definition page_left :: "vm \<Rightarrow> bool" where
  "page_left m \<longleftrightarrow> (\<exists>i < length (pgtab m). pg_refs (pgp i m) = 0)"

lemma pg_alloc_left:
  assumes "page_left m"
  shows "\<exists>n < length (pgtab m). pg_refs (pgp n m) = 0 \<and> pg_alloc m = Some (n, take_page n m)"
proof (cases "scan (\<lambda>i. pg_refs (pgp i m) = 0) 0 (length (pgtab m))")
  case None
  then show ?thesis using assms by (auto simp: scan_None_iff page_left_def)
next
  case (Some n)
  have "pg_alloc m = Some (n, take_page n m)" by (subst pg_alloc.simps) (simp add: Some)
  then show ?thesis using Some by (auto simp: scan_Some_iff)
qed

lemma pgp_upd: "i < length (pgtab m) \<Longrightarrow> pgp x (upd_pg i f m) = (if x = i then f (pgp i m) else pgp x m)"
  by (simp add: pgp_def upd_pg_def nth_list_update)

lemma upd_pg_frame [simp]:
  "length (pgtab (upd_pg i f m)) = length (pgtab m)" "kern (upd_pg i f m) = kern m" "ublk (upd_pg i f m) = ublk m"
  "u_page (upd_pg i f m) = u_page m" "mmu (upd_pg i f m) = mmu m" "phys (upd_pg i f m) = phys m" "c_mode (upd_pg i f m) = c_mode m"
  "bintype (upd_pg i f m) = bintype m"
  by (simp_all add: upd_pg_def bintype_def)

lemma take_page_frame [simp]:
  "length (pgtab (take_page n m)) = length (pgtab m)" "kern (take_page n m) = kern m" "ublk (take_page n m) = ublk m"
  "u_page (take_page n m) = u_page m" "mmu (take_page n m) = mmu m" "c_mode (take_page n m) = c_mode m"
  "bintype (take_page n m) = bintype m"
  by (simp_all add: take_page_def Let_def pg_zero_def bintype_def)

definition taken :: "vm \<Rightarrow> pg_descr \<Rightarrow> pg_descr" where
  "taken m pg = \<lparr>pg_addr = ((pg_addr pg AND 0xFFEF) AND 0xFFF0) OR 0xA, pg_refs = 1, pg_age = page_age m + 1\<rparr>"

definition fresh_addr :: "u16 \<Rightarrow> u16" where
  "fresh_addr w = ((((w AND 0xFFEF) AND 0xFFF0) OR 0xA) AND 0xFFEF)"

lemma fresh_addr:
  "page_frame (fresh_addr w) = page_frame w" "fresh_addr w AND 8 \<noteq> 0"
  "page_frame (fresh_addr w OR 0xB) = page_frame w" "(fresh_addr w OR 0xB) AND 8 \<noteq> 0" "(fresh_addr w OR 0xB) AND 4 = 0"
  "fresh_addr w AND 4 = 0" "fresh_addr (w AND 0xFFEF) = fresh_addr w"
  by (simp_all only: fresh_addr_def frame_bits valid_bits not_False_eq_True) (simp add: and.assoc)

lemma taken_addr [simp]:
  "pg_addr (taken m pg) AND 0xFFEF = fresh_addr (pg_addr pg)" "pg_refs (taken m pg) = 1"
  by (simp_all add: taken_def fresh_addr_def)

lemma and_addr_sel [simp]: "pg_addr (and_addr w pg) = pg_addr pg AND w" "pg_refs (and_addr w pg) = pg_refs pg"
  by (simp_all add: and_addr_def)

lemma pgp_take:
  "n < length (pgtab m) \<Longrightarrow> pgp x (take_page n m) = (if x = n then taken m (pgp n m) else pgp x m)"
  by (simp add: take_page_def Let_def upd_pg_def pgp_def pg_zero_def nth_list_update and_addr_def or_addr_def taken_def)

lemma phys_take:
  "n < length (pgtab m) \<Longrightarrow> phys (take_page n m) = (phys m)(page_frame (pg_addr (pgp n m)) := (\<lambda>_. 0))"
  by (simp add: take_page_def Let_def upd_pg_def pgp_def pg_zero_def nth_list_update and_addr_def frame_bits)

lemma map_pages [simp]:
  "u_page (map_twin pnum i w m) = (if bintype m then (u_page m)[twin pnum := Page i] else u_page m)"
  "mmu (map_twin pnum i w m) = (if bintype m then (mmu m)[twin pnum := w] else mmu m)"
  "u_page (set_page j p m) = (u_page m)[j := p]" "mmu (setmmu j w m) = (mmu m)[j := w]"
  "bintype (map_twin pnum i w m) = bintype m" "bintype (set_page j p m) = bintype m" "bintype (setmmu j w m) = bintype m"
  by (simp_all add: map_twin_def set_page_def setmmu_def bintype_def)

lemma pg_copy_frame [simp]:
  "pgtab (pg_copy a b m) = pgtab m" "kern (pg_copy a b m) = kern m" "ublk (pg_copy a b m) = ublk m" "c_mode (pg_copy a b m) = c_mode m"
  "u_page (pg_copy a b m) = u_page m" "mmu (pg_copy a b m) = mmu m" "pgp x (pg_copy a b m) = pgp x m"
  "bintype (pg_copy a b m) = bintype m"
  by (simp_all add: pg_copy_def pgp_def bintype_def)

lemma both_twin: "pnum < 16 \<Longrightarrow> both two pnum x xs = (if two then xs[twin pnum := x] else xs)[pnum := x]"
  by (simp add: both_def list_update_swap [of "twin pnum" pnum])

lemma map_frames [simp]:
  "pgtab (map_twin pnum i w m) = pgtab m" "kern (map_twin pnum i w m) = kern m" "ublk (map_twin pnum i w m) = ublk m"
  "phys (map_twin pnum i w m) = phys m" "c_mode (map_twin pnum i w m) = c_mode m"
  "pgtab (set_page j p m) = pgtab m" "kern (set_page j p m) = kern m" "ublk (set_page j p m) = ublk m"
  "phys (set_page j p m) = phys m" "c_mode (set_page j p m) = c_mode m" "mmu (set_page j p m) = mmu m"
  "pgtab (setmmu j w m) = pgtab m" "kern (setmmu j w m) = kern m" "ublk (setmmu j w m) = ublk m"
  "phys (setmmu j w m) = phys m" "c_mode (setmmu j w m) = c_mode m" "u_page (setmmu j w m) = u_page m"
  "pgp x (map_twin pnum i w m) = pgp x m" "pgp x (set_page j p m) = pgp x m" "pgp x (setmmu j w m) = pgp x m"
  by (simp_all add: map_twin_def set_page_def setmmu_def pgp_def bintype_def)

lemma cur_page:
  assumes "vm_ok m" "pnum < 16" "u_page m ! pnum = Page i"
  shows "i < length (pgtab m)" "1 \<le> uses i m" "unat (pg_refs (pgp i m)) = uses i m" "pg_addr (pgp i m) AND 8 \<noteq> 0"
    "bintype m \<Longrightarrow> u_page m ! twin pnum = Page i"
proof -
  note D = vm_okD [OF assms(1)]
  show i: "i < length (pgtab m)" using table_okD [OF D(10) assms(2)] assms(3) by simp
  show u: "1 \<le> uses i m" using page_used [OF D(2,8,9) assms(2)] assms(3) by (simp add: ptable_def)
  show "unat (pg_refs (pgp i m)) = uses i m" "pg_addr (pgp i m) AND 8 \<noteq> 0"
    using D(3) [OF i] u by (simp_all add: desc_ok_def Let_def)
  show "u_page m ! twin pnum = Page i" if "bintype m"
    using twin_page [of _ "u_page m" pnum i] D(10) that assms(2,3) by simp
qed

lemma virgin_page_law:
  assumes ok: "vm_ok m" and p: "pnum < 16" "u_page m ! pnum = VIRGPAGE" and left: "page_left m"
  shows "\<exists>t. virgin_page pnum m = Some t \<and> faulted pnum m t"
proof -
  note D = vm_okD [OF ok]
  obtain n where n: "n < length (pgtab m)" "pg_refs (pgp n m) = 0" "pg_alloc m = Some (n, take_page n m)"
    using pg_alloc_left [OF left] by blast
  let ?u = "upd_pg n (and_addr 0xFFEF) (set_page pnum (Page n) (take_page n m))"
  let ?w = "pg_addr (pgp n ?u) OR 0xB"
  let ?t = "setmmu pnum ?w (map_twin pnum n ?w ?u)"
  obtain t where t: "t = ?t" by simp
  have run: "virgin_page pnum m = Some t" by (simp add: virgin_page_def n(3) Let_def t)
  have un: "uses n m = 0" using D(3) [OF n(1)] n(2) by (simp add: desc_ok_def Let_def)
  have pg: "pgp x t = (if x = n then and_addr 0xFFEF (taken m (pgp n m)) else pgp x m)" for x
    using n(1) by (simp add: t pgp_upd pgp_take)
  have ph: "phys t = (phys m)(page_frame (pg_addr (pgp n m)) := (\<lambda>_. 0))" using n(1) by (simp add: t phys_take)
  have w: "?w = fresh_addr (pg_addr (pgp n m)) OR 0xB" using n(1) by (simp add: pgp_upd pgp_take)
  have tab: "u_page t = both (bintype m) pnum (Page n) (u_page m)" by (simp add: t both_def)
  have mmu: "mmu t = both (bintype m) pnum (fresh_addr (pg_addr (pgp n m)) OR 0xB) (mmu m)"
    using p(1) unfolding t w by (simp add: both_twin)
  have fr: "page_frame (pg_addr (pgp x m)) \<noteq> page_frame (pg_addr (pgp n m))" if "x < length (pgtab m)" "x \<noteq> n" for x
    using D(4) that n(1) by (auto simp: frames_ok_def inj_on_def)
  have see: "sees (u_ptab (kern m)) m pnum o' = Some (phys t (page_frame (pg_addr (pgp n m))) o')" for o'
    using p(2) by (simp add: sees_def ptable_def ph)
  have "faulted pnum m t"
    by (rule install_page [OF ok p n(1) un _ _ _ _ _ tab mmu])
      (use fr see in \<open>simp_all add: pg ph fresh_addr, simp_all add: t\<close>)
  then show ?thesis using run by blast
qed

lemma copy_on_write_law:
  assumes ok: "vm_ok m" and p: "pnum < 16" "u_page m ! pnum = Page i" "uses i m > 1" and left: "page_left m"
  shows "\<exists>t. copy_on_write pnum i m = Some t \<and> faulted pnum m t"
proof -
  note D = vm_okD [OF ok] and I = cur_page [OF ok p(1,2)]
  let ?m = "upd_pg i (and_addr 0xFFEF) m"
  have "page_left ?m" using left I(1) by (auto simp: page_left_def pgp_upd and_addr_def)
  then obtain n where n: "n < length (pgtab m)" "pg_refs (pgp n ?m) = 0" "pg_alloc ?m = Some (n, take_page n ?m)"
    using pg_alloc_left [of ?m] by auto
  have refs0: "pg_refs (pgp n m) = 0" using n(2) I(1) by (auto simp: pgp_upd and_addr_def split: if_splits)
  have un: "uses n m = 0" using D(3) [OF n(1)] refs0 by (simp add: desc_ok_def Let_def)
  have ni: "n \<noteq> i" using un p(3) by auto
  have fr: "page_frame (pg_addr (pgp x m)) \<noteq> page_frame (pg_addr (pgp n m))" if "x < length (pgtab m)" "x \<noteq> n" for x
    using D(4) that n(1) by (auto simp: frames_ok_def inj_on_def)
  let ?a = "upd_pg n (and_addr 0xFFEF) (take_page n ?m)"
  let ?b = "pg_copy (pg_addr (pgp i ?a)) (pg_addr (pgp n ?a)) ?a"
  let ?w = "pg_addr (pgp n ?b) OR 0xB"
  let ?c = "setmmu pnum ?w (set_page pnum (Page n) (map_twin pnum n ?w ?b))"
  let ?d = "upd_pg i (\<lambda>pg. pg\<lparr>pg_refs := pg_refs pg - 1\<rparr>) ?c"
  let ?t = "if pg_refs (pgp i ?d) = 1 then upd_pg i (and_addr 0xFFFB) ?d else ?d"
  obtain t where t: "t = ?t" by simp
  have run: "copy_on_write pnum i m = Some t" by (simp add: copy_on_write_def n(3) Let_def t)
  let ?ni = "(and_addr 0xFFEF (pgp i m))\<lparr>pg_refs := pg_refs (pgp i m) - 1\<rparr>"
  have pgd: "pgp x ?d = (if x = i then ?ni else if x = n then and_addr 0xFFEF (taken ?m (pgp n m)) else pgp x m)" for x
    using n(1) I(1) ni by (simp add: pgp_upd pgp_take and_addr_def)
  have pg: "pgp x t = (if x = i then (if pg_refs ?ni = 1 then and_addr 0xFFFB ?ni else ?ni)
      else if x = n then and_addr 0xFFEF (taken ?m (pgp n m)) else pgp x m)" for x
    using I(1) pgd [of x] pgd [of i] by (auto simp: t pgp_upd)
  have ph: "phys t = (phys m)(page_frame (pg_addr (pgp n m)) := phys m (page_frame (pg_addr (pgp i m))))"
    using n(1) I(1) ni fr [of i] by (simp add: t pg_copy_def pgp_upd pgp_take phys_take frame_bits fresh_addr)
  have w: "?w = fresh_addr (pg_addr (pgp n m)) OR 0xB" using n(1) ni I(1) by (simp add: pgp_upd pgp_take)
  have tab: "u_page t = both (bintype m) pnum (Page n) (u_page m)" using p(1) by (simp add: t both_twin)
  have mmu: "mmu t = both (bintype m) pnum (fresh_addr (pg_addr (pgp n m)) OR 0xB) (mmu m)"
    using p(1) unfolding t w by (simp add: both_twin)
  have see: "sees (u_ptab (kern m)) m pnum o' = Some (phys t (page_frame (pg_addr (pgp n m))) o')" for o'
    using p(2) by (simp add: sees_def ptable_def ph)
  have refs: "unat (pg_refs (pgp i m) - 1) = unat (pg_refs (pgp i m)) - 1"
    using I(3) p(3) by (simp add: unat_sub_if_size)
  have "faulted pnum m t"
    by (rule install_page [OF ok p(1,2) n(1) un _ _ _ _ _ tab mmu])
      (use fr see ni refs in \<open>simp_all add: pg ph fresh_addr frame_bits valid_bits, auto simp: t\<close>)
  then show ?thesis using run by blast
qed

lemma getpag_law:
  assumes ok: "vm_ok m" and p: "pnum + c_mode m < 16" "u_page m ! (pnum + c_mode m) \<noteq> NOPAGE" and left: "page_left m"
  shows "\<exists>t. getpag pnum m = Some (0, t) \<and> faulted (pnum + c_mode m) m t"
proof -
  let ?p = "pnum + c_mode m"
  note D = vm_okD [OF ok]
  show ?thesis
  proof (cases "u_page m ! ?p")
    case NOPAGE
    then show ?thesis using p(2) by simp
  next
    case OUTPAGE
    then show ?thesis using table_okD [OF D(10) p(1)] by simp
  next
    case VIRGPAGE
    then show ?thesis using virgin_page_law [OF ok p(1) VIRGPAGE left] by (auto simp: getpag_def Let_def)
  next
    case (Page i)
    note I = cur_page [OF ok p(1) Page]
    show ?thesis
    proof (cases "pg_addr (pgp i m) AND 4 \<noteq> 0 \<and> uses i m > 1")
      case True
      moreover have "pg_refs (pgp i m) \<noteq> 1" using I(3) True by auto
      ultimately show ?thesis using copy_on_write_law [OF ok p(1) Page _ left] Page by (auto simp: getpag_def Let_def)
    next
      case False
      then have one: "uses i m = 1" using I(1,2) D(3) [OF I(1)] by (auto simp: desc_ok_def Let_def)
      then have refs: "pg_refs (pgp i m) = 1" using I(3) by (metis unat_1 word_unat_eq_iff)
      let ?w = "if pg_addr (pgp i m) AND 4 \<noteq> 0 then (pg_addr (pgp i m) AND 0xFFFB) AND 0xFFEF else pg_addr (pgp i m) AND 0xFFEF"
      let ?t = "m\<lparr>pgtab := (pgtab m)[i := (pgp i m)\<lparr>pg_addr := ?w\<rparr>], mmu := both (bintype m) ?p ?w (mmu m)\<rparr>"
      have tw: "(u_page m)[twin ?p := Page i] = u_page m" if "bintype m" using I(5) [OF that] by (metis list_update_id)
      have "getpag pnum m = Some (0, ?t)"
      proof (cases "pg_addr (pgp i m) AND 4 = 0")
        case True
        then have "reload_page ?p i m = ?t" using I(1)
          by (simp add: reload_page_def Let_def upd_pg_def pgp_def and_addr_def setmmu_def both_def bintype_def)
        then show ?thesis using True Page by (simp add: getpag_def Let_def)
      next
        case False
        then have "last_user ?p i m = ?t" using I(1) p(1) tw
          by (simp add: last_user_def Let_def upd_pg_def pgp_def and_addr_def setmmu_def both_twin bintype_def map_twin_def set_page_def)
        then show ?thesis using False Page refs by (simp add: getpag_def Let_def)
      qed
      moreover have "page_frame ?w = page_frame (pg_addr (pgp i m))" "?w AND 8 \<noteq> 0" "?w AND 4 = 0"
        using I(4) by (simp_all add: frame_bits valid_bits)
      ultimately show ?thesis using rewrite_entry [OF ok p(1) Page one _ _ _ refl] by blast
    qed
  qed
qed

subsection \<open>Stores and loads\<close>

lemma vm_ok_other:
  assumes "pgtab t = pgtab m" "mmu t = mmu m" "u_page t = u_page m" "ublk t = ublk m" "kern t = kern m"
  shows "vm_ok t = vm_ok m"
proof -
  have pt: "ptable k t = ptable k m" "slots k t = slots k m" "pgp x t = pgp x m" for k x
    using assms by (simp_all add: ptable_def slots_def pgp_def)
  have uses: "uses x t = uses x m" for x by (simp add: uses_def pt)
  have "entry_ok j t = entry_ok j m" "desc_ok j t = desc_ok j m" for j
    by (simp_all add: entry_ok_def desc_ok_def assms pt uses split: upg.split)
  then show ?thesis using assms pt by (simp add: vm_ok_def tables_ok_def frames_ok_def mmu_ok_def)
qed

lemma c_mode_frame [simp]:
  "vm_ok (m\<lparr>c_mode := c\<rparr>) = vm_ok m" "sees k (m\<lparr>c_mode := c\<rparr>) = sees k m" "page_left (m\<lparr>c_mode := c\<rparr>) = page_left m"
  "bintype (m\<lparr>c_mode := c\<rparr>) = bintype m" "uses x (m\<lparr>c_mode := c\<rparr>) = uses x m"
proof -
  have pt: "ptable k (m\<lparr>c_mode := c\<rparr>) = ptable k m" "slots k (m\<lparr>c_mode := c\<rparr>) = slots k m" "pgp x (m\<lparr>c_mode := c\<rparr>) = pgp x m" for k x
    by (simp_all add: ptable_def slots_def pgp_def)
  show "vm_ok (m\<lparr>c_mode := c\<rparr>) = vm_ok m" by (rule vm_ok_other) simp_all
  show "sees k (m\<lparr>c_mode := c\<rparr>) = sees k m" by (intro ext) (simp add: sees_def pt split: upg.split)
  show "page_left (m\<lparr>c_mode := c\<rparr>) = page_left m" by (simp add: page_left_def pt)
  show "bintype (m\<lparr>c_mode := c\<rparr>) = bintype m" by (simp add: bintype_def)
  show "uses x (m\<lparr>c_mode := c\<rparr>) = uses x m" by (simp add: uses_def pt)
qed

text \<open>A store at the running process's address changes one byte of its data page and nothing else that
  anyone sees, save the code page of a program that has no separate one.\<close>

definition one_byte :: "u16 \<Rightarrow> u8 \<Rightarrow> vm \<Rightarrow> vm \<Rightarrow> bool" where
  "one_byte a v m t \<longleftrightarrow> vm_ok t \<and> kern t = kern m \<and>
     (\<forall>k < PTABSIZE. \<forall>j < 16. holds k (kern m) \<longrightarrow> k = u_ptab (kern m) \<and> bintype m \<and> j = twin (page_no a) \<or>
        sees k t j = (if k = u_ptab (kern m) \<and> j = page_no a then (sees k m j)(page_off a := Some v) else sees k m j))"

lemma one_byte_others:
  assumes "one_byte a v m t" "k < PTABSIZE" "j < 16" "holds k (kern m)" "k \<noteq> u_ptab (kern m)"
  shows "sees k t j = sees k m j"
  using assms unfolding one_byte_def by metis

lemma page_no_less: "page_no a < 8"
proof -
  have "unat (drop_bit 13 a) = unat a div 2 ^ 13" by (simp add: drop_bit_eq_div unat_div_distrib)
  moreover have "unat a < 65536" by simp
  ultimately show ?thesis by (simp add: page_no_def less_mult_imp_div_less)
qed

lemma STUD_law:
  assumes ok: "vm_ok m" and e: "mmu m ! page_no a AND 8 \<noteq> 0" "mmu m ! page_no a AND 4 = 0"
  shows "\<exists>t. STUD a v m = Some t \<and> one_byte a v m t \<and> LDUD a t = Some v"
proof -
  note D = vm_okD [OF ok]
  let ?p = "page_no a" and ?c = "u_ptab (kern m)"
  have p: "?p < 16" using page_no_less [of a] by simp
  have "entry_ok ?p m" using D(5) p by (simp add: mmu_ok_def)
  then obtain i where i: "u_page m ! ?p = Page i" "page_frame (mmu m ! ?p) = page_frame (pg_addr (pgp i m))" "uses i m \<le> 1"
    using e by (cases "u_page m ! ?p") (auto simp: entry_ok_def)
  let ?f = "page_frame (pg_addr (pgp i m))"
  let ?t = "m\<lparr>phys := (phys m)(?f := (phys m ?f)(page_off a := v))\<rparr>"
  have run: "STUD a v m = Some ?t" using e i(2) by (simp add: STUD_def Let_def)
  have pt: "ptable k ?t = ptable k m" "pgp x ?t = pgp x m" for k x by (simp_all add: ptable_def pgp_def)
  have pc: "ptable ?c m = u_page m" by (simp add: ptable_def)
  have vm: "vm_ok ?t" using vm_ok_other [of ?t m] ok by simp
  have see: "sees k ?t j = (if k = ?c \<and> j = ?p then (sees k m j)(page_off a := Some v) else sees k m j)"
    if k: "k < PTABSIZE" "j < 16" "holds k (kern m)" and no: "\<not> (k = ?c \<and> bintype m \<and> j = twin ?p)" for k j
  proof (cases "k = ?c \<and> j = ?p")
    case True
    then show ?thesis using i(1) by (simp add: fun_eq_iff sees_def pt pc)
  next
    case False
    have "sees k ?t j = sees k m j"
    proof (rule sees_cong)
      fix x assume x: "ptable k m ! j = Page x"
      have "x \<noteq> i"
        using exclusive_page [OF D(2) i(3) D(8,9) p, of k j] x k False no i(1) by (auto simp: pc bintype_def)
      moreover have "x < length (pgtab m)" using table_okD(2) [OF tables_okD [OF D(2) k(1,3)] k(2) x] .
      moreover have "i < length (pgtab m)" using table_okD(2) [OF D(10) p i(1)] .
      ultimately have "page_frame (pg_addr (pgp x m)) \<noteq> ?f" using D(4) by (auto simp: frames_ok_def inj_on_def)
      then show "phys ?t (page_frame (pg_addr (pgp x ?t))) = phys m (page_frame (pg_addr (pgp x m)))" by (simp add: pt)
    qed (simp add: pt)
    then show ?thesis using False by auto
  qed
  have "LDUD a ?t = Some v" using e i(2) by (simp add: LDUD_def Let_def)
  then show ?thesis using run vm see by (auto simp: one_byte_def)
qed

lemma put_byte_law:
  assumes ok: "vm_ok m" and a: "u_page m ! page_no a \<noteq> NOPAGE" and left: "page_left m"
  shows "\<exists>t. put_byte a v m = Some (True, t) \<and> one_byte a v m t \<and> LDUD a t = Some v"
proof (cases "STUD a v m")
  case (Some t)
  then have "one_byte a v m t" "LDUD a t = Some v" using STUD_law [OF ok, of a v] by (auto simp: STUD_def Let_def split: if_splits)
  then show ?thesis using Some by (simp add: put_byte_def)
next
  case None
  let ?m = "m\<lparr>c_mode := 0\<rparr>"
  obtain u where u: "getpag (page_no a) ?m = Some (0, u)" "faulted (page_no a) ?m u"
    using getpag_law [of ?m "page_no a"] ok a left page_no_less [of a] by auto
  have F: "vm_ok u" "kern u = kern m" "mmu u ! page_no a AND 8 \<noteq> 0" "mmu u ! page_no a AND 4 = 0"
    "k < PTABSIZE \<Longrightarrow> j < 16 \<Longrightarrow> holds k (kern m) \<Longrightarrow> k = u_ptab (kern m) \<and> bintype m \<and> j = twin (page_no a) \<or> sees k u j = sees k m j" for k j
    using u(2) by (auto simp: faulted_def ready_def)
  obtain t where t: "STUD a v u = Some t" "one_byte a v u t" "LDUD a t = Some v" using STUD_law [OF F(1,3,4)] by blast
  have "bintype u = bintype m" using F(2) by (simp add: bintype_def)
  then have "one_byte a v m t" using t(2) F(2,5) by (fastforce simp: one_byte_def)
  moreover have "put_byte a v m = Some (True, t)"
    using None u(1) t(1) by (simp add: put_byte_def usflt_def upage_def page_no_def)
  ultimately show ?thesis using t(3) by blast
qed

lemma no_page_store:
  assumes ok: "vm_ok m" and a: "u_page m ! page_no a = NOPAGE"
  shows "put_byte a v m = Some (False, m\<lparr>c_mode := 0, kern := set_error EFAULT (kern m)\<rparr>)"
proof -
  have "page_no a < 16" using page_no_less [of a] by simp
  then have "entry_ok (page_no a) m" using vm_okD(5) [OF ok] by (simp add: mmu_ok_def)
  then have "STUD a v m = None" using a by (simp add: entry_ok_def STUD_def Let_def)
  moreover have "unat (drop_bit 13 a) = page_no a" by (simp add: page_no_def)
  ultimately show ?thesis using a by (simp add: put_byte_def usflt_def upage_def getpag_def Let_def)
qed

text \<open>C3: a store of the kernel to an address of the running process behaves like a store to an array of bytes
  that belongs to this process alone, whether the page is loaded, untouched, or shared with
  other processes and write-protected: it returns with the byte changed in the process's data page and with no
  other byte of any page of any process changed (but for the code page of a program that has only one
  kind of pages), and a load gets the byte back. Outside the address space it fails with EFAULT and
  changes no memory.\<close>

theorem store_is_private:
  assumes "vm_ok m" "page_left m"
  shows "if u_page m ! page_no a = NOPAGE
    then put_byte a v m = Some (False, m\<lparr>c_mode := 0, kern := set_error EFAULT (kern m)\<rparr>)
    else \<exists>t. put_byte a v m = Some (True, t) \<and> one_byte a v m t \<and> get_byte a t = Some (Some v, t)"
  using no_page_store [OF assms(1)] put_byte_law [OF assms(1) _ assms(2)] by (fastforce simp: get_byte_def)


subsection \<open>Reading and loading the MMU\<close>

text \<open>The part of the invariant without the MMU.\<close>

definition store_ok :: "vm \<Rightarrow> bool" where
  "store_ok m \<longleftrightarrow> tables_ok m \<and> (\<forall>i < length (pgtab m). desc_ok i m) \<and> frames_ok m"

lemma vm_ok_parts: "vm_ok m \<longleftrightarrow> procs_ok (kern m) \<and> store_ok m \<and> mmu_ok m"
  by (auto simp: vm_ok_def store_ok_def)

definition mmu_entry :: "vm \<Rightarrow> upg \<Rightarrow> u16" where
  "mmu_entry m p = (case p of Page i \<Rightarrow> pg_addr (pgp i m) | _ \<Rightarrow> 0)"

lemma ldmmu_prefix:
  assumes "length (mmu m) = 16" "n \<le> 16"
  shows "fold (\<lambda>j m. case u_page m ! j of Page i \<Rightarrow> setmmu j (pg_addr (pgp i m)) m | _ \<Rightarrow> setmmu j 0 m) [0..<n] m =
    m\<lparr>mmu := map (\<lambda>j. mmu_entry m (u_page m ! j)) [0..<n] @ drop n (mmu m)\<rparr>"
  using assms(2)
proof (induction n)
  case 0
  then show ?case by simp
next
  case (Suc n)
  let ?f = "\<lambda>j. mmu_entry m (u_page m ! j)"
  have "(map ?f [0..<n] @ drop n (mmu m))[n := x] = map ?f [0..<n] @ x # drop (Suc n) (mmu m)" for x
    using Suc.prems assms(1) by (simp add: list_update_append Cons_nth_drop_Suc [symmetric])
  then show ?case using Suc by (simp add: setmmu_def pgp_def mmu_entry_def split: upg.split)
qed

lemma ldmmu_eq:
  "length (mmu m) = 16 \<Longrightarrow> ldmmu m = m\<lparr>mmu := map (\<lambda>j. mmu_entry m (u_page m ! j)) [0..<16]\<rparr>"
  using ldmmu_prefix [of m 16] by (simp add: ldmmu_def)

lemma ldmmu_law:
  assumes ok: "store_ok m" "procs_ok (kern m)" "length (mmu m) = 16"
  shows "vm_ok (ldmmu m)" "sees k (ldmmu m) = sees k m" "kern (ldmmu m) = kern m" "ublk (ldmmu m) = ublk m"
    "u_page (ldmmu m) = u_page m" "pgtab (ldmmu m) = pgtab m" "phys (ldmmu m) = phys m"
proof -
  let ?t = "ldmmu m"
  note t = ldmmu_eq [OF ok(3)]
  show same: "kern ?t = kern m" "ublk ?t = ublk m" "u_page ?t = u_page m" "pgtab ?t = pgtab m" "phys ?t = phys m"
    by (simp_all add: t)
  have pt: "ptable k ?t = ptable k m" "slots k ?t = slots k m" "pgp x ?t = pgp x m" for k x
    by (simp_all add: ptable_def slots_def pgp_def same)
  have uses: "uses x ?t = uses x m" for x by (simp add: uses_def pt)
  have st: "store_ok ?t" using ok(1) by (simp add: store_ok_def tables_ok_def desc_ok_def frames_ok_def same pt uses)
  have tab: "table_ok (length (pgtab m)) (bintype m) (u_page m)"
    using tables_okD [of m "u_ptab (kern m)"] ok(1,2) by (simp add: store_ok_def procs_ok_def ptable_def bintype_def)
  have "entry_ok j ?t" if j: "j < 16" for j
  proof (cases "u_page m ! j")
    case (Page i)
    then have i: "i < length (pgtab m)" using table_okD(2) [OF tab j] by simp
    moreover have "1 \<le> uses i m"
      using page_used [of m "u_ptab (kern m)" j i] ok(1,2) Page j by (simp add: store_ok_def procs_ok_def ptable_def)
    ultimately have "pg_addr (pgp i m) AND 8 \<noteq> 0" "uses i m > 1 \<longrightarrow> pg_addr (pgp i m) AND 4 \<noteq> 0"
      using ok(1) by (auto simp: store_ok_def desc_ok_def Let_def)
    then show ?thesis using Page j by (simp add: entry_ok_def uses pt same) (simp add: t mmu_entry_def)
  qed (use j in \<open>simp_all add: entry_ok_def same, simp_all add: t mmu_entry_def\<close>)
  then show "vm_ok ?t" using ok(2) st by (simp add: vm_ok_parts mmu_ok_def same) (simp add: t)
  show "sees k ?t = sees k m" by (intro ext) (simp add: sees_def pt same split: upg.split)
qed

definition re_addr :: "vm \<Rightarrow> vm \<Rightarrow> bool" where
  "re_addr m t \<longleftrightarrow> vm_ok t \<and> kern t = kern m \<and> ublk t = ublk m \<and> u_page t = u_page m \<and> mmu t = mmu m \<and> phys t = phys m \<and>
     length (pgtab t) = length (pgtab m) \<and> (\<forall>x. pg_refs (pgp x t) = pg_refs (pgp x m)) \<and> (\<forall>k. sees k t = sees k m)"

lemma re_addr_trans: "re_addr m t \<Longrightarrow> re_addr t u \<Longrightarrow> re_addr m u"
  by (simp add: re_addr_def)

lemma rdmmu_step:
  assumes ok: "vm_ok m" and j: "j < 16"
  shows "re_addr m (case u_page m ! j of Page i \<Rightarrow> upd_pg i (\<lambda>pg. pg\<lparr>pg_addr := getmmu j m\<rparr>) m | _ \<Rightarrow> m)"
proof (cases "u_page m ! j")
  case (Page i)
  note D = vm_okD [OF ok] and I = cur_page [OF ok j Page]
  let ?w = "getmmu j m" and ?t = "upd_pg i (\<lambda>pg. pg\<lparr>pg_addr := getmmu j m\<rparr>) m"
  have "entry_ok j m" using D(5) j by (simp add: mmu_ok_def)
  then have w: "page_frame ?w = page_frame (pg_addr (pgp i m))" "?w AND 8 \<noteq> 0" "uses i m > 1 \<longrightarrow> ?w AND 4 \<noteq> 0"
    using Page by (simp_all add: entry_ok_def getmmu_def frame_bits valid_bits)
  have pg: "pgp x ?t = (if x = i then (pgp i m)\<lparr>pg_addr := ?w\<rparr> else pgp x m)" for x using I(1) by (simp add: pgp_upd)
  have pt: "ptable k ?t = ptable k m" "slots k ?t = slots k m" for k by (simp_all add: ptable_def slots_def)
  have uses: "uses x ?t = uses x m" for x by (simp add: uses_def pt)
  have fr: "page_frame (pg_addr (pgp x ?t)) = page_frame (pg_addr (pgp x m))" for x by (simp add: pg w(1))
  have "desc_ok x ?t" if "x < length (pgtab m)" for x
    using D(3) [OF that] w by (auto simp: desc_ok_def Let_def pg uses)
  moreover have "entry_ok y ?t" if "y < 16" for y
  proof -
    have "entry_ok y m" using D(5) that by (simp add: mmu_ok_def)
    then show ?thesis by (simp add: entry_ok_def fr uses split: upg.splits)
  qed
  ultimately have "vm_ok ?t" using D by (simp add: vm_ok_def tables_ok_def frames_ok_def mmu_ok_def pt fr)
  moreover have "sees k ?t = sees k m" for k by (intro ext) (simp add: sees_def pt fr split: upg.split)
  ultimately show ?thesis using Page by (simp add: re_addr_def pg)
qed (use ok in \<open>simp_all add: re_addr_def\<close>)

lemma rdmmu_law:
  assumes "vm_ok m"
  shows "re_addr m (rdmmu m)"
proof -
  have "n \<le> 16 \<Longrightarrow> re_addr m (fold (\<lambda>j m. case u_page m ! j of Page i \<Rightarrow> upd_pg i (\<lambda>pg. pg\<lparr>pg_addr := getmmu j m\<rparr>) m | _ \<Rightarrow> m) [0..<n] m)" for n
  proof (induction n)
    case 0
    then show ?case using assms by (simp add: re_addr_def)
  next
    case (Suc n)
    let ?u = "fold (\<lambda>j m. case u_page m ! j of Page i \<Rightarrow> upd_pg i (\<lambda>pg. pg\<lparr>pg_addr := getmmu j m\<rparr>) m | _ \<Rightarrow> m) [0..<n] m"
    have "re_addr m ?u" "n < 16" using Suc by auto
    then show ?case using re_addr_trans rdmmu_step [of ?u n] by (auto simp: re_addr_def)
  qed
  then show ?thesis by (simp add: rdmmu_def)
qed

subsection \<open>Two processes that share a page\<close>

definition tab0 :: "upg list" where
  "tab0 = Page 0 # VIRGPAGE # replicate 5 NOPAGE @ VIRGPAGE # replicate 8 NOPAGE"

definition two_tasks :: "u8 \<Rightarrow> kst" where
  "two_tasks st = sample\<lparr>
     ptab := init_proc\<lparr>p_status := st, p_ublk := Some 0\<rparr> # no_proc\<lparr>p_status := P_READY, p_pid := 2, p_ublk := Some 1\<rparr> # replicate 28 no_proc,
     bufpool := map (\<lambda>i. \<lparr>bf_data = blank, bf_dev = - 1, bf_blk = 0, bf_dirty = 0, bf_busy = i < 2, bf_time = 0\<rparr>) [0..<38]\<rparr>"

definition vm0 :: "u8 \<Rightarrow> vm" where
  "vm0 st = \<lparr>pgtab = [\<lparr>pg_addr = 0xF, pg_refs = 2, pg_age = 0\<rparr>, \<lparr>pg_addr = 0x20, pg_refs = 0, pg_age = 0\<rparr>,
       \<lparr>pg_addr = 0x40, pg_refs = 0, pg_age = 0\<rparr>, \<lparr>pg_addr = 0x60, pg_refs = 0, pg_age = 0\<rparr>],
     page_age = 0, phys = (\<lambda>_ _. 0), mmu = 0xF # replicate 15 0, c_mode = 0, u_page = tab0, u_pbreak = 0, u_isp = 0, u_name = [],
     ublk = (\<lambda>b. \<lparr>b_data = (two_tasks st)\<lparr>u_ptab := b\<rparr>, b_page = tab0, b_pbreak = 0, b_isp = 0, b_name = []\<rparr>), kern = two_tasks st\<rparr>"

lemma tab0_nth: "j < 16 \<Longrightarrow> tab0 ! j = (if j = 0 then Page 0 else if j = 1 \<or> j = 7 then VIRGPAGE else NOPAGE)"
  by (auto simp: tab0_def nth_Cons' nth_append)

lemma two_tasks_proc:
  "k < PTABSIZE \<Longrightarrow> procp k (two_tasks st) =
     (if k = 0 then init_proc\<lparr>p_status := st, p_ublk := Some 0\<rparr>
      else if k = 1 then no_proc\<lparr>p_status := P_READY, p_pid := 2, p_ublk := Some 1\<rparr> else no_proc)"
  by (simp add: two_tasks_def procp_def nth_Cons')

lemma two_tasks_frame:
  "u_ptab (two_tasks st) = 0" "length (ptab (two_tasks st)) = PTABSIZE" "sched_pp (two_tasks st) = 0" "nextpid (two_tasks st) = 1"
  "j < 38 \<Longrightarrow> bufp j (two_tasks st) = \<lparr>bf_data = blank, bf_dev = - 1, bf_blk = 0, bf_dirty = 0, bf_busy = j < 2, bf_time = 0\<rparr>"
  by (simp_all add: two_tasks_def sample_def bufp_def)

lemma two_tasks_holds:
  "k < PTABSIZE \<Longrightarrow> st = P_RUNNING \<or> st = P_READY \<Longrightarrow> holds k (two_tasks st) \<longleftrightarrow> k < 2"
  by (auto simp: holds_def two_tasks_proc status_defs no_proc_def)

lemma vm0_sel [simp]:
  "kern (vm0 st) = two_tasks st" "u_page (vm0 st) = tab0" "mmu (vm0 st) = 0xF # replicate 15 0" "length (pgtab (vm0 st)) = 4"
  by (simp_all add: vm0_def)

lemma vm0_ok:
  assumes st: "st = P_RUNNING \<or> st = P_READY"
  shows "vm_ok (vm0 st)"
proof -
  have pt: "ptable k (vm0 st) = tab0" for k by (simp add: ptable_def vm0_def)
  have two: "p_bintype (procp k (two_tasks st)) = 0" if "k < PTABSIZE" for k
    using that by (simp add: two_tasks_proc init_proc_def no_proc_def)
  have cnt: "count_list (slots k (vm0 st)) (Page i) = (if k < 2 \<and> i = 0 then 1 else 0)" if "k < PTABSIZE" for k i
    using that two [OF that] by (simp add: slots_def pt two_tasks_holds [OF that st] own_pages_def) (simp add: tab0_def numeral_eq_Suc)
  have uses: "uses i (vm0 st) = (if i = 0 then 2 else 0)" for i
  proof -
    have "uses i (vm0 st) = (\<Sum>k<PTABSIZE. if k < 2 \<and> i = 0 then 1 else 0)" unfolding uses_def using cnt by (intro sum.cong) auto
    also have "\<dots> = (if i = 0 then 2 else 0)" by (simp add: numeral_eq_Suc)
    finally show ?thesis .
  qed
  have pg: "i < 4 \<Longrightarrow> pgp i (vm0 st) = (if i = 0 then \<lparr>pg_addr = 0xF, pg_refs = 2, pg_age = 0\<rparr>
      else if i = 1 then \<lparr>pg_addr = 0x20, pg_refs = 0, pg_age = 0\<rparr>
      else if i = 2 then \<lparr>pg_addr = 0x40, pg_refs = 0, pg_age = 0\<rparr> else \<lparr>pg_addr = 0x60, pg_refs = 0, pg_age = 0\<rparr>)" for i
    by (auto simp: pgp_def vm0_def less_Suc_eq numeral_eq_Suc)
  have "table_ok 4 False tab0" by (simp add: table_ok_def tab0_nth) (simp add: tab0_def)
  then have "tables_ok (vm0 st)" using two by (simp add: tables_ok_def pt)
  moreover have "desc_ok i (vm0 st)" if "i < 4" for i using that by (simp add: desc_ok_def pg uses)
  moreover have "frames_ok (vm0 st)" by (auto simp: frames_ok_def inj_on_def pg page_frame_def split: if_splits)
  moreover have "procs_ok (two_tasks st)" using two_tasks_holds [OF _ st, of 0] by (simp add: procs_ok_def two_tasks_frame)
  moreover have "entry_ok j (vm0 st)" if "j < 16" for j
    using that by (simp add: entry_ok_def tab0_nth pg page_frame_def nth_Cons')
  ultimately show ?thesis by (simp add: vm_ok_def mmu_ok_def)
qed

lemma vm0_left: "page_left (vm0 st)"
  unfolding page_left_def by (intro exI [of _ 1]) (simp add: vm0_def pgp_def)

lemma store_is_private_witness:
  "\<exists>t. put_byte 0x10 7 (vm0 P_RUNNING) = Some (True, t) \<and> get_byte 0x10 t = Some (Some 7, t) \<and> sees 1 t 0 = sees 1 (vm0 P_RUNNING) 0"
proof -
  have no: "page_no 0x10 = 0" "u_page (vm0 P_RUNNING) ! 0 \<noteq> NOPAGE" by (simp_all add: page_no_def tab0_def)
  obtain t where t: "put_byte 0x10 7 (vm0 P_RUNNING) = Some (True, t)" "one_byte 0x10 7 (vm0 P_RUNNING) t" "get_byte 0x10 t = Some (Some 7, t)"
    using store_is_private [OF vm0_ok [of P_RUNNING] vm0_left, where a = 16 and v = 7] no by auto
  have h: "holds 1 (two_tasks P_RUNNING)" using two_tasks_holds [of 1] by simp
  have "sees 1 t 0 = sees 1 (vm0 P_RUNNING) 0" using one_byte_others [OF t(2), of 1 0] h by (simp add: two_tasks_frame)
  then show ?thesis using t by blast
qed


end
