(* ===== verification/UserPages.thy ===== *)
theory UserPages
  imports Paging UserMem
begin

section \<open>Transfers through the page tables refine transfers to a flat memory\<close>

text \<open>
  \<^verbatim>\<open>uput\<close> and \<^verbatim>\<open>uget\<close> once more, now on \<open>vm\<close>: byte by byte through \<^verbatim>\<open>STUD\<close> and \<^verbatim>\<open>LDUD\<close> below 50
  bytes, by DMA to the physical address that \<^verbatim>\<open>_upadr\<close> reads from the MMU otherwise. \<open>flat\<close> is the kernel state with the flat
  user memory that the pages of the running process stand for; on it the routines agree with those of State.
\<close>

subsection \<open>The routines\<close>

fun vput_loop :: "u16 \<Rightarrow> u8 list \<Rightarrow> vm \<Rightarrow> (bool \<times> vm) option" where
  "vput_loop a [] m = Some (True, m)"
| "vput_loop a (b # bs) m = do { (ok, m) \<leftarrow> put_byte a b m; if ok then vput_loop (a + 1) bs m else Some (False, m) }"

fun vget_loop :: "u16 \<Rightarrow> nat \<Rightarrow> vm \<Rightarrow> (u8 list \<times> vm) option" where
  "vget_loop a 0 m = Some ([], m)"
| "vget_loop a (Suc n) m = do {
     (v, m) \<leftarrow> get_byte a m;
     (case v of None \<Rightarrow> Some ([], m) | Some b \<Rightarrow> do { (bs, m) \<leftarrow> vget_loop (a + 1) n m; Some (b # bs, m) }) }"

fun vugets :: "u16 \<Rightarrow> nat \<Rightarrow> vm \<Rightarrow> (bool \<times> u8 list \<times> vm) option" where
  "vugets a 0 m = Some (True, [], m)"
| "vugets a (Suc n) m = do {
     (v, m) \<leftarrow> get_byte a m;
     (case v of
        None \<Rightarrow> Some (False, [], m)
      | Some b \<Rightarrow> if b = 0 then Some (True, [0], m) else do { (r, bs, m) \<leftarrow> vugets (a + 1) n m; Some (r, b # bs, m) }) }"

definition upadr :: "u16 \<Rightarrow> vm \<Rightarrow> u16 option" where
  "upadr a m = (let e = mmu m ! (page_no a + c_mode m) in if e AND 8 = 0 then None else Some (page_frame e))"

definition to_page :: "u16 \<Rightarrow> u8 list \<Rightarrow> vm \<Rightarrow> vm option" where
  "to_page a bs m = do { f \<leftarrow> upadr a m; Some (m\<lparr>phys := (phys m)(f := dma_put (page_off a) bs (phys m f))\<rparr>) }"

definition from_page :: "u16 \<Rightarrow> nat \<Rightarrow> vm \<Rightarrow> u8 list option" where
  "from_page a n m = do { f \<leftarrow> upadr a m; Some (dma_get (phys m f) (page_off a) n) }"

definition vuput :: "u8 list \<Rightarrow> u16 \<Rightarrow> vm \<Rightarrow> (bool \<times> vm) option" where
  "vuput bs a m =
     (if length bs < 50 then vput_loop a bs m
      else do {
        (ok, m) \<leftarrow> put_byte a (areg (kern m)) m;
        if \<not> ok then Some (False, m)
        else if page_no (a + of_nat (length bs)) = page_no a then do { m \<leftarrow> to_page a bs m; Some (True, m) }
        else do {
          let rest = page_rest a;
          m \<leftarrow> to_page a (take (unat rest) bs) m;
          (ok, m) \<leftarrow> put_byte (a + rest) (areg (kern m)) m;
          if \<not> ok then Some (False, m)
          else do { m \<leftarrow> to_page (a + rest) (drop (unat rest) bs) m; Some (True, m) } } })"

definition vuget :: "u16 \<Rightarrow> u16 \<Rightarrow> vm \<Rightarrow> (bool \<times> u8 list \<times> vm) option" where
  "vuget a n m =
     (if ucount n < 50 then do { (bs, m) \<leftarrow> vget_loop a (ucount n) m; Some (length bs = ucount n, bs, m) }
      else do {
        (v, m) \<leftarrow> get_byte a m;
        if v = None then Some (False, [], m)
        else if page_no (a + n) = page_no a then do { bs \<leftarrow> from_page a (ucount n) m; Some (True, bs, m) }
        else do {
          let rest = page_rest a;
          bs \<leftarrow> from_page a (unat rest) m;
          (v, m) \<leftarrow> get_byte (a + rest) m;
          if v = None then Some (False, bs, m)
          else do { cs \<leftarrow> from_page (a + rest) (ucount n - unat rest) m; Some (True, bs @ cs, m) } } })"

subsection \<open>The flat memory\<close>

definition dbyte :: "vm \<Rightarrow> u16 \<Rightarrow> u8 option" where
  "dbyte m a = sees (u_ptab (kern m)) m (page_no a) (page_off a)"

definition flat :: "vm \<Rightarrow> kst" where
  "flat m = (kern m)\<lparr>umem := (\<lambda>a. case dbyte m a of Some v \<Rightarrow> v | None \<Rightarrow> 0),
     upages := map (\<lambda>j. u_page m ! j \<noteq> NOPAGE) [0..<8]\<rparr>"

text \<open>Nothing outside the running process's data (and, for a program of one kind of pages, code) changes.\<close>

definition others_same :: "vm \<Rightarrow> vm \<Rightarrow> bool" where
  "others_same m t \<longleftrightarrow> u_ptab (kern t) = u_ptab (kern m) \<and> ptab (kern t) = ptab (kern m) \<and>
     (\<forall>k < PTABSIZE. \<forall>j < 16. holds k (kern m) \<longrightarrow> k = u_ptab (kern m) \<and> (j < 8 \<or> bintype m) \<or> sees k t j = sees k m j)"

text \<open>With \<open>enough\<close> free pages no access to the data pages of the running process runs out of them.\<close>

definition lack :: "vm \<Rightarrow> nat" where
  "lack m = card {j. j < 8 \<and> u_page m ! j \<noteq> NOPAGE \<and> \<not> ready j m}"

definition enough :: "vm \<Rightarrow> bool" where
  "enough m \<longleftrightarrow> lack m \<le> left m"

definition grown :: "vm \<Rightarrow> vm \<Rightarrow> bool" where
  "grown m t \<longleftrightarrow> vm_ok t \<and> enough t \<and> c_mode t = 0 \<and> others_same m t \<and> (\<forall>j < 16. ready j m \<longrightarrow> ready j t)"

lemma others_same_trans: "others_same m t \<Longrightarrow> others_same t u \<Longrightarrow> others_same m u"
  unfolding others_same_def bintype_def holds_def procp_def by metis

lemma grown_trans: "grown m t \<Longrightarrow> grown t u \<Longrightarrow> grown m u"
  using others_same_trans by (auto simp: grown_def)

lemma grown_refl: "vm_ok m \<Longrightarrow> enough m \<Longrightarrow> c_mode m = 0 \<Longrightarrow> grown m m"
  by (simp add: grown_def others_same_def)

lemma addr_parts: "unat a = 8192 * page_no a + unat (page_off a)" "unat (page_off a) = unat a mod 8192"
proof -
  have "page_no a = unat a div 8192" by (simp add: page_no_def drop_bit_eq_div unat_div_distrib)
  moreover have m: "page_off a = take_bit 13 a" by (simp add: page_off_def take_bit_eq_mask mask_eq_exp_minus_1)
  have "unat (page_off a) = unat a mod 8192" unfolding m by (simp add: take_bit_eq_mod unat_mod_distrib)
  ultimately show "unat a = 8192 * page_no a + unat (page_off a)" "unat (page_off a) = unat a mod 8192" by simp_all
qed

lemma same_place: "page_no a = page_no b \<and> page_off a = page_off b \<longleftrightarrow> a = b"
  using addr_parts(1) [of a] addr_parts(1) [of b] by (metis unsigned_word_eqI)

lemma no_page_sees: "vm_ok m \<Longrightarrow> j < 16 \<Longrightarrow> sees (u_ptab (kern m)) m j x = None \<longleftrightarrow> u_page m ! j = NOPAGE"
  using table_okD(1) [OF vm_okD(10)] by (auto simp: sees_def ptable_def split: upg.split)

lemma flat_legal: "legal (flat m) a \<longleftrightarrow> u_page m ! page_no a \<noteq> NOPAGE"
  using page_no_less [of a] by (simp add: legal_def flat_def)

lemma flat_areg [simp]: "areg (flat m) = areg (kern m)"
  by (simp add: flat_def)

lemma flat_mem: "umem (flat m) a = (case dbyte m a of Some v \<Rightarrow> v | None \<Rightarrow> 0)"
  by (simp add: flat_def)

lemma flat_eqI:
  assumes "vm_ok m" "vm_ok t" "kern t = kern m" "\<And>a. dbyte t a = ((dbyte m)(b := Some v)) a" "u_page m ! page_no b \<noteq> NOPAGE"
  shows "flat t = (flat m)\<lparr>umem := (umem (flat m))(b := v)\<rparr>" "\<And>j. j < 8 \<Longrightarrow> u_page t ! j = NOPAGE \<longleftrightarrow> u_page m ! j = NOPAGE"
proof -
  show pat: "u_page t ! j = NOPAGE \<longleftrightarrow> u_page m ! j = NOPAGE" if j: "j < 8" for j
  proof -
    define a :: u16 where "a = of_nat (8192 * j)"
    have "8192 * j < 65536" using j by simp
    then have "unat a = 8192 * j" unfolding a_def by (rule unat_of_small)
    then have a: "page_no a = j" by (simp add: page_no_div)
    have "dbyte t a = None \<longleftrightarrow> u_page t ! j = NOPAGE" "dbyte m a = None \<longleftrightarrow> u_page m ! j = NOPAGE"
      using no_page_sees [OF assms(1), of j] no_page_sees [OF assms(2), of j] assms(3) j by (simp_all add: dbyte_def a)
    then show ?thesis using assms(4) [of a] assms(5) a by (auto split: if_splits)
  qed
  show "flat t = (flat m)\<lparr>umem := (umem (flat m))(b := v)\<rparr>"
    using pat assms(3,4) by (auto simp: flat_def fun_eq_iff intro!: kst.equality)
qed

lemma upages_flat: "j < 8 \<Longrightarrow> upages (flat m) ! j \<longleftrightarrow> u_page m ! j \<noteq> NOPAGE"
  by (simp add: flat_def)

subsection \<open>One byte\<close>

definition stored :: "u16 \<Rightarrow> u8 \<Rightarrow> vm \<Rightarrow> vm \<Rightarrow> bool" where
  "stored a v m t \<longleftrightarrow> grown m t \<and> flat t = (flat m)\<lparr>umem := (umem (flat m))(a := v)\<rparr>"

lemma one_byteD:
  assumes "one_byte a v m t" "k < PTABSIZE" "j < 16" "holds k (kern m)" "j \<noteq> twin (page_no a)"
  shows "sees k t j = (if k = u_ptab (kern m) \<and> j = page_no a then (sees k m j)(page_off a := Some v) else sees k m j)"
  using assms unfolding one_byte_def by blast

lemma one_byte_flat:
  assumes ok: "vm_ok m" "u_page m ! page_no a \<noteq> NOPAGE" and t: "one_byte a v m t"
  shows "flat t = (flat m)\<lparr>umem := (umem (flat m))(a := v)\<rparr>" "others_same m t"
proof -
  have k: "kern t = kern m" "vm_ok t" using t by (simp_all add: one_byte_def)
  have tw: "page_no b \<noteq> twin (page_no a)" for b using page_no_less [of a] page_no_less [of b] by (simp add: twin_def)
  have "dbyte t b = ((dbyte m)(a := Some v)) b" for b
  proof -
    have "sees (u_ptab (kern m)) t (page_no b) =
        (if page_no b = page_no a then (sees (u_ptab (kern m)) m (page_no b))(page_off a := Some v) else sees (u_ptab (kern m)) m (page_no b))"
      using one_byteD [OF t vm_okD(8) [OF ok(1)] _ vm_okD(9) [OF ok(1)] tw] page_no_less [of b] by simp
    then show ?thesis using same_place [of a b] k(1) by (auto simp: dbyte_def)
  qed
  then show "flat t = (flat m)\<lparr>umem := (umem (flat m))(a := v)\<rparr>" using flat_eqI(1) ok k by blast
  have "k = u_ptab (kern m) \<and> (j < 8 \<or> bintype m) \<or> sees k t j = sees k m j" if "k < PTABSIZE" "j < 16" "holds k (kern m)" for k j
    using t that page_no_less [of a] unfolding one_byte_def by metis
  then show "others_same m t" by (simp add: others_same_def k)
qed

lemma lack_mono:
  assumes "\<forall>j < 16. ready j m \<longrightarrow> ready j t" "upages (flat t) = upages (flat m)"
  shows "lack t \<le> lack m" "j < 8 \<Longrightarrow> u_page m ! j \<noteq> NOPAGE \<Longrightarrow> \<not> ready j m \<Longrightarrow> ready j t \<Longrightarrow> Suc (lack t) \<le> lack m"
proof -
  let ?L = "\<lambda>m. {j. j < 8 \<and> u_page m ! j \<noteq> NOPAGE \<and> \<not> ready j m}"
  have "u_page t ! i = NOPAGE \<longleftrightarrow> u_page m ! i = NOPAGE" if "i < 8" for i using assms(2) upages_flat [OF that] by metis
  then have sub: "?L t \<subseteq> ?L m" using assms(1) by auto
  have fin: "finite (?L m)" by simp
  show "lack t \<le> lack m" using sub fin by (simp add: lack_def card_mono)
  assume "j < 8" "u_page m ! j \<noteq> NOPAGE" "\<not> ready j m" "ready j t"
  then have "?L t \<subset> ?L m" using sub by auto
  then show "Suc (lack t) \<le> lack m" using psubset_card_mono [OF fin] by (simp add: lack_def Suc_le_eq)
qed

lemma STUD_stored:
  assumes m: "vm_ok m" "enough m" "c_mode m = 0" "ready (page_no a) m"
  shows "\<exists>t. STUD a v m = Some t \<and> stored a v m t"
proof -
  obtain t where t: "STUD a v m = Some t" "one_byte a v m t" using STUD_law [OF m(1), of a v] m(4) by (auto simp: ready_def)
  have same: "mmu t = mmu m" "pgtab t = pgtab m" "u_page t = u_page m" "c_mode t = c_mode m"
    using t(1) by (auto simp: STUD_def Let_def split: if_splits)
  have "entry_ok (page_no a) m" using vm_okD(5) [OF m(1)] page_no_less [of a] by (simp add: mmu_ok_def)
  then have "u_page m ! page_no a \<noteq> NOPAGE" using m(4) by (auto simp: entry_ok_def ready_def)
  moreover have "left t = left m" "lack t = lack m" by (simp_all add: left_def lack_def ready_def pgp_def same)
  ultimately show ?thesis using t m one_byte_flat [OF m(1) _ t(2)]
    by (auto simp: stored_def grown_def enough_def same ready_def one_byte_def)
qed

lemma enough_page_left:
  assumes "enough m" "j < 8" "u_page m ! j \<noteq> NOPAGE" "\<not> ready j m"
  shows "page_left m"
proof -
  have "finite {j. j < 8 \<and> u_page m ! j \<noteq> NOPAGE \<and> \<not> ready j m}" by simp
  then have "0 < lack m" unfolding lack_def using assms(2-4) by (subst card_gt_0_iff) auto
  then have "0 < left m" using assms(1) by (simp add: enough_def)
  then show ?thesis by (auto simp: left_def card_gt_0_iff page_left_def)
qed

lemma faultedD:
  assumes "faulted p m u" "k < PTABSIZE" "j < 16" "holds k (kern m)" "j \<noteq> twin p"
  shows "sees k u j = sees k m j"
  using assms unfolding faulted_def by blast

lemma faulted_flat:
  assumes ok: "vm_ok m" "u_page m ! j \<noteq> NOPAGE" "j < 8" and u: "faulted j m u"
  shows "flat u = flat m" "others_same m u"
proof -
  have k: "kern u = kern m" "vm_ok u" using u by (simp_all add: faulted_def)
  have tw: "page_no b \<noteq> twin j" for b using assms(3) page_no_less [of b] by (simp add: twin_def)
  have same: "sees (u_ptab (kern m)) u i = sees (u_ptab (kern m)) m i" if "i < 8" for i
    using faultedD [OF u vm_okD(8) [OF ok(1)] _ vm_okD(9) [OF ok(1)]] that tw [of "of_nat (8192 * i)"] assms(3) by (simp add: twin_def)
  then have d: "dbyte u a = dbyte m a" for a using page_no_less [of a] by (simp add: dbyte_def k)
  have "u_page u ! i = NOPAGE \<longleftrightarrow> u_page m ! i = NOPAGE" if "i < 8" for i
    using no_page_sees [of m i 0] no_page_sees [of u i 0] ok(1) k same [OF that] that by simp
  then show "flat u = flat m" using d k(1) by (simp add: flat_def cong: map_cong)
  have "k = u_ptab (kern m) \<and> (i < 8 \<or> bintype m) \<or> sees k u i = sees k m i" if "k < PTABSIZE" "i < 16" "holds k (kern m)" for k i
    using u that unfolding faulted_def by metis
  then show "others_same m u" by (simp add: others_same_def k)
qed

lemma faulted_grown:
  assumes m: "vm_ok m" "enough m" "c_mode m = 0" and j: "u_page m ! j \<noteq> NOPAGE" "j < 8" "\<not> ready j m" and u: "faulted j m u"
  shows "grown m u" "flat u = flat m"
proof -
  show f: "flat u = flat m" using faulted_flat(1) [OF m(1) j(1,2) u] .
  have "Suc (lack u) \<le> lack m" "left m \<le> Suc (left u)"
    using lack_mono(2) [of m u j] u f j by (simp_all add: faulted_def)
  then have "enough u" using m(2) by (simp add: enough_def)
  then show "grown m u" using faulted_flat(2) [OF m(1) j(1,2) u] u m(3) by (simp add: grown_def faulted_def)
qed

lemma put_byte_flat:
  assumes m: "vm_ok m" "enough m" "c_mode m = 0" and a: "u_page m ! page_no a \<noteq> NOPAGE"
  shows "\<exists>t. put_byte a v m = Some (True, t) \<and> stored a v m t \<and> ready (page_no a) t"
proof (cases "ready (page_no a) m")
  case True
  then obtain t where t: "STUD a v m = Some t" "stored a v m t" using STUD_stored [OF m] by blast
  then have "ready (page_no a) t" using True page_no_less [of a] by (simp add: stored_def grown_def)
  then show ?thesis using t by (simp add: put_byte_def)
next
  case False
  have c: "m\<lparr>c_mode := 0\<rparr> = m" using m(3) by simp
  have none: "STUD a v m = None" using False by (auto simp: STUD_def Let_def ready_def)
  obtain u where u: "getpag (page_no a) m = Some (0, u)" "faulted (page_no a) m u"
    using getpag_law [OF m(1), of "page_no a"] enough_page_left [OF m(2) page_no_less a False] a m(3) page_no_less [of a] by auto
  note g = faulted_grown [OF m a page_no_less False u(2)]
  have r: "ready (page_no a) u" using u(2) by (simp add: faulted_def)
  obtain t where t: "STUD a v u = Some t" "stored a v u t" using STUD_stored [of u a v] g(1) r by (auto simp: grown_def)
  have "stored a v m t" using t(2) g grown_trans by (auto simp: stored_def)
  moreover have "ready (page_no a) t" using t(2) r page_no_less [of a] by (simp add: stored_def grown_def)
  moreover have "put_byte a v m = Some (True, t)"
    using none u(1) t(1) c by (simp add: put_byte_def usflt_def upage_def page_no_def)
  ultimately show ?thesis by blast
qed

lemma LDUD_flat:
  assumes m: "vm_ok m" and v: "LDUD a m = Some v"
  shows "dbyte m a = Some v"
proof -
  have "entry_ok (page_no a) m" using vm_okD(5) [OF m] page_no_less [of a] by (simp add: mmu_ok_def)
  then show ?thesis using v
    by (auto simp: LDUD_def Let_def entry_ok_def dbyte_def sees_def ptable_def split: if_splits upg.splits)
qed

lemma get_byte_flat:
  assumes m: "vm_ok m" "enough m" "c_mode m = 0" and a: "u_page m ! page_no a \<noteq> NOPAGE"
  shows "\<exists>t. get_byte a m = Some (Some (umem (flat m) a), t) \<and> grown m t \<and> flat t = flat m \<and> mmu t ! page_no a AND 8 \<noteq> 0"
proof (cases "LDUD a m")
  case (Some v)
  moreover have "mmu m ! page_no a AND 8 \<noteq> 0" using Some by (auto simp: LDUD_def Let_def split: if_splits)
  ultimately show ?thesis using LDUD_flat [OF m(1) Some] grown_refl [OF m] by (simp add: get_byte_def flat_mem)
next
  case None
  have no: "\<not> ready (page_no a) m" using None by (auto simp: LDUD_def Let_def ready_def split: if_splits)
  obtain u where u: "getpag (page_no a) m = Some (0, u)" "faulted (page_no a) m u"
    using getpag_law [OF m(1), of "page_no a"] enough_page_left [OF m(2) page_no_less a no] a m(3) page_no_less [of a] by auto
  note g = faulted_grown [OF m a page_no_less no u(2)]
  have r: "mmu u ! page_no a AND 8 \<noteq> 0" using u(2) by (simp add: faulted_def ready_def)
  then obtain v where v: "LDUD a u = Some v" by (simp add: LDUD_def Let_def)
  have "umem (flat m) a = v" using LDUD_flat [OF _ v] g by (simp add: grown_def flat_mem flip: g(2))
  then have "get_byte a m = Some (Some (umem (flat m) a), u)" using None u(1) v by (simp add: get_byte_def ulflt_def upage_def page_no_def)
  then show ?thesis using g r by blast
qed

lemma no_page_flat:
  assumes m: "vm_ok m" "c_mode m = 0" and a: "u_page m ! page_no a = NOPAGE"
  shows "put_byte a v m = Some (False, m\<lparr>kern := set_error EFAULT (kern m)\<rparr>)"
    "get_byte a m = Some (None, m\<lparr>kern := set_error EFAULT (kern m)\<rparr>)"
proof -
  have "page_no a < 16" using page_no_less [of a] by simp
  then have "entry_ok (page_no a) m" using vm_okD(5) [OF m(1)] by (simp add: mmu_ok_def)
  then have "LDUD a m = None" using a by (simp add: entry_ok_def LDUD_def Let_def)
  moreover have p: "unat (drop_bit 13 a) = page_no a" by (simp add: page_no_def)
  ultimately show "get_byte a m = Some (None, m\<lparr>kern := set_error EFAULT (kern m)\<rparr>)"
    using a m(2) by (simp add: get_byte_def ulflt_def upage_def getpag_def Let_def)
  show "put_byte a v m = Some (False, m\<lparr>kern := set_error EFAULT (kern m)\<rparr>)" using no_page_store [OF m(1) a] m(2) by simp
qed

text \<open>A change of the kernel state outside the process table.\<close>

lemma kern_other:
  assumes s: "ptab s = ptab (kern m)" "u_ptab s = u_ptab (kern m)"
  shows "vm_ok (m\<lparr>kern := s\<rparr>) = vm_ok m" "flat (m\<lparr>kern := s\<rparr>) = s\<lparr>umem := umem (flat m), upages := upages (flat m)\<rparr>"
    "vm_ok m \<Longrightarrow> enough m \<Longrightarrow> c_mode m = 0 \<Longrightarrow> grown m (m\<lparr>kern := s\<rparr>)"
proof -
  let ?t = "m\<lparr>kern := s\<rparr>"
  have h: "holds k s = holds k (kern m)" "procp k s = procp k (kern m)" for k by (simp_all add: holds_def procp_def s)
  have pt: "ptable k ?t = ptable k m" "slots k ?t = slots k m" "pgp x ?t = pgp x m" for k x
    by (simp_all add: ptable_def slots_def pgp_def h s)
  have uses: "uses x ?t = uses x m" for x by (simp add: uses_def pt)
  have "entry_ok j ?t = entry_ok j m" "desc_ok j ?t = desc_ok j m" for j
    by (simp_all add: entry_ok_def desc_ok_def pt uses split: upg.split)
  then show ok: "vm_ok ?t = vm_ok m" by (simp add: vm_ok_def tables_ok_def frames_ok_def mmu_ok_def procs_ok_def pt h s)
  have see: "sees k ?t j = sees k m j" for k j by (rule sees_cong) (simp_all add: pt)
  have "left ?t = left m" "lack ?t = lack m" by (simp_all add: left_def lack_def ready_def pgp_def)
  then show "vm_ok m \<Longrightarrow> enough m \<Longrightarrow> c_mode m = 0 \<Longrightarrow> grown m ?t"
    by (simp add: grown_def ok others_same_def enough_def see s) (simp add: ready_def)
  show "flat ?t = s\<lparr>umem := umem (flat m), upages := upages (flat m)\<rparr>" by (simp add: flat_def dbyte_def see s)
qed

lemma error_grown:
  assumes "vm_ok m" "enough m" "c_mode m = 0"
  shows "grown m (m\<lparr>kern := set_error e (kern m)\<rparr>)" "flat (m\<lparr>kern := set_error e (kern m)\<rparr>) = set_error e (flat m)"
proof -
  have s: "ptab (set_error e (kern m)) = ptab (kern m)" "u_ptab (set_error e (kern m)) = u_ptab (kern m)"
    by (simp_all add: set_error_def)
  show "grown m (m\<lparr>kern := set_error e (kern m)\<rparr>)" by (rule kern_other(3) [OF s assms])
  show "flat (m\<lparr>kern := set_error e (kern m)\<rparr>) = set_error e (flat m)"
    by (simp only: kern_other(2) [OF s]) (simp add: flat_def set_error_def)
qed

subsection \<open>The loops\<close>

lemma legal_umem [simp]: "legal (s\<lparr>umem := w\<rparr>) = legal s"
  by (simp add: fun_eq_iff legal_def)

lemma stored_sel:
  assumes "stored a v m t"
  shows "vm_ok t" "enough t" "c_mode t = 0" "legal (flat t) = legal (flat m)" "umem (flat t) = (umem (flat m))(a := v)"
    "areg (kern t) = areg (kern m)"
proof -
  show "vm_ok t" "enough t" "c_mode t = 0" using assms by (simp_all add: stored_def grown_def)
  have f: "flat t = (flat m)\<lparr>umem := (umem (flat m))(a := v)\<rparr>" using assms by (simp add: stored_def)
  show "legal (flat t) = legal (flat m)" "umem (flat t) = (umem (flat m))(a := v)" by (simp_all add: f)
  show "areg (kern t) = areg (kern m)" using flat_areg [of t] by (simp add: f)
qed

lemma vput_loop_flat:
  assumes "vm_ok m" "enough m" "c_mode m = 0"
  shows "\<exists>t. vput_loop a bs m = Some (snd (uwrite (legal (flat m)) a bs (umem (flat m))), t) \<and> grown m t \<and>
    flat t = (let (w, r) = uwrite (legal (flat m)) a bs (umem (flat m)); s = (flat m)\<lparr>umem := w\<rparr> in if r then s else set_error EFAULT s)"
  using assms
proof (induction bs arbitrary: a m)
  case Nil
  then show ?case by (auto intro: grown_refl)
next
  case (Cons b bs)
  show ?case
  proof (cases "u_page m ! page_no a = NOPAGE")
    case True
    then show ?thesis using no_page_flat(1) [OF Cons.prems(1,3) True] error_grown [OF Cons.prems] by (simp add: flat_legal fun_upd_def)
  next
    case False
    obtain u where u: "put_byte a b m = Some (True, u)" "stored a b m u" using put_byte_flat [OF Cons.prems False] by blast
    note S = stored_sel [OF u(2)]
    have g: "grown m u" "flat u = (flat m)\<lparr>umem := (umem (flat m))(a := b)\<rparr>" using u(2) by (simp_all add: stored_def)
    obtain t where t: "vput_loop (a + 1) bs u = Some (snd (uwrite (legal (flat m)) (a + 1) bs ((umem (flat m))(a := b))), t)" "grown u t"
      "flat t = (let (w, r) = uwrite (legal (flat m)) (a + 1) bs ((umem (flat m))(a := b)); s = (flat u)\<lparr>umem := w\<rparr> in if r then s else set_error EFAULT s)"
      using Cons.IH [OF S(1-3), of "a + 1"] unfolding S(4,5) by blast
    have "(flat u)\<lparr>umem := w\<rparr> = (flat m)\<lparr>umem := w\<rparr>" for w by (simp add: g(2))
    moreover have "legal (flat m) a" using False by (simp add: flat_legal)
    ultimately show ?thesis using t u(1) grown_trans [OF g(1) t(2)] by simp
  qed
qed

lemma vget_loop_flat:
  assumes "vm_ok m" "enough m" "c_mode m = 0"
  shows "\<exists>t. vget_loop a n m = Some (uread (legal (flat m)) (umem (flat m)) a n, t) \<and> grown m t \<and>
    flat t = (if length (uread (legal (flat m)) (umem (flat m)) a n) = n then flat m else set_error EFAULT (flat m))"
  using assms
proof (induction n arbitrary: a m)
  case 0
  then show ?case by (auto intro: grown_refl)
next
  case (Suc n)
  show ?case
  proof (cases "u_page m ! page_no a = NOPAGE")
    case True
    then show ?thesis using no_page_flat(2) [OF Suc.prems(1,3) True] error_grown [OF Suc.prems] by (simp add: flat_legal)
  next
    case False
    obtain u where u: "get_byte a m = Some (Some (umem (flat m) a), u)" "grown m u" "flat u = flat m"
      using get_byte_flat [OF Suc.prems False] by blast
    have "vm_ok u" "enough u" "c_mode u = 0" using u(2) by (simp_all add: grown_def)
    moreover have "legal (flat m) a" using False by (simp add: flat_legal)
    ultimately show ?thesis using Suc.IH [of u "a + 1"] u grown_trans [OF u(2)] by (auto)
  qed
qed

lemma vugets_flat:
  assumes "vm_ok m" "enough m" "c_mode m = 0"
  shows "\<exists>t. vugets a n m = Some (snd (ureads (legal (flat m)) (umem (flat m)) a n), fst (ureads (legal (flat m)) (umem (flat m)) a n), t) \<and>
    grown m t \<and> flat t = (if snd (ureads (legal (flat m)) (umem (flat m)) a n) then flat m else set_error EFAULT (flat m))"
  using assms
proof (induction n arbitrary: a m)
  case 0
  then show ?case by (auto intro: grown_refl)
next
  case (Suc n)
  show ?case
  proof (cases "u_page m ! page_no a = NOPAGE")
    case True
    then show ?thesis using no_page_flat(2) [OF Suc.prems(1,3) True] error_grown [OF Suc.prems] by (simp add: flat_legal)
  next
    case False
    obtain u where u: "get_byte a m = Some (Some (umem (flat m) a), u)" "grown m u" "flat u = flat m"
      using get_byte_flat [OF Suc.prems False] by blast
    have "vm_ok u" "enough u" "c_mode u = 0" using u(2) by (simp_all add: grown_def)
    moreover have "legal (flat m) a" using False by (simp add: flat_legal)
    ultimately show ?thesis using Suc.IH [of u "a + 1"] u grown_trans [OF u(2)] by (auto simp: Let_def split: prod.splits)
  qed
qed

subsection \<open>The pieces\<close>

lemma next_place:
  assumes "unat (page_off a) + 1 < 8192"
  shows "page_no (a + 1) = page_no a" "page_off (a + 1) = page_off a + 1" "unat (page_off (a + 1)) = unat (page_off a) + 1"
proof -
  have o': "unat (page_off a) = unat a mod 8192" by (rule addr_parts)
  have u: "unat (a + 1) = unat a + 1"
  proof -
    have "unat a \<noteq> 65535" using assms by (auto simp: o')
    then show ?thesis using unat_add_u16 [of a 1] by (auto simp: o' mod_Suc)
  qed
  show "page_no (a + 1) = page_no a" using assms by (simp add: page_no_div u o') (simp add: div_Suc mod_Suc)
  show p: "unat (page_off (a + 1)) = unat (page_off a) + 1" using assms by (simp add: addr_parts(2) u o' mod_Suc)
  have "unat (page_off a + 1) = unat (page_off a) + 1" using assms unat_add_u16 [of "page_off a" 1] by simp
  then show "page_off (a + 1) = page_off a + 1" using p by (metis unsigned_word_eqI)
qed

lemma to_page_Cons:
  assumes "ready (page_no a) m" "c_mode m = 0" "unat (page_off a) + length (b # bs) \<le> 8192" "STUD a b m = Some t"
  shows "to_page a (b # bs) m = (if bs = [] then Some t else to_page (a + 1) bs t)"
proof -
  have t: "t = m\<lparr>phys := (phys m)(page_frame (mmu m ! page_no a) := (phys m (page_frame (mmu m ! page_no a)))(page_off a := b))\<rparr>"
    using assms(4) by (auto simp: STUD_def Let_def split: if_splits)
  have v: "mmu m ! page_no a AND 8 \<noteq> 0" using assms(1) by (simp add: ready_def)
  show ?thesis
  proof (cases bs)
    case Nil
    then show ?thesis using v by (simp add: to_page_def upadr_def Let_def assms(2) t)
  next
    case (Cons c cs)
    then have "unat (page_off a) + 1 < 8192" using assms(3) by simp
    note n = next_place [OF this]
    show ?thesis using v Cons by (simp add: to_page_def upadr_def Let_def assms(2) t n)
  qed
qed

lemma to_page_flat:
  assumes "vm_ok m" "enough m" "c_mode m = 0" "ready (page_no a) m" "unat (page_off a) + length bs \<le> 8192"
  shows "\<exists>t. to_page a bs m = Some t \<and> grown m t \<and> flat t = (flat m)\<lparr>umem := dma_put a bs (umem (flat m))\<rparr>"
  using assms
proof (induction bs arbitrary: a m)
  case Nil
  have "to_page a [] m = Some m" using Nil.prems(3,4) by (simp add: to_page_def upadr_def Let_def ready_def)
  then show ?case using Nil.prems grown_refl by simp
next
  case (Cons b bs)
  obtain u where u: "STUD a b m = Some u" "stored a b m u" using STUD_stored [OF Cons.prems(1-4)] by blast
  note S = stored_sel [OF u(2)]
  have g: "grown m u" "flat u = (flat m)\<lparr>umem := (umem (flat m))(a := b)\<rparr>" using u(2) by (simp_all add: stored_def)
  note step = to_page_Cons [OF Cons.prems(4,3,5) u(1)]
  show ?case
  proof (cases "bs = []")
    case True
    then show ?thesis using step g by (simp add: fun_upd_def)
  next
    case False
    then have "unat (page_off a) + 1 < 8192" using Cons.prems(5) by (cases bs) simp_all
    note n = next_place [OF this]
    have "unat (page_off (a + 1)) + length bs \<le> 8192" using Cons.prems(5) n(3) by simp
    moreover have "ready (page_no (a + 1)) u" using n(1) Cons.prems(4) g(1) page_no_less [of a] by (simp add: grown_def)
    ultimately show ?thesis using Cons.IH [OF S(1-3)] step False g grown_trans [OF g(1)]
      by (fastforce simp: S(5))
  qed
qed

lemma place_in_page:
  assumes "unat (page_off a) + i < 8192"
  shows "page_no (a + of_nat i) = page_no a" "page_off (a + of_nat i) = page_off a + of_nat i"
proof -
  have "page_no (a + of_nat i) = page_no a \<and> page_off (a + of_nat i) = page_off a + of_nat i \<and>
      unat (page_off (a + of_nat i)) = unat (page_off a) + i"
    using assms
  proof (induction i)
    case (Suc i)
    then have "unat (page_off a) + i < 8192" by simp
    from Suc.IH [OF this] have ih: "page_no (a + of_nat i) = page_no a" "page_off (a + of_nat i) = page_off a + of_nat i"
      "unat (page_off (a + of_nat i)) = unat (page_off a) + i" by blast+
    have "unat (page_off (a + of_nat i)) + 1 < 8192" using Suc.prems unfolding ih(3) by simp
    note n = next_place [OF this]
    have e: "a + of_nat (Suc i) = a + of_nat i + 1" "page_off a + of_nat (Suc i) = page_off a + of_nat i + 1"
      "unat (page_off a) + Suc i = unat (page_off a) + i + 1" by simp_all
    show ?case unfolding e
    proof (intro conjI)
      show "page_no (a + of_nat i + 1) = page_no a" by (simp only: n(1) ih(1))
      show "page_off (a + of_nat i + 1) = page_off a + of_nat i + 1" by (simp only: n(2) ih(2))
      show "unat (page_off (a + of_nat i + 1)) = unat (page_off a) + i + 1" by (simp only: n(3) ih(3))
    qed
  qed simp
  then show "page_no (a + of_nat i) = page_no a" "page_off (a + of_nat i) = page_off a + of_nat i" by simp_all
qed

lemma from_page_flat:
  assumes m: "vm_ok m" "c_mode m = 0" and e: "mmu m ! page_no a AND 8 \<noteq> 0" and n: "unat (page_off a) + n \<le> 8192"
  shows "from_page a n m = Some (dma_get (umem (flat m)) a n)"
proof -
  have "umem (flat m) (a + of_nat i) = phys m (page_frame (mmu m ! page_no a)) (page_off a + of_nat i)" if i: "i < n" for i
  proof -
    have "unat (page_off a) + i < 8192" using n i by simp
    note p = place_in_page [OF this]
    have "LDUD (a + of_nat i) m = Some (phys m (page_frame (mmu m ! page_no a)) (page_off a + of_nat i))"
      using e by (simp add: LDUD_def Let_def p)
    then show ?thesis using LDUD_flat [OF m(1)] by (simp add: flat_mem)
  qed
  then show ?thesis using e m(2) by (simp add: from_page_def upadr_def Let_def dma_get_def)
qed

lemma page_split:
  assumes "n \<le> 8192"
  shows "unat (page_off (a + page_rest a)) = 0" "page_no (a + of_nat n) = page_no a \<Longrightarrow> unat (page_off a) + n \<le> 8192"
    "page_no (a + of_nat n) \<noteq> page_no a \<Longrightarrow> unat (page_rest a) \<le> n" "unat (page_off a) + unat (page_rest a) = 8192"
proof -
  have r: "unat (page_rest a) = 8192 - unat a mod 8192" by (rule page_rest_nat)
  have o': "unat (page_off a) = unat a mod 8192" by (rule addr_parts(2))
  have u: "unat a = 8192 * (unat a div 8192) + unat a mod 8192" "unat a mod 8192 < 8192" by simp_all
  show o: "unat (page_off a) + unat (page_rest a) = 8192" using u(2) by (simp add: r o')
  have "unat (a + page_rest a) mod 8192 = (unat a + unat (page_rest a)) mod 65536 mod 8192" by (simp add: unat_word_ariths)
  also have "\<dots> = (unat a + unat (page_rest a)) mod 8192" by (simp add: mod_mod_cancel)
  also have "unat a + unat (page_rest a) = 8192 * (unat a div 8192 + 1)" using o o' u(1) unfolding add_mult_distrib2 by (metis add.assoc mult.right_neutral)
  also have "\<dots> mod 8192 = 0" by simp
  finally show "unat (page_off (a + page_rest a)) = 0" by (simp add: addr_parts(2))
  show "page_no (a + of_nat n) = page_no a \<Longrightarrow> unat (page_off a) + n \<le> 8192" using same_page_iff [OF assms, of a] o by simp
  show "page_no (a + of_nat n) \<noteq> page_no a \<Longrightarrow> unat (page_rest a) \<le> n" using same_page_iff [OF assms, of a] by simp
qed

subsection \<open>The refinement\<close>

lemma uput_flat:
  assumes m: "vm_ok m" "enough m" "c_mode m = 0" and n: "length bs \<le> 8192"
  shows "\<exists>t. vuput bs a m = Some (fst (uput bs a (flat m)) = 0, t) \<and> flat t = snd (uput bs a (flat m)) \<and> grown m t"
proof (cases "length bs < 50")
  case True
  obtain w r where w: "uwrite (legal (flat m)) a bs (umem (flat m)) = (w, r)" by fastforce
  then show ?thesis using True vput_loop_flat [OF m, of a bs] by (cases r) (auto simp: vuput_def uput_def Let_def)
next
  case long: False
  let ?s = "flat m" and ?r = "page_rest a"
  note sp = page_split [OF n, of a]
  show ?thesis
  proof (cases "u_page m ! page_no a = NOPAGE")
    case True
    then show ?thesis using long no_page_flat(1) [OF m(1,3) True] error_grown [OF m]
      by (simp add: vuput_def uput_def Let_def flat_legal)
  next
    case False
    then have leg: "legal ?s a" by (simp add: flat_legal)
    obtain u where u: "put_byte a (areg (kern m)) m = Some (True, u)" "stored a (areg (kern m)) m u" "ready (page_no a) u"
      using put_byte_flat [OF m False] by blast
    note U = stored_sel [OF u(2)]
    have g: "grown m u" "flat u = ?s\<lparr>umem := (umem ?s)(a := areg (kern m))\<rparr>" using u(2) by (simp_all add: stored_def)
    have over: "dma_put a cs (w(a := v)) = dma_put a cs w" if "cs \<noteq> []" for cs v w using that by (cases cs) simp_all
    show ?thesis
    proof (cases "page_no (a + of_nat (length bs)) = page_no a")
      case True
      obtain t where t: "to_page a bs u = Some t" "grown u t" "flat t = (flat u)\<lparr>umem := dma_put a bs (umem (flat u))\<rparr>"
        using to_page_flat [OF U(1-3) u(3) sp(2) [OF True]] by blast
      have "bs \<noteq> []" using long by auto
      then have "flat t = ?s\<lparr>umem := dma_put a bs (umem ?s)\<rparr>" using t(3) by (simp add: g(2) over)
      then show ?thesis using long True u(1) t grown_trans [OF g(1) t(2)] leg
        by (simp add: vuput_def uput_def Let_def)
    next
      case two: False
      let ?cs = "take (unat ?r) bs"
      have r: "unat ?r \<le> length bs" "0 < unat ?r" using sp(3) [OF two] sp(4) addr_parts(2) [of a] by auto
      then have cs: "?cs \<noteq> []" "unat (page_off a) + length ?cs \<le> 8192" using sp(4) long by auto
      obtain t where t: "to_page a ?cs u = Some t" "grown u t" "flat t = (flat u)\<lparr>umem := dma_put a ?cs (umem (flat u))\<rparr>"
        using to_page_flat [OF U(1-3) u(3) cs(2)] by blast
      have T: "vm_ok t" "enough t" "c_mode t = 0" using t(2) by (simp_all add: grown_def)
      have f: "flat t = ?s\<lparr>umem := dma_put a ?cs (umem ?s)\<rparr>" using t(3) cs(1) by (simp add: g(2) over)
      then have ft: "legal (flat t) = legal ?s" "areg (kern t) = areg ?s" "umem (flat t) = dma_put a ?cs (umem ?s)"
        using flat_areg [of t] by simp_all
      have gt: "grown m t" using grown_trans g(1) t(2) .
      have start: "vuput bs a m = do {
          (ok, m) \<leftarrow> put_byte (a + ?r) (areg (kern t)) t;
          if \<not> ok then Some (False, m)
          else do { m \<leftarrow> to_page (a + ?r) (drop (unat ?r) bs) m; Some (True, m) } }"
        using long u(1) two t(1) by (simp add: vuput_def Let_def)
      show ?thesis
      proof (cases "u_page t ! page_no (a + ?r) = NOPAGE")
        case True
        then have "\<not> legal ?s (a + ?r)" using flat_legal [of t] ft(1) by simp
        then show ?thesis using long two leg start no_page_flat(1) [OF T(1,3) True] error_grown [OF T] grown_trans [OF gt] f
          by (simp add: uput_def Let_def legal_umem)
      next
        case False
        then have leg2: "legal ?s (a + ?r)" using flat_legal [of t] ft(1) by simp
        obtain q where q: "put_byte (a + ?r) (areg (kern t)) t = Some (True, q)" "stored (a + ?r) (areg (kern t)) t q" "ready (page_no (a + ?r)) q"
          using put_byte_flat [OF T False] by blast
        note Q = stored_sel [OF q(2)]
        have d: "unat (page_off (a + ?r)) + length (drop (unat ?r) bs) \<le> 8192" using sp(1) n by simp
        obtain x where x: "to_page (a + ?r) (drop (unat ?r) bs) q = Some x" "grown q x"
            "flat x = (flat q)\<lparr>umem := dma_put (a + ?r) (drop (unat ?r) bs) (umem (flat q))\<rparr>"
          using to_page_flat [OF Q(1-3) q(3) d] by blast
        have "flat q = (flat t)\<lparr>umem := (umem (flat t))(a + ?r := areg (kern t))\<rparr>" "grown t q" using q(2) by (simp_all add: stored_def)
        moreover have "(flat t)\<lparr>umem := w\<rparr> = ?s\<lparr>umem := w\<rparr>" for w by (simp add: f)
        ultimately have "flat x = ?s\<lparr>umem := dma_put (a + ?r) (drop (unat ?r) bs) ((dma_put a ?cs (umem ?s))(a + ?r := areg ?s))\<rparr>"
          using x(3) by (simp only: Q(5) ft(2,3)) simp
        moreover have "uput bs a ?s = (0, ?s\<lparr>umem := dma_put (a + ?r) (drop (unat ?r) bs) ((dma_put a ?cs (umem ?s))(a + ?r := areg ?s))\<rparr>)"
          using long two leg leg2 by (simp add: uput_def Let_def)
        moreover have "vuput bs a m = Some (True, x)" using start q(1) x(1) by simp
        moreover have "grown m x" using grown_trans [OF gt grown_trans [OF \<open>grown t q\<close> x(2)]] .
        ultimately show ?thesis by simp
      qed
    qed
  qed
qed

lemma dma_get_append: "dma_get w a (i + j) = dma_get w a i @ dma_get w (a + of_nat i) j"
  by (induction j) (simp_all add: dma_get_def add.assoc)

lemma uget_flat:
  assumes m: "vm_ok m" "enough m" "c_mode m = 0" and n: "ucount n \<le> 8192"
  shows "\<exists>t. vuget a n m = Some (fst (uget a n (flat m)) = 0, fst (snd (uget a n (flat m))), t) \<and>
    flat t = snd (snd (uget a n (flat m))) \<and> grown m t"
proof (cases "ucount n < 50")
  case True
  then show ?thesis using vget_loop_flat [OF m, of a "ucount n"] by (auto simp: vuget_def uget_def Let_def)
next
  case long: False
  let ?s = "flat m" and ?r = "page_rest a"
  have nn: "of_nat (ucount n) = n" "ucount n = unat n" using n by (auto simp: ucount_def split: if_splits)
  note sp = page_split [OF n, of a, unfolded nn(1)]
  show ?thesis
  proof (cases "u_page m ! page_no a = NOPAGE")
    case True
    then show ?thesis using long no_page_flat(2) [OF m(1,3) True] error_grown [OF m]
      by (simp add: vuget_def uget_def Let_def flat_legal)
  next
    case False
    then have leg: "legal ?s a" by (simp add: flat_legal)
    obtain u where u: "get_byte a m = Some (Some (umem ?s a), u)" "grown m u" "flat u = ?s" "mmu u ! page_no a AND 8 \<noteq> 0"
      using get_byte_flat [OF m False] by blast
    have U: "vm_ok u" "enough u" "c_mode u = 0" using u(2) by (simp_all add: grown_def)
    note get = from_page_flat [OF U(1,3) u(4), unfolded u(3)]
    show ?thesis
    proof (cases "page_no (a + n) = page_no a")
      case True
      then show ?thesis using long u(1-3) leg get [OF sp(2)] by (simp add: vuget_def uget_def Let_def)
    next
      case two: False
      have r: "unat ?r \<le> ucount n" using sp(3) [OF two] .
      have g1: "from_page a (unat ?r) u = Some (dma_get (umem ?s) a (unat ?r))" using get sp(4) by simp
      have start: "vuget a n m = do {
          (v, m) \<leftarrow> get_byte (a + ?r) u;
          if v = None then Some (False, dma_get (umem ?s) a (unat ?r), m)
          else do { cs \<leftarrow> from_page (a + ?r) (ucount n - unat ?r) m; Some (True, dma_get (umem ?s) a (unat ?r) @ cs, m) } }"
        using long u(1) two g1 by (simp add: vuget_def Let_def)
      show ?thesis
      proof (cases "u_page u ! page_no (a + ?r) = NOPAGE")
        case True
        then have "\<not> legal ?s (a + ?r)" using flat_legal [of u] u(3) by simp
        then show ?thesis using long two leg start no_page_flat(2) [OF U(1,3) True] error_grown [OF U] grown_trans [OF u(2)] u(3)
          by (simp add: uget_def Let_def)
      next
        case False
        then have leg2: "legal ?s (a + ?r)" using flat_legal [of u] u(3) by simp
        obtain q where q: "get_byte (a + ?r) u = Some (Some (umem ?s (a + ?r)), q)" "grown u q" "flat q = ?s" "mmu q ! page_no (a + ?r) AND 8 \<noteq> 0"
          using get_byte_flat [OF U False] u(3) by auto
        have Q: "vm_ok q" "c_mode q = 0" using q(2) by (simp_all add: grown_def)
        have "from_page (a + ?r) (ucount n - unat ?r) q = Some (dma_get (umem ?s) (a + ?r) (ucount n - unat ?r))"
          using from_page_flat [OF Q q(4)] q(3) sp(1) n by simp
        moreover have "dma_get (umem ?s) a (ucount n) = dma_get (umem ?s) a (unat ?r) @ dma_get (umem ?s) (a + ?r) (ucount n - unat ?r)"
          using dma_get_append [of "umem ?s" a "unat ?r" "ucount n - unat ?r"] r by simp
        ultimately show ?thesis using long two leg leg2 start q(1,3) grown_trans [OF u(2) q(2)]
          by (simp add: uget_def Let_def)
      qed
    qed
  qed
qed

text \<open>C21: while there are as many free pages as data pages the running process cannot store to yet, a transfer
  between kernel and user memory of up to a page, or of a string, through page tables, page faults, copy on write and DMA to physical
  addresses does exactly what the routine does on one flat array of 64 kilobytes of which some pages are
  illegal: the same result, the same bytes, the same error number, and the memory of every other process
  (and, for a program with separate code pages, this one's code) as before.\<close>

theorem paged_transfers_refine:
  assumes "vm_ok m" "enough m" "c_mode m = 0" "length bs \<le> 8192" "ucount n \<le> 8192"
  shows "(\<exists>t. vuput bs a m = Some (fst (uput bs a (flat m)) = 0, t) \<and> flat t = snd (uput bs a (flat m)) \<and> vm_ok t \<and> others_same m t) \<and>
    (\<exists>t. vuget a n m = Some (fst (uget a n (flat m)) = 0, fst (snd (uget a n (flat m))), t) \<and>
      flat t = snd (snd (uget a n (flat m))) \<and> vm_ok t \<and> others_same m t) \<and>
    (\<exists>t. vugets a (ucount n) m = Some (fst (ugets a n (flat m)) = 0, fst (snd (ugets a n (flat m))), t) \<and>
      flat t = snd (snd (ugets a n (flat m))) \<and> vm_ok t \<and> others_same m t)"
proof -
  have "\<exists>t. vugets a (ucount n) m = Some (fst (ugets a n (flat m)) = 0, fst (snd (ugets a n (flat m))), t) \<and>
      flat t = snd (snd (ugets a n (flat m))) \<and> grown m t"
    using vugets_flat [OF assms(1-3), of a "ucount n"] by (auto simp: ugets_def Let_def split: prod.split)
  then show ?thesis using uput_flat [OF assms(1-4)] uget_flat [OF assms(1-3,5)] unfolding grown_def by blast
qed

lemma vm0_enough: "enough (vm0 P_RUNNING)"
proof -
  have p: "pgp i (vm0 P_RUNNING) = (if i = 0 then \<lparr>pg_addr = 0xF, pg_refs = 2, pg_age = 0\<rparr>
      else if i = 1 then \<lparr>pg_addr = 0x20, pg_refs = 0, pg_age = 0\<rparr>
      else if i = 2 then \<lparr>pg_addr = 0x40, pg_refs = 0, pg_age = 0\<rparr> else \<lparr>pg_addr = 0x60, pg_refs = 0, pg_age = 0\<rparr>)" if "i < 4" for i
    using that by (auto simp: pgp_def vm0_def less_Suc_eq numeral_eq_Suc)
  have "{i. i < 4 \<and> pg_refs (pgp i (vm0 P_RUNNING)) = 0} = {1, 2, 3}" by (auto simp: p split: if_splits)
  then have "left (vm0 P_RUNNING) = 3" by (simp add: left_def)
  moreover have "lack (vm0 P_RUNNING) \<le> card {0, 1, 7 :: nat}" unfolding lack_def by (rule card_mono) (auto simp: tab0_nth split: if_splits)
  ultimately show ?thesis by (simp add: enough_def)
qed

lemma paged_transfers_refine_witness:
  "\<exists>t. vuput (replicate 60 7) 8180 (vm0 P_RUNNING) = Some (True, t) \<and> flat t = snd (uput (replicate 60 7) 8180 (flat (vm0 P_RUNNING)))"
proof -
  have l: "legal (flat (vm0 P_RUNNING)) 8180" "legal (flat (vm0 P_RUNNING)) 8192"
    by (simp_all add: flat_legal page_no_def tab0_nth)
  then have "fst (uput (replicate 60 7) 8180 (flat (vm0 P_RUNNING))) = 0"
    by (simp add: uput_def Let_def page_no_def page_rest_def)
  then show ?thesis
    using paged_transfers_refine [OF vm0_ok vm0_enough, of "replicate 60 7" 60 8180] by (auto simp: vm0_def ucount_def)
qed

end
