(* ===== verification/Switching.thy ===== *)
theory Switching
  imports Paging Scheduling
begin

section \<open>The memories of the processes through fork and process switches\<close>

text \<open>
  The invariant \<open>sys_ok\<close> adds to the one of the page tables that every process that has pages has a user block of its
  own in a held buffer, which knows its process.
\<close>

subsection \<open>Process switch\<close>

lemma p_tab_upd:
  "length (ptab s) = PTABSIZE \<Longrightarrow> k < PTABSIZE \<Longrightarrow> procp x (upd_proc k f s) = (if x = k then f (procp k s) else procp x s)"
  by (simp add: procp_def upd_proc_def nth_list_update)

text \<open>The memories of the processes that hold pages are the same in both states.\<close>

definition same_memory :: "vm \<Rightarrow> vm \<Rightarrow> bool" where
  "same_memory m t \<longleftrightarrow> (\<forall>k < PTABSIZE. \<forall>j < 16. holds k (kern m) \<longrightarrow> holds k (kern t) \<and> sees k t j = sees k m j)"

text \<open>A state that differs only in which of the tables is loaded.\<close>

lemma retable:
  assumes ok: "store_ok m"
    and same: "pgtab t = pgtab m" "phys t = phys m"
    and k: "\<And>k. k < PTABSIZE \<Longrightarrow> holds k (kern t) = holds k (kern m)"
      "\<And>k. k < PTABSIZE \<Longrightarrow> holds k (kern m) \<Longrightarrow>
         ptable k t = ptable k m \<and> (p_bintype (procp k (kern t)) \<noteq> 0) = (p_bintype (procp k (kern m)) \<noteq> 0)"
  shows "store_ok t \<and> same_memory m t \<and> (\<forall>x. uses x t = uses x m)"
proof -
  have sl: "slots k t = slots k m" if "k < PTABSIZE" for k
    using k [OF that] by (auto simp: slots_def own_pages_def)
  have uses: "uses x t = uses x m" for x by (simp add: uses_def sl)
  have pg: "pgp x t = pgp x m" for x by (simp add: pgp_def same)
  have "tables_ok t" using ok k by (auto simp: store_ok_def tables_ok_def same)
  then have "store_ok t" using ok by (simp add: store_ok_def desc_ok_def frames_ok_def same uses pg)
  moreover have "sees j t = sees j m" if "j < PTABSIZE" "holds j (kern m)" for j
    using k(2) [OF that] by (intro ext) (simp add: sees_def pg same split: upg.split)
  ultimately show ?thesis using k(1) uses by (simp add: same_memory_def)
qed

lemma on_kern_frame [simp]:
  "pgtab (on_kern g m) = pgtab m" "phys (on_kern g m) = phys m" "mmu (on_kern g m) = mmu m" "u_page (on_kern g m) = u_page m"
  "ublk (on_kern g m) = ublk m" "kern (on_kern g m) = g (kern m)" "pgp i (on_kern g m) = pgp i m"
  "mmu_entry (on_kern g m) = mmu_entry m"
  by (simp_all add: on_kern_def pgp_def mmu_entry_def fun_eq_iff split: upg.split)

lemma ldmmu_kern: "length (mmu m) = 16 \<Longrightarrow> on_kern g (ldmmu m) = ldmmu (on_kern g m)"
  by (simp add: ldmmu_eq) (simp add: on_kern_def)

lemma swapin_law:
  assumes ok: "store_ok m" "length (mmu m) = 16" "length (ptab (kern m)) = PTABSIZE"
    and pp: "pp < PTABSIZE" "holds pp (kern m)" "p_ublk (procp pp (kern m)) = Some b" "u_ptab (b_data (ublk m b)) = pp"
    and saved: "\<And>k. k < PTABSIZE \<Longrightarrow> holds k (kern m) \<Longrightarrow> ptable k m = b_page (ublk m (the (p_ublk (procp k (kern m)))))"
  shows "\<exists>t f. swapin pp m = Some t \<and> vm_ok t \<and> same_memory m t \<and> u_ptab (kern t) = pp \<and> ublk t = ublk m \<and>
    kern t = (upd_proc pp (\<lambda>p. p\<lparr>p_priority := f, p_status := P_RUNNING\<rparr>) (u_fields (b_data (ublk m b)) (kern m)))\<lparr>runticks := 0\<rparr>"
proof -
  let ?u = "b_data (ublk m b)"
  define f where "f = (if p_ignored (procp pp (kern m)) \<noteq> 0xC then MAXINTER else MAXBACK2)"
  define s where "s = (upd_proc pp (\<lambda>p. p\<lparr>p_priority := f, p_status := P_RUNNING\<rparr>) (u_fields ?u (kern m)))\<lparr>runticks := 0\<rparr>"
  define v where "v = (load_udata (ublk m b) m)\<lparr>kern := s\<rparr>"
  have proc: "procp k s = (if k = pp then (procp pp (kern m))\<lparr>p_priority := f, p_status := P_RUNNING\<rparr> else procp k (kern m))" for k
    using pp(1) ok(3) by (simp add: s_def procp_def upd_proc_def u_fields_def nth_list_update)
  have hold: "holds k s = holds k (kern m)" for k using pp(2) by (simp add: holds_def proc status_defs)
  have u: "u_ptab s = pp" "length (ptab s) = PTABSIZE" using pp(4) ok(3) by (simp_all add: s_def upd_proc_def u_fields_def)
  have v: "kern v = s" "pgtab v = pgtab m" "phys v = phys m" "mmu v = mmu m" "u_page v = b_page (ublk m b)" "ublk v = ublk m"
    by (simp_all add: v_def load_udata_def)
  have tab: "ptable k v = ptable k m" if "k < PTABSIZE" "holds k (kern m)" for k
    using saved [OF that] pp(3) by (simp add: ptable_def [of _ v] u proc v)
  have R: "store_ok v" "same_memory m v" using retable [OF ok(1), of v] tab by (simp_all add: hold proc v)
  have "procs_ok (kern v)" using pp(1,2) u by (simp add: procs_ok_def hold v)
  note L = ldmmu_law [OF R(1) this, unfolded v(4), OF ok(2)]
  have "same_memory m (ldmmu v)" using R(2) L(2,3) by (simp add: same_memory_def)
  moreover have "swapin pp m = Some (ldmmu v)"
  proof -
    let ?p = "on_kern (upd_proc pp (\<lambda>p. p\<lparr>p_priority := f\<rparr>)) m"
    let ?w = "load_udata (ublk m b) ?p"
    let ?g = "\<lambda>s. (upd_proc pp (\<lambda>p. p\<lparr>p_status := P_RUNNING\<rparr>) s)\<lparr>runticks := 0\<rparr>"
    have len: "length (mmu ?w) = 16" using ok(2) by (simp add: load_udata_def on_kern_def)
    have 1: "on_kern (upd_proc pp (\<lambda>p. p\<lparr>p_priority := if p_ignored p \<noteq> 0xC then MAXINTER else MAXBACK2\<rparr>)) m = ?p"
      by (simp add: on_kern_def upd_proc_def f_def procp_def)
    have 2: "p_ublk (procp pp (upd_proc pp (\<lambda>p. p\<lparr>p_priority := f\<rparr>) (kern m))) = Some b"
      using pp(1,3) ok(3) by (simp add: p_tab_upd)
    have 4: "u_ptab (kern (ldmmu ?w)) = pp"
      using pp(4) by (simp add: ldmmu_eq [OF len]) (simp add: load_udata_def u_fields_def)
    have "?g (u_fields ?u (upd_proc pp (\<lambda>p. p\<lparr>p_priority := f\<rparr>) (kern m))) = s"
      using pp(1) ok(3) by (simp add: s_def u_fields_def upd_proc_def)
    then have "on_kern ?g ?w = v" by (simp add: on_kern_def load_udata_def v_def)
    then have 5: "on_kern ?g (ldmmu ?w) = ldmmu v" using ldmmu_kern [OF len, of ?g] by simp
    show ?thesis by (simp add: swapin_def 1 2 4 5 Let_def)
  qed
  ultimately show ?thesis using L u v s_def by (intro exI [of _ "ldmmu v"] exI [of _ f]) simp
qed

subsection \<open>The invariant of the system\<close>

definition own_blocks :: "kst \<Rightarrow> bool" where
  "own_blocks s \<longleftrightarrow>
     (\<forall>k < PTABSIZE. holds k s \<longrightarrow> (\<exists>b < NBUFS. p_ublk (procp k s) = Some b \<and> bf_busy (bufp b s))) \<and>
     (\<forall>j < PTABSIZE. \<forall>k < PTABSIZE. holds j s \<longrightarrow> holds k s \<longrightarrow> p_ublk (procp j s) = p_ublk (procp k s) \<longrightarrow> j = k)"

definition sys_ok :: "vm \<Rightarrow> bool" where
  "sys_ok m \<longleftrightarrow> vm_ok m \<and> own_blocks (kern m) \<and>
     (\<forall>k < PTABSIZE. holds k (kern m) \<longrightarrow> k \<noteq> u_ptab (kern m) \<longrightarrow> u_ptab (b_data (ublk m (the (p_ublk (procp k (kern m)))))) = k)"

lemma same_memory_trans: "same_memory m t \<Longrightarrow> same_memory t u \<Longrightarrow> same_memory m u"
  by (simp add: same_memory_def)

lemma own_blocks_cong:
  assumes "own_blocks s" "\<And>k. k < PTABSIZE \<Longrightarrow> holds k t = holds k s"
    "\<And>k. k < PTABSIZE \<Longrightarrow> holds k s \<Longrightarrow> p_ublk (procp k t) = p_ublk (procp k s)" "\<And>b. bufp b t = bufp b s"
  shows "own_blocks t"
  using assms unfolding own_blocks_def by simp

lemma retable_vm:
  assumes ok: "vm_ok m" and same: "pgtab t = pgtab m" "phys t = phys m" "mmu t = mmu m" "u_page t = u_page m"
    and procs: "procs_ok (kern t)"
    and k: "\<And>k. k < PTABSIZE \<Longrightarrow> holds k (kern t) = holds k (kern m)"
      "\<And>k. k < PTABSIZE \<Longrightarrow> holds k (kern m) \<Longrightarrow>
         ptable k t = ptable k m \<and> (p_bintype (procp k (kern t)) \<noteq> 0) = (p_bintype (procp k (kern m)) \<noteq> 0)"
  shows "vm_ok t \<and> same_memory m t"
proof -
  have st: "store_ok m" "mmu_ok m" using ok by (simp_all add: vm_ok_parts)
  note R = retable [OF st(1) same(1,2) k]
  have pg: "pgp x t = pgp x m" for x by (simp add: pgp_def same)
  have "entry_ok j t = entry_ok j m" for j using R by (simp add: entry_ok_def same pg split: upg.split)
  then show ?thesis using R st(2) procs by (simp add: vm_ok_parts mmu_ok_def same)
qed

lemma swrite_law:
  assumes ok: "sys_ok m"
  shows "\<exists>b. p_ublk (procp (u_ptab (kern m)) (kern m)) = Some b \<and>
    swrite m = Some (m\<lparr>ublk := (ublk m)(b := save_udata m)\<rparr>) \<and>
    (\<forall>k < PTABSIZE. holds k (kern m) \<longrightarrow> k \<noteq> u_ptab (kern m) \<longrightarrow> the (p_ublk (procp k (kern m))) \<noteq> b)"
proof -
  have c: "u_ptab (kern m) < PTABSIZE" "holds (u_ptab (kern m)) (kern m)" using ok vm_okD(8,9) by (auto simp: sys_ok_def)
  then obtain b where b: "p_ublk (procp (u_ptab (kern m)) (kern m)) = Some b" using ok by (auto simp: sys_ok_def own_blocks_def)
  have "the (p_ublk (procp k (kern m))) \<noteq> b" if k: "k < PTABSIZE" "holds k (kern m)" "k \<noteq> u_ptab (kern m)" for k
    using ok c k b unfolding sys_ok_def own_blocks_def by (metis option.sel)
  then show ?thesis using b by (simp add: swrite_def)
qed

text \<open>Saving the running process and loading another one.\<close>

definition switch_to :: "nat \<Rightarrow> vm \<Rightarrow> vm option" where
  "switch_to newp m = do { m \<leftarrow> swrite (on_kern (\<lambda>s. s\<lparr>u_usp := usp_reg s\<rparr>) (rdmmu m)); swapin newp m }"

lemma sys_ok_same:
  assumes ok: "sys_ok m" and t: "vm_ok t" "ublk t = ublk m" "ptab (kern t) = ptab (kern m)" "u_ptab (kern t) = u_ptab (kern m)"
    "bufpool (kern t) = bufpool (kern m)"
  shows "sys_ok t"
proof -
  have p: "procp k (kern t) = procp k (kern m)" "holds k (kern t) = holds k (kern m)" "bufp b (kern t) = bufp b (kern m)" for k b
    using t by (simp_all add: procp_def holds_def bufp_def)
  have "own_blocks (kern t)" by (rule own_blocks_cong [of "kern m"]) (use ok in \<open>simp_all add: p sys_ok_def\<close>)
  then show ?thesis using ok t by (simp add: sys_ok_def p)
qed

lemma switch_to_law:
  assumes ok: "sys_ok m" and p: "newp < PTABSIZE" "holds newp (kern m)" "newp \<noteq> u_ptab (kern m)"
  shows "\<exists>t. switch_to newp m = Some t \<and> sys_ok t \<and> same_memory m t \<and> u_ptab (kern t) = newp \<and>
    p_status (procp newp (kern t)) = P_RUNNING"
proof -
  let ?c = "u_ptab (kern m)"
  define v where "v = on_kern (\<lambda>s. s\<lparr>u_usp := usp_reg s\<rparr>) (rdmmu m)"
  have R: "re_addr m (rdmmu m)" using ok rdmmu_law by (simp add: sys_ok_def)
  have kv: "ptab (kern v) = ptab (kern m)" "u_ptab (kern v) = ?c" "bufpool (kern v) = bufpool (kern m)" "ublk v = ublk m"
    using R by (simp_all add: v_def re_addr_def)
  have pv: "procp k (kern v) = procp k (kern m)" "holds k (kern v) = holds k (kern m)" for k
    using kv by (simp_all add: procp_def holds_def)
  have pt: "ptable k v = ptable k (rdmmu m)" for k using R pv kv by (simp add: ptable_def re_addr_def v_def)
  have V: "vm_ok v" "same_memory (rdmmu m) v"
    using retable_vm [of "rdmmu m" v] R pv pt kv ok by (simp_all add: re_addr_def procs_ok_def sys_ok_def vm_ok_parts v_def)
  have mv: "same_memory m v" using V(2) R by (simp add: same_memory_def re_addr_def)
  have ov: "sys_ok v" using sys_ok_same [OF ok V(1)] kv by simp
  obtain b where b: "p_ublk (procp ?c (kern v)) = Some b" "swrite v = Some (v\<lparr>ublk := (ublk v)(b := save_udata v)\<rparr>)"
    "\<forall>k < PTABSIZE. holds k (kern v) \<longrightarrow> k \<noteq> ?c \<longrightarrow> the (p_ublk (procp k (kern v))) \<noteq> b"
    using swrite_law [OF ov] kv by auto
  let ?w = "v\<lparr>ublk := (ublk v)(b := save_udata v)\<rparr>"
  have pw: "ptable k ?w = ptable k v" if "k < PTABSIZE" "holds k (kern v)" for k
    using b(3) that kv by (auto simp: ptable_def)
  have W: "vm_ok ?w" "same_memory v ?w"
    using retable_vm [OF V(1), of ?w] pw vm_okD(1) [OF V(1)] by simp_all
  obtain n where n: "n < NBUFS" "p_ublk (procp newp (kern ?w)) = Some n" using ok p by (auto simp: sys_ok_def own_blocks_def pv)
  have nb: "n \<noteq> b" using b(3) p n(2) pv by auto
  have nn: "u_ptab (b_data (ublk ?w n)) = newp" using ov p n(2) nb pv kv by (auto simp: sys_ok_def)
  have saved: "ptable k ?w = b_page (ublk ?w (the (p_ublk (procp k (kern ?w)))))" if "k < PTABSIZE" "holds k (kern ?w)" for k
    using b(1) kv by (simp add: ptable_def save_udata_def)
  have "store_ok ?w" "length (mmu ?w) = 16" "length (ptab (kern ?w)) = PTABSIZE" "holds newp (kern ?w)"
    using W(1) p(2) pv by (simp_all add: vm_ok_parts mmu_ok_def procs_ok_def)
  from swapin_law [OF this(1-3) p(1) this(4) n(2) nn saved] obtain t f where
    t: "swapin newp ?w = Some t" "vm_ok t" "same_memory ?w t" "u_ptab (kern t) = newp" "ublk t = ublk ?w"
      "kern t = (upd_proc newp (\<lambda>p. p\<lparr>p_priority := f, p_status := P_RUNNING\<rparr>) (u_fields (b_data (ublk ?w n)) (kern ?w)))\<lparr>runticks := 0\<rparr>"
    by blast
  have proc: "procp k (kern t) = (if k = newp then (procp k (kern m))\<lparr>p_priority := f, p_status := P_RUNNING\<rparr> else procp k (kern m))" for k
    using p(1) ok kv by (simp add: t(6) procp_def upd_proc_def u_fields_def nth_list_update sys_ok_def vm_ok_parts procs_ok_def)
  have hold: "holds k (kern t) = holds k (kern m)" for k using p(2) by (simp add: holds_def proc status_defs)
  have "own_blocks (kern t)"
    by (rule own_blocks_cong [of "kern m"])
      (use ok hold kv in \<open>simp_all add: sys_ok_def proc, simp add: t(6) bufp_def upd_proc_def u_fields_def\<close>)
  moreover have "u_ptab (b_data (ublk t (the (p_ublk (procp k (kern t)))))) = k"
    if "k < PTABSIZE" "holds k (kern t)" "k \<noteq> newp" for k
  proof (cases "k = ?c")
    case True
    then show ?thesis using b(1) kv p(3) by (simp add: proc t(5) save_udata_def pv)
  next
    case False
    then show ?thesis using that b(3) ov kv by (simp add: proc t(5) sys_ok_def pv hold)
  qed
  ultimately have "sys_ok t" using t(2,4) by (simp add: sys_ok_def)
  moreover have "same_memory m t" using mv W(2) t(3) same_memory_trans by blast
  moreover have "switch_to newp m = Some t" using b(2) t(1) by (simp add: switch_to_def v_def)
  ultimately show ?thesis using t(4) by (simp add: proc)
qed

text \<open>C18: a process that gives up the processor without a pending signal is saved and the process the
  scheduler finds is resumed, such that the invariant holds again and every process, the stopped one
  included, still has the memory it had: all pages, data and code, have the same contents.\<close>

theorem switch_keeps_memory:
  assumes "sys_ok m" "p_pending (procp (u_ptab (kern m)) (kern m)) = 0" "sched_pp (kern m) < PTABSIZE"
    "k < PTABSIZE" "p_status (procp k (kern m)) = P_READY" "\<forall>j < PTABSIZE. p_status (procp j (kern m)) \<noteq> P_RUNNING"
  shows "\<exists>t. swapout m = Some t \<and> sys_ok t \<and> same_memory m t \<and>
    p_status (procp (u_ptab (kern t)) (kern m)) = P_READY \<and> p_status (procp (u_ptab (kern t)) (kern t)) = P_RUNNING"
proof (cases rule: getproc_first_ready [OF assms(3-6)])
  case (1 d s)
  define newp where "newp = turn (kern m) (Suc d)"
  have np: "newp < PTABSIZE" "p_status (procp newp (kern m)) = P_READY" using 1 by (simp_all add: newp_def turn_def)
  let ?m = "m\<lparr>kern := s\<rparr>"
  have s: "ptab s = ptab (kern m)" "u_ptab s = u_ptab (kern m)" "bufpool s = bufpool (kern m)"
    using 1(3) by (auto simp: only_idled_def)
  have p: "procp j s = procp j (kern m)" "holds j s = holds j (kern m)" for j using s by (simp_all add: procp_def holds_def)
  have M: "vm_ok ?m" "same_memory m ?m"
    using retable_vm [of m ?m] assms(1) s p by (simp_all add: sys_ok_def vm_ok_parts procs_ok_def ptable_def)
  have ok: "sys_ok ?m" using sys_ok_same [OF assms(1) M(1)] s by simp
  have run: "swapout m = (if newp = u_ptab s then Some (on_kern (\<lambda>s. (upd_proc (u_ptab s) (\<lambda>p. p\<lparr>p_status := P_RUNNING\<rparr>) s)\<lparr>runticks := 0\<rparr>) ?m)
      else switch_to newp ?m)"
    using assms(2) 1(2) by (simp add: swapout_def chksigs_def switch_to_def newp_def Let_def)
  show ?thesis
  proof (cases "newp = u_ptab s")
    case True
    define t where "t = on_kern (\<lambda>s. (upd_proc (u_ptab s) (\<lambda>p. p\<lparr>p_status := P_RUNNING\<rparr>) s)\<lparr>runticks := 0\<rparr>) ?m"
    have len: "length (ptab s) = PTABSIZE" using M(1) by (simp add: vm_ok_parts procs_ok_def)
    have proc: "procp j (kern t) = (if j = newp then (procp newp s)\<lparr>p_status := P_RUNNING\<rparr> else procp j s)" for j
      using True len np(1) by (simp add: t_def procp_def upd_proc_def nth_list_update)
    have hold: "holds j (kern t) = holds j s" for j using np(2) p by (simp add: holds_def proc status_defs)
    have ut: "u_ptab (kern t) = newp" using True by (simp add: t_def upd_proc_def)
    have f: "ublk t = ublk m" "u_page t = u_page m" "pgtab t = pgtab m" "phys t = phys m" "mmu t = mmu m"
      "length (ptab (kern t)) = PTABSIZE" "bufpool (kern t) = bufpool s"
      using len by (simp_all add: t_def upd_proc_def)
    have "procs_ok (kern t)" using M(1) hold True ut f by (simp add: vm_ok_parts procs_ok_def)
    moreover have "ptable j t = ptable j ?m" for j using True ut f by (simp add: ptable_def proc)
    ultimately have T: "vm_ok t" "same_memory ?m t"
      using retable_vm [OF M(1), of t] hold f by (simp_all add: proc)
    have "own_blocks (kern t)"
      by (rule own_blocks_cong [of s]) (use ok hold f in \<open>simp_all add: sys_ok_def proc bufp_def\<close>)
    then have "sys_ok t" using ok T(1) True ut hold f by (simp add: sys_ok_def proc)
    then show ?thesis using run True T(2) M(2) same_memory_trans np ut proc by (intro exI [of _ t]) (auto simp: p t_def)
  next
    case False
    have "holds newp (kern ?m)" using np(2) by (simp add: holds_def p status_defs)
    then show ?thesis
      using switch_to_law [OF ok np(1)] run False same_memory_trans [OF M(2)] np(2) by (auto simp: p)
  qed
qed

lemma vm0_sys_ok:
  assumes st: "st = P_RUNNING \<or> st = P_READY"
  shows "sys_ok (vm0 st)"
proof -
  have "own_blocks (two_tasks st)" unfolding own_blocks_def
  proof (intro conjI allI impI)
    fix k assume "k < PTABSIZE" "holds k (two_tasks st)"
    then show "\<exists>b < NBUFS. p_ublk (procp k (two_tasks st)) = Some b \<and> bf_busy (bufp b (two_tasks st))"
      using two_tasks_holds [of k st] st by (intro exI [of _ k]) (auto simp: two_tasks_proc two_tasks_frame less_Suc_eq numeral_eq_Suc)
  next
    fix j k assume "j < PTABSIZE" "k < PTABSIZE" "holds j (two_tasks st)" "holds k (two_tasks st)"
      "p_ublk (procp j (two_tasks st)) = p_ublk (procp k (two_tasks st))"
    then show "j = k" using two_tasks_holds [of j st] two_tasks_holds [of k st] st by (simp add: two_tasks_proc split: if_splits)
  qed
  moreover have "u_ptab (b_data (ublk (vm0 st) (the (p_ublk (procp k (two_tasks st)))))) = k"
    if "k < PTABSIZE" "holds k (two_tasks st)" for k
    using that two_tasks_holds [of k st] st by (auto simp: two_tasks_proc vm0_def less_Suc_eq numeral_eq_Suc)
  ultimately show ?thesis using vm0_ok [OF st] by (simp add: sys_ok_def)
qed

lemma switch_keeps_memory_witness: "\<exists>t. swapout (vm0 P_READY) = Some t \<and> sys_ok t \<and> same_memory (vm0 P_READY) t"
proof -
  have proc: "procp k (two_tasks P_READY) = (if k = 0 then init_proc\<lparr>p_status := P_READY, p_ublk := Some 0\<rparr>
      else if k = 1 then no_proc\<lparr>p_status := P_READY, p_pid := 2, p_ublk := Some 1\<rparr> else no_proc)" if "k < PTABSIZE" for k
    using that by (rule two_tasks_proc)
  have "\<forall>j < PTABSIZE. p_status (procp j (two_tasks P_READY)) \<noteq> P_RUNNING" 
  proof (intro allI impI)
    fix j assume "j < PTABSIZE"
    then have "p_status (procp j (two_tasks P_READY)) = P_READY \<or> p_status (procp j (two_tasks P_READY)) = P_EMPTY"
      by (simp add: proc no_proc_def)
    then show "p_status (procp j (two_tasks P_READY)) \<noteq> P_RUNNING" by (auto simp: P_READY_def P_EMPTY_def P_RUNNING_def)
  qed
  moreover have "p_pending (procp 0 (two_tasks P_READY)) = 0" by (simp add: proc init_proc_def no_proc_def)
  ultimately show ?thesis
    using switch_keeps_memory [of "vm0 P_READY" 1] vm0_sys_ok [of P_READY] by (auto simp: two_tasks_frame proc)
qed

end
