(* ===== verification/Forking.thy ===== *)
theory Forking
  imports Switching
begin

section \<open>Fork\<close>

text \<open>
  \<^verbatim>\<open>dofork\<close> from the allocation of the process table entry to the return into the child. The kernel part
  is \<^verbatim>\<open>ptab_alloc\<close> and \<^verbatim>\<open>newproc\<close>, the memory part the sharing of all pages.
\<close>

subsection \<open>The new process table entry\<close>

lemma new_pid_total:
  assumes "unat n \<le> 32001" "length tab \<le> PTABSIZE"
  shows "\<exists>p. new_pid tab n = Some p"
proof -
  define k where "k = (LEAST k. \<not> pid_taken tab ((bump_pid ^^ Suc k) n))"
  obtain k0 where "\<not> pid_taken tab ((bump_pid ^^ Suc k0) n)" using free_pid_exists [OF assms] by blast
  then have "\<not> pid_taken tab ((bump_pid ^^ Suc k) n)" unfolding k_def by (rule LeastI)
  moreover have "\<forall>j < k. pid_taken tab ((bump_pid ^^ Suc j) n)" unfolding k_def using not_less_Least by blast
  ultimately show ?thesis using new_pid_steps by blast
qed

lemma zerobuf_law:
  fixes s :: kst
  assumes ok: "pool_ok X s" and room: "\<exists>j < 38. \<not> bf_busy (bufp j s)"
  shows "\<exists>b t. zerobuf s = Some (b, t) \<and> b < 38 \<and> \<not> bf_busy (bufp b s) \<and> same_rest s t \<and>
    (\<forall>j. bf_busy (bufp j t) \<longleftrightarrow> j = b \<or> bf_busy (bufp j s))"
proof -
  obtain b t where t: "freebuf s = Some (b, t)" "b < 38" "\<not> bf_busy (bufp b s)" "pool_ok X t" "same_rest s t"
    "\<forall>j. bufp j t = (if j = b then mark_clean (bufp b s) else bufp j s)"
    using freebuf_law [OF ok room] by blast
  have len: "length (bufpool t) = 38" using pool_okD(1) [OF t(4)] .
  let ?u = "stamp b (upd_buf b (\<lambda>bp. bp\<lparr>bf_dev := - 1\<rparr>) t)"
  have "zerobuf s = Some (b, set_data b (replicate 512 0) ?u)" by (simp add: zerobuf_def tmpbuf_def t(1))
  moreover have "same_rest s (set_data b (replicate 512 0) ?u)"
  proof -
    have "same_rest t ?u" by (simp add: stamp_eq) (rule same_rest_trans [OF same_rest_upd(1) same_rest_upd(1)])
    then show ?thesis using t(5) same_rest_upd(2) same_rest_trans by blast
  qed
  moreover have "bf_busy (bufp j (set_data b (replicate 512 0) ?u)) \<longleftrightarrow> j = b \<or> bf_busy (bufp j s)" for j
    using t(2,6) len by (simp add: set_data_def stamp_eq bufp_upd)
  ultimately show ?thesis using t(2,3) by blast
qed

lemma ptab_fill_law:
  assumes pid: "unat (nextpid s) \<le> 32001" and len: "length (ptab s) = PTABSIZE" "k < PTABSIZE"
    and ok: "pool_ok X s" "\<exists>j < 38. \<not> bf_busy (bufp j s)"
  shows "\<exists>t b n. ptab_fill k s = Some t \<and> b < 38 \<and> \<not> bf_busy (bufp b s) \<and>
    (\<forall>j. bf_busy (bufp j t) \<longleftrightarrow> j = b \<or> bf_busy (bufp j s)) \<and>
    ptab t = (ptab s)[k := empty_proc\<lparr>p_pid := n, p_status := P_FORKING, p_ublk := Some b\<rparr>] \<and>
    u_ptab t = u_ptab s \<and> u_cwd t = u_cwd s \<and> u_files t = u_files s \<and> i_tab t = i_tab s"
proof -
  obtain n where n: "new_pid (ptab s) (nextpid s) = Some n" using new_pid_total [OF pid, of "ptab s"] len by auto
  let ?u = "upd_proc k (\<lambda>_. empty_proc\<lparr>p_pid := n, p_status := P_FORKING\<rparr>) (s\<lparr>nextpid := n\<rparr>)"
  have same: "same_pool s ?u" by (simp add: same_pool_def upd_proc_def)
  have bu: "bufp j ?u = bufp j s" for j by (simp add: bufp_def upd_proc_def)
  have "pool_ok X ?u" using ok(1) by (simp add: pool_ok_def busyset_def distinct_names_def buf_inv_def bu hd_blk_def) (simp add: upd_proc_def)
  then obtain b t where t: "zerobuf ?u = Some (b, t)" "b < 38" "\<not> bf_busy (bufp b ?u)" "same_rest ?u t"
    "\<forall>j. bf_busy (bufp j t) \<longleftrightarrow> j = b \<or> bf_busy (bufp j ?u)"
    using zerobuf_law [of X ?u] ok(2) bu by auto
  note R = same_rest_kst [OF t(4)]
  let ?t = "upd_proc k (\<lambda>p. p\<lparr>p_ublk := Some b\<rparr>) t"
  have "ptab_fill k s = Some ?t" by (simp add: ptab_fill_def n t(1))
  moreover have "bufp j ?t = bufp j t" for j by (simp add: bufp_def upd_proc_def)
  moreover have "ptab ?t = (ptab s)[k := empty_proc\<lparr>p_pid := n, p_status := P_FORKING, p_ublk := Some b\<rparr>]"
    using len by (simp add: upd_proc_def R)
  moreover have "u_ptab ?t = u_ptab s" "u_cwd ?t = u_cwd s" "u_files ?t = u_files s" "i_tab ?t = i_tab s"
    by (simp_all add: upd_proc_def R)
  ultimately show ?thesis using t bu by (intro exI [of _ ?t] exI [of _ b] exI [of _ n]) simp
qed

subsection \<open>Entering the child\<close>

lemma share_files_law:
  assumes "\<forall>j < 22. u_files s ! j AND 0x80 \<noteq> 0 \<or> unat (u_files s ! j) < OFTSIZE"
  shows "\<exists>t. share_files s = Some t \<and> ptab t = ptab s \<and> u_ptab t = u_ptab s \<and> bufpool t = bufpool s"
proof -
  let ?f = "\<lambda>j s. let f = u_files s ! j
                  in if f AND 0x80 \<noteq> 0 then Some s
                     else if unat f \<ge> OFTSIZE then wild
                     else Some (upd_oft (unat f) (\<lambda>fl. fl\<lparr>o_refs := o_refs fl + 1\<rparr>) s)"
  let ?I = "\<lambda>t. u_files t = u_files s \<and> ptab t = ptab s \<and> u_ptab t = u_ptab s \<and> bufpool t = bufpool s"
  have "\<exists>t. foldM ?f [0..<UFTSIZE] s = Some t \<and> ?I t"
  proof (rule foldM_total)
    fix j and t :: kst assume "j \<in> set [0..<UFTSIZE]" "?I t"
    then show "\<exists>u. ?f j t = Some u \<and> ?I u" using assms [rule_format, of j] by (auto simp: Let_def upd_oft_def)
  qed simp
  then show ?thesis by (auto simp: share_files_def)
qed

definition can_fork :: "kst \<Rightarrow> bool" where
  "can_fork s \<longleftrightarrow> p_tty (procp (u_ptab s) s) \<noteq> 0 \<and>
     (\<forall>j < 22. u_files s ! j AND 0x80 \<noteq> 0 \<or> unat (u_files s ! j) < OFTSIZE) \<and>
     (\<forall>i. u_cwd s = Some i \<longrightarrow> i < length (i_tab s) \<and> c_refs (inop i s) + 1 \<noteq> 2 * of_nat ITABSIZE)"

lemma newproc_law:
  assumes ok: "can_fork s" and k: "length (ptab s) = PTABSIZE" "k < PTABSIZE"
  shows "\<exists>t p. newproc k s = Some t \<and> ptab t = (ptab s)[k := p] \<and> p_status p = P_RUNNING \<and>
    p_ublk p = p_ublk (procp k s) \<and> p_bintype p = p_bintype (procp k s) \<and> u_ptab t = k \<and> bufpool t = bufpool s"
proof -
  let ?par = "procp (u_ptab s) s" and ?z = "\<lparr>t_time = 0, t_date = 0\<rparr> :: time_t"
  let ?f = "\<lambda>p. p\<lparr>p_swap := of_nat k * 128 + 1, p_status := P_RUNNING, p_pptr := Some (u_ptab s),
                 p_ignored := p_ignored ?par, p_tty := p_tty ?par, p_uid := p_uid ?par\<rparr>"
  define u where "u = (upd_proc k ?f s)\<lparr>u_ptab := k, u_utime := ?z, u_stime := ?z, u_cutime := ?z, u_cstime := ?z,
    u_time := rdtime (upd_proc k ?f s)\<rparr>"
  have u: "ptab u = (ptab s)[k := ?f (procp k s)]" "u_ptab u = k" "bufpool u = bufpool s" "u_cwd u = u_cwd s"
    "u_files u = u_files s" "i_tab u = i_tab s"
    by (simp_all add: u_def upd_proc_def procp_def)
  obtain v where v: "(case u_cwd u of None \<Rightarrow> Some u | Some c \<Rightarrow> i_ref c u) = Some v" "ptab v = ptab u" "u_ptab v = u_ptab u"
    "bufpool v = bufpool u" "u_files v = u_files u"
  proof (cases "u_cwd s")
    case (Some i)
    let ?v = "upd_ino i (\<lambda>c. c\<lparr>c_refs := c_refs c + 1\<rparr>) u"
    have "i_ref i u = Some ?v"
      using ok Some u(6) by (simp add: can_fork_def i_ref_def Let_def inop_def upd_ino_def)
    then show thesis using that [of ?v] Some u(4) by (simp add: upd_ino_def)
  qed (use that u(4) in simp)
  let ?w = "upd_proc k (\<lambda>p. p\<lparr>p_priority := MAXTICKS\<rparr>) (set_error NOERR (v\<lparr>u_cursig := 0\<rparr>))"
  obtain t where t: "share_files ?w = Some t" "ptab t = ptab ?w" "u_ptab t = u_ptab ?w" "bufpool t = bufpool ?w"
    using share_files_law [of ?w] ok v(5) u(5) by (auto simp: can_fork_def upd_proc_def set_error_def)
  have tty: "p_tty ?par \<noteq> 0" using ok by (simp add: can_fork_def)
  have "newproc k s = Some t"
    using tty v(1) t(1) unfolding u_def by (simp add: newproc_def Let_def)
  moreover have "ptab t = (ptab s)[k := (?f (procp k s))\<lparr>p_priority := MAXTICKS\<rparr>]"
    using k u v t(2) by (simp add: upd_proc_def set_error_def)
  ultimately show ?thesis using t u v by (intro exI [of _ t] exI) (auto simp: upd_proc_def set_error_def)
qed

subsection \<open>Sharing the pages\<close>

lemma count_page_le:
  assumes "table_ok n two tab"
  shows "count_list (take l tab) (Page x) \<le> 2"
proof (cases "\<exists>j < 16. tab ! j = Page x")
  case True
  then obtain i where i: "i < 16" "tab ! i = Page x" by blast
  have len: "length tab = 16" using assms by (simp add: table_ok_def)
  have "{j. j < length (take l tab) \<and> take l tab ! j = Page x} \<subseteq> {i, twin i}"
  proof
    fix j assume "j \<in> {j. j < length (take l tab) \<and> take l tab ! j = Page x}"
    then have j: "j < 16" "tab ! j = Page x" using len by auto
    then have "j mod 8 = i mod 8" using assms i unfolding table_ok_def by blast
    then show "j \<in> {i, twin i}" using same_mod_8 [OF j(1) i(1)] by blast
  qed
  then have "count_list (take l tab) (Page x) \<le> card {i, twin i}" unfolding count_list_positions by (rule card_mono [rotated]) simp
  also have "card {i, twin i} \<le> 2" by (simp add: card_insert_if)
  finally show ?thesis .
next
  case False
  then have "Page x \<notin> set (take l tab)" using assms by (auto simp: table_ok_def in_set_conv_nth)
  then show ?thesis by (simp add: count_list_0_iff)
qed

lemma uses_bound:
  assumes "tables_ok m"
  shows "uses x m \<le> 60"
proof -
  have "count_list (slots k m) (Page x) \<le> 2" if "k < PTABSIZE" for k
    using tables_okD [OF assms that] count_page_le by (auto simp: slots_def)
  then have "uses x m \<le> card {..<PTABSIZE} * 2" 
    using sum_bounded_above [of "{..<PTABSIZE}" "\<lambda>k. count_list (slots k m) (Page x)" 2] by (simp add: uses_def)
  then show ?thesis by simp
qed

definition counted :: "nat \<Rightarrow> vm \<Rightarrow> vm \<Rightarrow> bool" where
  "counted n m t \<longleftrightarrow> kern t = kern m \<and> ublk t = ublk m \<and> u_page t = u_page m \<and> mmu t = mmu m \<and> phys t = phys m \<and>
     length (pgtab t) = length (pgtab m) \<and>
     (\<forall>x < length (pgtab m).
        pg_refs (pgp x t) = pg_refs (pgp x m) + of_nat (count_list (take n (u_page m)) (Page x)) \<and>
        pg_addr (pgp x t) = (if Page x \<in> set (take n (u_page m)) then pg_addr (pgp x m) OR 5 else pg_addr (pgp x m)))"

lemma share_pages_law:
  assumes len: "length (u_page m) = 16" and tab: "\<And>j i. j < 16 \<Longrightarrow> u_page m ! j = Page i \<Longrightarrow> i < length (pgtab m)"
  shows "counted 16 m (share_pages False m)"
proof -
  have "n \<le> 16 \<Longrightarrow> counted n m (fold (\<lambda>j m. share_page False j (u_page m ! j) m) [0..<n] m)" for n
  proof (induction n)
    case 0
    then show ?case by (simp add: counted_def)
  next
    case (Suc n)
    let ?u = "fold (\<lambda>j m. share_page False j (u_page m ! j) m) [0..<n] m"
    have u: "counted n m ?u" and n: "n < 16" using Suc by auto
    have tk: "take (Suc n) (u_page m) = take n (u_page m) @ [u_page m ! n]" using n len by (simp add: take_Suc_conv_app_nth)
    show ?case
    proof (cases "u_page m ! n")
      case (Page i)
      have "i < length (pgtab ?u)" using tab [OF n Page] u by (simp add: counted_def)
      then have pg: "pgp x (upd_pg i (or_addr 5) (pg_realloc i ?u)) =
          (if x = i then (pgp i ?u)\<lparr>pg_addr := pg_addr (pgp i ?u) OR 5, pg_refs := pg_refs (pgp i ?u) + 1\<rparr> else pgp x ?u)" for x
        by (simp add: pgp_upd pg_realloc_def or_addr_def)
      have "share_page False n (u_page ?u ! n) ?u = upd_pg i (or_addr 5) (pg_realloc i ?u)"
        using u Page by (simp add: share_page_def counted_def)
      then show ?thesis using u tab [OF n Page] Page
        by (simp add: counted_def tk pg or.assoc) (simp add: pg_realloc_def)
    qed (use u in \<open>simp_all add: counted_def share_page_def tk\<close>)
  qed
  then show ?thesis by (simp add: share_pages_def)
qed

lemma rdmmu_other: "rdmmu (m\<lparr>kern := s, ublk := u\<rparr>) = (rdmmu m)\<lparr>kern := s, ublk := u\<rparr>"
proof -
  let ?f = "\<lambda>j m. case u_page m ! j of Page i \<Rightarrow> upd_pg i (\<lambda>pg. pg\<lparr>pg_addr := getmmu j m\<rparr>) m | _ \<Rightarrow> m"
  let ?h = "\<lambda>m. m\<lparr>kern := s, ublk := u\<rparr>"
  have "?h \<circ> fold ?f [0..<16] = fold ?f [0..<16] \<circ> ?h"
    by (rule fold_commute) (auto simp: fun_eq_iff upd_pg_def getmmu_def split: upg.split)
  from fun_cong [OF this, of m] show ?thesis by (simp add: rdmmu_def)
qed

subsection \<open>Parent and child\<close>

text \<open>What the kernel part of \<^verbatim>\<open>dofork\<close> does to the process table and the user blocks.\<close>

definition split_off :: "nat \<Rightarrow> nat \<Rightarrow> vm \<Rightarrow> vm \<Rightarrow> bool" where
  "split_off c b m t \<longleftrightarrow>
     (let s = kern m; s' = kern t; me = u_ptab s
      in u_ptab s' = c \<and> length (ptab s') = PTABSIZE \<and> holds c s' \<and> p_bintype (procp c s') = 0 \<and> p_ublk (procp c s') = Some b \<and>
         b < NBUFS \<and> \<not> bf_busy (bufp b s) \<and> (\<forall>j. bf_busy (bufp j s') \<longleftrightarrow> j = b \<or> bf_busy (bufp j s)) \<and>
         (\<forall>k < PTABSIZE. k \<noteq> c \<longrightarrow> holds k s' = holds k s \<and> p_bintype (procp k s') = p_bintype (procp k s) \<and>
                                p_ublk (procp k s') = p_ublk (procp k s)) \<and>
         (let u = ublk t (the (p_ublk (procp me s))) in b_page u = u_page m \<and> u_ptab (b_data u) = me) \<and>
         (\<forall>k < PTABSIZE. holds k s \<longrightarrow> k \<noteq> me \<longrightarrow> ublk t (the (p_ublk (procp k s))) = ublk m (the (p_ublk (procp k s)))))"

lemma split_off_tables:
  assumes ok: "sys_ok m" and c: "c < PTABSIZE" "\<not> holds c (kern m)" and t: "split_off c b m t" "u_page t = u_page m"
  shows "\<And>k. k < PTABSIZE \<Longrightarrow> holds k (kern m) \<Longrightarrow> ptable k t = ptable k m" "ptable c t = u_page m"
    "uses x t = uses x m + count_list (u_page m) (Page x)" "own_blocks (kern t)"
proof -
  let ?me = "u_ptab (kern m)"
  note T = t(1) [unfolded split_off_def Let_def]
  have me: "?me < PTABSIZE" "holds ?me (kern m)" "length (u_page m) = 16" using ok vm_okD by (simp_all add: sys_ok_def)
  have mc: "?me \<noteq> c" using me(2) c(2) by auto
  show tab: "ptable k t = ptable k m" if k: "k < PTABSIZE" "holds k (kern m)" for k
  proof -
    have "k \<noteq> c" using k c by auto
    then show ?thesis using T k mc me by (cases "k = ?me") (simp_all add: ptable_def)
  qed
  show tc: "ptable c t = u_page m" using T t(2) by (simp add: ptable_def)
  have sl: "slots k t = slots k m" if "k < PTABSIZE" "k \<noteq> c" for k
    using T that tab [OF that(1)] by (simp add: slots_def own_pages_def)
  have "slots c t = u_page m" "slots c m = []" using T tc c me(3) by (simp_all add: slots_def own_pages_def)
  then show "uses x t = uses x m + count_list (u_page m) (Page x)"
    using uses_split [OF c(1), of x t] uses_split [OF c(1), of x m] sl by simp
  have old: "\<exists>b' < NBUFS. p_ublk (procp k (kern m)) = Some b' \<and> bf_busy (bufp b' (kern m)) \<and> b' \<noteq> b"
    if "k < PTABSIZE" "holds k (kern m)" for k
    using ok that T unfolding sys_ok_def own_blocks_def by blast
  have old2: "j = k" if "j < PTABSIZE" "k < PTABSIZE" "holds j (kern m)" "holds k (kern m)"
    "p_ublk (procp j (kern m)) = p_ublk (procp k (kern m))" for j k
    using ok that unfolding sys_ok_def own_blocks_def by blast
  have new: "p_ublk (procp k (kern t)) = p_ublk (procp k (kern m)) \<and> holds k (kern t) = holds k (kern m)" if "k < PTABSIZE" "k \<noteq> c" for k
    using T that by blast
  show "own_blocks (kern t)" unfolding own_blocks_def
  proof (intro conjI allI impI)
    fix k assume k: "k < PTABSIZE" "holds k (kern t)"
    show "\<exists>b < NBUFS. p_ublk (procp k (kern t)) = Some b \<and> bf_busy (bufp b (kern t))"
      using T old [OF k(1)] new [OF k(1)] k by (cases "k = c") auto
  next
    fix j k assume jk: "j < PTABSIZE" "k < PTABSIZE" "holds j (kern t)" "holds k (kern t)" "p_ublk (procp j (kern t)) = p_ublk (procp k (kern t))"
    show "j = k"
    proof (rule ccontr)
      assume ne: "j \<noteq> k"
      have cb: "p_ublk (procp c (kern t)) = Some b" using T by blast
      show False using ne jk cb new [of j] new [of k] old [of j] old [of k] old2 [of j k]
        by (cases "j = c"; cases "k = c") auto
    qed
  qed
qed

lemma fork_memory:
  assumes ok: "sys_ok m" and c: "c < PTABSIZE" "\<not> holds c (kern m)" and t: "split_off c b m t" "u_page t = u_page m"
    and pages: "phys t = phys m" "length (pgtab t) = length (pgtab m)" "mmu t = map (\<lambda>j. mmu_entry t (u_page t ! j)) [0..<16]"
    and desc: "\<And>x. x < length (pgtab m) \<Longrightarrow>
        pg_refs (pgp x t) = pg_refs (pgp x m) + of_nat (count_list (u_page m) (Page x)) \<and>
        pg_addr (pgp x t) = (if Page x \<in> set (u_page m) then pg_addr (pgp x m) OR 5 else pg_addr (pgp x m))"
  shows "sys_ok t \<and> same_memory m t \<and> (\<forall>j < 16. sees c t j = sees (u_ptab (kern m)) m j)"
proof -
  let ?me = "u_ptab (kern m)"
  note T = t(1) [unfolded split_off_def Let_def] and S = split_off_tables [OF ok c t]
  have vm: "vm_ok m" using ok by (simp add: sys_ok_def)
  note D = vm_okD [OF vm]
  have pm: "ptable ?me m = u_page m" by (simp add: ptable_def)
  have fr: "page_frame (pg_addr (pgp x t)) = page_frame (pg_addr (pgp x m))" if "x < length (pgtab m)" for x
    using desc [OF that] by (simp add: frame_bits)
  have "desc_ok x t" if x: "x < length (pgtab m)" for x
  proof -
    let ?n = "count_list (u_page m) (Page x)"
    have "?n \<le> 2" using count_page_le [OF D(10), of 16 x] D(6) by simp
    then have "unat (pg_refs (pgp x m)) + ?n < 256" using D(3) [OF x] uses_bound [OF D(2), of x] by (simp add: desc_ok_def Let_def)
    then have "unat (pg_refs (pgp x m) + of_nat ?n) = unat (pg_refs (pgp x m)) + ?n"
      by (simp add: unat_add_lem [THEN iffD1] unsigned_of_nat take_bit_nat_eq_self)
    then have refs: "unat (pg_refs (pgp x t)) = uses x t" using desc [OF x] D(3) [OF x] S(3) [of x] by (simp add: desc_ok_def Let_def)
    have "Page x \<in> set (u_page m) \<Longrightarrow> uses x m > 0"
    proof -
      assume "Page x \<in> set (u_page m)"
      then obtain j where "j < 16" "u_page m ! j = Page x" using D(6) by (auto simp: in_set_conv_nth)
      then show "uses x m > 0" using cur_page(2) [OF vm] by fastforce
    qed
    moreover have "?n = 0" if "Page x \<notin> set (u_page m)" using that by (simp add: count_list_0_iff)
    ultimately show ?thesis using refs desc [OF x] D(3) [OF x] S(3) [of x]
      by (cases "Page x \<in> set (u_page m)") (simp_all add: desc_ok_def Let_def valid_bits)
  qed
  moreover have "tables_ok t" unfolding tables_ok_def
  proof (intro allI impI)
    fix k assume k: "k < PTABSIZE" "holds k (kern t)"
    have one: "table_ok n two tab \<Longrightarrow> table_ok n False tab" for n two tab unfolding table_ok_def by blast
    show "table_ok (length (pgtab t)) (p_bintype (procp k (kern t)) \<noteq> 0) (ptable k t)"
    proof (cases "k = c")
      case True
      then show ?thesis using T S(2) one [OF D(10)] pages(2) by simp
    next
      case False
      then have "holds k (kern m)" "p_bintype (procp k (kern t)) = p_bintype (procp k (kern m))" using T k by blast+
      then show ?thesis using S(1) [OF k(1)] tables_okD [OF D(2) k(1)] pages(2) by simp
    qed
  qed
  moreover have "frames_ok t" using D(4) fr by (simp add: frames_ok_def pages(2) inj_on_def)
  ultimately have st: "store_ok t" using pages(2) by (simp add: store_ok_def)
  have pr: "procs_ok (kern t)" using T c(1) by (simp add: procs_ok_def)
  have len: "length (mmu t) = 16" by (simp add: pages(3))
  have "ldmmu t = t" using ldmmu_eq [OF len] pages(3) by simp
  then have "vm_ok t" using ldmmu_law(1) [OF st pr len] by simp
  moreover have "u_ptab (b_data (ublk t (the (p_ublk (procp k (kern t)))))) = k" if "k < PTABSIZE" "holds k (kern t)" "k \<noteq> c" for k
  proof -
    have k: "holds k (kern m)" "p_ublk (procp k (kern t)) = p_ublk (procp k (kern m))" using T that by blast+
    show ?thesis
    proof (cases "k = ?me")
      case False
      then have "u_ptab (b_data (ublk m (the (p_ublk (procp k (kern m)))))) = k" using ok that(1) k(1) by (simp add: sys_ok_def)
      then show ?thesis using T that(1) k False by simp
    qed (use T k in simp)
  qed
  moreover have "u_ptab (kern t) = c" using T by blast
  ultimately have "sys_ok t" using S(4) by (simp add: sys_ok_def)
  moreover have see: "sees k t j = sees k' m j"
    if "ptable k t = ptable k' m" "k' < PTABSIZE" "holds k' (kern m)" "j < 16" for k k' j
  proof -
    have "x < length (pgtab m)" if "ptable k' m ! j = Page x" for x
      using table_okD(2) [OF tables_okD [OF D(2)] _ that] \<open>k' < PTABSIZE\<close> \<open>holds k' (kern m)\<close> \<open>j < 16\<close> by simp
    then show ?thesis using that(1) fr by (intro ext) (simp add: sees_def pages(1) split: upg.split)
  qed
  moreover have "holds k (kern t)" if "k < PTABSIZE" "holds k (kern m)" for k using T that c(2) by (cases "k = c") auto
  ultimately show ?thesis using S(1,2) D(8,9) pm by (simp add: same_memory_def)
qed

lemma ptab_slot_empty:
  assumes "e < PTABSIZE" "p_status (procp e (kern m)) = P_EMPTY"
  shows "\<exists>c < PTABSIZE. p_status (procp c (kern m)) = P_EMPTY \<and> ptab_slot_pages m = Some (Some c, m)"
proof (cases "scan (\<lambda>k. p_status (procp k (kern m)) = P_EMPTY) 0 PTABSIZE")
  case None
  then show ?thesis using assms by (auto simp: scan_None_iff)
next
  case (Some c)
  have "ptab_slot_pages m = Some (Some c, m)" by (subst ptab_slot_pages.simps) (simp add: Some)
  then show ?thesis using Some by (auto simp: scan_Some_iff)
qed

text \<open>The state after the allocation of the child's entry.\<close>

definition alloced :: "nat \<Rightarrow> nat \<Rightarrow> u16 \<Rightarrow> kst \<Rightarrow> kst \<Rightarrow> bool" where
  "alloced c b n s t \<longleftrightarrow> b < 38 \<and> \<not> bf_busy (bufp b s) \<and> (\<forall>j. bf_busy (bufp j t) \<longleftrightarrow> j = b \<or> bf_busy (bufp j s)) \<and>
     (\<forall>k. procp k t = (if k = c then empty_proc\<lparr>p_pid := n, p_status := P_FORKING, p_ublk := Some b\<rparr> else procp k s)) \<and>
     length (ptab t) = PTABSIZE \<and> u_ptab t = u_ptab s \<and> u_cwd t = u_cwd s \<and> u_files t = u_files s \<and> i_tab t = i_tab s"

lemma ptab_alloc_law:
  assumes "length (ptab (kern m)) = PTABSIZE" "unat (nextpid (kern m)) \<le> 32001"
    and "e < PTABSIZE" "p_status (procp e (kern m)) = P_EMPTY"
    and "pool_ok X (kern m)" "j < 38" "\<not> bf_busy (bufp j (kern m))"
  obtains c s b n where "c < PTABSIZE" "\<not> holds c (kern m)" "alloced c b n (kern m) s"
    "ptab_alloc_pages m = Some (Some c, m\<lparr>kern := s, ublk := (ublk m)(b := (ublk m b)\<lparr>b_page := replicate 16 NOPAGE\<rparr>)\<rparr>)"
proof -
  obtain c where c: "c < PTABSIZE" "p_status (procp c (kern m)) = P_EMPTY" "ptab_slot_pages m = Some (Some c, m)"
    using ptab_slot_empty [OF assms(3,4)] by blast
  obtain s b n where s: "ptab_fill c (kern m) = Some s" "b < 38" "\<not> bf_busy (bufp b (kern m))"
    "\<forall>j. bf_busy (bufp j s) \<longleftrightarrow> j = b \<or> bf_busy (bufp j (kern m))"
    "ptab s = (ptab (kern m))[c := empty_proc\<lparr>p_pid := n, p_status := P_FORKING, p_ublk := Some b\<rparr>]"
    "u_ptab s = u_ptab (kern m)" "u_cwd s = u_cwd (kern m)" "u_files s = u_files (kern m)" "i_tab s = i_tab (kern m)"
    using ptab_fill_law [OF assms(2,1) c(1) assms(5)] assms(6,7) by blast
  have ps: "procp k s = (if k = c then empty_proc\<lparr>p_pid := n, p_status := P_FORKING, p_ublk := Some b\<rparr> else procp k (kern m))" for k
    using s(5) assms(1) c(1) by (simp add: procp_def nth_list_update)
  then have "alloced c b n (kern m) s" using s assms(1) by (simp add: alloced_def)
  moreover have "ptab_alloc_pages m = Some (Some c, m\<lparr>kern := s, ublk := (ublk m)(b := (ublk m b)\<lparr>b_page := replicate 16 NOPAGE\<rparr>)\<rparr>)"
    by (simp add: ptab_alloc_pages_def c(3) s(1) ps)
  moreover have "\<not> holds c (kern m)" using c(2) by (simp add: holds_def)
  ultimately show thesis using that c(1) by blast
qed

lemma shared_pages:
  assumes vm: "vm_ok m" and R: "re_addr m r"
    and h: "h = share_pages False (r\<lparr>kern := s, ublk := u\<rparr>)"
  shows "kern h = s" "ublk h = u" "u_page h = u_page m" "mmu h = mmu m" "phys h = phys r" "length (pgtab h) = length (pgtab r)"
    "\<And>x. x < length (pgtab r) \<Longrightarrow> pg_refs (pgp x h) = pg_refs (pgp x r) + of_nat (count_list (u_page m) (Page x)) \<and>
       pg_addr (pgp x h) = (if Page x \<in> set (u_page m) then pg_addr (pgp x r) OR 5 else pg_addr (pgp x r))"
proof -
  note D = vm_okD [OF vm]
  have "counted 16 (r\<lparr>kern := s, ublk := u\<rparr>) h" unfolding h
  proof (rule share_pages_law)
    show "length (u_page (r\<lparr>kern := s, ublk := u\<rparr>)) = 16" using R D(6) by (simp add: re_addr_def)
    show "i < length (pgtab (r\<lparr>kern := s, ublk := u\<rparr>))" if "j < 16" "u_page (r\<lparr>kern := s, ublk := u\<rparr>) ! j = Page i" for j i
      using R table_okD(2) [OF D(10) that(1)] that(2) by (simp add: re_addr_def)
  qed
  then show "kern h = s" "ublk h = u" "u_page h = u_page m" "mmu h = mmu m" "phys h = phys r" "length (pgtab h) = length (pgtab r)"
    "\<And>x. x < length (pgtab r) \<Longrightarrow> pg_refs (pgp x h) = pg_refs (pgp x r) + of_nat (count_list (u_page m) (Page x)) \<and>
       pg_addr (pgp x h) = (if Page x \<in> set (u_page m) then pg_addr (pgp x r) OR 5 else pg_addr (pgp x r))"
    using R D(6) by (simp_all add: counted_def re_addr_def pgp_def [of _ "r\<lparr>kern := s, ublk := u\<rparr>"], simp add: pgp_def)
qed

text \<open>C4: a fork that finds an unused entry of the process table succeeds: it returns 0 in the child, which is the
  running process now, has a number of its own and the same memory as the parent had, page by page; every
  other process, the parent included, keeps its memory, and the invariant holds again, so that by copy on write a
  later store of either process is not seen by the other.\<close>

theorem fork_copies_memory:
  assumes ok: "sys_ok m" and fk: "can_fork (kern m)" "unat (nextpid (kern m)) \<le> 32001"
    and e: "e < PTABSIZE" "p_status (procp e (kern m)) = P_EMPTY"
    and pool: "pool_ok X (kern m)" "j < 38" "\<not> bf_busy (bufp j (kern m))"
  shows "\<exists>t. dofork m = Some (0, t) \<and> sys_ok t \<and> \<not> holds (u_ptab (kern t)) (kern m) \<and> same_memory m t \<and>
    (\<forall>j < 16. sees (u_ptab (kern t)) t j = sees (u_ptab (kern m)) m j)"
proof -
  let ?me = "u_ptab (kern m)"
  have vm: "vm_ok m" using ok by (simp add: sys_ok_def)
  note D = vm_okD [OF vm]
  have len: "length (ptab (kern m)) = PTABSIZE" using D(1) by (simp add: procs_ok_def)
  obtain c s b n where c: "c < PTABSIZE" "\<not> holds c (kern m)" "alloced c b n (kern m) s"
    "ptab_alloc_pages m = Some (Some c, m\<lparr>kern := s, ublk := (ublk m)(b := (ublk m b)\<lparr>b_page := replicate 16 NOPAGE\<rparr>)\<rparr>)"
    by (rule ptab_alloc_law [OF len fk(2) e pool])
  have mc: "?me \<noteq> c" using c(2) D(9) by auto
  have s: "b < 38" "\<not> bf_busy (bufp b (kern m))" "\<forall>j. bf_busy (bufp j s) \<longleftrightarrow> j = b \<or> bf_busy (bufp j (kern m))"
    "length (ptab s) = PTABSIZE" "u_ptab s = ?me" "u_cwd s = u_cwd (kern m)" "u_files s = u_files (kern m)" "i_tab s = i_tab (kern m)"
    and ps: "\<And>k. procp k s = (if k = c then empty_proc\<lparr>p_pid := n, p_status := P_FORKING, p_ublk := Some b\<rparr> else procp k (kern m))"
    using c(3) by (simp_all add: alloced_def)
  obtain bc where bc: "p_ublk (procp ?me (kern m)) = Some bc" "bc \<noteq> b"
    using ok D(8,9) s(2) unfolding sys_ok_def own_blocks_def by blast
  define u where "u = (ublk m)(b := (ublk m b)\<lparr>b_page := replicate 16 NOPAGE\<rparr>)"
  define r where "r = rdmmu m"
  have R: "re_addr m r" unfolding r_def by (rule rdmmu_law [OF vm])
  define h where "h = share_pages False (r\<lparr>kern := s, ublk := u\<rparr>)"
  have alloc: "ptab_alloc_pages m = Some (Some c, m\<lparr>kern := s, ublk := u\<rparr>)" using c(4) by (simp add: u_def)
  note H = shared_pages [OF vm R h_def]
  define s5 where "s5 = (upd_proc ?me (\<lambda>p. p\<lparr>p_status := P_READY\<rparr>) s)\<lparr>u_usp := usp_reg s\<rparr>"
  define p5 where "p5 = (ldmmu h)\<lparr>kern := s5\<rparr>"
  have l: "ldmmu h = h\<lparr>mmu := map (\<lambda>j. mmu_entry h (u_page h ! j)) [0..<16]\<rparr>" using H(4) D(7) by (intro ldmmu_eq) simp
  have s5: "procp k s5 = (if k = ?me then (procp ?me (kern m))\<lparr>p_status := P_READY\<rparr> else procp k s)" "length (ptab s5) = PTABSIZE"
    "u_ptab s5 = ?me" "bufpool s5 = bufpool s" "u_cwd s5 = u_cwd (kern m)" "u_files s5 = u_files (kern m)" "i_tab s5 = i_tab (kern m)" for k
    using D(8) mc s(4-8) ps [of ?me] by (simp_all add: s5_def procp_def upd_proc_def nth_list_update)
  have p5: "on_kern (\<lambda>s. s\<lparr>u_usp := usp_reg s\<rparr>) (on_kern (\<lambda>s. upd_proc (u_ptab s) (\<lambda>p. p\<lparr>p_status := P_READY\<rparr>) s) (ldmmu h)) = p5"
    using s(5) by (simp add: on_kern_def p5_def s5_def l H upd_proc_def)
  have wr: "swrite p5 = Some (p5\<lparr>ublk := u(bc := save_udata p5)\<rparr>)"
    using s5 bc by (simp add: swrite_def p5_def l H)
  have "can_fork s5" using fk(1) s5 by (simp add: can_fork_def inop_def)
  from newproc_law [OF this s5(2) c(1)] obtain s6 p where s6: "newproc c s5 = Some s6" "ptab s6 = (ptab s5)[c := p]"
    "p_status p = P_RUNNING" "p_ublk p = p_ublk (procp c s5)" "p_bintype p = p_bintype (procp c s5)" "u_ptab s6 = c" "bufpool s6 = bufpool s5"
    by blast
  define s7 where "s7 = upd_proc c (\<lambda>p. p\<lparr>p_status := P_RUNNING, p_fork_inf := 1\<rparr>) (s6\<lparr>runticks := 0\<rparr>)"
  define t where "t = p5\<lparr>ublk := u(bc := save_udata p5), kern := s7\<rparr>"
  have run: "dofork m = Some (0, t)"
    using wr s6(1) by (simp add: dofork_def alloc rdmmu_other h_def [symmetric] r_def [symmetric] p5 Let_def t_def s7_def) (simp add: p5_def)
  have s7: "procp k s7 = (if k = c then p\<lparr>p_status := P_RUNNING, p_fork_inf := 1\<rparr> else procp k s5)" "length (ptab s7) = PTABSIZE"
    "u_ptab s7 = c" "bufpool s7 = bufpool s" for k
    using c(1) s5 s6 by (simp_all add: s7_def procp_def upd_proc_def nth_list_update)
  have r: "kern r = kern m" "ublk r = ublk m" "u_page r = u_page m" "vm_ok r" "\<And>k. sees k r = sees k m"
    using R by (simp_all add: re_addr_def)
  have okr: "sys_ok r" using sys_ok_same [OF ok r(4)] r by simp
  have t: "kern t = s7" "ublk t = u(bc := save_udata p5)" "u_page t = u_page r" "phys t = phys r" "pgtab t = pgtab h"
    "mmu t = map (\<lambda>j. mmu_entry h (u_page t ! j)) [0..<16]"
    by (simp_all add: t_def p5_def l H r)
  have me: "mmu_entry t = mmu_entry h" by (simp add: fun_eq_iff mmu_entry_def pgp_def t split: upg.split)
  have pc: "p_bintype (procp c s5) = 0" "p_ublk (procp c s5) = Some b" using s5(1) mc ps by (simp_all add: empty_proc_def)
  have other: "holds k s7 = holds k (kern m) \<and> p_bintype (procp k s7) = p_bintype (procp k (kern m)) \<and> p_ublk (procp k s7) = p_ublk (procp k (kern m))"
    if "k \<noteq> c" for k
    using that D(9) by (simp add: holds_def s7 s5(1) ps status_defs)
  have nb: "the (p_ublk (procp k (kern m))) \<noteq> b" if k: "k < PTABSIZE" "holds k (kern m)" for k
  proof -
    obtain b' where "p_ublk (procp k (kern m)) = Some b'" "bf_busy (bufp b' (kern m))"
      using ok k unfolding sys_ok_def own_blocks_def by blast
    then show ?thesis using s(2) by auto
  qed
  have nbc: "the (p_ublk (procp k (kern m))) \<noteq> bc" if k: "k < PTABSIZE" "holds k (kern m)" "k \<noteq> ?me" for k
    using ok k D(8,9) bc(1) unfolding sys_ok_def own_blocks_def by (metis option.sel)
  have "holds c s7" by (simp add: holds_def s7 status_defs)
  moreover have "bf_busy (bufp j s7) \<longleftrightarrow> j = b \<or> bf_busy (bufp j (kern m))" for j using s(3) s7(4) by (simp add: bufp_def)
  moreover have "b_page (save_udata p5) = u_page m" "u_ptab (b_data (save_udata p5)) = ?me"
    by (simp_all add: save_udata_def p5_def l H s5)
  ultimately have "split_off c b r t"
    using s(1,2) s6(4,5) pc other nb nbc bc by (simp add: split_off_def Let_def r t s7 u_def)
  then have F: "sys_ok t \<and> same_memory r t \<and> (\<forall>j < 16. sees c t j = sees (u_ptab (kern r)) r j)"
    using c(2) H(6,7) t by (intro fork_memory [OF okr c(1)]) (simp_all add: r me pgp_def)
  moreover have "same_memory m t" using F r by (simp add: same_memory_def)
  ultimately show ?thesis using run c(2) s7(3) t(1) r by auto
qed

lemma fork_copies_memory_witness:
  "\<exists>t. dofork (vm0 P_RUNNING) = Some (0, t) \<and> sys_ok t \<and> same_memory (vm0 P_RUNNING) t \<and>
    sees (u_ptab (kern t)) t 0 = sees 0 (vm0 P_RUNNING) 0"
proof -
  let ?s = "two_tasks P_RUNNING"
  have files: "u_files ?s = replicate 22 255" "u_cwd ?s = Some 0" "i_tab ?s = root_ino # replicate 44 no_ino"
    by (simp_all add: two_tasks_def sample_def)
  have "can_fork ?s" unfolding can_fork_def
    by (simp add: files two_tasks_frame two_tasks_proc inop_def init_proc_def root_ino_def)
  moreover have "pool_ok {} ?s"
    by (auto simp: pool_ok_def busyset_def distinct_names_def buf_inv_def two_tasks_frame blank_def disk_dev_def mountable_def)
      (simp_all add: two_tasks_def sample_def hd0_ok)
  moreover have "\<not> bf_busy (bufp 5 ?s)" "p_status (procp 7 ?s) = P_EMPTY"
    by (simp_all add: two_tasks_frame two_tasks_proc no_proc_def)
  ultimately show ?thesis
    using fork_copies_memory [OF vm0_sys_ok [of P_RUNNING], of 7 "{}" 5] by (auto simp: two_tasks_frame)
qed

end
