(* ===== verification/Exec.thy ===== *)
theory Exec
  imports UserPages Forking Paths
begin

section \<open>Loading programs: SCALL4.C, SCALL2.C, NEWUPUT.C\<close>

text \<open>
  \<^verbatim>\<open>_execve\<close> on the paged memory. The argument block \<^verbatim>\<open>struct s_argblk\<close> is laid out in the data of a
  buffer: the words \<^verbatim>\<open>a_argc\<close>, \<^verbatim>\<open>a_arglen\<close>, \<^verbatim>\<open>a_envc\<close>, then \<^verbatim>\<open>a_buf\<close> from byte 6. \<open>junk\<close> is the
  content of the stack slots that \<^verbatim>\<open>ugetw\<close> and \<^verbatim>\<open>ugetc\<close> return after a fault. A call that succeeds does not
  return: \<open>Inr sp\<close> is the stack pointer with which \<^verbatim>\<open>doexec\<close> enters the program at 0x100; \<open>Inl r\<close> is the
  value returned to the old program.
\<close>

subsection \<open>Accesses to user memory\<close>

definition vugetw :: "u16 \<Rightarrow> u16 \<Rightarrow> vm \<Rightarrow> (u16 \<times> vm) option" where
  "vugetw junk a m = do { (ok, bs, m) \<leftarrow> vuget a 2 m; Some (if ok then le16 (bs ! 0) (bs ! 1) else junk, m) }"

definition vugetc :: "u8 \<Rightarrow> u16 \<Rightarrow> vm \<Rightarrow> (u8 \<times> vm) option" where
  "vugetc junk a m = do { (ok, bs, m) \<leftarrow> vuget a 1 m; Some (if ok then bs ! 0 else junk, m) }"

definition vuputw :: "u16 \<Rightarrow> u16 \<Rightarrow> vm \<Rightarrow> vm option" where
  "vuputw w a m = do { (_, m) \<leftarrow> vuput [lo8 w, hi8 w] a m; Some m }"

definition STUP :: "u16 \<Rightarrow> u8 \<Rightarrow> vm \<Rightarrow> vm option" where
  "STUP a v m =
     (let e = mmu m ! (page_no a + 8)
      in if e AND 8 = 0 \<or> e AND 4 \<noteq> 0 then None
         else Some (m\<lparr>phys := (phys m)(page_frame e := (phys m (page_frame e))(page_off a := v))\<rparr>))"

definition usfltp :: "u16 \<Rightarrow> u8 \<Rightarrow> vm \<Rightarrow> (bool \<times> vm) option" where
  "usfltp a v m = do {
     (r, m) \<leftarrow> upage a (m\<lparr>c_mode := 8\<rparr>);
     let m = m\<lparr>c_mode := 0\<rparr>;
     Some (if r \<noteq> 0 then (False, m\<lparr>kern := set_error EFAULT (kern m)\<rparr>)
           else (True, case STUP a v m of None \<Rightarrow> m | Some m \<Rightarrow> m)) }"

definition put_code :: "u16 \<Rightarrow> u8 \<Rightarrow> vm \<Rightarrow> (bool \<times> vm) option" where
  "put_code a v m = (case STUP a v m of Some m \<Rightarrow> Some (True, m) | None \<Rightarrow> usfltp a v m)"

definition uputp :: "u8 list \<Rightarrow> u16 \<Rightarrow> vm \<Rightarrow> (bool \<times> vm) option" where
  "uputp bs a m = do {
     (ok, m) \<leftarrow> put_code a (areg (kern m)) m;
     if \<not> ok then Some (False, m)
     else do {
       let m = m\<lparr>c_mode := 8\<rparr>;
       if page_no (a + of_nat (length bs)) = page_no a then do { m \<leftarrow> to_page a bs m; Some (True, m\<lparr>c_mode := 0\<rparr>) }
       else do {
         let rest = page_rest a;
         m \<leftarrow> to_page a (take (unat rest) bs) m;
         (ok, m) \<leftarrow> put_code (a + rest) (areg (kern m)) m;
         if \<not> ok then Some (False, m)
         else do { m \<leftarrow> to_page (a + rest) (drop (unat rest) bs) (m\<lparr>c_mode := 8\<rparr>); Some (True, m\<lparr>c_mode := 0\<rparr>) } } } }"

text \<open>An operation of the rest of the kernel.\<close>

definition in_kern :: "(kst \<Rightarrow> ('a \<times> kst) option) \<Rightarrow> vm \<Rightarrow> ('a \<times> vm) option" where
  "in_kern f m = map_option (\<lambda>(r, s). (r, m\<lparr>kern := s\<rparr>)) (f (kern m))"

definition at_kern :: "(kst \<Rightarrow> kst option) \<Rightarrow> vm \<Rightarrow> vm option" where
  "at_kern f m = map_option (\<lambda>s. m\<lparr>kern := s\<rparr>) (f (kern m))"

definition vn_open :: "u16 \<Rightarrow> vm \<Rightarrow> (nat option \<times> vm) option" where
  "vn_open uname m = do {
     (tb, m) \<leftarrow> in_kern tmpbuf m;
     (ok, bs, m) \<leftarrow> vugets uname 512 m;
     in_kern (\<lambda>s. map_option (\<lambda>(q, _, s). (q, s)) (n_open_named tb (if ok then 0 else 1) bs False s)) m }"

subsection \<open>Collecting the arguments\<close>

definition a_argc :: "nat \<Rightarrow> kst \<Rightarrow> u16" where
  "a_argc b s = get16 (buf_data b s) 0"

definition a_arglen :: "nat \<Rightarrow> kst \<Rightarrow> u16" where
  "a_arglen b s = get16 (buf_data b s) 1"

definition a_buf :: "nat \<Rightarrow> kst \<Rightarrow> u8 list" where
  "a_buf b s = drop 6 (buf_data b s)"

definition set_arg :: "nat \<Rightarrow> nat \<Rightarrow> u16 \<Rightarrow> kst \<Rightarrow> kst" where
  "set_arg i b w s = set_data b (set16 (buf_data b s) i w) s"

definition set_abuf :: "nat \<Rightarrow> nat \<Rightarrow> u8 \<Rightarrow> kst \<Rightarrow> kst" where
  "set_abuf b k c s = set_data b ((buf_data b s)[6 + k := c]) s"

text \<open>The inner loop of \<^verbatim>\<open>wargs\<close>, with \<open>k\<close> the index of \<^verbatim>\<open>bufp\<close> in \<^verbatim>\<open>a_buf\<close>; \<open>None\<close> is the return of 1.\<close>

function wargs_str :: "u8 \<Rightarrow> nat \<Rightarrow> u16 \<Rightarrow> nat \<Rightarrow> vm \<Rightarrow> (nat option \<times> vm) option" where
  "wargs_str junk b p k m =
     Option.bind (vugetc junk p m) (\<lambda>(c, m).
       let m = on_kern (set_abuf b k c) m
       in if k + 1 > 500 then Some (None, on_kern (set_error E2BIG) m)
          else if u_error (kern m) \<noteq> NOERR then Some (None, m)
          else if c \<noteq> 0 then wargs_str junk b (p + 1) (k + 1) m
          else Some (Some (k + 1), m))"
  by pat_completeness auto
termination by (relation "measure (\<lambda>(_, _, _, k, _). 501 - k)") auto

declare wargs_str.simps [simp del]

partial_function (option) wargs_loop :: "u16 \<Rightarrow> nat \<Rightarrow> u16 \<Rightarrow> nat \<Rightarrow> vm \<Rightarrow> (nat option \<times> vm) option" where
  "wargs_loop junk b argv k m =
     Option.bind (vugetw junk argv m) (\<lambda>(p, m).
       if p = 0 then Some (Some k, m)
       else Option.bind (wargs_str (lo8 junk) b p k (on_kern (\<lambda>s. set_arg 0 b (a_argc b s + 1) s) m)) (\<lambda>(r, m).
         case r of None \<Rightarrow> Some (None, m) | Some k \<Rightarrow> wargs_loop junk b (argv + 2) k m))"

definition wargs :: "u16 \<Rightarrow> u16 \<Rightarrow> nat \<Rightarrow> vm \<Rightarrow> (int \<times> vm) option" where
  "wargs junk argv b m = do {
     (r, m) \<leftarrow> wargs_loop junk b argv 0 (on_kern (set_arg 0 b 0) m);
     Some (case r of None \<Rightarrow> (1, m) | Some k \<Rightarrow> (0, on_kern (set_arg 1 b (of_nat k)) m)) }"

subsection \<open>Putting them on the new stack\<close>

text \<open>The loop \<^verbatim>\<open>do ++ptr; while (*sptr++)\<close>: how far it goes. It runs out of the buffer only if no byte
  is 0.\<close>

fun skip_str :: "u8 list \<Rightarrow> nat option" where
  "skip_str [] = wild"
| "skip_str (c # cs) = (if c = 0 then Some 1 else map_option Suc (skip_str cs))"

fun rargs_loop :: "nat \<Rightarrow> nat \<Rightarrow> u16 \<Rightarrow> nat \<Rightarrow> u16 \<Rightarrow> vm \<Rightarrow> vm option" where
  "rargs_loop b 0 p k argv m = Some m"
| "rargs_loop b (Suc n) p k argv m = do {
     m \<leftarrow> vuputw p argv m;
     (if n = 0 then Some m
      else do {
        d \<leftarrow> skip_str (drop k (a_buf b (kern m)));
        rargs_loop b n (p + of_nat d) (k + d) (argv + 2) m }) }"

definition put_strings :: "nat \<Rightarrow> u16 \<Rightarrow> vm \<Rightarrow> vm option" where
  "put_strings b p m =
     (let arglen = a_arglen b (kern m)
      in if arglen \<noteq> 0 then do { (_, m) \<leftarrow> vuput (take (unat arglen) (a_buf b (kern m))) p m; Some m } else Some m)"

definition rargs :: "u16 \<Rightarrow> nat \<Rightarrow> vm \<Rightarrow> (u16 \<times> u16 \<times> vm) option" where
  "rargs p b m = do {
     let arglen = a_arglen b (kern m);
     let p = p - arglen;
     let p = (if p AND 1 \<noteq> 0 then p - 1 else p);
     m \<leftarrow> put_strings b p m;
     let argc = a_argc b (kern m);
     let argbase = p - 2 * (argc + 1);
     m \<leftarrow> rargs_loop b (unat argc) p 0 argbase m;
     Some (argbase, argc, m) }"

subsection \<open>The old program goes\<close>

text \<open>\<^verbatim>\<open>p->pg_addr\<close> where \<open>p\<close> may be one of the special values 0, 1 and 2: then it reads the first bytes of kernel
  memory.\<close>

definition page_addr :: "upg \<Rightarrow> vm \<Rightarrow> u16" where
  "page_addr p m = (let t = fst (low_times (kern m)) in
     case p of Page i \<Rightarrow> pg_addr (pgp i m) | NOPAGE \<Rightarrow> t_time t | OUTPAGE \<Rightarrow> le16 (hi8 (t_time t)) (lo8 (t_date t)) | VIRGPAGE \<Rightarrow> t_date t)"

definition drop_page :: "nat \<Rightarrow> vm \<Rightarrow> vm option" where
  "drop_page j m = do {
     m \<leftarrow> (case u_page m ! j of
            Page i \<Rightarrow>
              if p_fork_inf (procp (u_ptab (kern m)) (kern m)) = 0 then
                if j < 8 \<or> pg_addr (pgp i m) \<noteq> page_addr (u_page m ! (j - 8)) m then pg_free i m else Some m
              else if pg_refs (pgp i m) \<noteq> 0 then pg_free i m else Some m
          | _ \<Rightarrow> Some m);
     Some (set_page j VIRGPAGE m) }"

definition set_me :: "(p_tab \<Rightarrow> p_tab) \<Rightarrow> vm \<Rightarrow> vm" where
  "set_me f m = on_kern (\<lambda>s. upd_proc (u_ptab s) f s) m"

definition drop_image :: "vm \<Rightarrow> vm option" where
  "drop_image m = map_option (set_me (\<lambda>p. p\<lparr>p_fork_inf := 0\<rparr>)) (foldM drop_page (rev [0..<16]) m)"

definition SET_UID :: u16 where "SET_UID = 0x800"
definition SET_GID :: u16 where "SET_GID = 0x400"
definition ANY_EX :: u16 where "ANY_EX = 0x49"

definition take_identity :: "nat \<Rightarrow> vm \<Rightarrow> nat option \<times> vm" where
  "take_identity ino m =
     (let c = inop ino (kern m); n = c_node c;
          m = set_me (\<lambda>p. p\<lparr>p_inode := c_num c, p_idev := of_int (c_dev c), p_idate := i_ctime n\<rparr>) m;
          (p, s) = find_zombie2 (kern m);
          s = (if i_mode n AND SET_UID \<noteq> 0 then s\<lparr>u_euid := i_uid n\<rparr> else s);
          s = (if i_mode n AND SET_GID \<noteq> 0 then s\<lparr>u_egid := i_gid n\<rparr> else s)
      in (p, m\<lparr>kern := s\<rparr>))"

subsection \<open>The new program comes\<close>

definition read_block_of :: "nat \<Rightarrow> u16 \<Rightarrow> vm \<Rightarrow> (nat \<times> vm) option" where
  "read_block_of ino blk m = do {
     (nb, m) \<leftarrow> in_kern (bmap ino blk True) m;
     in_kern (breadp (c_dev (inop ino (kern m))) nb False) m }"

definition load_block ::
  "(u8 list \<Rightarrow> u16 \<Rightarrow> vm \<Rightarrow> (bool \<times> vm) option) \<Rightarrow> nat \<Rightarrow> u16 \<Rightarrow> u16 \<Rightarrow> nat \<Rightarrow> vm \<Rightarrow> vm option" where
  "load_block put ino blk a n m = do {
     (buf, m) \<leftarrow> read_block_of ino blk m;
     (_, m) \<leftarrow> put (take n (buf_data buf (kern m))) a m;
     at_kern (brelse buf) m }"

definition PROGBASE :: u16 where "PROGBASE = 0x100"

definition load_type1 :: "nat \<Rightarrow> nat option \<Rightarrow> nat \<Rightarrow> vm \<Rightarrow> (u16 \<times> u16 \<times> vm) option" where
  "load_type1 ino p buf m = do {
     let m = ldmmu (set_me (\<lambda>p. p\<lparr>p_bintype := 1\<rparr>) m);
     m \<leftarrow> (if p = None then do { (_, m) \<leftarrow> uputp (buf_data buf (kern m)) PROGBASE m; Some m } else Some m);
     m \<leftarrow> at_kern (brelse buf) m;
     let n = o_blkno (i_size (c_node (inop ino (kern m))));
     m \<leftarrow> (if p = None then foldM (\<lambda>i m. load_block uputp ino (of_nat i) (PROGBASE + 512 * of_nat i) 512 m) [1..<Suc (unat n)] m else Some m);
     let e = PROGBASE + 512 * (n + 1);
     Some (e, e, if p = None then setup_pg_type1 m else m) }"

definition blocks :: "u16 \<Rightarrow> nat" where
  "blocks n = (unat n + 511) div 512"

definition part :: "u16 \<Rightarrow> nat" where
  "part a = (if a < 65024 then 512 else unat (65535 - a))"

definition load_type2 :: "nat \<Rightarrow> nat option \<Rightarrow> nat \<Rightarrow> vm \<Rightarrow> (u16 \<times> u16 \<times> vm) option" where
  "load_type2 ino p buf m = do {
     let m = ldmmu (set_me (\<lambda>p. p\<lparr>p_bintype := 0\<rparr>) m);
     let d = get16 (buf_data buf (kern m)) 1;
     let c = get16 (buf_data buf (kern m)) 2;
     m \<leftarrow> at_kern (brelse buf) m;
     m \<leftarrow> (if p = None then do {
              m \<leftarrow> foldM (\<lambda>i m. let a = PROGBASE + 512 * of_nat i in load_block vuput ino (of_nat (1 + i)) a (part a) m) [0..<blocks d] m;
              foldM (\<lambda>i m. let a = PROGBASE + 512 * of_nat i in load_block uputp ino (of_nat (1 + blocks d + i)) a (part a) m) [0..<blocks c] m }
            else Some m);
     Some (d, c, m) }"

definition sigprog :: "u8 list" where
  "sigprog = [0xE1, 0x08, 0xF1, 0x08, 0xD9, 0xC1, 0xD1, 0xE1, 0xD9, 0xF1, 0xC1, 0xD1, 0xE1, 0xDD, 0xE1, 0xFD, 0xE1, 0xC9]"

subsection \<open>The whole call\<close>

definition reset_signals :: "kst \<Rightarrow> kst" where
  "reset_signals s = s\<lparr>u_sigvec := map (\<lambda>h. if h \<noteq> SIG_IGN then SIG_DFL else h) (u_sigvec s)\<rparr>"

definition push_args :: "u16 \<Rightarrow> nat \<Rightarrow> nat \<Rightarrow> vm \<Rightarrow> (u16 \<times> vm) option" where
  "push_args junk ab eb m = do {
     (nargv, argc, m) \<leftarrow> rargs (0 - 2) ab m;
     (nenvp, _, m) \<leftarrow> rargs nargv eb m;
     (w, m) \<leftarrow> vugetw junk nargv m;
     (_, bs, m) \<leftarrow> vuget w 8 m;
     let m = m\<lparr>u_name := splice 0 bs (u_name m)\<rparr>;
     m \<leftarrow> at_kern (brelse ab) m;
     m \<leftarrow> at_kern (brelse eb) m;
     m \<leftarrow> vuputw argc (nenvp - 2) m;
     m \<leftarrow> vuputw nargv (nenvp - 4) m;
     Some (nenvp, m) }"

definition mark_illegal :: "vm \<Rightarrow> vm" where
  "mark_illegal m = ldmmu (fold (\<lambda>j m. if u_page m ! j = VIRGPAGE then set_page j NOPAGE m else m) [8..<16] (rdmmu m))"

definition name_zombie :: "nat option \<Rightarrow> vm \<Rightarrow> vm option" where
  "name_zombie p m =
     (case p of
        None \<Rightarrow> Some m
      | Some z \<Rightarrow> do {
          b \<leftarrow> p_ublk (procp z (kern m));
          Some (on_kern (upd_proc z (\<lambda>p. p\<lparr>p_status := P_ZOMBIE2\<rparr>))
                  (m\<lparr>ublk := (ublk m)(b := (ublk m b)\<lparr>b_name := splice 0 (take 8 (u_name m)) (b_name (ublk m b))\<rparr>)\<rparr>)) })"

definition doexec :: "u16 \<Rightarrow> vm \<Rightarrow> vm" where
  "doexec isp m = on_kern (\<lambda>s. s\<lparr>usp_reg := isp, u_insys := 0\<rparr>) (m\<lparr>u_isp := isp\<rparr>)"

definition start_program :: "u16 \<Rightarrow> nat \<Rightarrow> nat \<Rightarrow> nat \<Rightarrow> nat option \<Rightarrow> u16 \<Rightarrow> u16 \<Rightarrow> vm \<Rightarrow> (u16 \<times> vm) option" where
  "start_program junk ino ab eb p datalen proglen m = do {
     m \<leftarrow> at_kern (i_deref ino) m;
     let m = on_kern (\<lambda>s. s\<lparr>u_break := datalen\<rparr>) (m\<lparr>u_pbreak := proglen\<rparr>);
     m \<leftarrow> (if p = None then do { (_, m) \<leftarrow> uputp sigprog 0x40 m; Some m } else Some m);
     let m = on_kern reset_signals m;
     (p, m) \<leftarrow> (if p = None \<and> p_pid (procp (u_ptab (kern m)) (kern m)) \<noteq> 1
                then do { (z, m) \<leftarrow> make_zombie m; Some (Some z, m) } else Some (p, m));
     (nenvp, m) \<leftarrow> push_args junk ab eb m;
     m \<leftarrow> name_zombie p (mark_illegal m);
     m \<leftarrow> swrite m;
     Some (nenvp - 4, doexec (nenvp - 4) m) }"

definition nogood :: "nat list \<Rightarrow> nat \<Rightarrow> vm \<Rightarrow> ((int + u16) \<times> vm) option" where
  "nogood bufs ino m = do {
     m \<leftarrow> foldM (\<lambda>b. at_kern (brelse b)) bufs m;
     m \<leftarrow> at_kern (i_deref ino) m;
     Some (Inl (- 1), m) }"

definition EMAGIC :: u8 where "EMAGIC = 0xC3"
definition ECDMAGIC :: u16 where "ECDMAGIC = 0xFF"

definition replace_program :: "u16 \<Rightarrow> nat \<Rightarrow> nat \<Rightarrow> nat \<Rightarrow> nat \<Rightarrow> vm \<Rightarrow> ((int + u16) \<times> vm) option" where
  "replace_program junk ino buf ab eb m = do {
     let (p, m) = take_identity ino m;
     m \<leftarrow> drop_image m;
     m \<leftarrow> give_pages p m;
     if buf_data buf (kern m) ! 0 = EMAGIC \<and> o_blkno (i_size (c_node (inop ino (kern m)))) > (0 - PROGBASE) div 512 then do {
       m \<leftarrow> (if p = None then Some m else free_pages 16 (u_page m) (on_kern (set_error ENOMEM) m));
       nogood [ab, eb, buf] ino (on_kern (set_error ENOMEM) m) }
     else do {
       (d, c, m) \<leftarrow> (if buf_data buf (kern m) ! 0 = EMAGIC then load_type1 else load_type2) ino p buf m;
       (sp, m) \<leftarrow> start_program junk ino ab eb p d c m;
       Some (Inr sp, m) } }"

definition sys_execve :: "u16 \<Rightarrow> vm \<Rightarrow> ((int + u16) \<times> vm) option" where
  "sys_execve junk m = do {
     (q, m) \<leftarrow> vn_open (u_argn2 (kern m)) m;
     (case q of
        None \<Rightarrow> Some (Inl (- 1), m)
      | Some ino \<Rightarrow>
          let mode = i_mode (c_node (inop ino (kern m)))
          in if \<not> (getperm ino (kern m) AND OTH_EX \<noteq> 0 \<and> mode AND F_REG \<noteq> 0 \<and> mode AND ANY_EX \<noteq> 0) then
               nogood [] ino (on_kern (set_error EACCES) m)
             else do {
               (buf, m) \<leftarrow> read_block_of ino 0 (on_kern (setftime ino A_TIME) m);
               let d = buf_data buf (kern m);
               if d ! 0 \<noteq> EMAGIC \<and> get16 d 0 \<noteq> ECDMAGIC then nogood [buf] ino (on_kern (set_error ENOEXEC) m)
               else do {
                 (ab, m) \<leftarrow> in_kern tmpbuf m;
                 (eb, m) \<leftarrow> in_kern tmpbuf m;
                 (r, m) \<leftarrow> wargs junk (u_argn1 (kern m)) ab m;
                 (r, m) \<leftarrow> (if r \<noteq> 0 then Some (r, m) else wargs junk (u_argn (kern m)) eb m);
                 if r \<noteq> 0 then nogood [ab, eb, buf] ino m
                 else replace_program junk ino buf ab eb m } }) }"

end
