(* ===== verification/ExecArgs.thy ===== *)
theory ExecArgs
  imports Exec
begin

section \<open>Arguments survive the change of program\<close>

text \<open>
  \<^verbatim>\<open>wargs\<close> packs a vector of strings from the old program's memory into a buffer, \<^verbatim>\<open>rargs\<close> unpacks it at the top
  of the new one's. \<open>vector_at\<close> says that a memory has such a vector at an address.
\<close>

subsection \<open>Vectors of strings in user memory\<close>

definition uword :: "kst \<Rightarrow> u16 \<Rightarrow> u16" where
  "uword s a = le16 (umem s a) (umem s (a + 1))"

definition legal_word :: "kst \<Rightarrow> u16 \<Rightarrow> bool" where
  "legal_word s a \<longleftrightarrow> legal s a \<and> legal s (a + 1)"

fun string_at :: "kst \<Rightarrow> u16 \<Rightarrow> u8 list \<Rightarrow> bool" where
  "string_at s p [] \<longleftrightarrow> legal s p \<and> umem s p = 0"
| "string_at s p (c # cs) \<longleftrightarrow> legal s p \<and> umem s p = c \<and> c \<noteq> 0 \<and> string_at s (p + 1) cs"

fun vector_at :: "kst \<Rightarrow> u16 \<Rightarrow> u8 list list \<Rightarrow> bool" where
  "vector_at s a [] \<longleftrightarrow> legal_word s a \<and> uword s a = 0"
| "vector_at s a (x # xs) \<longleftrightarrow> legal_word s a \<and> uword s a \<noteq> 0 \<and> string_at s (uword s a) x \<and> vector_at s (a + 2) xs"

definition packed :: "u8 list list \<Rightarrow> u8 list" where
  "packed xs = concat (map (\<lambda>x. x @ [0]) xs)"

lemma packed_simps [simp]: "packed [] = []" "packed (x # xs) = x @ 0 # packed xs" "packed (xs @ ys) = packed xs @ packed ys"
  by (simp_all add: packed_def)

lemma length_packed: "length xs \<le> length (packed xs)"
  by (induction xs) auto

lemma vector_cong:
  assumes "umem t = umem s" "upages t = upages s"
  shows "string_at t p x = string_at s p x" "vector_at t a xs = vector_at s a xs"
proof -
  have l: "legal t = legal s" by (simp add: fun_eq_iff legal_def assms)
  have st: "string_at t p x = string_at s p x" for p x by (induction x arbitrary: p) (simp_all add: l assms)
  then show "string_at t p x = string_at s p x" .
  show "vector_at t a xs = vector_at s a xs" by (induction xs arbitrary: a) (simp_all add: l assms st legal_word_def uword_def)
qed

lemma string_at_no_nul: "string_at s p x \<Longrightarrow> 0 \<notin> set x"
  by (induction x arbitrary: p) auto

lemma vector_at_no_nul: "vector_at s a xs \<Longrightarrow> \<forall>x \<in> set xs. 0 \<notin> set x"
  by (induction xs arbitrary: a) (auto dest: string_at_no_nul)

subsection \<open>Words and characters\<close>

text \<open>A state from which a transfer that is legal goes through.\<close>

definition settled :: "vm \<Rightarrow> bool" where
  "settled m \<longleftrightarrow> vm_ok m \<and> enough m \<and> c_mode m = 0"

lemma grown_settled: "grown m t \<Longrightarrow> settled t"
  by (simp add: grown_def settled_def)

lemma ucount_word [simp]: "ucount 2 = Suc (Suc 0)" "ucount 1 = Suc 0"
  by (simp_all add: ucount_def)

lemma uget_word: "legal_word s a \<Longrightarrow> uget a 2 s = (0, [umem s a, umem s (a + 1)], s)"
  by (simp add: uget_def legal_word_def)

lemma uget_char: "legal s a \<Longrightarrow> uget a 1 s = (0, [umem s a], s)"
  by (simp add: uget_def)

lemma vugetw_law:
  assumes m: "settled m" and a: "legal_word (flat m) a"
  shows "\<exists>t. vugetw junk a m = Some (uword (flat m) a, t) \<and> grown m t \<and> flat t = flat m"
proof -
  obtain t where "vuget a 2 m = Some (True, [umem (flat m) a, umem (flat m) (a + 1)], t)" "flat t = flat m" "grown m t"
    using uget_flat [of m 2 a] m by (auto simp: settled_def uget_word [OF a])
  then show ?thesis by (simp add: vugetw_def uword_def)
qed

lemma vugetc_law:
  assumes m: "settled m" and a: "legal (flat m) a"
  shows "\<exists>t. vugetc junk a m = Some (umem (flat m) a, t) \<and> grown m t \<and> flat t = flat m"
proof -
  obtain t where "vuget a 1 m = Some (True, [umem (flat m) a], t)" "flat t = flat m" "grown m t"
    using uget_flat [of m 1 a] m by (auto simp: settled_def uget_char [OF a])
  then show ?thesis by (simp add: vugetc_def)
qed

lemma on_kern_law:
  assumes m: "settled m" and s: "ptab (f (kern m)) = ptab (kern m)" "u_ptab (f (kern m)) = u_ptab (kern m)"
  shows "grown m (on_kern f m)" "flat (on_kern f m) = (f (kern m))\<lparr>umem := umem (flat m), upages := upages (flat m)\<rparr>"
  using kern_other [OF s] m by (simp_all add: on_kern_def settled_def)

subsection \<open>Collecting\<close>

definition room :: "nat \<Rightarrow> kst \<Rightarrow> bool" where
  "room b s \<longleftrightarrow> b < length (bufpool s) \<and> length (buf_data b s) = 512"

lemma set_data_sel:
  assumes "b < length (bufpool s)"
  shows "buf_data b (set_data b d s) = d" "buf_data c (set_data b d s) = (if c = b then d else buf_data c s)"
    "set_data b d (set_data b e s) = set_data b d s" "length (bufpool (set_data b d s)) = length (bufpool s)"
  using assms by (simp_all add: set_data_def upd_buf_def buf_data_def bufp_def)

lemma set_data_same: "set_data b (buf_data b s) s = s"
proof -
  have "(bufp b s)\<lparr>bf_data := bf_data (bufp b s)\<rparr> = bufp b s" by simp
  then show ?thesis by (simp add: set_data_def upd_buf_def buf_data_def bufp_def)
qed

lemma set_arg_eq: "set_arg i b w = (\<lambda>s. set_data b (set16 (buf_data b s) i w) s)"
  by (simp add: fun_eq_iff set_arg_def)

lemma set_abuf_eq: "set_abuf b k c = (\<lambda>s. set_data b ((buf_data b s)[6 + k := c]) s)"
  by (simp add: fun_eq_iff set_abuf_def)

lemma room_set_data: "room c s \<Longrightarrow> length d = 512 \<Longrightarrow> room c (set_data b d s)"
  by (cases "b = c") (auto simp: room_def set_data_def upd_buf_def buf_data_def bufp_def)

lemma set_data_frame [simp]:
  "ptab (set_data b d s) = ptab s" "u_ptab (set_data b d s) = u_ptab s" "umem (set_data b d s) = umem s"
  "upages (set_data b d s) = upages s" "u_error (set_data b d s) = u_error (s :: kst)"
  by (simp_all add: set_data_def upd_buf_def)

lemma flat_buf [simp]: "buf_data b (flat m) = buf_data b (kern m)" "u_error (flat m) = u_error (kern m)" "room b (flat m) = room b (kern m)"
  "ptab (flat m) = ptab (kern m)" "u_ptab (flat m) = u_ptab (kern m)"
  by (simp_all add: flat_def buf_data_def bufp_def room_def)

lemma vm_set_data_law:
  assumes m: "settled m"
  shows "grown m (on_kern (\<lambda>s. set_data b (g s) s) m)" "flat (on_kern (\<lambda>s. set_data b (g s) s) m) = set_data b (g (kern m)) (flat m)"
proof -
  let ?f = "\<lambda>s. set_data b (g s) s"
  show "grown m (on_kern ?f m)" by (rule on_kern_law(1) [OF m]) simp_all
  have "flat (on_kern ?f m) = (?f (kern m))\<lparr>umem := umem (flat m), upages := upages (flat m)\<rparr>" by (rule on_kern_law(2) [OF m]) simp_all
  also have "\<dots> = set_data b (g (kern m)) (flat m)" by (simp add: flat_def set_data_def upd_buf_def)
  finally show "flat (on_kern ?f m) = set_data b (g (kern m)) (flat m)" .
qed

lemma buffer_set:
  assumes t: "flat t = set_data b d (flat m)" and b: "room b (kern m)" and d: "length d = 512"
  shows "buf_data b (kern t) = d" "u_error (kern t) = u_error (kern m)" "room b (kern t)"
    "c \<noteq> b \<Longrightarrow> buf_data c (kern t) = buf_data c (kern m)" "room c (kern m) \<Longrightarrow> room c (kern t)"
    "set_data b e (flat t) = set_data b e (flat m)" "string_at (flat t) p x = string_at (flat m) p x"
    "vector_at (flat t) a xs = vector_at (flat m) a xs"
proof -
  have B: "b < length (bufpool (flat m))" using b by (simp add: room_def flat_def)
  note S = set_data_sel [OF B]
  show "buf_data b (kern t) = d" "u_error (kern t) = u_error (kern m)"
    using arg_cong [OF t, of "buf_data b"] arg_cong [OF t, of u_error] by (simp_all only: flat_buf S set_data_frame refl if_True)
  show "c \<noteq> b \<Longrightarrow> buf_data c (kern t) = buf_data c (kern m)" using arg_cong [OF t, of "buf_data c"] by (simp only: flat_buf S if_False)
  show r: "room c (kern m) \<Longrightarrow> room c (kern t)" for c
    using arg_cong [OF t, of "room c"] room_set_data [of c "flat m" d b] d by (simp only: flat_buf)
  show "room b (kern t)" by (rule r [OF b])
  show "set_data b e (flat t) = set_data b e (flat m)" by (simp only: t S)
  show "string_at (flat t) p x = string_at (flat m) p x" "vector_at (flat t) a xs = vector_at (flat m) a xs"
    by (rule vector_cong; simp add: t)+
qed

lemma splice_snoc:
  "i + length xs < length d \<Longrightarrow> (splice i xs d)[i + length xs := c] = splice i (xs @ [c]) d"
  by (simp add: splice_def list_update_append Cons_nth_drop_Suc [symmetric])

lemma splice_step: "Suc n + length ys \<le> length d \<Longrightarrow> splice (Suc n) ys (d[n := c]) = splice n (c # ys) d"
  by (simp add: splice_def take_Suc_conv_app_nth drop_update_cancel)

lemma wargs_str_law:
  assumes "settled m" "u_error (kern m) = NOERR" "room b (kern m)" "string_at (flat m) p x" "k + length x + 1 \<le> 500"
  shows "\<exists>t. wargs_str junk b p k m = Some (Some (k + length x + 1), t) \<and> grown m t \<and>
    flat t = set_data b (splice (6 + k) (x @ [0]) (buf_data b (kern m))) (flat m)"
  using assms
proof (induction x arbitrary: p k m)
  case Nil
  obtain u where u: "vugetc junk p m = Some (0, u)" "grown m u" "flat u = flat m"
    using vugetc_law [OF Nil.prems(1), of p junk] Nil.prems(4) by auto
  have k: "buf_data b (kern u) = buf_data b (kern m)" "u_error (kern u) = u_error (kern m)" using u(3) flat_buf by metis+
  note S = vm_set_data_law [OF grown_settled [OF u(2)], of b "\<lambda>s. (buf_data b s)[6 + k := 0]"]
  have l: "6 + k < length (buf_data b (kern m))" using Nil.prems(3,5) by (simp add: room_def)
  have e: "u_error (kern (on_kern (set_abuf b k 0) u)) = NOERR" using Nil.prems(2) k(2) by (simp add: on_kern_def set_abuf_def)
  have "wargs_str junk b p k m = Some (Some (k + 1), on_kern (set_abuf b k 0) u)"
    using u(1) Nil.prems(5) e by (simp add: wargs_str.simps [of junk b p k m] Let_def)
  moreover have "on_kern (set_abuf b k 0) u = on_kern (\<lambda>s. set_data b ((buf_data b s)[6 + k := 0]) s) u"
    by (simp add: set_abuf_def on_kern_def)
  ultimately show ?case using S u(3) grown_trans [OF u(2)] splice_snoc [of "6 + k" "[]" "buf_data b (kern m)" 0] l
    by (simp add: k splice_def)
next
  case (Cons c x)
  obtain u where u: "vugetc junk p m = Some (c, u)" "grown m u" "flat u = flat m"
    using vugetc_law [OF Cons.prems(1), of p junk] Cons.prems(4) by auto
  have k: "buf_data b (kern u) = buf_data b (kern m)" "u_error (kern u) = u_error (kern m)" using u(3) flat_buf by metis+
  define q where "q = on_kern (set_abuf b k c) u"
  have v: "grown u q" "flat q = set_data b ((buf_data b (kern m))[6 + k := c]) (flat m)"
    using vm_set_data_law [OF grown_settled [OF u(2)], of b "\<lambda>s. (buf_data b s)[6 + k := c]"] u(3) k(1) by (simp_all add: q_def set_abuf_eq)
  note V = buffer_set [OF v(2) Cons.prems(3), unfolded length_list_update, OF conjunct2 [OF Cons.prems(3) [unfolded room_def]]]
  have e: "u_error (kern q) = NOERR" using Cons.prems(2) V(2) by simp
  then have e2: "u_error (set_abuf b k c (kern u)) = NOERR" by (simp add: q_def)
  have str: "string_at (flat q) (p + 1) x" using Cons.prems(4) by (simp add: V(7))
  obtain t where t: "wargs_str junk b (p + 1) (k + 1) q = Some (Some (k + 1 + length x + 1), t)" "grown q t"
      "flat t = set_data b (splice (6 + (k + 1)) (x @ [0]) (buf_data b (kern q))) (flat q)"
    using Cons.IH [OF grown_settled [OF v(1)] e V(3) str, of "k + 1"] Cons.prems(5) by auto
  have l: "6 + k + length x + 1 < length (buf_data b (kern m))" using Cons.prems(3,5) by (simp add: room_def)
  have "splice (6 + (k + 1)) (x @ [0]) ((buf_data b (kern m))[6 + k := c]) = splice (6 + k) ((c # x) @ [0]) (buf_data b (kern m))"
    using l splice_step [of "6 + k" "x @ [0]" "buf_data b (kern m)" c] by simp
  then have "flat t = set_data b (splice (6 + k) ((c # x) @ [0]) (buf_data b (kern m))) (flat m)"
    using t(3) by (simp add: V(1,6))
  moreover have "c \<noteq> 0" using Cons.prems(4) by simp
  then have "wargs_str junk b p k m = Some (Some (k + length (c # x) + 1), t)"
    using u(1) Cons.prems(5) e2 t(1) by (simp add: wargs_str.simps [of junk b p k m] Let_def flip: q_def)
  ultimately show ?case using grown_trans [OF u(2) grown_trans [OF v(1) t(2)]] by blast
qed

text \<open>The word \<open>i\<close> of the argument block and its strings.\<close>

lemma get16_splice: "2 * i + 1 < j \<Longrightarrow> j + length xs \<le> length d \<Longrightarrow> get16 (splice j xs d) i = get16 d i"
  by (simp add: get16_def nth_splice)

lemma splice_set16: "2 * i + 1 < j \<Longrightarrow> j + length xs \<le> length d \<Longrightarrow> splice j xs (set16 d i w) = set16 (splice j xs d) i w"
  by (simp add: splice_def set16_def take_update_swap drop_update_cancel list_update_append)

lemma splice_twice:
  "j + length xs + length ys \<le> length d \<Longrightarrow> splice (j + length xs) ys (splice j xs d) = splice j (xs @ ys) d"
  by (simp add: splice_def) (simp add: add.commute add.left_commute)

lemma set16_twice: "2 * i + 1 < length d \<Longrightarrow> set16 (set16 d i v) i w = set16 d i w"
  by (simp add: set16_def list_update_swap)

lemma wargs_loop_law:
  assumes "settled m" "u_error (kern m) = NOERR" "room b (kern m)" "vector_at (flat m) a xs" "k + length (packed xs) \<le> 500"
  shows "\<exists>t. wargs_loop junk b a k m = Some (Some (k + length (packed xs)), t) \<and> grown m t \<and>
    flat t = set_data b (splice (6 + k) (packed xs) (set16 (buf_data b (kern m)) 0 (a_argc b (kern m) + of_nat (length xs)))) (flat m)"
  using assms
proof (induction xs arbitrary: a k m)
  case Nil
  obtain u where u: "vugetw junk a m = Some (0, u)" "grown m u" "flat u = flat m"
    using vugetw_law [OF Nil.prems(1), of a junk] Nil.prems(4) by auto
  have b: "b < length (bufpool (flat m))" "6 + k \<le> length (buf_data b (kern m))" using Nil.prems(3,5) by (simp_all add: room_def flat_def)
  have "set16 (buf_data b (kern m)) 0 (a_argc b (kern m)) = buf_data b (kern m)"
    using b(2) by (simp add: set16_def a_argc_def get16_def)
  then have "set_data b (splice (6 + k) [] (set16 (buf_data b (kern m)) 0 (a_argc b (kern m)))) (flat m) = flat m"
    using set_data_same [of b "flat m"] by (simp add: splice_def)
  then show ?case using u by (simp add: wargs_loop.simps [of junk b a k m])
next
  case (Cons x xs)
  let ?p = "uword (flat m) a" and ?D = "buf_data b (kern m)" and ?c = "a_argc b (kern m)"
  obtain u where u: "vugetw junk a m = Some (?p, u)" "grown m u" "flat u = flat m"
    using vugetw_law [OF Cons.prems(1), of a junk] Cons.prems(4) by auto
  have k: "buf_data b (kern u) = ?D" "u_error (kern u) = NOERR" "a_argc b (kern u) = ?c" "room b (kern u)"
    using u(3) Cons.prems(2,3) flat_buf unfolding a_argc_def by metis+
  define q where "q = on_kern (\<lambda>s. set_arg 0 b (a_argc b s + 1) s) u"
  let ?D1 = "set16 ?D 0 (?c + 1)"
  have v: "grown u q" "flat q = set_data b ?D1 (flat m)"
    using vm_set_data_law [OF grown_settled [OF u(2)], of b "\<lambda>s. set16 (buf_data b s) 0 (a_argc b s + 1)"] u(3) k by (simp_all add: q_def set_arg_eq)
  have L: "length ?D = 512" "b < length (bufpool (flat m))" using Cons.prems(3) by (simp_all add: room_def flat_def)
  have L1: "length ?D1 = 512" using L(1) by simp
  note V = buffer_set [OF v(2) Cons.prems(3) L1]
  have ve: "u_error (kern q) = NOERR" using V(2) Cons.prems(2) by simp
  have str: "string_at (flat q) ?p x" using Cons.prems(4) by (simp add: V(7))
  obtain w where w: "wargs_str (lo8 junk) b ?p k q = Some (Some (k + length x + 1), w)" "grown q w"
      "flat w = set_data b (splice (6 + k) (x @ [0]) ?D1) (flat q)"
    using wargs_str_law [OF grown_settled [OF v(1)] ve V(3) str, of k] Cons.prems(5) V(1) by auto
  let ?D2 = "splice (6 + k) (x @ [0]) ?D1"
  have fw: "flat w = set_data b ?D2 (flat m)" using w(3) by (simp only: V(6))
  have l2: "6 + k + length (x @ [0]) \<le> length ?D1" "length ?D2 = 512" using Cons.prems(5) L1 by simp_all
  note W = buffer_set [OF fw Cons.prems(3) l2(2)]
  have we: "u_error (kern w) = NOERR" using W(2) Cons.prems(2) by simp
  have vec: "vector_at (flat w) (a + 2) xs" using Cons.prems(4) by (simp add: W(8))
  have cw: "a_argc b (kern w) = ?c + 1" using l2 L(1) by (simp add: a_argc_def W(1) get16_splice get16_set16)
  obtain t where t: "wargs_loop junk b (a + 2) (k + length x + 1) w = Some (Some (k + length x + 1 + length (packed xs)), t)" "grown w t"
      "flat t = set_data b (splice (6 + (k + length x + 1)) (packed xs) (set16 ?D2 0 (?c + 1 + of_nat (length xs)))) (flat w)"
    using Cons.IH [OF grown_settled [OF w(2)] we W(3) vec, of "k + length x + 1"] Cons.prems(5) by (auto simp: W(1) cw)
  have l3: "6 + k + length (x @ [0]) + length (packed xs) \<le> length ?D" using Cons.prems(5) L(1) by simp
  have "splice (6 + (k + length x + 1)) (packed xs) (set16 ?D2 0 y) = splice (6 + k) (packed (x # xs)) (set16 ?D 0 y)" for y
    using l2 l3 splice_twice [of "6 + k" "x @ [0]" "packed xs" "set16 ?D 0 y"]
    by (simp add: splice_set16 [symmetric] set16_twice)
  then have "flat t = set_data b (splice (6 + k) (packed (x # xs)) (set16 ?D 0 (?c + of_nat (length (x # xs))))) (flat m)"
    using t(3) by (simp add: W(6) add.assoc)
  moreover have "wargs_loop junk b a k m = Some (Some (k + length (packed (x # xs))), t)"
    using u(1) w(1) t(1) Cons.prems(4) by (simp add: wargs_loop.simps [of junk b a k m] flip: q_def)
  ultimately show ?case
    using grown_trans [OF u(2) grown_trans [OF v(1) grown_trans [OF w(2) t(2)]]] by blast
qed

text \<open>What the block holds after \<^verbatim>\<open>wargs\<close>.\<close>

definition holds_args :: "nat \<Rightarrow> u8 list list \<Rightarrow> kst \<Rightarrow> bool" where
  "holds_args b xs s \<longleftrightarrow> a_argc b s = of_nat (length xs) \<and> a_arglen b s = of_nat (length (packed xs)) \<and>
     take (length (packed xs)) (a_buf b s) = packed xs"

lemma wargs_law:
  assumes "settled m" "u_error (kern m) = NOERR" "room b (kern m)" "vector_at (flat m) a xs" "length (packed xs) \<le> 500"
  shows "\<exists>t d. wargs junk a b m = Some (0, t) \<and> grown m t \<and> flat t = set_data b d (flat m) \<and> length d = 512 \<and> holds_args b xs (kern t)"
proof -
  define u where "u = on_kern (set_arg 0 b 0) m"
  let ?D = "buf_data b (kern m)"
  have L: "length ?D = 512" "b < length (bufpool (flat m))" using assms(3) by (simp_all add: room_def flat_def)
  have u: "grown m u" "flat u = set_data b (set16 ?D 0 0) (flat m)"
    using vm_set_data_law [OF assms(1), of b "\<lambda>s. set16 (buf_data b s) 0 0"] by (simp_all add: u_def set_arg_eq)
  have l0: "length (set16 ?D 0 0) = 512" using L(1) by simp
  note U = buffer_set [OF u(2) assms(3) l0]
  have ue: "u_error (kern u) = NOERR" using U(2) assms(2) by simp
  have vec: "vector_at (flat u) a xs" using assms(4) by (simp add: U(8))
  let ?n = "length (packed xs)" and ?D2 = "splice 6 (packed xs) (set16 ?D 0 (of_nat (length xs)))"
  have c0: "a_argc b (kern u) = 0" unfolding a_argc_def U(1) using L(1) by (simp add: get16_set16)
  obtain w where w: "wargs_loop junk b a 0 u = Some (Some ?n, w)" "grown u w" "flat w = set_data b ?D2 (flat m)"
    using wargs_loop_law [OF grown_settled [OF u(1)] ue U(3) vec, of 0 junk] assms(5) L(1)
    by (auto simp: U(1,6) c0 set16_twice)
  have l: "length ?D2 = 512" using assms(5) L(1) by simp
  note W = buffer_set [OF w(3) assms(3) l]
  define t where "t = on_kern (set_arg 1 b (of_nat ?n)) w"
  let ?D3 = "set16 ?D2 1 (of_nat ?n)"
  have t: "grown w t" "flat t = set_data b ?D3 (flat m)"
    using vm_set_data_law [OF grown_settled [OF w(2)], of b "\<lambda>s. set16 (buf_data b s) 1 (of_nat ?n)"] W(1)
    by (simp_all add: t_def set_arg_eq W(6))
  have l3: "length ?D3 = 512" using l by simp
  have T: "buf_data b (kern t) = ?D3" by (rule buffer_set(1) [OF t(2) assms(3) l3])
  have "drop 6 ?D3 = drop 6 ?D2" by (simp add: set16_def drop_update_cancel)
  then have "take ?n (a_buf b (kern t)) = packed xs"
    using splice_same [of 6 "packed xs" "set16 ?D 0 (of_nat (length xs))"] assms(5) L(1) by (simp add: a_buf_def T)
  moreover have "get16 ?D3 0 = of_nat (length xs)" "get16 ?D3 1 = of_nat ?n"
    using l assms(5) L(1) by (simp_all add: get16_set16 get16_splice)
  ultimately have "holds_args b xs (kern t)" by (simp add: holds_args_def a_argc_def a_arglen_def T)
  moreover have "wargs junk a b m = Some (0, t)" using w(1) by (simp add: wargs_def u_def t_def)
  ultimately show ?thesis using t(2) l grown_trans [OF u(1) grown_trans [OF w(2) t(1)]] by (intro exI [of _ t] exI [of _ ?D3]) simp
qed

subsection \<open>The top page\<close>

text \<open>Addresses of the page 7 as numbers: \<open>mem s n bs\<close> says that the bytes from \<open>n\<close> up are \<open>bs\<close>.\<close>

fun mem :: "kst \<Rightarrow> nat \<Rightarrow> u8 list \<Rightarrow> bool" where
  "mem s n [] \<longleftrightarrow> True"
| "mem s n (b # bs) \<longleftrightarrow> umem s (of_nat n) = b \<and> mem s (Suc n) bs"

lemma mem_append: "mem s n (bs @ cs) \<longleftrightarrow> mem s n bs \<and> mem s (n + length bs) cs"
  by (induction bs arbitrary: n) auto

lemma mem_I: "(\<And>i. i < length bs \<Longrightarrow> umem s (of_nat (n + i)) = bs ! i) \<Longrightarrow> mem s n bs"
proof (induction bs arbitrary: n)
  case (Cons b bs)
  have "umem s (of_nat n) = b" using Cons.prems [of 0] by simp
  moreover have "umem s (of_nat (Suc n + i)) = bs ! i" if "i < length bs" for i using Cons.prems [of "Suc i"] that by simp
  ultimately show ?case using Cons.IH [of "Suc n"] by simp
qed simp

lemma of_nat_u16_eq: "i < 65536 \<Longrightarrow> j < 65536 \<Longrightarrow> (of_nat i :: u16) = of_nat j \<longleftrightarrow> i = j"
  using unat_of_small by metis

lemma page_no_top: "57344 \<le> n \<Longrightarrow> n < 65536 \<Longrightarrow> page_no (of_nat n) = 7"
  by (simp add: page_no_div unat_of_small div_nat_eqI)

lemma legal_top: "57344 \<le> n \<Longrightarrow> n < 65536 \<Longrightarrow> legal s (of_nat n) \<longleftrightarrow> upages s ! 7"
  by (simp add: legal_def page_no_top)

lemma uput_top:
  assumes a: "57344 \<le> n" "n + length bs < 65536" and l: "upages s ! 7"
  shows "uput bs (of_nat n) s = (0, s\<lparr>umem := dma_put (of_nat n) bs (umem s)\<rparr>)"
proof (cases "length bs < 50")
  case True
  have "legal s (of_nat n + of_nat i)" if "i < length bs" for i
    using legal_top [of "n + i" s] a l that by simp
  then show ?thesis using True uwrite_legal [of bs "legal s" "of_nat n"] by (simp add: uput_def Let_def)
next
  case False
  have "page_no (of_nat n + of_nat (length bs)) = 7" using page_no_top [of "n + length bs"] a by simp
  then show ?thesis using False legal_top [of n s] page_no_top [of n] a l by (simp add: uput_def Let_def)
qed

lemma dma_put_nat:
  assumes "n + length bs \<le> 65536" "i < 65536"
  shows "dma_put (of_nat n) bs w (of_nat i) = (if n \<le> i \<and> i < n + length bs then bs ! (i - n) else w (of_nat i))"
  using assms
proof (induction bs arbitrary: n w)
  case (Cons b bs)
  have "dma_put (of_nat n) (b # bs) w (of_nat i) = dma_put (of_nat (Suc n)) bs (w(of_nat n := b)) (of_nat i)"
    by (simp add: add.commute)
  also have "\<dots> = (if Suc n \<le> i \<and> i < Suc n + length bs then bs ! (i - Suc n) else (w(of_nat n := b)) (of_nat i))"
    using Cons.prems by (intro Cons.IH) simp_all
  also have "\<dots> = (if n \<le> i \<and> i < n + length (b # bs) then (b # bs) ! (i - n) else w (of_nat i))"
    using Cons.prems of_nat_u16_eq [of i n] by (auto simp: nth_Cons' less_Suc_eq_le)
  finally show ?case .
qed auto

lemma string_from_mem:
  assumes "mem s n (x @ [0])" "0 \<notin> set x" "upages s ! 7" "57344 \<le> n" "n + length x < 65536"
  shows "string_at s (of_nat n) x"
  using assms
proof (induction x arbitrary: n)
  case (Cons c x)
  have "string_at s (of_nat (Suc n)) x" using Cons.prems by (intro Cons.IH) auto
  moreover have "of_nat n + 1 = (of_nat (Suc n) :: u16)" by simp
  ultimately have "string_at s (of_nat n + 1) x" by (simp only:)
  then show ?case using Cons.prems legal_top [of n s] by auto
qed (use legal_top in simp)

fun ptrs :: "nat \<Rightarrow> u8 list list \<Rightarrow> u16 list" where
  "ptrs n [] = []"
| "ptrs n (x # xs) = of_nat n # ptrs (n + length x + 1) xs"

lemma length_ptrs [simp]: "length (ptrs n xs) = length xs"
  by (induction xs arbitrary: n) auto

lemma uword_mem: "mem s n (lo8 w # hi8 w # bs) \<Longrightarrow> uword s (of_nat n) = w"
  by (simp add: uword_def add.commute)

lemma legal_word_top: "57344 \<le> n \<Longrightarrow> n + 1 < 65536 \<Longrightarrow> upages s ! 7 \<Longrightarrow> legal_word s (of_nat n)"
  using legal_top [of n s] legal_top [of "n + 1" s] by (simp add: legal_word_def add.commute)

lemma vector_from_mem:
  assumes "mem s a (words_bytes (ptrs n xs) @ [0, 0])" "mem s n (packed xs)" "\<forall>x \<in> set xs. 0 \<notin> set x" "upages s ! 7"
    "57344 \<le> a" "a + 2 * length xs + 2 \<le> 65536" "57344 \<le> n" "n + length (packed xs) \<le> 65536"
  shows "vector_at s (of_nat a) xs"
  using assms
proof (induction xs arbitrary: a n)
  case Nil
  then have "uword s (of_nat a) = le16 0 0" by (simp add: uword_def add.commute)
  then show ?case using legal_word_top [of a s] Nil by (simp add: le16_def)
next
  case (Cons x xs)
  have w: "uword s (of_nat a) = of_nat n" using Cons.prems(1) by (intro uword_mem [of s a "of_nat n" "words_bytes (ptrs (n + length x + 1) xs) @ [0, 0]"]) simp
  have lw: "legal_word s (of_nat a)" using Cons.prems(4-6) by (intro legal_word_top) simp_all
  have nz: "(of_nat n :: u16) \<noteq> 0" using of_nat_u16_eq [of n 0] Cons.prems(7,8) by simp
  have m: "mem s n (x @ [0])" "mem s (n + length x + 1) (packed xs)" using Cons.prems(2) by (simp_all add: mem_append)
  have str: "string_at s (of_nat n) x" using m(1) Cons.prems(3,4,7,8) by (intro string_from_mem) simp_all
  have "mem s (a + 2) (words_bytes (ptrs (n + length x + 1) xs) @ [0, 0])" using Cons.prems(1) by simp
  then have "vector_at s (of_nat (a + 2)) xs" using m(2) Cons.prems(3-8) by (intro Cons.IH [of "a + 2" "n + length x + 1"]) simp_all
  then show ?case using w lw nz str by (simp add: add.commute)
qed

subsection \<open>Putting the arguments on the stack\<close>

lemma vput_top:
  assumes m: "settled m" and a: "57344 \<le> n" "n + length bs < 65536" "length bs \<le> 8192" and l: "upages (flat m) ! 7"
  shows "\<exists>t. vuput bs (of_nat n) m = Some (True, t) \<and> grown m t \<and> flat t = (flat m)\<lparr>umem := dma_put (of_nat n) bs (umem (flat m))\<rparr>"
  using uput_flat [of m bs "of_nat n"] m a(3) uput_top [OF a(1,2) l] by (auto simp: settled_def)

lemma flat_same:
  assumes "flat t = (flat m)\<lparr>umem := w\<rparr>"
  shows "buf_data b (kern t) = buf_data b (kern m)" "upages (flat t) = upages (flat m)" "umem (flat t) = w"
    "u_error (kern t) = u_error (kern m)" "room b (kern t) = room b (kern m)"
proof -
  have "buf_data b (flat t) = buf_data b (flat m)" using assms by (simp add: buf_data_def bufp_def del: flat_buf)
  then show "buf_data b (kern t) = buf_data b (kern m)" by (simp only: flat_buf)
  show "upages (flat t) = upages (flat m)" "umem (flat t) = w" using assms by simp_all
  have "u_error (flat t) = u_error (flat m)" "room b (flat t) = room b (flat m)"
    using assms by (simp_all add: room_def buf_data_def bufp_def del: flat_buf)
  then show "u_error (kern t) = u_error (kern m)" "room b (kern t) = room b (kern m)" by (simp_all only: flat_buf)
qed

lemma skip_packed: "0 \<notin> set x \<Longrightarrow> skip_str (x @ 0 # ys) = Some (length x + 1)"
  by (induction x) auto

lemma rargs_loop_law:
  assumes "settled m" "upages (flat m) ! 7" "57344 \<le> a" "a + 2 * length xs < 65536"
    and "take (length (packed xs)) (drop k (a_buf b (kern m))) = packed xs" "\<forall>x \<in> set xs. 0 \<notin> set x"
  shows "\<exists>t. rargs_loop b (length xs) (of_nat n) k (of_nat a) m = Some t \<and> grown m t \<and>
    flat t = (flat m)\<lparr>umem := dma_put (of_nat a) (words_bytes (ptrs n xs)) (umem (flat m))\<rparr>"
  using assms
proof (induction xs arbitrary: a n k m)
  case Nil
  then show ?case using grown_refl by (simp add: settled_def)
next
  case (Cons x xs)
  let ?w = "of_nat n :: u16"
  obtain u where u: "vuput [lo8 ?w, hi8 ?w] (of_nat a) m = Some (True, u)" "grown m u"
      "flat u = (flat m)\<lparr>umem := dma_put (of_nat a) [lo8 ?w, hi8 ?w] (umem (flat m))\<rparr>"
    using vput_top [OF Cons.prems(1,3), of "[lo8 ?w, hi8 ?w]"] Cons.prems(2,4) by auto
  note U = flat_same [OF u(3)]
  have put: "vuputw ?w (of_nat a) m = Some u" using u(1) by (simp add: vuputw_def)
  show ?case
  proof (cases "xs = []")
    case True
    then show ?thesis using put u(2,3) by (simp add: fun_upd_def)
  next
    case False
    let ?A = "drop k (a_buf b (kern m))"
    have A: "?A = x @ 0 # packed xs @ drop (length (packed (x # xs))) ?A"
      using append_take_drop_id [of "length (packed (x # xs))" ?A] Cons.prems(5) by simp
    have sk: "skip_str (drop k (a_buf b (kern u))) = Some (length x + 1)"
      using skip_packed [of x] Cons.prems(6) A U(1) by (simp add: a_buf_def)
    have "drop (k + (length x + 1)) (a_buf b (kern u)) = packed xs @ drop (length (packed (x # xs))) ?A"
    proof -
      have "drop (k + (length x + 1)) (a_buf b (kern u)) = drop (length x + 1) ?A" by (simp add: a_buf_def U(1) ac_simps)
      also have "\<dots> = packed xs @ drop (length (packed (x # xs))) ?A" by (subst A) simp
      finally show ?thesis .
    qed
    then have nx: "take (length (packed xs)) (drop (k + (length x + 1)) (a_buf b (kern u))) = packed xs" by simp
    obtain t where t: "rargs_loop b (length xs) (of_nat (n + length x + 1)) (k + (length x + 1)) (of_nat (a + 2)) u = Some t" "grown u t"
        "flat t = (flat u)\<lparr>umem := dma_put (of_nat (a + 2)) (words_bytes (ptrs (n + length x + 1) xs)) (umem (flat u))\<rparr>"
      using Cons.IH [OF grown_settled [OF u(2)] _ _ _ nx, of "a + 2" "n + length x + 1"] Cons.prems(2-4,6) U(2) by auto
    have e: "of_nat n + of_nat (length x + 1) = (of_nat (n + length x + 1) :: u16)" "of_nat a + 2 = (of_nat (a + 2) :: u16)" by simp_all
    have "rargs_loop b (length (x # xs)) ?w k (of_nat a) m = Some t"
      using put sk t(1) False by (simp only: length_Cons rargs_loop.simps bind.bind_lunit e) simp
    moreover have "flat t = (flat m)\<lparr>umem := dma_put (of_nat a) (words_bytes (ptrs n (x # xs))) (umem (flat m))\<rparr>"
      using t(3) dma_put_append [of "of_nat a" "[lo8 ?w, hi8 ?w]" "words_bytes (ptrs (n + length x + 1) xs)"] u(3)
      by (simp add: add.commute)
    ultimately show ?thesis using grown_trans [OF u(2) t(2)] by blast
  qed
qed

text \<open>Where \<^verbatim>\<open>rargs\<close> puts the strings below an address, and the pointers.\<close>

definition strings_below :: "nat \<Rightarrow> u8 list list \<Rightarrow> nat" where
  "strings_below hi xs = (let n = hi - length (packed xs) in if odd n then n - 1 else n)"

definition ptrs_below :: "nat \<Rightarrow> u8 list list \<Rightarrow> nat" where
  "ptrs_below hi xs = strings_below hi xs - 2 * (length xs + 1)"

lemma below_bounds:
  assumes "length (packed xs) \<le> 500" "2000 \<le> hi"
  shows "ptrs_below hi xs + 2 * length xs + 2 = strings_below hi xs" "hi \<le> strings_below hi xs + length (packed xs) + 1"
    "strings_below hi xs + length (packed xs) \<le> hi" "hi \<le> ptrs_below hi xs + 1503"
proof -
  let ?n = "hi - length (packed xs)"
  have n: "?n + length (packed xs) = hi" "1500 \<le> ?n" "length xs \<le> 500" using assms length_packed [of xs] by simp_all
  have s: "strings_below hi xs = ?n \<or> odd ?n \<and> strings_below hi xs = ?n - 1" by (simp add: strings_below_def Let_def)
  then show "hi \<le> strings_below hi xs + length (packed xs) + 1" "strings_below hi xs + length (packed xs) \<le> hi"
    using n by (auto elim!: oddE)
  show "ptrs_below hi xs + 2 * length xs + 2 = strings_below hi xs" using s n by (auto simp: ptrs_below_def)
  then show "hi \<le> ptrs_below hi xs + 1503" using s n assms(1) by auto
qed

definition with_args :: "nat \<Rightarrow> u8 list list \<Rightarrow> (u16 \<Rightarrow> u8) \<Rightarrow> u16 \<Rightarrow> u8" where
  "with_args hi xs w =
     dma_put (of_nat (ptrs_below hi xs)) (words_bytes (ptrs (strings_below hi xs) xs)) (dma_put (of_nat (strings_below hi xs)) (packed xs) w)"

lemma odd_u16: "(of_nat n :: u16) AND 1 \<noteq> 0 \<longleftrightarrow> odd n"
  by (simp add: and_one_eq mod_2_eq_odd)

lemma align_u16:
  "0 < n \<Longrightarrow> (if (of_nat n :: u16) AND 1 \<noteq> 0 then of_nat n - 1 else of_nat n) = (of_nat (if odd n then n - 1 else n) :: u16)"
  by (simp add: odd_u16 of_nat_diff)

lemma rargs_law:
  assumes m: "settled m" "upages (flat m) ! 7" and b: "holds_args b xs (kern m)" and xs: "length (packed xs) \<le> 500" "\<forall>x \<in> set xs. 0 \<notin> set x"
    and hi: "60000 \<le> hi" "hi \<le> 65534"
  shows "\<exists>t. rargs (of_nat hi) b m = Some (of_nat (ptrs_below hi xs), of_nat (length xs), t) \<and> grown m t \<and>
    flat t = (flat m)\<lparr>umem := with_args hi xs (umem (flat m))\<rparr>"
proof -
  let ?l = "length (packed xs)" and ?n = "strings_below hi xs" and ?a = "ptrs_below hi xs"
  have T: "2000 \<le> hi" using hi by simp
  note B = below_bounds [OF xs(1) T]
  have n500: "length xs \<le> 500" using length_packed [of xs] xs(1) by simp
  have len: "a_arglen b (kern m) = of_nat ?l" "a_argc b (kern m) = of_nat (length xs)" "take ?l (a_buf b (kern m)) = packed xs"
    using b by (simp_all add: holds_args_def)
  have ul: "unat (a_arglen b (kern m)) = ?l" "unat (a_argc b (kern m)) = length xs" using len xs(1) n500 by (simp_all add: unat_of_small)
  have p: "of_nat hi - of_nat ?l = (of_nat (hi - ?l) :: u16)" using xs(1) T by (simp add: of_nat_diff)
  have pe: "(if (of_nat (hi - ?l) :: u16) AND 1 \<noteq> 0 then of_nat (hi - ?l) - 1 else of_nat (hi - ?l)) = (of_nat ?n :: u16)"
    using align_u16 [of "hi - ?l"] xs(1) T by (simp only: strings_below_def Let_def)
  have base: "of_nat ?n - 2 * (of_nat (length xs) + 1) = (of_nat ?a :: u16)"
    using arg_cong [OF B(1), of "of_nat :: nat \<Rightarrow> u16"] by (simp add: algebra_simps)
  obtain u where u: "put_strings b (of_nat ?n) m = Some u"
      "grown m u" "flat u = (flat m)\<lparr>umem := dma_put (of_nat ?n) (packed xs) (umem (flat m))\<rparr>"
  proof (cases "?l = 0")
    case True
    then show thesis using that [of m] m(1) grown_refl by (simp add: put_strings_def len(1) settled_def)
  next
    case False
    then have "(of_nat ?l :: u16) \<noteq> 0" using of_nat_u16_eq [of ?l 0] xs(1) by simp
    moreover obtain t where "vuput (packed xs) (of_nat ?n) m = Some (True, t)" "grown m t"
      "flat t = (flat m)\<lparr>umem := dma_put (of_nat ?n) (packed xs) (umem (flat m))\<rparr>"
      using vput_top [OF m(1) _ _ _ m(2), of ?n "packed xs"] B xs(1) hi by auto
    moreover have "unat (of_nat ?l :: u16) = ?l" using xs(1) by (simp add: unat_of_small)
    ultimately show thesis using that [of t] by (simp add: put_strings_def len)
  qed
  note U = flat_same [OF u(3)]
  have pk: "take ?l (drop 0 (a_buf b (kern u))) = packed xs" using len(3) by (simp add: a_buf_def U(1))
  obtain t where t: "rargs_loop b (length xs) (of_nat ?n) 0 (of_nat ?a) u = Some t" "grown u t"
      "flat t = (flat u)\<lparr>umem := dma_put (of_nat ?a) (words_bytes (ptrs ?n xs)) (umem (flat u))\<rparr>"
    using rargs_loop_law [OF grown_settled [OF u(2)] _ _ _ pk xs(2), of ?a ?n] m(2) U(2) B hi by auto
  have cu: "a_argc b (kern u) = of_nat (length xs)" using len(2) by (simp add: a_argc_def U(1))
  have "rargs (of_nat hi) b m = Some (of_nat ?a, of_nat (length xs), t)"
    unfolding rargs_def Let_def len(1) p pe using u(1) t(1) n500 base by (simp add: cu unat_of_small)
  moreover have "flat t = (flat m)\<lparr>umem := with_args hi xs (umem (flat m))\<rparr>" using t(3) by (simp add: u(3) with_args_def)
  ultimately show ?thesis using grown_trans [OF u(2) t(2)] by blast
qed

lemma with_args_at:
  assumes "length (packed xs) \<le> 500" "2000 \<le> hi" "hi \<le> 65534" "i < 65536"
  shows "with_args hi xs w (of_nat i) =
    (if strings_below hi xs \<le> i \<and> i < strings_below hi xs + length (packed xs) then packed xs ! (i - strings_below hi xs)
     else if ptrs_below hi xs \<le> i \<and> i < ptrs_below hi xs + 2 * length xs
     then words_bytes (ptrs (strings_below hi xs) xs) ! (i - ptrs_below hi xs) else w (of_nat i))"
proof -
  have l: "length (words_bytes ws) = 2 * length ws" for ws by (induction ws) auto
  note B = below_bounds [OF assms(1,2)]
  have "ptrs_below hi xs + length (words_bytes (ptrs (strings_below hi xs) xs)) \<le> 65536" "strings_below hi xs + length (packed xs) \<le> 65536"
    using B assms(3) by (simp_all add: l)
  then show ?thesis unfolding with_args_def using B by (simp add: dma_put_nat assms(4) l)
qed

text \<open>The vector that \<^verbatim>\<open>rargs\<close> leaves, in a memory that agrees with its result on its range and whose word for the
  end of the vector was 0.\<close>

lemma vector_of_args:
  assumes xs: "length (packed xs) \<le> 500" "\<forall>x \<in> set xs. 0 \<notin> set x" and hi: "60000 \<le> hi" "hi \<le> 65534" and p: "upages s ! 7"
    and s: "\<And>i. ptrs_below hi xs \<le> i \<Longrightarrow> i < hi \<Longrightarrow> umem s (of_nat i) = with_args hi xs w (of_nat i)"
    and w: "\<And>i. 57344 \<le> i \<Longrightarrow> i < 65536 \<Longrightarrow> w (of_nat i) = 0"
  shows "vector_at s (of_nat (ptrs_below hi xs)) xs"
proof (rule vector_from_mem)
  have h: "2000 \<le> hi" using hi by simp
  note B = below_bounds [OF xs(1) h] and W = with_args_at [OF xs(1) h hi(2)]
  have l: "length (words_bytes ws) = 2 * length ws" for ws by (induction ws) auto
  show "mem s (ptrs_below hi xs) (words_bytes (ptrs (strings_below hi xs) xs) @ [0, 0])"
  proof (rule mem_I)
    fix i assume i: "i < length (words_bytes (ptrs (strings_below hi xs) xs) @ [0, 0])"
    then have "umem s (of_nat (ptrs_below hi xs + i)) = with_args hi xs w (of_nat (ptrs_below hi xs + i))"
      using B by (intro s) (simp_all add: l)
    also have "\<dots> = (words_bytes (ptrs (strings_below hi xs) xs) @ [0, 0]) ! i"
      using i B hi w [of "ptrs_below hi xs + i"] by (subst W) (auto simp: l nth_append nth_Cons' numeral_2_eq_2)
    finally show "umem s (of_nat (ptrs_below hi xs + i)) = (words_bytes (ptrs (strings_below hi xs) xs) @ [0, 0]) ! i" .
  qed
  show "mem s (strings_below hi xs) (packed xs)"
  proof (rule mem_I)
    fix i assume i: "i < length (packed xs)"
    then have "umem s (of_nat (strings_below hi xs + i)) = with_args hi xs w (of_nat (strings_below hi xs + i))"
      using B by (intro s) simp_all
    also have "\<dots> = packed xs ! i" using i B hi by (subst W) simp_all
    finally show "umem s (of_nat (strings_below hi xs + i)) = packed xs ! i" .
  qed
  show "57344 \<le> ptrs_below hi xs" "57344 \<le> strings_below hi xs" "ptrs_below hi xs + 2 * length xs + 2 \<le> 65536"
    "strings_below hi xs + length (packed xs) \<le> 65536" using B hi by simp_all
qed (use xs p in simp_all)

lemma vm_brelse_law:
  assumes "settled m"
  shows "\<exists>t. at_kern (brelse b) m = Some t \<and> grown m t \<and> umem (flat t) = umem (flat m) \<and> upages (flat t) = upages (flat m)"
proof -
  let ?f = "upd_buf b (\<lambda>bp. bp\<lparr>bf_dirty := bf_dirty bp OR 0, bf_busy := False\<rparr>)"
  have "at_kern (brelse b) m = Some (on_kern ?f m)" by (simp add: at_kern_def brelse_def bfree_def Let_def on_kern_def)
  moreover have "ptab (?f (kern m)) = ptab (kern m)" "u_ptab (?f (kern m)) = u_ptab (kern m)" by (simp_all add: upd_buf_def)
  ultimately show ?thesis using on_kern_law [OF assms, of ?f] by simp
qed

lemma vuget_keeps:
  assumes "settled m" "ucount n \<le> 8192"
  shows "\<exists>r bs t. vuget a n m = Some (r, bs, t) \<and> grown m t \<and> umem (flat t) = umem (flat m) \<and> upages (flat t) = upages (flat m)"
proof -
  have "umem (snd (snd (uget a n s))) = umem s" "upages (snd (snd (uget a n s))) = upages s" for s
    by (auto simp: uget_def set_error_def Let_def)
  then show ?thesis using uget_flat [of m n a] assms by (auto simp: settled_def)
qed

text \<open>A new image: its top page is part of the address space and nothing is loaded there yet.\<close>

definition fresh_image :: "vm \<Rightarrow> bool" where
  "fresh_image m \<longleftrightarrow> settled m \<and> upages (flat m) ! 7 \<and> (\<forall>i. 57344 \<le> i \<longrightarrow> i < 65536 \<longrightarrow> umem (flat m) (of_nat i) = 0)"

lemma two_words:
  assumes "n + 4 \<le> 65536" "i < 65536"
  shows "dma_put (of_nat n) [a, b] (dma_put (of_nat (n + 2)) [c, d] w) (of_nat i) =
    (if i = n then a else if i = n + 1 then b else if i = n + 2 then c else if i = n + 3 then d else w (of_nat i))"
proof -
  have "dma_put (of_nat n) [a, b] v (of_nat i) = (if i = n then a else if i = n + 1 then b else v (of_nat i))" for v
    using dma_put_nat [of n "[a, b]" i v] assms by (auto simp: nth_Cons' simp del: dma_put.simps)
  moreover have "dma_put (of_nat (n + 2)) [c, d] w (of_nat i) = (if i = n + 2 then c else if i = n + 3 then d else w (of_nat i))"
    using dma_put_nat [of "n + 2" "[c, d]" i w] assms by (auto simp: nth_Cons' simp del: dma_put.simps)
  ultimately show ?thesis by simp
qed

lemma push_args_law:
  assumes n: "fresh_image m" "holds_args ab xs (kern m)" "holds_args eb es (kern m)" and xs: "length (packed xs) \<le> 500" "\<forall>x \<in> set xs. 0 \<notin> set x"
    and es: "length (packed es) \<le> 500" "\<forall>x \<in> set es. 0 \<notin> set x"
  shows "\<exists>nargv nenvp t. push_args junk ab eb m = Some (nenvp, t) \<and> vector_at (flat t) nargv xs \<and> vector_at (flat t) nenvp es \<and>
    uword (flat t) (nenvp - 2) = of_nat (length xs) \<and> uword (flat t) (nenvp - 4) = nargv \<and> grown m t"
proof -
  let ?w0 = "umem (flat m)" and ?h = "65534 :: nat"
  let ?B1 = "ptrs_below ?h xs" and ?B2 = "ptrs_below (ptrs_below ?h xs) es"
  have M: "settled m" "upages (flat m) ! 7" "holds_args ab xs (kern m)" "holds_args eb es (kern m)"
    "\<And>i. 57344 \<le> i \<Longrightarrow> i < 65536 \<Longrightarrow> ?w0 (of_nat i) = 0"
    using n by (simp_all add: fresh_image_def)
  have b1: "60000 \<le> ?B1 + 2000" "64000 \<le> ?B1" "?B1 \<le> 65534" using below_bounds [OF xs(1), of ?h] by simp_all
  have b2: "62000 \<le> ?B2" "?B2 \<le> ?B1" using below_bounds [OF es(1), of ?B1] b1 by simp_all
  obtain t1 where t1: "rargs (of_nat ?h) ab m = Some (of_nat ?B1, of_nat (length xs), t1)" "grown m t1"
      "flat t1 = (flat m)\<lparr>umem := with_args ?h xs ?w0\<rparr>"
    using rargs_law [OF M(1-3) xs, of ?h] by auto
  note F1 = flat_same [OF t1(3)]
  have eb: "holds_args eb es (kern t1)" using M(4) by (simp add: holds_args_def a_argc_def a_arglen_def a_buf_def F1(1))
  obtain t2 where t2: "rargs (of_nat ?B1) eb t1 = Some (of_nat ?B2, of_nat (length es), t2)" "grown t1 t2"
      "flat t2 = (flat t1)\<lparr>umem := with_args ?B1 es (umem (flat t1))\<rparr>"
    using rargs_law [OF grown_settled [OF t1(2)] _ eb es, of ?B1] M(2) F1(2) b1 by auto
  note F2 = flat_same [OF t2(3)]
  have pg: "upages (flat t2) ! 7" using M(2) F1(2) F2(2) by simp
  define w where "w = with_args ?B1 es (with_args ?h xs ?w0)"
  have w2: "umem (flat t2) = w" by (simp add: w_def F1(3) F2(3))
  have lw: "legal_word (flat t2) (of_nat ?B1)" using legal_word_top [OF _ _ pg, of ?B1] b1 by simp
  obtain t3 where t3: "vugetw junk (of_nat ?B1) t2 = Some (uword (flat t2) (of_nat ?B1), t3)" "grown t2 t3" "flat t3 = flat t2"
    using vugetw_law [OF grown_settled [OF t2(2)] lw] by blast
  have "ucount 8 \<le> 8192" by (simp add: ucount_def)
  then obtain r bs t4 where t4: "vuget (uword (flat t2) (of_nat ?B1)) 8 t3 = Some (r, bs, t4)" "grown t3 t4" "umem (flat t4) = w" "upages (flat t4) = upages (flat t2)"
    using vuget_keeps [OF grown_settled [OF t3(2)], of 8 "uword (flat t2) (of_nat ?B1)"] t3(3) w2 by auto
  define t5 where "t5 = t4\<lparr>u_name := splice 0 bs (u_name t4)\<rparr>"
  have t5: "grown t4 t5" "flat t5 = flat t4"
  proof -
    have pt: "ptable k t5 = ptable k t4" "slots k t5 = slots k t4" "pgp x t5 = pgp x t4" for k x by (simp_all add: t5_def ptable_def slots_def pgp_def)
    have see: "sees k t5 j = sees k t4 j" for k j by (rule sees_cong) (simp_all add: pt, simp add: t5_def)
    have "vm_ok t5 = vm_ok t4" by (rule vm_ok_other) (simp_all add: t5_def)
    moreover have "left t5 = left t4" "lack t5 = lack t4" by (simp_all add: left_def lack_def ready_def pt) (simp_all add: t5_def)
    moreover have "kern t5 = kern t4" "c_mode t5 = c_mode t4" "mmu t5 = mmu t4" "u_page t5 = u_page t4" by (simp_all add: t5_def)
    moreover have "vm_ok t4" "enough t4" "c_mode t4 = 0" using grown_settled [OF t4(2)] by (simp_all add: settled_def)
    ultimately show "grown t4 t5" "flat t5 = flat t4" by (simp_all add: grown_def enough_def others_same_def ready_def see flat_def dbyte_def)
  qed
  obtain t6 where t6: "at_kern (brelse ab) t5 = Some t6" "grown t5 t6" "umem (flat t6) = w" "upages (flat t6) = upages (flat t2)"
    using vm_brelse_law [OF grown_settled [OF t5(1)], of ab] t4(3,4) t5(2) by auto
  obtain t7 where t7: "at_kern (brelse eb) t6 = Some t7" "grown t6 t7" "umem (flat t7) = w" "upages (flat t7) = upages (flat t2)"
    using vm_brelse_law [OF grown_settled [OF t6(2)], of eb] t6(3,4) by auto
  have sub: "of_nat ?B2 - 2 = (of_nat (?B2 - 2) :: u16)" "of_nat ?B2 - 4 = (of_nat (?B2 - 4) :: u16)" using b2 by (simp_all add: of_nat_diff)
  let ?c = "of_nat (length xs) :: u16" and ?a = "of_nat ?B1 :: u16"
  define cs where "cs = [lo8 ?c, hi8 ?c]"
  define as where "as = [lo8 ?a, hi8 ?a]"
  have two: "length cs = 2" "length as = 2" by (simp_all add: cs_def as_def)
  have bd: "57344 \<le> ?B2 - 2" "?B2 - 2 + length cs < 65536" "57344 \<le> ?B2 - 4" "?B2 - 4 + length as < 65536" "length cs \<le> 8192" "length as \<le> 8192"
    using two b1 b2 by linarith+
  have p7: "upages (flat t7) ! 7" using pg t7(4) by simp
  obtain t8 where t8: "vuput cs (of_nat (?B2 - 2)) t7 = Some (True, t8)" "grown t7 t8" "flat t8 = (flat t7)\<lparr>umem := dma_put (of_nat (?B2 - 2)) cs w\<rparr>"
    using vput_top [OF grown_settled [OF t7(2)] bd(1,2,5) p7] t7(3) by auto
  note F8 = flat_same [OF t8(3)]
  have p8: "upages (flat t8) ! 7" using p7 F8(2) by simp
  obtain t9 where t9: "vuput as (of_nat (?B2 - 4)) t8 = Some (True, t9)" "grown t8 t9"
      "flat t9 = (flat t8)\<lparr>umem := dma_put (of_nat (?B2 - 4)) as (umem (flat t8))\<rparr>"
    using vput_top [OF grown_settled [OF t8(2)] bd(3,4,6) p8] by auto
  note F9 = flat_same [OF t9(3)]
  have h: "(0 - 2 :: u16) = of_nat ?h" by simp
  have run: "push_args junk ab eb m = Some (of_nat ?B2, t9)"
    unfolding push_args_def h using t1(1) t2(1) t3(1) t4(1) t6(1) t7(1) t8(1) t9(1) sub
    by (simp add: vuputw_def del: of_nat_numeral flip: t5_def cs_def as_def)
  define k where "k = ?B2 - 4"
  have k: "?B2 = k + 4" "?B2 - 2 = k + 2" "?B2 - 4 = k" "k + 4 \<le> 65536" using b2 b1(3) by (simp_all add: k_def)
  have at: "umem (flat t9) (of_nat i) = (if i = k then lo8 ?a else if i = k + 1 then hi8 ?a
      else if i = k + 2 then lo8 ?c else if i = k + 3 then hi8 ?c else w (of_nat i))" if "i < 65536" for i
    using two_words [OF k(4) that, of "lo8 ?a" "hi8 ?a" "lo8 ?c" "hi8 ?c" w] by (simp only: F9(3) F8(3) cs_def as_def k(2,3))
  have p9: "upages (flat t9) ! 7" using pg t7(4) F8(2) F9(2) by simp
  have v1: "vector_at (flat t9) (of_nat ?B1) xs"
  proof (rule vector_of_args [where w = ?w0, OF xs _ _ p9])
    fix i assume i: "?B1 \<le> i" "i < ?h"
    have "umem (flat t9) (of_nat i) = w (of_nat i)" using at [of i] i b2 b1 k by simp
    also have "\<dots> = with_args ?h xs ?w0 (of_nat i)"
      using with_args_at [OF es(1), of ?B1 i] below_bounds [OF es(1), of ?B1] i b1 by (simp add: w_def)
    finally show "umem (flat t9) (of_nat i) = with_args ?h xs ?w0 (of_nat i)" .
  qed (use M(5) in simp_all)
  have low: "with_args ?h xs ?w0 (of_nat i) = 0" if "57344 \<le> i" "i < ?B1" for i
    using with_args_at [OF xs(1), of ?h i] below_bounds [OF xs(1), of ?h] M(5) [of i] that b1 by simp
  define w1 where "w1 a = (if unat a < ?B1 then with_args ?h xs ?w0 a else 0)" for a
  have v2: "vector_at (flat t9) (of_nat ?B2) es"
  proof (rule vector_of_args [OF es _ _ p9])
    show "60000 \<le> ?B1" "?B1 \<le> 65534" using b1 by simp_all
    fix i assume i: "?B2 \<le> i" "i < ?B1"
    have "umem (flat t9) (of_nat i) = w (of_nat i)" using at [of i] i b2 b1 k by simp
    also have "\<dots> = with_args ?B1 es w1 (of_nat i)"
      using with_args_at [OF es(1), of ?B1 i] i b1 by (simp add: w_def w1_def unat_of_small)
    finally show "umem (flat t9) (of_nat i) = with_args ?B1 es w1 (of_nat i)" .
  next
    show "w1 (of_nat i) = 0" if "57344 \<le> i" "i < 65536" for i using low [of i] that by (simp add: w1_def unat_of_small)
  qed
  have W: "umem (flat t9) (of_nat k) = lo8 ?a" "umem (flat t9) (of_nat (k + 1)) = hi8 ?a" "umem (flat t9) (of_nat (k + 2)) = lo8 ?c"
    "umem (flat t9) (of_nat (k + 3)) = hi8 ?c"
    using at [of k] at [of "k + 1"] at [of "k + 2"] at [of "k + 3"] k(4) by simp_all
  have e: "of_nat k + 1 = (of_nat (k + 1) :: u16)" "of_nat (k + 2) + 1 = (of_nat (k + 3) :: u16)" by simp_all
  have "uword (flat t9) (of_nat (?B2 - 2)) = ?c" "uword (flat t9) (of_nat (?B2 - 4)) = ?a"
    unfolding k(2,3) uword_def e W by simp_all
  moreover have "grown m t9" 
    by (rule grown_trans [OF t1(2) grown_trans [OF t2(2) grown_trans [OF t3(2) grown_trans [OF t4(2) grown_trans [OF t5(1)
          grown_trans [OF t6(2) grown_trans [OF t7(2) grown_trans [OF t8(2) t9(2)]]]]]]]])
  ultimately show ?thesis using run v1 v2 by (intro exI [of _ "of_nat ?B1"] exI [of _ "of_nat ?B2"] exI [of _ t9]) (simp add: sub)
qed

lemma holds_args_cong: "buf_data b t = buf_data b s \<Longrightarrow> holds_args b xs t = holds_args b xs s"
  by (simp add: holds_args_def a_argc_def a_arglen_def a_buf_def)

text \<open>C20: the arguments and the environment survive the change of program. From any vectors of strings in the old
  image that together with their ends take at most 500 bytes each, \<^verbatim>\<open>wargs\<close> fills the two
  buffers without touching anybody's memory; and if the new image, whatever it is, has an untouched top page and
  the same two buffers, then \<^verbatim>\<open>rargs\<close> and what follows it put the same two vectors of strings at the addresses \<open>nargv\<close> and
  \<open>nenvp\<close> of the new image, with \<^verbatim>\<open>argc\<close> and \<^verbatim>\<open>nargv\<close> in the words that the new stack pointer \<open>nenvp - 4\<close>
  reaches.\<close>

theorem exec_keeps_arguments:
  assumes m: "settled m" "u_error (kern m) = NOERR" "room ab (kern m)" "room eb (kern m)" "ab \<noteq> eb"
    and xs: "vector_at (flat m) argv xs" "length (packed xs) \<le> 500" and es: "vector_at (flat m) envp es" "length (packed es) \<le> 500"
  shows "\<exists>t u. wargs junk argv ab m = Some (0, t) \<and> wargs junk envp eb t = Some (0, u) \<and> others_same m u \<and>
    (\<forall>n. fresh_image n \<and> buf_data ab (kern n) = buf_data ab (kern u) \<and> buf_data eb (kern n) = buf_data eb (kern u) \<longrightarrow>
       (\<exists>nargv nenvp v. push_args junk ab eb n = Some (nenvp, v) \<and> vector_at (flat v) nargv xs \<and> vector_at (flat v) nenvp es \<and>
          uword (flat v) (nenvp - 2) = of_nat (length xs) \<and> uword (flat v) (nenvp - 4) = nargv))"
proof -
  obtain t d where t: "wargs junk argv ab m = Some (0, t)" "grown m t" "flat t = set_data ab d (flat m)" "length d = 512" "holds_args ab xs (kern t)"
    using wargs_law [OF m(1-3) xs, of junk] by blast
  note T = buffer_set [OF t(3) m(3) t(4)]
  have et: "u_error (kern t) = NOERR" "vector_at (flat t) envp es" using m(2) es(1) T by simp_all
  obtain u d' where u: "wargs junk envp eb t = Some (0, u)" "grown t u" "flat u = set_data eb d' (flat t)" "length d' = 512" "holds_args eb es (kern u)"
    using wargs_law [OF grown_settled [OF t(2)] et(1) T(5) [OF m(4)] et(2) es(2), of junk] by blast
  have "buf_data ab (kern u) = buf_data ab (kern t)" by (rule buffer_set(4) [OF u(3) T(5) [OF m(4)] u(4) m(5)])
  then have "holds_args ab xs (kern u)" using t(5) holds_args_cong by blast
  moreover have "others_same m u" using grown_trans [OF t(2) u(2)] by (simp add: grown_def)
  moreover have "\<exists>nargv nenvp v. push_args junk ab eb n = Some (nenvp, v) \<and> vector_at (flat v) nargv xs \<and> vector_at (flat v) nenvp es \<and>
      uword (flat v) (nenvp - 2) = of_nat (length xs) \<and> uword (flat v) (nenvp - 4) = nargv"
    if n: "fresh_image n" "buf_data ab (kern n) = buf_data ab (kern u)" "buf_data eb (kern n) = buf_data eb (kern u)" for n
  proof -
    have "holds_args ab xs (kern n)" "holds_args eb es (kern n)"
      using \<open>holds_args ab xs (kern u)\<close> u(5) holds_args_cong n(2,3) by blast+
    from push_args_law [OF n(1) this xs(2) vector_at_no_nul [OF xs(1)] es(2) vector_at_no_nul [OF es(1)]] show ?thesis by blast
  qed
  ultimately show ?thesis using t(1) u(1) by blast
qed

text \<open>A process whose arguments are the one string \<^verbatim>\<open>a\<close>.\<close>

definition one_arg :: vm where
  "one_arg = (vm0 P_RUNNING)\<lparr>phys := (\<lambda>f a. if a = 0x10 then 0x20 else if a = 0x20 then 97 else 0)\<rparr>"

lemma exec_keeps_arguments_witness:
  "\<exists>t u n nargv nenvp v. wargs 0 0x10 2 one_arg = Some (0, t) \<and> wargs 0 0x30 3 t = Some (0, u) \<and>
     push_args 0 2 3 n = Some (nenvp, v) \<and> vector_at (flat v) nargv [[97]] \<and> vector_at (flat v) nenvp []"
proof -
  let ?m = one_arg
  have ok: "settled ?m"
  proof -
    have "vm_ok ?m = vm_ok (vm0 P_RUNNING)" by (rule vm_ok_other) (simp_all add: one_arg_def)
    moreover have "enough ?m = enough (vm0 P_RUNNING)" by (simp add: one_arg_def enough_def lack_def left_def ready_def pgp_def)
    ultimately show ?thesis using vm0_ok vm0_enough by (simp add: settled_def one_arg_def vm0_def)
  qed
  have byte: "dbyte ?m a = Some (if page_off a = 0x10 then 0x20 else if page_off a = 0x20 then 97 else 0)" if "page_no a = 0" for a
    using that by (simp add: dbyte_def sees_def ptable_def one_arg_def vm0_def two_tasks_frame tab0_def)
  have bytes: "umem (flat ?m) 0x10 = 0x20" "umem (flat ?m) 0x11 = 0" "umem (flat ?m) 0x12 = 0" "umem (flat ?m) 0x13 = 0"
    "umem (flat ?m) 0x20 = 97" "umem (flat ?m) 0x21 = 0" "umem (flat ?m) 0x30 = 0" "umem (flat ?m) 0x31 = 0"
    by (simp_all add: flat_mem byte page_no_def page_off_def)
  have leg: "legal (flat ?m) a" if "page_no a = 0" for a using that by (simp add: flat_legal one_arg_def tab0_def)
  have vec: "vector_at (flat ?m) 0x10 [[97]]" "vector_at (flat ?m) 0x30 []"
    by (simp_all add: legal_word_def uword_def bytes leg page_no_def le16_def)
  have rm: "room 2 (kern ?m)" "room 3 (kern ?m)" "u_error (kern ?m) = NOERR"
    by (simp_all add: one_arg_def vm0_def room_def two_tasks_def sample_def buf_data_def bufp_def blank_def)
  have ne: "(2 :: nat) \<noteq> 3" and len: "length (packed [[97]]) \<le> 500" "length (packed []) \<le> 500" by simp_all
  obtain t u where tu: "wargs 0 0x10 2 ?m = Some (0, t)" "wargs 0 0x30 3 t = Some (0, u)"
    "\<And>n. fresh_image n \<Longrightarrow> buf_data 2 (kern n) = buf_data 2 (kern u) \<Longrightarrow> buf_data 3 (kern n) = buf_data 3 (kern u) \<Longrightarrow>
       \<exists>nargv nenvp v. push_args 0 2 3 n = Some (nenvp, v) \<and> vector_at (flat v) nargv [[97]] \<and> vector_at (flat v) nenvp []"
    using exec_keeps_arguments [OF ok rm(3,1,2) ne vec(1) len(1) vec(2) len(2), of 0] by blast
  define n where "n = (vm0 P_RUNNING)\<lparr>kern := (two_tasks P_RUNNING)\<lparr>bufpool := bufpool (kern u)\<rparr>\<rparr>"
  have k: "ptab ((two_tasks P_RUNNING)\<lparr>bufpool := b\<rparr>) = ptab (kern (vm0 P_RUNNING))"
    "u_ptab ((two_tasks P_RUNNING)\<lparr>bufpool := b\<rparr>) = u_ptab (kern (vm0 P_RUNNING))" for b by simp_all
  have c0: "settled (vm0 P_RUNNING)" using vm0_ok vm0_enough by (simp add: settled_def vm0_def)
  have "settled n" using grown_settled [OF kern_other(3) [OF k]] c0 by (simp add: n_def settled_def)
  moreover have "flat n = ((two_tasks P_RUNNING)\<lparr>bufpool := bufpool (kern u)\<rparr>)\<lparr>umem := umem (flat (vm0 P_RUNNING)), upages := upages (flat (vm0 P_RUNNING))\<rparr>"
    using kern_other(2) [OF k] by (simp add: n_def)
  moreover have "upages (flat (vm0 P_RUNNING)) ! 7" by (simp add: upages_flat tab0_nth)
  moreover have "umem (flat (vm0 P_RUNNING)) (of_nat i) = 0" if "57344 \<le> i" "i < 65536" for i
    using page_no_top [OF that] by (simp add: flat_mem dbyte_def sees_def ptable_def two_tasks_frame tab0_nth)
  ultimately have "fresh_image n" by (simp add: fresh_image_def)
  moreover have "buf_data i (kern n) = buf_data i (kern u)" for i by (simp add: n_def buf_data_def bufp_def)
  ultimately show ?thesis using tu by blast
qed

end
