(* ===== verification/ExecImage.thy ===== *)
theory ExecImage
  imports ExecArgs
begin

section \<open>The image of a process is replaced\<close>

text \<open>
  \<^verbatim>\<open>_execve\<close> gives up the pages of the old program and, when the new one is kept in memory by a process in the state
  \<^verbatim>\<open>P_ZOMBIE2\<close>, shares that process's pages. The invariant of the page tables holds again when the MMU is
  loaded, and no other process notices.
\<close>

subsection \<open>Giving up the old pages\<close>

definition own_table :: "vm \<Rightarrow> upg list" where
  "own_table m = take (own_pages (procp (u_ptab (kern m)) (kern m))) (u_page m)"

text \<open>The cases in which the two rules of \<^verbatim>\<open>_execve\<close> free each page as often as the process owns it: a child of
  \<^verbatim>\<open>fork\<close> owns both halves of its table; another program owns one half if it has one kind of pages, and else
  two halves without common pages, where the bytes that \<^verbatim>\<open>u_page[j-8]->pg_addr\<close> reads for a page that is not
  there are not by chance the address of the code page.\<close>

definition can_drop :: "vm \<Rightarrow> bool" where
  "can_drop m \<longleftrightarrow>
     (if p_fork_inf (procp (u_ptab (kern m)) (kern m)) \<noteq> 0 then \<not> bintype m
      else bintype m \<or> (\<forall>j < 8. \<forall>i. u_page m ! (j + 8) = Page i \<longrightarrow> pg_addr (pgp i m) \<noteq> page_addr (u_page m ! j) m))"

definition dropped :: "nat \<Rightarrow> vm \<Rightarrow> vm \<Rightarrow> bool" where
  "dropped n m t \<longleftrightarrow> kern t = kern m \<and> ublk t = ublk m \<and> mmu t = mmu m \<and> phys t = phys m \<and> length (pgtab t) = length (pgtab m) \<and>
     u_page t = take n (u_page m) @ replicate (16 - n) VIRGPAGE \<and>
     (\<forall>x < length (pgtab m). pg_addr (pgp x t) = pg_addr (pgp x m) \<and>
        unat (pg_refs (pgp x t)) + count_list (drop n (own_table m)) (Page x) = uses x m)"

lemma own_count_le:
  assumes "vm_ok m"
  shows "count_list (own_table m) (Page x) \<le> uses x m"
proof -
  note D = vm_okD [OF assms]
  have "slots (u_ptab (kern m)) m = own_table m" using D(9) by (simp add: slots_def own_table_def ptable_def)
  then show ?thesis using uses_split [OF D(8), of x m] by simp
qed

lemma drop_page_step:
  assumes ok: "vm_ok m" "can_drop m" and j: "j < 16" and t: "dropped (Suc j) m t"
  shows "\<exists>u. drop_page j t = Some u \<and> dropped j m u"
proof -
  note D = vm_okD [OF ok(1)]
  let ?me = "procp (u_ptab (kern m)) (kern m)"
  have T: "kern t = kern m" "length (pgtab t) = length (pgtab m)" "u_page t = take (Suc j) (u_page m) @ replicate (15 - j) VIRGPAGE"
    using t by (simp_all add: dropped_def)
  have len: "length (u_page m) = 16" by (rule D(6))
  have at: "u_page t ! i = u_page m ! i" if "i \<le> j" for i using that j len by (simp add: T(3) nth_append)
  have own: "length (own_table m) = own_pages ?me" using len by (simp add: own_table_def own_pages_def)
  have set: "dropped j m (set_page j VIRGPAGE u)"
    if u: "kern u = kern m" "ublk u = ublk m" "mmu u = mmu m" "phys u = phys m" "length (pgtab u) = length (pgtab m)" "u_page u = u_page t"
      "\<And>x. x < length (pgtab m) \<Longrightarrow> pg_addr (pgp x u) = pg_addr (pgp x m) \<and>
         unat (pg_refs (pgp x u)) + count_list (drop j (own_table m)) (Page x) = uses x m" for u
  proof -
    have "(u_page t)[j := VIRGPAGE] = take j (u_page m) @ replicate (16 - j) VIRGPAGE"
      using j len by (auto simp: T(3) take_Suc_conv_app_nth list_update_append Suc_diff_Suc simp flip: replicate_Suc)
    then show ?thesis using u by (simp add: dropped_def set_page_def pgp_def)
  qed
  have refs: "pg_addr (pgp x t) = pg_addr (pgp x m) \<and> unat (pg_refs (pgp x t)) + count_list (drop (Suc j) (own_table m)) (Page x) = uses x m"
    if "x < length (pgtab m)" for x using t that by (simp add: dropped_def)
  have fr: "kern t = kern m" "ublk t = ublk m" "mmu t = mmu m" "phys t = phys m" using t by (simp_all add: dropped_def)
  show ?thesis
  proof (cases "j < own_pages ?me \<and> (\<exists>i. u_page m ! j = Page i)")
    case False
    have cnt: "count_list (drop (Suc j) (own_table m)) (Page x) = count_list (drop j (own_table m)) (Page x)" for x
    proof (cases "j < own_pages ?me")
      case True
      then have "drop j (own_table m) = u_page m ! j # drop (Suc j) (own_table m)"
        using own by (simp add: Cons_nth_drop_Suc [symmetric]) (simp add: own_table_def)
      then show ?thesis using False True by auto
    qed (simp add: own)
    have "drop_page j t = Some (set_page j VIRGPAGE t)"
    proof (cases "u_page m ! j")
      case (Page i)
      then have b: "bintype m" "8 \<le> j" using False j by (auto simp: own_pages_def bintype_def split: if_splits)
      then have "u_page m ! (j - 8) = Page i" using twin_page [of _ "u_page m" j i] D(10) j Page by (simp add: twin_def)
      then have "page_addr (u_page t ! (j - 8)) t = pg_addr (pgp i t)" using at [of "j - 8"] by (simp add: page_addr_def)
      moreover have "p_fork_inf ?me = 0" using ok(2) b by (auto simp: can_drop_def split: if_splits)
      ultimately show ?thesis using b(2) Page at [of j] by (simp add: drop_page_def T(1))
    qed (simp_all add: drop_page_def at)
    then show ?thesis using set [of t] fr refs T(2) cnt by simp
  next
    case True
    then obtain i where i: "j < own_pages ?me" "u_page m ! j = Page i" by blast
    have il: "i < length (pgtab m)" using Paging.table_okD(2) [OF D(10) j i(2)] .
    have dr: "drop j (own_table m) = Page i # drop (Suc j) (own_table m)"
      using own i by (simp add: Cons_nth_drop_Suc [symmetric]) (simp add: own_table_def)
    have "count_list (drop j (own_table m)) (Page i) \<le> count_list (own_table m) (Page i)"
      using append_take_drop_id [of j "own_table m"] count_list_append [of "take j (own_table m)"] by (metis le_add2)
    then have pos: "0 < unat (pg_refs (pgp i t))" using refs [OF il] own_count_le [OF ok(1), of i] by (simp add: dr)
    let ?u = "upd_pg i (\<lambda>pg. pg\<lparr>pg_refs := pg_refs pg - 1\<rparr>) t"
    have nz: "pg_refs (pgp i t) \<noteq> 0" using pos by auto
    have free: "pg_free i t = Some ?u" using nz by (simp add: pg_free_def)
    have "drop_page j t = Some (set_page j VIRGPAGE ?u)"
    proof (cases "p_fork_inf ?me = 0")
      case True
      have "j < 8 \<or> pg_addr (pgp i t) \<noteq> page_addr (u_page t ! (j - 8)) t"
      proof (cases "j < 8")
        case no: False
        then have nb: "\<not> bintype m" using i(1) by (auto simp: own_pages_def bintype_def split: if_splits)
        have "pg_addr (pgp i m) \<noteq> page_addr (u_page m ! (j - 8)) m"
          using ok(2) True nb no i(2) j by (simp add: can_drop_def)
        moreover have "page_addr (u_page m ! (j - 8)) t = page_addr (u_page m ! (j - 8)) m"
        proof (cases "u_page m ! (j - 8)")
          case (Page i')
          then have "i' < length (pgtab m)" using Paging.table_okD(2) [OF D(10), of "j - 8"] j by simp
          then show ?thesis using Page refs by (simp add: page_addr_def)
        qed (simp_all add: page_addr_def fr)
        ultimately show ?thesis using at [of "j - 8"] refs [OF il] by simp
      qed simp
      then show ?thesis using True free i(2) at [of j] by (simp add: drop_page_def T(1))
    next
      case False
      then show ?thesis using free nz i(2) at [of j] by (simp add: drop_page_def T(1))
    qed
    moreover have "pg_addr (pgp x ?u) = pg_addr (pgp x m) \<and> unat (pg_refs (pgp x ?u)) + count_list (drop j (own_table m)) (Page x) = uses x m"
      if x: "x < length (pgtab m)" for x
    proof (cases "x = i")
      case True
      have "unat (pg_refs (pgp i t) - 1) = unat (pg_refs (pgp i t)) - 1" using pos by (simp add: unat_sub word_le_nat_alt)
      then show ?thesis using True refs [OF il] il pos by (simp add: pgp_upd T(2) dr)
    next
      case False
      then show ?thesis using refs [OF x] il by (simp add: pgp_upd T(2) dr)
    qed
    ultimately show ?thesis using set [of ?u] fr T(2) by simp
  qed
qed

lemma foldM_down:
  "n \<le> 16 \<Longrightarrow> dropped n m t \<Longrightarrow> vm_ok m \<Longrightarrow> can_drop m \<Longrightarrow> \<exists>u. foldM drop_page (rev [0..<n]) t = Some u \<and> dropped 0 m u"
proof (induction n arbitrary: t)
  case (Suc n)
  then obtain v where "drop_page n t = Some v" "dropped n m v" using drop_page_step [of m n t] by auto
  then show ?case using Suc.IH [of v] Suc.prems by simp
qed simp

lemma drop_all:
  assumes "vm_ok m" "can_drop m"
  shows "\<exists>u. foldM drop_page (rev [0..<16]) m = Some u \<and> dropped 0 m u"
proof (rule foldM_down)
  note D = vm_okD [OF assms(1)]
  have l: "length (own_table m) \<le> 16" using D(6) by (simp add: own_table_def)
  have "unat (pg_refs (pgp x m)) = uses x m" if "x < length (pgtab m)" for x using D(3) [OF that] by (simp add: desc_ok_def Let_def)
  then show "dropped 16 m m" using D(6) l by (simp add: dropped_def)
qed (use assms in simp_all)

subsection \<open>Taking the pages of a kept program\<close>

definition others_uses :: "nat \<Rightarrow> vm \<Rightarrow> nat" where
  "others_uses x m = uses x m - count_list (own_table m) (Page x)"

text \<open>State \<open>m\<close> with no pages of the running process left: what \<^verbatim>\<open>drop_image\<close> establishes.\<close>

definition bare :: "vm \<Rightarrow> vm \<Rightarrow> bool" where
  "bare m t \<longleftrightarrow> ublk t = ublk m \<and> mmu t = mmu m \<and> phys t = phys m \<and> length (pgtab t) = length (pgtab m) \<and>
     kern t = upd_proc (u_ptab (kern m)) (\<lambda>p. p\<lparr>p_fork_inf := 0\<rparr>) (kern m) \<and> u_page t = replicate 16 VIRGPAGE \<and>
     (\<forall>x < length (pgtab m). pg_addr (pgp x t) = pg_addr (pgp x m) \<and> unat (pg_refs (pgp x t)) = others_uses x m)"

lemma drop_image_law:
  assumes "vm_ok m" "can_drop m"
  shows "\<exists>t. drop_image m = Some t \<and> bare m t"
proof -
  obtain u where u: "foldM drop_page (rev [0..<16]) m = Some u" "dropped 0 m u" using drop_all [OF assms] by blast
  let ?t = "set_me (\<lambda>p. p\<lparr>p_fork_inf := 0\<rparr>) u"
  have "drop_image m = Some ?t" using u(1) by (simp add: drop_image_def)
  moreover have "bare m ?t"
    using u(2) own_count_le [OF assms(1)] by (auto simp: bare_def dropped_def set_me_def others_uses_def le_add_diff_inverse2)
  ultimately show ?thesis by blast
qed

definition given :: "nat \<Rightarrow> nat \<Rightarrow> upg list \<Rightarrow> vm \<Rightarrow> vm \<Rightarrow> bool" where
  "given n own tab m t \<longleftrightarrow> kern t = kern m \<and> ublk t = ublk m \<and> mmu t = mmu m \<and> phys t = phys m \<and> length (pgtab t) = length (pgtab m) \<and>
     u_page t = take n tab @ drop n (u_page m) \<and>
     (\<forall>x < length (pgtab m). pg_refs (pgp x t) = pg_refs (pgp x m) + of_nat (count_list (take n (take own tab)) (Page x)) \<and>
        pg_addr (pgp x t) = (if Page x \<in> set (take n tab) then pg_addr (pgp x m) OR 5 else pg_addr (pgp x m)))"

lemma give_step:
  assumes t: "given n own tab m t" and n: "n < 16" and own: "own = (if once then 8 else 16)"
    and tab: "length tab = 16" "length (u_page m) = 16" "\<And>i. tab ! n = Page i \<Longrightarrow> i < length (pgtab m)"
  shows "given (Suc n) own tab m (set_page n (tab ! n) (share_page once n (tab ! n) t))"
proof -
  have tk: "take (Suc n) tab = take n tab @ [tab ! n]" using n tab(1) by (simp add: take_Suc_conv_app_nth)
  have tk2: "take (Suc n) (take own tab) = take n (take own tab) @ (if n < own then [tab ! n] else [])"
    using n tab(1) own by (auto simp: take_Suc_conv_app_nth)
  have up: "(u_page t)[n := x] = take n tab @ x # drop (Suc n) (u_page m)" for x
    using t n tab(1,2) by (simp add: given_def list_update_append Cons_nth_drop_Suc [symmetric])
  have T: "kern t = kern m" "ublk t = ublk m" "mmu t = mmu m" "phys t = phys m" "length (pgtab t) = length (pgtab m)"
    "\<And>x. x < length (pgtab m) \<Longrightarrow> pg_refs (pgp x t) = pg_refs (pgp x m) + of_nat (count_list (take n (take own tab)) (Page x))"
    "\<And>x. x < length (pgtab m) \<Longrightarrow> pg_addr (pgp x t) = (if Page x \<in> set (take n tab) then pg_addr (pgp x m) OR 5 else pg_addr (pgp x m))"
    using t by (simp_all add: given_def)
  show ?thesis
  proof (cases "tab ! n")
    case (Page i)
    note i = tab(3) [OF Page]
    define u where "u = share_page once n (tab ! n) t"
    have cond: "(once \<and> 8 \<le> n) = (\<not> n < own)" using own n by auto
    have u: "kern u = kern m" "ublk u = ublk m" "mmu u = mmu m" "phys u = phys m" "length (pgtab u) = length (pgtab m)" "u_page u = u_page t"
      "\<And>x. pgp x u = (if x = i then (pgp i t)\<lparr>pg_addr := pg_addr (pgp i t) OR 5, pg_refs := pg_refs (pgp i t) + (if n < own then 1 else 0)\<rparr> else pgp x t)"
      using i T(5) by (auto simp: u_def share_page_def Page cond T(1-5) pg_realloc_def pgp_upd or_addr_def)
    have "u_page (set_page n (tab ! n) u) = take (Suc n) tab @ drop (Suc n) (u_page m)" by (simp add: set_page_def u(6) up tk)
    moreover have "pgp x (set_page n (tab ! n) u) = pgp x u" for x by (simp add: set_page_def pgp_def)
    ultimately show ?thesis using i T(6,7) unfolding u_def [symmetric]
      by (simp add: given_def u(1-5,7) tk tk2 Page or.assoc)
  qed (use t up in \<open>auto simp: given_def share_page_def set_page_def pgp_def tk tk2 simp del: take_take\<close>)
qed

lemma give_pages_law:
  assumes z: "z < PTABSIZE" "p_ublk (procp z (kern m)) = Some b" and tab: "length (b_page (ublk m b)) = 16" "length (u_page m) = 16"
    "\<And>j i. j < 16 \<Longrightarrow> b_page (ublk m b) ! j = Page i \<Longrightarrow> i < length (pgtab m)"
  shows "\<exists>t. give_pages (Some z) m = Some t \<and> given 16 (own_pages (procp z (kern m))) (b_page (ublk m b)) m t"
proof -
  let ?tab = "b_page (ublk m b)" and ?once = "p_bintype (procp z (kern m)) \<noteq> 0" and ?own = "own_pages (procp z (kern m))"
  let ?f = "\<lambda>j m'. let pg = b_page (ublk m' b) ! j in set_page j pg (share_page ?once j pg m')"
  have "n \<le> 16 \<Longrightarrow> given n ?own ?tab m (fold ?f [0..<n] m)" for n
  proof (induction n)
    case 0
    show ?case by (simp add: given_def)
  next
    case (Suc n)
    then have "ublk (fold ?f [0..<n] m) = ublk m" by (simp add: given_def)
    moreover have "given (Suc n) ?own ?tab m (set_page n (?tab ! n) (share_page ?once n (?tab ! n) (fold ?f [0..<n] m)))"
      using Suc tab(1,2) tab(3) [of n] by (intro give_step) (simp_all add: own_pages_def)
    ultimately show ?case by (simp add: Let_def)
  qed
  then show ?thesis using z by (simp add: give_pages_def Let_def)
qed

lemma unat_add_u8: "unat (a :: u8) + n < 256 \<Longrightarrow> unat (a + of_nat n) = unat a + n"
  by (simp add: unat_word_ariths unsigned_of_nat take_bit_nat_eq_self)

subsection \<open>The new image\<close>

text \<open>The running process of \<open>m\<close> gets the page table \<open>tab\<close>, of which it owns the first \<open>own\<close> entries.\<close>

lemma new_table:
  assumes ok: "vm_ok m" and u: "bare m u" and v: "given 16 own tab u v" and own: "own = (if b \<noteq> 0 then 8 else 16)"
    and tab: "Paging.table_ok (length (pgtab m)) (b \<noteq> 0) tab" and used: "\<forall>j < 16. \<forall>x. tab ! j = Page x \<longrightarrow> 1 \<le> uses x m"
  shows "vm_ok (ldmmu (set_me (\<lambda>p. p\<lparr>p_bintype := b\<rparr>) v)) \<and>
    (\<forall>k < PTABSIZE. \<forall>j < 16. holds k (kern m) \<longrightarrow> sees k (ldmmu (set_me (\<lambda>p. p\<lparr>p_bintype := b\<rparr>) v)) j =
       (if k \<noteq> u_ptab (kern m) then sees k m j
        else (\<lambda>a. case tab ! j of Page i \<Rightarrow> Some (phys m (page_frame (pg_addr (pgp i m))) a) | VIRGPAGE \<Rightarrow> Some 0 | _ \<Rightarrow> None)))"
proof -
  note D = vm_okD [OF ok]
  let ?c = "u_ptab (kern m)" and ?n = "length (pgtab m)"
  define w where "w = set_me (\<lambda>p. p\<lparr>p_bintype := b\<rparr>) v"
  have len: "length tab = 16" using tab by (simp add: Paging.table_ok_def)
  have lp: "length (ptab (kern m)) = PTABSIZE" using D(1) by (simp add: procs_ok_def)
  have kv: "kern v = upd_proc ?c (\<lambda>p. p\<lparr>p_fork_inf := 0\<rparr>) (kern m)" using u v by (simp add: bare_def given_def)
  have W: "u_page w = tab" "length (pgtab w) = ?n" "mmu w = mmu m" "ublk w = ublk m" "phys w = phys m" "u_ptab (kern w) = ?c" "length (ptab (kern w)) = PTABSIZE"
    using u v len lp by (simp_all add: w_def set_me_def bare_def given_def upd_proc_def)
  have pw: "procp k (kern w) = (if k = ?c then (procp ?c (kern m))\<lparr>p_fork_inf := 0, p_bintype := b\<rparr> else procp k (kern m))" for k
    using lp D(8) by (simp add: w_def set_me_def kv procp_def upd_proc_def nth_list_update)
  have hold: "holds k (kern w) = holds k (kern m)" for k by (simp add: holds_def pw)
  have pt: "ptable k w = (if k = ?c then tab else ptable k m)" for k by (simp add: ptable_def W pw)
  have sl: "slots k w = slots k m" if "k \<noteq> ?c" for k using that by (simp add: slots_def hold pt pw)
  have slc: "slots ?c w = take own tab" "slots ?c m = own_table m"
    using D(9) own by (simp_all add: slots_def hold pt pw own_pages_def own_table_def) (simp add: ptable_def)
  have uses: "uses x w = others_uses x m + count_list (take own tab) (Page x)" for x
    using uses_split [OF D(8), of x w] uses_split [OF D(8), of x m] sl by (simp add: slc others_uses_def)
  have le: "others_uses x m \<le> uses x m" "uses x m \<le> 60" for x using uses_bound [OF D(2)] by (simp_all add: others_uses_def)
  have "count_list (take own tab) (Page x) \<le> length (take own tab)" for x by (rule count_le_length)
  then have cl: "count_list (take own tab) (Page x) \<le> 16" for x using len own by (metis le_trans length_take min.cobounded1)
  have pg: "pg_refs (pgp x w) = pg_refs (pgp x u) + of_nat (count_list (take own tab) (Page x))"
    "pg_addr (pgp x w) = (if Page x \<in> set tab then pg_addr (pgp x m) OR 5 else pg_addr (pgp x m))"
    "unat (pg_refs (pgp x u)) = others_uses x m" if "x < ?n" for x
    using u v that len own by (auto simp: given_def bare_def w_def set_me_def)
  have fr: "page_frame (pg_addr (pgp x w)) = page_frame (pg_addr (pgp x m))" if "x < ?n" for x using pg(2) [OF that] by (simp add: frame_bits)
  have "desc_ok x w" if x: "x < ?n" for x
  proof -
    have mx: "uses x m > 1 \<longrightarrow> pg_addr (pgp x m) AND 4 \<noteq> 0" "uses x m > 0 \<longrightarrow> pg_addr (pgp x m) AND 8 \<noteq> 0"
      using D(3) [OF x] by (simp_all add: desc_ok_def Let_def)
    have "unat (pg_refs (pgp x w)) = uses x w"
      using unat_add_u8 [of "pg_refs (pgp x u)"] pg(1,3) [OF x] le [of x] cl [of x] by (simp add: uses)
    moreover have "(uses x w > 1 \<longrightarrow> pg_addr (pgp x w) AND 4 \<noteq> 0) \<and> (uses x w > 0 \<longrightarrow> pg_addr (pgp x w) AND 8 \<noteq> 0)"
    proof (cases "Page x \<in> set tab")
      case True
      then obtain j where "j < 16" "tab ! j = Page x" using len by (auto simp: in_set_conv_nth)
      then have "uses x m > 0" using used by fastforce
      then show ?thesis using True mx pg(2) [OF x] by (simp add: valid_bits)
    next
      case False
      then have "Page x \<notin> set (take own tab)" by (meson in_set_takeD)
      then have "uses x w \<le> uses x m" using uses [of x] le [of x] by (simp add: count_list_0_iff)
      then show ?thesis using False mx pg(2) [OF x] by simp
    qed
    ultimately show ?thesis by (simp add: desc_ok_def Let_def)
  qed
  moreover have "tables_ok w" using D(2) tab by (simp add: tables_ok_def hold pt pw W(2))
  moreover have "inj_on (\<lambda>i. page_frame (pg_addr (pgp i w))) {..<?n}"
    using D(4) fr unfolding frames_ok_def by (subst inj_on_cong [of _ _ "\<lambda>i. page_frame (pg_addr (pgp i m))"]) simp_all
  ultimately have st: "store_ok w" by (simp add: store_ok_def frames_ok_def W(2))
  have pr: "procs_ok (kern w)" using D(8,9) by (simp add: procs_ok_def W(6,7) hold)
  have lm: "length (mmu w) = 16" using D(7) by (simp add: W(3))
  note L = ldmmu_law [OF st pr lm]
  have "sees k (ldmmu w) j = (if k \<noteq> ?c then sees k m j
      else (\<lambda>a. case tab ! j of Page i \<Rightarrow> Some (phys m (page_frame (pg_addr (pgp i m))) a) | VIRGPAGE \<Rightarrow> Some 0 | _ \<Rightarrow> None))"
    if k: "k < PTABSIZE" "j < 16" "holds k (kern m)" for k j
  proof (cases "k = ?c")
    case True
    have "i < ?n" if "tab ! j = Page i" for i using Paging.table_okD(2) [OF tab k(2) that] .
    then show ?thesis using True by (simp add: L(2) sees_def pt fr W(5) fun_eq_iff split: upg.split)
  next
    case False
    have "sees k w j = sees k m j"
      using False Paging.table_okD(2) [OF tables_okD [OF D(2) k(1,3)] k(2)] fr by (intro sees_cong) (simp_all add: pt W(5))
    then show ?thesis using False L(2) by simp
  qed
  then show ?thesis using L(1) unfolding w_def by blast
qed

text \<open>C19: when \<^verbatim>\<open>execve\<close> replaces the image, the invariant of the page tables holds again once the MMU is loaded: every
  page the old program owned is given back exactly as often as it was owned, no other process sees a change in its
  pages, and the new image has 16 untouched pages of zeros, or, if a process kept as \<^verbatim>\<open>zombie2\<close> has the program, the
  same contents in every page as that process, shared copy-on-write.\<close>

theorem exec_replaces_image:
  assumes ok: "vm_ok m" "can_drop m"
    and z: "z = None \<or> (\<exists>k b'. z = Some k \<and> k < PTABSIZE \<and> k \<noteq> u_ptab (kern m) \<and> holds k (kern m) \<and> p_ublk (procp k (kern m)) = Some b' \<and>
              (p_bintype (procp k (kern m)) \<noteq> 0) = (b \<noteq> 0))"
  shows "\<exists>t. do { m \<leftarrow> drop_image m; m \<leftarrow> give_pages z m; Some (ldmmu (set_me (\<lambda>p. p\<lparr>p_bintype := b\<rparr>) m)) } = Some t \<and> vm_ok t \<and>
    (\<forall>k < PTABSIZE. \<forall>j < 16. holds k (kern m) \<longrightarrow>
       sees k t j = (if k \<noteq> u_ptab (kern m) then sees k m j else case z of None \<Rightarrow> (\<lambda>_. Some 0) | Some k' \<Rightarrow> sees k' m j))"
proof -
  obtain u where u: "drop_image m = Some u" "bare m u" using drop_image_law [OF ok] by blast
  note D = vm_okD [OF ok(1)]
  let ?own = "if b \<noteq> 0 then 8 else 16 :: nat" and ?c = "u_ptab (kern m)"
  show ?thesis
  proof (cases z)
    case None
    let ?tab = "replicate 16 VIRGPAGE :: upg list"
    have "Page x \<notin> set (take n ?tab)" for n x by (meson in_set_replicate in_set_takeD upg.distinct(12))
    then have "given 16 ?own ?tab u u" using u(2) by (simp add: given_def bare_def count_list_0_iff)
    moreover have "Paging.table_ok (length (pgtab m)) (b \<noteq> 0) ?tab" by (simp add: Paging.table_ok_def)
    ultimately show ?thesis using new_table [OF ok(1) u(2), of ?own ?tab u b] u(1) None by (auto simp: give_pages_def)
  next
    case (Some k)
    then obtain b' where k: "k < PTABSIZE" "k \<noteq> ?c" "holds k (kern m)" "p_ublk (procp k (kern m)) = Some b'"
        "(p_bintype (procp k (kern m)) \<noteq> 0) = (b \<noteq> 0)" using z by auto
    let ?tab = "b_page (ublk m b')"
    have tb: "ptable k m = ?tab" using k by (simp add: ptable_def)
    have tok: "Paging.table_ok (length (pgtab m)) (b \<noteq> 0) ?tab" using tables_okD [OF D(2) k(1,3)] k(5) tb by simp
    have U: "ublk u = ublk m" "length (pgtab u) = length (pgtab m)" "length (u_page u) = 16" "procp k (kern u) = procp k (kern m)"
      using u(2) k(2) by (simp_all add: bare_def procp_def upd_proc_def)
    obtain v where v: "give_pages (Some k) u = Some v" "given 16 (own_pages (procp k (kern u))) (b_page (ublk u b')) u v"
      using give_pages_law [of k u b'] k(1,4) U Paging.table_okD(2) [OF tok] tok by (auto simp: Paging.table_ok_def)
    have own: "own_pages (procp k (kern u)) = ?own" using k(5) U(4) by (simp add: own_pages_def)
    have used: "\<forall>j < 16. \<forall>x. ?tab ! j = Page x \<longrightarrow> 1 \<le> uses x m" using page_used [OF D(2) k(1,3)] tb by simp
    have se: "sees k m j = (\<lambda>a. case ?tab ! j of Page i \<Rightarrow> Some (phys m (page_frame (pg_addr (pgp i m))) a) | VIRGPAGE \<Rightarrow> Some 0 | _ \<Rightarrow> None)" for j
      by (simp add: fun_eq_iff sees_def tb)
    show ?thesis
      using new_table [OF ok(1) u(2) v(2) [unfolded own U(1)] refl tok used] u(1) v(1) Some by (auto simp: se)
  qed
qed

lemma exec_replaces_image_witness:
  "\<exists>t. do { m \<leftarrow> drop_image (vm0 P_RUNNING); m \<leftarrow> give_pages (Some 1) m; Some (ldmmu (set_me (\<lambda>p. p\<lparr>p_bintype := 0\<rparr>) m)) } = Some t \<and>
     vm_ok t \<and> sees 0 t 0 = sees 1 (vm0 P_RUNNING) 0"
proof -
  have h: "holds 0 (two_tasks P_RUNNING)" "holds 1 (two_tasks P_RUNNING)"
    using two_tasks_holds [of 0 P_RUNNING] two_tasks_holds [of 1 P_RUNNING] by simp_all
  have p: "p_ublk (procp 1 (two_tasks P_RUNNING)) = Some 1" "p_bintype (procp 1 (two_tasks P_RUNNING)) = 0"
    using two_tasks_proc [of 1] by (simp_all add: no_proc_def)
  have "can_drop (vm0 P_RUNNING)"
    using two_tasks_proc [of 0 P_RUNNING] by (simp add: can_drop_def bintype_def two_tasks_frame tab0_nth init_proc_def no_proc_def)
  from exec_replaces_image [OF vm0_ok this, of "Some 1" 0] show ?thesis using h p by (auto simp: two_tasks_frame)
qed

end
