(* ===== verification/Fsck.thy ===== *)
theory Fsck
  imports Mkfs "HOL-Library.Signed_Division"
begin

section \<open>Checking a file system: FSCK2.C\<close>

text \<open>
  The checker as a program of its own over the buffer pool: \<open>fsck\<close> holds its global variables around the pool, \<open>behind\<close> is the
  program's memory that follows \<^verbatim>\<open>filsys\<close> (\<^verbatim>\<open>dwrite\<close> copies 512 bytes from a shorter structure), \<open>answers\<close>
  what is still to be read from the standard input. The two maps have the lengths \<^verbatim>\<open>calloc\<close> gave them; an access outside of them is
  \<open>wild\<close>. The model of \<^verbatim>\<open>main\<close> starts behind \<^verbatim>\<open>xfs_init\<close>. Messages are not modelled, except for the path name that
  \<^verbatim>\<open>ckdir\<close> builds for them in a buffer of 150 bytes.
\<close>

record fsck = bst +
  fdev :: int
  filsys :: filesys
  behind :: "u8 list"
  bitmap :: "u8 list"
  linkmap :: "u16 list"
  depth :: u16
  answers :: "u8 list"

subsection \<open>Input and output\<close>

text \<open>\<^verbatim>\<open>fgets\<close>: at most \<open>n\<close> characters, up to a newline.\<close>

fun fgets :: "nat \<Rightarrow> u8 list \<Rightarrow> u8 list \<times> u8 list" where
  "fgets 0 cs = ([], cs)"
| "fgets (Suc n) [] = ([], [])"
| "fgets (Suc n) (c # cs) = (if c = 10 then ([c], cs) else (let (l, r) = fgets n cs in (c # l, r)))"

definition yes :: "fsck \<Rightarrow> bool \<times> fsck" where
  "yes s = (let (line, r) = fgets 19 (answers s) in (line \<noteq> [] \<and> (line ! 0 = 121 \<or> line ! 0 = 89), s\<lparr>answers := r\<rparr>))"

definition daread :: "u16 \<Rightarrow> fsck \<Rightarrow> (block \<times> fsck) option" where
  "daread blk s = do {
     (b, s) \<leftarrow> breadp (fdev s) blk False s;
     let d = buf_data b s;
     (_, s) \<leftarrow> bfree b 0 s;
     Some (d, s) }"

definition fsck_dwrite :: "u16 \<Rightarrow> block \<Rightarrow> fsck \<Rightarrow> fsck option" where
  "fsck_dwrite blk data s = do {
     (b, s) \<leftarrow> breadp (fdev s) blk True s;
     (_, s) \<leftarrow> bfree b 2 (set_data b data s);
     Some s }"

definition iread :: "u16 \<Rightarrow> fsck \<Rightarrow> (dinode \<times> fsck) option" where
  "iread n s = do { (d, s) \<leftarrow> daread (ino_blk n) s; Some (get_dinode d (ino_slot n), s) }"

definition iwrite :: "u16 \<Rightarrow> dinode \<Rightarrow> fsck \<Rightarrow> fsck option" where
  "iwrite n ino s = do { (d, s) \<leftarrow> daread (ino_blk n) s; fsck_dwrite (ino_blk n) (put_dinode ino (ino_slot n) d) s }"

definition write_super :: "fsck \<Rightarrow> fsck option" where
  "write_super s = fsck_dwrite 1 (take 512 (fs_bytes (filsys s) @ behind s)) s"

definition getblkno :: "dinode \<Rightarrow> u16 \<Rightarrow> fsck \<Rightarrow> (u16 \<times> fsck) option" where
  "getblkno ino num s =
     (if num < 18 then Some (i_addr ino ! unat num, s)
      else if num < 256 + 18 then
        let indb = i_addr ino ! 18
        in if indb = 0 then Some (0, s) else do { (d, s) \<leftarrow> daread indb s; Some (get16 d (unat (num - 18)), s) }
      else
        let indb = i_addr ino ! 19
        in if indb = 0 then Some (0, s)
           else do {
             (d, s) \<leftarrow> daread indb s;
             (d, s) \<leftarrow> daread (get16 d (unat (drop_bit 8 (num - (18 + 256))))) s;
             Some (get16 d (unat ((num - (18 + 256)) AND 0xFF)), s) })"

definition setblkno :: "dinode \<Rightarrow> u16 \<Rightarrow> u16 \<Rightarrow> fsck \<Rightarrow> (dinode \<times> fsck) option" where
  "setblkno ino num dnum s =
     (if num < 18 then Some (ino\<lparr>i_addr := (i_addr ino)[unat num := dnum]\<rparr>, s)
      else if num < 256 + 18 then
        let indb = i_addr ino ! 18
        in if indb = 0 then panic ''Missing indirect block''
           else do {
             (d, s) \<leftarrow> daread indb s;
             s \<leftarrow> fsck_dwrite indb (set16 d (unat (num - 18)) dnum) s;
             Some (ino, s) }
      else
        let indb = i_addr ino ! 19
        in if indb = 0 then panic ''Missing indirect block''
           else do {
             (d, s) \<leftarrow> daread indb s;
             let dindb = get16 d (unat (drop_bit 8 (num - (18 + 256))));
             if dindb = 0 then panic ''Missing indirect block''
             else do {
               (d, s) \<leftarrow> daread dindb s;
               s \<leftarrow> fsck_dwrite indb (set16 d (unat ((num - (18 + 256)) AND 0xFF)) num) s;
               Some (ino, s) } })"

definition blk_alloc0 :: "fsck \<Rightarrow> (u16 \<times> fsck) option" where
  "blk_alloc0 s =
     (let f = filsys s; n = s_nfree f - 1
      in if unat n \<ge> 50 then wild
         else let newno = s_free f ! unat n
           in if newno = 0 then Some (0, s)
              else do {
                let f = f\<lparr>s_nfree := n\<rparr>;
                (f, s) \<leftarrow> (if n = 0 then do { (d, s) \<leftarrow> daread newno s; Some (load_chunk d f, s) } else Some (f, s));
                let f = f\<lparr>s_tfree := s_tfree f - 1\<rparr>;
                let s = s\<lparr>filsys := f\<rparr>;
                if newno < s_isize f \<or> newno \<ge> s_fsize f then Some (0, s)
                else do { s \<leftarrow> write_super s; Some (newno, s) } })"

text \<open>The loops \<^verbatim>\<open>for (i = a; i <= n; ++i)\<close> and \<^verbatim>\<open>for (j = a; j >= n; --j)\<close> on 16-bit numbers.\<close>

partial_function (option) count_up :: "(u16 \<Rightarrow> 's \<Rightarrow> 's option) \<Rightarrow> u16 \<Rightarrow> u16 \<Rightarrow> 's \<Rightarrow> 's option" where
  "count_up f i n s = (if i \<le> n then Option.bind (f i s) (count_up f (i + 1) n) else Some s)"

partial_function (option) count_down :: "(u16 \<Rightarrow> 's \<Rightarrow> 's option) \<Rightarrow> u16 \<Rightarrow> u16 \<Rightarrow> 's \<Rightarrow> 's option" where
  "count_down f j n s = (if n \<le> j then Option.bind (f j s) (count_down f (j - 1) n) else Some s)"

definition inodes :: "fsck \<Rightarrow> u16 list" where
  "inodes s = map of_nat [unat ROOTINODE..<unat (8 * (s_isize (filsys s) - 2))]"

definition set_mark :: "u8 \<Rightarrow> u16 \<Rightarrow> fsck \<Rightarrow> fsck option" where
  "set_mark v b s = (if unat b < length (bitmap s) then Some (s\<lparr>bitmap := (bitmap s)[unat b := v]\<rparr>) else wild)"

definition get_mark :: "u16 \<Rightarrow> fsck \<Rightarrow> u8 option" where
  "get_mark b s = (if unat b < length (bitmap s) then Some (bitmap s ! unat b) else wild)"

definition set_link :: "u16 \<Rightarrow> u16 \<Rightarrow> fsck \<Rightarrow> fsck option" where
  "set_link n v s = (if unat n < length (linkmap s) then Some (s\<lparr>linkmap := (linkmap s)[unat n := v]\<rparr>) else wild)"

definition get_link :: "u16 \<Rightarrow> fsck \<Rightarrow> u16 option" where
  "get_link n s = (if unat n < length (linkmap s) then Some (linkmap s ! unat n) else wild)"

subsection \<open>Pass 1\<close>

definition bad_type :: "u16 \<Rightarrow> bool" where
  "bad_type mode \<longleftrightarrow> mode \<noteq> F_REG \<and> mode \<noteq> F_DIR \<and> mode \<noteq> F_BDEV \<and> mode \<noteq> F_CDEV"

definition bad_blk :: "filesys \<Rightarrow> u16 \<Rightarrow> bool" where
  "bad_blk f b \<longleftrightarrow> b \<noteq> 0 \<and> (b < s_isize f \<or> b \<ge> s_fsize f)"

text \<open>A question that is asked if \<open>c\<close> holds; with the answer yes the inode is replaced by \<open>new\<close> and written.\<close>

definition fix_ino :: "bool \<Rightarrow> u16 \<Rightarrow> dinode \<Rightarrow> dinode \<times> fsck \<Rightarrow> (bool \<times> dinode \<times> fsck) option" where
  "fix_ino c n new is =
     (let (ino, s) = is
      in if c then let (y, s) = yes s in if y then do { s \<leftarrow> iwrite n new s; Some (True, new, s) } else Some (False, ino, s)
         else Some (False, ino, s))"

function carry_off :: "off_t \<Rightarrow> off_t" where
  "carry_off p = (if sint (o_offset p) \<ge> 512 then carry_off (p\<lparr>o_offset := o_offset p - 512, o_blkno := o_blkno p + 1\<rparr>) else p)"
  by pat_completeness auto
termination
proof (relation "measure (\<lambda>p. nat (sint (o_offset p)))", goal_cases)
  case (2 p)
  then have "sint (o_offset p - 512) = sint (o_offset p) - 512"
    using sint16_range [of "o_offset p"] sint_cases16 [of "o_offset p"] sint_cases16 [of "o_offset p - 512"] uint_sub_int [of 512 "o_offset p"]
    by (auto split: if_splits)
  then show ?case using 2 by simp
qed simp

declare carry_off.simps [simp del]

definition ck_size :: "u16 \<Rightarrow> dinode \<times> fsck \<Rightarrow> (dinode \<times> fsck) option" where
  "ck_size n is = do {
     let ino = fst is;
     (_, ino, s) \<leftarrow> fix_ino (sint (o_offset (i_size ino)) \<ge> 512) n (ino\<lparr>i_size := carry_off (i_size ino)\<rparr>) is;
     (_, ino, s) \<leftarrow> fix_ino (sint (o_offset (i_size ino)) < 0) n (ino\<lparr>i_size := (i_size ino)\<lparr>o_offset := 0\<rparr>\<rparr>) (ino, s);
     Some (ino, s) }"

definition zap_addr :: "nat \<Rightarrow> dinode \<Rightarrow> dinode" where
  "zap_addr b ino = ino\<lparr>i_addr := (i_addr ino)[b := 0]\<rparr>"

definition ck_ind :: "u16 \<Rightarrow> nat \<Rightarrow> dinode \<times> fsck \<Rightarrow> (dinode \<times> fsck) option" where
  "ck_ind n b is = do {
     let (ino, s) = is;
     (_, ino, s) \<leftarrow> fix_ino (bad_blk (filsys s) (i_addr ino ! b)) n (zap_addr b ino) (ino, s);
     (_, ino, s) \<leftarrow> fix_ino (i_addr ino ! b \<noteq> 0 \<and> o_blkno (i_size ino) < 18) n (zap_addr b ino) (ino, s);
     s \<leftarrow> (if i_addr ino ! b \<noteq> 0 then set_mark 1 (i_addr ino ! b) s else Some s);
     Some (ino, s) }"

definition ck_dind1 :: "nat \<Rightarrow> block \<times> fsck \<Rightarrow> (block \<times> fsck) option" where
  "ck_dind1 b ds = do {
     let (d, s) = ds;
     (d, s) \<leftarrow> (if bad_blk (filsys s) (get16 d b) then
                  let (y, s) = yes s
                  in if y then do { let d = set16 d b 0; s \<leftarrow> fsck_dwrite (of_nat b) d s; Some (d, s) } else Some (d, s)
                else Some (d, s));
     s \<leftarrow> (if get16 d b \<noteq> 0 then set_mark 1 (get16 d b) s else Some s);
     Some (d, s) }"

definition ck_dind :: "dinode \<Rightarrow> fsck \<Rightarrow> fsck option" where
  "ck_dind ino s =
     (if i_addr ino ! 19 \<noteq> 0 then do {
        (d, s) \<leftarrow> daread (i_addr ino ! 19) s;
        (_, s) \<leftarrow> foldM ck_dind1 [0..<256] (d, s);
        Some s }
      else Some s)"

definition ck_blk :: "u16 \<Rightarrow> u16 \<Rightarrow> dinode \<times> fsck \<Rightarrow> (dinode \<times> fsck) option" where
  "ck_blk n bno is = do {
     let (ino, s) = is;
     (b, s) \<leftarrow> getblkno ino bno s;
     (ino, s) \<leftarrow> (if bad_blk (filsys s) b then
                    let (y, s) = yes s
                    in if y then do { (ino, s) \<leftarrow> setblkno ino bno 0 s; s \<leftarrow> iwrite n ino s; Some (ino, s) } else Some (ino, s)
                  else Some (ino, s));
     s \<leftarrow> (if b \<noteq> 0 then set_mark 1 b s else Some s);
     Some (ino, s) }"

definition ck_inode :: "u16 \<Rightarrow> u16 \<times> fsck \<Rightarrow> (u16 \<times> fsck) option" where
  "ck_inode n cs = do {
     let (icount, s) = cs;
     (ino, s) \<leftarrow> iread n s;
     s \<leftarrow> set_link n (- 1) s;
     if i_mode ino = 0 then Some (icount, s)
     else do {
       let mode = i_mode ino AND F_MASK;
       (zapped, ino, s) \<leftarrow> fix_ino (bad_type mode) n (ino\<lparr>i_mode := 0, i_nlink := 0\<rparr>) (ino, s);
       if zapped then Some (icount, s)
       else do {
         s \<leftarrow> set_link n 0 s;
         (ino, s) \<leftarrow> ck_size n (ino, s);
         (if mode = F_REG \<or> mode = F_DIR then do {
            (ino, s) \<leftarrow> foldM (ck_ind n) [18, 19] (ino, s);
            s \<leftarrow> ck_dind ino s;
            (ino, s) \<leftarrow> count_up (ck_blk n) 0 (o_blkno (i_size ino)) (ino, s);
            Some (icount + 1, s) }
          else Some (icount + 1, s)) } } }"

definition pass1 :: "fsck \<Rightarrow> fsck option" where
  "pass1 s = do {
     (icount, s) \<leftarrow> foldM ck_inode (inodes s) (0, s);
     let n = 8 * (s_isize (filsys s) - 2) - ROOTINODE - icount;
     if s_tinode (filsys s) \<noteq> n then
       let (y, s) = yes s
       in if y then write_super (s\<lparr>filsys := (filsys s)\<lparr>s_tinode := n\<rparr>\<rparr>) else Some s
     else Some s }"

subsection \<open>Pass 2\<close>

definition pass2_free :: "u16 \<Rightarrow> fsck \<Rightarrow> fsck option" where
  "pass2_free j s = do {
     m \<leftarrow> get_mark j s;
     if m = 0 then do {
       s \<leftarrow> (if s_nfree (filsys s) = 50 then do {
               s \<leftarrow> fsck_dwrite j (take 512 (drop 6 (fs_bytes (filsys s)) @ behind s)) s;
               Some (s\<lparr>filsys := (filsys s)\<lparr>s_nfree := 0\<rparr>\<rparr>) }
             else Some s);
       let f = filsys s;
       let n = s_nfree f;
       if unat n < 50 then Some (s\<lparr>filsys := f\<lparr>s_tfree := s_tfree f + 1, s_free := (s_free f)[unat n := j], s_nfree := n + 1\<rparr>\<rparr>) else wild }
     else Some s }"

definition empty_list :: "filesys \<Rightarrow> filesys" where
  "empty_list f = f\<lparr>s_ninode := 0, s_nfree := 1, s_free := (s_free f)[0 := 0], s_tfree := 0\<rparr>"

definition pass2 :: "fsck \<Rightarrow> fsck option" where
  "pass2 s =
     (let (y, s) = yes s
      in if y then do {
           let s = s\<lparr>filsys := empty_list (filsys s)\<rparr>;
           s \<leftarrow> count_down pass2_free (s_fsize (filsys s) - 1) (s_isize (filsys s)) s;
           write_super s }
         else Some s)"

subsection \<open>Pass 3\<close>

definition move_block :: "(u16 \<Rightarrow> dinode \<Rightarrow> fsck \<Rightarrow> (dinode \<times> fsck) option) \<Rightarrow> u16 \<Rightarrow> u16 \<Rightarrow> dinode \<times> fsck \<Rightarrow> (dinode \<times> fsck) option" where
  "move_block put n b is = do {
     let (ino, s) = is;
     m \<leftarrow> get_mark b s;
     if m \<noteq> 0 then
       let (y, s) = yes s
       in if y then do {
            (newno, s) \<leftarrow> blk_alloc0 s;
            if newno = 0 then Some (ino, s)
            else do {
              (d, s) \<leftarrow> daread b s;
              s \<leftarrow> fsck_dwrite newno d s;
              (ino, s) \<leftarrow> put newno ino s;
              s \<leftarrow> iwrite n ino s;
              Some (ino, s) } }
          else Some (ino, s)
     else do { s \<leftarrow> set_mark 1 b s; Some (ino, s) } }"

definition dup_ind :: "u16 \<Rightarrow> nat \<Rightarrow> dinode \<times> fsck \<Rightarrow> (dinode \<times> fsck) option" where
  "dup_ind n b is =
     (let (ino, s) = is; a = i_addr ino ! b
      in if a \<noteq> 0 then move_block (\<lambda>newno ino s. Some (ino\<lparr>i_addr := (i_addr ino)[b := newno]\<rparr>, s)) n a (ino, s) else Some (ino, s))"

definition dup_blk :: "u16 \<Rightarrow> u16 \<Rightarrow> dinode \<times> fsck \<Rightarrow> (dinode \<times> fsck) option" where
  "dup_blk n bno is = do {
     let (ino, s) = is;
     (b, s) \<leftarrow> getblkno ino bno s;
     if b \<noteq> 0 then move_block (\<lambda>newno ino s. setblkno ino bno newno s) n b (ino, s) else Some (ino, s) }"

definition dup_inode :: "u16 \<Rightarrow> fsck \<Rightarrow> fsck option" where
  "dup_inode n s = do {
     (ino, s) \<leftarrow> iread n s;
     let mode = i_mode ino AND F_MASK;
     if mode \<noteq> F_REG \<and> mode \<noteq> F_DIR then Some s
     else do {
       (ino, s) \<leftarrow> foldM (dup_ind n) [18, 19] (ino, s);
       (_, s) \<leftarrow> count_up (dup_blk n) 0 (o_blkno (i_size ino)) (ino, s);
       Some s } }"

definition pass3 :: "fsck \<Rightarrow> fsck option" where
  "pass3 s = do {
     s \<leftarrow> foldM (set_mark 0) (map of_nat [unat (s_isize (filsys s))..<unat (s_fsize (filsys s))]) s;
     foldM dup_inode (inodes s) s }"

subsection \<open>Pass 4\<close>

definition MAXDEPTH :: nat where "MAXDEPTH = 20"

definition dirread :: "dinode \<Rightarrow> u16 \<Rightarrow> fsck \<Rightarrow> (direct \<times> fsck) option" where
  "dirread ino j s = do {
     (blkno, s) \<leftarrow> getblkno ino (j div 32) s;
     if blkno = 0 then panic ''Missing block in directory''
     else do { (d, s) \<leftarrow> daread blkno s; Some (dir_entry d (unat (j mod 32)), s) } }"

definition dirwrite :: "dinode \<Rightarrow> u16 \<Rightarrow> direct \<Rightarrow> fsck \<Rightarrow> fsck option" where
  "dirwrite ino j e s = do {
     (blkno, s) \<leftarrow> getblkno ino (j div 32) s;
     if blkno = 0 then panic ''Missing block in directory''
     else do { (d, s) \<leftarrow> daread blkno s; fsck_dwrite blkno (splice (16 * unat (j mod 32)) (direct_bytes e) d) s } }"

definition c_str :: "u8 list \<Rightarrow> u8 list" where
  "c_str cs = takeWhile (\<lambda>c. c \<noteq> 0) cs"

definition pad_name :: "direct \<Rightarrow> direct" where
  "pad_name e = e\<lparr>d_name := c_str (d_name e) @ replicate (14 - length (c_str (d_name e))) 0\<rparr>"

definition fix_entry :: "bool \<Rightarrow> dinode \<Rightarrow> u16 \<Rightarrow> direct \<Rightarrow> direct \<times> fsck \<Rightarrow> (bool \<times> direct \<times> fsck) option" where
  "fix_entry c ino j new es =
     (let (e, s) = es
      in if c then let (y, s) = yes s in if y then do { s \<leftarrow> dirwrite ino j new s; Some (True, new, s) } else Some (False, e, s)
         else Some (False, e, s))"

definition no_entry :: "direct \<Rightarrow> direct" where
  "no_entry e = e\<lparr>d_ino := 0, d_name := (d_name e)[0 := 0]\<rparr>"

definition fix_slash :: "dinode \<Rightarrow> u16 \<Rightarrow> nat \<Rightarrow> direct \<times> fsck \<Rightarrow> (direct \<times> fsck) option" where
  "fix_slash ino j c es = do {
     let e = fst es;
     (_, e, s) \<leftarrow> fix_entry (d_name e ! c = 47) ino j (e\<lparr>d_name := (d_name e)[c := 88]\<rparr>) es;
     Some (e, s) }"

definition fix_ref :: "u8 list \<Rightarrow> u16 \<Rightarrow> dinode \<Rightarrow> u16 \<Rightarrow> direct \<times> fsck \<Rightarrow> (direct \<times> fsck) option" where
  "fix_ref nm i ino j es = do {
     let e = fst es;
     (_, e, s) \<leftarrow> fix_entry (c_str (d_name e) = nm \<and> d_ino e \<noteq> i) ino j (e\<lparr>d_ino := i\<rparr>) es;
     Some (e, s) }"

text \<open>The path name of the subdirectory, for the messages: \<^verbatim>\<open>ename\<close> has 150 bytes, and a name of 14
  characters is not terminated.\<close>

definition sub_name :: "u8 list \<Rightarrow> direct \<Rightarrow> u8 list option" where
  "sub_name name e =
     (if 0 \<notin> set (d_name e) \<or> length name + length (c_str (d_name e)) + 2 > 150 then wild else Some (name @ c_str (d_name e) @ [47]))"

text \<open>The tests of the inode number; \<open>None\<close> if the loop continues with the next entry.\<close>

definition test_number :: "dinode \<Rightarrow> u16 \<Rightarrow> direct \<Rightarrow> fsck \<Rightarrow> (direct option \<times> fsck) option" where
  "test_number ino j e s =
     (if d_ino e = 0 then Some (None, s)
      else do {
        (zapped, e, s) \<leftarrow> fix_entry (d_ino e < ROOTINODE \<or> d_ino e \<ge> 8 * s_isize (filsys s)) ino j (no_entry e) (e, s);
        if zapped then Some (None, s)
        else do {
          l \<leftarrow> get_link (d_ino e) s;
          (zapped, e, s) \<leftarrow> fix_entry (l = - 1) ino j (no_entry e) (e, s);
          if zapped then Some (None, s)
          else do { s \<leftarrow> set_link (d_ino e) (l + 1) s; Some (Some e, s) } } })"

definition test_name :: "u16 \<Rightarrow> u16 \<Rightarrow> dinode \<Rightarrow> u16 \<Rightarrow> direct \<Rightarrow> fsck \<Rightarrow> (direct \<times> fsck) option" where
  "test_name inum pnum ino j e s = do {
     (e, s) \<leftarrow> foldM (fix_slash ino j) [0..<length (c_str (d_name e))] (e, s);
     (e, s) \<leftarrow> fix_ref [46] inum ino j (e, s);
     fix_ref [46, 46] pnum ino j (e, s) }"

definition test_entry :: "u16 \<Rightarrow> u16 \<Rightarrow> dinode \<Rightarrow> u16 \<Rightarrow> fsck \<Rightarrow> (direct option \<times> fsck) option" where
  "test_entry inum pnum ino j s = do {
     (e, s) \<leftarrow> dirread ino j s;
     s \<leftarrow> dirwrite ino j (pad_name e) s;
     (r, s) \<leftarrow> test_number ino j (pad_name e) s;
     (case r of None \<Rightarrow> Some (None, s) | Some e \<Rightarrow> do { (e, s) \<leftarrow> test_name inum pnum ino j e s; Some (Some e, s) }) }"

definition ck_entry :: "(u16 \<Rightarrow> u16 \<Rightarrow> u8 list \<Rightarrow> fsck \<Rightarrow> fsck option) \<Rightarrow> u16 \<Rightarrow> u16 \<Rightarrow> u8 list \<Rightarrow> dinode \<Rightarrow> u16 \<Rightarrow> fsck \<Rightarrow> fsck option" where
  "ck_entry down inum pnum name ino j s = do {
     (r, s) \<leftarrow> test_entry inum pnum ino j s;
     (case r of
        None \<Rightarrow> Some s
      | Some e \<Rightarrow>
          if d_ino e \<noteq> pnum \<and> d_ino e \<noteq> inum \<and> sint (depth s) < int MAXDEPTH then do {
            nm \<leftarrow> sub_name name e;
            down (d_ino e) inum nm s }
          else Some s) }"

definition fix_length :: "u16 \<Rightarrow> dinode \<Rightarrow> fsck \<Rightarrow> (dinode \<times> fsck) option" where
  "fix_length inum ino s = do {
     let p = i_size ino;
     (_, ino, s) \<leftarrow> fix_ino (sint (o_offset p) smod 16 \<noteq> 0) inum (ino\<lparr>i_size := p\<lparr>o_offset := (o_offset p AND NOT 15) + 1\<rparr>\<rparr>) (ino, s);
     Some (ino, s) }"

definition entries :: "dinode \<Rightarrow> u16" where
  "entries ino = 32 * o_blkno (i_size ino) + word_of_int (sint (o_offset (i_size ino)) sdiv 16)"

text \<open>The recursion with a bound on its depth, which is never reached when it is \<open>MAXDEPTH\<close>.\<close>

primrec ckdir :: "nat \<Rightarrow> u16 \<Rightarrow> u16 \<Rightarrow> u8 list \<Rightarrow> fsck \<Rightarrow> fsck option" where
  "ckdir 0 inum pnum name s = None"
| "ckdir (Suc r) inum pnum name s = do {
     (ino, s) \<leftarrow> iread inum s;
     if i_mode ino AND F_MASK \<noteq> F_DIR then Some s
     else do {
       let s = s\<lparr>depth := depth s + 1\<rparr>;
       (ino, s) \<leftarrow> fix_length inum ino s;
       s \<leftarrow> foldM (ck_entry (ckdir r) inum pnum name ino) (map of_nat [0..<unat (entries ino)]) s;
       Some (s\<lparr>depth := depth s - 1\<rparr>) } }"

definition pass4 :: "nat \<Rightarrow> fsck \<Rightarrow> fsck option" where
  "pass4 r s = do {
     s \<leftarrow> set_link ROOTINODE 1 (s\<lparr>depth := 0\<rparr>);
     s \<leftarrow> ckdir r ROOTINODE ROOTINODE [47] s;
     if depth s \<noteq> 0 then panic ''Inconsistent depth'' else Some s }"

subsection \<open>Pass 5\<close>

fun decimal :: "nat \<Rightarrow> u8 list" where
  "decimal n = (if n < 10 then [] else decimal (n div 10)) @ [48 + of_nat (n mod 10)]"

declare decimal.simps [simp del]

text \<open>\<^verbatim>\<open>sprintf(dentry.d_name, "l+f%d", inum)\<close>: the bytes behind the string stay.\<close>

definition lost_name :: "u16 \<Rightarrow> u8 list \<Rightarrow> u8 list" where
  "lost_name i old =
     splice 0 ([108, 43, 102] @ (if sint i < 0 then 45 # decimal (nat (- sint i)) else decimal (unat i)) @ [0]) old"

fun first_slot :: "dinode \<Rightarrow> u16 \<Rightarrow> u16 list \<Rightarrow> fsck \<Rightarrow> fsck option" where
  "first_slot ino i [] s = Some s"
| "first_slot ino i (d # ds) s = do {
     (e, s) \<leftarrow> dirread ino d s;
     if d_ino e = 0 \<and> d_name e ! 0 = 0 then dirwrite ino d \<lparr>d_ino = i, d_name = lost_name i (d_name e)\<rparr> s
     else first_slot ino i ds s }"

definition mkentry :: "u16 \<Rightarrow> fsck \<Rightarrow> fsck option" where
  "mkentry i s = do { (ino, s) \<leftarrow> iread ROOTINODE s; first_slot ino i (map of_nat [0..<unat (entries ino)]) s }"

definition drop_inode :: "u16 \<Rightarrow> dinode \<Rightarrow> fsck \<Rightarrow> fsck option" where
  "drop_inode n ino s = do {
     s \<leftarrow> iwrite n (ino\<lparr>i_nlink := 0, i_mode := 0\<rparr>) s;
     write_super (s\<lparr>filsys := (filsys s)\<lparr>s_tinode := s_tinode (filsys s) + 1\<rparr>\<rparr>) }"

definition ck_detached :: "u16 \<Rightarrow> dinode \<Rightarrow> fsck \<Rightarrow> fsck option" where
  "ck_detached n ino s =
     (let mode = i_mode ino AND F_MASK; (y, s) = yes s
      in if \<not> y then Some s
         else if mode = F_BDEV \<or> mode = F_CDEV \<or> o_blkno (i_size ino) = 0 \<and> o_offset (i_size ino) = 0 then drop_inode n ino s
         else if i_nlink ino = 0 then drop_inode n ino s
         else do { s \<leftarrow> iwrite n (ino\<lparr>i_nlink := 1\<rparr>) s; mkentry n s })"

definition ck_links :: "u16 \<Rightarrow> fsck \<Rightarrow> fsck option" where
  "ck_links n s = do {
     (ino, s) \<leftarrow> iread n s;
     l \<leftarrow> get_link n s;
     if i_mode ino = 0 then if l \<noteq> - 1 then panic ''Inconsistent linkmap'' else Some s
     else if l = - 1 then panic ''Inconsistent linkmap''
     else do {
       (_, ino, s) \<leftarrow> fix_ino (sint l > 0 \<and> i_nlink ino \<noteq> l) n (ino\<lparr>i_nlink := l\<rparr>) (ino, s);
       if l = 0 then ck_detached n ino s else Some s } }"

definition pass5 :: "fsck \<Rightarrow> fsck option" where
  "pass5 s = foldM ck_links (inodes s) s"

subsection \<open>The program\<close>

definition take_super :: "fsck \<Rightarrow> fsck option" where
  "take_super s = do { (d, s) \<leftarrow> daread 1 s; Some (s\<lparr>filsys := bytes_fs d\<rparr>) }"

definition make_maps :: "fsck \<Rightarrow> fsck" where
  "make_maps s = s\<lparr>bitmap := replicate (unat (s_fsize (filsys s))) 0, linkmap := replicate (unat (8 * s_isize (filsys s))) 0\<rparr>"

text \<open>\<open>d\<close> is the number on the command line, \<open>mem\<close> says whether \<^verbatim>\<open>calloc\<close> finds memory for the maps; the result is the
  exit status.\<close>

definition fsck_main :: "int \<Rightarrow> bool \<Rightarrow> fsck \<Rightarrow> (int \<times> fsck) option" where
  "fsck_main d mem s = do {
     let s = xbufinit s\<lparr>fdev := d\<rparr>;
     s \<leftarrow> take_super s;
     (go, s) \<leftarrow> (if s_mounted (filsys s) \<noteq> SMOUNTED then
                   let (y, s) = yes s
                   in if y then do { s \<leftarrow> write_super (s\<lparr>filsys := (filsys s)\<lparr>s_mounted := SMOUNTED\<rparr>\<rparr>); Some (True, s) } else Some (False, s)
                 else Some (True, s));
     if \<not> go then Some (- 1, s)
     else let (y, s) = yes s
       in if \<not> y \<or> \<not> mem then Some (- 1, s)
          else do {
            s \<leftarrow> pass1 (make_maps s);
            s \<leftarrow> pass2 s;
            s \<leftarrow> pass3 s;
            s \<leftarrow> pass4 MAXDEPTH s;
            s \<leftarrow> pass5 s;
            s \<leftarrow> bufsync s;
            Some (0, s) } }"

end
