(* ===== verification/FsckDepth.thy ===== *)
theory FsckDepth
  imports Fsck ExitWait
begin

section \<open>The descent into directories ends\<close>

text \<open>
  \<^verbatim>\<open>ckdir\<close> calls itself while the variable \<^verbatim>\<open>depth\<close> is less than \<open>MAXDEPTH\<close>. Whatever is on the disk, each call leaves
  \<^verbatim>\<open>depth\<close> as it was, so the recursion is never deeper than \<open>MAXDEPTH\<close> calls: the bound in the model is never
  reached, and the check of \<^verbatim>\<open>depth\<close> at the end of pass 4 never fails.
\<close>

lemma more_depth: "bst.more t = bst.more s \<Longrightarrow> depth (t :: fsck) = depth s \<and> fdev t = fdev s"
  by (cases s, cases t) simp

named_theorems keeps_depth \<open>operations that leave the variable depth as it is\<close>

lemma daread_depth [keeps_depth]: "daread a s = Some (d, t) \<Longrightarrow> depth t = depth s"
  by (auto simp: daread_def breadp_def split: bind_splits option.splits dest!: bread_more bfree_more more_depth)

lemma fsck_dwrite_depth [keeps_depth]: "fsck_dwrite a d s = Some t \<Longrightarrow> depth t = depth s"
  by (auto simp: fsck_dwrite_def breadp_def set_data_def upd_buf_def split: bind_splits option.splits dest!: bread_more bfree_more more_depth)

lemma yes_depth [keeps_depth]: "yes s = (b, t) \<Longrightarrow> depth t = depth s"
  by (auto simp: yes_def split: prod.splits)

lemma iread_depth [keeps_depth]: "iread n s = Some (d, t) \<Longrightarrow> depth t = depth s"
  by (auto simp: iread_def split: bind_splits dest: keeps_depth)

lemma iwrite_depth [keeps_depth]: "iwrite n d s = Some t \<Longrightarrow> depth t = depth s"
  by (auto simp: iwrite_def split: bind_splits dest!: keeps_depth)

lemma getblkno_depth [keeps_depth]: "getblkno d n s = Some (b, t) \<Longrightarrow> depth t = depth s"
  by (auto simp: getblkno_def Let_def split: bind_splits if_splits dest!: daread_depth)

lemma fix_ino_depth [keeps_depth]: "fix_ino c n new (d, s) = Some (z, e, t) \<Longrightarrow> depth t = depth s"
  by (auto simp: fix_ino_def Let_def split: bind_splits if_splits prod.splits dest!: iwrite_depth yes_depth)

lemma fix_length_depth [keeps_depth]: "fix_length n d s = Some (e, t) \<Longrightarrow> depth t = depth s"
  by (auto simp: fix_length_def Let_def split: bind_splits dest!: fix_ino_depth)

lemma dirread_depth [keeps_depth]: "dirread d j s = Some (e, t) \<Longrightarrow> depth t = depth s"
  by (auto simp: dirread_def bind_Some_iff split: if_splits dest!: getblkno_depth daread_depth)

lemma dirwrite_depth [keeps_depth]: "dirwrite d j e s = Some t \<Longrightarrow> depth t = depth s"
  by (auto simp: dirwrite_def bind_Some_iff split: if_splits dest!: getblkno_depth daread_depth fsck_dwrite_depth)

lemma fix_entry_depth [keeps_depth]: "fix_entry c d j new (e, s) = Some (z, e', t) \<Longrightarrow> depth t = depth s"
  by (auto simp: fix_entry_def Let_def split: bind_splits if_splits prod.splits dest!: dirwrite_depth yes_depth)

lemma fix_slash_depth: "fix_slash d j c (e, s) = Some (e', t) \<Longrightarrow> depth t = depth s"
  by (auto simp: fix_slash_def Let_def split: bind_splits dest!: fix_entry_depth)

lemma fix_slashes_depth [keeps_depth]: "foldM (fix_slash d j) cs (e, s) = Some (e', t) \<Longrightarrow> depth t = depth s"
  by (induction cs arbitrary: e s) (auto split: bind_splits dest!: fix_slash_depth)

lemma fix_ref_depth [keeps_depth]: "fix_ref nm i d j (e, s) = Some (e', t) \<Longrightarrow> depth t = depth s"
  by (auto simp: fix_ref_def Let_def split: bind_splits dest!: fix_entry_depth)

lemma set_link_depth [keeps_depth]: "set_link n v s = Some t \<Longrightarrow> depth t = depth s"
  by (auto simp: set_link_def split: if_splits)

lemma foldM_depth:
  assumes "\<And>x s t. f x s = Some t \<Longrightarrow> depth t = depth s" "foldM f xs s = Some t"
  shows "depth t = depth s"
  using assms(2) by (induction xs arbitrary: s) (auto split: bind_splits dest!: assms(1))

lemma test_number_depth [keeps_depth]: "test_number d j e s = Some (r, t) \<Longrightarrow> depth t = depth s"
  by (auto simp: test_number_def split: if_splits dest!: fix_entry_depth set_link_depth)

lemma test_name_depth [keeps_depth]: "test_name i p d j e s = Some (r, t) \<Longrightarrow> depth t = depth s"
  by (auto simp: test_name_def dest!: fix_slashes_depth fix_ref_depth)

lemma test_entry_depth [keeps_depth]: "test_entry i p d j s = Some (r, t) \<Longrightarrow> depth t = depth s"
  by (auto simp: test_entry_def split: option.splits dest!: dirread_depth dirwrite_depth test_number_depth test_name_depth)

lemma ck_entry_depth:
  assumes "\<And>i p nm s t. down i p nm s = Some t \<Longrightarrow> depth t = depth s" "ck_entry down i p nm d j s = Some t"
  shows "depth t = depth s"
  using assms(2) by (auto simp: ck_entry_def split: option.splits if_splits dest!: keeps_depth assms(1))

lemma ckdir_depth: "ckdir r i p nm s = Some t \<Longrightarrow> depth t = depth s"
proof (induction r arbitrary: i p nm s t)
  case (Suc r)
  have E: "depth u = depth s" if "ck_entry (ckdir r) i p nm d j s = Some u" for d j s u
    by (rule ck_entry_depth [OF Suc.IH that])
  show ?case using Suc.prems by (auto split: if_splits dest!: iread_depth fix_length_depth foldM_depth [rotated, OF _ E])
qed simp

subsection \<open>The bound does not matter\<close>

lemma foldM_cong:
  assumes "\<And>x s. P s \<Longrightarrow> f x s = g x s" "\<And>x s t. P s \<Longrightarrow> g x s = Some t \<Longrightarrow> P t" "P s"
  shows "foldM f xs s = foldM g xs s"
  using assms(3) by (induction xs arbitrary: s) (auto simp: assms(1) intro: assms(2) split: bind_split)

lemma ck_entry_cong:
  assumes "\<And>i p nm t. depth t = depth s \<Longrightarrow> unat (depth s) < MAXDEPTH \<Longrightarrow> down i p nm t = down' i p nm t" "unat (depth s) \<le> MAXDEPTH"
  shows "ck_entry down i p nm d j s = ck_entry down' i p nm d j s"
proof -
  have "sint (depth s) = int (unat (depth s))" using assms(2) by (intro sint_small) (simp add: MAXDEPTH_def)
  then have lt: "sint (depth t) < int MAXDEPTH \<longleftrightarrow> unat (depth s) < MAXDEPTH" if "depth t = depth s" for t
    unfolding that by (simp only: of_nat_less_iff)
  show ?thesis
  proof (cases "test_entry i p d j s")
    case None
    then show ?thesis by (simp add: ck_entry_def)
  next
    case (Some rt)
    obtain r t where rt: "rt = (r, t)" by (cases rt)
    have t: "depth t = depth s" using Some rt by (auto dest: keeps_depth)
    then show ?thesis using assms(1) Some rt lt [OF t] by (auto simp: ck_entry_def split: option.split bind_split)
  qed
qed

lemma ckdir_cong:
  assumes "unat (depth s) < MAXDEPTH" "MAXDEPTH \<le> unat (depth s) + r" "MAXDEPTH \<le> unat (depth s) + r'"
  shows "ckdir r i p nm s = ckdir r' i p nm s"
  using assms
proof (induction r arbitrary: r' i p nm s)
  case 0
  then show ?case by simp
next
  case (Suc r)
  then obtain k where k: "r' = Suc k" by (cases r') auto
  show ?case
  proof (cases "iread i s")
    case None
    then show ?thesis by (simp add: k)
  next
    case (Some du)
    obtain d u where du: "du = (d, u)" by (cases du)
    have u: "depth u = depth s" using Some du by (auto dest: keeps_depth)
    let ?n = "depth s + 1"
    have n: "unat ?n = unat (depth s) + 1" using Suc.prems(1) by (simp add: unat_plus1_u16 MAXDEPTH_def)
    have "foldM (ck_entry (ckdir r) i p nm e) js t = foldM (ck_entry (ckdir k) i p nm e) js t" if "depth t = ?n" for e js t
    proof (rule foldM_cong [where P = "\<lambda>t. depth t = ?n"])
      show "ck_entry (ckdir r) i p nm e j t = ck_entry (ckdir k) i p nm e j t" if "depth t = ?n" for j t
      proof (rule ck_entry_cong)
        show "ckdir r i' p' nm' w = ckdir k i' p' nm' w" if "depth w = depth t" "unat (depth t) < MAXDEPTH" for i' p' nm' w
          using that \<open>depth t = ?n\<close> n Suc.prems k by (intro Suc.IH) auto
        show "unat (depth t) \<le> MAXDEPTH" using that n Suc.prems(1) by simp
      qed
      show "depth w = ?n" if "depth t = ?n" "ck_entry (ckdir k) i p nm e j t = Some w" for j t w
        using ck_entry_depth [OF ckdir_depth that(2)] that(1) by simp
    qed (rule that)
    then show ?thesis using Some du u k by (auto simp: fun_eq_iff split: bind_split dest!: keeps_depth)
  qed
qed

text \<open>C40: Pass 4 ends after at most \<open>MAXDEPTH\<close> nested calls of \<^verbatim>\<open>ckdir\<close>, whatever the directories on the disk are, even when they
  form a loop: a larger bound on the recursion changes nothing. And the descent brings \<^verbatim>\<open>depth\<close> back to 0: pass 4 without its final test does the
  same.\<close>

theorem descent_is_bounded:
  "pass4 (MAXDEPTH + k) s = pass4 MAXDEPTH s \<and>
   pass4 MAXDEPTH s = Option.bind (set_link ROOTINODE 1 (s\<lparr>depth := 0\<rparr>)) (ckdir MAXDEPTH ROOTINODE ROOTINODE [47])"
proof (cases "set_link ROOTINODE 1 (s\<lparr>depth := 0\<rparr>)")
  case None
  then show ?thesis by (simp add: pass4_def)
next
  case (Some t)
  then have t: "depth t = 0" using set_link_depth by fastforce
  then have "ckdir (MAXDEPTH + k) ROOTINODE ROOTINODE [47] t = ckdir MAXDEPTH ROOTINODE ROOTINODE [47] t"
    by (intro ckdir_cong) (simp_all add: MAXDEPTH_def)
  moreover have "depth u = 0" if "ckdir MAXDEPTH ROOTINODE ROOTINODE [47] t = Some u" for u
    using ckdir_depth [OF that] t by simp
  ultimately show ?thesis using Some by (auto simp: pass4_def split: bind_split)
qed

end
