(* ===== verification/FsckDisk.thy ===== *)
theory FsckDisk
  imports Fsck InodeTable
begin

section \<open>What the checker reads and writes\<close>

text \<open>
  The device as the checker sees it (\<open>disk\<close>), the effect of \<^verbatim>\<open>daread\<close> and \<^verbatim>\<open>dwrite\<close> on it, and the block of
  a file that \<^verbatim>\<open>getblkno\<close> finds: the one the kernel's \<^verbatim>\<open>bmap\<close> finds, except under a missing indirect block.
\<close>

definition fk_ok :: "fsck \<Rightarrow> bool" where
  "fk_ok s \<longleftrightarrow> quiet s \<and> disk_dev (fdev s)"

definition disk :: "fsck \<Rightarrow> u16 \<Rightarrow> block" where
  "disk s = bview s (fdev s)"

lemma same_rest_fsck:
  fixes s t :: fsck
  shows "same_rest s t \<longleftrightarrow> u_error t = u_error s \<and> fdev t = fdev s \<and> filsys t = filsys s \<and> behind t = behind s \<and>
    bitmap t = bitmap s \<and> linkmap t = linkmap s \<and> depth t = depth s \<and> answers t = answers s"
  by (cases s, cases t) (auto simp: same_rest_def)

lemma fk_other:
  fixes s t :: fsck
  assumes "bufpool t = bufpool s" "hd t = hd s" "fdev t = fdev s"
  shows "disk t = disk s" "fk_ok t = fk_ok s"
proof -
  have bp: "bufp i t = bufp i s" for i using assms by (simp add: bufp_def)
  have hb: "hd_blk t d a = hd_blk s d a" for d a using assms by (simp add: hd_blk_def)
  have bf: "bfind d a t = bfind d a s" for d a by (simp add: bfind_def bp)
  show "disk t = disk s" by (simp add: disk_def fun_eq_iff bview_def bf hb buf_data_def bp assms split: option.split)
  have "busyset t = busyset s" by (simp add: busyset_def bp)
  moreover from this have "pool_ok X t = pool_ok X s" for X
    using assms by (simp add: pool_ok_def bp distinct_names_def buf_inv_def hb)
  ultimately show "fk_ok t = fk_ok s" by (simp add: fk_ok_def quiet_def assms)
qed

lemma fk_updates [simp]:
  "disk (s\<lparr>filsys := f\<rparr>) = disk s" "disk (s\<lparr>bitmap := m\<rparr>) = disk s" "disk (s\<lparr>linkmap := l\<rparr>) = disk s" "disk (s\<lparr>depth := n\<rparr>) = disk s"
  "disk (s\<lparr>answers := w\<rparr>) = disk s" "fk_ok (s\<lparr>filsys := f\<rparr>) = fk_ok s" "fk_ok (s\<lparr>bitmap := m\<rparr>) = fk_ok s" "fk_ok (s\<lparr>linkmap := l\<rparr>) = fk_ok s"
  "fk_ok (s\<lparr>depth := n\<rparr>) = fk_ok s" "fk_ok (s\<lparr>answers := w\<rparr>) = fk_ok s"
  by (rule fk_other; simp)+

lemma daread_law:
  assumes "fk_ok s"
  shows "\<exists>t. daread blk s = Some (disk s blk, t) \<and> fk_ok t \<and> same_rest s t \<and> disk t = disk s"
proof -
  have q: "calm {} {} s" "disk_dev (fdev s)" "avail {} s (fdev s) blk"
    using assms avail_quiet quiet_calm by (auto simp: fk_ok_def)
  from open_read [OF q] obtain i t where
    t: "breadp (fdev s) blk False s = Some (i, t)" "calm {} {i} t" "same_rest s t" "same_views s t" "buf_data i t = bview s (fdev s) blk" by auto
  from close_read [OF t(2), of i] obtain u where
    u: "brelse i t = Some u" "calm {} {} u" "same_rest t u" "same_views t u" by auto
  from u(1) obtain v where v: "bfree i 0 t = Some (v, u)" by (auto simp: brelse_def split: bind_splits)
  have "same_rest s u" using t(3) u(3) by (rule same_rest_trans)
  moreover from this have "disk u = disk s" using t(4) u(4) q(2) by (simp add: disk_def fun_eq_iff same_views_def same_rest_fsck)
  moreover have "fk_ok u" using u(2) calculation(1) q(2) by (simp add: fk_ok_def quiet_calm same_rest_fsck)
  ultimately show ?thesis using t(1,5) v by (simp add: daread_def disk_def)
qed

lemma fsck_dwrite_law:
  assumes "fk_ok s" "length b = 512"
  shows "\<exists>t. fsck_dwrite blk b s = Some t \<and> fk_ok t \<and> same_rest s t \<and> disk t = (disk s)(blk := b)"
proof -
  have q: "calm {} {} s" "disk_dev (fdev s)" "avail {} s (fdev s) blk"
    using assms avail_quiet quiet_calm by (auto simp: fk_ok_def)
  from open_rewrite [OF q] obtain i t where
    t: "breadp (fdev s) blk True s = Some (i, t)" "calm {i} {i} t" "same_rest s t" "named (bufp i t) (fdev s) blk"
      "\<forall>e a. disk_dev e \<longrightarrow> \<not> (e = fdev s \<and> a = blk) \<longrightarrow> bview t e a = bview s e a" by auto
  from close_through [OF t(2) _ t(4) q(2) assms(2)] obtain u where
    u: "bfree i 2 (set_data i b t) = Some (- 1, u)" "calm {} {} u" "same_rest t u"
      "\<forall>e a. disk_dev e \<longrightarrow> bview u e a = (if e = fdev s \<and> a = blk then b else bview t e a)" by auto
  have "same_rest s u" using t(3) u(3) by (rule same_rest_trans)
  moreover from this have "disk u = (disk s)(blk := b)" using t(5) u(4) q(2) by (auto simp: disk_def fun_eq_iff same_rest_fsck)
  moreover have "fk_ok u" using u(2) calculation(1) q(2) by (simp add: fk_ok_def quiet_calm same_rest_fsck)
  ultimately show ?thesis using t(1) u(1) by (simp add: fsck_dwrite_def)
qed

interpretation fk: free_builder fsck_dwrite disk fk_ok same_rest
proof
  show "\<exists>t. fsck_dwrite a b s = Some t \<and> fk_ok t \<and> same_rest s t \<and> (\<forall>x. disk t x = (if x = a then b else disk s x))"
    if "fk_ok s" "length b = 512" for s a b
    using fsck_dwrite_law [OF that, of a] by auto
qed (auto intro: same_rest_trans)

lemma iread_law:
  assumes "fk_ok s"
  shows "\<exists>t. iread n s = Some (get_dinode (disk s (ino_blk n)) (ino_slot n), t) \<and> fk_ok t \<and> same_rest s t \<and> disk t = disk s"
  using daread_law [OF assms, of "ino_blk n"] by (auto simp: iread_def)

subsection \<open>The blocks of a file\<close>

definition blk_of :: "(u16 \<Rightarrow> block) \<Rightarrow> dinode \<Rightarrow> u16 \<Rightarrow> u16" where
  "blk_of V ino num =
     (if num < 18 then i_addr ino ! unat num
      else if num < 274 then if i_addr ino ! 18 = 0 then 0 else get16 (V (i_addr ino ! 18)) (unat (num - 18))
      else if i_addr ino ! 19 = 0 then 0
      else get16 (V (get16 (V (i_addr ino ! 19)) (unat (drop_bit 8 (num - 274))))) (unat ((num - 274) AND 0xFF)))"

lemma getblkno_law:
  assumes "fk_ok s"
  shows "\<exists>t. getblkno ino num s = Some (blk_of (disk s) ino num, t) \<and> fk_ok t \<and> same_rest s t \<and> disk t = disk s"
proof -
  have D: "\<exists>u. daread a t = Some (disk s a, u) \<and> fk_ok u \<and> same_rest s u \<and> disk u = disk s"
    if "fk_ok t" "same_rest s t" "disk t = disk s" for a t
    using daread_law [OF that(1), of a] that same_rest_trans by metis
  from D [OF assms] obtain u where u: "daread (i_addr ino ! 18) s = Some (disk s (i_addr ino ! 18), u)" "fk_ok u" "same_rest s u" "disk u = disk s" by auto
  from D [OF assms] obtain v where v: "daread (i_addr ino ! 19) s = Some (disk s (i_addr ino ! 19), v)" "fk_ok v" "same_rest s v" "disk v = disk s" by auto
  let ?x = "get16 (disk s (i_addr ino ! 19)) (unat (drop_bit 8 (num - 274)))"
  from D [OF v(2-4)] obtain w where w: "daread ?x v = Some (disk s ?x, w)" "fk_ok w" "same_rest s w" "disk w = disk s" by blast
  show ?thesis using assms u v w by (simp add: getblkno_def blk_of_def Let_def)
qed

text \<open>The checker and the kernel agree on the blocks of a file whose indirect blocks are there.\<close>

lemma blk_of_tree:
  assumes "unat num < 274 \<or> get16 (V (i_addr ino ! 19)) ((unat num - 274) div 256) \<noteq> 0"
  shows "blk_of V ino num = tree_get V (nth (i_addr ino)) (blk_path (unat num))"
proof -
  have n: "num < 18 \<longleftrightarrow> unat num < 18" "num < 274 \<longleftrightarrow> unat num < 274" by (simp_all add: word_less_nat_alt)
  have "unat (num - 18) = unat num - 18" if "\<not> unat num < 18" using that unat_minus_16 [of 18 num] by (simp add: word_le_nat_alt)
  moreover have "unat (drop_bit 8 (num - 274)) = (unat num - 274) div 256" "unat ((num - 274) AND 0xFF) = (unat num - 274) mod 256"
    if "\<not> unat num < 274"
    using that unat_minus_16 [of 274 num] by (simp_all add: word_le_nat_alt unat_drop8 and_255)
  ultimately show ?thesis using assms by (auto simp: blk_of_def blk_path_def n)
qed

end
