(* ===== verification/FsckFree.thy ===== *)
theory FsckFree
  imports FsckDisk
begin

section \<open>The free list that the checker builds\<close>

text \<open>
  Pass 1 marks the blocks that the inodes use and pass 2 builds a new free list of the others. On a file
  system whose inodes are in order (\<open>fine\<close>) the new list holds every data block that no inode uses, once, and no other.
\<close>

subsection \<open>Loops\<close>

lemma count_up_foldM:
  assumes n: "unat n < 65535"
  shows "count_up f i n s = foldM f (map of_nat [unat i..<Suc (unat n)]) s"
proof (induction "Suc (unat n) - unat i" arbitrary: i s)
  case 0
  then show ?case by (simp add: count_up.simps [of f i] word_le_nat_alt)
next
  case (Suc k)
  have "i \<le> n" "[unat i..<Suc (unat n)] = unat i # [Suc (unat i)..<Suc (unat n)]"
    using Suc.hyps(2) by (simp_all add: word_le_nat_alt upt_conv_Cons del: upt_Suc)
  moreover have "unat (i + 1) = Suc (unat i)" using n Suc.hyps(2) by (simp add: unat_plus1_u16)
  moreover have "count_up f (i + 1) n = foldM f (map of_nat [Suc (unat i)..<Suc (unat n)])"
    using Suc.hyps(1) [of "i + 1"] Suc.hyps(2) calculation(3) by (intro ext) simp
  ultimately show ?case by (simp add: count_up.simps [of f i] del: upt_Suc)
qed

lemma count_down_foldM:
  assumes "n \<noteq> 0"
  shows "count_down f j n s = foldM f (map of_nat (rev [unat n..<Suc (unat j)])) s"
proof (induction "unat j" arbitrary: j s rule: less_induct)
  case less
  show ?case
  proof (cases "n \<le> j")
    case True
    then have j: "unat n \<le> unat j" "0 < unat n" using assms by (auto simp: word_le_nat_alt unat_gt_0)
    then have m: "unat (j - 1) = unat j - 1" using unat_minus1_u16 [of j] unat_gt_0 [of j] by linarith
    then have "count_down f (j - 1) n = foldM f (map of_nat (rev [unat n..<unat j]))"
      using less [of "j - 1"] j by (intro ext) simp
    then show ?thesis using True j by (simp add: count_down.simps [of f j])
  next
    case False
    then show ?thesis by (simp add: count_down.simps [of f j] word_le_nat_alt)
  qed
qed

subsection \<open>Pass 2\<close>

definition new_list :: "fsck \<Rightarrow> u16 list \<Rightarrow> fsck \<Rightarrow> bool" where
  "new_list s xs t \<longleftrightarrow> fk.stack_ok (filsys t) t xs \<and> but_list (filsys s) (filsys t) \<and> same_rest (s\<lparr>filsys := filsys t\<rparr>) t \<and>
     (\<forall>a. a \<notin> set xs \<longrightarrow> disk t a = disk s a)"

lemma pass2_free_put:
  assumes "fk_ok s" "fs_shape (filsys s)" "296 \<le> length (behind s)" "get_mark j s = Some 0"
    and p: "put_free fsck_dwrite (behind s) j (filsys s, s) = Some (g, t)"
  shows "pass2_free j s = Some (t\<lparr>filsys := g\<rparr>)"
proof (cases "s_nfree (filsys s) = 50")
  case True
  let ?d = "take 512 (drop 6 (fs_bytes (filsys s)) @ behind s)"
  from fsck_dwrite_law [OF assms(1) spilled(1) [OF assms(2,3)], of j] obtain u where
    u: "fsck_dwrite j ?d s = Some u" "filsys u = filsys s" by (auto simp: same_rest_fsck)
  then show ?thesis using p True assms(4) by (auto simp: pass2_free_def put_free_def)
next
  case False
  then show ?thesis using p assms(4) by (auto simp: pass2_free_def put_free_def Let_def split: if_splits)
qed

lemma pass2_step:
  assumes h: "new_list s xs t" and j: "unat j < length (bitmap s)" "j \<noteq> 0" "j \<notin> set xs" "data_blk (filsys s) j" and b: "296 \<le> length (behind s)"
  shows "\<exists>u. pass2_free j t = Some u \<and> new_list s ((if bitmap s ! unat j = 0 then [j] else []) @ xs) u"
proof -
  have H: "fk.stack_ok (filsys t) t xs" "but_list (filsys s) (filsys t)" "same_rest (s\<lparr>filsys := filsys t\<rparr>) t" "\<forall>a. a \<notin> set xs \<longrightarrow> disk t a = disk s a"
    using h by (simp_all add: new_list_def)
  have m: "get_mark j t = Some (bitmap s ! unat j)" using H(3) j(1) by (simp add: same_rest_fsck get_mark_def)
  show ?thesis
  proof (cases "bitmap s ! unat j = 0")
    case True
    have T: "fk_ok t" "fs_shape (filsys t)" "296 \<le> length (behind t)"
      using H(1,3) b by (simp_all add: fk.stack_ok_def super_ok_def same_rest_fsck)
    have "data_blk (filsys t) j" using j(4) but_list_fields(5) [OF H(2)] by simp
    from fk.put_free_step [OF H(1) j(2,3) this T(3)] obtain g u where
      u: "put_free fsck_dwrite (behind t) j (filsys t, t) = Some (g, u)" "fk.stack_ok g u (j # xs)" "same_rest t u" "but_list (filsys t) g"
        "\<forall>a. a \<noteq> j \<longrightarrow> disk u a = disk t a" by blast
    let ?u = "u\<lparr>filsys := g\<rparr>"
    have "pass2_free j t = Some ?u" using pass2_free_put [OF T _ u(1)] m True by simp
    moreover have "new_list s (j # xs) ?u"
      using u H but_list_trans [OF H(2) u(4)] by (auto simp: new_list_def fk.stack_ok_def same_rest_fsck)
    ultimately show ?thesis using True by simp
  next
    case False
    then show ?thesis using h m by (simp add: pass2_free_def)
  qed
qed

lemma pass2_loop:
  assumes "new_list s xs t" "296 \<le> length (behind s)" "distinct js"
    and "\<And>j. j \<in> set js \<Longrightarrow> unat j < length (bitmap s) \<and> j \<noteq> 0 \<and> j \<notin> set xs \<and> data_blk (filsys s) j"
  shows "\<exists>u. foldM pass2_free js t = Some u \<and> new_list s (rev [j \<leftarrow> js. bitmap s ! unat j = 0] @ xs) u"
  using assms
proof (induction js arbitrary: xs t)
  case Nil
  then show ?case by simp
next
  case (Cons j js)
  let ?xs = "(if bitmap s ! unat j = 0 then [j] else []) @ xs"
  from pass2_step [OF Cons.prems(1) _ _ _ _ Cons.prems(2), of j] Cons.prems(4) [of j] obtain u where
    u: "pass2_free j t = Some u" "new_list s ?xs u" by auto
  have "\<exists>v. foldM pass2_free js u = Some v \<and> new_list s (rev [j \<leftarrow> js. bitmap s ! unat j = 0] @ ?xs) v"
    using Cons.prems(3,4) by (intro Cons.IH [OF u(2) Cons.prems(2)]) auto
  then show ?case using u(1) by (auto split: if_splits)
qed

lemma pass2_rebuilds:
  assumes s: "fk_ok s" "fst (yes s)" and f: "filsys s = f" "fs_shape f" "s_mounted f = SMOUNTED" "2 \<le> unat (s_isize f)" "s_isize f \<le> s_fsize f"
    and b: "length (bitmap s) = unat (s_fsize f)" "296 \<le> length (behind s)"
  defines "xs \<equiv> [j \<leftarrow> map of_nat [unat (s_isize f)..<unat (s_fsize f)]. bitmap s ! unat j = 0]"
  shows "\<exists>t. pass2 s = Some t \<and> fk_ok t \<and> same_rest ((snd (yes s))\<lparr>filsys := filsys t\<rparr>) t \<and> but_list (empty_list f) (filsys t) \<and> super_ok (filsys t) xs \<and>
    free_stack (disk t) (table (filsys t)) xs \<and> bytes_fs (disk t 1) = filsys t \<and> (\<forall>a. a \<noteq> 1 \<and> a \<notin> set xs \<longrightarrow> disk t a = disk s a)"
proof -
  let ?js = "map of_nat [unat (s_isize f)..<unat (s_fsize f)] :: u16 list" 
  obtain w where w: "yes s = (True, w)" using s(2) by (cases "yes s") auto
  let ?s = "w\<lparr>filsys := empty_list f\<rparr>"
  have "0 < unat (s_isize f)" using f(4) by simp
  note B = blocks_from [OF this, where n = "s_fsize f"]
  have "w = s\<lparr>answers := answers w\<rparr>" using w by (auto simp: yes_def split: prod.splits)
  then have y: "disk w = disk s" "fk_ok w" "bitmap w = bitmap s" "behind w = behind s" "filsys w = f" "fdev w = fdev s"
    using s(1) f(1) fk_updates(5) [of "answers w" s] fk_updates(10) [of "answers w" s] by (metis fsck.select_convs fsck.surjective fsck.update_convs)+
  have "take (Suc 0) ((s_free f)[0 := 0]) = [0]" using f(2) by (cases "s_free f") (simp_all add: fs_shape_def)
  then have start: "new_list ?s [] ?s"
    using f(2,3) y(2) by (simp add: new_list_def fk.stack_ok_def super_ok_def empty_list_def fs_shape_def table_def but_list_refl same_rest_fsck
        free_stack.bottom)
  have sz: "unat (s_fsize f - 1) = unat (s_fsize f) - 1" "0 < unat (s_fsize f)"
    using f(4,5) unat_minus1_u16 [of "s_fsize f"] unat_gt_0 [of "s_fsize f"] by (auto simp: word_le_nat_alt)
  have "unat j < length (bitmap ?s) \<and> j \<noteq> 0 \<and> j \<notin> set [] \<and> data_blk (filsys ?s) j" if "j \<in> set (rev ?js)" for j
    using that B(2) [of j] y(3) b(1) by (simp add: data_blk_def empty_list_def word_le_nat_alt word_less_nat_alt)
  with pass2_loop [OF start, of "rev ?js"] B(1) y(3,4) b(2) obtain u where
    u: "foldM pass2_free (rev ?js) ?s = Some u" "new_list ?s xs u" by (auto simp: xs_def rev_filter [symmetric])
  have run: "count_down pass2_free (s_fsize f - 1) (s_isize f) ?s = Some u"
    using u(1) sz f(4) by (subst count_down_foldM) (auto simp: rev_map)
  have U: "fk_ok u" "super_ok (filsys u) xs" "free_stack (disk u) (table (filsys u)) xs" "but_list (empty_list f) (filsys u)" "behind u = behind s"
      "same_rest (w\<lparr>filsys := filsys u\<rparr>) u"
    using u(2) y(4) by (simp_all add: new_list_def fk.stack_ok_def same_rest_fsck)
  have sh: "fs_shape (filsys u)" using U(2) by (simp add: super_ok_def)
  let ?sb = "take 512 (fs_bytes (filsys u) @ behind u)"
  have sb: "length ?sb = 512" "bytes_fs ?sb = filsys u"
    using length_fs_bytes [OF sh] U(5) b(2) bytes_fs_bytes [OF sh, of "take 290 (behind u)"] by simp_all
  from fsck_dwrite_law [OF U(1) sb(1), of 1] obtain t where
    t: "fsck_dwrite 1 ?sb u = Some t" "fk_ok t" "same_rest u t" "disk t = (disk u)(1 := ?sb)" by auto
  have "1 \<notin> set xs" using B(2) [of 1] f(4) by (auto simp: xs_def)
  then have "free_stack (disk t) (table (filsys u)) xs" using U(3) t(4) by (intro free_stack_cong [OF U(3)]) auto
  moreover have "pass2 s = Some t"
    using w run t(1) y(5) by (simp add: pass2_def write_super_def empty_list_def)
  moreover have "disk t a = disk s a" if "a \<noteq> 1" "a \<notin> set xs" for a
    using that u(2) t(4) y(1) by (simp add: new_list_def)
  ultimately show ?thesis using t U sb(2) w by (auto simp: same_rest_fsck)
qed

end
