(* ===== verification/FsckMarks.thy ===== *)
theory FsckMarks
  imports FsckFree
begin

section \<open>Pass 1 marks what the inodes use\<close>

subsection \<open>A file system in order\<close>

text \<open>The blocks an inode uses: the two indirect blocks, what the second points to, and the blocks up to its size.\<close>

definition has_blocks :: "dinode \<Rightarrow> bool" where
  "has_blocks d \<longleftrightarrow> i_mode d AND F_MASK = F_REG \<or> i_mode d AND F_MASK = F_DIR"

definition dind_of :: "(u16 \<Rightarrow> block) \<Rightarrow> dinode \<Rightarrow> u16 set" where
  "dind_of V d = (if i_addr d ! 19 = 0 then {} else (\<lambda>i. get16 (V (i_addr d ! 19)) i) ` {..<256})"

definition file_of :: "(u16 \<Rightarrow> block) \<Rightarrow> dinode \<Rightarrow> u16 set" where
  "file_of V d = (\<lambda>i. blk_of V d (of_nat i)) ` {..unat (o_blkno (i_size d))}"

definition used :: "(u16 \<Rightarrow> block) \<Rightarrow> dinode \<Rightarrow> u16 set" where
  "used V d = (if has_blocks d then {i_addr d ! 18, i_addr d ! 19} \<union> dind_of V d \<union> file_of V d - {0} else {})"

text \<open>Pass 1 has no question about the inode.\<close>

definition fine :: "(u16 \<Rightarrow> block) \<Rightarrow> filesys \<Rightarrow> dinode \<Rightarrow> bool" where
  "fine V f d \<longleftrightarrow> i_mode d = 0 \<or> \<not> bad_type (i_mode d AND F_MASK) \<and>
     0 \<le> sint (o_offset (i_size d)) \<and> sint (o_offset (i_size d)) < 512 \<and>
     (has_blocks d \<longrightarrow> (\<forall>b \<in> used V d. \<not> bad_blk f b) \<and> unat (o_blkno (i_size d)) < 65535 \<and>
        (\<forall>b \<in> {18, 19}. i_addr d ! b \<noteq> 0 \<longrightarrow> 18 \<le> o_blkno (i_size d)))"

definition disk_inode :: "(u16 \<Rightarrow> block) \<Rightarrow> u16 \<Rightarrow> dinode" where
  "disk_inode V n = get_dinode (V (ino_blk n)) (ino_slot n)"

subsection \<open>Marking\<close>

definition marked :: "u16 set \<Rightarrow> fsck \<Rightarrow> fsck \<Rightarrow> bool" where
  "marked X s t \<longleftrightarrow> fk_ok t \<and> disk t = disk s \<and> fdev t = fdev s \<and> filsys t = filsys s \<and> behind t = behind s \<and> answers t = answers s \<and>
     linkmap t = linkmap s \<and> length (bitmap t) = length (bitmap s) \<and>
     (\<forall>b. unat b < length (bitmap s) \<longrightarrow> (bitmap t ! unat b = 0) = (bitmap s ! unat b = 0 \<and> b \<notin> X))"

lemma marked_trans: "marked X s t \<Longrightarrow> marked Y t u \<Longrightarrow> marked (X \<union> Y) s u"
  by (simp add: marked_def)

lemma marked_same: "fk_ok t \<Longrightarrow> same_rest s t \<Longrightarrow> disk t = disk s \<Longrightarrow> marked {} s t"
  by (simp add: marked_def same_rest_fsck)

lemma marked_refl: "fk_ok s \<Longrightarrow> marked {} s s"
  by (simp add: marked_same)

definition ready_map :: "fsck \<Rightarrow> bool" where
  "ready_map s \<longleftrightarrow> fk_ok s \<and> length (bitmap s) = unat (s_fsize (filsys s))"

lemma ready_marked: "marked X s t \<Longrightarrow> ready_map s \<Longrightarrow> ready_map t"
  by (simp add: marked_def ready_map_def)

lemma mark_law:
  assumes "ready_map s" "\<not> bad_blk (filsys s) b"
  shows "\<exists>t. (if b \<noteq> 0 then set_mark 1 b s else Some s) = Some t \<and> marked ({b} - {0}) s t"
proof (cases "b = 0")
  case False
  then have "unat b < length (bitmap s)" using assms by (simp add: ready_map_def bad_blk_def not_le word_less_nat_alt)
  moreover have "a = b" if "unat a = unat b" for a using that by (rule unsigned_word_eqI)
  ultimately show ?thesis using False assms(1) by (auto simp: set_mark_def marked_def ready_map_def nth_list_update)
qed (use assms marked_refl in \<open>auto simp: ready_map_def\<close>)

lemma foldM_marked:
  assumes "\<forall>x \<in> set xs. \<forall>c \<in> C. \<forall>Y t. marked Y s t \<longrightarrow> (\<exists>c' \<in> C. \<exists>u. f x (c, t) = Some (c', u) \<and> marked (X x) t u)" "c \<in> C" "marked Z s t"
  shows "\<exists>c' \<in> C. \<exists>u. foldM f xs (c, t) = Some (c', u) \<and> marked (\<Union>x\<in>set xs. X x) t u"
  using assms
proof (induction xs arbitrary: c t Z)
  case Nil
  then have "fk_ok t" by (simp add: marked_def)
  then show ?case using marked_refl Nil by auto
next
  case (Cons x xs)
  from Cons.prems(1) [rule_format, OF list.set_intros(1) Cons.prems(2,3)] obtain c' u where
    u: "f x (c, t) = Some (c', u)" "marked (X x) t u" "c' \<in> C" by blast
  have "\<forall>y \<in> set xs. \<forall>c \<in> C. \<forall>Y t. marked Y s t \<longrightarrow> (\<exists>c' \<in> C. \<exists>u. f y (c, t) = Some (c', u) \<and> marked (X y) t u)"
    using Cons.prems(1) by simp
  from Cons.IH [OF this u(3) marked_trans [OF Cons.prems(3) u(2)]] obtain d v where
    v: "d \<in> C" "foldM f xs (c', u) = Some (d, v)" "marked (\<Union>x\<in>set xs. X x) u v" by blast
  then show ?case using u(1) marked_trans [OF u(2) v(3)] by auto
qed

subsection \<open>The checks of one inode\<close>

lemma ck_ind_law:
  assumes "ready_map s" "\<not> bad_blk (filsys s) (i_addr d ! b)" "i_addr d ! b \<noteq> 0 \<longrightarrow> 18 \<le> o_blkno (i_size d)"
  shows "\<exists>t. ck_ind n b (d, s) = Some (d, t) \<and> marked ({i_addr d ! b} - {0}) s t"
  using mark_law [OF assms(1,2)] assms(2,3) by (auto simp: ck_ind_def fix_ino_def not_less)

lemma ck_dind1_law:
  assumes "ready_map s" "\<not> bad_blk (filsys s) (get16 b i)"
  shows "\<exists>t. ck_dind1 i (b, s) = Some (b, t) \<and> marked ({get16 b i} - {0}) s t"
  using mark_law [OF assms] assms(2) by (auto simp: ck_dind1_def)

lemma ck_dind_law:
  assumes s: "ready_map s" and b: "\<forall>b \<in> dind_of (disk s) d. \<not> bad_blk (filsys s) b"
  shows "\<exists>t. ck_dind d s = Some t \<and> marked (dind_of (disk s) d - {0}) s t"
proof (cases "i_addr d ! 19 = 0")
  case True
  then show ?thesis using s marked_refl by (auto simp: ck_dind_def dind_of_def ready_map_def)
next
  case False
  let ?b = "disk s (i_addr d ! 19)"
  from s daread_law [of s "i_addr d ! 19"] obtain u where
    u: "daread (i_addr d ! 19) s = Some (?b, u)" "marked {} s u" using marked_same by (auto simp: ready_map_def)
  have "\<exists>v. ck_dind1 i (?b, t) = Some (?b, v) \<and> marked ({get16 ?b i} - {0}) t v" if "i \<in> set [0..<256]" "marked Y s t" for i Y t
    using ck_dind1_law [OF ready_marked [OF that(2) s], of ?b i] that b False by (auto simp: dind_of_def marked_def)
  then have "\<forall>i \<in> set [0..<256]. \<forall>c \<in> {?b}. \<forall>Y t. marked Y s t \<longrightarrow>
      (\<exists>c' \<in> {?b}. \<exists>v. ck_dind1 i (c, t) = Some (c', v) \<and> marked ({get16 ?b i} - {0}) t v)" by blast
  from foldM_marked [OF this _ u(2)] obtain v where
    v: "foldM ck_dind1 [0..<256] (?b, u) = Some (?b, v)" "marked (\<Union>i\<in>set [0..<256]. {get16 ?b i} - {0}) u v" by blast
  moreover have "(\<Union>i\<in>set [0..<256]. {get16 ?b i} - {0}) = dind_of (disk s) d - {0}"
    using False by (auto simp: dind_of_def)
  ultimately show ?thesis using u False marked_trans [OF u(2) v(2)] by (simp add: ck_dind_def)
qed

lemma ck_blk_law:
  assumes s: "ready_map s" and b: "\<not> bad_blk (filsys s) (blk_of (disk s) d i)"
  shows "\<exists>t. ck_blk n i (d, s) = Some (d, t) \<and> marked ({blk_of (disk s) d i} - {0}) s t"
proof -
  let ?b = "blk_of (disk s) d i"
  from s getblkno_law [of s d i] obtain u where
    u: "getblkno d i s = Some (?b, u)" "marked {} s u" using marked_same by (auto simp: ready_map_def)
  have "filsys u = filsys s" using u(2) by (simp add: marked_def)
  with mark_law [OF ready_marked [OF u(2) s], of ?b] b obtain v where
    v: "(if ?b \<noteq> 0 then set_mark 1 ?b u else Some u) = Some v" "marked ({?b} - {0}) u v" by auto
  then show ?thesis using u marked_trans [OF u(2) v(2)] b \<open>filsys u = filsys s\<close> by (simp add: ck_blk_def)
qed

lemma ck_file_law:
  assumes s: "ready_map s" and b: "\<forall>b \<in> file_of (disk s) d. \<not> bad_blk (filsys s) b" and n: "unat (o_blkno (i_size d)) < 65535"
  shows "\<exists>t. count_up (ck_blk n) 0 (o_blkno (i_size d)) (d, s) = Some (d, t) \<and> marked (file_of (disk s) d - {0}) s t"
proof -
  let ?n = "unat (o_blkno (i_size d))" and ?xs = "map of_nat [0..<Suc (unat (o_blkno (i_size d)))] :: u16 list"
  let ?X = "\<lambda>i. {blk_of (disk s) d i} - {0}"
  have "\<exists>v. ck_blk n i (d, t) = Some (d, v) \<and> marked (?X i) t v" if "i \<in> set ?xs" "marked Y s t" for i Y t
  proof -
    have t: "disk t = disk s" "filsys t = filsys s" using that(2) by (simp_all add: marked_def)
    have "i = of_nat (unat i)" "unat i \<le> ?n" using that(1) unat_of_below [of _ "o_blkno (i_size d)"] by (auto simp: le_less)
    then have "blk_of (disk s) d i \<in> file_of (disk s) d" unfolding file_of_def by (metis atMost_iff image_eqI)
    then show ?thesis using ck_blk_law [OF ready_marked [OF that(2) s], of d i n] b by (simp add: t)
  qed
  then have "\<forall>i \<in> set ?xs. \<forall>c \<in> {d}. \<forall>Y t. marked Y s t \<longrightarrow> (\<exists>c' \<in> {d}. \<exists>v. ck_blk n i (c, t) = Some (c', v) \<and> marked (?X i) t v)" by blast
  moreover have "marked {} s s" using s marked_refl by (simp add: ready_map_def)
  ultimately obtain u where u: "foldM (ck_blk n) ?xs (d, s) = Some (d, u)" "marked (\<Union>i\<in>set ?xs. ?X i) s u"
    using foldM_marked [of ?xs "{d}" s "ck_blk n" ?X d] by blast
  moreover have "(\<Union>i\<in>set ?xs. ?X i) = file_of (disk s) d - {0}"
  proof -
    have "{0..<Suc ?n} = {..?n}" by auto
    then have "set ?xs = of_nat ` {..?n}" by (simp only: set_map set_upt)
    then show ?thesis by (auto simp: file_of_def simp del: upt_Suc)
  qed
  moreover have "count_up (ck_blk n) 0 (o_blkno (i_size d)) = foldM (ck_blk n) ?xs"
    by (intro ext) (simp add: count_up_foldM [OF n] del: upt_Suc)
  ultimately show ?thesis by simp
qed

lemma ck_size_fine:
  "fine V f d \<Longrightarrow> i_mode d \<noteq> 0 \<Longrightarrow> ck_size n (d, s) = Some (d, s)"
  by (simp add: ck_size_def fix_ino_def fine_def)

lemma ck_blocks_law:
  assumes s: "ready_map s" and d: "fine (disk s) (filsys s) d" "i_mode d \<noteq> 0" "has_blocks d"
  shows "\<exists>t u v. foldM (ck_ind n) [18, 19] (d, s) = Some (d, t) \<and> ck_dind d t = Some u \<and>
    count_up (ck_blk n) 0 (o_blkno (i_size d)) (d, u) = Some (d, v) \<and> marked (used (disk s) d) s v"
proof -
  let ?a = "i_addr d"
  have U: "used (disk s) d = {?a ! 18, ?a ! 19} \<union> dind_of (disk s) d \<union> file_of (disk s) d - {0}" using d(3) by (simp add: used_def)
  have F: "\<forall>b \<in> used (disk s) d. \<not> bad_blk (filsys s) b" "unat (o_blkno (i_size d)) < 65535" "\<forall>b \<in> {18, 19}. ?a ! b \<noteq> 0 \<longrightarrow> 18 \<le> o_blkno (i_size d)"
    using d by (auto simp: fine_def)
  have ok: "\<not> bad_blk (filsys s) b" if "b \<in> {?a ! 18, ?a ! 19} \<union> dind_of (disk s) d \<union> file_of (disk s) d" for b
    using that F(1) U by (cases "b = 0") (auto simp: bad_blk_def)
  from ck_ind_law [OF s, of d 18 n] ok F(3) obtain t1 where
    t1: "ck_ind n 18 (d, s) = Some (d, t1)" "marked ({?a ! 18} - {0}) s t1" by auto
  have m1: "disk t1 = disk s" "filsys t1 = filsys s" using t1(2) by (simp_all add: marked_def)
  from ck_ind_law [OF ready_marked [OF t1(2) s], of d 19 n] ok F(3) obtain t2 where
    t2: "ck_ind n 19 (d, t1) = Some (d, t2)" "marked ({?a ! 19} - {0}) t1 t2" by (auto simp: m1)
  note M2 = marked_trans [OF t1(2) t2(2)]
  have m2: "disk t2 = disk s" "filsys t2 = filsys s" using M2 by (simp_all add: marked_def)
  from ck_dind_law [OF ready_marked [OF M2 s], of d] ok obtain u where
    u: "ck_dind d t2 = Some u" "marked (dind_of (disk s) d - {0}) t2 u" by (auto simp: m2)
  note M3 = marked_trans [OF M2 u(2)]
  have m3: "disk u = disk s" "filsys u = filsys s" using M3 by (simp_all add: marked_def)
  from ck_file_law [OF ready_marked [OF M3 s] _ F(2), of n] ok obtain v where
    v: "count_up (ck_blk n) 0 (o_blkno (i_size d)) (d, u) = Some (d, v)" "marked (file_of (disk s) d - {0}) u v" by (auto simp: m3)
  have "{?a ! 18} - {0} \<union> ({?a ! 19} - {0}) \<union> (dind_of (disk s) d - {0}) \<union> (file_of (disk s) d - {0}) = used (disk s) d" unfolding U by auto
  then show ?thesis using t1(1) t2(1) u(1) v(1) marked_trans [OF M3 v(2)] by simp
qed

text \<open>What pass 1 enters in the link map.\<close>

definition link0 :: "(u16 \<Rightarrow> block) \<Rightarrow> u16 \<Rightarrow> u16" where
  "link0 V n = (if i_mode (disk_inode V n) = 0 then - 1 else 0)"

definition start_links :: "(u16 \<Rightarrow> block) \<Rightarrow> u16 list \<Rightarrow> u16 list \<Rightarrow> u16 list" where
  "start_links V ns l = fold (\<lambda>n l. l[unat n := link0 V n]) ns l"

definition in_use_count :: "(u16 \<Rightarrow> block) \<Rightarrow> u16 list \<Rightarrow> u16" where
  "in_use_count V ns = of_nat (length [n \<leftarrow> ns. i_mode (disk_inode V n) \<noteq> 0])"

definition all_used :: "(u16 \<Rightarrow> block) \<Rightarrow> u16 list \<Rightarrow> u16 set" where
  "all_used V ns = (\<Union>n \<in> set ns. used V (disk_inode V n))"

lemma marked_upd: "fk_ok s \<Longrightarrow> marked {} s t \<Longrightarrow> marked {} (s\<lparr>linkmap := l\<rparr>) (t\<lparr>linkmap := l\<rparr>)"
  by (simp add: marked_def)

lemma ck_inode_law:
  assumes s: "ready_map s" and n: "unat n < length (linkmap s)" and d: "fine (disk s) (filsys s) (disk_inode (disk s) n)"
  shows "\<exists>t. ck_inode n (c, s) = Some (c + in_use_count (disk s) [n], t) \<and>
    marked (all_used (disk s) [n]) (s\<lparr>linkmap := start_links (disk s) [n] (linkmap s)\<rparr>) t"
proof -
  let ?d = "disk_inode (disk s) n" and ?l = "linkmap s"
  let ?s = "\<lambda>v. s\<lparr>linkmap := ?l[unat n := v]\<rparr>"
  from s iread_law [of s n] obtain t where
    t: "iread n s = Some (?d, t)" "marked {} s t" using marked_same by (auto simp: ready_map_def disk_inode_def)
  define t1 where "t1 = t\<lparr>linkmap := ?l[unat n := - 1]\<rparr>"
  have ok: "fk_ok s" "linkmap t = ?l" using s t(2) by (simp_all add: ready_map_def marked_def)
  have t1: "set_link n (- 1) t = Some t1" "marked {} (?s (- 1)) t1"
    using n ok marked_upd [OF ok(1) t(2)] by (simp_all add: set_link_def t1_def)
  show ?thesis
  proof (cases "i_mode ?d = 0")
    case True
    then have "used (disk s) ?d = {}" by (simp add: used_def has_blocks_def F_REG_def F_DIR_def)
    then show ?thesis using True t t1 by (simp add: ck_inode_def start_links_def link0_def all_used_def in_use_count_def)
  next
    case False
    define t2 where "t2 = t1\<lparr>linkmap := ?l[unat n := 0]\<rparr>"
    have t2: "set_link n 0 t1 = Some t2" "marked {} (?s 0) t2"
      using n ok marked_upd [OF ok(1) t(2), of "?l[unat n := 0]"] by (simp_all add: set_link_def t2_def t1_def)
    have m2: "disk t2 = disk s" "filsys t2 = filsys s" "ready_map t2" using t2(2) s by (simp_all add: marked_def ready_map_def)
    have good: "\<not> bad_type (i_mode ?d AND F_MASK)" using d False by (simp add: fine_def)
    have l: "start_links (disk s) [n] ?l = ?l[unat n := 0]" "in_use_count (disk s) [n] = 1" "all_used (disk s) [n] = used (disk s) ?d"
      using False by (simp_all add: start_links_def link0_def in_use_count_def all_used_def)
    show ?thesis
    proof (cases "has_blocks ?d")
      case True
      from ck_blocks_law [OF m2(3), of ?d n] d False True obtain t u v where
        v: "foldM (ck_ind n) [18, 19] (?d, t2) = Some (?d, t)" "ck_dind ?d t = Some u"
          "count_up (ck_blk n) 0 (o_blkno (i_size ?d)) (?d, u) = Some (?d, v)" "marked (used (disk s) ?d) t2 v" by (auto simp: m2)
      have "ck_inode n (c, s) = Some (c + 1, v)"
        using False True good v(1-3) t(1) t1(1) t2(1) ck_size_fine [OF d False]
        by (simp add: ck_inode_def fix_ino_def has_blocks_def del: foldM.simps)
      then show ?thesis using marked_trans [OF t2(2) v(4)] by (simp add: l)
    next
      case no: False
      then have "used (disk s) ?d = {}" by (simp add: used_def)
      moreover have "ck_inode n (c, s) = Some (c + 1, t2)"
        using False no good t(1) t1(1) t2(1) ck_size_fine [OF d False] by (simp add: ck_inode_def fix_ino_def has_blocks_def)
      ultimately show ?thesis using t2(2) by (simp add: l)
    qed
  qed
qed

lemma marked_relink: "marked X (s\<lparr>linkmap := l\<rparr>) t \<Longrightarrow> marked Y (t\<lparr>linkmap := k\<rparr>) u \<Longrightarrow> marked (X \<union> Y) (s\<lparr>linkmap := k\<rparr>) u"
  by (simp add: marked_def)

lemma ck_inodes_law:
  assumes "ready_map s" "\<forall>n \<in> set ns. unat n < length (linkmap s) \<and> fine (disk s) (filsys s) (disk_inode (disk s) n)"
  shows "\<exists>t. foldM ck_inode ns (c, s) = Some (c + in_use_count (disk s) ns, t) \<and>
    marked (all_used (disk s) ns) (s\<lparr>linkmap := start_links (disk s) ns (linkmap s)\<rparr>) t"
  using assms
proof (induction ns arbitrary: c s)
  case Nil
  then show ?case using marked_refl by (simp add: in_use_count_def all_used_def start_links_def ready_map_def)
next
  case (Cons n ns)
  from ck_inode_law [OF Cons.prems(1), of n c] Cons.prems(2) obtain t where
    t: "ck_inode n (c, s) = Some (c + in_use_count (disk s) [n], t)"
      "marked (all_used (disk s) [n]) (s\<lparr>linkmap := start_links (disk s) [n] (linkmap s)\<rparr>) t" by auto
  have T: "disk t = disk s" "filsys t = filsys s" "linkmap t = start_links (disk s) [n] (linkmap s)" "ready_map t"
    using t(2) Cons.prems(1) by (simp_all add: marked_def ready_map_def)
  have "length (linkmap t) = length (linkmap s)" by (simp add: T(3) start_links_def)
  then have "\<forall>m \<in> set ns. unat m < length (linkmap t) \<and> fine (disk t) (filsys t) (disk_inode (disk t) m)"
    using Cons.prems(2) by (simp add: T)
  from Cons.IH [OF T(4) this] obtain u where
    u: "foldM ck_inode ns (c + in_use_count (disk s) [n], t) = Some (c + in_use_count (disk s) [n] + in_use_count (disk s) ns, u)"
      "marked (all_used (disk s) ns) (t\<lparr>linkmap := start_links (disk s) ns (linkmap t)\<rparr>) u" by (auto simp: T(1))
  have "start_links (disk s) ns (linkmap t) = start_links (disk s) (n # ns) (linkmap s)" by (simp add: T(3) start_links_def)
  then have "marked (all_used (disk s) (n # ns)) (s\<lparr>linkmap := start_links (disk s) (n # ns) (linkmap s)\<rparr>) u"
    using marked_relink [OF t(2) u(2)] by (simp add: all_used_def)
  moreover have "c + in_use_count (disk s) [n] + in_use_count (disk s) ns = c + in_use_count (disk s) (n # ns)"
    by (simp add: in_use_count_def)
  ultimately show ?case using t(1) u(1) by simp
qed

subsection \<open>The two passes\<close>

lemma yes_cong: "answers t = answers s \<Longrightarrow> fst (yes t) = fst (yes s) \<and> answers (snd (yes t)) = answers (snd (yes s))"
  by (simp add: yes_def split: prod.split)

lemma yes_frame: "snd (yes s) = s\<lparr>answers := answers (snd (yes s))\<rparr>"
  by (simp add: yes_def split: prod.split)

text \<open>Pass 1 changes at most the count of free inodes in the superblock, on block 1.\<close>

definition counted :: "fsck \<Rightarrow> fsck \<Rightarrow> bool" where
  "counted s t \<longleftrightarrow> fk_ok t \<and> fdev t = fdev s \<and> behind t = behind s \<and> bitmap t = bitmap s \<and>
     linkmap t = linkmap s \<and> filsys t = (filsys s)\<lparr>s_tinode := s_tinode (filsys t)\<rparr> \<and> (\<forall>a. a \<noteq> 1 \<longrightarrow> disk t a = disk s a)"

lemma write_super_law:
  assumes "fk_ok s" "fs_shape (filsys s)" "296 \<le> length (behind s)"
  shows "\<exists>t. write_super s = Some t \<and> fk_ok t \<and> same_rest s t \<and> (\<forall>a. a \<noteq> 1 \<longrightarrow> disk t a = disk s a) \<and> bytes_fs (disk t 1) = filsys s"
proof -
  let ?sb = "take 512 (fs_bytes (filsys s) @ behind s)"
  have sb: "length ?sb = 512" "bytes_fs ?sb = filsys s"
    using length_fs_bytes [OF assms(2)] assms(3) bytes_fs_bytes [OF assms(2), of "take 290 (behind s)"] by simp_all
  with fsck_dwrite_law [OF assms(1) sb(1), of 1] show ?thesis by (auto simp: write_super_def)
qed

text \<open>The number of free inodes.\<close>

definition free_inodes :: "fsck \<Rightarrow> u16" where
  "free_inodes s = 8 * (s_isize (filsys s) - 2) - ROOTINODE - in_use_count (disk s) (inodes s)"

lemma pass1_law:
  assumes s: "ready_map s" "fs_shape (filsys s)" "296 \<le> length (behind s)" "fst (yes s)" "fst (yes (snd (yes s)))"
    and n: "\<forall>n \<in> set (inodes s). unat n < length (linkmap s) \<and> fine (disk s) (filsys s) (disk_inode (disk s) n)"
  shows "\<exists>t u. pass1 s = Some u \<and>
    marked (all_used (disk s) (inodes s)) (s\<lparr>linkmap := start_links (disk s) (inodes s) (linkmap s)\<rparr>) t \<and>
    counted t u \<and> s_tinode (filsys u) = free_inodes s \<and> (answers u = answers s \<or> answers u = answers (snd (yes s)))"
proof -
  let ?n = "free_inodes s" and ?c = "in_use_count (disk s) (inodes s)"
  from ck_inodes_law [OF s(1) n, of 0] obtain t where
    t: "foldM ck_inode (inodes s) (0, s) = Some (?c, t)"
      "marked (all_used (disk s) (inodes s)) (s\<lparr>linkmap := start_links (disk s) (inodes s) (linkmap s)\<rparr>) t" by auto
  have T: "fk_ok t" "filsys t = filsys s" "behind t = behind s" "answers t = answers s" using t(2) by (simp_all add: marked_def)
  show ?thesis
  proof (cases "s_tinode (filsys s) = ?n")
    case True
    then have "pass1 s = Some t" using t(1) T(2) by (simp add: pass1_def free_inodes_def)
    moreover have "counted t t" using T(1) by (simp add: counted_def)
    ultimately show ?thesis using t(2) T(2,4) True by auto
  next
    case False
    let ?w = "(snd (yes t))\<lparr>filsys := (filsys t)\<lparr>s_tinode := ?n\<rparr>\<rparr>"
    have w: "fk_ok (snd (yes t))" "disk (snd (yes t)) = disk t" "fdev (snd (yes t)) = fdev t" "behind (snd (yes t)) = behind t"
        "bitmap (snd (yes t)) = bitmap t" "filsys (snd (yes t)) = filsys t" "linkmap (snd (yes t)) = linkmap t"
      using T(1) by (subst yes_frame, simp)+
    have "fs_shape (filsys ?w)" using s(2) T(2) by (simp add: fs_shape_def)
    then obtain u where u: "write_super ?w = Some u" "fk_ok u" "same_rest ?w u" "\<forall>a. a \<noteq> 1 \<longrightarrow> disk u a = disk ?w a"
      using write_super_law [of ?w] w s(3) T(3) by auto
    have y: "fst (yes t)" "answers u = answers (snd (yes s))" using yes_cong [OF T(4)] s(4) u(3) by (auto simp: same_rest_fsck)
    have "pass1 s = Some u" using t(1) T(2) False y(1) u(1) w(6) by (cases "yes t") (simp add: pass1_def free_inodes_def)
    moreover have "counted t u" "s_tinode (filsys u) = ?n" using u(2-4) w by (simp_all add: counted_def same_rest_fsck)
    ultimately show ?thesis using t(2) y(2) by blast
  qed
qed

lemma unat_times_8: "unat (w :: u16) < 8192 \<Longrightarrow> unat (8 * w) = 8 * unat w"
  by (simp add: unat_word_ariths)

text \<open>A superblock that allows for the inode table and data blocks, and a table of inodes about which pass 1 has no question.\<close>

definition sane_super :: "filesys \<Rightarrow> bool" where
  "sane_super f \<longleftrightarrow> fs_shape f \<and> s_mounted f = SMOUNTED \<and> 2 \<le> unat (s_isize f) \<and> unat (s_isize f) < 8192 \<and> s_isize f < s_fsize f"

definition sane :: "fsck \<Rightarrow> bool" where
  "sane s \<longleftrightarrow> fk_ok s \<and> sane_super (filsys s) \<and> 296 \<le> length (behind s) \<and>
     (\<forall>n \<in> set (inodes s). fine (disk s) (filsys s) (disk_inode (disk s) n))"

definition unused_blocks :: "fsck \<Rightarrow> u16 list" where
  "unused_blocks s = [j \<leftarrow> map of_nat [unat (s_isize (filsys s))..<unat (s_fsize (filsys s))]. j \<notin> all_used (disk s) (inodes s)]"

lemma inodes_bound:
  assumes "n \<in> set (inodes s)" "sane_super (filsys s)"
  shows "unat n < unat (8 * s_isize (filsys s))" "2 \<le> ino_blk n" "ino_blk n < s_isize (filsys s)"
proof -
  let ?i = "s_isize (filsys s)"
  note f = assms(2) [unfolded sane_super_def]
  have i: "unat (?i - 2) = unat ?i - 2" using f unat_minus_16 [of 2 ?i] by (simp add: word_le_nat_alt)
  then have m: "unat (8 * (?i - 2)) = 8 * (unat ?i - 2)" using f by (subst unat_times_8) (simp_all add: less_imp_diff_less)
  obtain j where j: "n = of_nat j" "j < unat (8 * (?i - 2))" using assms(1) by (auto simp: inodes_def)
  have n: "unat n < 8 * (unat ?i - 2)" unfolding j(1) unat_of_below [OF j(2)] using j(2) m by simp
  then show "unat n < unat (8 * ?i)" using unat_times_8 [of ?i] f by simp
  have d: "unat (drop_bit 3 n) = unat n div 8" by (simp only: unsigned_drop_bit_eq) (simp add: drop_bit_eq_div take_bit_nat_eq_self)
  have "unat n div 8 < unat ?i - 2" using n by (simp add: less_mult_imp_div_less mult.commute)
  moreover from this f have "unat n div 8 + 2 < 65536" by linarith
  then have "unat (drop_bit 3 n + 2) = unat n div 8 + 2" using d by (simp add: unat_word_ariths)
  ultimately show "2 \<le> ino_blk n" "ino_blk n < ?i" by (simp_all add: ino_blk_def word_le_nat_alt word_less_nat_alt)
qed

lemma free_passes:
  assumes s: "sane s" "fst (yes s)" "fst (yes (snd (yes s)))"
  defines "xs \<equiv> unused_blocks s"
  shows "\<exists>u v. pass1 (make_maps s) = Some u \<and> pass2 u = Some v \<and> fk_ok v \<and> fdev v = fdev s \<and> behind v = behind s \<and>
    length (bitmap v) = unat (s_fsize (filsys s)) \<and>
    linkmap v = start_links (disk s) (inodes s) (replicate (unat (8 * s_isize (filsys s))) 0) \<and>
    s_isize (filsys v) = s_isize (filsys s) \<and> s_fsize (filsys v) = s_fsize (filsys s) \<and> s_tinode (filsys v) = free_inodes s \<and>
    super_ok (filsys v) xs \<and> free_stack (disk v) (table (filsys v)) xs \<and> bytes_fs (disk v 1) = filsys v \<and>
    (\<forall>a. a \<noteq> 1 \<and> a \<notin> set xs \<longrightarrow> disk v a = disk s a)"
proof -
  let ?s = "make_maps s" and ?f = "filsys s"
  have ok: "fk_ok s" "fs_shape ?f" "296 \<le> length (behind s)" using s(1) by (simp_all add: sane_def sane_super_def)
  have S: "ready_map ?s" "filsys ?s = ?f" "disk ?s = disk s" "behind ?s = behind s" "inodes ?s = inodes s" "fdev ?s = fdev s" "answers ?s = answers s"
      "linkmap ?s = replicate (unat (8 * s_isize ?f)) 0" "bitmap ?s = replicate (unat (s_fsize ?f)) 0" "free_inodes ?s = free_inodes s"
    using ok by (simp_all add: make_maps_def ready_map_def inodes_def free_inodes_def)
  have yes: "fst (yes ?s)" "fst (yes (snd (yes ?s)))"
    using s(2,3) yes_cong [OF S(7)] yes_cong [of "snd (yes ?s)" "snd (yes s)"] by auto
  have "\<forall>n \<in> set (inodes ?s). unat n < length (linkmap ?s) \<and> fine (disk ?s) (filsys ?s) (disk_inode (disk ?s) n)"
    using inodes_bound(1) s(1) by (simp add: S sane_def)
  from pass1_law [OF S(1) _ _ yes this] S ok obtain t u where
    u: "pass1 ?s = Some u" "marked (all_used (disk s) (inodes s)) (?s\<lparr>linkmap := start_links (disk s) (inodes s) (linkmap ?s)\<rparr>) t" "counted t u"
      "s_tinode (filsys u) = free_inodes s" "answers u = answers ?s \<or> answers u = answers (snd (yes ?s))" by auto
  have y: "fst (yes u)" using u(5) yes yes_cong by blast
  have U: "fk_ok u" "filsys u = ?f\<lparr>s_tinode := free_inodes s\<rparr>" "behind u = behind s" "fdev u = fdev s" "length (bitmap u) = unat (s_fsize ?f)"
      "linkmap u = start_links (disk s) (inodes s) (linkmap ?s)" "\<And>a. a \<noteq> 1 \<Longrightarrow> disk u a = disk s a"
      "\<And>b. unat b < unat (s_fsize ?f) \<Longrightarrow> (bitmap u ! unat b = 0) = (b \<notin> all_used (disk s) (inodes s))"
    using u(2,3,4) S by (auto simp: marked_def counted_def)
  have G: "s_isize (filsys u) = s_isize ?f" "s_fsize (filsys u) = s_fsize ?f" "s_mounted (filsys u) = SMOUNTED" "fs_shape (filsys u)"
      "2 \<le> unat (s_isize ?f)" "s_isize ?f \<le> s_fsize ?f"
    using U(2) s(1) by (simp_all add: sane_def sane_super_def fs_shape_def order.strict_implies_order)
  have xs: "[j \<leftarrow> map of_nat [unat (s_isize (filsys u))..<unat (s_fsize (filsys u))]. bitmap u ! unat j = 0] = xs"
    unfolding xs_def unused_blocks_def G
  proof (rule filter_cong [OF refl])
    fix j :: u16 assume "j \<in> set (map of_nat [unat (s_isize ?f)..<unat (s_fsize ?f)])"
    then obtain i where "j = of_nat i" "i < unat (s_fsize ?f)" by auto
    then have "unat j < unat (s_fsize ?f)" by (simp only: unat_of_below)
    then show "(bitmap u ! unat j = 0) = (j \<notin> all_used (disk s) (inodes s))" by (rule U(8))
  qed
  from pass2_rebuilds [OF U(1) y refl G(4,3)] G U(3,5) ok(3) xs obtain v where
    v: "pass2 u = Some v" "fk_ok v" "same_rest ((snd (yes u))\<lparr>filsys := filsys v\<rparr>) v" "but_list (empty_list (filsys u)) (filsys v)"
      "super_ok (filsys v) xs" "free_stack (disk v) (table (filsys v)) xs" "bytes_fs (disk v 1) = filsys v"
      "\<forall>a. a \<noteq> 1 \<and> a \<notin> set xs \<longrightarrow> disk v a = disk u a" by auto
  have V: "fdev v = fdev u" "behind v = behind u" "bitmap v = bitmap u" "linkmap v = linkmap u"
    using v(3) by (simp_all add: same_rest_fsck, (subst yes_frame, simp)+)
  have "s_isize (filsys v) = s_isize ?f" "s_fsize (filsys v) = s_fsize ?f" "s_tinode (filsys v) = free_inodes s"
    using but_list_fields(1-3) [OF v(4)] G(1,2) U(2) by (simp_all add: empty_list_def)
  then show ?thesis using u(1) v(1,2,5-8) V U(3-7) S(8) by auto
qed

text \<open>C15: The checker frees the blocks that no inode uses, and only those. On a file system whose superblock and inodes
  are in order (pass 1 has no question about any inode), with the two questions that remain answered with yes, passes 1 and 2 return; the free
  list they build is the stack of exactly the data blocks that no inode uses, lowest on top, each once; the superblock
  is on block 1; every other block outside of the list is as before; and a kernel that sees this
  device mounts it with that free list.\<close>

theorem fsck_frees_the_unused:
  assumes s: "sane s" "fst (yes s)" "fst (yes (snd (yes s)))"
  shows "\<exists>t. do { s \<leftarrow> pass1 (make_maps s); pass2 s } = Some t \<and> quiet t \<and> super_ok (filsys t) (unused_blocks s) \<and>
    free_stack (disk t) (table (filsys t)) (unused_blocks s) \<and> bytes_fs (disk t 1) = filsys t \<and>
    (\<forall>a. a \<noteq> 1 \<and> a \<notin> set (unused_blocks s) \<longrightarrow> disk t a = disk s a) \<and>
    (\<forall>k :: kst. quiet k \<and> length (fs_tab k) = 4 \<and> bview k (fdev s) = disk t \<longrightarrow>
       (\<exists>u. fmount (fdev s) None k = Some (0, u) \<and> fs_ok u (fdev s) (unused_blocks s)))"
proof -
  from free_passes [OF assms] obtain u v where
    v: "pass1 (make_maps s) = Some u" "pass2 u = Some v" "fk_ok v" "s_isize (filsys v) = s_isize (filsys s)" "s_fsize (filsys v) = s_fsize (filsys s)"
      "super_ok (filsys v) (unused_blocks s)" "free_stack (disk v) (table (filsys v)) (unused_blocks s)" "bytes_fs (disk v 1) = filsys v"
      "\<forall>a. a \<noteq> 1 \<and> a \<notin> set (unused_blocks s) \<longrightarrow> disk v a = disk s a" by blast
  have "s_isize (filsys v) < s_fsize (filsys v)" "disk_dev (fdev s)" using v(4,5) s(1) by (simp_all add: sane_def sane_super_def fk_ok_def)
  then have "\<exists>w. fmount (fdev s) None k = Some (0, w) \<and> fs_ok w (fdev s) (unused_blocks s)"
    if "quiet k \<and> length (fs_tab k) = 4 \<and> bview k (fdev s) = disk v" for k :: kst
    using mount_sane [of k "fdev s" "filsys v" "unused_blocks s"] that v(6-8) by auto
  then show ?thesis using v(1-3,6-9) by (auto simp: fk_ok_def)
qed

text \<open>A device of six blocks with the root directory that \<^verbatim>\<open>mkfs\<close> makes, in block 3.\<close>

definition fsck0 :: fsck where
  "fsck0 = \<lparr>bufpool = bufpool bst0, bufclock = 0, hd = hd0, u_error = NOERR, u_buf = 0, fdev = 0, filsys = new_super 3 6,
     behind = replicate 296 0, bitmap = [], linkmap = [], depth = 0, answers = [121, 10, 121, 10]\<rparr>"

lemma fsck0_ok: "fk_ok fsck0"
  by (auto simp: fk_ok_def fsck0_def quiet_def pool_ok_def bst0_def hd0_ok busyset_def distinct_names_def bufp_def buf_inv_def
      blank_def disk_dev_def)

lemma take_concat:
  assumes "\<forall>d \<in> set ds. length (f d) = n" "j < length ds"
  shows "take n (drop (n * j) (concat (map f ds))) = f (ds ! j)"
  using assms
proof (induction ds arbitrary: j)
  case (Cons d ds)
  then show ?case by (cases j) simp_all
qed simp

lemma first_inodes_entry:
  assumes "j < 8"
  shows "get_dinode (first_inodes i) j = (if j = 0 then reserved_dinode else if j = 1 then root_dinode i else no_node)"
proof -
  let ?ds = "reserved_dinode # root_dinode i # replicate 6 no_node"
  have ok: "\<forall>d \<in> set ?ds. dinode_ok d" by (simp add: dinode_ok_def root_dinode_def reserved_dinode_def no_node_def)
  have "j < length ?ds" using assms by simp
  then have "take 64 (drop (64 * j) (first_inodes i)) = dinode_bytes (?ds ! j)"
    unfolding first_inodes_def using ok by (intro take_concat) (simp_all add: length_dinode_bytes)
  moreover have "dinode_ok (?ds ! j)" using ok \<open>j < length ?ds\<close> nth_mem by blast
  ultimately show ?thesis using assms by (simp add: get_dinode_def bytes_dinode_bytes nth_Cons' )
qed

lemma small_inodes:
  assumes "filsys s = new_super 3 6" "disk s 2 = first_inodes 3"
  shows "set (inodes s) = {1, 2, 3, 4, 5, 6, 7}"
    "n \<in> {1, 2, 3, 4, 5, 6, 7} \<Longrightarrow> disk_inode (disk s) n = (if n = 1 then root_dinode 3 else no_node)"
    "used V no_node = {}" "has_blocks (root_dinode 3)" "used V (root_dinode 3) = {3}"
proof -
  show "set (inodes s) = {1, 2, 3, 4, 5, 6, 7}" by (auto simp: inodes_def assms(1) new_super_def ROOTINODE_def upt_conv_Cons)
  have slot: "ino_blk n = 2" "ino_slot n = unat n" if "n \<in> {1, 2, 3, 4, 5, 6, 7}" for n
    using that by (auto simp: ino_blk_def ino_slot_def)
  show "disk_inode (disk s) n = (if n = 1 then root_dinode 3 else no_node)" if "n \<in> {1, 2, 3, 4, 5, 6, 7}"
    using that slot [OF that] by (auto simp: disk_inode_def assms(2) first_inodes_entry)
  show "used V no_node = {}" by (simp add: used_def has_blocks_def no_node_def F_REG_def F_DIR_def)
  show "has_blocks (root_dinode 3)" "used V (root_dinode 3) = {3}"
    by (auto simp: has_blocks_def used_def root_dinode_def no_node_def F_MASK_def F_DIR_def F_REG_def MODE_MASK_def dind_of_def file_of_def blk_of_def)
qed

lemma small_sane:
  assumes s: "fk_ok s" "filsys s = new_super 3 6" "behind s = replicate 296 0" "disk s 2 = first_inodes 3"
  shows "sane s" "unused_blocks s = [4, 5]"
proof -
  note S = small_inodes [OF s(2,4)]
  have "fine V f no_node" for V f by (simp add: fine_def no_node_def)
  moreover have "fine (disk s) (filsys s) (root_dinode 3)" unfolding fine_def S(5)
    by (simp add: S(4) s(2) new_super_def bad_blk_def) (simp add: root_dinode_def no_node_def bad_type_def F_MASK_def F_DIR_def F_REG_def MODE_MASK_def)
  ultimately show "sane s" using s(1)
    by (auto simp: sane_def S(1,2)) (simp_all add: s(2,3) sane_super_def new_super_def fs_shape_def word_less_nat_alt)
  have "all_used (disk s) (inodes s) = {3}" using S(3,5) by (auto simp: all_used_def S(1,2))
  then show "unused_blocks s = [4, 5]" by (simp add: unused_blocks_def s(2) new_super_def upt_conv_Cons)
qed

lemma fsck_frees_the_unused_witness:
  "\<exists>s t. fsck_dwrite 2 (first_inodes 3) fsck0 = Some s \<and> do { s \<leftarrow> pass1 (make_maps s); pass2 s } = Some t \<and>
     free_stack (disk t) (table (filsys t)) [4, 5]"
proof -
  from fsck_dwrite_law [OF fsck0_ok length_first_inodes, of 2 3] obtain s where
    s: "fsck_dwrite 2 (first_inodes 3) fsck0 = Some s" "fk_ok s" "same_rest fsck0 s" "disk s 2 = first_inodes 3" by auto
  have F: "filsys s = new_super 3 6" "answers s = [121, 10, 121, 10]" "behind s = replicate 296 0"
    using s(3) by (simp_all add: same_rest_fsck fsck0_def)
  have "fst (yes s)" "fst (yes (snd (yes s)))" by (simp_all add: yes_def F numeral_eq_Suc)
  from fsck_frees_the_unused [OF small_sane(1) [OF s(2) F(1,3) s(4)] this] s(1) show ?thesis
    unfolding small_sane(2) [OF s(2) F(1,3) s(4)] by auto
qed

end
