(* ===== verification/FsckDups.thy ===== *)
theory FsckDups
  imports FsckMarks
begin

section \<open>Pass 3 finds nothing when no block is used twice\<close>

text \<open>The blocks an inode uses, as pass 3 counts them, in order.\<close>

definition if_any :: "u16 \<Rightarrow> u16 list" where
  "if_any b = (if b = 0 then [] else [b])"

definition ind_list :: "dinode \<Rightarrow> u16 list" where
  "ind_list d = concat (map (\<lambda>b. if_any (i_addr d ! b)) [18, 19])"

definition nums :: "dinode \<Rightarrow> u16 list" where
  "nums d = map of_nat [0..<Suc (unat (o_blkno (i_size d)))]"

definition file_list :: "(u16 \<Rightarrow> block) \<Rightarrow> dinode \<Rightarrow> u16 list" where
  "file_list V d = concat (map (\<lambda>i. if_any (blk_of V d i)) (nums d))"

definition inode_list :: "(u16 \<Rightarrow> block) \<Rightarrow> u16 \<Rightarrow> u16 list" where
  "inode_list V n = (let d = disk_inode V n in if has_blocks d then ind_list d @ file_list V d else [])"

definition all_blocks :: "(u16 \<Rightarrow> block) \<Rightarrow> u16 list \<Rightarrow> u16 list" where
  "all_blocks V ns = concat (map (inode_list V) ns)"

definition zero_map :: "fsck \<Rightarrow> bool" where
  "zero_map s \<longleftrightarrow> (\<forall>b. data_blk (filsys s) b \<longrightarrow> bitmap s ! unat b = 0)"

lemma foldM_fresh:
  assumes "\<forall>x \<in> set xs. \<forall>\<sigma> \<in> C. \<forall>Y. marked Y s (st \<sigma>) \<and> set (L x) \<inter> Y = {} \<longrightarrow> (\<exists>\<tau> \<in> C. f x \<sigma> = Some \<tau> \<and> marked (set (L x)) (st \<sigma>) (st \<tau>))"
    "distinct (concat (map L xs))" "\<sigma> \<in> C" "marked Z s (st \<sigma>)" "set (concat (map L xs)) \<inter> Z = {}"
  shows "\<exists>\<tau> \<in> C. foldM f xs \<sigma> = Some \<tau> \<and> marked (set (concat (map L xs))) (st \<sigma>) (st \<tau>)"
  using assms
proof (induction xs arbitrary: \<sigma> Z)
  case Nil
  then have "fk_ok (st \<sigma>)" by (simp add: marked_def)
  then show ?case using marked_refl Nil by auto
next
  case (Cons x xs)
  have d: "set (L x) \<inter> Z = {}" "set (concat (map L xs)) \<inter> (Z \<union> set (L x)) = {}" "distinct (concat (map L xs))"
    using Cons.prems(2,5) by auto
  from Cons.prems(1) [rule_format, OF list.set_intros(1) Cons.prems(3)] Cons.prems(4) d(1) obtain \<tau> where
    t: "f x \<sigma> = Some \<tau>" "marked (set (L x)) (st \<sigma>) (st \<tau>)" "\<tau> \<in> C" by blast
  have "\<forall>y \<in> set xs. \<forall>\<sigma> \<in> C. \<forall>Y. marked Y s (st \<sigma>) \<and> set (L y) \<inter> Y = {} \<longrightarrow> (\<exists>\<tau> \<in> C. f y \<sigma> = Some \<tau> \<and> marked (set (L y)) (st \<sigma>) (st \<tau>))"
    using Cons.prems(1) by simp
  from Cons.IH [OF this d(3) t(3) marked_trans [OF Cons.prems(4) t(2)] d(2)] obtain \<upsilon> where
    u: "\<upsilon> \<in> C" "foldM f xs \<tau> = Some \<upsilon>" "marked (set (concat (map L xs))) (st \<tau>) (st \<upsilon>)" by blast
  then show ?case using t(1) marked_trans [OF t(2) u(3)] by auto
qed

lemma move_block_law:
  assumes s: "ready_map s" "zero_map s" "marked Y s t" and b: "\<not> bad_blk (filsys s) b" "b \<noteq> 0" "b \<notin> Y"
  shows "\<exists>u. move_block put n b (d, t) = Some (d, u) \<and> marked {b} t u"
proof -
  have db: "data_blk (filsys s) b" using b(1,2) by (simp add: bad_blk_def data_blk_def not_less not_le)
  then have "unat b < length (bitmap s)" "bitmap s ! unat b = 0" using s(1,2) by (simp_all add: ready_map_def zero_map_def data_blk_def word_less_nat_alt)
  then have "get_mark b t = Some 0" using s(3) b(3) by (simp add: get_mark_def marked_def)
  moreover have "filsys t = filsys s" using s(3) by (simp add: marked_def)
  with mark_law [OF ready_marked [OF s(3,1)], of b] b(1,2) obtain u where "set_mark 1 b t = Some u" "marked {b} t u" by auto
  ultimately show ?thesis by (auto simp: move_block_def)
qed

lemma nums_file: "i \<in> set (nums d) \<Longrightarrow> blk_of V d i \<in> file_of V d"
proof -
  assume "i \<in> set (nums d)"
  then have "i = of_nat (unat i)" "unat i \<le> unat (o_blkno (i_size d))"
    using unat_of_below [of _ "o_blkno (i_size d)"] by (auto simp: nums_def le_less)
  then show ?thesis unfolding file_of_def by (metis atMost_iff image_eqI)
qed

lemma good_blocks:
  assumes "fine V f d" "has_blocks d"
  shows "\<forall>b \<in> {i_addr d ! 18, i_addr d ! 19} \<union> file_of V d. \<not> bad_blk f b" "unat (o_blkno (i_size d)) < 65535"
proof -
  have F: "\<forall>b \<in> used V d. \<not> bad_blk f b" "unat (o_blkno (i_size d)) < 65535"
    using assms by (auto simp: fine_def has_blocks_def F_REG_def F_DIR_def)
  show "\<forall>b \<in> {i_addr d ! 18, i_addr d ! 19} \<union> file_of V d. \<not> bad_blk f b"
  proof
    show "\<not> bad_blk f b" if "b \<in> {i_addr d ! 18, i_addr d ! 19} \<union> file_of V d" for b
      using that F(1) assms(2) by (cases "b = 0") (auto simp: used_def bad_blk_def)
  qed
  show "unat (o_blkno (i_size d)) < 65535" by (rule F(2))
qed

lemma dup_inds_law:
  assumes s: "ready_map s" "zero_map s" "marked Y s t" and b: "\<forall>b \<in> {i_addr d ! 18, i_addr d ! 19}. \<not> bad_blk (filsys s) b"
    and f: "distinct (ind_list d)" "set (ind_list d) \<inter> Y = {}"
  shows "\<exists>u. foldM (dup_ind n) [18, 19] (d, t) = Some (d, u) \<and> marked (set (ind_list d)) t u"
proof -
  let ?L = "\<lambda>b. if_any (i_addr d ! b)"
  have "\<exists>\<tau> \<in> {d} \<times> UNIV. dup_ind n b \<sigma> = Some \<tau> \<and> marked (set (?L b)) (snd \<sigma>) (snd \<tau>)"
    if H: "b \<in> set [18, 19]" "\<sigma> \<in> {d} \<times> UNIV" "marked Z s (snd \<sigma>)" "set (?L b) \<inter> Z = {}" for b \<sigma> Z
  proof -
    obtain w where w: "\<sigma> = (d, w)" "marked Z s w" using H by (cases \<sigma>) auto
    show ?thesis
    proof (cases "i_addr d ! b = 0")
      case True
      moreover have "fk_ok w" using w(2) by (simp add: marked_def)
      ultimately show ?thesis using w(1) marked_refl by (auto simp: dup_ind_def if_any_def)
    next
      case False
      let ?put = "\<lambda>newno ino s. Some (ino\<lparr>i_addr := (i_addr ino)[b := newno]\<rparr>, s)"
      have "\<not> bad_blk (filsys s) (i_addr d ! b)" "i_addr d ! b \<notin> Z" using that(1,4) b False by (auto simp: if_any_def)
      from move_block_law [OF s(1,2) w(2) this(1) False this(2), of ?put n d] obtain y where
        y: "move_block ?put n (i_addr d ! b) (d, w) = Some (d, y)" "marked {i_addr d ! b} w y" by auto
      then show ?thesis using w(1) False by (auto simp: dup_ind_def Let_def if_any_def)
    qed
  qed
  then have "\<forall>b \<in> set [18, 19]. \<forall>\<sigma> \<in> {d} \<times> UNIV. \<forall>Z. marked Z s (snd \<sigma>) \<and> set (?L b) \<inter> Z = {} \<longrightarrow>
      (\<exists>\<tau> \<in> {d} \<times> UNIV. dup_ind n b \<sigma> = Some \<tau> \<and> marked (set (?L b)) (snd \<sigma>) (snd \<tau>))" by blast
  moreover have "(d, t) \<in> {d} \<times> UNIV" "marked Y s (snd (d, t))" using s(3) by simp_all
  ultimately have "\<exists>\<tau> \<in> {d} \<times> UNIV. foldM (dup_ind n) [18, 19] (d, t) = Some \<tau> \<and> marked (set (ind_list d)) (snd (d, t)) (snd \<tau>)"
    using foldM_fresh [of "[18, 19]" "{d} \<times> UNIV" s snd ?L "dup_ind n"] f unfolding ind_list_def by blast
  then show ?thesis by auto
qed

lemma dup_file_law:
  assumes s: "ready_map s" "zero_map s" "marked Y s t" and b: "\<forall>b \<in> file_of (disk s) d. \<not> bad_blk (filsys s) b"
    and f: "distinct (file_list (disk s) d)" "set (file_list (disk s) d) \<inter> Y = {}" and n: "unat (o_blkno (i_size d)) < 65535"
  shows "\<exists>u. count_up (dup_blk n) 0 (o_blkno (i_size d)) (d, t) = Some (d, u) \<and> marked (set (file_list (disk s) d)) t u"
proof -
  let ?V = "disk s" let ?L = "\<lambda>i. if_any (blk_of ?V d i)"
  have "\<exists>\<tau> \<in> {d} \<times> UNIV. dup_blk n i \<sigma> = Some \<tau> \<and> marked (set (?L i)) (snd \<sigma>) (snd \<tau>)"
    if H: "i \<in> set (nums d)" "\<sigma> \<in> {d} \<times> UNIV" "marked Z s (snd \<sigma>)" "set (?L i) \<inter> Z = {}" for i \<sigma> Z
  proof -
    obtain w where w: "\<sigma> = (d, w)" "marked Z s w" using H by (cases \<sigma>) auto
    have W: "disk w = ?V" "fk_ok w" using w(2) by (simp_all add: marked_def)
    from getblkno_law [OF W(2), of d i] obtain x where x: "getblkno d i w = Some (blk_of ?V d i, x)" "marked {} w x"
      using marked_same by (auto simp: W)
    have sx: "marked Z s x" using marked_trans [OF w(2) x(2)] by simp
    show ?thesis
    proof (cases "blk_of ?V d i = 0")
      case True
      then show ?thesis using x w by (auto simp: dup_blk_def if_any_def)
    next
      case False
      let ?put = "\<lambda>newno ino. setblkno ino i newno"
      have "\<not> bad_blk (filsys s) (blk_of ?V d i)" "blk_of ?V d i \<notin> Z" using nums_file [OF that(1)] b that(4) False by (auto simp: if_any_def)
      from move_block_law [OF s(1,2) sx this(1) False this(2), of ?put n d] obtain y where
        y: "move_block ?put n (blk_of ?V d i) (d, x) = Some (d, y)" "marked {blk_of ?V d i} x y" by auto
      then show ?thesis using x w False marked_trans [OF x(2) y(2)] by (auto simp: dup_blk_def if_any_def)
    qed
  qed
  then have "\<forall>i \<in> set (nums d). \<forall>\<sigma> \<in> {d} \<times> UNIV. \<forall>Z. marked Z s (snd \<sigma>) \<and> set (?L i) \<inter> Z = {} \<longrightarrow>
      (\<exists>\<tau> \<in> {d} \<times> UNIV. dup_blk n i \<sigma> = Some \<tau> \<and> marked (set (?L i)) (snd \<sigma>) (snd \<tau>))" by blast
  moreover have "(d, t) \<in> {d} \<times> UNIV" "marked Y s (snd (d, t))" using s(3) by simp_all
  ultimately have "\<exists>\<tau> \<in> {d} \<times> UNIV. foldM (dup_blk n) (nums d) (d, t) = Some \<tau> \<and> marked (set (file_list ?V d)) (snd (d, t)) (snd \<tau>)"
    using foldM_fresh [of "nums d" "{d} \<times> UNIV" s snd ?L "dup_blk n"] f unfolding file_list_def by blast
  moreover have "count_up (dup_blk n) 0 (o_blkno (i_size d)) (d, t) = foldM (dup_blk n) (nums d) (d, t)"
    by (simp add: count_up_foldM [OF n] nums_def del: upt_Suc)
  ultimately show ?thesis by auto
qed

lemma dup_inode_law:
  assumes s: "ready_map s" "zero_map s" "marked Y s t" and d: "fine (disk s) (filsys s) (disk_inode (disk s) n)"
    and f: "distinct (inode_list (disk s) n)" "set (inode_list (disk s) n) \<inter> Y = {}"
  shows "\<exists>u. dup_inode n t = Some u \<and> marked (set (inode_list (disk s) n)) t u"
proof -
  let ?d = "disk_inode (disk s) n" and ?V = "disk s"
  have m: "disk t = ?V" "fk_ok t" using s(3) by (simp_all add: marked_def)
  from iread_law [OF m(2), of n] obtain t1 where t1: "iread n t = Some (?d, t1)" "marked {} t t1"
    using marked_same by (auto simp: disk_inode_def m)
  show ?thesis
  proof (cases "has_blocks ?d")
    case False
    then show ?thesis using t1 by (auto simp: dup_inode_def has_blocks_def inode_list_def)
  next
    case True
    then have L: "inode_list ?V n = ind_list ?d @ file_list ?V ?d" by (simp add: inode_list_def Let_def)
    then have D: "distinct (ind_list ?d)" "set (ind_list ?d) \<inter> Y = {}" "distinct (file_list ?V ?d)" "set (file_list ?V ?d) \<inter> (Y \<union> set (ind_list ?d)) = {}"
      using f by auto
    note G = good_blocks [OF d True]
    have st1: "marked Y s t1" using marked_trans [OF s(3) t1(2)] by simp
    from dup_inds_law [OF s(1,2) st1 _ D(1,2), of n] G(1) obtain t2 where
      t2: "foldM (dup_ind n) [18, 19] (?d, t1) = Some (?d, t2)" "marked (set (ind_list ?d)) t1 t2" by auto
    from dup_file_law [OF s(1,2) marked_trans [OF st1 t2(2)] _ D(3,4) G(2), of n] G(1) obtain t3 where
      t3: "count_up (dup_blk n) 0 (o_blkno (i_size ?d)) (?d, t2) = Some (?d, t3)" "marked (set (file_list ?V ?d)) t2 t3" by auto
    have "dup_inode n t = Some t3" using t1(1) t2(1) t3(1) True by (auto simp: dup_inode_def has_blocks_def simp del: foldM.simps)
    then show ?thesis using marked_trans [OF marked_trans [OF t1(2) t2(2)] t3(2)] by (simp add: L)
  qed
qed

lemma clear_maps:
  assumes "\<forall>b \<in> set bs. unat b < length (bitmap s)"
  shows "\<exists>m. foldM (set_mark 0) bs s = Some (s\<lparr>bitmap := m\<rparr>) \<and> length m = length (bitmap s) \<and> (\<forall>b \<in> set bs. m ! unat b = 0) \<and>
    (\<forall>i. bitmap s ! i = 0 \<longrightarrow> m ! i = 0)"
  using assms
proof (induction bs arbitrary: s)
  case Nil
  then show ?case by (auto intro: exI [of _ "bitmap s"])
next
  case (Cons b bs)
  let ?s = "s\<lparr>bitmap := (bitmap s)[unat b := 0]\<rparr>"
  have "set_mark 0 b s = Some ?s" using Cons.prems by (simp add: set_mark_def)
  moreover from Cons.IH [of ?s] Cons.prems obtain m where
    m: "foldM (set_mark 0) bs ?s = Some (?s\<lparr>bitmap := m\<rparr>)" "length m = length (bitmap s)" "\<forall>b \<in> set bs. m ! unat b = 0"
      "\<forall>i. (bitmap s)[unat b := 0] ! i = 0 \<longrightarrow> m ! i = 0" by auto
  moreover have "m ! unat b = 0" "\<forall>i. bitmap s ! i = 0 \<longrightarrow> m ! i = 0" using m(4) Cons.prems by (auto simp: nth_list_update)
  ultimately show ?case by auto
qed

lemma pass3_law:
  assumes s: "ready_map s" "1 \<le> unat (s_isize (filsys s))" and d: "distinct (all_blocks (disk s) (inodes s))"
    and n: "\<forall>n \<in> set (inodes s). fine (disk s) (filsys s) (disk_inode (disk s) n)"
  shows "\<exists>t. pass3 s = Some t \<and> fk_ok t \<and> disk t = disk s \<and> fdev t = fdev s \<and> filsys t = filsys s \<and> linkmap t = linkmap s"
proof -
  let ?bs = "map of_nat [unat (s_isize (filsys s))..<unat (s_fsize (filsys s))] :: u16 list" and ?V = "disk s"
  have B: "b \<in> set ?bs \<longleftrightarrow> b \<noteq> 0 \<and> unat (s_isize (filsys s)) \<le> unat b \<and> b < s_fsize (filsys s)" for b
    using s(2) by (intro blocks_from(2)) simp
  have "\<forall>b \<in> set ?bs. unat b < length (bitmap s)"
  proof
    fix b assume "b \<in> set ?bs"
    then have "b < s_fsize (filsys s)" using B by blast
    then show "unat b < length (bitmap s)" using s(1) by (simp add: ready_map_def word_less_nat_alt)
  qed
  from clear_maps [OF this] obtain m where
    m: "foldM (set_mark 0) ?bs s = Some (s\<lparr>bitmap := m\<rparr>)" "length m = length (bitmap s)" "\<forall>b \<in> set ?bs. m ! unat b = 0" by blast
  define t where "t = s\<lparr>bitmap := m\<rparr>"
  have T: "ready_map t" "disk t = ?V" "filsys t = filsys s" "inodes t = inodes s" using s(1) m(2) by (simp_all add: t_def ready_map_def inodes_def)
  have "zero_map t" unfolding zero_map_def T(3)
  proof (intro allI impI)
    fix b assume b: "data_blk (filsys s) b"
    then have "b \<noteq> 0" using s(2) by (auto simp: data_blk_def word_le_nat_alt)
    then have "b \<in> set ?bs" using b B [of b] unfolding data_blk_def word_le_nat_alt by blast
    then have "m ! unat b = 0" using m(3) by blast
    then show "bitmap t ! unat b = 0" by (simp add: t_def)
  qed
  note Z = T(1) this
  have "\<exists>u \<in> UNIV. dup_inode n v = Some u \<and> marked (set (inode_list ?V n)) v u"
    if "n \<in> set (inodes s)" "marked Y t v" "set (inode_list ?V n) \<inter> Y = {}" "distinct (inode_list ?V n)" for n v Y
    using dup_inode_law [OF Z that(2), of n] n that by (auto simp: T)
  moreover have "distinct (inode_list ?V n)" if "n \<in> set (inodes s)" for n
    using d that by (auto simp: all_blocks_def distinct_concat_iff)
  ultimately have "\<forall>n \<in> set (inodes s). \<forall>v \<in> UNIV. \<forall>Y. marked Y t (id v) \<and> set (inode_list ?V n) \<inter> Y = {} \<longrightarrow>
      (\<exists>u \<in> UNIV. dup_inode n v = Some u \<and> marked (set (inode_list ?V n)) (id v) (id u))" unfolding id_apply by blast
  moreover have "marked {} t (id t)" using marked_refl T(1) by (simp add: ready_map_def)
  ultimately obtain u where u: "foldM dup_inode (inodes s) t = Some u" "marked (set (all_blocks ?V (inodes s))) t u"
    using foldM_fresh [of "inodes s" UNIV t id "inode_list ?V" dup_inode t "{}"] d by (auto simp: all_blocks_def)
  then show ?thesis using m(1) by (auto simp: pass3_def marked_def t_def inodes_def)
qed

end
