(* ===== verification/FsckLinks.thy ===== *)
theory FsckLinks
  imports FsckDups
begin

section \<open>Pass 4 counts the references\<close>

text \<open>
  \<open>refs\<close> lists the inode numbers in the entries of the directories that the descent visits, \<open>good_tree\<close> says that it has no question on the
  way. Then pass 4 writes nothing new and adds to the link map one for each reference.
\<close>

subsection \<open>The directory tree\<close>

definition entry_of :: "(u16 \<Rightarrow> block) \<Rightarrow> dinode \<Rightarrow> u16 \<Rightarrow> direct" where
  "entry_of V d j = dir_entry (V (blk_of V d (j div 32))) (unat (j mod 32))"

definition places :: "dinode \<Rightarrow> u16 list" where
  "places d = map of_nat [0..<unat (entries d)]"

definition goes_down :: "nat \<Rightarrow> u16 \<Rightarrow> u16 \<Rightarrow> direct \<Rightarrow> bool" where
  "goes_down r i p e \<longleftrightarrow> d_ino e \<noteq> p \<and> d_ino e \<noteq> i \<and> 0 < r"

primrec refs :: "nat \<Rightarrow> (u16 \<Rightarrow> block) \<Rightarrow> u16 \<Rightarrow> u16 \<Rightarrow> u16 list" where
  "refs 0 V i p = []"
| "refs (Suc r) V i p =
     (let d = disk_inode V i
      in if i_mode d AND F_MASK \<noteq> F_DIR then []
         else concat (map (\<lambda>j. let e = entry_of V d j
                in if d_ino e = 0 then [] else d_ino e # (if goes_down r i p e then refs r V (d_ino e) i else [])) (places d)))"

definition good_entry :: "(u16 \<Rightarrow> block) \<Rightarrow> filesys \<Rightarrow> u16 \<Rightarrow> u16 \<Rightarrow> dinode \<Rightarrow> u16 \<Rightarrow> bool" where
  "good_entry V f i p d j \<longleftrightarrow> blk_of V d (j div 32) \<noteq> 0 \<and>
     (let e = entry_of V d j; nm = c_str (d_name e)
      in pad_name e = e \<and> (d_ino e \<noteq> 0 \<longrightarrow> ROOTINODE \<le> d_ino e \<and> d_ino e < 8 * s_isize f \<and> 47 \<notin> set nm \<and>
           (nm = [46] \<longrightarrow> d_ino e = i) \<and> (nm = [46, 46] \<longrightarrow> d_ino e = p)))"

primrec good_tree :: "nat \<Rightarrow> (u16 \<Rightarrow> block) \<Rightarrow> filesys \<Rightarrow> u16 \<Rightarrow> u16 \<Rightarrow> u8 list \<Rightarrow> bool" where
  "good_tree 0 V f i p nm = True"
| "good_tree (Suc r) V f i p nm =
     (let d = disk_inode V i
      in i_mode d AND F_MASK = F_DIR \<longrightarrow> sint (o_offset (i_size d)) smod 16 = 0 \<and>
         (\<forall>j \<in> set (places d). good_entry V f i p d j \<and>
            (let e = entry_of V d j
             in d_ino e \<noteq> 0 \<and> goes_down r i p e \<longrightarrow> (case sub_name nm e of None \<Rightarrow> False | Some nm' \<Rightarrow> good_tree r V f (d_ino e) i nm'))))"

subsection \<open>Counting\<close>

definition bump :: "u16 list \<Rightarrow> u16 list \<Rightarrow> u16 list" where
  "bump cs l = fold (\<lambda>c l. l[unat c := l ! unat c + 1]) cs l"

definition can_count :: "u16 list \<Rightarrow> u16 list \<Rightarrow> bool" where
  "can_count cs l \<longleftrightarrow> (\<forall>c \<in> set cs. unat c < length l \<and> unat (l ! unat c) + count_list cs c < 65535)"

lemma bump_simps [simp]: "bump [] l = l" "bump (c # cs) l = bump cs (l[unat c := l ! unat c + 1])" "bump (a @ b) l = bump b (bump a l)"
  by (simp_all add: bump_def)

lemma length_bump [simp]: "length (bump cs l) = length l"
  by (induction cs arbitrary: l) simp_all

lemma nth_bump: "unat c < length l \<Longrightarrow> bump cs l ! unat c = l ! unat c + of_nat (count_list cs c)"
proof (induction cs arbitrary: l)
  case (Cons a cs)
  have "unat a = unat c \<longleftrightarrow> a = c" by (auto dest: unsigned_word_eqI)
  then show ?case using Cons by (auto simp: nth_list_update)
qed simp

lemma can_count_append:
  assumes "can_count (a @ b) l"
  shows "can_count a l" "can_count b (bump a l)"
proof -
  have h: "unat c < length l \<and> unat (l ! unat c) + count_list a c + count_list b c < 65535" if "c \<in> set a \<or> c \<in> set b" for c
  proof -
    have "c \<in> set (a @ b)" using that by simp
    then show ?thesis using assms unfolding can_count_def by (metis add.assoc count_list_append)
  qed
  then show "can_count a l" by (fastforce simp: can_count_def)
  have "unat (bump a l ! unat c) = unat (l ! unat c) + count_list a c" if "c \<in> set b" for c
    using h [of c] that by (simp add: nth_bump unat_word_ariths unsigned_of_nat take_bit_nat_eq_self)
  then show "can_count b (bump a l)" using h by (fastforce simp: can_count_def)
qed

lemma unat_m1: "unat (- 1 :: u16) = 65535"
proof -
  have "- 1 = (65535 :: u16)" by simp
  then show ?thesis by (simp only:) simp
qed

lemma can_count_hd:
  assumes "can_count (c # cs) l"
  shows "unat c < length l" "l ! unat c \<noteq> - 1"
proof -
  have "unat (l ! unat c) < 65535" using assms by (simp add: can_count_def)
  then show "l ! unat c \<noteq> - 1" using unat_m1 by (metis less_irrefl)
  show "unat c < length l" using assms by (simp add: can_count_def)
qed

definition linked :: "u16 list \<Rightarrow> fsck \<Rightarrow> fsck \<Rightarrow> bool" where
  "linked cs s t \<longleftrightarrow> fk_ok t \<and> disk t = disk s \<and> same_rest (s\<lparr>linkmap := bump cs (linkmap s)\<rparr>) t"

lemma linked_trans: "linked a s t \<Longrightarrow> linked b t u \<Longrightarrow> linked (a @ b) s u"
  by (simp add: linked_def same_rest_fsck)

lemma linked_same: "fk_ok t \<Longrightarrow> same_rest s t \<Longrightarrow> disk t = disk s \<Longrightarrow> linked [] s t"
  by (simp add: linked_def same_rest_fsck)

lemma linkedD:
  assumes "linked cs s t"
  shows "fk_ok t" "disk t = disk s" "filsys t = filsys s" "depth t = depth s" "linkmap t = bump cs (linkmap s)"
  using assms by (simp_all add: linked_def same_rest_fsck)

subsection \<open>Entries\<close>

lemma disk_length: "fk_ok s \<Longrightarrow> length (disk s a) = 512"
  unfolding fk_ok_def quiet_def disk_def by (blast intro: bview_length)

lemma direct_same:
  assumes "length bs = 16"
  shows "direct_bytes (bytes_direct bs) = bs"
proof -
  obtain a b cs where bs: "bs = a # b # cs" "length cs = 14" using assms by (auto simp: numeral_eq_Suc length_Suc_conv)
  then show ?thesis by (simp add: direct_bytes_def bytes_direct_def)
qed

lemma splice_part: "i + n \<le> length b \<Longrightarrow> splice i (take n (drop i b)) b = b"
  by (simp add: splice_def) (metis add.commute append_take_drop_id drop_drop)

lemma rewrite_entry_same:
  assumes "length b = 512" "k < 32"
  shows "splice (16 * k) (direct_bytes (dir_entry b k)) b = b"
  using assms by (simp add: dir_entry_def direct_same splice_part)

lemma dirread_law:
  assumes "fk_ok s" "blk_of (disk s) d (j div 32) \<noteq> 0"
  shows "\<exists>t. dirread d j s = Some (entry_of (disk s) d j, t) \<and> linked [] s t"
proof -
  let ?b = "blk_of (disk s) d (j div 32)"
  from getblkno_law [OF assms(1), of d "j div 32"] obtain t where
    t: "getblkno d (j div 32) s = Some (?b, t)" "fk_ok t" "same_rest s t" "disk t = disk s" by blast
  from daread_law [OF t(2), of ?b] obtain u where
    u: "daread ?b t = Some (disk s ?b, u)" "fk_ok u" "same_rest t u" "disk u = disk s" by (auto simp: t(4))
  have "same_rest s u" using t(3) u(3) by (rule same_rest_trans)
  then show ?thesis using t u assms(2) linked_same by (simp add: dirread_def entry_of_def)
qed

lemma dirwrite_law:
  assumes "fk_ok s" "blk_of (disk s) d (j div 32) \<noteq> 0"
  shows "\<exists>t. dirwrite d j (entry_of (disk s) d j) s = Some t \<and> linked [] s t"
proof -
  let ?b = "blk_of (disk s) d (j div 32)" and ?k = "unat (j mod 32)"
  from getblkno_law [OF assms(1), of d "j div 32"] obtain t where
    t: "getblkno d (j div 32) s = Some (?b, t)" "fk_ok t" "same_rest s t" "disk t = disk s" by blast
  from daread_law [OF t(2), of ?b] obtain u where
    u: "daread ?b t = Some (disk s ?b, u)" "fk_ok u" "same_rest t u" "disk u = disk s" by (auto simp: t(4))
  have "?k < 32" by (simp add: unat_mod)
  then have e: "splice (16 * ?k) (direct_bytes (entry_of (disk s) d j)) (disk s ?b) = disk s ?b"
    unfolding entry_of_def by (rule rewrite_entry_same [OF disk_length [OF assms(1)]])
  from fsck_dwrite_law [OF u(2), of "disk s ?b" ?b] disk_length [OF assms(1)] obtain v where
    v: "fsck_dwrite ?b (disk s ?b) u = Some v" "fk_ok v" "same_rest u v" "disk v = (disk u)(?b := disk s ?b)" by auto
  have "same_rest s v" using t(3) u(3) v(3) by (blast intro: same_rest_trans)
  moreover have "disk v = disk s" using v(4) u(4) by simp
  ultimately show ?thesis using t(1) u(1) v(1,2) assms(2) e linked_same by (simp add: dirwrite_def)
qed

lemma fix_entry_none: "\<not> c \<Longrightarrow> fix_entry c d j new (e, s) = Some (False, e, s)"
  by (simp add: fix_entry_def)

lemma test_number_law:
  assumes "fk_ok s" "d_ino e \<noteq> 0 \<longrightarrow> ROOTINODE \<le> d_ino e \<and> d_ino e < 8 * s_isize (filsys s)"
    "d_ino e \<noteq> 0 \<longrightarrow> unat (d_ino e) < length (linkmap s) \<and> linkmap s ! unat (d_ino e) \<noteq> - 1"
  shows "\<exists>t. test_number d j e s = Some (if d_ino e = 0 then None else Some e, t) \<and> linked (if d_ino e = 0 then [] else [d_ino e]) s t"
  using assms linked_same [of s s]
  by (auto simp: test_number_def fix_entry_none not_less not_le get_link_def set_link_def linked_def same_rest_fsck)

lemma no_slash: "47 \<notin> set (c_str nm) \<Longrightarrow> c < length (c_str nm) \<Longrightarrow> nm ! c \<noteq> 47"
  unfolding c_str_def by (metis nth_mem takeWhile_nth)

lemma test_name_law:
  assumes "47 \<notin> set (c_str (d_name e))" "c_str (d_name e) = [46] \<longrightarrow> d_ino e = i" "c_str (d_name e) = [46, 46] \<longrightarrow> d_ino e = p"
  shows "test_name i p d j e s = Some (e, s)"
proof -
  have "foldM (fix_slash d j) cs (e, s) = Some (e, s)" if "\<forall>c \<in> set cs. c < length (c_str (d_name e))" for cs
    using that by (induction cs) (simp_all add: fix_slash_def fix_entry_none no_slash [OF assms(1)])
  then have "foldM (fix_slash d j) [0..<length (c_str (d_name e))] (e, s) = Some (e, s)" by simp
  moreover have "\<not> (c_str (d_name e) = [46] \<and> d_ino e \<noteq> i)" "\<not> (c_str (d_name e) = [46, 46] \<and> d_ino e \<noteq> p)"
    using assms(2,3) by auto
  ultimately show ?thesis
    by (simp only: test_name_def fix_ref_def fix_entry_none Let_def fst_conv split_conv bind.bind_lunit if_False not_False_eq_True)
qed

lemma test_entry_law:
  assumes s: "fk_ok s" "good_entry (disk s) (filsys s) i p d j"
  defines "e \<equiv> entry_of (disk s) d j"
  assumes l: "d_ino e \<noteq> 0 \<longrightarrow> unat (d_ino e) < length (linkmap s) \<and> linkmap s ! unat (d_ino e) \<noteq> - 1"
  shows "\<exists>t. test_entry i p d j s = Some (if d_ino e = 0 then None else Some e, t) \<and> linked (if d_ino e = 0 then [] else [d_ino e]) s t"
proof -
  have b: "blk_of (disk s) d (j div 32) \<noteq> 0" and e: "pad_name e = e"
    and g: "d_ino e \<noteq> 0 \<longrightarrow> ROOTINODE \<le> d_ino e \<and> d_ino e < 8 * s_isize (filsys s) \<and> 47 \<notin> set (c_str (d_name e)) \<and>
      (c_str (d_name e) = [46] \<longrightarrow> d_ino e = i) \<and> (c_str (d_name e) = [46, 46] \<longrightarrow> d_ino e = p)"
    using s(2) by (simp_all add: good_entry_def e_def Let_def)
  from dirread_law [OF s(1) b] obtain t where t: "dirread d j s = Some (e, t)" "linked [] s t" by (auto simp: e_def)
  note T = linkedD [OF t(2)]
  from dirwrite_law [OF T(1), of d j] b obtain u where u: "dirwrite d j e t = Some u" "linked [] t u" by (auto simp: T e_def)
  note U = linkedD [OF u(2)]
  from test_number_law [OF U(1), of e d j] g l obtain v where
    v: "test_number d j e u = Some (if d_ino e = 0 then None else Some e, v)" "linked (if d_ino e = 0 then [] else [d_ino e]) u v"
    by (auto simp: U T)
  have "linked (if d_ino e = 0 then [] else [d_ino e]) s v" using linked_trans [OF linked_trans [OF t(2) u(2)] v(2)] by simp
  moreover have "test_name i p d j e v = Some (e, v)" if "d_ino e \<noteq> 0" using test_name_law g that by blast
  ultimately show ?thesis using t(1) u(1) v(1) e by (auto simp: test_entry_def)
qed

subsection \<open>The descent\<close>

lemma foldM_linked:
  assumes "\<forall>x \<in> set xs. \<forall>t a. linked a s t \<and> can_count (L x) (linkmap t) \<longrightarrow> (\<exists>u. f x t = Some u \<and> linked (L x) t u)"
    "can_count (concat (map L xs)) (linkmap t)" "linked a s t"
  shows "\<exists>u. foldM f xs t = Some u \<and> linked (concat (map L xs)) t u"
  using assms
proof (induction xs arbitrary: t a)
  case Nil
  then have "fk_ok t" by (simp add: linked_def)
  then show ?case using linked_same by simp
next
  case (Cons x xs)
  have c: "can_count (L x) (linkmap t)" "can_count (concat (map L xs)) (bump (L x) (linkmap t))"
    using can_count_append [of "L x" "concat (map L xs)"] Cons.prems(2) by simp_all
  from Cons.prems(1) [rule_format, OF list.set_intros(1)] Cons.prems(3) c(1) obtain u where
    u: "f x t = Some u" "linked (L x) t u" by blast
  have "\<forall>y \<in> set xs. \<forall>t a. linked a s t \<and> can_count (L y) (linkmap t) \<longrightarrow> (\<exists>u. f y t = Some u \<and> linked (L y) t u)"
    using Cons.prems(1) by simp
  from Cons.IH [OF this _ linked_trans [OF Cons.prems(3) u(2)]] c(2) obtain v where
    v: "foldM f xs u = Some v" "linked (concat (map L xs)) u v" by (auto simp: linkedD(5) [OF u(2)])
  then show ?case using u(1) linked_trans [OF u(2) v(2)] by simp
qed

lemma ckdir_law:
  assumes "fk_ok s" "r < MAXDEPTH" "unat (depth s) = MAXDEPTH - Suc r" "good_tree (Suc r) (disk s) (filsys s) i p nm"
    "can_count (refs (Suc r) (disk s) i p) (linkmap s)"
  shows "\<exists>t. ckdir (Suc r) i p nm s = Some t \<and> linked (refs (Suc r) (disk s) i p) s t"
  using assms
proof (induction r arbitrary: i p nm s rule: less_induct)
  case (less r)
  let ?V = "disk s" and ?d = "disk_inode (disk s) i"
  from iread_law [OF less.prems(1), of i] obtain t where
    t: "iread i s = Some (?d, t)" "fk_ok t" "same_rest s t" "disk t = ?V" by (auto simp: disk_inode_def)
  show ?case
  proof (cases "i_mode ?d AND F_MASK = F_DIR")
    case False
    then show ?thesis using t linked_same by (simp add: Let_def)
  next
    case True
    define t1 where "t1 = t\<lparr>depth := depth t + 1\<rparr>"
    have T1: "fk_ok t1" "disk t1 = ?V" "filsys t1 = filsys s" "linkmap t1 = linkmap s" "depth t1 = depth s + 1"
      using t by (simp_all add: t1_def same_rest_fsck)
    have dp: "unat (depth t1) = MAXDEPTH - r" using less.prems(2,3) unat_plus1_u16 [of "depth s"] by (simp add: T1 MAXDEPTH_def)
    have G: "sint (o_offset (i_size ?d)) smod 16 = 0" "\<forall>j \<in> set (places ?d). good_entry ?V (filsys s) i p ?d j"
        "\<forall>j \<in> set (places ?d). let e = entry_of ?V ?d j in d_ino e \<noteq> 0 \<and> goes_down r i p e \<longrightarrow>
           (case sub_name nm e of None \<Rightarrow> False | Some nm' \<Rightarrow> good_tree r ?V (filsys s) (d_ino e) i nm')"
      using less.prems(4) True by (simp_all add: Let_def)
    have len: "fix_length i ?d t1 = Some (?d, t1)" using G(1) by (simp add: fix_length_def fix_ino_def)
    define L where "L = (\<lambda>j. let e = entry_of ?V ?d j in if d_ino e = 0 then [] else d_ino e # (if goes_down r i p e then refs r ?V (d_ino e) i else []))"
    have R: "refs (Suc r) ?V i p = concat (map L (places ?d))" using True by (simp add: L_def Let_def)
    have step: "\<exists>u. ck_entry (ckdir r) i p nm ?d j w = Some u \<and> linked (L j) w u"
      if j: "j \<in> set (places ?d)" and w: "linked a t1 w" and c: "can_count (L j) (linkmap w)" for j a w
    proof -
      let ?e = "entry_of ?V ?d j"
      note W = linkedD [OF w]
      have "d_ino ?e \<noteq> 0 \<longrightarrow> unat (d_ino ?e) < length (linkmap w) \<and> linkmap w ! unat (d_ino ?e) \<noteq> - 1"
        using can_count_hd [of "d_ino ?e" _ "linkmap w"] c by (auto simp: L_def Let_def)
      moreover have WV: "disk w = ?V" "filsys w = filsys s" by (simp_all add: W T1)
      ultimately obtain u where
        u: "test_entry i p ?d j w = Some (if d_ino ?e = 0 then None else Some ?e, u)" "linked (if d_ino ?e = 0 then [] else [d_ino ?e]) w u"
        using test_entry_law [OF W(1), of i p ?d j, unfolded WV] G(2) j by blast
      note U = linkedD [OF u(2)]
      have dep: "sint (depth u) < int MAXDEPTH \<longleftrightarrow> 0 < r"
      proof -
        have "sint (depth u) = int (unat (depth u))" "unat (depth u) = MAXDEPTH - r"
          using dp sint_small [of "depth u"] by (simp_all add: U W MAXDEPTH_def)
        then show ?thesis using less.prems(2) by (simp add: MAXDEPTH_def)
      qed
      show ?thesis
      proof (cases "d_ino ?e \<noteq> 0 \<and> goes_down r i p ?e")
        case False
        then show ?thesis using u dep by (auto simp: ck_entry_def L_def goes_down_def)
      next
        case down: True
        then obtain q where q: "r = Suc q" by (auto simp: goes_down_def gr0_conv_Suc)
        obtain nm' where nm': "sub_name nm ?e = Some nm'" "good_tree r ?V (filsys s) (d_ino ?e) i nm'"
          using G(3) j down by (auto simp: Let_def split: option.splits)
        have Lj: "L j = [d_ino ?e] @ refs r ?V (d_ino ?e) i" using down by (simp add: L_def Let_def)
        have "can_count (refs r ?V (d_ino ?e) i) (linkmap u)"
          using can_count_append(2) [OF c [unfolded Lj]] down by (simp add: U)
        moreover have "unat (depth u) = MAXDEPTH - r" using dp by (simp add: U W)
        ultimately obtain v where v: "ckdir r (d_ino ?e) i nm' u = Some v" "linked (refs r ?V (d_ino ?e) i) u v"
          using less.IH [of q u "d_ino ?e" i nm'] less.prems(2) nm'(2) q by (auto simp: U W T1 simp del: refs.simps ckdir.simps good_tree.simps)
        then have "ck_entry (ckdir r) i p nm ?d j w = Some v"
          using u(1) dep down nm'(1) by (auto simp: ck_entry_def goes_down_def)
        moreover have "linked (L j) w v" using linked_trans [OF u(2) v(2)] down by (simp add: Lj)
        ultimately show ?thesis by blast
      qed
    qed
    have "can_count (concat (map L (places ?d))) (linkmap t1)" using less.prems(5) by (simp only: R T1)
    moreover have "linked [] t1 t1" using linked_same T1(1) by simp
    ultimately obtain u where u: "foldM (ck_entry (ckdir r) i p nm ?d) (places ?d) t1 = Some u" "linked (concat (map L (places ?d))) t1 u"
      using foldM_linked [of "places ?d" t1 L "ck_entry (ckdir r) i p nm ?d" t1 "[]"] step by blast
    have "ckdir (Suc r) i p nm s = Some (u\<lparr>depth := depth u - 1\<rparr>)"
      using t(1) True len u(1) by (simp add: t1_def places_def)
    moreover have "linked (refs (Suc r) ?V i p) s (u\<lparr>depth := depth u - 1\<rparr>)"
      using u(2) t(3) T1 unfolding R by (auto simp: linked_def same_rest_fsck t1_def)
    ultimately show ?thesis by blast
  qed
qed

end
