(* ===== verification/FsckWhole.thy ===== *)
theory FsckWhole
  imports FsckLinks
begin

section \<open>The checker leaves a consistent file system as it is\<close>

text \<open>
  The five passes one after the other on a file system that is consistent: superblock and inodes in order, no block used twice,
  a directory tree in order, and link counts that agree with the references in it.
\<close>

subsection \<open>Consistency\<close>

abbreviation all_refs :: "(u16 \<Rightarrow> block) \<Rightarrow> u16 list" where
  "all_refs V \<equiv> refs MAXDEPTH V ROOTINODE ROOTINODE"

definition links_of :: "(u16 \<Rightarrow> block) \<Rightarrow> u16 \<Rightarrow> nat" where
  "links_of V n = count_list (all_refs V) n + (if n = ROOTINODE then 1 else 0)"

definition consistent :: "fsck \<Rightarrow> bool" where
  "consistent s \<longleftrightarrow> sane s \<and> distinct (all_blocks (disk s) (inodes s)) \<and> good_tree MAXDEPTH (disk s) (filsys s) ROOTINODE ROOTINODE [47] \<and>
     ROOTINODE \<in> set (inodes s) \<and> i_mode (disk_inode (disk s) ROOTINODE) \<noteq> 0 \<and>
     (\<forall>c \<in> set (all_refs (disk s)). c \<in> set (inodes s) \<and> i_mode (disk_inode (disk s) c) \<noteq> 0) \<and>
     (\<forall>n \<in> set (inodes s). i_mode (disk_inode (disk s) n) \<noteq> 0 \<longrightarrow>
        0 < links_of (disk s) n \<and> links_of (disk s) n < 65535 \<and> i_nlink (disk_inode (disk s) n) = of_nat (links_of (disk s) n))"

subsection \<open>What the consistency depends on\<close>

definition agree :: "u16 list \<Rightarrow> (u16 \<Rightarrow> block) \<Rightarrow> (u16 \<Rightarrow> block) \<Rightarrow> bool" where
  "agree ns V W \<longleftrightarrow> W 0 = V 0 \<and> (\<forall>n \<in> set ns. W (ino_blk n) = V (ino_blk n)) \<and> (\<forall>a \<in> all_used V ns. W a = V a)"

lemma agree_blk:
  assumes "agree ns V W" "n \<in> set ns" "has_blocks (disk_inode V n)"
  shows "blk_of W (disk_inode V n) i = blk_of V (disk_inode V n) i"
proof -
  let ?d = "disk_inode V n"
  have U: "W a = V a" if "a = 0 \<or> a \<in> used V ?d" for a using assms(1,2) that by (auto simp: agree_def all_used_def)
  have "W (i_addr ?d ! 18) = V (i_addr ?d ! 18)" "W (i_addr ?d ! 19) = V (i_addr ?d ! 19)"
    using assms(3) U [of "i_addr ?d ! 18"] U [of "i_addr ?d ! 19"] by (auto simp: used_def)
  moreover have "W (get16 (V (i_addr ?d ! 19)) k) = V (get16 (V (i_addr ?d ! 19)) k)" if "i_addr ?d ! 19 \<noteq> 0" "k < 256" for k
    using assms(3) that U [of "get16 (V (i_addr ?d ! 19)) k"] by (auto simp: used_def dind_of_def)
  moreover have "unat (drop_bit 8 (i - 274)) < 256" using unat_u16_less [of "i - 274"] by (simp add: unat_drop8 less_mult_imp_div_less)
  ultimately show ?thesis by (simp add: blk_of_def)
qed

lemma agree_inode: "agree ns V W \<Longrightarrow> n \<in> set ns \<Longrightarrow> disk_inode W n = disk_inode V n"
  by (simp add: agree_def disk_inode_def)

lemma agree_lists:
  assumes "agree ns V W"
  shows "all_blocks W ns = all_blocks V ns"
proof -
  have "inode_list W n = inode_list V n" if "n \<in> set ns" for n
    using that agree_inode [OF assms] agree_blk [OF assms that] by (simp add: inode_list_def file_list_def Let_def)
  then show ?thesis by (simp add: all_blocks_def cong: map_cong)
qed

lemma agree_fine:
  assumes "agree ns V W" "n \<in> set ns" "fine V f (disk_inode V n)"
  shows "fine W f (disk_inode W n)"
proof (cases "has_blocks (disk_inode V n)")
  case True
  let ?d = "disk_inode V n"
  have "W (i_addr ?d ! 19) = V (i_addr ?d ! 19)" if "i_addr ?d ! 19 \<noteq> 0"
    using assms(1,2) True that by (auto simp: agree_def all_used_def used_def)
  then have "dind_of W ?d = dind_of V ?d" by (simp add: dind_of_def)
  moreover have "file_of W ?d = file_of V ?d" using agree_blk [OF assms(1,2) True] by (simp add: file_of_def)
  ultimately have "used W ?d = used V ?d" by (simp add: used_def)
  then show ?thesis using assms(3) by (simp add: agree_inode [OF assms(1,2)] fine_def)
next
  case False
  then show ?thesis using assms(3) by (simp add: agree_inode [OF assms(1,2)] fine_def)
qed

lemma place_in_file:
  assumes "j \<in> set (places d)" "0 \<le> sint (o_offset (i_size d))" "sint (o_offset (i_size d)) < 512"
  shows "unat (j div 32) \<le> unat (o_blkno (i_size d))"
proof -
  let ?n = "unat (o_blkno (i_size d))" and ?o = "nat (sint (o_offset (i_size d)) div 16)"
  have "a sdiv 16 = a div 16" if "0 \<le> a" for a :: int using that by (cases "a = 0") (simp_all add: signed_divide_int_def)
  then have o: "?o < 32" "sint (o_offset (i_size d)) sdiv 16 = int ?o" using assms(2,3) by simp_all
  have e: "unat (entries d) = (32 * ?n + ?o) mod 65536"
    unfolding entries_def o(2) of_int_of_nat_eq by (simp add: unat_word_ariths unsigned_of_nat take_bit_eq_mod mod_simps del: int_nat_eq)
  obtain i where i: "j = of_nat i" "i < unat (entries d)" using assms(1) by (auto simp: places_def)
  then have ji: "unat j = i" using unat_of_below by simp
  have "unat (entries d) \<le> 32 * ?n + ?o" using e by (metis mod_less_eq_dividend)
  then have "i < 32 * ?n + 32" using i(2) o(1) by linarith
  then have "i < Suc ?n * 32" by simp
  then have "i div 32 < Suc ?n" by (rule less_mult_imp_div_less)
  then have "i div 32 \<le> ?n" by simp
  then show ?thesis using ji by (simp add: unat_div)
qed

lemma agree_entry:
  assumes a: "agree ns V W" "n \<in> set ns" and d: "fine V f (disk_inode V n)" "i_mode (disk_inode V n) AND F_MASK = F_DIR"
    and j: "j \<in> set (places (disk_inode V n))"
  shows "entry_of W (disk_inode V n) j = entry_of V (disk_inode V n) j"
proof -
  let ?d = "disk_inode V n"
  have h: "has_blocks ?d" "i_mode ?d \<noteq> 0" using d(2) by (auto simp: has_blocks_def F_DIR_def)
  then have "unat (j div 32) \<le> unat (o_blkno (i_size ?d))" using d(1) j by (intro place_in_file) (auto simp: fine_def)
  then have "blk_of V ?d (j div 32) \<in> file_of V ?d" 
    using image_eqI [of _ "\<lambda>i. blk_of V ?d (of_nat i)" "unat (j div 32)"] by (simp add: file_of_def)
  then have "blk_of V ?d (j div 32) = 0 \<or> blk_of V ?d (j div 32) \<in> all_used V ns" using a(2) h(1) by (auto simp: all_used_def used_def)
  then show ?thesis using a agree_blk [OF a h(1)] by (auto simp: entry_of_def agree_def)
qed

lemma agree_tree:
  assumes a: "agree ns V W" and f: "\<forall>n \<in> set ns. fine V f (disk_inode V n)"
  shows "i \<in> set ns \<Longrightarrow> set (refs r V i p) \<subseteq> set ns \<Longrightarrow> refs r W i p = refs r V i p \<and> good_tree r W f i p nm = good_tree r V f i p nm"
proof (induction r arbitrary: i p nm)
  case (Suc r)
  let ?d = "disk_inode V i"
  have d: "disk_inode W i = ?d" by (rule agree_inode [OF a Suc.prems(1)])
  show ?case
  proof (cases "i_mode ?d AND F_MASK = F_DIR")
    case True
    have h: "has_blocks ?d" using True by (simp add: has_blocks_def)
    have e: "entry_of W ?d j = entry_of V ?d j" if "j \<in> set (places ?d)" for j
      using agree_entry [OF a Suc.prems(1) _ True that] f Suc.prems(1) by blast
    have sub: "d_ino (entry_of V ?d j) \<in> set ns" "set (refs r V (d_ino (entry_of V ?d j)) i) \<subseteq> set ns"
      if "j \<in> set (places ?d)" "d_ino (entry_of V ?d j) \<noteq> 0" "goes_down r i p (entry_of V ?d j)" for j
      using Suc.prems(2) True that by (auto simp: Let_def)
    have g: "good_entry W f i p ?d j = good_entry V f i p ?d j" if "j \<in> set (places ?d)" for j
      using e [OF that] agree_blk [OF a Suc.prems(1) h] by (simp add: good_entry_def)
    have "refs r W (d_ino (entry_of V ?d j)) i = refs r V (d_ino (entry_of V ?d j)) i"
        "good_tree r W f (d_ino (entry_of V ?d j)) i nm' = good_tree r V f (d_ino (entry_of V ?d j)) i nm'"
      if "j \<in> set (places ?d)" "d_ino (entry_of V ?d j) \<noteq> 0" "goes_down r i p (entry_of V ?d j)" for j nm'
      using Suc.IH [OF sub(1) [OF that] sub(2) [OF that]] by simp_all
    then show ?thesis using e g True by (auto simp: d Let_def split: option.split intro!: arg_cong [of _ _ concat] map_cong)
  qed (simp add: d Let_def)
qed simp

subsection \<open>Passes 4 and 5\<close>

lemma pass4_law:
  assumes s: "fk_ok s" "unat ROOTINODE < length (linkmap s)" "good_tree MAXDEPTH (disk s) (filsys s) ROOTINODE ROOTINODE [47]"
    and c: "can_count (all_refs (disk s)) ((linkmap s)[unat ROOTINODE := 1])"
  shows "\<exists>t. pass4 MAXDEPTH s = Some t \<and> fk_ok t \<and> disk t = disk s \<and> fdev t = fdev s \<and> filsys t = filsys s \<and>
    linkmap t = bump (all_refs (disk s)) ((linkmap s)[unat ROOTINODE := 1])"
proof -
  define u where "u = s\<lparr>depth := 0, linkmap := (linkmap s)[unat ROOTINODE := 1]\<rparr>"
  have U: "fk_ok u" "disk u = disk s" "filsys u = filsys s" "depth u = 0" "linkmap u = (linkmap s)[unat ROOTINODE := 1]" "fdev u = fdev s"
    using s(1) by (simp_all add: u_def)
  have M: "MAXDEPTH = Suc 19" by (simp add: MAXDEPTH_def)
  from ckdir_law [OF U(1), of 19 ROOTINODE ROOTINODE "[47]"] s(3) c obtain t where
    t: "ckdir MAXDEPTH ROOTINODE ROOTINODE [47] u = Some t" "linked (all_refs (disk s)) u t" unfolding U M by auto
  have "set_link ROOTINODE 1 (s\<lparr>depth := 0\<rparr>) = Some u" using s(2) by (simp add: set_link_def u_def)
  then have "pass4 MAXDEPTH s = Some t" using t(1) linkedD(4) [OF t(2)] by (simp add: pass4_def U)
  then show ?thesis using t(2) U by (simp add: linked_def same_rest_fsck)
qed

lemma pass5_law:
  assumes "fk_ok s" "\<forall>n \<in> set ns. unat n < length (linkmap s) \<and>
      (if i_mode (disk_inode (disk s) n) = 0 then linkmap s ! unat n = - 1
       else linkmap s ! unat n \<noteq> - 1 \<and> linkmap s ! unat n \<noteq> 0 \<and> i_nlink (disk_inode (disk s) n) = linkmap s ! unat n)"
  shows "\<exists>t. foldM ck_links ns s = Some t \<and> fk_ok t \<and> same_rest s t \<and> disk t = disk s"
  using assms
proof (induction ns arbitrary: s)
  case (Cons n ns)
  from iread_law [OF Cons.prems(1), of n] obtain t where
    t: "iread n s = Some (disk_inode (disk s) n, t)" "fk_ok t" "same_rest s t" "disk t = disk s" by (auto simp: disk_inode_def)
  have l: "get_link n t = Some (linkmap s ! unat n)" using t(3) Cons.prems(2) by (simp add: get_link_def same_rest_fsck)
  have "ck_links n s = Some t" using t(1) l Cons.prems(2) by (auto simp: ck_links_def fix_ino_def split: if_splits)
  moreover have "\<exists>u. foldM ck_links ns t = Some u \<and> fk_ok u \<and> same_rest t u \<and> disk u = disk t"
    using Cons.prems(2) t(3) by (intro Cons.IH [OF t(2)]) (simp add: t(4) same_rest_fsck)
  ultimately show ?case using t(3,4) by (auto intro: same_rest_trans)
qed simp

subsection \<open>All passes\<close>

lemma start_links_nth:
  "unat n < length l \<Longrightarrow> start_links V ns l ! unat n = (if n \<in> set ns then link0 V n else l ! unat n)"
proof (induction ns arbitrary: l)
  case (Cons m ns)
  have "unat m = unat n \<longleftrightarrow> m = n" by (auto dest: unsigned_word_eqI)
  then show ?case using Cons.IH [of "l[unat m := link0 V m]"] Cons.prems by (auto simp: start_links_def nth_list_update)
qed (simp add: start_links_def)

lemma length_start_links: "length (start_links V ns l) = length l"
  by (induction ns arbitrary: l) (simp_all add: start_links_def)

lemma final_links:
  fixes V :: "u16 \<Rightarrow> block"
  assumes ns: "\<forall>n \<in> set ns. unat n < N" "ROOTINODE \<in> set ns" "i_mode (disk_inode V ROOTINODE) \<noteq> 0"
    and r: "\<forall>c \<in> set (all_refs V). c \<in> set ns \<and> i_mode (disk_inode V c) \<noteq> 0"
    and u: "\<forall>n \<in> set ns. i_mode (disk_inode V n) \<noteq> 0 \<longrightarrow> 0 < links_of V n \<and> links_of V n < 65535"
  defines "l \<equiv> (start_links V ns (replicate N 0))[unat ROOTINODE := 1]"
  shows "can_count (all_refs V) l"
    and "n \<in> set ns \<Longrightarrow> bump (all_refs V) l ! unat n = (if i_mode (disk_inode V n) = 0 then - 1 else of_nat (links_of V n))"
proof -
  have len: "length l = N" by (simp add: l_def length_start_links)
  have eq: "unat ROOTINODE = unat n \<longleftrightarrow> ROOTINODE = n" for n by (auto dest: unsigned_word_eqI)
  have nth: "l ! unat n = (if n = ROOTINODE then 1 else link0 V n)" if "n \<in> set ns" for n
    using that ns(1,2) by (auto simp: l_def nth_list_update start_links_nth length_start_links eq)
  show "can_count (all_refs V) l" unfolding can_count_def len
  proof
    fix c assume c: "c \<in> set (all_refs V)"
    then have "c \<in> set ns" "i_mode (disk_inode V c) \<noteq> 0" using r by auto
    then show "unat c < N \<and> unat (l ! unat c) + count_list (all_refs V) c < 65535"
      using nth [of c] ns(1) u by (auto simp: links_of_def link0_def add.commute)
  qed
  assume n: "n \<in> set ns"
  have "count_list (all_refs V) n = 0" if "i_mode (disk_inode V n) = 0" using r that by (auto simp: count_list_0_iff)
  then show "bump (all_refs V) l ! unat n = (if i_mode (disk_inode V n) = 0 then - 1 else of_nat (links_of V n))"
    using n ns(1,3) nth [OF n] nth_bump [of n l "all_refs V"] len by (auto simp: link0_def links_of_def)
qed

lemma unused_avoid:
  assumes "sane s"
  shows "\<forall>a. a \<in> set (unused_blocks s) \<longrightarrow> a \<notin> all_used (disk s) (inodes s) \<and> s_isize (filsys s) \<le> a \<and> a \<noteq> 0"
    "1 \<notin> all_used (disk s) (inodes s)"
proof -
  have i: "2 \<le> unat (s_isize (filsys s))" using assms by (simp add: sane_def sane_super_def)
  then have B: "y \<in> set (map of_nat [unat (s_isize (filsys s))..<unat (s_fsize (filsys s))]) \<longleftrightarrow>
      y \<noteq> 0 \<and> unat (s_isize (filsys s)) \<le> unat y \<and> y < s_fsize (filsys s)" for y :: u16 by (intro blocks_from(2)) simp
  show "\<forall>a. a \<in> set (unused_blocks s) \<longrightarrow> a \<notin> all_used (disk s) (inodes s) \<and> s_isize (filsys s) \<le> a \<and> a \<noteq> 0"
    unfolding unused_blocks_def set_filter using B by (simp add: word_le_nat_alt)
  show "1 \<notin> all_used (disk s) (inodes s)"
  proof
    assume "1 \<in> all_used (disk s) (inodes s)"
    then obtain n where n: "n \<in> set (inodes s)" "1 \<in> used (disk s) (disk_inode (disk s) n)" by (auto simp: all_used_def)
    then have "fine (disk s) (filsys s) (disk_inode (disk s) n)" "has_blocks (disk_inode (disk s) n)"
      using assms by (auto simp: sane_def used_def split: if_splits)
    then have "\<not> bad_blk (filsys s) 1" using n(2) by (auto simp: fine_def has_blocks_def F_REG_def F_DIR_def)
    moreover have "s_isize (filsys s) > 1" using i by (simp add: word_less_nat_alt)
    ultimately show False by (simp add: bad_blk_def)
  qed
qed

lemma agree_after:
  assumes "sane s" "\<forall>a. a \<noteq> 1 \<and> a \<notin> set (unused_blocks s) \<longrightarrow> W a = disk s a"
  shows "agree (inodes s) (disk s) W"
proof -
  have f: "sane_super (filsys s)" using assms(1) by (simp add: sane_def)
  note U = unused_avoid [OF assms(1)]
  have "ino_blk n \<noteq> 1" "ino_blk n \<notin> set (unused_blocks s)" if "n \<in> set (inodes s)" for n
  proof -
    note b = inodes_bound(2,3) [OF that f]
    show "ino_blk n \<noteq> 1" using b(1) by (auto simp: word_le_nat_alt)
    show "ino_blk n \<notin> set (unused_blocks s)" using b(2) U(1) by (meson not_le)
  qed
  moreover have "0 \<notin> set (unused_blocks s)" using U(1) by blast
  ultimately show ?thesis using assms(2) U unfolding agree_def by (metis zero_neq_one)
qed

subsection \<open>The program\<close>

lemma fine_cong: "s_isize g = s_isize f \<Longrightarrow> s_fsize g = s_fsize f \<Longrightarrow> fine V g = fine V f"
  by (simp add: fun_eq_iff fine_def bad_blk_def)

lemma good_tree_cong: "s_isize g = s_isize f \<Longrightarrow> good_tree r V g i p nm = good_tree r V f i p nm"
  by (induction r arbitrary: i p nm) (simp_all add: good_entry_def Let_def cong: option.case_cong)

lemma consistent_cong:
  assumes "fk_ok t = fk_ok s" "disk t = disk s" "filsys t = filsys s" "behind t = behind s"
  shows "consistent t = consistent s" "unused_blocks t = unused_blocks s" "free_inodes t = free_inodes s"
proof -
  have "inodes t = inodes s" using assms(3) by (simp add: inodes_def)
  then show "consistent t = consistent s" "unused_blocks t = unused_blocks s" "free_inodes t = free_inodes s"
    using assms by (simp_all add: consistent_def sane_def unused_blocks_def free_inodes_def)
qed

text \<open>The five passes.\<close>

lemma all_passes:
  assumes c: "consistent s" and y: "fst (yes s)" "fst (yes (snd (yes s)))"
  shows "\<exists>t f. do { s \<leftarrow> pass1 (make_maps s); s \<leftarrow> pass2 s; s \<leftarrow> pass3 s; s \<leftarrow> pass4 MAXDEPTH s; pass5 s } = Some t \<and> fk_ok t \<and> fdev t = fdev s \<and>
    s_isize f = s_isize (filsys s) \<and> s_fsize f = s_fsize (filsys s) \<and> s_tinode f = free_inodes s \<and> super_ok f (unused_blocks s) \<and>
    free_stack (disk t) (table f) (unused_blocks s) \<and> bytes_fs (disk t 1) = f \<and> (\<forall>a. a \<noteq> 1 \<and> a \<notin> set (unused_blocks s) \<longrightarrow> disk t a = disk s a)"
proof -
  let ?V = "disk s" and ?ns = "inodes s" and ?f = "filsys s"
  note C = c [unfolded consistent_def]
  have sane: "sane s" and fine: "\<forall>n \<in> set ?ns. fine ?V ?f (disk_inode ?V n)" and f: "sane_super ?f" using C by (simp_all add: sane_def)
  from free_passes [OF sane y] obtain u v where
    v: "pass1 (make_maps s) = Some u" "pass2 u = Some v" "fk_ok v" "fdev v = fdev s" "length (bitmap v) = unat (s_fsize ?f)"
      "linkmap v = start_links ?V ?ns (replicate (unat (8 * s_isize ?f)) 0)"
      "s_isize (filsys v) = s_isize ?f" "s_fsize (filsys v) = s_fsize ?f" "s_tinode (filsys v) = free_inodes s"
      "super_ok (filsys v) (unused_blocks s)" "free_stack (disk v) (table (filsys v)) (unused_blocks s)" "bytes_fs (disk v 1) = filsys v"
      "\<forall>a. a \<noteq> 1 \<and> a \<notin> set (unused_blocks s) \<longrightarrow> disk v a = ?V a" by blast
  note A = agree_after [OF sane v(13)]
  have ns: "inodes v = ?ns" by (simp add: inodes_def v(7))
  have fv: "\<forall>n \<in> set (inodes v). fine (disk v) (filsys v) (disk_inode (disk v) n)"
    using agree_fine [OF A] fine fine_cong [OF v(7,8)] by (simp add: ns)
  have rv: "ready_map v" "1 \<le> unat (s_isize (filsys v))" using v(3,5,7,8) f by (simp_all add: ready_map_def sane_super_def)
  have "distinct (all_blocks (disk v) (inodes v))" using C agree_lists [OF A] by (simp add: ns)
  from pass3_law [OF rv this fv] obtain w where
    w: "pass3 v = Some w" "fk_ok w" "disk w = disk v" "fdev w = fdev v" "filsys w = filsys v" "linkmap w = linkmap v" by blast
  have root: "ROOTINODE \<in> set ?ns" "set (all_refs ?V) \<subseteq> set ?ns" using C by auto
  have T: "all_refs (disk v) = all_refs ?V" "good_tree MAXDEPTH (disk v) (filsys v) ROOTINODE ROOTINODE [47]"
    using agree_tree [OF A fine root, of "[47]"] good_tree_cong [OF v(7)] C by simp_all
  have N: "\<forall>n \<in> set ?ns. unat n < unat (8 * s_isize ?f)" using inodes_bound(1) f by blast
  have L: "0 < links_of ?V n \<and> links_of ?V n < 65535 \<and> i_nlink (disk_inode ?V n) = of_nat (links_of ?V n)"
    if "n \<in> set ?ns" "i_mode (disk_inode ?V n) \<noteq> 0" for n using C that by blast
  have FL: "can_count (all_refs ?V) ((linkmap w)[unat ROOTINODE := 1])"
      "\<And>n. n \<in> set ?ns \<Longrightarrow> bump (all_refs ?V) ((linkmap w)[unat ROOTINODE := 1]) ! unat n =
        (if i_mode (disk_inode ?V n) = 0 then - 1 else of_nat (links_of ?V n))"
    using final_links [OF N root(1), where V = "disk s"] C L unfolding w(6) v(6) by blast+
  have "unat ROOTINODE < length (linkmap w)" using N root(1) by (simp add: w(6) v(6) length_start_links)
  with pass4_law [OF w(2)] T FL(1) w(3,5) obtain x where
    x: "pass4 MAXDEPTH w = Some x" "fk_ok x" "disk x = disk v" "fdev x = fdev v" "filsys x = filsys v"
      "linkmap x = bump (all_refs ?V) ((linkmap w)[unat ROOTINODE := 1])" by (auto simp: w(3-5))
  have "\<forall>n \<in> set ?ns. unat n < length (linkmap x) \<and>
      (if i_mode (disk_inode (disk x) n) = 0 then linkmap x ! unat n = - 1
       else linkmap x ! unat n \<noteq> - 1 \<and> linkmap x ! unat n \<noteq> 0 \<and> i_nlink (disk_inode (disk x) n) = linkmap x ! unat n)"
  proof
    fix n assume n: "n \<in> set ?ns"
    have "unat n < length (linkmap x)" using N n by (simp add: x(6) w(6) v(6) length_start_links)
    moreover have "disk_inode (disk x) n = disk_inode ?V n" using agree_inode [OF A n] by (simp add: x(3))
    moreover have "of_nat (links_of ?V n) \<noteq> (- 1 :: u16)" "of_nat (links_of ?V n) \<noteq> (0 :: u16)" if "i_mode (disk_inode ?V n) \<noteq> 0"
    proof -
      have "unat (of_nat (links_of ?V n) :: u16) = links_of ?V n" using L [OF n that] by (simp add: unsigned_of_nat take_bit_nat_eq_self)
      then show "of_nat (links_of ?V n) \<noteq> (- 1 :: u16)" "of_nat (links_of ?V n) \<noteq> (0 :: u16)" using L [OF n that] unat_m1 by (auto simp del: of_nat_eq_0_iff)
    qed
    ultimately show "unat n < length (linkmap x) \<and>
      (if i_mode (disk_inode (disk x) n) = 0 then linkmap x ! unat n = - 1
       else linkmap x ! unat n \<noteq> - 1 \<and> linkmap x ! unat n \<noteq> 0 \<and> i_nlink (disk_inode (disk x) n) = linkmap x ! unat n)"
      using FL(2) [OF n] L [OF n] by (simp add: x(6))
  qed
  from pass5_law [OF x(2) this] obtain t where
    t: "foldM ck_links ?ns x = Some t" "fk_ok t" "same_rest x t" "disk t = disk x" by blast
  have "inodes x = ?ns" by (simp add: inodes_def x(5) v(7))
  then have run: "do { s \<leftarrow> pass1 (make_maps s); s \<leftarrow> pass2 s; s \<leftarrow> pass3 s; s \<leftarrow> pass4 MAXDEPTH s; pass5 s } = Some t"
    using v(1,2) w(1) x(1) t(1) by (simp add: pass5_def)
  have D: "fdev t = fdev s" "disk t = disk v" using t(3,4) x(3,4) v(4) by (simp_all add: same_rest_fsck)
  show ?thesis
    by (rule exI [of _ t], rule exI [of _ "filsys v"]) (use run t(2) v(7-13) in \<open>simp add: D\<close>)
qed

primrec says_yes :: "nat \<Rightarrow> fsck \<Rightarrow> bool" where
  "says_yes 0 s = True"
| "says_yes (Suc k) s = (fst (yes s) \<and> says_yes k (snd (yes s)))"


text \<open>The device of six blocks that \<^verbatim>\<open>mkfs\<close> would make.\<close>

definition fsck1 :: fsck where
  "fsck1 = fsck0\<lparr>answers := [121, 10, 121, 10, 121, 10],
     hd := hd0\<lparr>medium := (\<lambda>a. if a = disk_addr 0 1 then take 512 (fs_bytes (new_super 3 6) @ replicate 296 0)
       else if a = disk_addr 0 2 then first_inodes 3 else if a = disk_addr 0 3 then dirbuf else blank)\<rparr>\<rparr>"

lemma fsck1_disk:
  "fk_ok fsck1" "disk fsck1 1 = take 512 (fs_bytes (new_super 3 6) @ replicate 296 0)" "disk fsck1 2 = first_inodes 3" "disk fsck1 3 = dirbuf"
proof -
  have sh: "length (fs_bytes (new_super 3 6)) = 222" by (rule length_fs_bytes) (simp add: new_super_def fs_shape_def)
  have "hd_ok (hd fsck1)"
    by (simp add: fsck1_def fsck0_def hd_ok_def hd0_def slot_ok_def blank_def sh length_first_inodes dirbuf_entries(1))
  then show "fk_ok fsck1"
    by (auto simp: fk_ok_def fsck1_def fsck0_def quiet_def pool_ok_def bst0_def busyset_def distinct_names_def bufp_def buf_inv_def blank_def disk_dev_def)
  have "bfind 0 a fsck1 = None" for a by (simp add: bfind_None named_def) (auto simp: fsck1_def fsck0_def bst0_def bufp_def)
  then show "disk fsck1 1 = take 512 (fs_bytes (new_super 3 6) @ replicate 296 0)" "disk fsck1 2 = first_inodes 3" "disk fsck1 3 = dirbuf"
    by (simp_all add: disk_def bview_def hd_blk_def hview_def slot_matches_def fsck1_def fsck0_def hd0_def disk_addr_def hash_def dev_minor_def dev_tab_def)
qed

lemma small_tree:
  assumes "filsys s = new_super 3 6" "disk s 2 = first_inodes 3" "disk s 3 = dirbuf"
  shows "refs (Suc r) (disk s) 1 1 = [1, 1]" "good_tree (Suc r) (disk s) (filsys s) 1 1 [47]"
proof -
  note S = small_inodes [OF assms(1,2)]
  have d: "disk_inode (disk s) 1 = root_dinode 3" using S(2) by simp
  have m: "i_mode (root_dinode 3) AND F_MASK = F_DIR"
    by (simp add: root_dinode_def no_node_def F_MASK_def F_DIR_def MODE_MASK_def)
  have p: "places (root_dinode 3) = [0, 1]" "sint (o_offset (i_size (root_dinode 3))) smod 16 = 0"
    by (simp_all add: places_def entries_def root_dinode_def no_node_def upt_conv_Cons)
  have b: "blk_of (disk s) (root_dinode 3) 0 = 3" by (simp add: blk_of_def root_dinode_def no_node_def)
  have e: "entry_of (disk s) (root_dinode 3) 0 = \<lparr>d_ino = 1, d_name = [46] @ replicate 13 0\<rparr>"
    "entry_of (disk s) (root_dinode 3) 1 = \<lparr>d_ino = 1, d_name = [46, 46] @ replicate 12 0\<rparr>"
    using dirbuf_entries(2,3) by (simp_all add: entry_of_def b assms(3) ROOTINODE_def)
  show "refs (Suc r) (disk s) 1 1 = [1, 1]" by (simp add: d m p e goes_down_def)
  have "pad_name \<lparr>d_ino = 1, d_name = [46] @ replicate 13 0\<rparr> = \<lparr>d_ino = 1, d_name = [46] @ replicate 13 0\<rparr>"
    "pad_name \<lparr>d_ino = 1, d_name = [46, 46] @ replicate 12 0\<rparr> = \<lparr>d_ino = 1, d_name = [46, 46] @ replicate 12 0\<rparr>"
    "c_str ([46] @ replicate 13 0) = [46]" "c_str ([46, 46] @ replicate 12 0) = [46, 46]"
    by (simp_all add: pad_name_def c_str_def)
  then have "good_entry (disk s) (filsys s) 1 1 (root_dinode 3) j" if "j \<in> {0, 1}" for j
    using that e b by (auto simp: good_entry_def ROOTINODE_def assms(1) new_super_def)
  then show "good_tree (Suc r) (disk s) (filsys s) 1 1 [47]" by (simp add: d m p e goes_down_def)
qed

lemma small_consistent:
  assumes s: "fk_ok s" "filsys s = new_super 3 6" "behind s = replicate 296 0" "disk s 2 = first_inodes 3" "disk s 3 = dirbuf"
  shows "consistent s"
proof -
  note S = small_inodes [OF s(2,4)]
  have "MAXDEPTH = Suc 19" by (simp add: MAXDEPTH_def)
  then have T: "all_refs (disk s) = [1, 1]" "good_tree MAXDEPTH (disk s) (filsys s) ROOTINODE ROOTINODE [47]"
    using small_tree [OF s(2,4,5), of 19] by (simp_all only: ROOTINODE_def)
  have n: "inodes s = [1, 2, 3, 4, 5, 6, 7]" by (simp add: inodes_def s(2) new_super_def ROOTINODE_def upt_conv_Cons)
  have "inode_list (disk s) 1 = ind_list (root_dinode 3) @ file_list (disk s) (root_dinode 3)"
    using S(2) [of 1] S(4) by (simp add: inode_list_def Let_def)
  also have "\<dots> = [3]" by (simp add: ind_list_def if_any_def file_list_def nums_def root_dinode_def no_node_def blk_of_def)
  finally have one: "inode_list (disk s) 1 = [3]" .
  have "\<not> has_blocks no_node" by (simp add: has_blocks_def no_node_def F_REG_def F_DIR_def)
  then have "inode_list (disk s) n = []" if "n \<in> {2, 3, 4, 5, 6, 7}" for n
    using S(2) [of n] that by (auto simp: inode_list_def Let_def)
  with one have "inode_list (disk s) n = (if n = 1 then [3] else [])" if "n \<in> {1, 2, 3, 4, 5, 6, 7}" for n
    using that by auto
  then have "all_blocks (disk s) (inodes s) = [3]" by (simp add: all_blocks_def n)
  moreover have m: "i_mode (root_dinode 3) \<noteq> 0" "i_nlink (root_dinode 3) = 3" "i_mode no_node = 0"
    by (simp_all add: root_dinode_def no_node_def F_DIR_def MODE_MASK_def)
  have d: "disk_inode (disk s) 1 = root_dinode 3" using S(2) [of 1] by simp
  have l: "links_of (disk s) 1 = 3" by (simp only: links_of_def T(1)) (simp add: ROOTINODE_def)
  have "0 < links_of (disk s) n \<and> links_of (disk s) n < 65535 \<and> i_nlink (disk_inode (disk s) n) = of_nat (links_of (disk s) n)"
    if H: "n \<in> set (inodes s)" "i_mode (disk_inode (disk s) n) \<noteq> 0" for n
  proof (cases "n = 1")
    case True
    show ?thesis unfolding True l d m(2) by simp
  next
    case False
    then show ?thesis using H S(2) [of n] m(3) by (simp only: S(1) if_False simp_thms)
  qed
  ultimately show ?thesis
    using small_sane(1) [OF s(1-4)] T(2) d m(1) by (simp add: consistent_def T(1)) (simp add: ROOTINODE_def n)
qed


end
