(* ===== verification/Peephole.thy ===== *)
theory Peephole
  imports Prelude "HOL-Library.Sublist"
begin

section \<open>The peephole optimizer\<close>

text \<open>
  OPTIMH.C, which the build runs over the assembler files of the compiler: it replaces groups of up to four lines by instructions of
  the Z280. The model has the variables of the program and the two files; the text of a buffer is its C string. The file is what
  \<^verbatim>\<open>fgets\<close> sees of it. \<^verbatim>\<open>fgets\<close> leaves a buffer as it was at the end of the file, and so does the model.
\<close>

abbreviation tab :: char where "tab \<equiv> CHR 0x09"
abbreviation nl :: char where "nl \<equiv> CHR 0x0A"

record opt =
  infile :: string
  outfile :: string
  line :: "string list"
  textbuf :: string
  lines :: nat
  found :: bool
  count :: u16
  repl :: u16

abbreviation ln :: "nat \<Rightarrow> opt \<Rightarrow> string" where
  "ln k s \<equiv> line s ! k"

subsection \<open>Strings and files\<close>

fun instr_at :: "nat \<Rightarrow> string \<Rightarrow> string \<Rightarrow> nat" where
  "instr_at i t [] = 0"
| "instr_at i t (c # s) = (if prefix t (c # s) then i + 1 else instr_at (i + 1) t s)"

definition instr :: "string \<Rightarrow> string \<Rightarrow> nat" where
  "instr t s = instr_at 0 t s"

text \<open>\<open>has t s\<close>: \<^verbatim>\<open>instr(t,s)\<close> as a condition.\<close>

definition has :: "string \<Rightarrow> string \<Rightarrow> bool" where
  "has t s \<longleftrightarrow> instr t s \<noteq> 0"

definition copyn :: "string \<Rightarrow> nat \<Rightarrow> nat \<Rightarrow> string" where
  "copyn a p i = takeWhile (\<lambda>c. c \<notin> {CHR 0x0D, CHR 0x0A, CHR 0x00}) (take i (drop p a))"

primrec read_line :: "nat \<Rightarrow> string \<Rightarrow> string \<times> string" where
  "read_line 0 xs = ([], xs)"
| "read_line (Suc n) xs =
     (case xs of [] \<Rightarrow> ([], [])
      | c # cs \<Rightarrow> if c = nl then ([c], cs) else (let (l, r) = read_line n cs in (c # l, r)))"

definition get_line :: "nat \<Rightarrow> opt \<Rightarrow> bool \<times> opt" where
  "get_line k s =
     (if infile s = [] then (False, s)
      else let (l, r) = read_line 99 (infile s)
           in (True, s\<lparr>infile := r, line := (line s)[k := takeWhile (\<lambda>c. c \<noteq> CHR 0x00) l]\<rparr>))"

definition put :: "string \<Rightarrow> opt \<Rightarrow> opt" where
  "put x s = s\<lparr>outfile := outfile s @ x\<rparr>"

fun dec :: "nat \<Rightarrow> string" where
  "dec n = (if n < 10 then [char_of (48 + n)] else dec (n div 10) @ [char_of (48 + n mod 10)])"

declare dec.simps [simp del]

definition fmt_d :: "u16 \<Rightarrow> string" where
  "fmt_d w = (if sint w < 0 then ''-'' @ dec (nat (- sint w)) else dec (nat (sint w)))"

subsection \<open>What the replacements write\<close>

definition csv_text :: "string \<Rightarrow> string" where
  "csv_text bytes =
     '';->call csv'' @ [nl] @ ''push'' @ [tab] @ ''iy'' @ [nl] @ ''push'' @ [tab] @ ''ix'' @ [nl] @
     '';-> lda ix,(sp+0)'' @ [nl] @ ''defb'' @ [tab] @ bytes @ [nl]"

definition cret_text :: string where
  "cret_text =
     '';->jp cret'' @ [nl] @ ''ld'' @ [tab] @ ''sp,ix'' @ [nl] @ ''pop'' @ [tab] @ ''ix'' @ [nl] @
     ''pop'' @ [tab] @ ''iy'' @ [nl] @ ''ret'' @ [nl]"

definition mult_text :: "string \<Rightarrow> string \<Rightarrow> string" where
  "mult_text str2 bytes = '';->'' @ str2 @ ''  hl,de'' @ [nl] @ ''defb'' @ [tab] @ bytes @ [nl]"

definition ldw1_text :: "string \<Rightarrow> string \<Rightarrow> string" where
  "ldw1_text str1 byte1 =
     '';->ldw (hl),'' @ str1 @ [nl] @ ''defb'' @ [tab] @ byte1 @ [nl] @ ''inc'' @ [tab] @ ''hl'' @ [nl]"

definition ldw2_text :: "string \<Rightarrow> string \<Rightarrow> string" where
  "ldw2_text str1 byte1 =
     '';->ldw '' @ str1 @ '',(hl)'' @ [nl] @ ''defb'' @ [tab] @ byte1 @ [nl] @ ''inc'' @ [tab] @ ''hl'' @ [nl]"

definition ldw3_text :: "string \<Rightarrow> string \<Rightarrow> string \<Rightarrow> string \<Rightarrow> string" where
  "ldw3_text str1 str2 byte1 x =
     '';->ldw  '' @ str1 @ '',('' @ str2 @ x @ '')'' @ [nl] @ ''defb'' @ [tab] @ byte1 @ '','' @ x @ [nl]"

definition ldw4_text :: "string \<Rightarrow> string \<Rightarrow> string \<Rightarrow> string \<Rightarrow> string" where
  "ldw4_text str1 str2 byte1 x =
     '';->ldw  ('' @ str2 @ x @ ''),'' @ str1 @ [nl] @ ''defb'' @ [tab] @ byte1 @ '','' @ x @ [nl]"

definition subw_text :: "string \<Rightarrow> string \<Rightarrow> string" where
  "subw_text str1 byte1 = '';->subw  hl,'' @ str1 @ [nl] @ ''defb'' @ [tab] @ byte1 @ [nl]"

definition lda_text :: "string \<Rightarrow> string \<Rightarrow> string \<Rightarrow> string" where
  "lda_text r b x =
     '';->lda  hl,('' @ r @ ''+'' @ x @ '')'' @ [nl] @ ''defb'' @ [tab] @ ''0edh,'' @ b @ [nl] @ ''defw'' @ [tab] @ x @ [nl]"

definition lda0_text :: "string \<Rightarrow> string \<Rightarrow> string" where
  "lda0_text r b = '';->lda  hl,('' @ r @ ''+0)'' @ [nl] @ ''defb'' @ [tab] @ ''0edh,'' @ b @ '',0,0'' @ [nl]"

definition push_text :: "string \<Rightarrow> string \<Rightarrow> string" where
  "push_text r b =
     '';->ld  d,'' @ r @ ''h'' @ [nl] @ ''defb'' @ [tab] @ b @ '',54h'' @ [nl] @
     '';->ld  e,'' @ r @ ''l'' @ [nl] @ ''defb'' @ [tab] @ b @ '',5dh'' @ [nl]"

subsection \<open>The replacements\<close>

text \<open>\<^verbatim>\<open>if(lines<k) fgets(line[k],100,infile); lines = k;\<close>\<close>

definition need :: "nat \<Rightarrow> opt \<Rightarrow> opt" where
  "need k s = (if lines s < k then snd (get_line k s) else s)\<lparr>lines := k\<rparr>"

definition hit :: "string \<Rightarrow> u16 \<Rightarrow> u16 \<Rightarrow> opt \<Rightarrow> opt" where
  "hit x c r s = (put x s)\<lparr>lines := 0, found := True, count := count s + c, repl := repl s + r\<rparr>"

definition csv :: "string \<Rightarrow> string \<Rightarrow> opt \<Rightarrow> opt" where
  "csv str1 bytes s =
     (if has str1 (ln 0 s) then
        hit (csv_text bytes) (- 6) 2 s
      else s)"

definition cret :: "string \<Rightarrow> opt \<Rightarrow> opt" where
  "cret str1 s =
     (if has str1 (ln 0 s) then
        hit cret_text (- 3) 2 s
      else s)"

definition mult :: "string \<Rightarrow> string \<Rightarrow> string \<Rightarrow> opt \<Rightarrow> opt" where
  "mult str1 str2 bytes s =
     (if has str1 (ln 0 s) then
        hit (mult_text str2 bytes) 1 2 s
      else s)"

definition ldw1 :: "string \<Rightarrow> string \<Rightarrow> opt \<Rightarrow> opt" where
  "ldw1 str1 byte1 s =
     (let strr1 = (\<lambda>c. ''ld'' @ [tab] @ ''(hl),'' @ [c])
      in if has (strr1 (str1 ! 1)) (ln 0 s) then
           let s = need 1 s
           in if has (''inc'' @ [tab] @ ''hl'') (ln 1 s) then
                let s = need 2 s
                in if has (strr1 (str1 ! 0)) (ln 2 s) then
                     hit (ldw1_text str1 byte1) 0 2 s
                   else s
              else s
         else s)"

definition ldw2 :: "string \<Rightarrow> string \<Rightarrow> opt \<Rightarrow> opt" where
  "ldw2 str1 byte1 s =
     (let strr1 = (\<lambda>c. ''ld'' @ [tab] @ [c] @ '',(hl)'')
      in if has (strr1 (str1 ! 1)) (ln 0 s) then
           let s = need 1 s
           in if has (''inc'' @ [tab] @ ''hl'') (ln 1 s) then
                let s = need 2 s
                in if has (strr1 (str1 ! 0)) (ln 2 s) then
                     hit (ldw2_text str1 byte1) 0 2 s
                   else s
              else s
         else s)"

text \<open>The offset between the index register and the closing bracket.\<close>

definition offset_in :: "string \<Rightarrow> string \<Rightarrow> string" where
  "offset_in str2 l = (let posit = instr str2 l + 1 in copyn l posit (instr '')'' l - posit - 1))"

definition ldw3 :: "string \<Rightarrow> string \<Rightarrow> string \<Rightarrow> opt \<Rightarrow> opt" where
  "ldw3 str1 str2 byte1 s =
     (let strr1 = (\<lambda>c. ''ld'' @ [tab] @ [c] @ '',('' @ str2)
      in if has (strr1 (str1 ! 1)) (ln 0 s) then
           let s = need 1 s
           in if has (strr1 (str1 ! 0)) (ln 1 s) then
                let x = offset_in str2 (ln 0 s)
                in hit (ldw3_text str1 str2 byte1 x) 2 4 (s\<lparr>textbuf := x\<rparr>)
              else s
         else s)"

definition ldw4 :: "string \<Rightarrow> string \<Rightarrow> string \<Rightarrow> opt \<Rightarrow> opt" where
  "ldw4 str1 str2 byte1 s =
     (let strr1 = ''ld'' @ [tab] @ ''('' @ str2; strr2 = (\<lambda>c. ''),'' @ [c])
      in if has strr1 (ln 0 s) \<and> has (strr2 (str1 ! 1)) (ln 0 s) then
           let s = need 1 s
           in if has strr1 (ln 1 s) \<and> has (strr2 (str1 ! 0)) (ln 1 s) then
                let x = offset_in str2 (ln 0 s)
                in hit (ldw4_text str1 str2 byte1 x) 2 4 (s\<lparr>textbuf := x\<rparr>)
              else s
         else s)"

definition subwhl :: "string \<Rightarrow> string \<Rightarrow> opt \<Rightarrow> opt" where
  "subwhl str1 byte1 s =
     (if has (''or'' @ [tab] @ ''a'') (ln 0 s) then
        let s = need 1 s
        in if has (''sbc'' @ [tab] @ ''hl,'' @ str1) (ln 1 s) then
             hit (subw_text str1 byte1) 1 2 s
           else s
      else s)"

text \<open>\<open>pushix\<close> and \<open>pushiy\<close>: the register is \<open>ix\<close> with the prefix \<open>0ddh\<close> or \<open>iy\<close> with \<open>0fdh\<close>.\<close>

definition pushix :: "opt \<Rightarrow> opt" where
  "pushix s = (put (push_text ''ix'' ''0ddh'') s)\<lparr>found := True, count := count s - 1, repl := repl s + 4\<rparr>"

definition pushiy :: "opt \<Rightarrow> opt" where
  "pushiy s = (put (push_text ''iy'' ''0fdh'') s)\<lparr>found := True, count := count s - 1, repl := repl s + 4\<rparr>"

text \<open>The operand of \<open>ld hl,\<close>. When it has a closing bracket the second \<^verbatim>\<open>copyn\<close> copies \<^verbatim>\<open>text\<close> to itself, which it has cleared before.\<close>

definition operand :: "string \<Rightarrow> string" where
  "operand l = (let x = copyn l (instr ''hl,'' l + 2) 6 in if has '')'' x then [] else x)"

text \<open>The branch of \<^verbatim>\<open>check\<close> for \<open>push ix\<close>, and for \<open>push iy\<close>.\<close>

definition pushed :: "string \<Rightarrow> string \<Rightarrow> (opt \<Rightarrow> opt) \<Rightarrow> opt \<Rightarrow> opt" where
  "pushed r b push s =
     (let s = need 1 s
      in if has (''pop'' @ [tab] @ ''de'') (ln 1 s) then
           let s = need 2 s
           in if has (''ld'' @ [tab] @ ''hl,'') (ln 2 s) then
                let s = need 3 s
                in if has (''add'' @ [tab] @ ''hl,de'') (ln 3 s) then
                     let x = operand (ln 2 s)
                     in hit (lda_text r b x) 3 2 (s\<lparr>textbuf := x\<rparr>)
                   else s
              else let s = push s
                   in s\<lparr>line := ((line s)[0 := ln 1 s])[1 := ln 2 s], lines := 1\<rparr>
         else if has (''pop'' @ [tab] @ ''hl'') (ln 1 s) then
           hit (lda0_text r b) (- 1) 4 s
         else s)"

text \<open>A branch \<^verbatim>\<open>if(instr(t,line[0])) { if(!found) ...; if(!found) ...; }\<close> of \<^verbatim>\<open>check\<close>.\<close>

definition unless_found :: "(opt \<Rightarrow> opt) \<Rightarrow> opt \<Rightarrow> opt" where
  "unless_found f s = (if found s then s else f s)"

definition branch :: "string \<Rightarrow> (opt \<Rightarrow> opt) list \<Rightarrow> opt \<Rightarrow> opt" where
  "branch t fs s = (if has t (ln 0 s) then fold unless_found fs s else s)"

definition check :: "opt \<Rightarrow> opt" where
  "check s =
     (let s = branch ''mul'' [mult (''call'' @ [tab] @ ''amul'') ''multw'' ''0edh,0d2h'',
                             mult (''call'' @ [tab] @ ''lmul'') ''multuw'' ''0edh,0d3h''] s;
          s = branch ''csv'' [csv ''call csv'' ''0ddh,0edh,02h,0,0''] s;
          s = branch ''cret'' [cret (''jp'' @ [tab] @ ''cret'')] s;
          s = branch ''(hl),'' [ldw1 ''bc'' ''0edh,0eh'', ldw1 ''de'' ''0edh,1eh''] s;
          s = branch '',(hl)'' [ldw2 ''bc'' ''0edh,06h'', ldw2 ''de'' ''0edh,16h''] s;
          s = branch ''(ix'' [ldw3 ''bc'' ''ix'' ''0ddh,0edh,06h'', ldw3 ''de'' ''ix'' ''0ddh,0edh,16h'',
                             ldw3 ''hl'' ''ix'' ''0ddh,0edh,26h'', ldw4 ''bc'' ''ix'' ''0ddh,0edh,0eh'',
                             ldw4 ''de'' ''ix'' ''0ddh,0edh,1eh'', ldw4 ''hl'' ''ix'' ''0ddh,0edh,2eh''] s;
          s = branch ''(iy'' [ldw3 ''bc'' ''iy'' ''0fdh,0edh,06h'', ldw3 ''de'' ''iy'' ''0fdh,0edh,16h'',
                             ldw3 ''hl'' ''iy'' ''0fdh,0edh,26h'', ldw4 ''bc'' ''iy'' ''0fdh,0edh,0eh'',
                             ldw4 ''de'' ''iy'' ''0fdh,0edh,1eh'', ldw4 ''hl'' ''iy'' ''0fdh,0edh,2eh''] s;
          s = branch (''or'' @ [tab] @ ''a'') [subwhl ''bc'' ''0edh,0ceh'', subwhl ''de'' ''0edh,0deh''] s;
          s = branch (''push'' @ [tab] @ ''ix'') [pushed ''ix'' ''2ah'' pushix] s
      in branch (''push'' @ [tab] @ ''iy'') [pushed ''iy'' ''32h'' pushiy] s)"

subsection \<open>The main program\<close>

text \<open>\<^verbatim>\<open>check(); if(!found) fputs(line[0],outfile);\<close>\<close>

definition step :: "opt \<Rightarrow> opt" where
  "step s = (let s = check s in if found s then s else put (ln 0 s) s)"

definition shift :: "opt \<Rightarrow> opt" where
  "shift s = s\<lparr>found := False, line := (line s)[0 := ln 1 s, 1 := ln 2 s, 2 := ln 3 s], lines := lines s - 1\<rparr>"

partial_function (option) inner_loop :: "opt \<Rightarrow> opt option" where
  "inner_loop s = (if lines s > 0 then inner_loop (step (shift s)) else Some s)"

partial_function (option) outer_loop :: "opt \<Rightarrow> opt option" where
  "outer_loop s =
     (case get_line 0 s of
        (got, s) \<Rightarrow> if got then Option.bind (inner_loop (step (s\<lparr>lines := 0, found := False\<rparr>))) outer_loop else Some s)"

declare inner_loop.simps [code] outer_loop.simps [code]

definition statistics :: "u16 \<Rightarrow> u16 \<Rightarrow> string" where
  "statistics c r =
     [nl] @ ''; Optimizer statistics:'' @ [nl] @ ''; '' @ fmt_d c @ '' bytes optimized away'' @ [nl] @
     ''; '' @ fmt_d r @ '' bytes replaced'' @ [nl] @ [nl] @ [CHR 0x1A]"

text \<open>The output file for an input file.\<close>

definition optimize :: "string \<Rightarrow> string option" where
  "optimize input = do {
     s \<leftarrow> outer_loop \<lparr>infile = input, outfile = [], line = replicate 6 [], textbuf = [], lines = 0, found = False, count = 0, repl = 0\<rparr>;
     Some (outfile s @ statistics (count s) (repl s)) }"

end
