(* ===== verification/Rewriting.thy ===== *)
theory Rewriting
  imports Peephole
begin

section \<open>What the optimizer does to a file\<close>

text \<open>
  A table of replacements of groups of lines, and the proof that the optimizer, with its buffers and look-ahead, rewrites the lines of the
  file with this table: no line is lost, repeated or moved. This needs lines as the compiler writes them, one instruction on a line, and three more
  lines behind every line that a replacement begins with; otherwise the program may drop lines that it has read ahead, or go on with what an old line left in
  a buffer.
\<close>

subsection \<open>The table\<close>

abbreviation ld :: "string \<Rightarrow> string" where
  "ld x \<equiv> ''ld'' @ [tab] @ x"

definition inc_hl :: string where "inc_hl = ''inc'' @ [tab] @ ''hl''"
definition pop_de :: string where "pop_de = ''pop'' @ [tab] @ ''de''"
definition ld_hl :: string where "ld_hl = ''ld'' @ [tab] @ ''hl,''"

inductive replaces :: "string list \<Rightarrow> string \<Rightarrow> bool" where
  multiplication: "has (''call'' @ [tab] @ f) l \<Longrightarrow> (f, m, b) \<in> {(''amul'', ''multw'', ''0edh,0d2h''), (''lmul'', ''multuw'', ''0edh,0d3h'')} \<Longrightarrow>
    replaces [l] (mult_text m b)"
| entry: "has ''call csv'' l \<Longrightarrow> replaces [l] (csv_text ''0ddh,0edh,02h,0,0'')"
| return: "has (''jp'' @ [tab] @ ''cret'') l \<Longrightarrow> replaces [l] cret_text"
| store: "has (ld (''(hl),'' @ [r ! 1])) l \<Longrightarrow> has inc_hl m \<Longrightarrow> has (ld (''(hl),'' @ [r ! 0])) n \<Longrightarrow>
    (r, b) \<in> {(''bc'', ''0edh,0eh''), (''de'', ''0edh,1eh'')} \<Longrightarrow> replaces [l, m, n] (ldw1_text r b)"
| load: "has (ld ([r ! 1] @ '',(hl)'')) l \<Longrightarrow> has inc_hl m \<Longrightarrow> has (ld ([r ! 0] @ '',(hl)'')) n \<Longrightarrow>
    (r, b) \<in> {(''bc'', ''0edh,06h''), (''de'', ''0edh,16h'')} \<Longrightarrow> replaces [l, m, n] (ldw2_text r b)"
| load_indexed: "has (ld ([r ! 1] @ '',('' @ x)) l \<Longrightarrow> has (ld ([r ! 0] @ '',('' @ x)) m \<Longrightarrow>
    (x, p) \<in> {(''ix'', ''0ddh''), (''iy'', ''0fdh'')} \<Longrightarrow> (r, b) \<in> {(''bc'', '',0edh,06h''), (''de'', '',0edh,16h''), (''hl'', '',0edh,26h'')} \<Longrightarrow>
    replaces [l, m] (ldw3_text r x (p @ b) (offset_in x l))"
| store_indexed: "has (ld (''('' @ x)) l \<Longrightarrow> has (''),'' @ [r ! 1]) l \<Longrightarrow> has (ld (''('' @ x)) m \<Longrightarrow> has (''),'' @ [r ! 0]) m \<Longrightarrow>
    (x, p) \<in> {(''ix'', ''0ddh''), (''iy'', ''0fdh'')} \<Longrightarrow> (r, b) \<in> {(''bc'', '',0edh,0eh''), (''de'', '',0edh,1eh''), (''hl'', '',0edh,2eh'')} \<Longrightarrow>
    replaces [l, m] (ldw4_text r x (p @ b) (offset_in x l))"
| difference: "has (''or'' @ [tab] @ ''a'') l \<Longrightarrow> has (''sbc'' @ [tab] @ ''hl,'' @ r) m \<Longrightarrow>
    (r, b) \<in> {(''bc'', ''0edh,0ceh''), (''de'', ''0edh,0deh'')} \<Longrightarrow> replaces [l, m] (subw_text r b)"
| address: "has (''push'' @ [tab] @ x) l \<Longrightarrow> has pop_de m \<Longrightarrow> has ld_hl n \<Longrightarrow> has (''add'' @ [tab] @ ''hl,de'') k \<Longrightarrow>
    (x, b) \<in> {(''ix'', ''2ah''), (''iy'', ''32h'')} \<Longrightarrow> replaces [l, m, n, k] (lda_text x b (operand n))"
| copy_de: "has (''push'' @ [tab] @ x) l \<Longrightarrow> has pop_de m \<Longrightarrow> (x, p) \<in> {(''ix'', ''0ddh''), (''iy'', ''0fdh'')} \<Longrightarrow>
    replaces [l, m] (push_text x p)"
| copy_hl: "has (''push'' @ [tab] @ x) l \<Longrightarrow> has (''pop'' @ [tab] @ ''hl'') m \<Longrightarrow> (x, b) \<in> {(''ix'', ''2ah''), (''iy'', ''32h'')} \<Longrightarrow>
    replaces [l, m] (lda0_text x b)"

inductive rewritten :: "string list \<Rightarrow> string \<Rightarrow> bool" where
  nothing: "rewritten [] []"
| copied: "rewritten ls x \<Longrightarrow> rewritten (l # ls) (l @ x)"
| replaced: "replaces w y \<Longrightarrow> rewritten ls x \<Longrightarrow> rewritten (w @ ls) (y @ x)"

subsection \<open>Lines of a file\<close>

lemma read_line_shorter: "xs \<noteq> [] \<Longrightarrow> length (snd (read_line (Suc n) xs)) < length xs"
proof -
  have le: "length (snd (read_line n xs)) \<le> length xs" for n and xs :: string
  proof (induction n arbitrary: xs)
    case (Suc n)
    then show ?case by (auto split: list.splits prod.splits simp: le_SucI) (metis le_SucI snd_conv)
  qed simp
  show "xs \<noteq> [] \<Longrightarrow> length (snd (read_line (Suc n) xs)) < length xs"
    by (cases xs) (auto split: prod.splits simp: less_Suc_eq_le intro: order_trans [OF _ le] dest: arg_cong [where f = snd], metis le snd_conv)
qed

function file_lines :: "string \<Rightarrow> string list" where
  "file_lines xs = (if xs = [] then [] else takeWhile (\<lambda>c. c \<noteq> CHR 0x00) (fst (read_line 99 xs)) # file_lines (snd (read_line 99 xs)))"
  by pat_completeness auto
termination
  by (relation "measure length") (auto simp: read_line_shorter numeral_eq_Suc simp del: read_line.simps)

declare file_lines.simps [simp del]

lemma file_lines_Nil [simp]: "file_lines [] = []"
  by (simp add: file_lines.simps)

lemma file_lines_ne: "xs \<noteq> [] \<Longrightarrow> file_lines xs \<noteq> []"
  by (simp add: file_lines.simps)

subsection \<open>The lines that are still to be treated\<close>

definition pend :: "opt \<Rightarrow> string list" where
  "pend s = map (\<lambda>k. ln k s) [1..<Suc (lines s)] @ file_lines (infile s)"

lemma get_line_pend:
  assumes "infile s \<noteq> []" "length (line s) = 6" "k < 6"
  shows "\<exists>r. get_line k s = (True, s\<lparr>infile := r, line := (line s)[k := hd (file_lines (infile s))]\<rparr>) \<and> file_lines r = tl (file_lines (infile s))"
  using assms file_lines.simps [of "infile s"] by (auto simp: get_line_def split: prod.splits)

lemma need_law:
  assumes s: "length (line s) = 6" "0 < k" "k \<le> 3" "lines s \<le> k" "k \<le> Suc (lines s)" "k \<le> length (pend s)"
  shows "length (line (need k s)) = 6" "lines (need k s) = k" "pend (need k s) = pend s" "j \<noteq> k \<Longrightarrow> ln j (need k s) = ln j s"
    "found (need k s) = found s" "outfile (need k s) = outfile s" "lines s = k \<Longrightarrow> ln j (need k s) = ln j s"
proof -
  have "length (line (need k s)) = 6 \<and> lines (need k s) = k \<and> pend (need k s) = pend s \<and> (j \<noteq> k \<or> lines s = k \<longrightarrow> ln j (need k s) = ln j s) \<and>
    found (need k s) = found s \<and> outfile (need k s) = outfile s" for j
  proof (cases "lines s < k")
    case False
    then have "need k s = s" using s(4) by (simp add: need_def)
    then show ?thesis using s False by simp
  next
    case True
    then have k: "k = Suc (lines s)" using s(5) by simp
    have "infile s \<noteq> []"
    proof
      assume "infile s = []"
      then have "length (pend s) = lines s" by (simp add: pend_def)
      then show False using s(6) k by simp
    qed
    from get_line_pend [OF this s(1), of k] s(3) obtain r where
      r: "get_line k s = (True, s\<lparr>infile := r, line := (line s)[k := hd (file_lines (infile s))]\<rparr>)" "file_lines r = tl (file_lines (infile s))" by auto
    have t: "need k s = s\<lparr>infile := r, line := (line s)[k := hd (file_lines (infile s))], lines := k\<rparr>"
      using True by (simp add: need_def r(1))
    have L: "file_lines (infile s) = hd (file_lines (infile s)) # file_lines r"
      using file_lines_ne [OF \<open>infile s \<noteq> []\<close>] r(2) by simp
    have M: "map (\<lambda>j. (line s)[k := x] ! j) [1..<Suc k] = map (\<lambda>j. ln j s) [1..<k] @ [x]" for x
      using s(1-3) by simp
    have "pend (need k s) = map (\<lambda>j. (line s)[k := hd (file_lines (infile s))] ! j) [1..<Suc k] @ file_lines r" by (simp only: pend_def t) simp
    also have "\<dots> = map (\<lambda>j. ln j s) [1..<k] @ file_lines (infile s)" unfolding M by (subst (2) L) simp
    also have "\<dots> = pend s" unfolding pend_def k ..
    finally have "pend (need k s) = pend s" .
    then show ?thesis using s(1) True by (simp add: t)
  qed
  then show "length (line (need k s)) = 6" "lines (need k s) = k" "pend (need k s) = pend s" "j \<noteq> k \<Longrightarrow> ln j (need k s) = ln j s"
    "found (need k s) = found s" "outfile (need k s) = outfile s" "lines s = k \<Longrightarrow> ln j (need k s) = ln j s" by blast+
qed

subsection \<open>One replacement\<close>

text \<open>Lines behind which the program reads on.\<close>

definition follow :: "string \<Rightarrow> bool" where
  "follow l \<longleftrightarrow> has inc_hl l \<or> has pop_de l \<or> has ld_hl l"

definition good :: "opt \<Rightarrow> opt \<Rightarrow> bool" where
  "good s t \<longleftrightarrow> length (line t) = 6 \<and>
     (if found t then lines t \<le> 1 \<and> (\<exists>w x. replaces w x \<and> ln 0 s # pend s = w @ pend t \<and> outfile t = outfile s @ x)
      else ln 0 t = ln 0 s \<and> pend t = pend s \<and> outfile t = outfile s \<and> lines t \<le> 3 \<and> (\<forall>j. 1 \<le> j \<and> j < lines t \<longrightarrow> follow (ln j t)))"

lemma good_refl: "length (line s) = 6 \<Longrightarrow> \<not> found s \<Longrightarrow> lines s \<le> 1 \<Longrightarrow> good s s"
  by (auto simp: good_def)

lemma good_trans: "good s t \<Longrightarrow> \<not> found t \<Longrightarrow> good t u \<Longrightarrow> good s u"
  by (auto simp: good_def)

lemma good_need:
  assumes g: "good s t" "\<not> found t" and k: "0 < k" "k \<le> 3" "lines t \<le> k" "k \<le> Suc (lines t)" "k \<le> length (pend s)"
    and f: "\<And>j. 1 \<le> j \<Longrightarrow> j < k \<Longrightarrow> follow (ln j t)"
  shows "good s (need k t)" "\<not> found (need k t)" "lines (need k t) = k" "j \<noteq> k \<Longrightarrow> ln j (need k t) = ln j t"
proof -
  have p: "pend t = pend s" and l: "length (line t) = 6" using g by (simp_all add: good_def)
  note N = need_law [OF l k(1-4), unfolded p, OF k(5)]
  show "\<not> found (need k t)" "lines (need k t) = k" "j \<noteq> k \<Longrightarrow> ln j (need k t) = ln j t" using N g(2) by simp_all
  show "good s (need k t)" using g k(1,2) N f by (simp add: good_def)
qed

lemma good_hit:
  assumes g: "good s t" "\<not> found t" and r: "replaces (map (\<lambda>j. ln j t) [0..<Suc (lines t)]) x"
  shows "good s (hit x c n t)" "good s (hit x c n (t\<lparr>textbuf := y\<rparr>))"
proof -
  have "ln 0 s # pend s = map (\<lambda>j. ln j t) [0..<Suc (lines t)] @ file_lines (infile t)"
    using g by (simp add: good_def pend_def upt_conv_Cons del: upt_Suc)
  then show "good s (hit x c n t)" "good s (hit x c n (t\<lparr>textbuf := y\<rparr>))" using g r by (auto simp: good_def hit_def put_def pend_def)
qed

definition settled :: "opt \<Rightarrow> bool" where
  "settled s \<longleftrightarrow> length (line s) = 6 \<and> \<not> found s \<and> 3 \<le> length (pend s)"

lemma settled_good: "settled s \<Longrightarrow> lines s \<le> 1 \<Longrightarrow> good s s"
  by (simp add: settled_def good_refl)

lemma need_first:
  assumes "settled s" "lines s \<le> 1"
  shows "good s (need 1 s)" "\<not> found (need 1 s)" "lines (need 1 s) = 1" "ln 0 (need 1 s) = ln 0 s"
proof -
  have l: "1 \<le> length (pend s)" and nf: "\<not> found s" using assms(1) by (simp_all add: settled_def)
  show "good s (need 1 s)" "\<not> found (need 1 s)" "lines (need 1 s) = 1" "ln 0 (need 1 s) = ln 0 s"
    using good_need [OF settled_good [OF assms] nf, of 1] assms(2) l by simp_all
qed

lemma need_second:
  assumes "settled s" "lines s \<le> 1" "follow (ln 1 (need 1 s))"
  defines "u \<equiv> need 2 (need 1 s)"
  shows "good s u" "\<not> found u" "lines u = 2" "ln 0 u = ln 0 s" "ln 1 u = ln 1 (need 1 s)"
proof -
  note T = need_first [OF assms(1,2)]
  have l: "2 \<le> length (pend s)" using assms(1) by (simp add: settled_def)
  have f: "follow (ln j (need 1 s))" if "1 \<le> j" "j < 2" for j
  proof -
    have "j = 1" using that by simp
    then show ?thesis using assms(3) by simp
  qed
  show "good s u" "\<not> found u" "lines u = 2" using good_need(1-3) [OF T(1,2), of 2] T(3) l f by (simp_all add: u_def)
  show "ln 0 u = ln 0 s" "ln 1 u = ln 1 (need 1 s)"
    using good_need(4) [OF T(1,2), of 2 0] good_need(4) [OF T(1,2), of 2 1] T(3,4) l f by (simp_all add: u_def)
qed

lemma need_third:
  assumes "settled s" "lines s \<le> 1" "follow (ln 1 (need 1 s))" "follow (ln 2 (need 2 (need 1 s)))"
  defines "u \<equiv> need 2 (need 1 s)"
  defines "v \<equiv> need 3 u"
  shows "good s v" "\<not> found v" "lines v = 3" "ln 0 v = ln 0 s" "ln 1 v = ln 1 u" "ln 2 v = ln 2 u"
proof -
  note U = need_second [OF assms(1-3), folded u_def]
  have l: "3 \<le> length (pend s)" using assms(1) by (simp add: settled_def)
  have f: "follow (ln j u)" if "1 \<le> j" "j < 3" for j
  proof -
    have "j = 1 \<or> j = 2" using that by auto
    then show ?thesis using assms(3,4) U(5) by (auto simp: u_def)
  qed
  show "good s v" "\<not> found v" "lines v = 3" using good_need(1-3) [OF U(1,2), of 3] U(3) l f by (simp_all add: v_def)
  show "ln 0 v = ln 0 s" "ln 1 v = ln 1 u" "ln 2 v = ln 2 u"
    using good_need(4) [OF U(1,2), of 3 0] good_need(4) [OF U(1,2), of 3 1] good_need(4) [OF U(1,2), of 3 2] U(3,4) l f
    by (simp_all add: v_def)
qed

text \<open>The buffers in use.\<close>

lemma buffers:
  "lines t = 1 \<Longrightarrow> map (\<lambda>j. ln j t) [0..<Suc (lines t)] = [ln 0 t, ln 1 t]"
  "lines t = 2 \<Longrightarrow> map (\<lambda>j. ln j t) [0..<Suc (lines t)] = [ln 0 t, ln 1 t, ln 2 t]"
  "lines t = 3 \<Longrightarrow> map (\<lambda>j. ln j t) [0..<Suc (lines t)] = [ln 0 t, ln 1 t, ln 2 t, ln 3 t]"
  by (simp_all add: upt_rec numeral_2_eq_2 numeral_3_eq_3)

lemma single_line:
  assumes "length (line s) = 6" "\<not> found s" "lines s = 0" "replaces [ln 0 s] x"
  shows "good s (hit x c n s)"
  using good_hit [OF good_refl] assms by simp

lemma mult_good:
  assumes "length (line s) = 6" "\<not> found s" "lines s = 0" "(f, m, b) \<in> {(''amul'', ''multw'', ''0edh,0d2h''), (''lmul'', ''multuw'', ''0edh,0d3h'')}"
  shows "good s (mult (''call'' @ [tab] @ f) m b s)"
  using assms good_refl [of s] single_line [OF assms(1-3)] replaces.multiplication [OF _ assms(4)] unfolding mult_def by simp

lemma csv_good: "length (line s) = 6 \<Longrightarrow> \<not> found s \<Longrightarrow> lines s = 0 \<Longrightarrow> good s (csv ''call csv'' ''0ddh,0edh,02h,0,0'' s)"
  unfolding csv_def using good_refl [of s] single_line [of s] replaces.entry by simp

lemma cret_good: "length (line s) = 6 \<Longrightarrow> \<not> found s \<Longrightarrow> lines s = 0 \<Longrightarrow> good s (cret (''jp'' @ [tab] @ ''cret'') s)"
  unfolding cret_def using good_refl [of s] single_line [of s] replaces.return by simp

lemma ldw1_good:
  assumes "settled s" "lines s \<le> 1" "(r, b) \<in> {(''bc'', ''0edh,0eh''), (''de'', ''0edh,1eh'')}"
  shows "good s (ldw1 r b s)"
proof -
  let ?t = "need 1 s" and ?u = "need 2 (need 1 s)"
  note T = need_first [OF assms(1,2)] and G = settled_good [OF assms(1,2)]
  consider "\<not> has (ld (''(hl),'' @ [r ! 1])) (ln 0 s)" | "has (ld (''(hl),'' @ [r ! 1])) (ln 0 s)" "\<not> has inc_hl (ln 1 ?t)"
    | "has (ld (''(hl),'' @ [r ! 1])) (ln 0 s)" "has inc_hl (ln 1 ?t)" by blast
  then show ?thesis
  proof cases
    case 3
    then have f: "follow (ln 1 ?t)" by (simp add: follow_def)
    note U = need_second [OF assms(1,2) f]
    have "good s (hit (ldw1_text r b) 0 2 ?u)" if "has (ld (''(hl),'' @ [r ! 0])) (ln 2 ?u)"
      by (rule good_hit(1) [OF U(1,2)], unfold buffers(2) [OF U(3)] U(4,5)) (rule replaces.store [OF 3 that assms(3)])
    then show ?thesis using 3 U(1) by (simp add: ldw1_def inc_hl_def Let_def)
  qed (use G T(1) in \<open>simp_all add: ldw1_def inc_hl_def\<close>)
qed

lemma ldw2_good:
  assumes "settled s" "lines s \<le> 1" "(r, b) \<in> {(''bc'', ''0edh,06h''), (''de'', ''0edh,16h'')}"
  shows "good s (ldw2 r b s)"
proof -
  let ?t = "need 1 s" and ?u = "need 2 (need 1 s)"
  note T = need_first [OF assms(1,2)] and G = settled_good [OF assms(1,2)]
  consider "\<not> has (ld ([r ! 1] @ '',(hl)'')) (ln 0 s)" | "has (ld ([r ! 1] @ '',(hl)'')) (ln 0 s)" "\<not> has inc_hl (ln 1 ?t)"
    | "has (ld ([r ! 1] @ '',(hl)'')) (ln 0 s)" "has inc_hl (ln 1 ?t)" by blast
  then show ?thesis
  proof cases
    case 3
    then have f: "follow (ln 1 ?t)" by (simp add: follow_def)
    note U = need_second [OF assms(1,2) f]
    have "good s (hit (ldw2_text r b) 0 2 ?u)" if "has (ld ([r ! 0] @ '',(hl)'')) (ln 2 ?u)"
      by (rule good_hit(1) [OF U(1,2)], unfold buffers(2) [OF U(3)] U(4,5)) (rule replaces.load [OF 3 that assms(3)])
    then show ?thesis using 3 U(1) by (simp add: ldw2_def inc_hl_def Let_def)
  qed (use G T(1) in \<open>simp_all add: ldw2_def inc_hl_def\<close>)
qed

text \<open>The replacements of two lines.\<close>

lemma two_lines:
  assumes "settled s" "lines s \<le> 1" "replaces [ln 0 s, ln 1 (need 1 s)] x"
  shows "good s (hit x c n (need 1 s))" "good s (hit x c n ((need 1 s)\<lparr>textbuf := y\<rparr>))"
proof -
  note T = need_first [OF assms(1,2)]
  have "replaces (map (\<lambda>j. ln j (need 1 s)) [0..<Suc (lines (need 1 s))]) x" unfolding buffers(1) [OF T(3)] T(4) by (rule assms(3))
  from good_hit [OF T(1,2) this] show "good s (hit x c n (need 1 s))" "good s (hit x c n ((need 1 s)\<lparr>textbuf := y\<rparr>))" .
qed

lemma ldw3_good:
  assumes "settled s" "lines s \<le> 1" "(x, p) \<in> {(''ix'', ''0ddh''), (''iy'', ''0fdh'')}"
    "(r, b) \<in> {(''bc'', '',0edh,06h''), (''de'', '',0edh,16h''), (''hl'', '',0edh,26h'')}"
  shows "good s (ldw3 r x (p @ b) s)"
  using two_lines(2) [OF assms(1,2) replaces.load_indexed [OF _ _ assms(3,4)]] need_first [OF assms(1,2)] settled_good [OF assms(1,2)]
  unfolding ldw3_def Let_def by simp

lemma ldw4_good:
  assumes "settled s" "lines s \<le> 1" "(x, p) \<in> {(''ix'', ''0ddh''), (''iy'', ''0fdh'')}"
    "(r, b) \<in> {(''bc'', '',0edh,0eh''), (''de'', '',0edh,1eh''), (''hl'', '',0edh,2eh'')}"
  shows "good s (ldw4 r x (p @ b) s)"
  using two_lines(2) [OF assms(1,2) replaces.store_indexed [OF _ _ _ _ assms(3,4)]] need_first [OF assms(1,2)] settled_good [OF assms(1,2)]
  unfolding ldw4_def Let_def by simp

lemma subwhl_good:
  assumes "settled s" "lines s \<le> 1" "(r, b) \<in> {(''bc'', ''0edh,0ceh''), (''de'', ''0edh,0deh'')}"
  shows "good s (subwhl r b s)"
  using two_lines(1) [OF assms(1,2) replaces.difference [OF _ _ assms(3)]] need_first [OF assms(1,2)] settled_good [OF assms(1,2)]
  unfolding subwhl_def Let_def by simp

lemma copy_de_good:
  assumes g: "good s t" "\<not> found t" "lines t = 2" and r: "replaces [ln 0 t, ln 1 t] x"
    and u: "u = (put x t)\<lparr>found := True, count := c, repl := n\<rparr>"
  shows "good s (u\<lparr>line := ((line u)[0 := ln 1 u])[1 := ln 2 u], lines := 1\<rparr>)"
proof -
  have "length (line t) = 6" using g by (simp add: good_def)
  then have p: "pend (u\<lparr>line := ((line u)[0 := ln 1 u])[1 := ln 2 u], lines := 1\<rparr>) = ln 2 t # file_lines (infile t)"
    by (simp add: u pend_def put_def)
  have "pend t = [ln 1 t, ln 2 t] @ file_lines (infile t)" using g(3) by (simp add: pend_def upt_rec numeral_2_eq_2)
  then have "ln 0 s # pend s = [ln 0 t, ln 1 t] @ (ln 2 t # file_lines (infile t))" using g by (simp add: good_def)
  then show ?thesis using g r unfolding good_def p by (auto simp: u put_def)
qed

lemma pushed_good:
  assumes "settled s" "lines s \<le> 1" and x: "(x, b, p) \<in> {(''ix'', ''2ah'', ''0ddh''), (''iy'', ''32h'', ''0fdh'')}"
    and push: "push = (\<lambda>t. (put (push_text x p) t)\<lparr>found := True, count := count t - 1, repl := repl t + 4\<rparr>)"
    and l: "has (''push'' @ [tab] @ x) (ln 0 s)"
  shows "good s (pushed x b push s)"
proof -
  let ?t = "need 1 s" and ?u = "need 2 (need 1 s)" and ?v = "need 3 (need 2 (need 1 s))"
  note T = need_first [OF assms(1,2)]
  have xb: "(x, b) \<in> {(''ix'', ''2ah''), (''iy'', ''32h'')}" and xp: "(x, p) \<in> {(''ix'', ''0ddh''), (''iy'', ''0fdh'')}" using x by auto
  consider (hl) "\<not> has pop_de (ln 1 ?t)" | (de) "has pop_de (ln 1 ?t)" "\<not> has ld_hl (ln 2 ?u)" | (ld) "has pop_de (ln 1 ?t)" "has ld_hl (ln 2 ?u)" by blast
  then show ?thesis
  proof cases
    case hl
    have "good s (hit (lda0_text x b) (- 1) 4 ?t)" if "has (''pop'' @ [tab] @ ''hl'') (ln 1 ?t)"
      by (rule two_lines(1) [OF assms(1,2) replaces.copy_hl [OF l that xb]])
    then show ?thesis using hl T(1) by (simp add: pushed_def pop_de_def Let_def)
  next
    case de
    then have "follow (ln 1 ?t)" by (simp add: follow_def)
    note U = need_second [OF assms(1,2) this]
    have r: "replaces [ln 0 ?u, ln 1 ?u] (push_text x p)" unfolding U(4,5) by (rule replaces.copy_de [OF l de(1) xp])
    have "pushed x b push s = (let s = push ?u in s\<lparr>line := ((line s)[0 := ln 1 s])[1 := ln 2 s], lines := 1\<rparr>)"
      using de by (simp add: pushed_def pop_de_def ld_hl_def Let_def)
    also have "good s \<dots>" unfolding Let_def push by (rule copy_de_good [OF U(1-3) r refl])
    finally show ?thesis .
  next
    case ld
    then have f: "follow (ln 1 ?t)" "follow (ln 2 ?u)" by (simp_all add: follow_def)
    note U = need_second [OF assms(1,2) f(1)] and V = need_third [OF assms(1,2) f]
    have "good s (hit (lda_text x b (operand (ln 2 ?v))) 3 2 (?v\<lparr>textbuf := operand (ln 2 ?v)\<rparr>))"
      if "has (''add'' @ [tab] @ ''hl,de'') (ln 3 ?v)"
      by (rule good_hit(2) [OF V(1,2)], unfold buffers(3) [OF V(3)] V(4-6) U(5)) (rule replaces.address [OF l ld that xb])
    then show ?thesis using ld V(1) by (simp add: pushed_def pop_de_def ld_hl_def Let_def)
  qed
qed

subsection \<open>One line\<close>

text \<open>The conditions under which the replacements read on or replace, in the order of the program, with the operations that they guard.\<close>

definition store_of :: "string \<Rightarrow> char \<Rightarrow> string \<Rightarrow> bool" where
  "store_of x r l \<longleftrightarrow> has (ld (''('' @ x)) l \<and> has (''),'' @ [r]) l"

definition patterns :: "((string \<Rightarrow> bool) \<times> (opt \<Rightarrow> opt)) list" where
  "patterns =
     [(has (''call'' @ [tab] @ ''amul''), mult (''call'' @ [tab] @ ''amul'') ''multw'' ''0edh,0d2h''),
      (has (''call'' @ [tab] @ ''lmul''), mult (''call'' @ [tab] @ ''lmul'') ''multuw'' ''0edh,0d3h''),
      (has ''call csv'', csv ''call csv'' ''0ddh,0edh,02h,0,0''),
      (has (''jp'' @ [tab] @ ''cret''), cret (''jp'' @ [tab] @ ''cret'')),
      (has (ld ''(hl),c''), ldw1 ''bc'' ''0edh,0eh''), (has (ld ''(hl),e''), ldw1 ''de'' ''0edh,1eh''),
      (has (ld ''c,(hl)''), ldw2 ''bc'' ''0edh,06h''), (has (ld ''e,(hl)''), ldw2 ''de'' ''0edh,16h''),
      (has (ld ''c,(ix''), ldw3 ''bc'' ''ix'' ''0ddh,0edh,06h''), (has (ld ''e,(ix''), ldw3 ''de'' ''ix'' ''0ddh,0edh,16h''),
      (has (ld ''l,(ix''), ldw3 ''hl'' ''ix'' ''0ddh,0edh,26h''), (store_of ''ix'' CHR ''c'', ldw4 ''bc'' ''ix'' ''0ddh,0edh,0eh''),
      (store_of ''ix'' CHR ''e'', ldw4 ''de'' ''ix'' ''0ddh,0edh,1eh''), (store_of ''ix'' CHR ''l'', ldw4 ''hl'' ''ix'' ''0ddh,0edh,2eh''),
      (has (ld ''c,(iy''), ldw3 ''bc'' ''iy'' ''0fdh,0edh,06h''), (has (ld ''e,(iy''), ldw3 ''de'' ''iy'' ''0fdh,0edh,16h''),
      (has (ld ''l,(iy''), ldw3 ''hl'' ''iy'' ''0fdh,0edh,26h''), (store_of ''iy'' CHR ''c'', ldw4 ''bc'' ''iy'' ''0fdh,0edh,0eh''),
      (store_of ''iy'' CHR ''e'', ldw4 ''de'' ''iy'' ''0fdh,0edh,1eh''), (store_of ''iy'' CHR ''l'', ldw4 ''hl'' ''iy'' ''0fdh,0edh,2eh''),
      (has (''or'' @ [tab] @ ''a''), unless_found (subwhl ''de'' ''0edh,0deh'') \<circ> subwhl ''bc'' ''0edh,0ceh''),
      (has (''push'' @ [tab] @ ''ix''), pushed ''ix'' ''2ah'' pushix), (has (''push'' @ [tab] @ ''iy''), pushed ''iy'' ''32h'' pushiy)]"

definition triggers :: "string \<Rightarrow> (string \<Rightarrow> bool) list" where
  "triggers l = filter (\<lambda>g. g l) (map fst patterns)"

definition guarded :: "(string \<Rightarrow> bool) \<times> (opt \<Rightarrow> opt) \<Rightarrow> opt \<Rightarrow> opt" where
  "guarded = (\<lambda>(g, f) s. if g (ln 0 s) then unless_found f s else s)"

lemma guarded_inert: "(\<And>s. \<not> g (ln 0 s) \<Longrightarrow> f s = s) \<Longrightarrow> guarded (g, f) = unless_found f"
  by (auto simp: guarded_def unless_found_def fun_eq_iff)

lemma fold_found: "found s \<Longrightarrow> fold guarded es s = s"
  by (induction es) (auto simp: guarded_def unless_found_def split: prod.splits)

lemma fold_guarded:
  assumes "filter (\<lambda>(g, f). g (ln 0 s)) es = [(g, f)]" "\<not> found s" "found (f s) \<or> ln 0 (f s) = ln 0 s"
  shows "fold guarded es s = f s"
  using assms
proof (induction es)
  case (Cons e es)
  obtain h k where e: "e = (h, k)" by (cases e)
  show ?case
  proof (cases "h (ln 0 s)")
    case False
    then show ?thesis using Cons by (simp add: e guarded_def)
  next
    case True
    then have f: "(h, k) = (g, f)" and n: "filter (\<lambda>(g, f). g (ln 0 s)) es = []" using Cons.prems(1) by (simp_all add: e)
    have "fold guarded es (f s) = f s"
    proof (cases "found (f s)")
      case False
      then have l: "ln 0 (f s) = ln 0 s" using Cons.prems(3) by blast
      have "fold guarded xs (f s) = f s" if "\<forall>(g, f) \<in> set xs. \<not> g (ln 0 s)" for xs
        using that by (induction xs) (auto simp: guarded_def l)
      then show ?thesis using n by (auto simp: filter_empty_conv)
    qed (rule fold_found)
    then show ?thesis using True f Cons.prems(2) by (simp add: e guarded_def unless_found_def)
  qed
qed simp

lemma fold_quiet: "filter (\<lambda>(g, f). g (ln 0 s)) es = [] \<Longrightarrow> fold guarded es s = s"
  by (induction es) (auto simp: guarded_def split: if_splits prod.splits)

lemma instr_at_sublist: "t \<noteq> [] \<Longrightarrow> instr_at i t s \<noteq> 0 \<longleftrightarrow> sublist t s"
  by (induction i t s rule: instr_at.induct) (auto simp: sublist_Cons_right)

text \<open>\<^verbatim>\<open>instr\<close> finds the first occurrence.\<close>

lemma has_sublist: "t \<noteq> [] \<Longrightarrow> has t s \<longleftrightarrow> sublist t s"
  unfolding has_def instr_def by (rule instr_at_sublist)

lemma has_part: "has t l \<Longrightarrow> sublist u t \<Longrightarrow> u \<noteq> [] \<Longrightarrow> has u l"
proof -
  assume h: "has t l" "sublist u t" "u \<noteq> []"
  then have "t \<noteq> []" by auto
  then have "sublist t l" using h(1) by (simp add: has_sublist)
  then have "sublist u l" using h(2) unfolding sublist_def by (metis append.assoc)
  then show "has u l" using h(3) by (simp add: has_sublist)
qed

definition wrapped :: "string \<Rightarrow> (string \<Rightarrow> bool) \<times> (opt \<Rightarrow> opt) \<Rightarrow> bool" where
  "wrapped t = (\<lambda>(g, f). (\<forall>s. \<not> g (ln 0 s) \<longrightarrow> f s = s) \<and> (\<forall>l. g l \<longrightarrow> has t l))"

lemma branch_guarded:
  assumes "list_all (wrapped t) es"
  shows "branch t (map snd es) s = fold guarded es s"
proof -
  have "guarded (g, f) = unless_found f" if "(g, f) \<in> set es" for g f
    using assms that by (intro guarded_inert) (auto simp: list_all_iff wrapped_def)
  then have "fold guarded es s = fold unless_found (map snd es) s"
    unfolding fold_map by (intro fold_cong refl) auto
  moreover have "fold guarded es s = s" if "\<not> has t (ln 0 s)"
    using assms that by (intro fold_quiet) (auto simp: filter_empty_conv list_all_iff wrapped_def)
  ultimately show ?thesis by (simp add: branch_def)
qed

lemma wrapped_ops:
  "sublist t f \<Longrightarrow> t \<noteq> [] \<Longrightarrow> wrapped t (has f, mult f m b)" "sublist t f \<Longrightarrow> t \<noteq> [] \<Longrightarrow> wrapped t (has f, csv f b)"
  "sublist t f \<Longrightarrow> t \<noteq> [] \<Longrightarrow> wrapped t (has f, cret f)"
  "sublist t f \<Longrightarrow> t \<noteq> [] \<Longrightarrow> f = ld (''(hl),'' @ [r ! 1]) \<Longrightarrow> wrapped t (has f, ldw1 r b)"
  "sublist t f \<Longrightarrow> t \<noteq> [] \<Longrightarrow> f = ld ([r ! 1] @ '',(hl)'') \<Longrightarrow> wrapped t (has f, ldw2 r b)"
  "sublist t f \<Longrightarrow> t \<noteq> [] \<Longrightarrow> f = ld ([r ! 1] @ '',('' @ x) \<Longrightarrow> wrapped t (has f, ldw3 r x b)"
  "sublist t (ld (''('' @ x)) \<Longrightarrow> t \<noteq> [] \<Longrightarrow> c = r ! 1 \<Longrightarrow> wrapped t (store_of x c, ldw4 r x b)"
  by (auto simp: wrapped_def mult_def csv_def cret_def ldw1_def ldw2_def ldw3_def ldw4_def store_of_def Let_def elim: has_part)

lemma wrapped_subwhl:
  "wrapped (''or'' @ [tab] @ ''a'') (has (''or'' @ [tab] @ ''a''), unless_found (subwhl r b) \<circ> subwhl q c)"
  by (auto simp: wrapped_def subwhl_def unless_found_def)

lemma patterns_wrapped:
  "list_all (wrapped ''mul'') (take 2 patterns)" "list_all (wrapped ''csv'') (take 1 (drop 2 patterns))" "list_all (wrapped ''cret'') (take 1 (drop 3 patterns))"
  "list_all (wrapped ''(hl),'') (take 2 (drop 4 patterns))" "list_all (wrapped '',(hl)'') (take 2 (drop 6 patterns))"
  "list_all (wrapped ''(ix'') (take 6 (drop 8 patterns))" "list_all (wrapped ''(iy'') (take 6 (drop 14 patterns))"
  unfolding patterns_def
  by (simp_all add: wrapped_ops sublist_Cons_right)

lemma or_guarded: "branch t [f, h] s = guarded (has t, unless_found h \<circ> f) s"
  by (auto simp: branch_def guarded_def unless_found_def)

lemma single_guarded: "branch t [f] s = guarded (has t, f) s"
  by (simp add: branch_def guarded_def)

text \<open>The branches of \<^verbatim>\<open>check\<close> are a list of guarded operations, of which the first that replaces something ends the treatment of the line.\<close>

lemma check_patterns: "check s = fold guarded patterns s"
proof -
  note B = patterns_wrapped [THEN branch_guarded]
  have "patterns = take 2 patterns @ take 1 (drop 2 patterns) @ take 1 (drop 3 patterns) @ take 2 (drop 4 patterns) @ take 2 (drop 6 patterns) @
    take 6 (drop 8 patterns) @ take 6 (drop 14 patterns) @ drop 20 patterns"
    by (simp add: patterns_def)
  then have "fold guarded patterns s = fold guarded (drop 20 patterns) (fold guarded (take 6 (drop 14 patterns)) (fold guarded (take 6 (drop 8 patterns))
    (fold guarded (take 2 (drop 6 patterns)) (fold guarded (take 2 (drop 4 patterns)) (fold guarded (take 1 (drop 3 patterns))
    (fold guarded (take 1 (drop 2 patterns)) (fold guarded (take 2 patterns) s)))))))"
    by (metis fold_append comp_apply)
  also have "\<dots> = check s"
    unfolding B [symmetric] check_def Let_def or_guarded [of "''or'' @ [tab] @ ''a''"] single_guarded [of "''push'' @ [tab] @ ''ix''"]
      single_guarded [of "''push'' @ [tab] @ ''iy''"] by (simp add: patterns_def)
  finally show ?thesis ..
qed

subsection \<open>One line\<close>

text \<open>A line with one instruction: at most one replacement begins with it, and none that the program looks at as a second or third line.\<close>

definition clean :: "string \<Rightarrow> bool" where
  "clean l \<longleftrightarrow> length (triggers l) \<le> 1 \<and> (follow l \<longrightarrow> triggers l = [])"

fun tame :: "string list \<Rightarrow> bool" where
  "tame [] = True"
| "tame (l # ls) = (clean l \<and> (triggers l \<noteq> [] \<longrightarrow> 3 \<le> length ls) \<and> tame ls)"

lemma difference_good:
  assumes "settled s" "lines s \<le> 1"
  shows "good s ((unless_found (subwhl ''de'' ''0edh,0deh'') \<circ> subwhl ''bc'' ''0edh,0ceh'') s)"
proof -
  let ?t = "subwhl ''bc'' ''0edh,0ceh'' s"
  have g: "good s ?t" by (rule subwhl_good [OF assms]) simp
  have "good s (subwhl ''de'' ''0edh,0deh'' ?t)" if nf: "\<not> found ?t"
  proof -
    have "lines ?t \<le> 1" using assms(2) need_first [OF assms] nf by (simp add: subwhl_def hit_def Let_def)
    moreover have "settled ?t" using g nf assms(1) by (simp add: settled_def good_def)
    ultimately show ?thesis by (intro good_trans [OF g nf] subwhl_good) simp_all
  qed
  then show ?thesis using g by (simp add: unless_found_def)
qed

lemma patterns_good:
  assumes "settled s" "lines s = 0" "(g, f) \<in> set patterns" "g (ln 0 s)"
  shows "good s (f s)"
proof -
  have s: "length (line s) = 6" "\<not> found s" "lines s \<le> 1" using assms(1,2) by (simp_all add: settled_def)
  note M = mult_good [OF s(1,2) assms(2), of "''amul''" "''multw''" "''0edh,0d2h''", simplified] csv_good [OF s(1,2) assms(2)]
    mult_good [OF s(1,2) assms(2), of "''lmul''" "''multuw''" "''0edh,0d3h''", simplified] cret_good [OF s(1,2) assms(2), simplified]
  note L = ldw1_good [OF assms(1) s(3)] ldw2_good [OF assms(1) s(3)]
  note X = ldw3_good [OF assms(1) s(3), of "''ix''" "''0ddh''", simplified] ldw4_good [OF assms(1) s(3), of "''ix''" "''0ddh''", simplified]
    ldw3_good [OF assms(1) s(3), of "''iy''" "''0fdh''", simplified] ldw4_good [OF assms(1) s(3), of "''iy''" "''0fdh''", simplified]
  note P = pushed_good [OF assms(1) s(3), of "''ix''" "''2ah''" "''0ddh''" pushix, OF _ ext] pushed_good [OF assms(1) s(3), of "''iy''" "''32h''" "''0fdh''" pushiy, OF _ ext]
  show ?thesis using assms(3,4) unfolding patterns_def
    by (auto intro!: M L X P difference_good [OF assms(1) s(3), unfolded o_def] simp: pushix_def pushiy_def)
qed

lemma check_quiet: "triggers (ln 0 s) = [] \<Longrightarrow> check s = s"
  unfolding check_patterns by (rule fold_quiet) (auto simp: triggers_def filter_empty_conv)

lemma check_law:
  assumes "settled s" "lines s = 0" "clean (ln 0 s)"
  shows "good s (check s)"
proof (cases "triggers (ln 0 s) = []")
  case True
  then show ?thesis using check_quiet [OF True] settled_good assms(1,2) by simp
next
  case False
  let ?es = "filter (\<lambda>(g, f). g (ln 0 s)) patterns"
  have "triggers (ln 0 s) = map fst ?es" by (simp add: triggers_def filter_map o_def case_prod_unfold)
  then have "length ?es = 1" using False assms(3) by (cases ?es) (auto simp: clean_def)
  then obtain g f where e: "?es = [(g, f)]" by (cases ?es) auto
  then have m: "(g, f) \<in> set patterns" "g (ln 0 s)" by (metis (mono_tags, lifting) case_prod_conv list.set_intros(1) mem_Collect_eq set_filter)+
  have G: "good s (f s)" by (rule patterns_good [OF assms(1,2) m])
  have "check s = f s"
    unfolding check_patterns by (rule fold_guarded [OF e]) (use G assms(1) in \<open>auto simp: settled_def good_def split: if_splits\<close>)
  then show ?thesis using G by simp
qed

subsection \<open>The loops\<close>

definition progress :: "opt \<Rightarrow> bool" where
  "progress s \<longleftrightarrow> length (line s) = 6 \<and> lines s \<le> 3 \<and> (\<forall>j. 1 \<le> j \<and> j < lines s \<longrightarrow> follow (ln j s)) \<and> tame (pend s)"

lemma tame_append: "tame (ls @ ms) \<Longrightarrow> tame ms"
  by (induction ls) auto

lemma replaces_ne: "replaces w x \<Longrightarrow> w \<noteq> []"
  by (erule replaces.cases) auto

lemma rewritten_step: "w = [l] \<and> x = l \<or> replaces w x \<Longrightarrow> rewritten ls y \<Longrightarrow> rewritten (w @ ls) (x @ y)"
  using rewritten.intros(2,3) by auto

lemma rewritten_append: "rewritten v y \<Longrightarrow> rewritten ls z \<Longrightarrow> rewritten (v @ ls) (y @ z)"
  by (induction rule: rewritten.induct) (auto intro: rewritten.intros)

lemma step_law:
  assumes u: "length (line u) = 6" "\<not> found u" "lines u \<le> 3" "\<forall>j < lines u. follow (ln j u)" "tame (ln 0 u # pend u)"
  obtains w x where "ln 0 u # pend u = w @ pend (step u)" "outfile (step u) = outfile u @ x" "w = [ln 0 u] \<and> x = ln 0 u \<or> replaces w x"
    "progress (step u)"
proof (cases "triggers (ln 0 u) = []")
  case True
  then have s: "step u = put (ln 0 u) u" using u(2) by (simp add: step_def check_quiet)
  have p: "pend (step u) = pend u" by (simp add: s put_def pend_def)
  have "progress (step u)" using u p by (simp add: progress_def) (simp add: s put_def)
  then show ?thesis using that [of "[ln 0 u]" "ln 0 u"] p by (simp add: s put_def)
next
  case False
  have z: "lines u = 0"
  proof (rule ccontr)
    assume "lines u \<noteq> 0"
    then have "follow (ln 0 u)" using u(4) by blast
    then show False using u(5) False by (simp add: clean_def)
  qed
  have r: "settled u" using u(1,2,5) False by (simp add: settled_def)
  have g: "good u (check u)" using check_law [OF r z] u(5) by simp
  show ?thesis
  proof (cases "found (check u)")
    case True
    then obtain w x where w: "replaces w x" "ln 0 u # pend u = w @ pend (check u)" "outfile (check u) = outfile u @ x"
      using g by (auto simp: good_def)
    have "progress (check u)" using g True tame_append [of w "pend (check u)"] u(5) unfolding w(2) progress_def by (auto simp: good_def)
    then show ?thesis using that [of w x] w True by (simp add: step_def Let_def)
  next
    case False
    let ?t = "check u"
    have s: "step u = put (ln 0 ?t) ?t" using False by (simp add: step_def Let_def)
    have t: "pend ?t = pend u" "ln 0 ?t = ln 0 u" "outfile ?t = outfile u" using g False by (simp_all add: good_def)
    have p: "pend (step u) = pend u" unfolding t(1) [symmetric] by (simp add: s put_def pend_def)
    have "progress (step u)" using g False u(5) p by (simp add: progress_def good_def) (simp add: s put_def)
    then show ?thesis using that [of "[ln 0 u]" "ln 0 u"] p t by (simp add: s put_def)
  qed
qed

lemma shift_law:
  assumes "progress s" "0 < lines s"
  shows "pend s = ln 0 (shift s) # pend (shift s)" "length (line (shift s)) = 6" "\<not> found (shift s)" "lines (shift s) \<le> 3"
    "\<forall>j < lines (shift s). follow (ln j (shift s))" "outfile (shift s) = outfile s"
proof -
  have l: "length (line s) = 6" and f: "\<forall>j. 1 \<le> j \<and> j < lines s \<longrightarrow> follow (ln j s)" using assms(1) by (simp_all add: progress_def)
  have n: "j < 3 \<Longrightarrow> ln j (shift s) = ln (Suc j) s" for j using l by (auto simp: shift_def numeral_eq_Suc less_Suc_eq nth_list_update)
  have k: "lines s \<le> 3" "lines (shift s) = lines s - 1" "infile (shift s) = infile s" using assms(1) by (simp_all add: progress_def shift_def)
  have "map (\<lambda>j. ln j (shift s)) [0..<lines s] = map (\<lambda>j. ln (Suc j) s) [0..<lines s]" using n k(1) by simp
  also have "\<dots> = map (\<lambda>j. ln j s) [1..<Suc (lines s)]" unfolding map_Suc_upt [symmetric] One_nat_def by (simp add: o_def)
  finally have m: "map (\<lambda>j. ln j s) [1..<Suc (lines s)] = map (\<lambda>j. ln j (shift s)) [0..<lines s]" ..
  show "pend s = ln 0 (shift s) # pend (shift s)" unfolding pend_def m k(2,3) using assms(2) by (simp add: upt_conv_Cons del: upt_Suc)
  show "length (line (shift s)) = 6" "\<not> found (shift s)" "outfile (shift s) = outfile s" using l by (simp_all add: shift_def)
  show "lines (shift s) \<le> 3" using k by simp
  show "\<forall>j < lines (shift s). follow (ln j (shift s))" using n k f by auto
qed

lemma inner_loop_law:
  assumes "progress s"
  shows "\<exists>t w x. inner_loop s = Some t \<and> lines t = 0 \<and> length (line t) = 6 \<and> pend s = w @ pend t \<and> rewritten w x \<and> outfile t = outfile s @ x"
  using assms
proof (induction "length (pend s)" arbitrary: s rule: less_induct)
  case less
  show ?case
  proof (cases "lines s = 0")
    case True
    then show ?thesis using less.prems rewritten.nothing by (subst inner_loop.simps) (auto simp: progress_def)
  next
    case False
    note S = shift_law [OF less.prems False [unfolded neq0_conv]]
    have "tame (ln 0 (shift s) # pend (shift s))" using less.prems S(1) by (simp add: progress_def)
    from step_law [OF S(2-5) this] obtain w x where w: "pend s = w @ pend (step (shift s))" "outfile (step (shift s)) = outfile s @ x"
      "w = [ln 0 (shift s)] \<and> x = ln 0 (shift s) \<or> replaces w x" "progress (step (shift s))" unfolding S(1) [symmetric] S(6) by blast
    have "length (pend (step (shift s))) < length (pend s)" using w(1,3) replaces_ne by auto
    from less.hyps [OF this w(4)] obtain t v y where t: "inner_loop (step (shift s)) = Some t" "lines t = 0" "length (line t) = 6"
      "pend (step (shift s)) = v @ pend t" "rewritten v y" "outfile t = outfile (step (shift s)) @ y" by blast
    have "inner_loop s = Some t" using False t(1) by (subst inner_loop.simps) simp
    moreover have "pend s = (w @ v) @ pend t" "outfile t = outfile s @ (x @ y)" using w t by simp_all
    ultimately show ?thesis using t(2,3) rewritten_step [OF w(3) t(5)] by blast
  qed
qed

lemma outer_loop_law:
  assumes "length (line s) = 6" "tame (file_lines (infile s))"
  shows "\<exists>t x. outer_loop s = Some t \<and> rewritten (file_lines (infile s)) x \<and> outfile t = outfile s @ x"
  using assms
proof (induction "length (file_lines (infile s))" arbitrary: s rule: less_induct)
  case less
  show ?case
  proof (cases "infile s = []")
    case True
    then show ?thesis using rewritten.nothing by (subst outer_loop.simps) (auto simp: get_line_def)
  next
    case False
    from get_line_pend [OF False less.prems(1), of 0] obtain r where
      r: "get_line 0 s = (True, s\<lparr>infile := r, line := (line s)[0 := hd (file_lines (infile s))]\<rparr>)" "file_lines r = tl (file_lines (infile s))" by auto
    let ?u = "s\<lparr>infile := r, line := (line s)[0 := hd (file_lines (infile s))], lines := 0, found := False\<rparr>"
    have L: "ln 0 ?u # pend ?u = file_lines (infile s)" using less.prems(1) file_lines_ne [OF False] by (simp add: pend_def r(2))
    have u: "length (line ?u) = 6" "\<not> found ?u" "lines ?u \<le> 3" "\<forall>j < lines ?u. follow (ln j ?u)" "outfile ?u = outfile s"
      using less.prems(1) by simp_all
    from step_law [OF u(1-4)] obtain w x where w: "file_lines (infile s) = w @ pend (step ?u)" "outfile (step ?u) = outfile s @ x"
      "w = [ln 0 ?u] \<and> x = ln 0 ?u \<or> replaces w x" "progress (step ?u)" using less.prems(2) unfolding L u(5) by blast
    from inner_loop_law [OF w(4)] obtain t v y where t: "inner_loop (step ?u) = Some t" "lines t = 0" "length (line t) = 6"
      "pend (step ?u) = v @ pend t" "rewritten v y" "outfile t = outfile (step ?u) @ y" by blast
    have f: "file_lines (infile s) = (w @ v) @ file_lines (infile t)" using w(1) t(2,4) by (simp add: pend_def)
    have "w \<noteq> []" using w(3) replaces_ne by auto
    then have "length (file_lines (infile t)) < length (file_lines (infile s))" unfolding f by simp
    moreover have "tame (file_lines (infile t))" using less.prems(2) tame_append unfolding f by blast
    ultimately obtain t' z where z: "outer_loop t = Some t'" "rewritten (file_lines (infile t)) z" "outfile t' = outfile t @ z"
      using less.hyps [OF _ t(3)] by blast
    have "outer_loop s = Some t'" by (subst outer_loop.simps) (simp add: r(1) t(1) z(1))
    moreover have "rewritten (file_lines (infile s)) (x @ y @ z)"
      unfolding f append_assoc by (rule rewritten_step [OF w(3) rewritten_append [OF t(5) z(2)]])
    moreover have "outfile t' = outfile s @ (x @ y @ z)" using w(2) t(6) z(3) by simp
    ultimately show ?thesis by blast
  qed
qed

text \<open>C11: the optimizer comes to an end on a file of clean lines with three more behind every line that begins a replacement, and its output
  is the lines of the file, each copied or replaced with the lines behind it according to the table, and then the statistics.
\<close>

theorem optimizer_rewrites_lines:
  assumes "tame (file_lines input)"
  shows "\<exists>x c r. optimize input = Some (x @ statistics c r) \<and> rewritten (file_lines input) x"
proof -
  let ?s = "\<lparr>infile = input, outfile = [], line = replicate 6 [], textbuf = [], lines = 0, found = False, count = 0, repl = 0\<rparr>"
  from outer_loop_law [of ?s] assms obtain t x where "outer_loop ?s = Some t" "rewritten (file_lines input) x" "outfile t = x" by auto
  then show ?thesis unfolding optimize_def by auto
qed

text \<open>The entry of a function, and an addition to the frame pointer.\<close>

definition sample_file :: string where
  "sample_file =
     ''f:'' @ [nl] @ ''call csv'' @ [nl] @ ''push'' @ [tab] @ ''ix'' @ [nl] @ ''pop'' @ [tab] @ ''de'' @ [nl] @
     ''ld'' @ [tab] @ ''hl,-2'' @ [nl] @ ''add'' @ [tab] @ ''hl,de'' @ [nl] @ ''jp'' @ [tab] @ ''x'' @ [nl]"

theorem optimizer_rewrites_lines_witness:
  "tame (file_lines sample_file) \<and> (\<exists>x c r. optimize sample_file = Some (x @ statistics c r) \<and> rewritten (file_lines sample_file) x)"
proof -
  have "tame (file_lines sample_file)" by code_simp
  then show ?thesis using optimizer_rewrites_lines [of sample_file] by blast
qed

end
