(* ===== verification/Spec2Isabelle.thy ===== *)
theory Spec2Isabelle
  imports Console Names Descriptors FileTrunc Waiting Clock Uart Mkfs ExecImage FsckDepth FsckWhole Rewriting
begin

text \<open>
  A verification development for the kernel of UZI280, the Unix of the Z280RC computer
  (\<^verbatim>\<open>src/system/uzi280-kernel\<close>), for the utilities that make and check its file
  systems (MKFS.C and FSCK2.C in \<^verbatim>\<open>src/system/uzi280-xutils\<close>), and for the optimizer with which it is built (OPTIMH.C). File names without a directory are those of the kernel.

  \<^bold>\<open>The program and its model.\<close>
  The kernel is one program without threads: system calls, the clock and terminal interrupts and the page fault trap
  enter it, and a process that waits calls \<^verbatim>\<open>swapout\<close>. Its state is a number of C variables. The model has three
  records, each of which extends or contains the one below:
  \<^item> \<open>hdst\<close> (theory HardDisk): the CompactFlash card, the write-back cache and the registers of the driver.
  \<^item> \<open>bst\<close> (Buffers) with the buffer pool and \<open>u_error\<close>, and \<open>kst\<close> (State), which extends it with all tables
    of EXTERN.H and with the fields of \<^verbatim>\<open>udata\<close>. The user memory of the running process is here a flat
    array \<open>umem\<close> with a flag for each of its pages (\<open>upages\<close>).
  \<^item> \<open>vm\<close> (Memory) with the page descriptors, the MMU, the physical memory and the saved user blocks of all processes
    around a \<open>kst\<close>.
  A pointer into a table is an index, NULL is \<open>None\<close>. \<^verbatim>\<open>int\<close> and \<^verbatim>\<open>unsigned\<close> are \<open>u16\<close> words, \<^verbatim>\<open>char\<close>
  is \<open>u8\<close>; comparisons are signed (\<open>sint\<close>) where the source's are. An operation is a function that returns its result with
  the new state; where it can panic, follow a wild pointer or not return it is in the option monad, and \<open>None\<close>
  (\<open>panic\<close>, \<open>wild\<close>) means that it does not return to its caller. Failures reported with \<^verbatim>\<open>u_error\<close> are ordinary results.

  \<^bold>\<open>The theories.\<close>
  \<^item> Prelude: types, option monad, loops (\<open>scan\<close>, \<open>foldM\<close>), words and byte strings.
  \<^item> BlockStore: the contract of a store of blocks as a locale, with which a cache refines an array.
  \<^item> HardDisk: CACHE.C, CACHASM.C, DEVWD.C, IDECONF.C. \<open>wd_read\<close>, \<open>wd_write\<close>, \<open>ca_sync\<close>, \<open>int_ca_sync\<close>; \<open>hd_ok\<close> is the
    invariant and \<open>hview\<close> the array the card and the cache stand for.
  \<^item> Buffers: the pool of DEVIO.C. \<open>bread\<close>, \<open>bfree\<close>, \<open>freebuf\<close>, \<open>bufsync\<close>; \<open>pool_ok\<close> is the invariant (\<open>calm\<close>, \<open>quiet\<close>: with
    the given, with no held buffers), \<open>bview\<close> the disk as the file system sees it. Both caches interpret the locale of BlockStore.
  \<^item> CharQueue: the character queues of DEVIO.C, and their contract as a locale (a bounded double-ended sequence).
  \<^item> State, Layout, Sample: the kernel's data (UNIX.H, CONFIG.H, EXTERN.H), its byte layout on disk, a concrete state for the witnesses.
  \<^item> Sched, Process: PROCESS.C, SCALL2.C, SCALL3.C: sleep and wakeup, signals, process table, fork and exit as far as the kernel
    tables go, the clock interrupt, the calls of the two SCALL files.
  \<^item> Inode, Files, Paths, FsCalls: FILESYS.C, SCALL1.C, SCALL1B.C: block and inode allocation, inode table, block map and offsets, open files,
    path names, mounts, the file system calls.
  \<^item> Tty, Uart, Devices: DEVTTY.C (for the configuration with the serial line as only terminal), the receive interrupt of DEVTTYAS.C, DEVMISC.C,
    DEVMT.C, DEVFLOP.C. Clock: the reading of the clock chip (\<open>rdtod\<close>, \<open>getclk\<close> in MACHASM.C).
  \<^item> Syscalls: \<^verbatim>\<open>unix2\<close> and its table (DATA.C). Console: ITOB.C, KPRINTF.C.
  \<^item> Memory: the pages of MACHDEP.C, MACHASM.C, SCALL2.C, PROCASM.C: \<open>getpag\<close>, \<open>pg_alloc\<close>, \<open>swapout\<close>, \<open>swapin\<close>, \<open>dofork\<close>, programs
    kept in memory (\<open>make_zombie\<close>, \<open>give_pages\<close>). UserPages: NEWUPUT.C on the page tables. Exec: SCALL4.C, \<open>sys_execve\<close>.
  \<^item> Mkfs: MKFS.C on the kernel's pool. Fsck: FSCK2.C, whose variables are the record \<open>fsck\<close> over \<open>bst\<close> (superblock, block marks, link
    counts, depth, the characters the user types, and what lies behind \<^verbatim>\<open>filsys\<close> in memory, which a block write of it includes).
  \<^item> Peephole: OPTIMH.C, a program of its own over the record \<open>opt\<close> (the two files, the line buffers and the counters).

  \<^bold>\<open>What the lemmas show.\<close>
  \<^item> HardDisk, Buffers: every access through a cache behaves as on a plain array, a sync brings it to the card, and the pool panics exactly
    when its buffers are exhausted or a held block is asked for.
  \<^item> FreeList: the free list of a file system is a stack, spilled to disk in chunks; allocation and freeing are pop and push. Mkfs: what
    \<^verbatim>\<open>mkfs\<close> leaves on the device is mounted by a kernel with buffers of its own, with a free list that holds all data blocks but the first, and a root directory.
  \<^item> FreeBuild: the loop that fills a superblock with free blocks, shared by \<^verbatim>\<open>mkfs\<close> and pass 2 of \<^verbatim>\<open>fsck\<close>. FsckDisk, FsckFree, FsckMarks:
    block access of the checker, and that its first two passes leave the stack of exactly the unused blocks. FsckDups, FsckLinks, FsckWhole: on a
    consistent file system passes 3 to 5 change nothing, and so the whole program. FsckDepth: the recursion is bounded by \<open>MAXDEPTH\<close>.
  \<^item> InodeTable: an inode is at most once in the table, loaded on the first reference and written back with the last one.
  \<^item> Names, Offsets: name comparison, directory search, the block map as a radix tree, file offsets as byte positions.
  \<^item> FileTree, FileAlloc: the blocks of a file as a forest under the twenty addresses of its inode; \<^verbatim>\<open>bmap\<close> that allocates hangs fresh blocks into
    it and changes no content. \<open>file_ok k xs s\<close> says that the file of inode \<open>k\<close> is such a forest of distinct blocks that are not among the free
    blocks \<open>xs\<close>. FileData, FileWrite: \<^verbatim>\<open>readi\<close> and \<^verbatim>\<open>writei\<close> on it, with the file as a function from positions to bytes (\<open>fbyte\<close>). FileIO: the
    calls \<^verbatim>\<open>read\<close>, \<^verbatim>\<open>write\<close> and \<^verbatim>\<open>seek\<close> of an open descriptor (\<open>opened\<close>). FileTrunc: truncation gives all blocks back.
  \<^item> Frames: what the release of blocks and inodes leaves alone, as a locale over relations of states. Descriptors: \<open>typed\<close>, exact reference counts
    from the descriptors through the open files to the inodes, kept by \<^verbatim>\<open>close\<close>, \<^verbatim>\<open>dup\<close>, \<^verbatim>\<open>dup2\<close>.
  \<^item> LineEdit, UserMem: the terminal as a line editor; transfers between kernel and user memory. Uart: in the fast mode the
    interrupt fills the queue as \<^verbatim>\<open>insq\<close> does while there is room.
  \<^item> Scheduling, Signals, ExitWait: process numbers, round robin, signal delivery, the hand-over from exit to wait. Waiting: only sleeping entries
    of the process table wait for an event, an invariant of the steps \<open>sched_step\<close>, on which what \<^verbatim>\<open>wakeup\<close> does rests.
  \<^item> Clock: the bits of the chip's registers become the packed words of the time of day (\<open>serves\<close> is the protocol of the chip).
  \<^item> Paging, Switching, Forking: the invariant \<open>vm_ok\<close> of the page tables (reference counts, write protection of shared pages, MMU), and that stores, page
    faults, process switches and forks leave to every process the memory it should see; \<open>sys_ok\<close> adds the user blocks.
  \<^item> UserPages: the transfers through the page tables refine those of the flat memory of State (\<open>flat\<close> is the abstraction, \<open>grown\<close> the relation
    between the states before and after, \<open>enough\<close> says that free pages remain for all faults of the transfer).
  \<^item> Rewriting: the optimizer as a rewriting of the lines of a file by a table of replacements (\<open>replaces\<close>, \<open>rewritten\<close>), with \<open>good\<close> as the
    relation between the states before and after one line, and \<open>tame\<close> for the files on which its look-ahead is safe.
  \<^item> ExecArgs, ExecImage: \<^verbatim>\<open>execve\<close> carries the argument vectors to the new stack and replaces the image without touching other memories.

  \<^bold>\<open>Interfaces.\<close> The locales are \<open>block_store\<close> (interpreted on the disk driver and on the buffer pool), \<open>char_queue\<close> (CharQueue,
  interpreted on \<open>insq\<close>, \<open>remq\<close>, \<open>uninsq\<close>, \<open>clrq\<close>), \<open>free_builder\<close> (FreeBuild, interpreted on the block writes of \<^verbatim>\<open>mkfs\<close> and of \<^verbatim>\<open>fsck\<close>)
  and \<open>silent\<close> (Frames, interpreted on the relations \<open>steady\<close> of ExitWait and \<open>same_desc\<close> of Descriptors). The properties and their witnesses are outside of them.

  \<^bold>\<open>Parameters.\<close> \<open>switch\<close>: what happens while a process of the \<open>kst\<close> level is not running (the time between \<^verbatim>\<open>swapout\<close> and
  the return from it, in which other processes change the kernel) is an argument of the operations that may sleep. The clock chip is a function from what has been
  put out to its port to what is read there, the answers of the user are a list. The DMA controller is taken to transfer nothing when its count is 0, which
  happens at a transfer to user memory that ends at a page end; the sources do not say what it does then.

  \<^bold>\<open>Bounds and termination.\<close> Counted loops run over the constants of the configuration (38 buffers, 45 inodes and open files, 30 processes,
  22 descriptors); \<open>scan\<close> and \<open>foldM\<close> terminate by a measure or structurally. Loops that may not end are partial functions of the option monad:
  the search for a process number (shown to end within 31 steps), the scheduler (shown to end within 30 when a process is ready; with none it
  waits for an interrupt in the source), the loops of the optimizer (shown to end on tame files), of \<^verbatim>\<open>wait\<close>, of the terminal and of the allocators that free remembered programs.
  The recursion of \<^verbatim>\<open>ckdir\<close> has the fuel \<open>MAXDEPTH\<close>; that more changes nothing is a property.

  \<^bold>\<open>Not modelled.\<close>
  \<^item> The saved registers and the kernel stack of a process switch, the trap and interrupt entries of MACHASM.C, the timer and DMA
    registers, \<^verbatim>\<open>init2\<close> and the start-up code. The instructions \<^verbatim>\<open>LDUD\<close> and \<^verbatim>\<open>STUD\<close> are modelled by their effect through the MMU.
  \<^item> Swapping to disk, which the source does not implement; the windows and bus terminals of other configurations.
  \<^item> Messages on the console, except in \<open>kprintf\<close> itself; \<^verbatim>\<open>/dev/kmem\<close>; \<^verbatim>\<open>bufdump\<close>, \<^verbatim>\<open>pageread\<close>, \<^verbatim>\<open>pagewrite\<close>.
  \<^item> The CP/M transfer utility: XFS1.C and XFS2.C are older copies of FILESYS.C and SCALL1.C, XFS.C is both in one file, and the interpreter that
    calls them is there as an object file only; FSCK.C, a predecessor of FSCK2.C that does not
    link; \<^verbatim>\<open>xfs_init\<close>, with which \<^verbatim>\<open>fsck\<close> starts; the start-up code of programs, the file
    names and console messages of the optimizer.
\<close>

end
